(* ===== verification/Prelude.thy ===== *)
theory Prelude
  imports Main "HOL-Library.AList" "HOL-Library.List_Lexorder" "HOL-Library.Char_ord"
    "HOL-Library.Product_Lexorder" "HOL-Library.Multiset"
begin

text \<open>
  Shared vocabulary of the development: results with Python exceptions as values, Python
  dictionaries as insertion-ordered association lists, Python text as UTF-8 bytes with the
  operations of \<^verbatim>\<open>str\<close> the sources use, and the generic lemmas the component
  theories share.

  Text is modelled by its UTF-8 encoding, a \<^typ>\<open>string\<close> of bytes, so that
  \<^verbatim>\<open>s.encode("utf-8")\<close> is the identity and the byte-wise lexicographic order is
  Python's code-point order. Where the source counts code points or recognises non-ASCII
  white space or line breaks, the operation goes through \<open>uchars\<close>, which groups the
  bytes of each code point.
\<close>

named_theorems py_simps \<open>evaluation rules of the Python text and dictionary operations\<close>
named_theorems wf_intros \<open>introduction rules for the well-formedness invariants\<close>

section \<open>Results\<close>

text \<open>A computation that may raise: \<open>Inl\<close> carries the exception, \<open>Inr\<close> the value.\<close>

type_synonym ('e, 'a) res = "'e + 'a"

fun res_bind :: "('e, 'a) res \<Rightarrow> ('a \<Rightarrow> ('e, 'b) res) \<Rightarrow> ('e, 'b) res" where
  "res_bind (Inl e) f = Inl e"
| "res_bind (Inr x) f = f x"

definition require :: "bool \<Rightarrow> 'e \<Rightarrow> ('e, unit) res" where
  "require b e = (if b then Inr () else Inl e)"

fun is_ok :: "('e, 'a) res \<Rightarrow> bool" where
  "is_ok (Inl e) = False"
| "is_ok (Inr x) = True"

lemma require_simps [simp]:
  "require True e = Inr ()"
  "require False e = Inl e"
  by (simp_all add: require_def)

lemma require_Inr_iff [simp]: "require b e = Inr u \<longleftrightarrow> b"
  by (simp add: require_def)

lemma require_Inl_iff [simp]: "require b e = Inl e' \<longleftrightarrow> \<not> b \<and> e' = e"
  by (auto simp: require_def)

lemma res_bind_Inr_iff: "res_bind m f = Inr y \<longleftrightarrow> (\<exists>x. m = Inr x \<and> f x = Inr y)"
  by (cases m) auto

lemma res_bind_Inl_iff:
  "res_bind m f = Inl e \<longleftrightarrow> m = Inl e \<or> (\<exists>x. m = Inr x \<and> f x = Inl e)"
  by (cases m) auto

lemma res_bind_cong [fundef_cong]:
  assumes "m = m'" and "\<And>x. m' = Inr x \<Longrightarrow> f x = g x"
  shows "res_bind m f = res_bind m' g"
  using assms by (cases m) auto

text \<open>A loop over a list whose body may raise: it stops at the first exception.\<close>

fun each :: "('a \<Rightarrow> ('e, unit) res) \<Rightarrow> 'a list \<Rightarrow> ('e, unit) res" where
  "each f [] = Inr ()"
| "each f (x # xs) = res_bind (f x) (\<lambda>_. each f xs)"

lemma each_Inr_iff: "each f xs = Inr () \<longleftrightarrow> (\<forall>x \<in> set xs. f x = Inr ())"
  by (induction xs) (auto simp: res_bind_Inr_iff)

lemma each_cong [fundef_cong]:
  assumes "xs = ys" and "\<And>x. x \<in> set ys \<Longrightarrow> f x = g x"
  shows "each f xs = each g ys"
proof -
  have "(\<And>x. x \<in> set ys \<Longrightarrow> f x = g x) \<Longrightarrow> each f ys = each g ys"
    by (induction ys) (auto intro: res_bind_cong)
  with assms show ?thesis by simp
qed

lemma foldl_invariant:
  "P s \<Longrightarrow> (\<And>s x. P s \<Longrightarrow> x \<in> set xs \<Longrightarrow> P (f s x)) \<Longrightarrow> P (foldl f s xs)"
  by (induction xs arbitrary: s) auto

lemma in_map_filter: "y \<in> set (List.map_filter f xs) \<longleftrightarrow> (\<exists>x \<in> set xs. f x = Some y)"
  by (induction xs) (auto simp: List.map_filter_simps split: option.splits)

section \<open>Dictionaries\<close>

text \<open>
  A Python dictionary keeps insertion order: assigning an existing key keeps its position,
  assigning a new key appends it. This is the behaviour of \<^const>\<open>AList.update\<close>.
\<close>

type_synonym ('k, 'v) dict = "('k \<times> 'v) list"

definition dget :: "('k, 'v) dict \<Rightarrow> 'k \<Rightarrow> 'v option" where
  "dget d k = map_of d k"

definition dput :: "'k \<Rightarrow> 'v \<Rightarrow> ('k, 'v) dict \<Rightarrow> ('k, 'v) dict" where
  "dput k v d = AList.update k v d"

definition dpop :: "'k \<Rightarrow> ('k, 'v) dict \<Rightarrow> ('k, 'v) dict" where
  "dpop k d = AList.delete k d"

definition dhas :: "('k, 'v) dict \<Rightarrow> 'k \<Rightarrow> bool" where
  "dhas d k \<longleftrightarrow> dget d k \<noteq> None"

definition dsetdefault :: "'k \<Rightarrow> 'v \<Rightarrow> ('k, 'v) dict \<Rightarrow> ('k, 'v) dict" where
  "dsetdefault k v d = (if dhas d k then d else dput k v d)"

definition dkeys :: "('k, 'v) dict \<Rightarrow> 'k list" where
  "dkeys d = map fst d"

definition dvalues :: "('k, 'v) dict \<Rightarrow> 'v list" where
  "dvalues d = map snd d"

text \<open>\<^verbatim>\<open>{**a, **b}\<close> and \<^verbatim>\<open>dict(pairs)\<close>.\<close>

definition dupdate :: "('k, 'v) dict \<Rightarrow> ('k, 'v) dict \<Rightarrow> ('k, 'v) dict" where
  "dupdate a b = fold (\<lambda>(k, v). dput k v) b a"

definition dict_of :: "('k \<times> 'v) list \<Rightarrow> ('k, 'v) dict" where
  "dict_of ps = dupdate [] ps"

definition wf_dict :: "('k, 'v) dict \<Rightarrow> bool" where
  "wf_dict d \<longleftrightarrow> distinct (map fst d)"

text \<open>The contract of a dictionary, on which the stores of the components rely.\<close>

locale py_dict =
  fixes empty :: "'d" and lookup :: "'d \<Rightarrow> 'k \<Rightarrow> 'v option"
    and insert :: "'k \<Rightarrow> 'v \<Rightarrow> 'd \<Rightarrow> 'd" and remove :: "'k \<Rightarrow> 'd \<Rightarrow> 'd"
    and invar :: "'d \<Rightarrow> bool"
  assumes lookup_empty: "lookup empty k = None"
    and lookup_insert: "lookup (insert k v d) k' = (if k' = k then Some v else lookup d k')"
    and lookup_remove: "invar d \<Longrightarrow> lookup (remove k d) k' = (if k' = k then None else lookup d k')"
    and invar_empty: "invar empty"
    and invar_insert: "invar d \<Longrightarrow> invar (insert k v d)"
    and invar_remove: "invar d \<Longrightarrow> invar (remove k d)"
begin

lemma lookup_insert_same: "lookup (insert k v d) k = Some v"
  by (simp add: lookup_insert)

lemma lookup_insert_other: "k' \<noteq> k \<Longrightarrow> lookup (insert k v d) k' = lookup d k'"
  by (simp add: lookup_insert)

lemma lookup_fold_insert:
  "lookup (fold (\<lambda>(k, v). insert k v) ps d) k =
     (case map_of (rev ps) k of None \<Rightarrow> lookup d k | Some v \<Rightarrow> Some v)"
proof (induction ps arbitrary: d)
  case Nil
  then show ?case by simp
next
  case (Cons p ps)
  obtain a b where "p = (a, b)" by (cases p)
  with Cons show ?case
    by (auto simp: lookup_insert map_add_def split: option.splits)
qed

lemma invar_fold_insert: "invar d \<Longrightarrow> invar (fold (\<lambda>(k, v). insert k v) ps d)"
  by (induction ps arbitrary: d) (auto simp: invar_insert)

end

lemma dget_dput: "dget (dput k v d) k' = (if k' = k then Some v else dget d k')"
  by (simp add: dget_def dput_def update_conv')

lemma dget_dpop: "dget (dpop k d) k' = (if k' = k then None else dget d k')"
  by (simp add: dget_def dpop_def delete_conv')

interpretation dict: py_dict "[]" dget dput dpop wf_dict
  by unfold_locales
    (simp_all only: dget_dput dget_dpop, simp_all add: dget_def wf_dict_def dput_def dpop_def
      distinct_update distinct_delete)

lemma dget_Nil [simp]: "dget [] k = None"
  by (simp add: dget_def)

lemma dget_Cons [simp]: "dget ((k, v) # d) k' = (if k' = k then Some v else dget d k')"
  by (auto simp: dget_def)

lemma dget_dput_simps [simp]:
  "dget (dput k v d) k = Some v"
  "k' \<noteq> k \<Longrightarrow> dget (dput k v d) k' = dget d k'"
  by (simp_all add: dget_dput)

lemma dput_simps [py_simps]:
  "dput k v [] = [(k, v)]"
  "dput k v ((k', v') # d) = (if k' = k then (k', v) # d else (k', v') # dput k v d)"
  by (simp_all add: dput_def)

lemma dpop_simps [py_simps]:
  "dpop k [] = []"
  "dpop k ((k', v') # d) = (if k' = k then dpop k d else (k', v') # dpop k d)"
  by (simp_all add: dpop_def AList.delete_simps)

lemma wf_dict_Nil [simp]: "wf_dict []"
  by (simp add: wf_dict_def)

lemma wf_dict_dput [simp, wf_intros]: "wf_dict d \<Longrightarrow> wf_dict (dput k v d)"
  by (rule dict.invar_insert)

lemma wf_dict_dpop [simp, wf_intros]: "wf_dict d \<Longrightarrow> wf_dict (dpop k d)"
  by (rule dict.invar_remove)

lemma wf_dict_dsetdefault [simp, wf_intros]: "wf_dict d \<Longrightarrow> wf_dict (dsetdefault k v d)"
  by (simp add: dsetdefault_def)

lemma dget_dsetdefault:
  "dget (dsetdefault k v d) k' =
     (if k' = k then Some (case dget d k of None \<Rightarrow> v | Some w \<Rightarrow> w) else dget d k')"
  by (auto simp: dsetdefault_def dhas_def split: option.splits)

lemma wf_dict_dupdate [simp, wf_intros]: "wf_dict a \<Longrightarrow> wf_dict (dupdate a b)"
  by (simp add: dupdate_def dict.invar_fold_insert)

lemma wf_dict_dict_of [simp, wf_intros]: "wf_dict (dict_of ps)"
  by (simp add: dict_of_def)

lemma dget_dupdate:
  "dget (dupdate a b) k = (case map_of (rev b) k of None \<Rightarrow> dget a k | Some v \<Rightarrow> Some v)"
  by (simp add: dupdate_def dict.lookup_fold_insert)

lemma dget_in_set: "dget d k = Some v \<Longrightarrow> (k, v) \<in> set d"
  by (simp add: dget_def map_of_SomeD)

lemma wf_dict_dget_iff: "wf_dict d \<Longrightarrow> dget d k = Some v \<longleftrightarrow> (k, v) \<in> set d"
  by (simp add: dget_def wf_dict_def)

lemma dget_None_iff: "dget d k = None \<longleftrightarrow> k \<notin> set (map fst d)"
  by (simp add: dget_def map_of_eq_None_iff)

lemma dhas_iff: "dhas d k \<longleftrightarrow> k \<in> set (map fst d)"
  by (simp add: dhas_def dget_None_iff)

lemma dput_new: "dget d k = None \<Longrightarrow> dput k v d = d @ [(k, v)]"
  by (induction d) (auto simp: dput_def dget_def split: if_splits)

lemma dict_of_distinct:
  assumes "distinct (map fst ps)"
  shows "dict_of ps = ps"
proof -
  have "distinct (map fst (acc @ ps)) \<Longrightarrow> fold (\<lambda>(k, v). dput k v) ps acc = acc @ ps" for acc
  proof (induction ps arbitrary: acc)
    case Nil
    then show ?case by simp
  next
    case (Cons p ps)
    obtain k v where p: "p = (k, v)" by (cases p)
    with Cons.prems have "dget acc k = None" by (auto simp: dget_None_iff)
    with Cons p show ?case by (auto simp: dput_new)
  qed
  from this [of "[]"] assms show ?thesis by (simp add: dict_of_def dupdate_def)
qed

section \<open>Text\<close>

definition is_cont :: "char \<Rightarrow> bool" where
  "is_cont c \<longleftrightarrow> (128 \<le> (of_char c :: nat) \<and> (of_char c :: nat) < 192)"

text \<open>The code points of a text, each as its bytes.\<close>

function uchars :: "string \<Rightarrow> string list" where
  "uchars [] = []"
| "uchars (c # cs) = (c # takeWhile is_cont cs) # uchars (dropWhile is_cont cs)"
  by pat_completeness auto
termination
  by (relation "measure length") (auto simp: length_dropWhile_le less_Suc_eq_le)

lemma concat_uchars [simp]: "concat (uchars s) = s"
  by (induction s rule: uchars.induct) auto

text \<open>\<^verbatim>\<open>len(s)\<close> and \<^verbatim>\<open>s[:n]\<close>.\<close>

definition py_len :: "string \<Rightarrow> nat" where
  "py_len s = length (uchars s)"

definition py_take :: "nat \<Rightarrow> string \<Rightarrow> string" where
  "py_take n s = concat (take n (uchars s))"

text \<open>The line boundaries of \<^verbatim>\<open>str.splitlines\<close>; \<^verbatim>\<open>"\r\n"\<close> is one boundary.\<close>

definition is_line_break :: "string \<Rightarrow> bool" where
  "is_line_break u \<longleftrightarrow>
     u \<in> {[CHR 0x0A], [CHR 0x0B], [CHR 0x0C], [CHR 0x0D], [CHR 0x1C], [CHR 0x1D], [CHR 0x1E],
          [CHR 0xC2, CHR 0x85], [CHR 0xE2, CHR 0x80, CHR 0xA8], [CHR 0xE2, CHR 0x80, CHR 0xA9]}"

fun split_u :: "string list \<Rightarrow> string \<Rightarrow> string list" where
  "split_u [] cur = (if cur = [] then [] else [cur])"
| "split_u [u] cur = (if is_line_break u then [cur] else [cur @ u])"
| "split_u (u # v # us) cur =
     (if u = [CHR 0x0D] \<and> v = [CHR 0x0A] then cur # split_u us []
      else if is_line_break u then cur # split_u (v # us) []
      else split_u (v # us) (cur @ u))"

definition splitlines :: "string \<Rightarrow> string list" where
  "splitlines s = split_u (uchars s) []"

text \<open>The white space of \<^verbatim>\<open>str.strip\<close>.\<close>

definition is_space :: "string \<Rightarrow> bool" where
  "is_space u \<longleftrightarrow> is_line_break u \<or>
     u \<in> {[CHR 0x09], [CHR 0x1F], [CHR 0x20], [CHR 0xC2, CHR 0xA0],
          [CHR 0xE1, CHR 0x9A, CHR 0x80], [CHR 0xE2, CHR 0x80, CHR 0xAF],
          [CHR 0xE2, CHR 0x81, CHR 0x9F], [CHR 0xE3, CHR 0x80, CHR 0x80]} \<or>
     (\<exists>c \<in> set [CHR 0x80, CHR 0x81, CHR 0x82, CHR 0x83, CHR 0x84, CHR 0x85, CHR 0x86,
            CHR 0x87, CHR 0x88, CHR 0x89, CHR 0x8A]. u = [CHR 0xE2, CHR 0x80, c])"

definition strip :: "string \<Rightarrow> string" where
  "strip s = concat (rev (dropWhile is_space (rev (dropWhile is_space (uchars s)))))"

text \<open>\<^verbatim>\<open>s in t\<close>.\<close>

fun contains :: "string \<Rightarrow> string \<Rightarrow> bool" where
  "contains s [] = (s = [])"
| "contains s (c # cs) = (take (length s) (c # cs) = s \<or> contains s cs)"

fun join :: "string \<Rightarrow> string list \<Rightarrow> string" where
  "join sep [] = []"
| "join sep [x] = x"
| "join sep (x # y # xs) = x @ sep @ join sep (y # xs)"

lemma uchars_not_cont:
  "c # cs = s \<Longrightarrow> \<not> is_cont c \<Longrightarrow> uchars s = (c # takeWhile is_cont cs) # uchars (dropWhile is_cont cs)"
  by auto

lemma dropWhile_append_cont:
  assumes "t = [] \<or> \<not> is_cont (hd t)"
  shows "dropWhile is_cont (s @ t) = dropWhile is_cont s @ t
       \<and> takeWhile is_cont (s @ t) = takeWhile is_cont s"
proof (induction s)
  case Nil
  with assms show ?case by (cases t) auto
next
  case (Cons c s)
  then show ?case by simp
qed

lemma uchars_append:
  assumes "t = [] \<or> \<not> is_cont (hd t)"
  shows "uchars (s @ t) = uchars s @ uchars t"
proof (induction s rule: uchars.induct)
  case 1
  then show ?case by simp
next
  case (2 c cs)
  then show ?case using dropWhile_append_cont [OF assms, of cs] by simp
qed

lemma uchars_nonempty: "u \<in> set (uchars s) \<Longrightarrow> u \<noteq> []"
  by (induction s rule: uchars.induct) auto

lemma uchars_eq_Nil_iff [simp]: "uchars s = [] \<longleftrightarrow> s = []"
  by (cases s) auto

text \<open>A text without line boundaries is one line; a line feed ends a line.\<close>

definition one_line :: "string \<Rightarrow> bool" where
  "one_line s \<longleftrightarrow> (\<forall>u \<in> set (uchars s). \<not> is_line_break u)"

lemma line_break_LF [simp]: "is_line_break [CHR 0x0A]"
  by (simp add: is_line_break_def)

lemma split_u_line:
  assumes "\<forall>u \<in> set us. \<not> is_line_break u"
  shows "split_u (us @ [CHR 0x0A] # vs) cur = (cur @ concat us) # split_u vs []"
  using assms
proof (induction us arbitrary: cur)
  case Nil
  then show ?case by (cases vs) (auto simp: is_line_break_def)
next
  case (Cons u us)
  then have nb: "\<not> is_line_break u" by simp
  then have "u \<noteq> [CHR 0x0D]" by (auto simp: is_line_break_def)
  with Cons nb show ?case by (cases us) auto
qed

lemma splitlines_append_line:
  assumes "one_line s" and "t = [] \<or> \<not> is_cont (hd t)"
  shows "splitlines (s @ [CHR 0x0A] @ t) = s # splitlines t"
proof -
  have "uchars (s @ [CHR 0x0A] @ t) = uchars s @ uchars ([CHR 0x0A] @ t)"
    by (rule uchars_append) (simp add: is_cont_def)
  also have "uchars ([CHR 0x0A] @ t) = uchars [CHR 0x0A] @ uchars t"
    using assms(2) by (rule uchars_append)
  finally have "uchars (s @ [CHR 0x0A] @ t) = uchars s @ [CHR 0x0A] # uchars t"
    by simp
  with assms(1) show ?thesis
    by (simp add: splitlines_def split_u_line one_line_def)
qed

definition unlines :: "string list \<Rightarrow> string" where
  "unlines ls = concat (map (\<lambda>l. l @ [CHR 0x0A]) ls)"

lemma unlines_simps [simp]:
  "unlines [] = []"
  "unlines (l # ls) = l @ [CHR 0x0A] @ unlines ls"
  "unlines (ls @ ks) = unlines ls @ unlines ks"
  by (simp_all add: unlines_def)

text \<open>Lines written one by one with a line feed are read back by \<open>splitlines\<close>.\<close>

lemma splitlines_unlines:
  assumes "\<forall>l \<in> set ls. one_line l \<and> l \<noteq> [] \<and> \<not> is_cont (hd l)"
  shows "splitlines (unlines ls) = ls"
  using assms
proof (induction ls)
  case Nil
  then show ?case by (simp add: splitlines_def)
next
  case (Cons l ls)
  have "unlines ls = [] \<or> \<not> is_cont (hd (unlines ls))"
    using Cons.prems by (cases ls) auto
  then have "splitlines (l @ [CHR 0x0A] @ unlines ls) = l # splitlines (unlines ls)"
    using Cons.prems by (intro splitlines_append_line) auto
  with Cons show ?case by simp
qed

lemma strip_id:
  assumes "uchars s = u # us" and "\<not> is_space u" and "\<not> is_space (last (u # us))"
  shows "strip s = s"
proof -
  let ?xs = "u # us"
  have "rev ?xs = last ?xs # tl (rev ?xs)"
    by (metis hd_Cons_tl hd_rev list.distinct(1) rev_is_Nil_conv)
  then have "dropWhile is_space (rev ?xs) = rev ?xs"
    using assms(3) by (metis dropWhile.simps(2))
  then have "strip s = concat (rev (rev ?xs))"
    using assms by (simp add: strip_def del: rev.simps)
  also have "\<dots> = concat (uchars s)" using assms(1) by simp
  finally show ?thesis by simp
qed

section \<open>Numbers as text\<close>

definition digit :: "nat \<Rightarrow> char" where
  "digit n = (if n < 10 then char_of (48 + n) else char_of (87 + n))"

function show_nat :: "nat \<Rightarrow> string" where
  "show_nat n = (if n < 10 then [digit n] else show_nat (n div 10) @ [digit (n mod 10)])"
  by pat_completeness auto
termination
  by (relation "measure id") auto

declare show_nat.simps [simp del]

definition show_int :: "int \<Rightarrow> string" where
  "show_int i = (if i < 0 then CHR ''-'' # show_nat (nat (- i)) else show_nat (nat i))"

lemma show_nat_nonempty [simp]: "show_nat n \<noteq> []"
  by (subst show_nat.simps) simp

section \<open>Sorting\<close>

text \<open>
  \<^verbatim>\<open>sorted(xs, key=k)\<close> is a stable sort, as \<^const>\<open>sort_key\<close> is. Two sorts by an
  injective key of the same elements agree.
\<close>

lemma sort_key_perm_unique:
  assumes "mset xs = mset ys" and "inj_on k (set xs)"
  shows "sort_key k xs = sort_key k ys"
proof (rule properties_for_sort_key)
  show "mset (sort_key k ys) = mset xs" using assms(1) by simp
  show "sorted (map k (sort_key k ys))" by simp
next
  fix c assume "c \<in> set (sort_key k ys)"
  then have c: "c \<in> set xs" using assms(1) by (metis set_mset_mset set_sort)
  have eq: "filter (\<lambda>x. k c = k x) zs = filter (\<lambda>x. x = c) zs" if "set zs \<subseteq> set xs" for zs
    using that c assms(2) by (intro filter_cong) (auto dest: inj_onD)
  have "set ys = set xs" using assms(1) by (metis set_mset_mset)
  then have "set (sort_key k ys) \<subseteq> set xs" by simp
  note eq [OF this] eq [OF subset_refl]
  moreover have "filter (\<lambda>x. x = c) zs = replicate (count (mset zs) c) c" for zs
    by (induction zs) auto
  ultimately show "filter (\<lambda>x. k c = k x) (sort_key k ys) = filter (\<lambda>x. k c = k x) xs"
    using assms(1) by (simp only: mset_sort)
qed

lemma sort_perm: "mset xs = mset ys \<Longrightarrow> sort xs = sort ys"
  by (rule properties_for_sort) simp_all

text \<open>
  \<^verbatim>\<open>max(xs, key=k)\<close> returns the first element with the greatest key;
  \<^verbatim>\<open>xs.sort(key=k, reverse=True)\<close> keeps the order of equal elements.
\<close>

fun max_by :: "('a \<Rightarrow> 'k::linorder) \<Rightarrow> 'a \<Rightarrow> 'a list \<Rightarrow> 'a" where
  "max_by k x [] = x"
| "max_by k x (y # ys) = max_by k (if k x < k y then y else x) ys"

definition sort_desc :: "('a \<Rightarrow> 'k::linorder) \<Rightarrow> 'a list \<Rightarrow> 'a list" where
  "sort_desc k xs = rev (sort_key k (rev xs))"

lemma max_by_in: "max_by k x xs \<in> set (x # xs)"
proof (induction xs arbitrary: x)
  case Nil
  then show ?case by simp
next
  case (Cons y ys)
  from Cons.IH [of "if k x < k y then y else x"] show ?case by (auto split: if_splits)
qed

lemma max_by_ge_head: "k x \<le> k (max_by k x xs)"
proof (induction xs arbitrary: x)
  case Nil
  then show ?case by simp
next
  case (Cons y ys)
  have "k x \<le> k (if k x < k y then y else x)" by (simp add: less_imp_le)
  also have "\<dots> \<le> k (max_by k x (y # ys))" using Cons.IH by simp
  finally show ?case .
qed

lemma max_by_ge: "y \<in> set (x # xs) \<Longrightarrow> k y \<le> k (max_by k x xs)"
proof (induction xs arbitrary: x)
  case Nil
  then show ?case by simp
next
  case (Cons z zs)
  let ?b = "if k x < k z then z else x"
  show ?case
  proof (cases "y \<in> set zs")
    case True
    with Cons.IH [of ?b] show ?thesis by simp
  next
    case False
    with Cons.prems have "k y \<le> k ?b" by auto
    also have "\<dots> \<le> k (max_by k ?b zs)" by (rule max_by_ge_head)
    finally show ?thesis by simp
  qed
qed

lemma foldl_max: "foldl max x xs = Max (set (x # xs))"
proof (induction xs arbitrary: x)
  case Nil
  then show ?case by simp
next
  case (Cons y ys)
  have "Max (set (x # y # ys)) = max (max x y) (Max (set ys))" if "ys \<noteq> []"
    using that by (simp add: max.assoc)
  with Cons [of "max x y"] show ?case by (cases "ys = []") simp_all
qed

lemma set_sort_desc [simp]: "set (sort_desc k xs) = set xs"
  by (simp add: sort_desc_def)

end
