(* ===== verification/Py_Float.thy ===== *)
theory Py_Float
  imports Complex_Main Prelude
begin

text \<open>
  Python floats. A float is represented by the text \<^verbatim>\<open>json.dumps\<close> writes for it:
  the shortest decimal text that denotes the double (\<^verbatim>\<open>float.__repr__\<close>), or
  \<^verbatim>\<open>NaN\<close>, \<^verbatim>\<open>Infinity\<close>, \<^verbatim>\<open>-Infinity\<close>. The operations go through
  the exact rational value: a number literal is read, rounded to the nearest double (ties
  to even) and written back. Addition rounds the exact sum.
\<close>

type_synonym flt = string

section \<open>Rounding to doubles\<close>

definition pow_int :: "rat \<Rightarrow> int \<Rightarrow> rat" where
  "pow_int b e = (if e \<ge> 0 then b ^ nat e else 1 / b ^ nat (- e))"

definition round_half_even :: "rat \<Rightarrow> int" where
  "round_half_even q =
     (let f = \<lfloor>q\<rfloor>; r = q - of_int f
      in if r < 1 / 2 then f else if r > 1 / 2 then f + 1 else if even f then f else f + 1)"

function bit_length :: "nat \<Rightarrow> nat" where
  "bit_length n = (if n = 0 then 0 else Suc (bit_length (n div 2)))"
  by pat_completeness auto
termination
  by (relation "measure id") auto

declare bit_length.simps [simp del]

text \<open>The nearest double of a positive rational; \<open>None\<close> is overflow to infinity.\<close>

definition round_double_pos :: "rat \<Rightarrow> rat option" where
  "round_double_pos q =
     (let (n, d) = quotient_of q;
          k = int (bit_length (nat n)) - int (bit_length (nat d));
          b = (if q \<ge> pow_int 2 k then k else k - 1);
          e = max (b - 52) (- 1074);
          v = of_int (round_half_even (q / pow_int 2 e)) * pow_int 2 e
      in if v \<ge> pow_int 2 1024 then None else Some v)"

section \<open>Shortest text\<close>

function strip_zeros :: "nat \<Rightarrow> int \<Rightarrow> nat \<times> int" where
  "strip_zeros d e = (if d \<noteq> 0 \<and> d mod 10 = 0 then strip_zeros (d div 10) (e + 1) else (d, e))"
  by pat_completeness auto
termination
  by (relation "measure fst") auto

declare strip_zeros.simps [simp del]

text \<open>The decimals \<open>d * 10 ^ e\<close> with \<open>n\<close> significant digits around \<open>x\<close> that denote it.\<close>

definition dec_exp :: "rat \<Rightarrow> int" where
  "dec_exp x =
     (let (n, d) = quotient_of x;
          k = int (length (show_nat (nat n))) - int (length (show_nat (nat d)))
      in if x \<ge> pow_int 10 k then k + 1 else k)"

definition dec_candidates :: "rat \<Rightarrow> nat \<Rightarrow> (nat \<times> int) list" where
  "dec_candidates x n =
     (let e = dec_exp x - int n;
          lo = nat \<lfloor>x / pow_int 10 e\<rfloor>;
          near = (if round_half_even (x / pow_int 10 e) = int lo then [lo, Suc lo] else [Suc lo, lo])
      in map (\<lambda>d. (d, e))
           (filter (\<lambda>d. d \<noteq> 0 \<and> round_double_pos (of_nat d * pow_int 10 e) = Some x) near))"

definition shortest_dec :: "rat \<Rightarrow> nat \<times> int" where
  "shortest_dec x =
     (case concat (map (dec_candidates x) [1..<18]) of
        [] \<Rightarrow> (0, 0)
      | (d, e) # _ \<Rightarrow> strip_zeros d e)"

definition show_exp :: "int \<Rightarrow> string" where
  "show_exp e =
     (if e < 0 then ''-'' else ''+'') @
     (let t = show_nat (nat \<bar>e\<bar>) in if length t < 2 then CHR ''0'' # t else t)"

text \<open>\<^verbatim>\<open>repr\<close> of the double with digits \<open>d\<close> and decimal exponent \<open>e\<close>.\<close>

definition format_dec :: "nat \<times> int \<Rightarrow> string" where
  "format_dec de =
     (let (d, e) = de; ds = show_nat d; n = int (length ds); p = n + e
      in if p \<le> - 4 \<or> p > 16
         then hd ds # (if n = 1 then [] else CHR ''.'' # tl ds) @ ''e'' @ show_exp (p - 1)
         else if p \<le> 0 then ''0.'' @ replicate (nat (- p)) (CHR ''0'') @ ds
         else if p \<ge> n then ds @ replicate (nat (p - n)) (CHR ''0'') @ ''.0''
         else take (nat p) ds @ ''.'' @ drop (nat p) ds)"

definition repr_pos :: "rat \<Rightarrow> flt" where
  "repr_pos q =
     (case round_double_pos q of
        None \<Rightarrow> ''Infinity''
      | Some x \<Rightarrow> if x = 0 then ''0.0'' else format_dec (shortest_dec x))"

definition repr_rat :: "rat \<Rightarrow> flt" where
  "repr_rat q = (if q = 0 then ''0.0'' else if q < 0 then CHR ''-'' # repr_pos (- q) else repr_pos q)"

section \<open>Reading number literals\<close>

definition digit_val :: "char \<Rightarrow> nat" where
  "digit_val c = (of_char c :: nat) - 48"

definition is_digit :: "char \<Rightarrow> bool" where
  "is_digit c \<longleftrightarrow> 48 \<le> (of_char c :: nat) \<and> (of_char c :: nat) \<le> 57"

definition read_nat :: "string \<Rightarrow> nat" where
  "read_nat ds = foldl (\<lambda>n c. 10 * n + digit_val c) 0 ds"

definition read_exp :: "string \<Rightarrow> int" where
  "read_exp s =
     (case s of
        [] \<Rightarrow> 0
      | c # cs \<Rightarrow> if c = CHR ''-'' then - int (read_nat cs)
                 else if c = CHR ''+'' then int (read_nat cs) else int (read_nat s))"

text \<open>The exact value of an unsigned literal \<open>digits[.digits][e[+-]digits]\<close>.\<close>

definition lit_val :: "string \<Rightarrow> rat" where
  "lit_val s =
     (let ip = takeWhile is_digit s; r1 = dropWhile is_digit s;
          fp = (if r1 \<noteq> [] \<and> hd r1 = CHR ''.'' then takeWhile is_digit (tl r1) else []);
          r2 = (if r1 \<noteq> [] \<and> hd r1 = CHR ''.'' then dropWhile is_digit (tl r1) else r1);
          ex = (if r2 \<noteq> [] then read_exp (tl r2) else 0)
      in of_nat (read_nat (ip @ fp)) * pow_int 10 (ex - int (length fp)))"

text \<open>\<^verbatim>\<open>repr(float(text))\<close> of a JSON number literal.\<close>

definition float_of_lit :: "string \<Rightarrow> flt" where
  "float_of_lit s =
     (if s \<noteq> [] \<and> hd s = CHR ''-'' then CHR ''-'' # repr_pos (lit_val (tl s)) else repr_pos (lit_val s))"

section \<open>Values and arithmetic\<close>

definition flt_val :: "flt \<Rightarrow> rat option" where
  "flt_val s =
     (if s \<in> {''NaN'', ''Infinity'', ''-Infinity''} then None
      else if s \<noteq> [] \<and> hd s = CHR ''-'' then map_option uminus (round_double_pos (lit_val (tl s)))
      else round_double_pos (lit_val s))"

definition float_of_int :: "int \<Rightarrow> flt" where
  "float_of_int i = repr_rat (of_int i)"

text \<open>Truth value: only the two zeros are false.\<close>

definition flt_truthy :: "flt \<Rightarrow> bool" where
  "flt_truthy s \<longleftrightarrow> s \<noteq> ''0.0'' \<and> s \<noteq> ''-0.0''"

definition flt_add :: "flt \<Rightarrow> flt \<Rightarrow> flt" where
  "flt_add a b =
     (case (flt_val a, flt_val b) of
        (Some x, Some y) \<Rightarrow> if x + y = 0 \<and> a = ''-0.0'' \<and> b = ''-0.0'' then ''-0.0'' else repr_rat (x + y)
      | (None, Some y) \<Rightarrow> a
      | (Some x, None) \<Rightarrow> b
      | (None, None) \<Rightarrow> if a = b then a else ''NaN'')"

definition flt_mult :: "flt \<Rightarrow> flt \<Rightarrow> flt" where
  "flt_mult a b =
     (case (flt_val a, flt_val b) of
        (Some x, Some y) \<Rightarrow>
          if x * y = 0 then (if (hd a = CHR ''-'') = (hd b = CHR ''-'') then ''0.0'' else ''-0.0'')
          else repr_rat (x * y)
      | _ \<Rightarrow> if a = ''NaN'' \<or> b = ''NaN'' \<or> \<not> flt_truthy a \<or> \<not> flt_truthy b then ''NaN''
             else if (hd a = CHR ''-'') = (hd b = CHR ''-'') then ''Infinity'' else ''-Infinity'')"

text \<open>\<^verbatim>\<open>int(x)\<close> truncates; it raises on the special values.\<close>

definition flt_trunc :: "flt \<Rightarrow> int option" where
  "flt_trunc a = map_option (\<lambda>x. if x < 0 then - \<lfloor>- x\<rfloor> else \<lfloor>x\<rfloor>) (flt_val a)"

section \<open>Number literals\<close>

text \<open>
  The JSON number syntax \<open>-?(0|[1-9]\\d*)(\\.\\d+)?([eE][-+]?\\d+)?\<close>: sign, integer part,
  fraction and exponent at the front of a text, each maximal, and what follows.
\<close>

definition scan_int :: "string \<Rightarrow> string \<times> string" where
  "scan_int s =
     (if s \<noteq> [] \<and> hd s = CHR ''0'' then ([CHR ''0''], tl s) else (takeWhile is_digit s, dropWhile is_digit s))"

definition scan_frac :: "string \<Rightarrow> string \<times> string" where
  "scan_frac s =
     (if s \<noteq> [] \<and> hd s = CHR ''.'' \<and> takeWhile is_digit (tl s) \<noteq> []
      then (CHR ''.'' # takeWhile is_digit (tl s), dropWhile is_digit (tl s)) else ([], s))"

definition scan_exp :: "string \<Rightarrow> string \<times> string" where
  "scan_exp s =
     (if s \<noteq> [] \<and> hd s \<in> {CHR ''e'', CHR ''E''} then
        (let sg = (if tl s \<noteq> [] \<and> hd (tl s) \<in> {CHR ''+'', CHR ''-''} then [hd (tl s)] else []);
             r = drop (length sg) (tl s)
         in if takeWhile is_digit r \<noteq> []
            then (hd s # sg @ takeWhile is_digit r, dropWhile is_digit r) else ([], s))
      else ([], s))"

definition scan_num :: "string \<Rightarrow> (string \<times> string \<times> string \<times> string \<times> string) option" where
  "scan_num s =
     (let sg = (if s \<noteq> [] \<and> hd s = CHR ''-'' then [CHR ''-''] else []);
          (ip, r1) = scan_int (drop (length sg) s);
          (fp, r2) = scan_frac r1;
          (ep, r3) = scan_exp r2
      in if ip = [] then None else Some (sg, ip, fp, ep, r3))"

definition is_float_lit :: "string \<Rightarrow> bool" where
  "is_float_lit s \<longleftrightarrow>
     (case scan_num s of
        None \<Rightarrow> False
      | Some (sg, ip, fp, ep, r) \<Rightarrow> r = [] \<and> (fp \<noteq> [] \<or> ep \<noteq> []))"

text \<open>A float of the model: a literal that is its own shortest text, or a special value.\<close>

definition wf_flt :: "flt \<Rightarrow> bool" where
  "wf_flt s \<longleftrightarrow> s \<in> {''NaN'', ''Infinity'', ''-Infinity''} \<or> is_float_lit s \<and> float_of_lit s = s"

text \<open>Scanning stops at a delimiter: what follows a complete literal does not change it.\<close>

definition delim :: "string \<Rightarrow> bool" where
  "delim t \<longleftrightarrow> t = [] \<or> hd t \<in> {CHR '','', CHR '']'', CHR 0x7D, CHR 0x0A}"

lemma delim_simps [simp]:
  "delim []"
  "delim (CHR '','' # t)" "delim (CHR '']'' # t)" "delim (CHR 0x7D # t)" "delim (CHR 0x0A # t)"
  by (simp_all add: delim_def)

lemma delim_ne: "delim t \<Longrightarrow> t \<noteq> [] \<Longrightarrow>
    \<not> is_digit (hd t) \<and> hd t \<noteq> CHR ''.'' \<and> hd t \<noteq> CHR ''e'' \<and> hd t \<noteq> CHR ''E'' \<and>
    hd t \<noteq> CHR ''+'' \<and> hd t \<noteq> CHR ''-'' \<and> hd t \<noteq> CHR ''0''"
  by (auto simp: delim_def is_digit_def)

lemma span_digits_append:
  assumes "delim t"
  shows "takeWhile is_digit (s @ t) = takeWhile is_digit s
       \<and> dropWhile is_digit (s @ t) = dropWhile is_digit s @ t"
proof (induction s)
  case Nil
  with delim_ne [OF assms] show ?case by (cases t) auto
next
  case (Cons c s)
  then show ?case by simp
qed

lemmas takeWhile_digits_append = span_digits_append [THEN conjunct1]
lemmas dropWhile_digits_append = span_digits_append [THEN conjunct2]

lemma span_digits_delim:
  assumes "delim t"
  shows "takeWhile is_digit t = []" and "dropWhile is_digit t = t"
  using span_digits_append [OF assms, of "[]"] by simp_all

lemma scan_int_append:
  "delim t \<Longrightarrow> scan_int (s @ t) = apsnd (\<lambda>r. r @ t) (scan_int s)"
  using delim_ne [of t]
  by (cases s; cases t) (auto simp: scan_int_def takeWhile_digits_append dropWhile_digits_append
      takeWhile_digits_append [of _ "[]", simplified])

lemma scan_frac_append:
  "delim t \<Longrightarrow> scan_frac (s @ t) = apsnd (\<lambda>r. r @ t) (scan_frac s)"
  using delim_ne [of t]
  by (cases s) (auto simp: scan_frac_def takeWhile_digits_append dropWhile_digits_append)

lemma scan_exp_append:
  assumes "delim t"
  shows "scan_exp (s @ t) = apsnd (\<lambda>r. r @ t) (scan_exp s)"
proof (cases s)
  case Nil
  with assms delim_ne [OF assms] show ?thesis by (auto simp: scan_exp_def)
next
  case (Cons c u)
  with assms delim_ne [OF assms] show ?thesis
    by (cases u) (auto simp: scan_exp_def Let_def takeWhile_digits_append dropWhile_digits_append
        span_digits_delim)
qed

lemma scan_num_append:
  assumes "delim t" and "scan_num s = Some (sg, ip, fp, ep, r)"
  shows "scan_num (s @ t) = Some (sg, ip, fp, ep, r @ t)"
proof (cases s)
  case Nil
  with assms(2) show ?thesis by (auto simp: scan_num_def scan_int_def split: prod.splits)
next
  case (Cons c u)
  obtain j r1 where j: "scan_int (if c = CHR ''-'' then u else s) = (j, r1)" by force
  obtain f r2 where f: "scan_frac r1 = (f, r2)" by force
  obtain x r3 where x: "scan_exp r2 = (x, r3)" by force
  have "scan_int (if c = CHR ''-'' then u @ t else s @ t) = (j, r1 @ t)"
    using j scan_int_append [OF assms(1), of "if c = CHR ''-'' then u else s"] by (auto split: if_splits)
  moreover have "scan_frac (r1 @ t) = (f, r2 @ t)" and "scan_exp (r2 @ t) = (x, r3 @ t)"
    using f x assms(1) by (simp_all add: scan_frac_append scan_exp_append)
  ultimately show ?thesis
    using assms(2) Cons j f x by (auto simp: scan_num_def split: if_splits)
qed

lemma wf_flt_zero: "wf_flt ''0.0''"
  by (simp add: wf_flt_def is_float_lit_def scan_num_def scan_int_def scan_frac_def scan_exp_def is_digit_def
      float_of_lit_def repr_pos_def lit_val_def read_nat_def digit_val_def round_double_pos_def
      round_half_even_def Let_def pow_int_def)

end
