(* ===== verification/Json_Reader.thy ===== *)
theory Json_Reader
  imports Json
begin

text \<open>
  \<^verbatim>\<open>json.loads\<close>, the standard library's reader, which every persisted artifact goes
  through, and the round trip with the canonical writer. The reader runs on fuel; twice the
  length of the text is always enough for the texts the writer produces
  (\<open>loads_dumps\<close>), because every call spends one unit and every second call consumes
  a character.
\<close>

section \<open>The reader\<close>

definition is_ws :: "char \<Rightarrow> bool" where
  "is_ws c \<longleftrightarrow> c \<in> {CHR 0x20, CHR 0x09, CHR 0x0A, CHR 0x0D}"

definition skip_ws :: "string \<Rightarrow> string" where
  "skip_ws s = dropWhile is_ws s"

definition hex_val :: "char \<Rightarrow> nat option" where
  "hex_val c =
     (let n = (of_char c :: nat)
      in if 48 \<le> n \<and> n \<le> 57 then Some (n - 48)
         else if 97 \<le> n \<and> n \<le> 102 then Some (n - 87)
         else if 65 \<le> n \<and> n \<le> 70 then Some (n - 55)
         else None)"

fun hex4 :: "string \<Rightarrow> (nat \<times> string) option" where
  "hex4 (a # b # c # d # r) =
     (case (hex_val a, hex_val b, hex_val c, hex_val d) of
        (Some w, Some x, Some y, Some z) \<Rightarrow> Some (((w * 16 + x) * 16 + y) * 16 + z, r)
      | _ \<Rightarrow> None)"
| "hex4 _ = None"

definition utf8_enc :: "nat \<Rightarrow> string" where
  "utf8_enc n =
     (if n < 128 then [char_of n]
      else if n < 2048 then [char_of (192 + n div 64), char_of (128 + n mod 64)]
      else if n < 65536 then
        [char_of (224 + n div 4096), char_of (128 + n div 64 mod 64), char_of (128 + n mod 64)]
      else [char_of (240 + n div 262144), char_of (128 + n div 4096 mod 64),
            char_of (128 + n div 64 mod 64), char_of (128 + n mod 64)])"

text \<open>After \<^verbatim>\<open>\u\<close>: four hexadecimal digits, or a surrogate pair.\<close>

definition p_unicode :: "string \<Rightarrow> (string \<times> string) option" where
  "p_unicode s =
     (case hex4 s of
        None \<Rightarrow> None
      | Some (n, r) \<Rightarrow>
          if 0xD800 \<le> n \<and> n \<le> 0xDBFF \<and> take 2 r = [CHR 0x5C, CHR ''u''] then
            (case hex4 (drop 2 r) of
               Some (m, r') \<Rightarrow>
                 if 0xDC00 \<le> m \<and> m \<le> 0xDFFF
                 then Some (utf8_enc (0x10000 + (n - 0xD800) * 1024 + (m - 0xDC00)), r')
                 else Some (utf8_enc n, r)
             | None \<Rightarrow> None)
          else Some (utf8_enc n, r))"

definition simple_esc :: "char \<Rightarrow> char option" where
  "simple_esc e =
     (if e \<in> {CHR 0x22, CHR 0x5C, CHR ''/''} then Some e
      else if e = CHR ''n'' then Some (CHR 0x0A)
      else if e = CHR ''r'' then Some (CHR 0x0D)
      else if e = CHR ''t'' then Some (CHR 0x09)
      else if e = CHR ''f'' then Some (CHR 0x0C)
      else if e = CHR ''b'' then Some (CHR 0x08)
      else None)"

lemma hex4_length: "hex4 s = Some (n, r) \<Longrightarrow> length s = length r + 4"
  by (cases s rule: hex4.cases) (auto split: option.splits)

lemma p_unicode_length: "p_unicode s = Some (u, r) \<Longrightarrow> length r < length s"
  by (auto simp: p_unicode_def dest!: hex4_length split: option.splits if_splits prod.splits)

text \<open>The rest of a string literal after its opening quote.\<close>

function p_str :: "string \<Rightarrow> (string \<times> string) option" where
  "p_str [] = None"
| "p_str (c # cs) =
     (if c = CHR 0x22 then Some ([], cs)
      else if c = CHR 0x5C then
        (case cs of
           [] \<Rightarrow> None
         | e # es \<Rightarrow>
             if e = CHR ''u'' then
               (case p_unicode es of
                  None \<Rightarrow> None
                | Some (u, r) \<Rightarrow> map_option (apfst (\<lambda>t. u @ t)) (p_str r))
             else
               (case simple_esc e of
                  None \<Rightarrow> None
                | Some d \<Rightarrow> map_option (apfst (Cons d)) (p_str es)))
      else if (of_char c :: nat) < 32 then None
      else map_option (apfst (Cons c)) (p_str cs))"
  by pat_completeness auto
termination
  by (relation "measure length") (auto dest: p_unicode_length)

definition p_const :: "string \<Rightarrow> (jval \<times> string) option" where
  "p_const s =
     (if take 4 s = ''null'' then Some (JNull, drop 4 s)
      else if take 4 s = ''true'' then Some (JBool True, drop 4 s)
      else if take 5 s = ''false'' then Some (JBool False, drop 5 s)
      else if take 3 s = ''NaN'' then Some (JFloat ''NaN'', drop 3 s)
      else if take 8 s = ''Infinity'' then Some (JFloat ''Infinity'', drop 8 s)
      else if take 9 s = ''-Infinity'' then Some (JFloat ''-Infinity'', drop 9 s)
      else None)"

definition p_num :: "string \<Rightarrow> (jval \<times> string) option" where
  "p_num s =
     (case scan_num s of
        None \<Rightarrow> None
      | Some (sg, ip, fp, ep, r) \<Rightarrow>
          Some (if fp = [] \<and> ep = []
                then JInt (if sg = [] then int (read_nat ip) else - int (read_nat ip))
                else JFloat (float_of_lit (sg @ ip @ fp @ ep)), r))"

fun p_val :: "nat \<Rightarrow> string \<Rightarrow> (jval \<times> string) option"
  and p_elems :: "nat \<Rightarrow> string \<Rightarrow> (jval list \<times> string) option"
  and p_members :: "nat \<Rightarrow> string \<Rightarrow> ((string \<times> jval) list \<times> string) option"
where
  "p_val 0 s = None"
| "p_val (Suc n) s =
     (case s of
        [] \<Rightarrow> None
      | c # cs \<Rightarrow>
          if c = CHR 0x22 then map_option (apfst JStr) (p_str cs)
          else if c = CHR 0x7B then
            (case skip_ws cs of
               [] \<Rightarrow> None
             | d # ds \<Rightarrow>
                 if d = CHR 0x7D then Some (JObj [], ds)
                 else map_option (apfst (\<lambda>ps. JObj (dict_of ps))) (p_members n (d # ds)))
          else if c = CHR ''['' then
            (case skip_ws cs of
               [] \<Rightarrow> None
             | d # ds \<Rightarrow>
                 if d = CHR '']'' then Some (JArr [], ds)
                 else map_option (apfst JArr) (p_elems n (d # ds)))
          else (case p_const s of Some r \<Rightarrow> Some r | None \<Rightarrow> p_num s))"
| "p_elems 0 s = None"
| "p_elems (Suc n) s =
     (case p_val n s of
        None \<Rightarrow> None
      | Some (v, r) \<Rightarrow>
          (case skip_ws r of
             [] \<Rightarrow> None
           | c # cs \<Rightarrow>
               if c = CHR '']'' then Some ([v], cs)
               else if c = CHR '','' then map_option (apfst (Cons v)) (p_elems n (skip_ws cs))
               else None))"
| "p_members 0 s = None"
| "p_members (Suc n) s =
     (case s of
        [] \<Rightarrow> None
      | c # cs \<Rightarrow>
          if c \<noteq> CHR 0x22 then None
          else
            (case p_str cs of
               None \<Rightarrow> None
             | Some (k, r) \<Rightarrow>
                 (case skip_ws r of
                    [] \<Rightarrow> None
                  | d # ds \<Rightarrow>
                      if d \<noteq> CHR '':'' then None
                      else
                        (case p_val n (skip_ws ds) of
                           None \<Rightarrow> None
                         | Some (v, r2) \<Rightarrow>
                             (case skip_ws r2 of
                                [] \<Rightarrow> None
                              | e # es \<Rightarrow>
                                  if e = CHR 0x7D then Some ([(k, v)], es)
                                  else if e = CHR '','' then
                                    map_option (apfst (Cons (k, v))) (p_members n (skip_ws es))
                                  else None)))))"

definition loads :: "string \<Rightarrow> jval option" where
  "loads s =
     (case p_val (2 * length s + 2) (skip_ws s) of
        None \<Rightarrow> None
      | Some (v, r) \<Rightarrow> if skip_ws r = [] then Some v else None)"

section \<open>Reading what was written\<close>

lemma skip_ws_id [simp]: "s = [] \<or> \<not> is_ws (hd s) \<Longrightarrow> skip_ws s = s"
  by (cases s) (auto simp: skip_ws_def)

lemma hex_val_digit: "n < 16 \<Longrightarrow> hex_val (digit n) = Some n"
  by (auto simp: hex_val_def digit_def Let_def)

lemma char_of_small: "(of_char c :: nat) < 128 \<Longrightarrow> utf8_enc (of_char c) = [c]"
  by (simp add: utf8_enc_def)

lemma p_str_esc:
  assumes "p_str r = Some (t, r')"
  shows "p_str (esc c @ r) = Some (c # t, r')"
proof -
  let ?n = "of_char c :: nat"
  consider (simple) "c \<in> {CHR 0x22, CHR 0x5C, CHR 0x0A, CHR 0x0D, CHR 0x09, CHR 0x0C, CHR 0x08}"
    | (unicode) "?n < 32" "c \<notin> {CHR 0x22, CHR 0x5C, CHR 0x0A, CHR 0x0D, CHR 0x09, CHR 0x0C, CHR 0x08}"
    | (plain) "\<not> ?n < 32" "c \<notin> {CHR 0x22, CHR 0x5C}"
    by blast
  then show ?thesis
  proof cases
    case simple
    with assms show ?thesis by (auto simp: esc_def simple_esc_def)
  next
    case unicode
    have "hex4 ([CHR ''0'', CHR ''0'', digit (?n div 16), digit (?n mod 16)] @ r) = Some (?n, r)"
      using unicode(1) by (simp add: hex_val_digit) (simp add: hex_val_def)
    with unicode(1) have "p_unicode ([CHR ''0'', CHR ''0'', digit (?n div 16), digit (?n mod 16)] @ r)
        = Some ([c], r)"
      by (simp add: p_unicode_def char_of_small)
    with assms unicode show ?thesis by (simp add: esc_def hex_char_def)
  next
    case plain
    then have "esc c = [c]" by (auto simp: esc_def)
    with plain assms show ?thesis by simp
  qed
qed

lemma p_str_quote: "p_str (concat (map esc s) @ CHR 0x22 # r) = Some (s, r)"
  by (induction s) (simp_all add: p_str_esc)

lemma is_digit_digit [simp]: "n < 10 \<Longrightarrow> is_digit (digit n)"
  by (simp add: is_digit_def digit_def)

lemma digit_val_digit [simp]: "n < 10 \<Longrightarrow> digit_val (digit n) = n"
  by (simp add: digit_val_def digit_def)

lemma show_nat_digits: "\<forall>c \<in> set (show_nat n). is_digit c"
proof (induction n rule: show_nat.induct)
  case (1 n)
  then show ?case by (subst show_nat.simps) auto
qed

lemma read_show_nat [simp]: "read_nat (show_nat n) = n"
proof (induction n rule: show_nat.induct)
  case (1 n)
  then show ?case by (subst show_nat.simps) (auto simp: read_nat_def)
qed

lemma digit_zero: "n < 10 \<Longrightarrow> digit n = CHR ''0'' \<longleftrightarrow> n = 0"
proof
  assume "n < 10" and "digit n = CHR ''0''"
  then have "n = digit_val (CHR ''0'')" using digit_val_digit [of n] by simp
  then show "n = 0" by (simp add: digit_val_def)
next
  assume "n = 0"
  moreover have "digit 0 = CHR ''0''" by code_simp
  ultimately show "digit n = CHR ''0''" by simp
qed

lemma hd_show_nat: "n < 10 \<or> hd (show_nat n) \<noteq> CHR ''0''"
proof (induction n rule: show_nat.induct)
  case (1 n)
  show ?case
  proof (cases "n < 10")
    case False
    with 1 have "n div 10 < 10 \<or> hd (show_nat (n div 10)) \<noteq> CHR ''0''" by simp
    then have "hd (show_nat (n div 10)) \<noteq> CHR ''0''"
      using False digit_zero [of "n div 10"] by (auto simp: show_nat.simps [of "n div 10"])
    with False show ?thesis by (subst show_nat.simps) simp
  qed simp
qed

lemma takeWhile_show_nat:
  "takeWhile is_digit (show_nat n) = show_nat n" "dropWhile is_digit (show_nat n) = []"
  using show_nat_digits [of n] by (simp_all add: takeWhile_eq_all_conv dropWhile_eq_Nil_conv)

lemma scan_int_show_nat: "scan_int (show_nat n) = (show_nat n, [])"
proof (cases "hd (show_nat n) = CHR ''0''")
  case True
  then have "n < 10" using hd_show_nat by blast
  then have "show_nat n = [digit n]" by (subst show_nat.simps) simp
  with True show ?thesis by (simp add: scan_int_def)
next
  case False
  then show ?thesis by (simp add: scan_int_def takeWhile_show_nat)
qed

lemma hd_show_nat_digit: "is_digit (hd (show_nat n))"
  using show_nat_digits [of n] by simp

lemma scan_num_show_int:
  "scan_num (show_int i) = Some (if i < 0 then ''-'' else [], show_nat (nat \<bar>i\<bar>), [], [], [])"
proof -
  have "hd (show_nat n) \<noteq> CHR ''-''" for n
    using hd_show_nat_digit [of n] by (auto simp: is_digit_def)
  then show ?thesis
    by (auto simp: scan_num_def show_int_def scan_int_show_nat scan_frac_def scan_exp_def Let_def)
qed

lemma p_num_int: "delim r \<Longrightarrow> p_num (show_int i @ r) = Some (JInt i, r)"
  using scan_num_append [OF _ scan_num_show_int, of r i] by (simp add: p_num_def)

lemma scan_exp_parts: "scan_exp s = (ep, r) \<Longrightarrow> s = ep @ r"
proof (cases s)
  case (Cons c u)
  assume "scan_exp s = (ep, r)"
  with Cons show ?thesis by (cases u) (auto simp: scan_exp_def Let_def split: if_splits)
qed (auto simp: scan_exp_def)

lemma scan_num_parts: "scan_num s = Some (sg, ip, fp, ep, r) \<Longrightarrow> s = sg @ ip @ fp @ ep @ r"
proof -
  assume "scan_num s = Some (sg, ip, fp, ep, r)"
  then obtain r1 r2 where
    sg: "sg = (if s \<noteq> [] \<and> hd s = CHR ''-'' then [CHR ''-''] else [])" and
    ip: "scan_int (drop (length sg) s) = (ip, r1)" and
    fp: "scan_frac r1 = (fp, r2)" and ep: "scan_exp r2 = (ep, r)"
    by (auto simp: scan_num_def Let_def split: prod.splits if_splits)
  from sg have "s = sg @ drop (length sg) s" by (cases s) auto
  moreover have "drop (length sg) s = ip @ r1"
    using ip by (cases "drop (length sg) s") (auto simp: scan_int_def split: if_splits)
  moreover have "r1 = fp @ r2"
    using fp by (cases r1) (auto simp: scan_frac_def split: if_splits)
  moreover have "r2 = ep @ r" using ep by (rule scan_exp_parts)
  ultimately show ?thesis by simp
qed

lemma p_num_flt:
  assumes "delim r" and "is_float_lit f" and "float_of_lit f = f"
  shows "p_num (f @ r) = Some (JFloat f, r)"
proof -
  from assms(2) obtain sg ip fp ep where
    sc: "scan_num f = Some (sg, ip, fp, ep, [])" and ne: "fp \<noteq> [] \<or> ep \<noteq> []"
    by (auto simp: is_float_lit_def split: option.splits)
  from scan_num_parts [OF sc] have "f = sg @ ip @ fp @ ep" by simp
  with ne assms(3) show ?thesis
    using scan_num_append [OF assms(1) sc] by (auto simp: p_num_def)
qed

lemma scan_num_hd: "scan_num s = Some x \<Longrightarrow> s \<noteq> [] \<and> (is_digit (hd s) \<or> hd s = CHR ''-'')"
  by (cases s) (auto simp: scan_num_def scan_int_def Let_def is_digit_def split: prod.splits if_splits)

lemma scan_num_neg: "scan_num (CHR ''-'' # s) = Some x \<Longrightarrow> s \<noteq> [] \<and> is_digit (hd s)"
  by (cases s) (auto simp: scan_num_def scan_int_def Let_def is_digit_def split: prod.splits if_splits)

lemma p_const_num:
  assumes "scan_num s = Some x"
  shows "p_const s = None"
proof (cases s)
  case Nil
  then show ?thesis by (simp add: p_const_def)
next
  case (Cons c u)
  with scan_num_hd [OF assms] have "is_digit c \<or> c = CHR ''-''" by simp
  moreover have "u \<noteq> [] \<and> hd u \<noteq> CHR ''I''" if "c = CHR ''-''"
    using scan_num_neg [of u x] assms Cons that by (auto simp: is_digit_def)
  ultimately have "c \<notin> {CHR ''n'', CHR ''t'', CHR ''f'', CHR ''N'', CHR ''I''}"
    "\<not> (c = CHR ''-'' \<and> take 1 u = ''I'')"
    by (auto simp: is_digit_def hd_conv_nth take_Suc_conv_app_nth)
  with Cons show ?thesis by (cases u) (auto simp: p_const_def)
qed

lemma digit_not_special: "is_digit c \<or> c = CHR ''-'' \<Longrightarrow> c \<notin> {CHR 0x22, CHR 0x7B, CHR ''[''}"
  by (auto simp: is_digit_def)

lemma p_val_scalar:
  assumes "p_const s = None" and "p_num s = Some y" and "scan_num s = Some x"
  shows "p_val (Suc n) s = Some y"
  using assms scan_num_hd [OF assms(3)] digit_not_special [of "hd s"]
  by (cases s) auto

definition val_head :: "char \<Rightarrow> bool" where
  "val_head c \<longleftrightarrow> \<not> is_ws c \<and> c \<notin> {CHR '']'', CHR 0x7D, CHR '','', CHR '':''}"

lemma dumps_head: "wf_json v \<Longrightarrow> dumps v \<noteq> [] \<and> val_head (hd (dumps v))"
proof (cases v)
  case (JInt i)
  then show ?thesis
    using scan_num_hd [OF scan_num_show_int, of i] by (auto simp: val_head_def is_ws_def is_digit_def)
next
  case (JFloat f)
  assume "wf_json v"
  with JFloat have "wf_flt f" by simp
  then consider "f \<in> {''NaN'', ''Infinity'', ''-Infinity''}" | x where "scan_num f = Some x"
    by (auto simp: wf_flt_def is_float_lit_def split: option.splits)
  then show ?thesis
  proof cases
    case 2
    from scan_num_hd [OF this] JFloat show ?thesis
      by (auto simp: val_head_def is_ws_def is_digit_def)
  qed (use JFloat in \<open>auto simp: val_head_def is_ws_def\<close>)
qed (auto simp: val_head_def is_ws_def quote_def)

lemma skip_ws_dumps [simp]: "wf_json v \<Longrightarrow> skip_ws (dumps v @ r) = dumps v @ r"
  using dumps_head [of v] by (cases "dumps v") (auto simp: val_head_def)

lemma skip_ws_close [simp]:
  "skip_ws (CHR '']'' # r) = CHR '']'' # r" "skip_ws (CHR 0x7D # r) = CHR 0x7D # r" "skip_ws (CHR '','' # r) = CHR '','' # r"
  by (simp_all add: is_ws_def)

text \<open>The fuel hypothesis of the round trip: one value, a list of elements, a list of members.\<close>

definition rt_val :: "jval \<Rightarrow> bool" where
  "rt_val v \<longleftrightarrow> (\<forall>n r. 2 * length (dumps v @ r) \<le> n \<longrightarrow> delim r \<longrightarrow>
     p_val n (dumps v @ r) = Some (canon v, r))"

lemma p_elems_dumps:
  assumes "xs \<noteq> []" and "\<forall>x \<in> set xs. wf_json x \<and> rt_val x"
    and "2 * length (join '','' (map dumps xs) @ CHR '']'' # r) < n"
  shows "p_elems n (join '','' (map dumps xs) @ CHR '']'' # r) = Some (map canon xs, r)"
  using assms
proof (induction xs arbitrary: n)
  case Nil
  then show ?case by simp
next
  case (Cons x xs)
  then obtain m where n: "n = Suc m" by (cases n) auto
  show ?case
  proof (cases xs)
    case Nil
    with Cons.prems n have "p_val m (dumps x @ CHR '']'' # r) = Some (canon x, CHR '']'' # r)"
      by (simp add: rt_val_def)
    with Nil n show ?thesis by simp
  next
    case (Cons y ys)
    let ?t = "join '','' (map dumps xs) @ CHR '']'' # r"
    have fuel: "2 * length (dumps x @ CHR '','' # ?t) \<le> m"
      using Cons.prems(3) n Cons by simp
    with Cons.prems have "p_val m (dumps x @ CHR '','' # ?t) = Some (canon x, CHR '','' # ?t)"
      by (simp add: rt_val_def del: append_assoc)
    moreover have "skip_ws ?t = ?t"
      using Cons.prems(2) Cons dumps_head [of y] by (cases ys; cases "dumps y") (auto simp: val_head_def)
    moreover have "p_elems m ?t = Some (map canon xs, r)"
      using Cons.IH [of m] Cons.prems fuel Cons by simp
    ultimately show ?thesis using n Cons by simp
  qed
qed

abbreviation member_text :: "string \<times> jval \<Rightarrow> string" where
  "member_text kv \<equiv> quote (fst kv) @ '':'' @ dumps (snd kv)"

lemma p_members_dumps:
  assumes "kvs \<noteq> []" and "\<forall>kv \<in> set kvs. wf_json (snd kv) \<and> rt_val (snd kv)"
    and "2 * length (join '','' (map member_text kvs) @ CHR 0x7D # r) < n"
  shows "p_members n (join '','' (map member_text kvs) @ CHR 0x7D # r) =
    Some (map (\<lambda>kv. (fst kv, canon (snd kv))) kvs, r)"
  using assms
proof (induction kvs arbitrary: n)
  case Nil
  then show ?case by simp
next
  case (Cons kv kvs)
  then obtain m where n: "n = Suc m" by (cases n) auto
  obtain k v where kv: "kv = (k, v)" by (cases kv)
  have str: "p_str (concat (map esc k) @ CHR 0x22 # CHR '':'' # t) = Some (k, CHR '':'' # t)" for t
    by (rule p_str_quote)
  have colon: "skip_ws (CHR '':'' # t) = CHR '':'' # t" for t
    by (simp add: is_ws_def)
  show ?case
  proof (cases kvs)
    case Nil
    with Cons.prems n kv have "p_val m (dumps v @ CHR 0x7D # r) = Some (canon v, CHR 0x7D # r)"
      by (simp add: rt_val_def)
    with Nil n kv Cons.prems(2) show ?thesis by (simp add: quote_def str colon)
  next
    case (Cons y ys)
    let ?t = "join '','' (map member_text kvs) @ CHR 0x7D # r"
    have fuel: "2 * length (dumps v @ CHR '','' # ?t) \<le> m"
      using Cons.prems(3) n Cons kv by simp
    with Cons.prems kv have val: "p_val m (dumps v @ CHR '','' # ?t) = Some (canon v, CHR '','' # ?t)"
      by (simp add: rt_val_def del: append_assoc)
    have "skip_ws ?t = ?t"
      using Cons by (cases ys) (auto simp: quote_def is_ws_def)
    moreover have "p_members m ?t = Some (map (\<lambda>kv. (fst kv, canon (snd kv))) kvs, r)"
      using Cons.IH [of m] Cons.prems fuel Cons by simp
    ultimately show ?thesis
      using n Cons kv Cons.prems(2) val by (simp add: quote_def str colon)
  qed
qed

lemma rt_val_scalar:
  assumes "wf_json v" and "canon v = v" and "\<And>n r. delim r \<Longrightarrow> p_val (Suc n) (dumps v @ r) = Some (v, r)"
  shows "rt_val v"
  unfolding rt_val_def
proof (intro allI impI)
  fix n r
  assume "2 * length (dumps v @ r) \<le> n" and "delim r"
  moreover from this(1) dumps_head [OF assms(1)] obtain m where "n = Suc m"
    by (cases n) auto
  ultimately show "p_val n (dumps v @ r) = Some (canon v, r)"
    using assms by simp
qed

lemma rt_val_flt: "wf_flt f \<Longrightarrow> rt_val (JFloat f)"
proof (rule rt_val_scalar)
  fix n r
  assume wf: "wf_flt f" and r: "delim r"
  show "p_val (Suc n) (dumps (JFloat f) @ r) = Some (JFloat f, r)"
  proof (cases "f \<in> {''NaN'', ''Infinity'', ''-Infinity''}")
    case True
    then show ?thesis by (auto simp: p_const_def)
  next
    case False
    with wf have lit: "is_float_lit f" "float_of_lit f = f" by (auto simp: wf_flt_def)
    then obtain sg ip fp ep where "scan_num f = Some (sg, ip, fp, ep, [])"
      by (auto simp: is_float_lit_def split: option.splits)
    from scan_num_append [OF r this] have sc: "scan_num (f @ r) = Some (sg, ip, fp, ep, r)" by simp
    show ?thesis
      using p_val_scalar [OF p_const_num [OF sc] p_num_flt [OF r lit] sc] by simp
  qed
qed simp_all

lemma rt_val_int: "rt_val (JInt i)"
proof (rule rt_val_scalar)
  fix n r
  assume r: "delim r"
  from scan_num_append [OF r scan_num_show_int, of i]
  have sc: "\<exists>x. scan_num (show_int i @ r) = Some x" by blast
  then show "p_val (Suc n) (dumps (JInt i) @ r) = Some (JInt i, r)"
    using p_val_scalar [OF p_const_num p_num_int [OF r]] by fastforce
qed simp_all

lemma rt_val_str: "rt_val (JStr s)"
  by (rule rt_val_scalar) (simp_all add: quote_def p_str_quote)

lemma rt_val_const: "rt_val JNull" "rt_val (JBool b)"
  by (rule rt_val_scalar; auto simp: p_const_def)+

lemma rt_val_arr:
  assumes "\<forall>x \<in> set xs. wf_json x \<and> rt_val x"
  shows "rt_val (JArr xs)"
  unfolding rt_val_def
proof (intro allI impI)
  fix n r
  assume n: "2 * length (dumps (JArr xs) @ r) \<le> n" and r: "delim r"
  then obtain m where m: "n = Suc m" by (cases n) auto
  show "p_val n (dumps (JArr xs) @ r) = Some (canon (JArr xs), r)"
  proof (cases xs)
    case Nil
    with m show ?thesis by (simp add: is_ws_def)
  next
    case (Cons y ys)
    let ?t = "join '','' (map dumps xs) @ CHR '']'' # r"
    have "p_elems m ?t = Some (map canon xs, r)"
      using assms n m Cons by (intro p_elems_dumps) auto
    moreover obtain d ds where "?t = d # ds" "val_head d"
      using assms Cons dumps_head [of y] by (cases ys; cases "dumps y") auto
    ultimately show ?thesis
      using m by (auto simp: val_head_def)
  qed
qed

text \<open>An object ends with its brace, whatever follows it.\<close>

lemma p_val_obj:
  assumes "\<forall>kv \<in> set kvs. wf_json (snd kv) \<and> rt_val (snd kv)" and "distinct (map fst kvs)"
    and n: "2 * length (dumps (JObj kvs) @ r) \<le> n"
  shows "p_val n (dumps (JObj kvs) @ r) = Some (canon (JObj kvs), r)"
proof -
  let ?ks = "sort_key fst kvs"
  from n obtain m where m: "n = Suc m" by (cases n) (auto simp: dumps_obj)
  show "p_val n (dumps (JObj kvs) @ r) = Some (canon (JObj kvs), r)"
  proof (cases "kvs = []")
    case True
    with m show ?thesis by (simp add: is_ws_def)
  next
    case False
    let ?t = "join '','' (map member_text ?ks) @ CHR 0x7D # r"
    have ne: "?ks \<noteq> []" using False by (metis length_0_conv length_sort)
    have "p_members m ?t = Some (map (\<lambda>kv. (fst kv, canon (snd kv))) ?ks, r)"
      using assms(1) ne n m by (intro p_members_dumps) (auto simp: dumps_obj simp del: dumps.simps)
    moreover have "dict_of (map (\<lambda>kv. (fst kv, canon (snd kv))) ?ks) = map (\<lambda>kv. (fst kv, canon (snd kv))) ?ks"
      using assms(2) by (intro dict_of_distinct) (simp add: comp_def distinct_sort_key)
    moreover obtain u where "?t = CHR 0x22 # u"
      using ne by (cases ?ks; cases "tl ?ks") (auto simp: quote_def)
    moreover have "dumps (JObj kvs) @ r = CHR 0x7B # ?t" by (simp add: dumps_obj del: dumps.simps)
    ultimately show ?thesis
      using m by (simp add: sort_key_map_fst is_ws_def)
  qed
qed

lemma rt_val_obj:
  assumes "\<forall>kv \<in> set kvs. wf_json (snd kv) \<and> rt_val (snd kv)" and "distinct (map fst kvs)"
  shows "rt_val (JObj kvs)"
  using p_val_obj [OF assms] by (simp only: rt_val_def) blast

lemma rt_val_all: "wf_json v \<Longrightarrow> rt_val v"
proof (induction v)
  case (JArr xs)
  then show ?case by (intro rt_val_arr) (auto simp: list_all_iff)
next
  case (JObj kvs)
  then show ?case by (intro rt_val_obj) (fastforce simp: list_all_iff)+
qed (simp_all add: rt_val_flt rt_val_int rt_val_str rt_val_const)

text \<open>Reading the canonical text of a value gives the value with its keys sorted.\<close>

lemma loads_dumps: "wf_json v \<Longrightarrow> loads (dumps v) = Some (canon v)"
proof -
  assume wf: "wf_json v"
  have "p_val (2 * length (dumps v) + 2) (dumps v @ []) = Some (canon v, [])"
    by (rule rt_val_all [OF wf, unfolded rt_val_def, rule_format]) simp_all
  with skip_ws_dumps [OF wf, of "[]"] show ?thesis
    by (simp add: loads_def del: p_val.simps)
qed

text \<open>A file holds the text of an object and a line feed.\<close>

lemma loads_object_line:
  assumes "wf_json (JObj d)"
  shows "loads (dumps (JObj d) @ [CHR 0x0A]) = Some (canon (JObj d))"
proof -
  let ?t = "dumps (JObj d) @ [CHR 0x0A]"
  have "p_val (2 * length ?t + 2) ?t = Some (canon (JObj d), [CHR 0x0A])"
    using assms rt_val_all by (intro p_val_obj) (auto simp: list_all_iff)
  with skip_ws_dumps [OF assms, of "[CHR 0x0A]"] show ?thesis
    by (simp add: loads_def is_ws_def skip_ws_def del: p_val.simps dumps.simps canon.simps)
qed

lemma dumps_eq_canon: "wf_json v \<Longrightarrow> wf_json w \<Longrightarrow> dumps v = dumps w \<Longrightarrow> canon v = canon w"
  using loads_dumps [of v] loads_dumps [of w] by simp

section \<open>Properties\<close>

text \<open>C13: canonical JSON text reads back: parsing what \<open>_canonical_json\<close> prints gives the
  value with its keys sorted.\<close>

theorem canonical_json_roundtrip:
  assumes "wf_json v"
  shows "loads (canonical_json v) = Some (canon v)"
  using loads_dumps [OF assms] by (simp add: canonical_json_def)

theorem canonical_json_roundtrip_witness:
  "loads (canonical_json (JObj [(''b'', JArr [JInt (- 3), JNull]), (''a'', JStr [CHR 0x22, CHR 0x0A])])) =
    Some (JObj [(''a'', JStr [CHR 0x22, CHR 0x0A]), (''b'', JArr [JInt (- 3), JNull])])"
  using canonical_json_roundtrip [of "JObj [(''b'', JArr [JInt (- 3), JNull]), (''a'', JStr [CHR 0x22, CHR 0x0A])]"]
  by (simp add: wf_dict_def)

text \<open>canonical JSON text depends on the members of an object only, never on their
  insertion order, and values with the same canonical text are equal up to that order.\<close>

theorem canonical_json_injective:
  assumes "wf_json v" and "wf_json w"
  shows "canonical_json v = canonical_json w \<longleftrightarrow> canon v = canon w"
proof
  assume "canonical_json v = canonical_json w"
  then show "canon v = canon w"
    using assms by (intro dumps_eq_canon) (simp_all add: canonical_json_def)
next
  assume "canon v = canon w"
  then have "dumps (canon v) = dumps (canon w)" by simp
  then show "canonical_json v = canonical_json w" by (simp add: canonical_json_def)
qed

theorem canonical_json_injective_witness:
  "canonical_json (JObj [(''b'', JInt 1), (''a'', JNull)]) = canonical_json (JObj [(''a'', JNull), (''b'', JInt 1)])"
  using canonical_json_injective [of "JObj [(''b'', JInt 1), (''a'', JNull)]" "JObj [(''a'', JNull), (''b'', JInt 1)]"]
  by (simp add: wf_dict_def)

end
