(* ===== verification/Hashing.thy ===== *)
theory Hashing
  imports Json_Reader "HOL-Library.Word"
begin

unbundle bit_operations_syntax

text \<open>
  The two hashes the runtime signs with: SHA-256 (\<^verbatim>\<open>hashlib.sha256\<close>, FIPS 180-4) and
  the 32-bit FNV-1a of \<^verbatim>\<open>core/hashutil.py\<close>, on 32-bit words with wrap-around, both
  written as lower-case hexadecimal text. The lemmas give the shape of the digests, which
  is what \<open>looks_like_hash\<close> checks on every block.
\<close>

type_synonym u32 = "32 word"

definition byte :: "char \<Rightarrow> u32" where
  "byte c = of_nat (of_char c)"

section \<open>Hexadecimal text\<close>

definition hex_digit :: "u32 \<Rightarrow> nat \<Rightarrow> char" where
  "hex_digit w i = digit (unat (drop_bit (4 * i) w AND 15))"

text \<open>\<^verbatim>\<open>f"{w:08x}"\<close>.\<close>

definition hex32 :: "u32 \<Rightarrow> string" where
  "hex32 w = map (hex_digit w) [7, 6, 5, 4, 3, 2, 1, 0]"

definition hex_alphabet :: "char set" where
  "hex_alphabet = set ''0123456789abcdef''"

text \<open>\<open>_looks_like_hash\<close>: exactly \<open>n\<close> lower-case hexadecimal digits.\<close>

definition looks_like_hash :: "string \<Rightarrow> nat \<Rightarrow> bool" where
  "looks_like_hash v n \<longleftrightarrow> py_len v = n \<and> list_all (\<lambda>c. c \<in> hex_alphabet) v"

section \<open>FNV-1a\<close>

definition fnv_step :: "u32 \<Rightarrow> char \<Rightarrow> u32" where
  "fnv_step h b = (h XOR byte b) * 16777619"

definition fnv1a_32 :: "string \<Rightarrow> string" where
  "fnv1a_32 text = hex32 (foldl fnv_step 2166136261 text)"

section \<open>SHA-256\<close>

definition sha_k :: "u32 list" where
  "sha_k =
     [1116352408, 1899447441, 3049323471, 3921009573, 961987163, 1508970993, 2453635748, 2870763221,
      3624381080, 310598401, 607225278, 1426881987, 1925078388, 2162078206, 2614888103, 3248222580,
      3835390401, 4022224774, 264347078, 604807628, 770255983, 1249150122, 1555081692, 1996064986,
      2554220882, 2821834349, 2952996808, 3210313671, 3336571891, 3584528711, 113926993, 338241895,
      666307205, 773529912, 1294757372, 1396182291, 1695183700, 1986661051, 2177026350, 2456956037,
      2730485921, 2820302411, 3259730800, 3345764771, 3516065817, 3600352804, 4094571909, 275423344,
      430227734, 506948616, 659060556, 883997877, 958139571, 1322822218, 1537002063, 1747873779,
      1955562222, 2024104815, 2227730452, 2361852424, 2428436474, 2756734187, 3204031479,
     3329325298]"

definition sha_init :: "u32 list" where
  "sha_init =
     [1779033703, 3144134277, 1013904242, 2773480762, 1359893119, 2600822924, 528734635,
     1541459225]"

definition rotr :: "nat \<Rightarrow> u32 \<Rightarrow> u32" where
  "rotr n x = (drop_bit n x) OR (push_bit (32 - n) x)"

text \<open>The message schedule, newest word first.\<close>

definition sha_extend :: "u32 list \<Rightarrow> u32 list" where
  "sha_extend w =
     (let s0 = rotr 7 (w ! 14) XOR rotr 18 (w ! 14) XOR drop_bit 3 (w ! 14);
          s1 = rotr 17 (w ! 1) XOR rotr 19 (w ! 1) XOR drop_bit 10 (w ! 1)
      in (w ! 15 + s0 + w ! 6 + s1) # w)"

definition sha_schedule :: "u32 list \<Rightarrow> u32 list" where
  "sha_schedule w = rev ((sha_extend ^^ 48) (rev w))"

definition sha_round :: "u32 list \<Rightarrow> u32 \<times> u32 \<Rightarrow> u32 list" where
  "sha_round st kw =
     (let a = st ! 0; b = st ! 1; c = st ! 2; d = st ! 3;
          e = st ! 4; f = st ! 5; g = st ! 6; h = st ! 7;
          s1 = rotr 6 e XOR rotr 11 e XOR rotr 25 e;
          ch = (e AND f) XOR (NOT e AND g);
          t1 = h + s1 + ch + fst kw + snd kw;
          s0 = rotr 2 a XOR rotr 13 a XOR rotr 22 a;
          maj = (a AND b) XOR (a AND c) XOR (b AND c);
          t2 = s0 + maj
      in [t1 + t2, a, b, c, d + t1, e, f, g])"

definition sha_block :: "u32 list \<Rightarrow> u32 list \<Rightarrow> u32 list" where
  "sha_block st w = map2 (+) st (foldl sha_round st (zip sha_k (sha_schedule w)))"

fun words_of :: "string \<Rightarrow> u32 list" where
  "words_of (a # b # c # d # r) =
     (push_bit 24 (byte a) OR push_bit 16 (byte b) OR push_bit 8 (byte c) OR byte d) # words_of r"
| "words_of _ = []"

definition word_bytes :: "u32 \<Rightarrow> string" where
  "word_bytes w = map (\<lambda>i. char_of (unat (drop_bit (8 * i) w AND 255))) [3, 2, 1, 0]"

definition sha_pad :: "string \<Rightarrow> string" where
  "sha_pad m =
     (let n = length m; z = (119 - n mod 64) mod 64; bits = 8 * n
      in m @ [CHR 0x80] @ replicate z (CHR 0x00) @
         word_bytes (of_nat (bits div 2 ^ 32)) @ word_bytes (of_nat bits))"

fun sha_blocks :: "u32 list \<Rightarrow> u32 list list" where
  "sha_blocks ws = (if ws = [] then [] else take 16 ws # sha_blocks (drop 16 ws))"

declare sha_blocks.simps [simp del]

definition sha256_words :: "string \<Rightarrow> u32 list" where
  "sha256_words m = foldl sha_block sha_init (sha_blocks (words_of (sha_pad m)))"

text \<open>\<^verbatim>\<open>hashlib.sha256(data).digest()\<close> and \<^verbatim>\<open>.hexdigest()\<close>.\<close>

definition sha256_digest :: "string \<Rightarrow> string" where
  "sha256_digest m = concat (map word_bytes (sha256_words m))"

definition sha256_hex :: "string \<Rightarrow> string" where
  "sha256_hex m = concat (map hex32 (sha256_words m))"

section \<open>Shape of the digests\<close>

lemma unat_and_15: "unat (w AND 15 :: u32) < 16"
proof -
  have "unat (w AND 15) \<le> unat (15 :: u32)"
    by (rule word_and_le1 [THEN word_le_nat_alt [THEN iffD1]])
  then show ?thesis by simp
qed

lemma digit_hex: "n < 16 \<Longrightarrow> digit n \<in> hex_alphabet"
proof -
  have "list_all (\<lambda>n. digit n \<in> set ''0123456789abcdef'') [0..<16]" by code_simp
  then show "n < 16 \<Longrightarrow> digit n \<in> hex_alphabet"
    by (auto simp: list_all_iff hex_alphabet_def)
qed

lemma hex_digit_hex: "hex_digit w i \<in> hex_alphabet"
  unfolding hex_digit_def by (rule digit_hex) (rule unat_and_15)

lemma length_hex32 [simp]: "length (hex32 w) = 8"
  by (simp add: hex32_def)

lemma set_hex32: "set (hex32 w) \<subseteq> hex_alphabet"
  using hex_digit_hex by (auto simp: hex32_def)

lemma hex_not_cont: "c \<in> hex_alphabet \<Longrightarrow> \<not> is_cont c"
  by (auto simp: hex_alphabet_def is_cont_def)

lemma uchars_ascii: "\<forall>c \<in> set s. \<not> is_cont c \<Longrightarrow> uchars s = map (\<lambda>c. [c]) s"
proof (induction s)
  case Nil
  then show ?case by simp
next
  case (Cons c s)
  then have "takeWhile is_cont s = []" "dropWhile is_cont s = s" by (cases s; simp)+
  with Cons show ?case by simp
qed

lemma py_len_hex: "set s \<subseteq> hex_alphabet \<Longrightarrow> py_len s = length s"
  using hex_not_cont by (auto simp: py_len_def uchars_ascii subset_iff)

lemma looks_like_hash_iff:
  "looks_like_hash v n \<longleftrightarrow> length v = n \<and> set v \<subseteq> hex_alphabet"
  by (auto simp: looks_like_hash_def list_all_iff py_len_hex subset_iff)

lemma looks_like_hash_fnv: "looks_like_hash (fnv1a_32 s) 8"
  using set_hex32 by (simp add: looks_like_hash_iff fnv1a_32_def)

lemma length_sha_round [simp]: "length (sha_round st kw) = 8"
  by (simp add: sha_round_def Let_def)

lemma length_foldl_sha_round: "length st = 8 \<Longrightarrow> length (foldl sha_round st kws) = 8"
  by (induction kws arbitrary: st) auto

lemma length_sha_block: "length st = 8 \<Longrightarrow> length (sha_block st w) = 8"
  by (simp add: sha_block_def length_foldl_sha_round)

lemma length_sha256_words [simp]: "length (sha256_words m) = 8"
proof -
  have "length st = 8 \<Longrightarrow> length (foldl sha_block st bs) = 8" for st bs
    by (induction bs arbitrary: st) (auto simp: length_sha_block)
  then show ?thesis by (simp add: sha256_words_def sha_init_def)
qed

lemma sum_list_const: "(\<And>x. x \<in> set xs \<Longrightarrow> f x = c) \<Longrightarrow> sum_list (map f xs) = length xs * (c :: nat)"
  by (induction xs) auto

lemma looks_like_hash_sha256: "looks_like_hash (sha256_hex s) 64"
proof -
  have "length (sha256_hex s) = 64"
    by (simp add: sha256_hex_def length_concat comp_def sum_list_const [of _ _ 8])
  moreover have "set (sha256_hex s) \<subseteq> hex_alphabet"
    using set_hex32 by (auto simp: sha256_hex_def)
  ultimately show ?thesis by (simp add: looks_like_hash_iff)
qed

lemma length_sha256_hex [simp]: "length (sha256_hex s) = 64"
  using looks_like_hash_sha256 by (simp add: looks_like_hash_iff)

lemma length_sha256_digest [simp]: "length (sha256_digest s) = 32"
  by (simp add: sha256_digest_def length_concat comp_def word_bytes_def sum_list_const [of _ _ 4])

text \<open>SHA-256 has no collision among the given texts: what binding arguments rest on.\<close>

definition no_collision :: "string set \<Rightarrow> bool" where
  "no_collision A \<longleftrightarrow> inj_on sha256_hex A"

lemma no_collisionD: "no_collision A \<Longrightarrow> sha256_hex s = sha256_hex t \<Longrightarrow> s \<in> A \<Longrightarrow> t \<in> A \<Longrightarrow> s = t"
  by (auto simp: no_collision_def dest: inj_onD)

end
