(* ===== verification/Json_Lines.thy ===== *)
theory Json_Lines
  imports Hashing
begin

text \<open>
  JSON-lines files: the proof ledger, the orphan log, the rollup journal and the governance
  log are all text files to which the runtime appends one canonical JSON object and a line
  feed, and which it reads back with \<^verbatim>\<open>read_text().splitlines()\<close>, \<^verbatim>\<open>strip()\<close>
  and \<^verbatim>\<open>json.loads\<close>. The interface \<open>jsonl_store\<close> states what its clients rely
  on: what was appended is read back last, with sorted keys.

  The law needs the text of the object to be one line. \<^verbatim>\<open>json.dumps\<close> with
  \<^verbatim>\<open>ensure_ascii=False\<close> does not escape U+0085, U+2028 and U+2029, which
  \<^verbatim>\<open>splitlines\<close> treats as line boundaries: a value whose strings hold one of them
  (\<open>\<not> text_ok\<close>) is written as several lines.
\<close>

section \<open>The canonical text is one line\<close>

definition text_ok :: "string \<Rightarrow> bool" where
  "text_ok s \<longleftrightarrow> (s = [] \<or> \<not> is_cont (hd s)) \<and>
     (\<forall>u \<in> set (uchars s). u \<notin> {[CHR 0xC2, CHR 0x85], [CHR 0xE2, CHR 0x80, CHR 0xA8],
                                [CHR 0xE2, CHR 0x80, CHR 0xA9]})"

fun json_text_ok :: "jval \<Rightarrow> bool" where
  "json_text_ok (JStr s) = text_ok s"
| "json_text_ok (JArr xs) = list_all json_text_ok xs"
| "json_text_ok (JObj kvs) = list_all (\<lambda>kv. text_ok (fst kv) \<and> json_text_ok (snd kv)) kvs"
| "json_text_ok _ = True"

definition printable :: "char \<Rightarrow> bool" where
  "printable c \<longleftrightarrow> 32 \<le> (of_char c :: nat) \<and> (of_char c :: nat) < 128"

lemma printable_not_cont: "printable c \<Longrightarrow> \<not> is_cont c"
  by (simp add: printable_def is_cont_def)

lemma one_line_append:
  assumes "t = [] \<or> \<not> is_cont (hd t)"
  shows "one_line (s @ t) \<longleftrightarrow> one_line s \<and> one_line t"
  by (auto simp: one_line_def uchars_append [OF assms])

lemma one_line_appendI:
  "one_line s \<Longrightarrow> one_line t \<Longrightarrow> t = [] \<or> \<not> is_cont (hd t) \<Longrightarrow> one_line (s @ t)"
  by (simp add: one_line_append)

lemma uchars_group: "\<forall>d \<in> set cs. is_cont d \<Longrightarrow> uchars (c # cs) = [c # cs]"
  by (simp add: takeWhile_eq_all_conv [THEN iffD2] dropWhile_eq_Nil_conv [THEN iffD2])

lemma printable_no_break: "printable c \<Longrightarrow> \<not> is_line_break (c # cs)"
  by (auto simp: is_line_break_def printable_def)

lemma one_line_printable:
  assumes "\<forall>c \<in> set s. printable c"
  shows "one_line s"
proof -
  have "uchars s = map (\<lambda>c. [c]) s"
    using assms printable_not_cont by (intro uchars_ascii) blast
  with assms printable_no_break show ?thesis by (auto simp: one_line_def)
qed

lemma esc_plain: "32 \<le> (of_char c :: nat) \<Longrightarrow> c \<noteq> CHR 0x22 \<Longrightarrow> c \<noteq> CHR 0x5C \<Longrightarrow> esc c = [c]"
  by (auto simp: esc_def)

lemma esc_cont: "is_cont c \<Longrightarrow> esc c = [c]"
  by (rule esc_plain) (auto simp: is_cont_def)

lemma concat_esc_cont: "\<forall>c \<in> set cs. is_cont c \<Longrightarrow> concat (map esc cs) = cs"
  by (induction cs) (auto simp: esc_cont)

lemma esc_cases:
  obtains "esc c = [c]" "32 \<le> (of_char c :: nat)"
  | "\<forall>d \<in> set (esc c). printable d" "esc c \<noteq> []"
proof (cases "32 \<le> (of_char c :: nat) \<and> c \<noteq> CHR 0x22 \<and> c \<noteq> CHR 0x5C")
  case True
  then have "esc c = [c]" by (auto simp: esc_def)
  with True that(1) show ?thesis by blast
next
  case False
  have "printable (digit n)" if "n < 16" for n
    using digit_hex [OF that] by (auto simp: hex_alphabet_def printable_def)
  then have "\<forall>d \<in> set (esc c). printable d" "esc c \<noteq> []"
    using False by (auto simp: esc_def printable_def hex_char_def)
  with that(2) show ?thesis by blast
qed

lemma hd_esc_not_cont: "\<not> is_cont c \<Longrightarrow> esc c \<noteq> [] \<and> \<not> is_cont (hd (esc c))"
  by (rule esc_cases [of c]) (use printable_not_cont in auto)

lemma hd_concat_esc: "s = [] \<or> \<not> is_cont (hd s) \<Longrightarrow>
    concat (map esc s) = [] \<or> \<not> is_cont (hd (concat (map esc s)))"
  using hd_esc_not_cont by (cases s) auto

lemma one_line_group:
  assumes "\<forall>d \<in> set cs. is_cont d" and "\<not> is_line_break (c # cs)" and "\<not> is_cont c"
  shows "one_line (esc c @ cs)"
proof (rule esc_cases [of c])
  assume "esc c = [c]"
  with uchars_group [OF assms(1)] assms(2) show ?thesis by (simp add: one_line_def del: uchars.simps)
next
  assume pr: "\<forall>d \<in> set (esc c). printable d" and ne: "esc c \<noteq> []"
  have eq: "esc c @ cs = butlast (esc c) @ (last (esc c) # cs)" using ne by simp
  have last: "printable (last (esc c))" using pr ne by simp
  have "one_line (butlast (esc c))"
    using pr by (intro one_line_printable) (auto dest: in_set_butlastD)
  moreover have "one_line (last (esc c) # cs)"
    using uchars_group [OF assms(1)] printable_no_break [OF last] by (simp add: one_line_def del: uchars.simps)
  ultimately show ?thesis
    unfolding eq using printable_not_cont [OF last] by (intro one_line_appendI) simp_all
qed

lemma one_line_esc:
  assumes "\<forall>u \<in> set (uchars s). \<not> (length u > 1 \<and> is_line_break u)" and "s = [] \<or> \<not> is_cont (hd s)"
  shows "one_line (concat (map esc s))"
  using assms
proof (induction s rule: uchars.induct)
  case 1
  then show ?case by (simp add: one_line_def)
next
  case (2 c cs)
  let ?k = "takeWhile is_cont cs" and ?r = "dropWhile is_cont cs"
  have "\<forall>d \<in> set ?k. is_cont d" by (auto dest: set_takeWhileD)
  have split: "concat (map esc (c # cs)) = (esc c @ ?k) @ concat (map esc ?r)"
    using concat_esc_cont [OF \<open>\<forall>d \<in> set ?k. is_cont d\<close>]
    by (metis append_assoc concat.simps(2) concat_append list.simps(9) map_append takeWhile_dropWhile_id)
  have r: "?r = [] \<or> \<not> is_cont (hd ?r)" using hd_dropWhile by blast
  then have rest: "one_line (concat (map esc ?r))" using 2 by simp
  have "one_line (esc c @ ?k)"
  proof (cases "is_line_break (c # ?k)")
    case False
    with 2 \<open>\<forall>d \<in> set ?k. is_cont d\<close> show ?thesis by (intro one_line_group) auto
  next
    case True
    with 2 have "?k = []" by auto
    with True have "(of_char c :: nat) < 32" by (auto simp: is_line_break_def)
    then have "\<forall>d \<in> set (esc c). printable d" by (rule_tac esc_cases [of c]) auto
    with \<open>?k = []\<close> show ?thesis by (simp add: one_line_printable)
  qed
  then show ?case
    unfolding split using rest hd_concat_esc [OF r] by (rule one_line_appendI)
qed

lemma multi_byte_break:
  "is_line_break u \<Longrightarrow> length u > 1 \<Longrightarrow>
   u \<in> {[CHR 0xC2, CHR 0x85], [CHR 0xE2, CHR 0x80, CHR 0xA8], [CHR 0xE2, CHR 0x80, CHR 0xA9]}"
  unfolding is_line_break_def insert_iff by (elim disjE) simp_all

lemma one_line_quote:
  assumes "text_ok s"
  shows "one_line (quote s)"
proof -
  have body: "one_line (concat (map esc s))"
    using assms multi_byte_break unfolding text_ok_def by (intro one_line_esc) blast+
  have q: "one_line [CHR 0x22]" by (rule one_line_printable) (simp add: printable_def)
  have "one_line (concat (map esc s) @ [CHR 0x22])"
    using body q by (rule one_line_appendI) (simp add: is_cont_def)
  moreover have "concat (map esc s) @ [CHR 0x22] = [] \<or> \<not> is_cont (hd (concat (map esc s) @ [CHR 0x22]))"
    using hd_concat_esc [of s] assms by (auto simp: text_ok_def is_cont_def hd_append)
  ultimately have "one_line ([CHR 0x22] @ concat (map esc s) @ [CHR 0x22])"
    by (rule one_line_appendI [OF q])
  then show ?thesis by (simp add: quote_def)
qed

lemma printable_digit: "is_digit c \<Longrightarrow> printable c"
  by (simp add: is_digit_def printable_def)

lemma scan_printable:
  "scan_int s = (ip, r) \<Longrightarrow> \<forall>c \<in> set ip. printable c"
  "scan_frac s = (fp, r) \<Longrightarrow> \<forall>c \<in> set fp. printable c"
  "scan_exp s = (ep, r) \<Longrightarrow> \<forall>c \<in> set ep. printable c"
proof -
  have d: "\<forall>c \<in> set (takeWhile is_digit t). printable c" for t
    using printable_digit by (auto dest: set_takeWhileD)
  have z: "printable (CHR ''0'')" "printable (CHR ''.'')" "printable (CHR ''e'')" "printable (CHR ''E'')"
    "printable (CHR ''+'')" "printable (CHR ''-'')"
    by (simp_all add: printable_def)
  show "scan_int s = (ip, r) \<Longrightarrow> \<forall>c \<in> set ip. printable c"
    using d z by (auto simp: scan_int_def split: if_splits)
  show "scan_frac s = (fp, r) \<Longrightarrow> \<forall>c \<in> set fp. printable c"
    using d z by (auto simp: scan_frac_def split: if_splits)
  show "scan_exp s = (ep, r) \<Longrightarrow> \<forall>c \<in> set ep. printable c"
    using d z by (auto simp: scan_exp_def Let_def split: if_splits)
qed

lemma scan_num_printable:
  assumes "scan_num s = Some (sg, ip, fp, ep, [])"
  shows "\<forall>c \<in> set s. printable c"
proof -
  obtain r1 r2 where "scan_int (drop (length sg) s) = (ip, r1)" "scan_frac r1 = (fp, r2)"
    "scan_exp r2 = (ep, [])" "sg \<in> {[], [CHR ''-'']}"
    using assms by (auto simp: scan_num_def Let_def split: prod.splits if_splits)
  then have "\<forall>c \<in> set (sg @ ip @ fp @ ep). printable c"
    using scan_printable(1) [of "drop (length sg) s" ip r1] scan_printable(2) [of r1 fp r2]
      scan_printable(3) [of r2 ep "[]"]
    by (auto simp: printable_def)
  with scan_num_parts [OF assms] show ?thesis by simp
qed

lemma printable_special: "s \<in> {''NaN'', ''Infinity'', ''-Infinity'', ''null'', ''true'', ''false''} \<Longrightarrow>
    \<forall>c \<in> set s. printable c"
  by (auto simp: printable_def)

lemma printable_scalar:
  assumes "wf_json v" and "\<And>s. v \<noteq> JStr s" and "\<And>xs. v \<noteq> JArr xs" and "\<And>d. v \<noteq> JObj d"
  shows "\<forall>c \<in> set (dumps v). printable c"
proof (cases v)
  case (JInt i)
  then show ?thesis using scan_num_printable [OF scan_num_show_int [of i]] by simp
next
  case (JFloat f)
  with assms(1) have "f \<in> {''NaN'', ''Infinity'', ''-Infinity''} \<or> is_float_lit f"
    by (auto simp: wf_flt_def)
  then show ?thesis
  proof
    assume "is_float_lit f"
    then obtain sg ip fp ep where "scan_num f = Some (sg, ip, fp, ep, [])"
      by (auto simp: is_float_lit_def split: option.splits)
    from scan_num_printable [OF this] JFloat show ?thesis by simp
  qed (use JFloat printable_special [of f] in auto)
next
  case (JBool b)
  with printable_special [of "dumps v"] show ?thesis by (cases b) auto
qed (use assms printable_special [of "dumps v"] in auto)

lemma dumps_hd_not_cont:
  assumes "wf_json v"
  shows "dumps v \<noteq> [] \<and> \<not> is_cont (hd (dumps v))"
proof (cases "(\<exists>s. v = JStr s) \<or> (\<exists>xs. v = JArr xs) \<or> (\<exists>d. v = JObj d)")
  case True
  then show ?thesis by (auto simp: quote_def is_cont_def)
next
  case False
  with printable_scalar [OF assms] have "\<forall>c \<in> set (dumps v). printable c" by blast
  with dumps_head [OF assms] printable_not_cont show ?thesis by (meson hd_in_set)
qed

lemma one_line_join:
  assumes "\<forall>x \<in> set xs. one_line x \<and> x \<noteq> [] \<and> \<not> is_cont (hd x)"
  shows "one_line (join '','' xs) \<and> (xs \<noteq> [] \<longrightarrow> join '','' xs \<noteq> [] \<and> \<not> is_cont (hd (join '','' xs)))"
  using assms
proof (induction "'',''" xs rule: join.induct)
  case (3 x y xs)
  have comma: "one_line '',''" by (rule one_line_printable) (simp add: printable_def)
  from 3 have IH: "one_line (join '','' (y # xs))" "\<not> is_cont (hd (join '','' (y # xs)))" by auto
  have "one_line ('','' @ join '','' (y # xs))"
    using IH(2) by (intro one_line_appendI [OF comma IH(1)]) simp
  then have "one_line (x @ '','' @ join '','' (y # xs))"
    using 3 by (intro one_line_appendI [of x]) (auto simp: is_cont_def)
  with 3 show ?case by simp
qed (auto simp: one_line_def)

lemma one_line_bracket:
  assumes "one_line s" and "s = [] \<or> \<not> is_cont (hd s)" and "printable a" and "printable b"
  shows "one_line ([a] @ s @ [b])"
proof -
  have ab: "one_line [a]" "one_line [b]" using assms(3,4) by (auto intro: one_line_printable)
  have "one_line (s @ [b])"
    using printable_not_cont [OF assms(4)] by (intro one_line_appendI [OF assms(1) ab(2)]) simp
  then show ?thesis
    using assms printable_not_cont [OF assms(4)] by (intro one_line_appendI [OF ab(1)]) (auto simp: hd_append)
qed

lemma one_line_scalar:
  assumes "wf_json v" and "\<And>s. v \<noteq> JStr s" and "\<And>xs. v \<noteq> JArr xs" and "\<And>d. v \<noteq> JObj d"
  shows "one_line (dumps v)"
  using printable_scalar [OF assms] by (rule one_line_printable)

lemma one_line_dumps: "wf_json v \<Longrightarrow> json_text_ok v \<Longrightarrow> one_line (dumps v)"
proof (induction v)
  case (JArr xs)
  then have "\<forall>x \<in> set (map dumps xs). one_line x \<and> x \<noteq> [] \<and> \<not> is_cont (hd x)"
    using dumps_hd_not_cont by (auto simp: list_all_iff)
  from one_line_join [OF this] one_line_bracket [of "join '','' (map dumps xs)" "CHR ''[''" "CHR '']''"]
  show ?case by (cases xs) (auto simp: printable_def one_line_def)
next
  case (JObj kvs)
  have "one_line (member_text kv) \<and> member_text kv \<noteq> [] \<and> \<not> is_cont (hd (member_text kv))"
    if "kv \<in> set kvs" for kv
  proof -
    have ok: "wf_json (snd kv)" "json_text_ok (snd kv)" "text_ok (fst kv)"
      using JObj.prems that by (auto simp: list_all_iff)
    have "one_line (quote (fst kv))" using ok(3) by (rule one_line_quote)
    have "one_line (dumps (snd kv))" using ok(1,2) by (intro JObj.IH [OF that]) (cases kv, simp_all)
    have colon: "one_line '':''" by (rule one_line_printable) (simp add: printable_def)
    have "one_line ('':'' @ dumps (snd kv))"
      using dumps_hd_not_cont [OF ok(1)]
      by (intro one_line_appendI [OF colon \<open>one_line (dumps (snd kv))\<close>]) simp
    then have "one_line (member_text kv)"
      by (intro one_line_appendI [OF \<open>one_line (quote (fst kv))\<close>]) (auto simp: is_cont_def)
    then show ?thesis by (auto simp: quote_def is_cont_def)
  qed
  then have "\<forall>x \<in> set (map member_text (sort_key fst kvs)). one_line x \<and> x \<noteq> [] \<and> \<not> is_cont (hd x)"
    by auto
  from one_line_join [OF this]
    one_line_bracket [of "join '','' (map member_text (sort_key fst kvs))" "CHR 0x7B" "CHR 0x7D"]
  show ?case
    by (cases "sort_key fst kvs") (auto simp: dumps_obj printable_def one_line_def simp del: dumps.simps)
next
  case (JStr s)
  then show ?case by (simp add: one_line_quote)
qed (erule one_line_scalar; simp)+

section \<open>Files of JSON lines\<close>

text \<open>\<open>_append_jsonl_atomic\<close>: the canonical text and a line feed, at the end of the file.\<close>

definition append_jsonl :: "string \<Rightarrow> jdict \<Rightarrow> string" where
  "append_jsonl text record = text @ canonical_json (JObj record) @ [CHR 0x0A]"

text \<open>
  The reading loop shared by the ledger and journal readers: every line is stripped, blank
  lines, lines that are not JSON and values that are not objects are skipped.
\<close>

definition line_obj :: "string \<Rightarrow> jdict option" where
  "line_obj raw =
     (let ln = strip raw
      in if ln = [] then None
         else (case loads ln of Some (JObj d) \<Rightarrow> Some d | _ \<Rightarrow> None))"

definition jsonl_objs :: "string \<Rightarrow> jdict list" where
  "jsonl_objs text = List.map_filter line_obj (splitlines text)"

text \<open>A record that survives being written as a line, and a file that ends at a line end.\<close>

definition line_record :: "jdict \<Rightarrow> bool" where
  "line_record d \<longleftrightarrow> wf_json (JObj d) \<and> json_text_ok (JObj d)"

definition at_line_end :: "string \<Rightarrow> bool" where
  "at_line_end text \<longleftrightarrow> text = [] \<or> last text = CHR 0x0A"

definition canon_dict :: "jdict \<Rightarrow> jdict" where
  "canon_dict d = sort_key fst (map (\<lambda>kv. (fst kv, canon (snd kv))) d)"

lemma canon_JObj: "canon (JObj d) = JObj (canon_dict d)"
  by (simp add: canon_dict_def)

locale jsonl_store =
  fixes read :: "'f \<Rightarrow> 'd list" and append :: "'f \<Rightarrow> 'd \<Rightarrow> 'f" and norm :: "'d \<Rightarrow> 'd"
    and ok :: "'d \<Rightarrow> bool" and complete :: "'f \<Rightarrow> bool" and empty :: "'f"
  assumes read_empty: "read empty = []"
    and complete_empty: "complete empty"
    and read_append: "complete f \<Longrightarrow> ok d \<Longrightarrow> read (append f d) = read f @ [norm d]"
    and complete_append: "complete (append f d)"
begin

lemma complete_fold: "complete f \<Longrightarrow> complete (foldl append f ds)"
  by (induction ds arbitrary: f) (auto simp: complete_append)

lemma read_fold:
  "complete f \<Longrightarrow> \<forall>d \<in> set ds. ok d \<Longrightarrow> read (foldl append f ds) = read f @ map norm ds"
  by (induction ds arbitrary: f) (auto simp: read_append complete_append)

lemma read_log: "\<forall>d \<in> set ds. ok d \<Longrightarrow> read (foldl append empty ds) = map norm ds"
  by (simp add: read_fold complete_empty read_empty)

end

lemma split_u_append_LF:
  "split_u (us @ [CHR 0x0A] # vs) cur = split_u (us @ [[CHR 0x0A]]) cur @ split_u vs []"
proof (induction us cur rule: split_u.induct)
  case (1 cur)
  then show ?case by (cases vs) (auto simp: is_line_break_def)
next
  case (2 u cur)
  then show ?case by (cases vs) (auto simp: is_line_break_def)
next
  case (3 u v us cur)
  then show ?case by simp
qed

lemma splitlines_append_at_end:
  assumes "at_line_end f" and "t = [] \<or> \<not> is_cont (hd t)"
  shows "splitlines (f @ t) = splitlines f @ splitlines t"
proof (cases "f = []")
  case True
  then show ?thesis by (simp add: splitlines_def)
next
  case False
  with assms(1) have f: "f = butlast f @ [CHR 0x0A]"
    by (metis append_butlast_last_id at_line_end_def)
  have lf: "uchars (butlast f @ [CHR 0x0A]) = uchars (butlast f) @ [[CHR 0x0A]]"
    by (subst uchars_append) (simp_all add: is_cont_def)
  have "uchars (f @ t) = uchars f @ uchars t" using assms(2) by (rule uchars_append)
  then show ?thesis
    unfolding splitlines_def using lf f split_u_append_LF [of "uchars (butlast f)" "uchars t" "[]"]
    by (metis append.assoc append_Cons append_Nil)
qed

lemma at_line_end_append [simp]: "at_line_end (append_jsonl f d)"
  by (simp add: append_jsonl_def at_line_end_def)

lemma is_space_printable: "is_space (c # cs) \<Longrightarrow> c \<noteq> CHR 0x7B \<and> c \<noteq> CHR 0x7D"
  unfolding is_space_def is_line_break_def insert_iff by (elim disjE bexE) auto

lemma strip_dumps_obj: "strip (dumps (JObj d)) = dumps (JObj d)"
proof -
  obtain b where d: "dumps (JObj d) = CHR 0x7B # b @ [CHR 0x7D]" by simp
  have last: "uchars (CHR 0x7B # b @ [CHR 0x7D]) = uchars (CHR 0x7B # b) @ [[CHR 0x7D]]"
    using uchars_append [of "[CHR 0x7D]" "CHR 0x7B # b"] by (simp add: is_cont_def)
  obtain us where us: "uchars (CHR 0x7B # b @ [CHR 0x7D]) = (CHR 0x7B # takeWhile is_cont (b @ [CHR 0x7D])) # us"
    by simp
  from last us have e: "last ((CHR 0x7B # takeWhile is_cont (b @ [CHR 0x7D])) # us) = [CHR 0x7D]"
    by (metis last_snoc)
  show ?thesis
    unfolding d
  proof (rule strip_id [OF us])
    show "\<not> is_space (CHR 0x7B # takeWhile is_cont (b @ [CHR 0x7D]))"
      using is_space_printable by blast
    show "\<not> is_space (last ((CHR 0x7B # takeWhile is_cont (b @ [CHR 0x7D])) # us))"
      unfolding e using is_space_printable by blast
  qed
qed

lemma line_obj_dumps:
  "line_record d \<Longrightarrow> line_obj (canonical_json (JObj d)) = Some (canon_dict d)"
  using loads_dumps [of "JObj d"] strip_dumps_obj [of d]
  by (simp add: line_obj_def canonical_json_def line_record_def canon_JObj Let_def del: dumps.simps canon.simps)
    (simp add: dumps_obj)

lemma splitlines_record: "line_record d \<Longrightarrow> splitlines (canonical_json (JObj d) @ [CHR 0x0A]) = [canonical_json (JObj d)]"
  using splitlines_append_line [of "canonical_json (JObj d)" "[]"] one_line_dumps [of "JObj d"]
  by (simp add: line_record_def canonical_json_def splitlines_def del: dumps.simps)

lemma jsonl_objs_append:
  assumes "at_line_end f" and "line_record d"
  shows "jsonl_objs (append_jsonl f d) = jsonl_objs f @ [canon_dict d]"
proof -
  let ?t = "canonical_json (JObj d) @ [CHR 0x0A]"
  have "?t = [] \<or> \<not> is_cont (hd ?t)"
    using assms(2) dumps_hd_not_cont [of "JObj d"] by (simp add: line_record_def canonical_json_def)
  from splitlines_append_at_end [OF assms(1) this] splitlines_record [OF assms(2)]
  show ?thesis
    using line_obj_dumps [OF assms(2)]
    by (simp add: jsonl_objs_def append_jsonl_def List.map_filter_def)
qed

interpretation jsonl: jsonl_store jsonl_objs append_jsonl canon_dict line_record at_line_end "[]"
proof
  show "jsonl_objs [] = []" by (simp add: jsonl_objs_def splitlines_def List.map_filter_def)
qed (simp_all add: jsonl_objs_append, simp add: at_line_end_def)

lemma dget_canon_dict: "wf_dict d \<Longrightarrow> dget (canon_dict d) k = map_option canon (dget d k)"
proof -
  assume wf: "wf_dict d"
  let ?m = "map (\<lambda>kv. (fst kv, canon (snd kv))) d"
  have "distinct (map fst ?m)" using wf by (simp add: wf_dict_def comp_def)
  then have "map_of (sort_key fst ?m) = map_of ?m"
    by (intro map_of_inject_set [THEN iffD2]) (simp_all add: distinct_sort_key del: set_map)
  moreover have "map_of ?m k = map_option canon (map_of d k)" by (induction d) auto
  ultimately show ?thesis by (simp add: canon_dict_def dget_def)
qed

lemma wf_canon_dict_dict: "wf_dict d \<Longrightarrow> wf_dict (canon_dict d)"
  by (simp add: wf_dict_def canon_dict_def distinct_sort_key comp_def)

lemma jget_canon: "wf_dict b \<Longrightarrow> jget (canon_dict b) k = canon (jget b k)"
  by (simp add: jget_def dget_canon_dict split: option.splits)

lemma wf_canon_dict: "wf_json (JObj d) \<Longrightarrow> wf_json (JObj (canon_dict d))"
  using wf_canon [of "JObj d"] by (simp only: canon_JObj)

lemma wf_JObj: "wf_json (JObj d) \<longleftrightarrow> wf_dict d \<and> (\<forall>(k, v) \<in> set d. wf_json v)"
  by (auto simp: wf_dict_def list_all_iff)

lemma wf_JObj_dget: "wf_json (JObj d) \<longleftrightarrow> wf_dict d \<and> (\<forall>k v. dget d k = Some v \<longrightarrow> wf_json v)"
  unfolding wf_JObj by (auto simp: wf_dict_dget_iff dest: dget_in_set)

lemma wf_JObj_dput: "wf_json (JObj d) \<Longrightarrow> wf_json v \<Longrightarrow> wf_json (JObj (dput k v d))"
  unfolding wf_JObj_dget by (auto simp: dget_dput split: if_splits)

lemma wf_JObj_dupdate:
  "wf_json (JObj d) \<Longrightarrow> \<forall>(k, v) \<in> set ps. wf_json v \<Longrightarrow> wf_json (JObj (dupdate d ps))"
proof (induction ps arbitrary: d)
  case Nil
  then show ?case by (simp add: dupdate_def)
next
  case (Cons p ps)
  obtain k v where p: "p = (k, v)" by fastforce
  have "dupdate d (p # ps) = dupdate (dput k v d) ps" by (simp add: dupdate_def p)
  with Cons.IH [of "dput k v d"] Cons.prems wf_JObj_dput [of d v k] p show ?case by (simp del: wf_json.simps)
qed

lemma wf_dsetdefault: "wf_json (JObj d) \<Longrightarrow> wf_json v \<Longrightarrow> wf_json (JObj (dsetdefault k v d))"
  by (simp add: dsetdefault_def wf_JObj_dput del: wf_json.simps)

lemma line_record_dput:
  assumes "line_record d" and "text_ok k" and "wf_json v" and "json_text_ok v"
  shows "line_record (dput k v d)"
proof -
  have "(k', v') \<in> set (dput k v d) \<Longrightarrow> (k' = k \<and> v' = v) \<or> (k', v') \<in> set d" for k' v'
    by (induction d) (auto simp: py_simps split: if_splits)
  with assms show ?thesis
    unfolding line_record_def wf_json.simps json_text_ok.simps list_all_iff wf_dict_def [symmetric]
    by (metis prod.collapse wf_dict_dput)
qed

section \<open>Properties\<close>

text \<open>a log written record by record reads back as those records, in order.\<close>

theorem jsonl_log_roundtrip:
  assumes "\<forall>d \<in> set ds. line_record d"
  shows "jsonl_objs (foldl append_jsonl [] ds) = map canon_dict ds"
  by (rule jsonl.read_log [OF assms])

theorem jsonl_log_roundtrip_witness:
  "jsonl_objs (foldl append_jsonl [] [[(''k'', JStr ''v'')], [(''n'', JInt 7)]]) =
    [[(''k'', JStr ''v'')], [(''n'', JInt 7)]]"
  using jsonl_log_roundtrip [of "[[(''k'', JStr ''v'')], [(''n'', JInt 7)]]"]
  by (simp add: line_record_def wf_dict_def text_ok_def is_cont_def canon_dict_def)

text \<open>a record whose text holds U+2028 is written but never read back: the writer does
  not escape it and the reader splits the line there.\<close>

theorem line_separator_record_lost:
  "jsonl_objs (append_jsonl [] [(''note'', JStr [CHR 0xE2, CHR 0x80, CHR 0xA8])]) = []"
  by code_simp

end
