(* ===== verification/Schema.thy ===== *)
theory Schema
  imports Json_Lines
begin

text \<open>
  \<^verbatim>\<open>core/schema.py\<close>: the JSON-schema subset that guards every handshake payload, and
  the deterministic signature of a payload under a schema. The checker \<open>validate_node\<close> is
  shown to decide the declarative judgement \<open>conforms\<close>, which never mentions the order
  of checks or the error paths.
\<close>

section \<open>Sizes of sub-values\<close>

lemma size_arr_elem [termination_simp]: "x \<in> set xs \<Longrightarrow> size x < size_list size xs"
  by (induction xs) auto

lemma size_enum_elem: "(i, x) \<in> set (zip is xs) \<Longrightarrow> size x < size_list size xs"
  by (rule size_arr_elem) (rule set_zip_rightD)

lemma each_enum_Inr_iff:
  "each (\<lambda>(i, x). f i x) (zip [0..<length xs] xs) = Inr () \<longleftrightarrow> (\<forall>i < length xs. f i (xs ! i) = Inr ())"
proof -
  have "set (zip [0..<length xs] xs) = {(i, xs ! i) | i. i < length xs}"
    by (auto simp: set_zip) (metis add_0 nth_upt)
  then show ?thesis by (auto simp: each_Inr_iff)
qed

lemma size_member: "(k, v) \<in> set d \<Longrightarrow> size v < size (JObj d)"
  by (induction d) auto

lemma size_dget [termination_simp]: "dget d k = Some v \<Longrightarrow> size v < size (JObj d)"
  by (rule size_member) (rule dget_in_set)

section \<open>Schemas and errors\<close>

record schema =
  schema_id :: string
  schema_def :: jdict

datatype schema_reason =
    MissingType
  | ExpectedObject | ExpectedArray | ExpectedString | ExpectedInteger
  | ExpectedNumber | ExpectedBoolean | ExpectedNull
  | UnsupportedType jval
  | PropertiesNotObject | RequiredNotStrings | AdditionalNotBool
  | MissingKey string
  | PropertySchemaNotObject
  | UnexpectedKeys "string list"

text \<open>\<open>SchemaValidationError\<close>: the path at which validation failed, and why.\<close>

datatype schema_error = SchemaValidationError string schema_reason

definition canonical_definition :: "schema \<Rightarrow> string" where
  "canonical_definition s = canonical_json (JObj (schema_def s))"

definition schema_hash :: "schema \<Rightarrow> string" where
  "schema_hash s = sha256_hex (canonical_definition s)"

definition signature_for :: "schema \<Rightarrow> jval \<Rightarrow> string" where
  "signature_for s payload = sha256_hex (schema_hash s @ '':'' @ canonical_json payload)"

section \<open>The checker\<close>

definition idx_path :: "string \<Rightarrow> nat \<Rightarrow> string" where
  "idx_path path i = path @ ''['' @ show_nat i @ '']''"

definition key_path :: "string \<Rightarrow> string \<Rightarrow> string" where
  "key_path path k = path @ ''.'' @ k"

text \<open>The shape checks of \<open>_validate_object\<close> on the schema itself.\<close>

definition opt_properties :: "jdict \<Rightarrow> jval" where
  "opt_properties sd = jget sd ''properties''"

definition opt_required :: "jdict \<Rightarrow> jval" where
  "opt_required sd = (case dget sd ''required'' of None \<Rightarrow> JArr [] | Some v \<Rightarrow> v)"

definition opt_additional :: "jdict \<Rightarrow> jval" where
  "opt_additional sd = (case dget sd ''additionalProperties'' of None \<Rightarrow> JBool False | Some v \<Rightarrow> v)"

fun str_elems :: "jval \<Rightarrow> string list option" where
  "str_elems (JArr xs) =
     (if list_all is_str xs then Some (map (\<lambda>v. case v of JStr s \<Rightarrow> s | _ \<Rightarrow> []) xs) else None)"
| "str_elems _ = None"

fun obj_items :: "jval \<Rightarrow> jdict" where
  "obj_items (JObj d) = d"
| "obj_items _ = []"

function validate_node :: "jval \<Rightarrow> jdict \<Rightarrow> string \<Rightarrow> (schema_error, unit) res"
  and validate_object :: "jdict \<Rightarrow> jdict \<Rightarrow> string \<Rightarrow> (schema_error, unit) res"
where
  "validate_node v sd path =
     (case dget sd ''type'' of
        None \<Rightarrow> Inl (SchemaValidationError path MissingType)
      | Some t \<Rightarrow>
          if eq_str t ''object'' then
            (case v of
               JObj d \<Rightarrow> validate_object d sd path
             | _ \<Rightarrow> Inl (SchemaValidationError path ExpectedObject))
          else if eq_str t ''array'' then
            (case v of
               JArr xs \<Rightarrow>
                 (case jget sd ''items'' of
                    JObj items \<Rightarrow>
                      each (\<lambda>(i, x). validate_node x items (idx_path path i)) (zip [0..<length xs] xs)
                  | _ \<Rightarrow> Inr ())
             | _ \<Rightarrow> Inl (SchemaValidationError path ExpectedArray))
          else if eq_str t ''string'' then require (is_str v) (SchemaValidationError path ExpectedString)
          else if eq_str t ''integer'' then
            require (is_int v \<and> \<not> is_bool v) (SchemaValidationError path ExpectedInteger)
          else if eq_str t ''number'' then
            require ((is_int v \<or> is_flt v) \<and> \<not> is_bool v) (SchemaValidationError path ExpectedNumber)
          else if eq_str t ''boolean'' then require (is_bool v) (SchemaValidationError path ExpectedBoolean)
          else if eq_str t ''null'' then require (v = JNull) (SchemaValidationError path ExpectedNull)
          else Inl (SchemaValidationError path (UnsupportedType t)))"
| "validate_object d sd path =
     (let properties = opt_properties sd; additional = opt_additional sd
      in if properties \<noteq> JNull \<and> \<not> is_obj properties
         then Inl (SchemaValidationError path PropertiesNotObject)
         else
           (case str_elems (opt_required sd) of
              None \<Rightarrow> Inl (SchemaValidationError path RequiredNotStrings)
            | Some required \<Rightarrow>
                if \<not> is_bool additional then Inl (SchemaValidationError path AdditionalNotBool)
                else
                  res_bind (each (\<lambda>k. require (dhas d k) (SchemaValidationError path (MissingKey k))) required)
                    (\<lambda>_. res_bind
                      (each (\<lambda>(k, ps).
                         (case dget d k of
                            None \<Rightarrow> Inr ()
                          | Some w \<Rightarrow>
                              (case ps of
                                 JObj psd \<Rightarrow> validate_node w psd (key_path path k)
                               | _ \<Rightarrow> Inl (SchemaValidationError (key_path path k) PropertySchemaNotObject))))
                        (obj_items properties))
                      (\<lambda>_. let extras = filter (\<lambda>k. \<not> dhas (obj_items properties) k) (dkeys d)
                           in if additional = JBool False \<and> properties \<noteq> JNull \<and> extras \<noteq> []
                              then Inl (SchemaValidationError path (UnexpectedKeys extras))
                              else Inr ()))))"
  by pat_completeness auto
termination
proof (relation "measure (\<lambda>x. case x of Inl (v, _, _) \<Rightarrow> 2 * size v | Inr (d, _, _) \<Rightarrow> 2 * size (JObj d) - 1)")
qed (auto dest: size_enum_elem size_dget)

declare validate_node.simps [simp del] validate_object.simps [simp del]

text \<open>\<open>validate_against_schema\<close>: validation of a whole payload starts at the root path.\<close>

definition validate_against_schema :: "jval \<Rightarrow> jdict \<Rightarrow> (schema_error, unit) res" where
  "validate_against_schema payload sd = validate_node payload sd ''$''"

text \<open>\<open>ensure_keys\<close>.\<close>

definition ensure_keys :: "jdict \<Rightarrow> string list \<Rightarrow> string \<Rightarrow> (schema_error, unit) res" where
  "ensure_keys d required path =
     each (\<lambda>k. require (dhas d k) (SchemaValidationError path (MissingKey k))) required"

section \<open>The judgement it decides\<close>

text \<open>A schema is usable for objects when its three keywords have the right shape.\<close>

definition object_schema :: "jdict \<Rightarrow> bool" where
  "object_schema sd \<longleftrightarrow>
     (opt_properties sd = JNull \<or> is_obj (opt_properties sd)) \<and>
     str_elems (opt_required sd) \<noteq> None \<and> is_bool (opt_additional sd)"

definition scalar_ok :: "string \<Rightarrow> jval \<Rightarrow> bool" where
  "scalar_ok t v \<longleftrightarrow>
     t = ''string'' \<and> is_str v \<or>
     t = ''integer'' \<and> is_int v \<and> \<not> is_bool v \<or>
     t = ''number'' \<and> (is_int v \<or> is_flt v) \<and> \<not> is_bool v \<or>
     t = ''boolean'' \<and> is_bool v \<or>
     t = ''null'' \<and> v = JNull"

inductive conforms :: "jdict \<Rightarrow> jval \<Rightarrow> bool" where
  scalar: "dget sd ''type'' = Some (JStr t) \<Longrightarrow> scalar_ok t v \<Longrightarrow> conforms sd v"
| array_any: "dget sd ''type'' = Some (JStr ''array'') \<Longrightarrow> \<not> is_obj (jget sd ''items'') \<Longrightarrow>
     conforms sd (JArr xs)"
| array_of: "dget sd ''type'' = Some (JStr ''array'') \<Longrightarrow> jget sd ''items'' = JObj items \<Longrightarrow>
     (\<And>x. x \<in> set xs \<Longrightarrow> conforms items x) \<Longrightarrow> conforms sd (JArr xs)"
| object: "dget sd ''type'' = Some (JStr ''object'') \<Longrightarrow> object_schema sd \<Longrightarrow>
     (\<And>k. k \<in> set (the (str_elems (opt_required sd))) \<Longrightarrow> dhas d k) \<Longrightarrow>
     (\<And>k ps w. (k, ps) \<in> set (obj_items (opt_properties sd)) \<Longrightarrow> dget d k = Some w \<Longrightarrow>
        \<exists>psd. ps = JObj psd \<and> conforms psd w) \<Longrightarrow>
     (opt_additional sd = JBool False \<Longrightarrow> opt_properties sd \<noteq> JNull \<Longrightarrow>
        (\<And>k. dhas d k \<Longrightarrow> dhas (obj_items (opt_properties sd)) k)) \<Longrightarrow>
     conforms sd (JObj d)"

inductive_cases conforms_objE: "conforms sd (JObj d)"
inductive_cases conforms_arrE: "conforms sd (JArr xs)"
inductive_cases conformsE: "conforms sd v"

lemma dhas_dkeys: "dhas d k \<longleftrightarrow> k \<in> set (dkeys d)"
  by (simp add: dhas_iff dkeys_def)

lemma validate_node_obj:
  "dget sd ''type'' = Some (JStr ''object'') \<Longrightarrow> validate_node (JObj d) sd p = validate_object d sd p"
  by (simp add: validate_node.simps eq_str_def)

lemma validate_node_arr:
  assumes "dget sd ''type'' = Some (JStr ''array'')"
  shows "validate_node (JArr xs) sd p = Inr () \<longleftrightarrow>
    (\<forall>items. jget sd ''items'' = JObj items \<longrightarrow>
       (\<forall>i < length xs. validate_node (xs ! i) items (idx_path p i) = Inr ()))"
  using assms
  by (auto simp: validate_node.simps [of "JArr xs"] eq_str_def each_enum_Inr_iff split: jval.splits)

lemma validate_node_scalar:
  assumes "dget sd ''type'' = Some t" and "t \<noteq> JStr ''object''" and "t \<noteq> JStr ''array''"
  shows "validate_node v sd p = Inr () \<longleftrightarrow> (\<exists>s. t = JStr s \<and> scalar_ok s v)"
  using assms by (auto simp: validate_node.simps eq_str_def scalar_ok_def split: if_splits)

lemma validate_node_mismatch:
  "dget sd ''type'' = None \<Longrightarrow> validate_node v sd p \<noteq> Inr ()"
  "dget sd ''type'' = Some (JStr ''object'') \<Longrightarrow> \<not> is_obj v \<Longrightarrow> validate_node v sd p \<noteq> Inr ()"
  "dget sd ''type'' = Some (JStr ''array'') \<Longrightarrow> \<not> is_arr v \<Longrightarrow> validate_node v sd p \<noteq> Inr ()"
  by (cases v; simp add: validate_node.simps eq_str_def)+

lemma validate_object_iff:
  "validate_object d sd p = Inr () \<longleftrightarrow>
     object_schema sd \<and>
     (\<forall>k \<in> set (the (str_elems (opt_required sd))). dhas d k) \<and>
     (\<forall>(k, ps) \<in> set (obj_items (opt_properties sd)). \<forall>w. dget d k = Some w \<longrightarrow>
        (\<exists>psd. ps = JObj psd \<and> validate_node w psd (key_path p k) = Inr ())) \<and>
     (opt_additional sd = JBool False \<longrightarrow> opt_properties sd \<noteq> JNull \<longrightarrow>
        (\<forall>k. dhas d k \<longrightarrow> dhas (obj_items (opt_properties sd)) k))"
proof -
  have body: "(case dget d k of None \<Rightarrow> Inr ()
      | Some w \<Rightarrow> (case ps of JObj psd \<Rightarrow> validate_node w psd q
          | _ \<Rightarrow> Inl (SchemaValidationError q PropertySchemaNotObject))) = Inr () \<longleftrightarrow>
      (\<forall>w. dget d k = Some w \<longrightarrow> (\<exists>psd. ps = JObj psd \<and> validate_node w psd q = Inr ()))" for k ps q
    by (auto split: option.splits jval.splits)
  have extras: "filter (\<lambda>k. \<not> dhas ps k) (dkeys d) = [] \<longleftrightarrow> (\<forall>k. dhas d k \<longrightarrow> dhas ps k)" for ps
    by (auto simp: filter_empty_conv dhas_dkeys)
  show ?thesis
    unfolding validate_object.simps [of d sd p] Let_def object_schema_def
    by (cases "str_elems (opt_required sd)")
      (auto simp: res_bind_Inr_iff each_Inr_iff body extras split_beta split: if_splits)
qed

lemma conforms_imp_valid: "conforms sd v \<Longrightarrow> validate_node v sd p = Inr ()"
proof (induction arbitrary: p rule: conforms.induct)
  case (scalar sd t v)
  then have "JStr t \<noteq> JStr ''object''" "JStr t \<noteq> JStr ''array''" by (auto simp: scalar_ok_def)
  with scalar show ?case by (simp add: validate_node_scalar)
next
  case (array_any sd xs)
  then show ?case by (auto simp: validate_node_arr)
next
  case (array_of sd items xs)
  then show ?case by (simp add: validate_node_arr)
next
  case (object sd d)
  then show ?case by (simp add: validate_node_obj validate_object_iff) blast
qed

lemma valid_imp_conforms:
  "validate_node v sd p = Inr () \<Longrightarrow> conforms sd v"
proof (induction v arbitrary: sd p rule: measure_induct_rule [of size])
  case (less v)
  obtain t where t: "dget sd ''type'' = Some t"
    using less.prems validate_node_mismatch(1) by (cases "dget sd ''type''") auto
  consider (obj) "t = JStr ''object''" | (arr) "t = JStr ''array''"
    | (sc) "t \<noteq> JStr ''object''" "t \<noteq> JStr ''array''" by blast
  then show ?case
  proof cases
    case obj
    then obtain d where v: "v = JObj d"
      using less.prems t validate_node_mismatch(2) by (cases v) auto
    with less.prems t obj have ok: "validate_object d sd p = Inr ()" by (simp add: validate_node_obj)
    show ?thesis
      unfolding v
      using ok t obj less.IH size_dget [of d] v
      by (intro conforms.object) (fastforce simp: validate_object_iff)+
  next
    case arr
    then obtain xs where v: "v = JArr xs"
      using less.prems t validate_node_mismatch(3) by (cases v) auto
    show ?thesis
    proof (cases "is_obj (jget sd ''items'')")
      case True
      then obtain items where items: "jget sd ''items'' = JObj items"
        by (cases "jget sd ''items''") auto
      have "conforms items x" if "x \<in> set xs" for x
        using that less.prems less.IH [of x items] t arr v items size_arr_elem [OF that]
        by (auto simp: validate_node_arr in_set_conv_nth)
      with t arr items v show ?thesis by (auto intro: conforms.array_of)
    next
      case False
      with t arr v show ?thesis by (auto intro: conforms.array_any)
    qed
  next
    case sc
    with less.prems t show ?thesis by (auto simp: validate_node_scalar intro: conforms.scalar)
  qed
qed

text \<open>The checker accepts exactly the conforming values, whatever path it reports with.\<close>

lemma validate_node_iff: "validate_node v sd p = Inr () \<longleftrightarrow> conforms sd v"
  using conforms_imp_valid valid_imp_conforms by blast

section \<open>Signatures\<close>

text \<open>
  Without a SHA-256 collision between the texts signed, a signature determines the schema
  hash and the canonical text of the payload.
\<close>

lemma signature_for_binds:
  assumes "signature_for s p = signature_for s' p'"
    and "no_collision {schema_hash s @ '':'' @ canonical_json p, schema_hash s' @ '':'' @ canonical_json p'}"
  shows "schema_hash s = schema_hash s' \<and> canonical_json p = canonical_json p'"
proof -
  have "schema_hash s @ '':'' @ canonical_json p = schema_hash s' @ '':'' @ canonical_json p'"
    using assms(1) unfolding signature_for_def
    by (rule inj_onD [OF assms(2) [unfolded no_collision_def]]) simp_all
  moreover have "length (schema_hash s) = length (schema_hash s')"
    by (simp add: schema_hash_def)
  ultimately show ?thesis by simp
qed

section \<open>Properties\<close>

text \<open>C14: a payload passes \<open>validate_against_schema\<close> exactly when it conforms to the schema.\<close>

theorem validate_against_schema_iff:
  "validate_against_schema payload sd = Inr () \<longleftrightarrow> conforms sd payload"
  by (simp add: validate_against_schema_def validate_node_iff)

text \<open>without a SHA-256 collision a schema signature binds the schema hash and the payload.\<close>

theorem signature_binds_payload:
  assumes "signature_for s p = signature_for s' p'" and "wf_json p" and "wf_json p'"
    and "no_collision {schema_hash s @ '':'' @ canonical_json p, schema_hash s' @ '':'' @ canonical_json p'}"
  shows "schema_hash s = schema_hash s' \<and> canon p = canon p'"
proof -
  have eq: "schema_hash s = schema_hash s' \<and> dumps p = dumps p'"
    using signature_for_binds [OF assms(1,4)] by (simp add: canonical_json_def)
  then show ?thesis using assms(2,3) by (auto intro: dumps_eq_canon)
qed

theorem signature_binds_payload_witness:
  "canon (JObj [(''b'', JInt 1), (''a'', JNull)]) = canon (JObj [(''a'', JNull), (''b'', JInt 1)])"
  using signature_binds_payload [of "\<lparr>schema_id = ''s'', schema_def = []\<rparr>" "JObj [(''b'', JInt 1), (''a'', JNull)]"
      "\<lparr>schema_id = ''s'', schema_def = []\<rparr>" "JObj [(''a'', JNull), (''b'', JInt 1)]"]
  by (simp add: signature_for_def canonical_json_def no_collision_def wf_dict_def)

end
