(* ===== verification/Hash_Chain.thy ===== *)
theory Hash_Chain
  imports Json_Lines
begin

text \<open>
  Hash-linked sequences of blocks, the structure shared by the proof ledger, the fork
  resolver and the consensus node. \<open>link p n b\<close> says that \<open>b\<close> is an acceptable block at
  index \<open>n\<close> after a block with hash \<open>p\<close>; each client interprets the interface with its
  own acceptance test.
\<close>

fun chained :: "('h \<Rightarrow> int \<Rightarrow> 'b \<Rightarrow> bool) \<Rightarrow> ('b \<Rightarrow> 'h) \<Rightarrow> 'h \<Rightarrow> int \<Rightarrow> 'b list \<Rightarrow> bool" where
  "chained link hsh p n [] = True"
| "chained link hsh p n (b # bs) = (link p n b \<and> chained link hsh (hsh b) (n + 1) bs)"

definition end_hash :: "('b \<Rightarrow> 'h) \<Rightarrow> 'h \<Rightarrow> 'b list \<Rightarrow> 'h" where
  "end_hash hsh p bs = (if bs = [] then p else hsh (last bs))"

lemma end_hash_simps [simp]:
  "end_hash hsh p [] = p"
  "end_hash hsh p (b # bs) = end_hash hsh (hsh b) bs"
  "end_hash hsh p (bs @ [b]) = hsh b"
  by (simp_all add: end_hash_def)

locale hash_chain =
  fixes link :: "'h \<Rightarrow> int \<Rightarrow> 'b \<Rightarrow> bool" and hsh :: "'b \<Rightarrow> 'h" and body :: "'b \<Rightarrow> 'c"
  assumes link_body: "link p n b \<Longrightarrow> link p' n' b' \<Longrightarrow> body b = body b' \<Longrightarrow> p = p' \<and> n = n'"
begin

lemma chained_append:
  "chained link hsh p n (bs @ cs) \<longleftrightarrow>
     chained link hsh p n bs \<and> chained link hsh (end_hash hsh p bs) (n + int (length bs)) cs"
  by (induction bs arbitrary: p n) (auto simp: algebra_simps)

lemma chained_snoc:
  "chained link hsh p n (bs @ [b]) \<longleftrightarrow>
     chained link hsh p n bs \<and> link (end_hash hsh p bs) (n + int (length bs)) b"
  by (simp add: chained_append)

lemma chained_prefix: "chained link hsh p n (bs @ cs) \<Longrightarrow> chained link hsh p n bs"
  by (simp add: chained_append)

text \<open>
  Tamper evidence: where equal hashes mean equal contents, the last hash of a chain fixes
  the contents of every block before it.
\<close>

lemma chain_determined:
  assumes "chained link hsh p n bs" and "chained link hsh p n bs'"
    and "length bs = length bs'" and "end_hash hsh p bs = end_hash hsh p bs'"
    and "\<forall>b \<in> set bs. \<forall>b' \<in> set bs'. hsh b = hsh b' \<longrightarrow> body b = body b'"
  shows "map body bs = map body bs'"
  using assms
proof (induction bs arbitrary: bs' rule: rev_induct)
  case Nil
  then show ?case by simp
next
  case (snoc b bs)
  then obtain cs c where bs': "bs' = cs @ [c]" by (cases bs' rule: rev_cases) auto
  with snoc.prems have eq: "body b = body c" by simp
  with snoc.prems bs' have "end_hash hsh p bs = end_hash hsh p cs"
    by (auto simp: chained_snoc dest: link_body)
  with snoc.prems bs' have "map body bs = map body cs"
    by (intro snoc.IH) (auto simp: chained_snoc)
  with eq bs' show ?case by simp
qed

lemma last_determines_length:
  assumes "chained link hsh p n bs" and "chained link hsh p n bs'"
    and "bs \<noteq> []" and "bs' \<noteq> []" and "body (last bs) = body (last bs')"
  shows "length bs = length bs'"
proof -
  obtain cs c where bs: "bs = cs @ [c]" using assms(3) by (cases bs rule: rev_cases) auto
  obtain cs' c' where bs': "bs' = cs' @ [c']" using assms(4) by (cases bs' rule: rev_cases) auto
  from assms bs bs' show ?thesis by (auto simp: chained_snoc dest: link_body)
qed

lemma last_determines_chain:
  assumes "chained link hsh p n bs" and "chained link hsh p n bs'"
    and "bs \<noteq> []" and "bs' \<noteq> []" and "hsh (last bs) = hsh (last bs')"
    and "\<forall>b \<in> set bs. \<forall>b' \<in> set bs'. hsh b = hsh b' \<longrightarrow> body b = body b'"
  shows "map body bs = map body bs'"
proof -
  have "body (last bs) = body (last bs')" using assms by simp
  with assms have "length bs = length bs'" by (intro last_determines_length)
  with assms show ?thesis by (intro chain_determined) (simp_all add: end_hash_def)
qed

end

end
