(* ===== verification/Proof_Ledger.thy ===== *)
theory Proof_Ledger
  imports Hash_Chain
begin

text \<open>
  \<^verbatim>\<open>core/proof_ledger.py\<close>: the append-only proof ledger. The manager keeps the next
  index and the last hash; every block carries its index, the previous hash, the SHA-256 of
  its header and an FNV-1a signature over the header with the hash. The lemmas show that
  what the manager writes is what the verifier accepts, also across restarts, and that the
  last hash fixes the history.
\<close>

section \<open>Blocks\<close>

definition genesis_prev :: string where
  "genesis_prev = replicate 64 (CHR ''0'')"

definition compute_block_hash :: "jdict \<Rightarrow> string" where
  "compute_block_hash d = sha256_hex (canonical_json (JObj d))"

definition compute_block_signature :: "jdict \<Rightarrow> string" where
  "compute_block_signature d = fnv1a_32 (canonical_json (JObj d))"

text \<open>The header dictionary a block hash is computed over, from its five fields.\<close>

definition header_of :: "jval \<Rightarrow> jval \<Rightarrow> jval \<Rightarrow> jval \<Rightarrow> jval \<Rightarrow> jdict" where
  "header_of idx ts tok prev payload =
     [(''index'', idx), (''ts_utc'', ts), (''execution_token'', tok), (''prev_hash'', prev),
      (''payload'', payload)]"

definition seal :: "jdict \<Rightarrow> jdict" where
  "seal header =
     (let h1 = dput ''hash'' (JStr (compute_block_hash header)) header
      in dput ''signature'' (JStr (compute_block_signature h1)) h1)"

section \<open>The manager\<close>

record ledger =
  ledger_file :: "string option"
  execution_token :: string
  next_index :: int
  prev_hash :: string

definition int_of :: "jval \<Rightarrow> int" where
  "int_of v = (case v of JInt i \<Rightarrow> i | JBool b \<Rightarrow> (if b then 1 else 0) | _ \<Rightarrow> 0)"

text \<open>The head a line offers to \<open>_hydrate_tail\<close>, if any.\<close>

definition tail_of :: "string \<Rightarrow> (int \<times> string) option" where
  "tail_of raw =
     (case line_obj raw of
        None \<Rightarrow> None
      | Some obj \<Rightarrow>
          (case jget obj ''hash'' of
             JStr h \<Rightarrow> if is_int (jget obj ''index'') \<and> py_len h = 64
                       then Some (int_of (jget obj ''index'') + 1, h) else None
           | _ \<Rightarrow> None))"

definition hydrate_tail :: "ledger \<Rightarrow> ledger" where
  "hydrate_tail lg =
     (case ledger_file lg of
        None \<Rightarrow> lg
      | Some text \<Rightarrow>
          (case List.map_filter tail_of (rev (splitlines text)) of
             [] \<Rightarrow> lg
           | (i, h) # _ \<Rightarrow> lg\<lparr>next_index := i, prev_hash := h\<rparr>))"

text \<open>\<open>ProofLedgerManager(logs_dir, execution_token)\<close>.\<close>

definition open_ledger :: "string option \<Rightarrow> string \<Rightarrow> ledger" where
  "open_ledger f token =
     hydrate_tail \<lparr>ledger_file = f, execution_token = token, next_index = 0, prev_hash = genesis_prev\<rparr>"

definition file_text :: "ledger \<Rightarrow> string" where
  "file_text lg = (case ledger_file lg of None \<Rightarrow> [] | Some t \<Rightarrow> t)"

text \<open>\<open>append_block\<close>; the timestamp is read from the clock.\<close>

definition new_block :: "string \<Rightarrow> jdict \<Rightarrow> ledger \<Rightarrow> jdict" where
  "new_block ts payload lg =
     seal (header_of (JInt (next_index lg)) (JStr ts) (JStr (execution_token lg))
             (JStr (prev_hash lg)) (JObj payload))"

definition append_block :: "string \<Rightarrow> jdict \<Rightarrow> ledger \<Rightarrow> jdict \<times> ledger" where
  "append_block ts payload lg =
     (let header = header_of (JInt (next_index lg)) (JStr ts) (JStr (execution_token lg))
                     (JStr (prev_hash lg)) (JObj payload);
          block_hash = compute_block_hash header;
          header1 = dput ''hash'' (JStr block_hash) header;
          signature = compute_block_signature header1;
          header2 = dput ''signature'' (JStr signature) header1
      in (header2,
          lg\<lparr>ledger_file := Some (append_jsonl (file_text lg) header2),
             prev_hash := block_hash, next_index := next_index lg + 1\<rparr>))"

section \<open>Reading and verifying\<close>

definition iter_ledger_blocks :: "string option \<Rightarrow> jdict list" where
  "iter_ledger_blocks f = (case f of None \<Rightarrow> [] | Some text \<Rightarrow> jsonl_objs text)"

datatype ledger_error =
    IndexMismatch int jval
  | ChainMismatch jval
  | HashMismatch jval
  | SignatureMismatch jval

definition block_header :: "jdict \<Rightarrow> jdict" where
  "block_header b =
     header_of (jget b ''index'') (jget b ''ts_utc'') (jget b ''execution_token'')
       (jget b ''prev_hash'') (jget b ''payload'')"

text \<open>One round of the verification loop: the checks on a block, and the hash it must have.\<close>

definition verify_block :: "string \<Rightarrow> int \<Rightarrow> jdict \<Rightarrow> (ledger_error, string) res" where
  "verify_block prev expected b =
     (let idx = jget b ''index'' in
      if \<not> eq_int idx expected then Inl (IndexMismatch expected idx)
      else if \<not> eq_str (jget b ''prev_hash'') prev then Inl (ChainMismatch idx)
      else
        (let header = block_header b; want_hash = compute_block_hash header in
         if \<not> eq_str (jget b ''hash'') want_hash then Inl (HashMismatch idx)
         else
           (let want_sig = compute_block_signature (dput ''hash'' (JStr want_hash) header) in
            if \<not> eq_str (jget b ''signature'') want_sig then Inl (SignatureMismatch idx)
            else Inr want_hash)))"

fun verify_loop :: "string \<Rightarrow> int \<Rightarrow> jdict list \<Rightarrow> (ledger_error, jdict list) res" where
  "verify_loop prev expected [] = Inr []"
| "verify_loop prev expected (b # bs) =
     res_bind (verify_block prev expected b) (\<lambda>h.
       res_bind (verify_loop h (expected + 1) bs) (\<lambda>verified. Inr (b # verified)))"

definition verify_ledger_blocks :: "jdict list \<Rightarrow> (ledger_error, jdict list) res" where
  "verify_ledger_blocks bs = verify_loop genesis_prev 0 bs"

section \<open>The ledger is a hash chain\<close>

definition block_hash :: "jdict \<Rightarrow> string" where
  "block_hash b = compute_block_hash (block_header b)"

definition ledger_link :: "string \<Rightarrow> int \<Rightarrow> jdict \<Rightarrow> bool" where
  "ledger_link p n b \<longleftrightarrow> verify_block p n b = Inr (block_hash b)"

lemma verify_block_Inr:
  "verify_block p n b = Inr h \<longleftrightarrow>
     h = block_hash b \<and> eq_int (jget b ''index'') n \<and> jget b ''prev_hash'' = JStr p \<and>
     jget b ''hash'' = JStr h \<and>
     jget b ''signature'' = JStr (compute_block_signature (dput ''hash'' (JStr h) (block_header b)))"
  by (auto simp: verify_block_def Let_def eq_str_def block_hash_def)

lemma ledger_link_iff:
  "ledger_link p n b \<longleftrightarrow>
     eq_int (jget b ''index'') n \<and> jget b ''prev_hash'' = JStr p \<and> jget b ''hash'' = JStr (block_hash b) \<and>
     jget b ''signature'' = JStr (compute_block_signature (dput ''hash'' (JStr (block_hash b)) (block_header b)))"
  by (auto simp: ledger_link_def verify_block_Inr)

text \<open>What a block hash covers: the header, up to the order of dictionary keys.\<close>

definition block_body :: "jdict \<Rightarrow> jdict" where
  "block_body b = canon_dict (block_header b)"

lemma wf_dict_header: "wf_dict (block_header b)"
  by (simp add: block_header_def header_of_def wf_dict_def)

lemma block_body_fields:
  assumes "block_body b = block_body b'"
  shows "canon (jget b ''index'') = canon (jget b' ''index'')"
    and "canon (jget b ''prev_hash'') = canon (jget b' ''prev_hash'')"
proof -
  have "map_option canon (dget (block_header b) k) = map_option canon (dget (block_header b') k)" for k
    using assms dget_canon_dict [OF wf_dict_header] by (metis block_body_def)
  from this [of "''index''"] this [of "''prev_hash''"]
  show "canon (jget b ''index'') = canon (jget b' ''index'')"
    and "canon (jget b ''prev_hash'') = canon (jget b' ''prev_hash'')"
    by (simp_all add: block_header_def header_of_def)
qed

lemma eq_int_canon [simp]: "eq_int (canon v) n = eq_int v n"
  by (cases v) auto

lemma eq_int_unique: "eq_int v n \<Longrightarrow> eq_int v m \<Longrightarrow> n = m"
  by (cases v) auto

interpretation chain: hash_chain ledger_link block_hash block_body
proof unfold_locales
  fix p n b p' n' b'
  assume link: "ledger_link p n b" "ledger_link p' n' b'" and eq: "block_body b = block_body b'"
  note f = block_body_fields [OF eq]
  have "eq_int (jget b ''index'') n'"
    using link(2) f(1) by (metis eq_int_canon ledger_link_iff)
  with link f(2) show "p = p' \<and> n = n'"
    by (auto simp: ledger_link_iff intro: eq_int_unique)
qed

lemma verify_loop_iff:
  "verify_loop p n bs = Inr vs \<longleftrightarrow> vs = bs \<and> chained ledger_link block_hash p n bs"
proof (induction bs arbitrary: p n vs)
  case Nil
  then show ?case by auto
next
  case (Cons b bs)
  have "verify_block p n b = Inr h \<longleftrightarrow> h = block_hash b \<and> ledger_link p n b" for h
    by (auto simp: ledger_link_def verify_block_Inr)
  with Cons show ?case by (auto simp: res_bind_Inr_iff)
qed

lemma verify_ledger_iff:
  "verify_ledger_blocks bs = Inr vs \<longleftrightarrow> vs = bs \<and> chained ledger_link block_hash genesis_prev 0 bs"
  by (simp add: verify_ledger_blocks_def verify_loop_iff)

section \<open>What is written is accepted\<close>

lemmas key_neqs = list.inject char.inject

lemma dumps_map_canon: "dumps (JObj (map (\<lambda>kv. (fst kv, canon (snd kv))) d)) = dumps (JObj d)"
  by (simp add: comp_def)

lemma new_block_eq:
  "new_block ts payload lg =
     (let h = header_of (JInt (next_index lg)) (JStr ts) (JStr (execution_token lg))
                (JStr (prev_hash lg)) (JObj payload);
          bh = compute_block_hash h
      in h @ [(''hash'', JStr bh), (''signature'', JStr (compute_block_signature (h @ [(''hash'', JStr bh)])))])"
  by (simp add: new_block_def seal_def header_of_def Let_def py_simps)

lemma append_block_eq:
  "append_block ts payload lg =
     (new_block ts payload lg,
      lg\<lparr>ledger_file := Some (append_jsonl (file_text lg) (new_block ts payload lg)),
         prev_hash := compute_block_hash (block_header (new_block ts payload lg)),
         next_index := next_index lg + 1\<rparr>)"
  by (simp add: append_block_def new_block_def seal_def Let_def block_header_def header_of_def
      jget_dput)

lemma wf_dict_block: "wf_dict (new_block ts payload lg)"
  by (simp add: new_block_eq header_of_def wf_dict_def Let_def)

text \<open>The payloads and tokens whose blocks are one line of text.\<close>

definition clean_payload :: "string \<Rightarrow> jdict \<Rightarrow> ledger \<Rightarrow> bool" where
  "clean_payload ts payload lg \<longleftrightarrow>
     line_record payload \<and> text_ok ts \<and> text_ok (execution_token lg)"

lemma text_ok_ascii: "\<forall>c \<in> set s. \<not> is_cont c \<and> c \<noteq> CHR 0xC2 \<and> c \<noteq> CHR 0xE2 \<Longrightarrow> text_ok s"
  by (cases s) (auto simp: text_ok_def uchars_ascii)

lemma text_ok_hex: "set s \<subseteq> hex_alphabet \<Longrightarrow> text_ok s"
  using hex_not_cont by (intro text_ok_ascii) (auto simp: hex_alphabet_def)

lemma text_ok_sha [simp]: "text_ok (sha256_hex s)"
  using looks_like_hash_sha256 [of s] by (simp add: looks_like_hash_iff text_ok_hex)

lemma text_ok_fnv [simp]: "text_ok (fnv1a_32 s)"
  using looks_like_hash_fnv [of s] by (simp add: looks_like_hash_iff text_ok_hex)

lemma text_ok_compute [simp]:
  "text_ok (compute_block_hash d)" "text_ok (compute_block_signature d)"
  by (simp_all add: compute_block_hash_def compute_block_signature_def)

lemma text_ok_keys [simp]:
  "text_ok ''index''" "text_ok ''ts_utc''" "text_ok ''execution_token''" "text_ok ''prev_hash''"
  "text_ok ''payload''" "text_ok ''hash''" "text_ok ''signature''"
  by (rule text_ok_ascii; simp add: is_cont_def)+

lemma line_record_block:
  "clean_payload ts payload lg \<Longrightarrow> text_ok (prev_hash lg) \<Longrightarrow> line_record (new_block ts payload lg)"
  by (simp add: clean_payload_def line_record_def new_block_eq header_of_def Let_def)

lemma canon_header:
  "wf_dict b \<Longrightarrow> block_header (canon_dict b) = map (\<lambda>kv. (fst kv, canon (snd kv))) (block_header b)"
  by (simp add: block_header_def header_of_def jget_canon)

lemma block_hash_canon: "wf_dict b \<Longrightarrow> block_hash (canon_dict b) = block_hash b"
  by (simp add: block_hash_def compute_block_hash_def canonical_json_def canon_header dumps_map_canon
      del: dumps.simps)

lemma signature_canon:
  assumes "wf_dict b"
  shows "compute_block_signature (dput ''hash'' (JStr h) (block_header (canon_dict b))) =
    compute_block_signature (dput ''hash'' (JStr h) (block_header b))"
proof -
  have "dput ''hash'' (JStr h) (block_header (canon_dict b)) =
      map (\<lambda>kv. (fst kv, canon (snd kv))) (dput ''hash'' (JStr h) (block_header b))"
    using assms by (simp add: block_header_def header_of_def jget_canon py_simps)
  then show ?thesis
    by (simp add: compute_block_signature_def canonical_json_def dumps_map_canon del: dumps.simps)
qed

lemma link_canon:
  assumes "wf_dict b" and "ledger_link p n b" and "is_int (jget b ''index'')"
  shows "ledger_link p n (canon_dict b)"
proof -
  have "eq_int (canon (jget b ''index'')) n"
    using assms(2,3) by (cases "jget b ''index''") (auto simp: ledger_link_iff)
  with assms show ?thesis
    by (simp add: ledger_link_iff jget_canon block_hash_canon signature_canon)
qed

lemma link_new_block: "ledger_link (prev_hash lg) (next_index lg) (new_block ts payload lg)"
proof -
  let ?h = "header_of (JInt (next_index lg)) (JStr ts) (JStr (execution_token lg))
    (JStr (prev_hash lg)) (JObj payload)"
  have "block_header (new_block ts payload lg) = ?h"
    by (simp add: new_block_eq block_header_def header_of_def Let_def)
  then show ?thesis
    by (simp add: ledger_link_iff block_hash_def) (simp add: new_block_eq header_of_def Let_def py_simps)
qed

section \<open>The manager's invariant\<close>

text \<open>
  The file holds a verified chain and the manager's head is its end.
\<close>

definition ledger_inv :: "ledger \<Rightarrow> bool" where
  "ledger_inv lg \<longleftrightarrow>
     (let bs = iter_ledger_blocks (ledger_file lg)
      in at_line_end (file_text lg) \<and>
         chained ledger_link block_hash genesis_prev 0 bs \<and>
         (\<forall>b \<in> set bs. is_int (jget b ''index'')) \<and>
         next_index lg = int (length bs) \<and> prev_hash lg = end_hash block_hash genesis_prev bs)"

lemma iter_file_text: "iter_ledger_blocks (ledger_file lg) = jsonl_objs (file_text lg)"
  by (cases "ledger_file lg") (simp_all add: iter_ledger_blocks_def file_text_def jsonl.read_empty)

lemma ledger_invD:
  assumes "ledger_inv lg"
  shows "at_line_end (file_text lg)"
    and "chained ledger_link block_hash genesis_prev 0 (iter_ledger_blocks (ledger_file lg))"
    and "\<forall>b \<in> set (iter_ledger_blocks (ledger_file lg)). is_int (jget b ''index'')"
    and "next_index lg = int (length (iter_ledger_blocks (ledger_file lg)))"
    and "prev_hash lg = end_hash block_hash genesis_prev (iter_ledger_blocks (ledger_file lg))"
  using assms by (auto simp: ledger_inv_def Let_def)

lemma text_ok_genesis: "text_ok genesis_prev"
  by (rule text_ok_ascii) (simp add: genesis_prev_def is_cont_def)

lemma text_ok_block_hash: "text_ok (block_hash b)"
  by (simp add: block_hash_def)

lemma text_ok_prev: "ledger_inv lg \<Longrightarrow> text_ok (prev_hash lg)"
  using ledger_invD(5) [of lg] text_ok_genesis text_ok_block_hash by (simp add: end_hash_def)

lemma iter_append_block:
  assumes "ledger_inv lg" and "clean_payload ts payload lg"
  shows "iter_ledger_blocks (ledger_file (snd (append_block ts payload lg))) =
    iter_ledger_blocks (ledger_file lg) @ [canon_dict (new_block ts payload lg)]"
proof -
  have "iter_ledger_blocks (ledger_file (snd (append_block ts payload lg))) =
      jsonl_objs (append_jsonl (file_text lg) (new_block ts payload lg))"
    by (simp add: append_block_eq iter_ledger_blocks_def)
  with assms show ?thesis
    by (simp add: jsonl.read_append line_record_block iter_file_text ledger_invD(1) text_ok_prev)
qed

lemma append_block_inv:
  assumes "ledger_inv lg" and "clean_payload ts payload lg"
  shows "ledger_inv (snd (append_block ts payload lg))"
proof -
  let ?b = "new_block ts payload lg"
  let ?bs = "iter_ledger_blocks (ledger_file lg)"
  note inv = ledger_invD [OF assms(1)]
  have idx: "is_int (jget ?b ''index'')"
    by (simp add: new_block_eq header_of_def Let_def)
  then have idx': "is_int (jget (canon_dict ?b) ''index'')"
    by (cases "jget ?b ''index''") (simp_all add: jget_canon wf_dict_block)
  have "ledger_link (prev_hash lg) (next_index lg) (canon_dict ?b)"
    by (rule link_canon [OF wf_dict_block link_new_block idx])
  with inv have "chained ledger_link block_hash genesis_prev 0 (?bs @ [canon_dict ?b])"
    by (simp add: chain.chained_snoc)
  moreover have "at_line_end (file_text (snd (append_block ts payload lg)))"
    by (simp add: append_block_eq file_text_def)
  moreover have "prev_hash (snd (append_block ts payload lg)) = block_hash (canon_dict ?b)"
    by (simp add: append_block_eq block_hash_canon wf_dict_block block_hash_def [symmetric])
  ultimately show ?thesis
    using inv idx' by (simp add: ledger_inv_def iter_append_block [OF assms] Let_def)
      (simp add: append_block_eq)
qed

lemma hydrate_empty: "ledger_file lg = None \<Longrightarrow> hydrate_tail lg = lg"
  by (simp add: hydrate_tail_def)

lemma open_empty_inv: "ledger_inv (open_ledger None token)"
  by (simp add: open_ledger_def hydrate_empty ledger_inv_def iter_ledger_blocks_def file_text_def
      at_line_end_def)

text \<open>Opening a verified file resumes at its end.\<close>

lemma map_filter_rev: "List.map_filter f (rev xs) = rev (List.map_filter f xs)"
  by (simp add: List.map_filter_def rev_map rev_filter)

lemma map_filter_bind:
  "(\<And>x. f x = Option.bind (g x) h) \<Longrightarrow> List.map_filter f xs = List.map_filter h (List.map_filter g xs)"
  by (induction xs) (auto simp: List.map_filter_simps split: option.splits)

definition head_of :: "jdict \<Rightarrow> (int \<times> string) option" where
  "head_of obj =
     (case jget obj ''hash'' of
        JStr h \<Rightarrow> if is_int (jget obj ''index'') \<and> py_len h = 64
                  then Some (int_of (jget obj ''index'') + 1, h) else None
      | _ \<Rightarrow> None)"

lemma tail_of_head: "tail_of raw = Option.bind (line_obj raw) head_of"
  by (simp add: tail_of_def head_of_def split: option.splits)

lemma hydrate_heads:
  "hydrate_tail (lg\<lparr>ledger_file := Some t\<rparr>) =
     (case rev (List.map_filter head_of (jsonl_objs t)) of
        [] \<Rightarrow> lg\<lparr>ledger_file := Some t\<rparr>
      | (i, h) # _ \<Rightarrow> lg\<lparr>ledger_file := Some t, next_index := i, prev_hash := h\<rparr>)"
  by (simp add: hydrate_tail_def map_filter_rev jsonl_objs_def map_filter_bind [OF tail_of_head]
      split: list.splits prod.splits)

lemma py_len_block_hash: "py_len (block_hash b) = 64"
  using looks_like_hash_sha256 [of "canonical_json (JObj (block_header b))"]
  by (simp add: block_hash_def compute_block_hash_def looks_like_hash_def)

lemma head_of_link:
  assumes "ledger_link p n b" and "is_int (jget b ''index'')"
  shows "head_of b = Some (n + 1, block_hash b)"
proof -
  have "int_of (jget b ''index'') = n"
    using assms by (cases "jget b ''index''") (auto simp: ledger_link_iff int_of_def)
  with assms show ?thesis
    by (simp add: head_of_def ledger_link_iff py_len_block_hash)
qed

lemma open_resumes:
  assumes "ledger_inv lg"
  shows "open_ledger (ledger_file lg) token = lg\<lparr>execution_token := token\<rparr>"
proof (cases "ledger_file lg")
  case None
  with ledger_invD [OF assms] show ?thesis
    by (simp add: open_ledger_def hydrate_tail_def iter_ledger_blocks_def)
next
  case (Some t)
  let ?lg0 = "\<lparr>ledger_file = None, execution_token = token, next_index = 0, prev_hash = genesis_prev\<rparr>"
  note inv = ledger_invD [OF assms]
  have iter: "iter_ledger_blocks (ledger_file lg) = jsonl_objs t"
    using Some by (simp add: iter_ledger_blocks_def)
  note heads = hydrate_heads [where lg = ?lg0 and t = t]
  show ?thesis
  proof (cases "jsonl_objs t" rule: rev_cases)
    case Nil
    with heads inv(4,5) iter Some show ?thesis
      by (simp add: open_ledger_def List.map_filter_def)
  next
    case (snoc bs b)
    with inv(2,3) iter have link: "ledger_link (end_hash block_hash genesis_prev bs) (int (length bs)) b"
      and idx: "is_int (jget b ''index'')"
      by (simp_all add: chain.chained_snoc)
    have "rev (List.map_filter head_of (jsonl_objs t)) =
        (int (length bs) + 1, block_hash b) # rev (List.map_filter head_of bs)"
      using head_of_link [OF link idx] snoc by (simp add: List.map_filter_def)
    with heads inv(4,5) iter Some snoc show ?thesis
      by (simp add: open_ledger_def)
  qed
qed

lemma inv_token: "ledger_inv (lg\<lparr>execution_token := token\<rparr>) = ledger_inv lg"
  by (simp add: ledger_inv_def file_text_def)

text \<open>The managers a process can hold: opened on no file, after appends, after restarts.\<close>

inductive ledger_reach :: "ledger \<Rightarrow> bool" where
  fresh: "ledger_reach (open_ledger None token)"
| append: "ledger_reach lg \<Longrightarrow> clean_payload ts payload lg \<Longrightarrow> ledger_reach (snd (append_block ts payload lg))"
| restart: "ledger_reach lg \<Longrightarrow> ledger_reach (open_ledger (ledger_file lg) token)"

lemma reach_inv: "ledger_reach lg \<Longrightarrow> ledger_inv lg"
  by (induction rule: ledger_reach.induct)
    (simp_all add: open_empty_inv append_block_inv open_resumes inv_token)

lemma headers_no_collision:
  assumes "no_collision ((\<lambda>b. canonical_json (JObj (block_header b))) ` A)"
    and "\<forall>b \<in> A. wf_json (JObj (block_header b))"
    and "b \<in> A" and "b' \<in> A" and "block_hash b = block_hash b'"
  shows "block_body b = block_body b'"
proof -
  have "dumps (JObj (block_header b)) = dumps (JObj (block_header b'))"
    using no_collisionD [OF assms(1)] assms(3-5)
    unfolding block_hash_def compute_block_hash_def canonical_json_def by blast
  then have "canon (JObj (block_header b)) = canon (JObj (block_header b'))"
    using assms(2-4) by (intro dumps_eq_canon) blast+
  then show ?thesis by (simp add: block_body_def canon_JObj del: canon.simps)
qed

section \<open>Properties\<close>


lemma demo_clean: "clean_payload ''t0'' [(''event'', JStr ''start'')] (open_ledger None ''tok'')"
  by (simp add: clean_payload_def open_ledger_def hydrate_tail_def line_record_def text_ok_def
      is_cont_def wf_dict_def)


text \<open>appending writes exactly the returned block after the blocks already there, and
  the new file verifies.\<close>

theorem append_block_extends:
  assumes "ledger_inv lg" and "clean_payload ts payload lg"
  shows "verify_ledger_blocks (iter_ledger_blocks (ledger_file (snd (append_block ts payload lg)))) =
    Inr (iter_ledger_blocks (ledger_file lg) @ [canon_dict (fst (append_block ts payload lg))])"
  using ledger_invD(2) [OF append_block_inv [OF assms]] iter_append_block [OF assms]
  by (simp add: verify_ledger_iff append_block_eq)

theorem append_block_extends_witness:
  "\<exists>b. verify_ledger_blocks (iter_ledger_blocks
      (ledger_file (snd (append_block ''t0'' [(''event'', JStr ''start'')] (open_ledger None ''tok''))))) = Inr [b]"
  using append_block_extends [OF open_empty_inv demo_clean]
  by (simp add: open_ledger_def hydrate_tail_def iter_ledger_blocks_def)

text \<open>a manager opened on the file of a running one resumes with the same head.\<close>

theorem restart_resumes:
  assumes "ledger_reach lg"
  shows "open_ledger (ledger_file lg) token = lg\<lparr>execution_token := token\<rparr>"
  by (rule open_resumes [OF reach_inv [OF assms]])

theorem restart_resumes_witness:
  "next_index (open_ledger (ledger_file
      (snd (append_block ''t0'' [(''event'', JStr ''start'')] (open_ledger None ''tok'')))) ''tok2'') = 1"
  using restart_resumes [OF append [OF fresh demo_clean], of "''tok2''"]
  by (simp add: append_block_eq open_ledger_def hydrate_tail_def)

text \<open>C12: tamper evidence. Without a SHA-256 collision among their headers, two verified
  ledgers that end in the same hash hold the same blocks.\<close>

theorem last_hash_fixes_ledger:
  assumes "verify_ledger_blocks bs = Inr bs" and "verify_ledger_blocks bs' = Inr bs'"
    and "bs \<noteq> []" and "bs' \<noteq> []" and "block_hash (last bs) = block_hash (last bs')"
    and "\<forall>b \<in> set bs \<union> set bs'. wf_json (JObj (block_header b))"
    and "no_collision ((\<lambda>b. canonical_json (JObj (block_header b))) ` (set bs \<union> set bs'))"
  shows "map block_body bs = map block_body bs'"
proof -
  have "\<forall>b \<in> set bs. \<forall>b' \<in> set bs'. block_hash b = block_hash b' \<longrightarrow> block_body b = block_body b'"
    using headers_no_collision [OF assms(7,6)] by blast
  with assms(1-5) show ?thesis
    by (intro chain.last_determines_chain [of genesis_prev 0]) (simp_all add: verify_ledger_iff)
qed

lemma canonical_header_canon:
  "wf_dict b \<Longrightarrow> canonical_json (JObj (block_header (canon_dict b))) = canonical_json (JObj (block_header b))"
  by (simp add: canonical_json_def canon_header dumps_map_canon del: dumps.simps)

lemma wf_header_canon:
  "wf_dict b \<Longrightarrow> wf_json (JObj (block_header b)) \<Longrightarrow> wf_json (JObj (block_header (canon_dict b)))"
  by (auto simp: canon_header list_all_iff comp_def wf_canon)

theorem last_hash_fixes_ledger_witness:
  "let b = new_block ''t0'' [(''event'', JStr ''start'')] (open_ledger None ''tok'')
   in map block_body [b] = map block_body [canon_dict b]"
proof -
  let ?b = "new_block ''t0'' [(''event'', JStr ''start'')] (open_ledger None ''tok'')"
  have link: "ledger_link genesis_prev 0 ?b"
    using link_new_block [of "open_ledger None ''tok''" "''t0''" "[(''event'', JStr ''start'')]"]
    by (simp add: open_ledger_def hydrate_tail_def)
  have idx: "is_int (jget ?b ''index'')" by (simp add: new_block_eq header_of_def Let_def)
  have wf: "wf_json (JObj (block_header ?b))"
    by (simp add: block_header_def new_block_eq header_of_def Let_def wf_dict_def)
  then have "wf_json (JObj (block_header (canon_dict ?b)))"
    by (rule wf_header_canon [OF wf_dict_block])
  with wf link idx have "map block_body [?b] = map block_body [canon_dict ?b]"
    by (intro last_hash_fixes_ledger)
      (simp_all add: verify_ledger_iff link_canon wf_dict_block block_hash_canon
        canonical_header_canon no_collision_def del: wf_json.simps)
  then show ?thesis by (simp add: Let_def)
qed

end
