(* ===== verification/Fork_Resolver.thy ===== *)
theory Fork_Resolver
  imports Proof_Ledger
begin

text \<open>
  \<^verbatim>\<open>core/fork_resolver.py\<close>: detection and reconciliation of forks in the proof
  ledger. The auditor reads the ledger line by line, checks that it is one linear chain, and
  otherwise rebuilds the longest chain of self-consistent blocks, writes every other line to
  the orphan log and rewrites the ledger with a reconciliation block at its end.

  The lemmas show that the chosen chain is linear and as long as any chain in the file, and
  that the rewritten ledger passes the audit and the verification of the proof ledger.
\<close>

section \<open>Blocks\<close>

text \<open>A \<open>LedgerBlock\<close> as \<open>_coerce_block\<close> builds it; \<open>lb_json\<close> is its dictionary.\<close>

record lblock =
  lb_index :: int
  lb_ts :: string
  lb_token :: string
  lb_prev :: string
  lb_payload :: jval
  lb_hash :: string
  lb_sig :: string

definition lb_json :: "lblock \<Rightarrow> jdict" where
  "lb_json b =
     [(''index'', JInt (lb_index b)), (''ts_utc'', JStr (lb_ts b)),
      (''execution_token'', JStr (lb_token b)), (''prev_hash'', JStr (lb_prev b)),
      (''payload'', lb_payload b), (''hash'', JStr (lb_hash b)), (''signature'', JStr (lb_sig b))]"

fun as_int :: "jval \<Rightarrow> int option" where
  "as_int (JInt i) = Some i"
| "as_int _ = None"

fun as_str :: "jval \<Rightarrow> string option" where
  "as_str (JStr s) = (if s = [] then None else Some s)"
| "as_str _ = None"

definition frame_kind :: "jval \<Rightarrow> string" where
  "frame_kind payload =
     (case payload of
        JObj d \<Rightarrow>
          (case as_str (jget d ''kind'') of
             Some kind \<Rightarrow>
               if kind = ''GOV_EVENT'' then
                 (case jget d ''event'' of
                    JObj ev \<Rightarrow> (case jget ev ''event'' of JStr e \<Rightarrow> e | _ \<Rightarrow> kind)
                  | _ \<Rightarrow> kind)
               else kind
           | None \<Rightarrow> (case as_str (jget d ''event'') of Some ev \<Rightarrow> ev | None \<Rightarrow> ''UNKNOWN''))
      | _ \<Rightarrow> ''UNKNOWN'')"

definition block_is_self_consistent :: "lblock \<Rightarrow> bool" where
  "block_is_self_consistent b =
     (let header = header_of (JInt (lb_index b)) (JStr (lb_ts b)) (JStr (lb_token b))
                     (JStr (lb_prev b)) (lb_payload b);
          want_hash = compute_block_hash header
      in lb_hash b = want_hash \<and>
         lb_sig b = compute_block_signature (dput ''hash'' (JStr want_hash) header))"

definition coerce_block :: "jval \<Rightarrow> lblock option" where
  "coerce_block obj =
     (case obj of
        JObj d \<Rightarrow>
          (case (as_int (jget d ''index''), as_str (jget d ''ts_utc''), as_str (jget d ''execution_token''),
                 as_str (jget d ''prev_hash''), as_str (jget d ''hash''), as_str (jget d ''signature'')) of
             (Some idx, Some ts, Some token, Some prev, Some h, Some sig) \<Rightarrow>
               if looks_like_hash prev 64 \<and> looks_like_hash h 64 \<and> looks_like_hash sig 8
               then Some \<lparr>lb_index = idx, lb_ts = ts, lb_token = token, lb_prev = prev,
                          lb_payload = jget d ''payload'', lb_hash = h, lb_sig = sig\<rparr>
               else None
           | _ \<Rightarrow> None)
      | _ \<Rightarrow> None)"

section \<open>Parsed lines and valid blocks\<close>

record parsed_line =
  line_no :: nat
  raw :: string
  block :: "lblock option"
  parse_error :: "string option"

definition parse_line :: "nat \<times> string \<Rightarrow> parsed_line" where
  "parse_line = (\<lambda>(i, r).
     (let l = strip r in
      if l = [] then \<lparr>line_no = i, raw = r, block = None, parse_error = Some ''empty_line''\<rparr>
      else
        (case loads l of
           None \<Rightarrow> \<lparr>line_no = i, raw = r, block = None, parse_error = Some ''json_error:JSONDecodeError''\<rparr>
         | Some obj \<Rightarrow>
             (case coerce_block obj of
                None \<Rightarrow> \<lparr>line_no = i, raw = r, block = None, parse_error = Some ''schema_error''\<rparr>
              | Some b \<Rightarrow> \<lparr>line_no = i, raw = r, block = Some b, parse_error = None\<rparr>))))"

definition iter_parsed_lines :: "string \<Rightarrow> parsed_line list" where
  "iter_parsed_lines t = map parse_line (zip [1..<Suc (length (splitlines t))] (splitlines t))"

record valid_block =
  v_line :: nat
  v_block :: lblock
  v_kind :: string
  v_sig :: nat

definition v_index :: "valid_block \<Rightarrow> int" where "v_index v = lb_index (v_block v)"
definition v_prev :: "valid_block \<Rightarrow> string" where "v_prev v = lb_prev (v_block v)"
definition v_hash :: "valid_block \<Rightarrow> string" where "v_hash v = lb_hash (v_block v)"

text \<open>\<^verbatim>\<open>int(signature, 16)\<close>, 0 when it is no hexadecimal number.\<close>

fun read_hex :: "nat \<Rightarrow> string \<Rightarrow> nat option" where
  "read_hex acc [] = Some acc"
| "read_hex acc (c # cs) = (case hex_val c of None \<Rightarrow> None | Some n \<Rightarrow> read_hex (16 * acc + n) cs)"

definition sig_u32 :: "string \<Rightarrow> nat" where
  "sig_u32 s = (case read_hex 0 s of None \<Rightarrow> 0 | Some n \<Rightarrow> n)"

definition valid_of :: "parsed_line \<Rightarrow> valid_block option" where
  "valid_of item =
     (case block item of
        None \<Rightarrow> None
      | Some b \<Rightarrow>
          if block_is_self_consistent b
          then Some \<lparr>v_line = line_no item, v_block = b, v_kind = frame_kind (lb_payload b),
                     v_sig = sig_u32 (lb_sig b)\<rparr>
          else None)"

definition valid_blocks :: "parsed_line list \<Rightarrow> valid_block list" where
  "valid_blocks parsed = List.map_filter valid_of parsed"

definition detect_fork_point :: "valid_block list \<Rightarrow> int option" where
  "detect_fork_point blocks =
     snd (foldl (\<lambda>(by_key, fork) b.
            (let key = (v_index b, v_prev b);
                 n = (case dget by_key key of None \<Rightarrow> 0 | Some k \<Rightarrow> k) + (1::nat)
             in (dput key n by_key,
                 if n \<ge> 2 then Some (case fork of None \<Rightarrow> v_index b | Some f \<Rightarrow> min f (v_index b))
                 else fork)))
          ([], None) blocks)"

section \<open>The best chain\<close>

type_synonym node_id = "int \<times> string \<times> nat"

definition node_id :: "valid_block \<Rightarrow> node_id" where
  "node_id b = (v_index b, v_hash b, v_line b)"

record chain_tip =
  tip_id :: node_id
  tip_length :: int
  tip_quorum :: bool
  tip_sig :: nat
  tip_hash :: string

definition chain_tip_key :: "chain_tip \<Rightarrow> int \<times> nat \<times> nat \<times> string" where
  "chain_tip_key t = (tip_length t, if tip_quorum t then 1 else 0, tip_sig t, tip_hash t)"

record chain_state =
  best_len :: "(node_id, int) dict"
  parent :: "(node_id, node_id option) dict"
  quorum_after_fork :: "(node_id, bool) dict"

definition node_table :: "valid_block list \<Rightarrow> (node_id, valid_block) dict" where
  "node_table blocks = foldl (\<lambda>d b. dput (node_id b) b d) [] blocks"

definition dlist :: "('k, 'v list) dict \<Rightarrow> 'k \<Rightarrow> 'v list" where
  "dlist d k = (case dget d k of None \<Rightarrow> [] | Some xs \<Rightarrow> xs)"

definition index_table :: "valid_block list \<Rightarrow> (int \<times> string, node_id list) dict" where
  "index_table blocks =
     foldl (\<lambda>d b. dput (v_index b, v_hash b) (dlist d (v_index b, v_hash b) @ [node_id b]) d) [] blocks"

definition has_quorum :: "chain_state \<Rightarrow> node_id \<Rightarrow> bool" where
  "has_quorum st i = (case dget (quorum_after_fork st) i of None \<Rightarrow> False | Some q \<Rightarrow> q)"

definition consider_parent ::
  "chain_state \<Rightarrow> node_id option \<times> int \<times> bool \<Rightarrow> node_id \<Rightarrow> node_id option \<times> int \<times> bool" where
  "consider_parent st = (\<lambda>(best, blen, bq) pid.
     (let plen = (case dget (best_len st) pid of None \<Rightarrow> - 1 | Some l \<Rightarrow> l) in
      if plen > blen then (Some pid, plen, has_quorum st pid)
      else if plen = blen then
        (case best of
           None \<Rightarrow> (best, blen, bq)
         | Some b \<Rightarrow> if fst (snd pid) > fst (snd b) then (Some pid, blen, has_quorum st pid)
                     else (best, blen, bq))
      else (best, blen, bq)))"

definition parent_key :: "chain_state \<Rightarrow> node_id \<Rightarrow> int \<times> bool \<times> string" where
  "parent_key st i = ((case dget (best_len st) i of None \<Rightarrow> 0 | Some l \<Rightarrow> l), has_quorum st i, fst (snd i))"

definition select_parent :: "chain_state \<Rightarrow> node_id list \<Rightarrow> node_id option \<times> int \<times> bool" where
  "select_parent st cands = foldl (consider_parent st) (None, - 1, False) (sort_key (parent_key st) cands)"

definition is_quorum_block :: "int option \<Rightarrow> valid_block \<Rightarrow> bool" where
  "is_quorum_block fork b \<longleftrightarrow>
     v_kind b = ''QUORUM_PASSED'' \<and> (case fork of None \<Rightarrow> True | Some f \<Rightarrow> v_index b \<ge> f)"

definition set_node :: "node_id \<Rightarrow> int \<Rightarrow> node_id option \<Rightarrow> bool \<Rightarrow> chain_state \<Rightarrow> chain_state" where
  "set_node i l p q st =
     st\<lparr>best_len := dput i l (best_len st), parent := dput i p (parent st),
        quorum_after_fork := dput i q (quorum_after_fork st)\<rparr>"

definition process_node ::
  "valid_block list \<Rightarrow> int option \<Rightarrow> chain_state \<Rightarrow> node_id \<Rightarrow> chain_state" where
  "process_node blocks fork st i =
     (case dget (node_table blocks) i of
        None \<Rightarrow> st
      | Some b \<Rightarrow>
          if v_index b = 0 then
            (if v_prev b \<noteq> genesis_prev then st
             else set_node i 1 None (is_quorum_block fork b) st)
          else
            (let cands = filter (\<lambda>pid. dhas (best_len st) pid)
                           (dlist (index_table blocks) (v_index b - 1, v_prev b))
             in (case select_parent st cands of
                   (None, _, _) \<Rightarrow> st
                 | (Some pid, plen, pq) \<Rightarrow>
                     set_node i (plen + 1) (Some pid) (pq \<or> is_quorum_block fork b) st)))"

definition ids_at :: "valid_block list \<Rightarrow> int \<Rightarrow> node_id list" where
  "ids_at blocks idx = sort (filter (\<lambda>i. fst i = idx) (dkeys (node_table blocks)))"

definition process_index ::
  "valid_block list \<Rightarrow> int option \<Rightarrow> chain_state \<Rightarrow> int \<Rightarrow> chain_state" where
  "process_index blocks fork st idx = foldl (process_node blocks fork) st (ids_at blocks idx)"

definition link_blocks :: "valid_block list \<Rightarrow> int option \<Rightarrow> chain_state" where
  "link_blocks blocks fork =
     foldl (process_index blocks fork) \<lparr>best_len = [], parent = [], quorum_after_fork = []\<rparr>
       (sort (remdups (map v_index blocks)))"

text \<open>
  \<open>_reconstruct\<close> walks the parent links; the fuel bounds the walk (\<open>None\<close> when it runs out).
  Every parent is one index below its child, so one more than the index of the tip is always
  enough (\<open>reconstruct_linear\<close>).
\<close>

fun reconstruct ::
  "nat \<Rightarrow> (node_id, valid_block) dict \<Rightarrow> chain_state \<Rightarrow> node_id \<Rightarrow> valid_block list option" where
  "reconstruct 0 nodes st i = None"
| "reconstruct (Suc n) nodes st i =
     (case dget nodes i of
        None \<Rightarrow> None
      | Some b \<Rightarrow>
          (case dget (parent st) i of
             Some (Some p) \<Rightarrow> map_option (\<lambda>out. out @ [b]) (reconstruct n nodes st p)
           | _ \<Rightarrow> Some [b]))"

definition chain_tips :: "valid_block list \<Rightarrow> chain_state \<Rightarrow> chain_tip list" where
  "chain_tips blocks st =
     List.map_filter (\<lambda>(i, l).
       (case dget (node_table blocks) i of
          None \<Rightarrow> None
        | Some b \<Rightarrow> Some \<lparr>tip_id = i, tip_length = l, tip_quorum = has_quorum st i,
                         tip_sig = v_sig b, tip_hash = v_hash b\<rparr>))
       (best_len st)"

definition the_chain :: "valid_block list \<Rightarrow> chain_state \<Rightarrow> node_id \<Rightarrow> valid_block list" where
  "the_chain blocks st i =
     (case reconstruct (Suc (nat (fst i))) (node_table blocks) st i of None \<Rightarrow> [] | Some bs \<Rightarrow> bs)"

definition best_chain ::
  "valid_block list \<Rightarrow> valid_block list \<times> int option \<times> valid_block list list" where
  "best_chain blocks =
     (if blocks = [] then ([], None, [])
      else
        (let fork = detect_fork_point blocks;
             st = link_blocks blocks fork
         in (case chain_tips blocks st of
               [] \<Rightarrow> ([], fork, [])
             | t # ts \<Rightarrow>
                 (let best = max_by chain_tip_key t ts;
                      max_len = foldl max (tip_length t) (map tip_length ts);
                      top = sort_desc chain_tip_key (filter (\<lambda>u. tip_length u = max_len) (t # ts))
                  in (the_chain blocks st (tip_id best), fork,
                      map (\<lambda>u. the_chain blocks st (tip_id u)) top)))))"

section \<open>Writing the result\<close>

text \<open>
  \<open>clock k\<close> is the \<open>k\<close>-th reading of \<open>_now_ts_utc\<close>. The orphan log takes one record per line
  whose hash is not among the chosen ones.
\<close>

definition orphan_record :: "string \<Rightarrow> string \<Rightarrow> parsed_line \<Rightarrow> jdict" where
  "orphan_record ts path item =
     [(''ts_utc'', JStr ts), (''event'', JStr ''ORPHANED_LEDGER_LINE''), (''ledger_path'', JStr path),
      (''line_no'', JInt (int (line_no item))),
      (''reason'', JStr (case parse_error item of Some e \<Rightarrow> e | None \<Rightarrow> ''fork_pruned''))]
     @ (case block item of Some b \<Rightarrow> [(''block'', JObj (lb_json b))] | None \<Rightarrow> [(''raw'', JStr (raw item))])"

definition kept :: "string list \<Rightarrow> parsed_line \<Rightarrow> bool" where
  "kept chosen_hashes item \<longleftrightarrow>
     (case block item of None \<Rightarrow> False | Some b \<Rightarrow> lb_hash b \<in> set chosen_hashes)"

definition write_orphaned ::
  "(nat \<Rightarrow> string) \<Rightarrow> string \<Rightarrow> parsed_line list \<Rightarrow> string list \<Rightarrow> string \<Rightarrow> string \<times> nat" where
  "write_orphaned clock path parsed chosen_hashes orphaned =
     foldl (\<lambda>(f, pruned) item.
       if kept chosen_hashes item then (f, pruned)
       else (append_jsonl f (orphan_record (clock pruned) path item), pruned + 1))
     (orphaned, 0) parsed"

definition build_reconciliation_block ::
  "string \<Rightarrow> string \<Rightarrow> int \<Rightarrow> string \<Rightarrow> jdict \<Rightarrow> lblock" where
  "build_reconciliation_block ts prev next token summary =
     (let payload = JObj (dupdate [(''kind'', JStr ''CONSENSUS_RECONCILIATION_COMPLETE'')] summary);
          header = header_of (JInt next) (JStr ts) (JStr token) (JStr prev) payload;
          h = compute_block_hash header
      in \<lparr>lb_index = next, lb_ts = ts, lb_token = token, lb_prev = prev, lb_payload = payload,
          lb_hash = h, lb_sig = compute_block_signature (dput ''hash'' (JStr h) header)\<rparr>)"

definition atomic_rewrite_ledger :: "lblock list \<Rightarrow> string" where
  "atomic_rewrite_ledger blocks = foldl append_jsonl [] (map lb_json blocks)"

section \<open>The auditor\<close>

record auditor =
  ledger_text :: "string option"
  orphaned_text :: string
  last_candidates :: "valid_block list list"

datatype fork_reason =
    ParseFailure nat "string option"
  | IndexMismatchAt nat int int
  | ChainMismatchAt int
  | HashSignatureMismatchAt int
  | NoConsistentBlocks
  | NoValidChain

datatype fork_error = CryptographicForkException fork_reason | FileNotFound

fun audit_loop :: "string \<Rightarrow> int \<Rightarrow> parsed_line list \<Rightarrow> (fork_error, unit) res" where
  "audit_loop prev expected [] = Inr ()"
| "audit_loop prev expected (item # items) =
     (case block item of
        None \<Rightarrow> Inl (CryptographicForkException (ParseFailure (line_no item) (parse_error item)))
      | Some b \<Rightarrow>
          if lb_index b \<noteq> expected
          then Inl (CryptographicForkException (IndexMismatchAt (line_no item) expected (lb_index b)))
          else if lb_prev b \<noteq> prev then Inl (CryptographicForkException (ChainMismatchAt (lb_index b)))
          else if \<not> block_is_self_consistent b
          then Inl (CryptographicForkException (HashSignatureMismatchAt (lb_index b)))
          else audit_loop (lb_hash b) (expected + 1) items)"

definition audit_or_raise :: "auditor \<Rightarrow> (fork_error, unit) res" where
  "audit_or_raise a =
     (case ledger_text a of
        None \<Rightarrow> Inr ()
      | Some t \<Rightarrow> audit_loop genesis_prev 0 (iter_parsed_lines t))"

record fork_resolution =
  chosen_tip_hash :: string
  chosen_blocks :: nat
  pruned_lines :: nat
  reconciliation_index :: int
  fork_point_index :: "int option"

definition choose_chain ::
  "parsed_line list \<Rightarrow> auditor \<Rightarrow> (fork_error, (valid_block list \<times> int option) \<times> auditor) res" where
  "choose_chain parsed a =
     (let valid = valid_blocks parsed in
      if valid = [] then Inl (CryptographicForkException NoConsistentBlocks)
      else
        (let (chosen, fork, cands) = best_chain valid
         in Inr ((chosen, fork), a\<lparr>last_candidates := cands\<rparr>)))"

definition opt_int :: "int option \<Rightarrow> jval" where
  "opt_int x = (case x of None \<Rightarrow> JNull | Some i \<Rightarrow> JInt i)"

text \<open>What \<open>_resolve_fork_sync\<close> does with the chain it has chosen.\<close>

definition commit_chain ::
  "(nat \<Rightarrow> string) \<Rightarrow> string \<Rightarrow> parsed_line list \<Rightarrow> valid_block list \<Rightarrow> int option \<Rightarrow> auditor
    \<Rightarrow> fork_resolution \<times> auditor" where
  "commit_chain clock path parsed chosen fork a =
     (let tip = last chosen;
          (orphans, pruned) = write_orphaned clock path parsed (map v_hash chosen) (orphaned_text a);
          summary = [(''ledger'', JStr path), (''chosen_tip_hash'', JStr (v_hash tip)),
                     (''chosen_blocks'', JInt (int (length chosen))), (''pruned_lines'', JInt (int pruned)),
                     (''fork_point_index'', opt_int fork)];
          rec = build_reconciliation_block (clock pruned) (v_hash tip) (v_index tip + 1)
                  (lb_token (v_block tip)) summary
      in (\<lparr>chosen_tip_hash = v_hash tip, chosen_blocks = length chosen, pruned_lines = pruned,
           reconciliation_index = lb_index rec, fork_point_index = fork\<rparr>,
          a\<lparr>ledger_text := Some (atomic_rewrite_ledger (map v_block chosen @ [rec])),
             orphaned_text := orphans\<rparr>))"

definition resolve_fork ::
  "(nat \<Rightarrow> string) \<Rightarrow> string \<Rightarrow> auditor \<Rightarrow> (fork_error, fork_resolution \<times> auditor) res" where
  "resolve_fork clock path a =
     (case ledger_text a of
        None \<Rightarrow> Inl FileNotFound
      | Some t \<Rightarrow>
          (let parsed = iter_parsed_lines t in
           res_bind (choose_chain parsed a) (\<lambda>((chosen, fork), a').
             if chosen = [] then Inl (CryptographicForkException NoValidChain)
             else Inr (commit_chain clock path parsed chosen fork a'))))"

section \<open>The tables\<close>

declare split_paired_All [simp del] split_paired_Ex [simp del]

lemma sort_key_Nil_iff [simp]: "sort_key k xs = [] \<longleftrightarrow> xs = []"
  by (metis set_empty set_sort)

definition vlink :: "string \<Rightarrow> int \<Rightarrow> valid_block \<Rightarrow> bool" where
  "vlink p n v \<longleftrightarrow> v_index v = n \<and> v_prev v = p"

text \<open>A linear chain of valid blocks from the genesis hash.\<close>

abbreviation linear :: "valid_block list \<Rightarrow> bool" where
  "linear \<equiv> chained vlink v_hash genesis_prev 0"

lemma node_table_snoc: "node_table (bs @ [b]) = dput (node_id b) b (node_table bs)"
  by (simp add: node_table_def)

lemma node_table_Some: "dget (node_table bs) i = Some b \<Longrightarrow> b \<in> set bs \<and> node_id b = i"
  by (induction bs rule: rev_induct)
    (auto simp: node_table_snoc dget_dput node_table_def split: if_splits)

lemma node_table_mem: "b \<in> set bs \<Longrightarrow> dget (node_table bs) (node_id b) \<noteq> None"
  by (induction bs rule: rev_induct) (auto simp: node_table_snoc dget_dput)

lemma node_table_unique:
  assumes "distinct (map v_line bs)" and "b \<in> set bs"
  shows "dget (node_table bs) (node_id b) = Some b"
proof -
  from node_table_mem [OF assms(2)] obtain c where c: "dget (node_table bs) (node_id b) = Some c"
    by blast
  with node_table_Some have "c \<in> set bs" "v_line c = v_line b" by (auto simp: node_id_def)
  with assms have "c = b" by (auto simp: distinct_map dest: inj_onD)
  with c show ?thesis by simp
qed

lemma index_table_set:
  "set (dlist (index_table bs) (i, h)) = node_id ` {b \<in> set bs. v_index b = i \<and> v_hash b = h}"
proof (induction bs rule: rev_induct)
  case Nil
  then show ?case by (simp add: index_table_def dlist_def)
next
  case (snoc b bs)
  have "index_table (bs @ [b]) =
      dput (v_index b, v_hash b) (dlist (index_table bs) (v_index b, v_hash b) @ [node_id b]) (index_table bs)"
    by (simp add: index_table_def)
  then have "dlist (index_table (bs @ [b])) (i, h) =
      (if (i, h) = (v_index b, v_hash b) then dlist (index_table bs) (i, h) @ [node_id b]
       else dlist (index_table bs) (i, h))"
    by (auto simp: dlist_def dget_dput)
  with snoc show ?case by auto
qed

lemma ids_at_set: "set (ids_at bs idx) = node_id ` {b \<in> set bs. v_index b = idx}"
proof -
  have "i \<in> set (dkeys (node_table bs)) \<longleftrightarrow> i \<in> node_id ` set bs" for i
  proof -
    have "i \<in> set (dkeys (node_table bs)) \<longleftrightarrow> dget (node_table bs) i \<noteq> None"
      by (simp add: dkeys_def dget_None_iff)
    with node_table_Some node_table_mem show ?thesis by fastforce
  qed
  then show ?thesis by (auto simp: ids_at_def node_id_def)
qed

section \<open>Linking keeps linear chains\<close>

text \<open>Every linked node has a linked parent one index below, up to a genesis block.\<close>

definition linked :: "valid_block list \<Rightarrow> chain_state \<Rightarrow> node_id \<Rightarrow> bool" where
  "linked blocks st i \<longleftrightarrow>
     (\<exists>b. dget (node_table blocks) i = Some b \<and> dget (best_len st) i = Some (v_index b + 1) \<and>
       (v_index b = 0 \<and> v_prev b = genesis_prev \<and> dget (parent st) i = Some None \<or>
        v_index b > 0 \<and>
        (\<exists>p pb. dget (parent st) i = Some (Some p) \<and> dhas (best_len st) p \<and>
           dget (node_table blocks) p = Some pb \<and> v_index pb = v_index b - 1 \<and> v_hash pb = v_prev b)))"

definition links_inv :: "valid_block list \<Rightarrow> chain_state \<Rightarrow> bool" where
  "links_inv blocks st \<longleftrightarrow> (\<forall>i. dhas (best_len st) i \<longrightarrow> linked blocks st i)"

lemma consider_parent_sel:
  assumes "\<forall>p \<in> set ps. \<exists>l \<ge> 0. dget (best_len st) p = Some l"
    and "best = None \<and> blen = - 1 \<or> (\<exists>p. best = Some p \<and> dget (best_len st) p = Some blen \<and> blen \<ge> 0)"
    and "foldl (consider_parent st) (best, blen, bq) ps = (best', blen', bq')"
  shows "(best' = None \<and> best = None \<and> ps = []) \<or>
    (\<exists>p. best' = Some p \<and> dget (best_len st) p = Some blen' \<and> blen' \<ge> 0 \<and> (p \<in> set ps \<or> best = Some p))"
  using assms
proof (induction ps arbitrary: best blen bq)
  case Nil
  then show ?case by auto
next
  case (Cons p ps)
  then obtain l where l: "dget (best_len st) p = Some l" "l \<ge> 0" by auto
  obtain best1 blen1 bq1 where step: "consider_parent st (best, blen, bq) p = (best1, blen1, bq1)"
    by (metis prod_cases3)
  have one: "\<exists>q. best1 = Some q \<and> dget (best_len st) q = Some blen1 \<and> blen1 \<ge> 0 \<and> (q = p \<or> best = Some q)"
    using step l Cons.prems(2)
    by (auto simp: consider_parent_def Let_def split: if_splits option.splits)
  with Cons.IH [of best1 blen1 bq1] Cons.prems(1,3) step show ?case by auto
qed

lemma select_parent_cases:
  assumes "\<forall>p \<in> set ps. \<exists>l \<ge> 0. dget (best_len st) p = Some l" and "select_parent st ps = (best, blen, bq)"
  shows "(best = None \<and> ps = []) \<or> (\<exists>p \<in> set ps. best = Some p \<and> dget (best_len st) p = Some blen)"
  using consider_parent_sel [of "sort_key (parent_key st) ps" st None "- 1" False best blen bq] assms
  by (auto simp: select_parent_def)

lemma dhas_dput [simp]: "dhas (dput k v d) k' \<longleftrightarrow> k' = k \<or> dhas d k'"
  by (simp add: dhas_def dget_dput)

lemma linked_set_node:
  assumes "links_inv blocks st" and "dget (node_table blocks) i = Some b"
    and "v_index b = 0 \<and> v_prev b = genesis_prev \<and> p = None \<or>
      v_index b > 0 \<and> (\<exists>q pb. p = Some q \<and> dhas (best_len st) q \<and> dget (node_table blocks) q = Some pb \<and>
        v_index pb = v_index b - 1 \<and> v_hash pb = v_prev b)"
  shows "links_inv blocks (set_node i (v_index b + 1) p f st)"
  unfolding links_inv_def
proof (intro allI impI)
  fix j
  let ?st = "set_node i (v_index b + 1) p f st"
  assume j: "dhas (best_len ?st) j"
  show "linked blocks ?st j"
  proof (cases "j = i")
    case True
    with assms(2,3) show ?thesis by (auto simp: linked_def set_node_def)
  next
    case False
    with j assms(1) have "linked blocks st j" by (auto simp: links_inv_def set_node_def)
    with False show ?thesis by (auto simp: linked_def set_node_def)
  qed
qed

lemma linked_index: "linked blocks st i \<Longrightarrow> \<exists>l \<ge> 0. dget (best_len st) i = Some l"
  by (auto simp: linked_def)

lemma process_node_inv:
  assumes "links_inv blocks st"
  shows "links_inv blocks (process_node blocks fork st i)"
proof (cases "dget (node_table blocks) i")
  case None
  with assms show ?thesis by (simp add: process_node_def)
next
  case (Some b)
  let ?c = "filter (\<lambda>pid. dhas (best_len st) pid) (dlist (index_table blocks) (v_index b - 1, v_prev b))"
  obtain best blen bq where sel: "select_parent st ?c = (best, blen, bq)" by (metis prod_cases3)
  have cands: "\<forall>p \<in> set ?c. \<exists>l \<ge> 0. dget (best_len st) p = Some l"
    using assms linked_index by (auto simp: links_inv_def)
  show ?thesis
  proof (cases "v_index b = 0 \<or> best = None")
    case True
    with Some assms sel linked_set_node [OF assms Some, of None] show ?thesis
      by (auto simp: process_node_def)
  next
    case False
    with select_parent_cases [OF cands sel] obtain p where p: "p \<in> set ?c" "best = Some p"
      "dget (best_len st) p = Some blen" by auto
    then obtain pb where "pb \<in> set blocks" "node_id pb = p" "v_index pb = v_index b - 1" "v_hash pb = v_prev b"
      by (auto simp: index_table_set)
    moreover from this obtain pb' where pb': "dget (node_table blocks) p = Some pb'"
      using node_table_mem by blast
    moreover from pb' have "node_id pb' = p" by (rule node_table_Some [THEN conjunct2])
    ultimately have par: "v_index pb' = v_index b - 1" "v_hash pb' = v_prev b"
      by (auto simp: node_id_def)
    have "linked blocks st p" using assms p(1) by (auto simp: links_inv_def)
    with pb' p(3) par have "blen = v_index b" "v_index b > 0"
      using False by (auto simp: linked_def)
    with False Some sel p pb' par linked_set_node [OF assms Some, of "Some p"] show ?thesis
      by (auto simp: process_node_def)
  qed
qed

lemma process_index_inv: "links_inv blocks st \<Longrightarrow> links_inv blocks (process_index blocks fork st idx)"
  unfolding process_index_def
  by (rule foldl_invariant) (simp_all add: process_node_inv)

lemma link_blocks_inv: "links_inv blocks (link_blocks blocks fork)"
  unfolding link_blocks_def
proof (rule foldl_invariant)
  show "links_inv blocks \<lparr>best_len = [], parent = [], quorum_after_fork = []\<rparr>"
    by (simp add: links_inv_def dhas_def)
qed (rule process_index_inv)

lemma linear_snoc:
  "linear (cs @ [b]) \<longleftrightarrow> linear cs \<and> v_index b = int (length cs) \<and> v_prev b = end_hash v_hash genesis_prev cs"
proof -
  have "chained vlink v_hash p n (cs @ [b]) \<longleftrightarrow>
      chained vlink v_hash p n cs \<and> vlink (end_hash v_hash p cs) (n + int (length cs)) b" for p n
    by (induction cs arbitrary: p n) (auto simp: algebra_simps)
  then show ?thesis by (auto simp: vlink_def)
qed

text \<open>The walk from a linked node is total and gives a linear chain of the file's blocks.\<close>

lemma reconstruct_linear:
  assumes "links_inv blocks st" and "dhas (best_len st) i"
  shows "\<exists>bs b. reconstruct (Suc (nat (fst i))) (node_table blocks) st i = Some (bs @ [b]) \<and>
    linear (bs @ [b]) \<and> set (bs @ [b]) \<subseteq> set blocks \<and> node_id b = i \<and> int (length bs) = fst i"
  using assms(2)
proof (induction "nat (fst i)" arbitrary: i)
  case 0
  with assms(1) obtain b where b: "dget (node_table blocks) i = Some b" and nid: "node_id b = i"
    and l: "linked blocks st i"
    using node_table_Some by (fastforce simp: links_inv_def linked_def)
  then have idx: "fst i = v_index b" by (auto simp: node_id_def)
  with 0 l b have "v_index b = 0" "v_prev b = genesis_prev" "dget (parent st) i = Some None"
    by (auto simp: linked_def)
  with b nid idx node_table_Some [OF b] show ?case
    by (intro exI [of _ "[]"] exI [of _ b]) (simp add: vlink_def)
next
  case (Suc n)
  with assms(1) obtain b where b: "dget (node_table blocks) i = Some b" and nid: "node_id b = i"
    and l: "linked blocks st i"
    using node_table_Some by (fastforce simp: links_inv_def linked_def)
  then have idx: "fst i = v_index b" by (auto simp: node_id_def)
  with Suc(2) l b obtain p pb where p: "dget (parent st) i = Some (Some p)" "dhas (best_len st) p"
    "dget (node_table blocks) p = Some pb" "v_index pb = v_index b - 1" "v_hash pb = v_prev b"
    by (auto simp: linked_def)
  then have pid: "node_id pb = p" using node_table_Some by blast
  then have fp: "fst p = fst i - 1" using p(4) idx by (auto simp: node_id_def)
  with Suc.hyps(2) have "n = nat (fst p)" by simp
  from Suc.hyps(1) [OF this p(2)] obtain bs c where IH:
    "reconstruct (Suc (nat (fst p))) (node_table blocks) st p = Some (bs @ [c])" "linear (bs @ [c])"
    "set (bs @ [c]) \<subseteq> set blocks" "node_id c = p" "int (length bs) = fst p" by blast
  have "v_hash c = v_prev b" using IH(4) pid p(5) by (auto simp: node_id_def)
  then have lin: "linear ((bs @ [c]) @ [b])"
    unfolding linear_snoc [of "bs @ [c]"] using IH(2,5) idx fp by simp
  have "nat (fst i) = Suc (nat (fst p))" using Suc.hyps(2) fp by simp
  then have "reconstruct (Suc (nat (fst i))) (node_table blocks) st i = Some ((bs @ [c]) @ [b])"
    using b p(1) IH(1) by (simp del: append.simps append_assoc)
  with lin IH(3,5) nid fp node_table_Some [OF b] show ?case
    by (intro exI [of _ "bs @ [c]"] exI [of _ b]) simp
qed

section \<open>Linking is complete\<close>

definition has_chain :: "valid_block list \<Rightarrow> valid_block \<Rightarrow> bool" where
  "has_chain blocks b \<longleftrightarrow> b \<in> set blocks \<and> (\<exists>cs. set cs \<subseteq> set blocks \<and> linear (cs @ [b]))"

lemma process_node_mono: "dhas (best_len st) j \<Longrightarrow> dhas (best_len (process_node blocks fork st i)) j"
  by (auto simp: process_node_def set_node_def Let_def split: option.splits prod.splits)

lemma process_nodes_mono:
  "dhas (best_len st) j \<Longrightarrow> dhas (best_len (foldl (process_node blocks fork) st xs)) j"
  by (rule foldl_invariant) (simp_all add: process_node_mono)

lemma process_index_mono: "dhas (best_len st) j \<Longrightarrow> dhas (best_len (process_index blocks fork st i)) j"
  by (simp add: process_index_def process_nodes_mono)

definition complete_below :: "valid_block list \<Rightarrow> chain_state \<Rightarrow> int \<Rightarrow> bool" where
  "complete_below blocks st n \<longleftrightarrow>
     (\<forall>b. has_chain blocks b \<and> v_index b < n \<longrightarrow> dhas (best_len st) (node_id b))"

lemma has_chain_cases:
  assumes "has_chain blocks b"
  obtains "v_index b = 0" "v_prev b = genesis_prev"
  | pb where "has_chain blocks pb" "v_index pb = v_index b - 1" "v_hash pb = v_prev b" "v_index b > 0"
proof -
  from assms obtain cs where cs: "set cs \<subseteq> set blocks" "linear (cs @ [b])" by (auto simp: has_chain_def)
  show ?thesis
  proof (cases cs rule: rev_cases)
    case Nil
    with cs that(1) show ?thesis by (simp add: vlink_def)
  next
    case (snoc ds pb)
    with cs have "linear (ds @ [pb])" "v_index b = int (length ds) + 1" "v_prev b = v_hash pb"
      using linear_snoc [of cs b] by auto
    moreover from this have "v_index pb = int (length ds)" using linear_snoc [of ds pb] by blast
    ultimately show ?thesis using cs snoc by (intro that(2) [of pb]) (auto simp: has_chain_def)
  qed
qed

lemma process_node_complete:
  assumes "distinct (map v_line blocks)" and "links_inv blocks st"
    and "complete_below blocks st (v_index b)" and "has_chain blocks b"
  shows "dhas (best_len (process_node blocks fork st (node_id b))) (node_id b)"
proof -
  have node: "dget (node_table blocks) (node_id b) = Some b"
    using assms(1,4) by (auto simp: has_chain_def intro: node_table_unique)
  from assms(4) show ?thesis
  proof (cases rule: has_chain_cases)
    case 1
    with node show ?thesis by (simp add: process_node_def set_node_def)
  next
    case (2 pb)
    let ?c = "filter (\<lambda>pid. dhas (best_len st) pid) (dlist (index_table blocks) (v_index b - 1, v_prev b))"
    have "dhas (best_len st) (node_id pb)" using assms(3) 2 by (auto simp: complete_below_def)
    with 2 have pb: "node_id pb \<in> set ?c" by (auto simp: index_table_set has_chain_def)
    have cands: "\<forall>p \<in> set ?c. \<exists>l \<ge> 0. dget (best_len st) p = Some l"
      using assms(2) linked_index by (auto simp: links_inv_def)
    obtain best blen bq where sel: "select_parent st ?c = (best, blen, bq)" by (metis prod_cases3)
    from pb have "?c \<noteq> []" by (metis list.distinct(1) set_ConsD empty_iff list.set(1))
    with select_parent_cases [OF cands sel] have "best \<noteq> None" by blast
    with node sel 2 show ?thesis by (auto simp: process_node_def set_node_def)
  qed
qed

lemma process_index_complete:
  assumes "distinct (map v_line blocks)" and "links_inv blocks st" and "complete_below blocks st n"
  shows "complete_below blocks (process_index blocks fork st n) (n + 1)"
  unfolding complete_below_def
proof (intro allI impI)
  fix b assume b: "has_chain blocks b \<and> v_index b < n + 1"
  show "dhas (best_len (process_index blocks fork st n)) (node_id b)"
  proof (cases "v_index b = n")
    case False
    with b assms(3) have "dhas (best_len st) (node_id b)" by (auto simp: complete_below_def)
    then show ?thesis by (rule process_index_mono)
  next
    case True
    with b have "node_id b \<in> set (ids_at blocks n)" by (auto simp: ids_at_set has_chain_def)
    then obtain xs ys where split: "ids_at blocks n = xs @ node_id b # ys" by (meson split_list)
    let ?st = "foldl (process_node blocks fork) st xs"
    have "links_inv blocks ?st"
      using assms(2) by (rule foldl_invariant [where P = "links_inv blocks"]) (simp add: process_node_inv)
    moreover have "complete_below blocks ?st (v_index b)"
      using assms(3) True process_nodes_mono by (simp add: complete_below_def)
    ultimately have "dhas (best_len (process_node blocks fork ?st (node_id b))) (node_id b)"
      using assms(1) b by (intro process_node_complete) auto
    then show ?thesis
      unfolding process_index_def split by (simp add: process_nodes_mono)
  qed
qed

text \<open>The indices are processed in increasing order, so parents come first.\<close>

lemma process_indices_complete:
  assumes "distinct (map v_line blocks)" and "links_inv blocks st" and "sorted (n # ns)" and "distinct (n # ns)"
    and "complete_below blocks st n" and "\<forall>b \<in> set blocks. v_index b \<ge> n \<longrightarrow> v_index b \<in> set (n # ns)"
  shows "complete_below blocks (foldl (process_index blocks fork) st (n # ns)) m"
  using assms(2-)
proof (induction ns arbitrary: st n)
  case Nil
  have "complete_below blocks (process_index blocks fork st n) (n + 1)"
    using assms(1) Nil by (intro process_index_complete)
  moreover have "\<forall>b. has_chain blocks b \<longrightarrow> v_index b \<le> n"
    using Nil by (force simp: has_chain_def)
  ultimately show ?case by (simp add: complete_below_def)
next
  case (Cons k ks)
  have "complete_below blocks (process_index blocks fork st n) (n + 1)"
    using assms(1) Cons.prems by (intro process_index_complete)
  moreover have "\<not> (n < v_index b \<and> v_index b < k)" if "b \<in> set blocks" for b
    using that Cons.prems by force
  then have "\<forall>b. has_chain blocks b \<and> v_index b < k \<longrightarrow> v_index b < n + 1"
    by (force simp: has_chain_def)
  ultimately have "complete_below blocks (process_index blocks fork st n) k"
    unfolding complete_below_def by blast
  moreover have "links_inv blocks (process_index blocks fork st n)"
    using Cons.prems(1) by (rule process_index_inv)
  moreover have "\<forall>b \<in> set blocks. v_index b \<ge> k \<longrightarrow> v_index b \<in> set (k # ks)"
    using Cons.prems by force
  ultimately show ?case
    using Cons.IH [of "process_index blocks fork st n" k] Cons.prems by simp
qed

lemma link_blocks_complete:
  assumes "distinct (map v_line blocks)" and "has_chain blocks b"
  shows "dhas (best_len (link_blocks blocks fork)) (node_id b)"
proof -
  let ?ns = "sort (remdups (map v_index blocks))"
  have "v_index b \<in> set ?ns" using assms(2) by (simp add: has_chain_def)
  then obtain n ns where eq: "?ns = n # ns" by (cases ?ns) auto
  have low: "n \<le> v_index c" if "c \<in> set blocks" for c
  proof -
    have "v_index c \<in> set ?ns" using that by simp
    moreover have "sorted ?ns" by simp
    ultimately show ?thesis unfolding eq by auto
  qed
  have "sorted (n # ns)" "distinct (n # ns)" unfolding eq [symmetric] by simp_all
  moreover have "\<forall>c \<in> set blocks. v_index c \<ge> n \<longrightarrow> v_index c \<in> set (n # ns)"
    unfolding eq [symmetric] by simp
  moreover have "complete_below blocks \<lparr>best_len = [], parent = [], quorum_after_fork = []\<rparr> n"
    using low by (force simp: complete_below_def has_chain_def)
  ultimately have "complete_below blocks (link_blocks blocks fork) (v_index b + 1)"
    unfolding link_blocks_def eq using assms(1)
    by (intro process_indices_complete) (simp_all add: links_inv_def dhas_def)
  with assms(2) show ?thesis by (simp add: complete_below_def)
qed

section \<open>The chosen chain\<close>

lemma wf_best_len: "wf_dict (best_len (link_blocks blocks fork))"
proof -
  have node: "wf_dict (best_len st) \<Longrightarrow> wf_dict (best_len (process_node blocks fork st i))" for st i
    by (auto simp: process_node_def set_node_def Let_def split: option.splits prod.splits)
  have index: "wf_dict (best_len st) \<Longrightarrow> wf_dict (best_len (process_index blocks fork st i))" for st i
    unfolding process_index_def
    by (rule foldl_invariant [where P = "\<lambda>st. wf_dict (best_len st)"]) (simp_all add: node)
  show ?thesis
    unfolding link_blocks_def
    by (rule foldl_invariant [where P = "\<lambda>st. wf_dict (best_len st)"]) (simp_all add: index)
qed

lemma chain_tips_sound:
  assumes "t \<in> set (chain_tips blocks (link_blocks blocks fork))"
  shows "dhas (best_len (link_blocks blocks fork)) (tip_id t)" and "tip_length t = fst (tip_id t) + 1"
proof -
  let ?st = "link_blocks blocks fork"
  from assms obtain i l b where t: "(i, l) \<in> set (best_len ?st)" "dget (node_table blocks) i = Some b"
    "tip_id t = i" "tip_length t = l"
    by (auto simp: chain_tips_def in_map_filter split: option.splits)
  from t(1) have l: "dget (best_len ?st) i = Some l" by (simp add: wf_dict_dget_iff [OF wf_best_len])
  then have "linked blocks ?st i" using link_blocks_inv unfolding links_inv_def dhas_def by blast
  with l t(2) have "l = v_index b + 1" by (auto simp: linked_def)
  moreover have "fst i = v_index b" using node_table_Some [OF t(2)] by (auto simp: node_id_def)
  ultimately show "tip_length t = fst (tip_id t) + 1" using t by simp
  show "dhas (best_len ?st) (tip_id t)" using l t by (simp add: dhas_def)
qed

lemma chain_tips_complete:
  assumes "dhas (best_len (link_blocks blocks fork)) i"
  shows "\<exists>t \<in> set (chain_tips blocks (link_blocks blocks fork)). tip_id t = i"
proof -
  let ?st = "link_blocks blocks fork"
  from assms obtain l where l: "dget (best_len ?st) i = Some l" by (auto simp: dhas_def)
  have "linked blocks ?st i" using link_blocks_inv assms unfolding links_inv_def by blast
  then obtain b where "dget (node_table blocks) i = Some b" unfolding linked_def by blast
  then have "\<lparr>tip_id = i, tip_length = l, tip_quorum = has_quorum ?st i, tip_sig = v_sig b,
      tip_hash = v_hash b\<rparr> \<in> set (chain_tips blocks ?st)"
    unfolding chain_tips_def in_map_filter using dget_in_set [OF l] by (intro bexI [of _ "(i, l)"]) simp_all
  then show ?thesis by (rule bexI [rotated]) simp
qed

lemma the_chain_tip:
  assumes "t \<in> set (chain_tips blocks (link_blocks blocks fork))"
  shows "linear (the_chain blocks (link_blocks blocks fork) (tip_id t))"
    and "set (the_chain blocks (link_blocks blocks fork) (tip_id t)) \<subseteq> set blocks"
    and "int (length (the_chain blocks (link_blocks blocks fork) (tip_id t))) = tip_length t"
  using reconstruct_linear [OF link_blocks_inv chain_tips_sound(1) [OF assms]] chain_tips_sound(2) [OF assms]
  by (auto simp: the_chain_def)

lemma tip_key_length: "chain_tip_key t \<le> chain_tip_key u \<Longrightarrow> tip_length t \<le> tip_length u"
  by (auto simp: chain_tip_key_def less_eq_prod_def)

lemma linear_in_tips:
  assumes "distinct (map v_line blocks)" and "linear cs" and "set cs \<subseteq> set blocks" and "cs \<noteq> []"
  shows "\<exists>t \<in> set (chain_tips blocks (link_blocks blocks fork)). tip_length t = int (length cs)"
proof -
  obtain ds b where cs: "cs = ds @ [b]" using assms(4) by (cases cs rule: rev_cases) auto
  with assms have "has_chain blocks b" by (auto simp: has_chain_def)
  with assms(1) have "dhas (best_len (link_blocks blocks fork)) (node_id b)" by (rule link_blocks_complete)
  then obtain t where t: "t \<in> set (chain_tips blocks (link_blocks blocks fork))" "tip_id t = node_id b"
    using chain_tips_complete by blast
  have "v_index b = int (length ds)" using assms(2) linear_snoc [of ds b] cs by simp
  with t chain_tips_sound(2) [OF t(1)] cs show ?thesis
    by (intro bexI [of _ t]) (simp_all add: node_id_def)
qed

lemma best_chain_spec:
  assumes "best_chain blocks = (chosen, fork, cands)" and "distinct (map v_line blocks)"
  shows "linear chosen" and "set chosen \<subseteq> set blocks"
    and "linear cs \<Longrightarrow> set cs \<subseteq> set blocks \<Longrightarrow> length cs \<le> length chosen"
    and "c \<in> set cands \<Longrightarrow> linear c \<and> set c \<subseteq> set blocks \<and> length c = length chosen"
proof -
  let ?fork = "detect_fork_point blocks"
  let ?st = "link_blocks blocks ?fork"
  have "linear chosen \<and> set chosen \<subseteq> set blocks \<and>
    (linear cs \<longrightarrow> set cs \<subseteq> set blocks \<longrightarrow> length cs \<le> length chosen) \<and>
    (c \<in> set cands \<longrightarrow> linear c \<and> set c \<subseteq> set blocks \<and> length c = length chosen)"
  proof (cases "chain_tips blocks ?st")
    case Nil
    have "cs = [] \<or> \<not> (linear cs \<and> set cs \<subseteq> set blocks)"
      using linear_in_tips [OF assms(2), of cs ?fork] Nil by auto
    with Nil assms(1) show ?thesis by (auto simp: best_chain_def Let_def split: if_splits)
  next
    case (Cons t ts)
    then have ne: "blocks \<noteq> []" by (auto simp: chain_tips_def link_blocks_def List.map_filter_def)
    let ?best = "max_by chain_tip_key t ts"
    let ?top = "filter (\<lambda>u. tip_length u = foldl max (tip_length t) (map tip_length ts)) (t # ts)"
    have best: "?best \<in> set (t # ts)" by (rule max_by_in)
    have len: "tip_length u \<le> tip_length ?best" if "u \<in> set (t # ts)" for u
      by (rule tip_key_length [OF max_by_ge [OF that]])
    have "foldl max (tip_length t) (map tip_length ts) = Max (tip_length ` set (t # ts))"
      by (simp add: foldl_max)
    also have "\<dots> = tip_length ?best" using best len by (intro Max_eqI) auto
    finally have mx: "foldl max (tip_length t) (map tip_length ts) = tip_length ?best" .
    have chosen: "chosen = the_chain blocks ?st (tip_id ?best)"
      and cands: "cands = map (\<lambda>u. the_chain blocks ?st (tip_id u)) (sort_desc chain_tip_key ?top)"
      using assms(1) ne Cons by (auto simp: best_chain_def Let_def)
    note ch = the_chain_tip [of ?best blocks ?fork]
    have "linear cs \<longrightarrow> set cs \<subseteq> set blocks \<longrightarrow> length cs \<le> length chosen"
    proof (intro impI)
      assume cs: "linear cs" "set cs \<subseteq> set blocks"
      show "length cs \<le> length chosen"
      proof (cases "cs = []")
        case False
        with linear_in_tips [OF assms(2) cs] obtain u where "u \<in> set (t # ts)" "tip_length u = int (length cs)"
          unfolding Cons [symmetric] by blast
        with len ch(3) best Cons chosen show ?thesis by force
      qed simp
    qed
    moreover have "c \<in> set cands \<longrightarrow> linear c \<and> set c \<subseteq> set blocks \<and> length c = length chosen"
    proof
      assume "c \<in> set cands"
      then obtain u where u: "u \<in> set (t # ts)" "tip_length u = tip_length ?best"
        "c = the_chain blocks ?st (tip_id u)"
        unfolding cands mx set_map set_sort_desc set_filter by blast
      with the_chain_tip [of u blocks ?fork] ch(3) best Cons chosen
      show "linear c \<and> set c \<subseteq> set blocks \<and> length c = length chosen" by auto
    qed
    ultimately show ?thesis using ch best Cons chosen by auto
  qed
  then show "linear chosen" and "set chosen \<subseteq> set blocks"
    and "linear cs \<Longrightarrow> set cs \<subseteq> set blocks \<Longrightarrow> length cs \<le> length chosen"
    and "c \<in> set cands \<Longrightarrow> linear c \<and> set c \<subseteq> set blocks \<and> length c = length chosen"
    by auto
qed

section \<open>The audit\<close>

definition alink :: "string \<Rightarrow> int \<Rightarrow> lblock \<Rightarrow> bool" where
  "alink p n b \<longleftrightarrow> lb_index b = n \<and> lb_prev b = p \<and> block_is_self_consistent b"

lemma header_lb_json: "block_header (lb_json b) =
    header_of (JInt (lb_index b)) (JStr (lb_ts b)) (JStr (lb_token b)) (JStr (lb_prev b)) (lb_payload b)"
  by (simp add: block_header_def lb_json_def)

lemma jget_lb_json:
  "jget (lb_json b) ''index'' = JInt (lb_index b)" "jget (lb_json b) ''ts_utc'' = JStr (lb_ts b)"
  "jget (lb_json b) ''execution_token'' = JStr (lb_token b)" "jget (lb_json b) ''prev_hash'' = JStr (lb_prev b)"
  "jget (lb_json b) ''payload'' = lb_payload b" "jget (lb_json b) ''hash'' = JStr (lb_hash b)"
  "jget (lb_json b) ''signature'' = JStr (lb_sig b)"
  by (simp_all add: lb_json_def)

lemma alink_ledger_link: "alink p n b \<longleftrightarrow> ledger_link p n (lb_json b)"
  by (auto simp: alink_def ledger_link_iff block_is_self_consistent_def header_lb_json block_hash_def Let_def)
    (simp_all add: lb_json_def)

lemma alink_hash: "alink p n b \<Longrightarrow> block_hash (lb_json b) = lb_hash b"
  by (simp add: alink_def block_is_self_consistent_def header_lb_json block_hash_def Let_def)

interpretation audit_chain: hash_chain alink lb_hash "\<lambda>b. block_body (lb_json b)"
proof unfold_locales
  fix p n b p' n' b'
  assume "alink p n b" "alink p' n' b'" "block_body (lb_json b) = block_body (lb_json b')"
  then show "p = p' \<and> n = n'" unfolding alink_ledger_link by (rule chain.link_body)
qed

lemma audit_loop_iff:
  "audit_loop p n items = Inr () \<longleftrightarrow>
     (\<exists>bs. map block items = map Some bs \<and> chained alink lb_hash p n bs)"
proof (induction items arbitrary: p n)
  case Nil
  then show ?case by simp
next
  case (Cons item items)
  show ?case
  proof (cases "block item")
    case None
    then show ?thesis by (auto simp: Cons_eq_map_conv)
  next
    case (Some b)
    have "audit_loop p n (item # items) = Inr () \<longleftrightarrow> alink p n b \<and> audit_loop (lb_hash b) (n + 1) items = Inr ()"
      using Some by (auto simp: alink_def)
    also have "\<dots> \<longleftrightarrow> (\<exists>bs. map block (item # items) = map Some bs \<and> chained alink lb_hash p n bs)"
    proof
      assume "alink p n b \<and> audit_loop (lb_hash b) (n + 1) items = Inr ()"
      with Cons.IH obtain bs where "map block items = map Some bs" "chained alink lb_hash (lb_hash b) (n + 1) bs"
        "alink p n b" by blast
      with Some show "\<exists>bs. map block (item # items) = map Some bs \<and> chained alink lb_hash p n bs"
        by (intro exI [of _ "b # bs"]) simp
    next
      assume "\<exists>bs. map block (item # items) = map Some bs \<and> chained alink lb_hash p n bs"
      then obtain bs where bs: "map block (item # items) = map Some bs" "chained alink lb_hash p n bs" by blast
      with Some obtain bs' where "bs = b # bs'" by (cases bs) auto
      with bs Cons.IH show "alink p n b \<and> audit_loop (lb_hash b) (n + 1) items = Inr ()" by auto
    qed
    finally show ?thesis .
  qed
qed

text \<open>A line the audit accepts is a block the ledger verifier accepts.\<close>

lemma coerce_fields:
  assumes "coerce_block (JObj d) = Some b"
  shows "jget d ''index'' = JInt (lb_index b)" "jget d ''ts_utc'' = JStr (lb_ts b)"
    "jget d ''execution_token'' = JStr (lb_token b)" "jget d ''prev_hash'' = JStr (lb_prev b)"
    "jget d ''payload'' = lb_payload b" "jget d ''hash'' = JStr (lb_hash b)"
    "jget d ''signature'' = JStr (lb_sig b)"
  using assms
  by (auto simp: coerce_block_def split: option.splits if_splits elim!: as_int.elims as_str.elims)

lemma coerce_link:
  assumes "coerce_block (JObj d) = Some b" and "alink p n b"
  shows "ledger_link p n d" and "block_hash d = lb_hash b"
proof -
  have "block_header d = block_header (lb_json b)"
    using coerce_fields [OF assms(1)] by (simp add: block_header_def lb_json_def)
  moreover from this show "block_hash d = lb_hash b"
    using alink_hash [OF assms(2)] by (simp add: block_hash_def)
  ultimately show "ledger_link p n d"
    using assms(2) coerce_fields [OF assms(1)]
    unfolding alink_ledger_link ledger_link_iff block_hash_def jget_lb_json by auto
qed

lemma parse_line_block:
  assumes "block (parse_line (i, r)) = Some b"
  shows "\<exists>d. line_obj r = Some d \<and> coerce_block (JObj d) = Some b"
  using assms
  by (auto simp: parse_line_def line_obj_def coerce_block_def Let_def split: if_splits option.splits jval.splits)

lemma audit_lines:
  assumes "map block (map parse_line (zip ns ls)) = map Some bs" and "length ns = length ls"
    and "chained alink lb_hash p n bs"
  shows "chained ledger_link block_hash p n (List.map_filter line_obj ls)"
  using assms
proof (induction ls arbitrary: ns bs p n)
  case Nil
  then show ?case by (simp add: List.map_filter_simps)
next
  case (Cons l ls)
  then obtain i ns' where ns: "ns = i # ns'" by (cases ns) auto
  with Cons.prems(1) obtain b bs' where bs: "bs = b # bs'" by (cases bs) auto
  with Cons.prems(1) ns parse_line_block obtain d where d: "line_obj l = Some d" "coerce_block (JObj d) = Some b"
    by fastforce
  from Cons.prems ns bs have "alink p n b" by simp
  note link = coerce_link [OF d(2) this]
  from Cons.IH [of ns' bs' "lb_hash b" "n + 1"] Cons.prems ns bs link d show ?case
    by (simp add: List.map_filter_simps)
qed

lemma audit_verifies:
  assumes "audit_loop genesis_prev 0 (iter_parsed_lines t) = Inr ()"
  shows "verify_ledger_blocks (jsonl_objs t) = Inr (jsonl_objs t)"
proof -
  from assms obtain bs where bs: "map block (iter_parsed_lines t) = map Some bs"
    "chained alink lb_hash genesis_prev 0 bs"
    by (auto simp: audit_loop_iff)
  have "length [1..<Suc (length (splitlines t))] = length (splitlines t)"
    unfolding length_upt by simp
  from audit_lines [OF bs(1) [unfolded iter_parsed_lines_def] this bs(2)]
  have "chained ledger_link block_hash genesis_prev 0 (List.map_filter line_obj (splitlines t))" .
  then show ?thesis by (simp add: verify_ledger_iff jsonl_objs_def)
qed

section \<open>Reading back the rewritten ledger\<close>

definition lb_ok :: "lblock \<Rightarrow> bool" where
  "lb_ok b \<longleftrightarrow> lb_ts b \<noteq> [] \<and> lb_token b \<noteq> [] \<and> looks_like_hash (lb_prev b) 64 \<and>
     looks_like_hash (lb_hash b) 64 \<and> looks_like_hash (lb_sig b) 8"

lemma coerce_ok: "coerce_block v = Some b \<Longrightarrow> lb_ok b"
  by (auto simp: coerce_block_def lb_ok_def split: option.splits if_splits jval.splits
      elim!: as_int.elims as_str.elims)

lemma wf_dict_lb_json: "wf_dict (lb_json b)"
  by (simp add: lb_json_def wf_dict_def)

lemma looks_like_hash_empty [simp]: "looks_like_hash [] n \<longleftrightarrow> n = 0"
  by (auto simp: looks_like_hash_iff)

lemma coerce_canon:
  assumes "lb_ok b"
  shows "coerce_block (JObj (canon_dict (lb_json b))) = Some (b\<lparr>lb_payload := canon (lb_payload b)\<rparr>)"
proof -
  have f: "jget (canon_dict (lb_json b)) k = canon (jget (lb_json b) k)" for k
    by (rule jget_canon [OF wf_dict_lb_json])
  from assms show ?thesis
    unfolding coerce_block_def by (auto simp: f jget_lb_json lb_ok_def)
qed

lemma consistent_canon:
  "block_is_self_consistent (b\<lparr>lb_payload := canon (lb_payload b)\<rparr>) = block_is_self_consistent b"
proof -
  have "dumps (JObj (header_of i t k p (canon v))) = dumps (JObj (header_of i t k p v))"
    "dumps (JObj (dput ''hash'' h (header_of i t k p (canon v)))) =
     dumps (JObj (dput ''hash'' h (header_of i t k p v)))" for i t k p v h
    by (simp_all add: header_of_def py_simps insort_key.simps sort_key_def)
  then show ?thesis
    by (simp add: block_is_self_consistent_def Let_def compute_block_hash_def compute_block_signature_def
        canonical_json_def del: dumps.simps)
qed

lemma log_unlines: "foldl append_jsonl f ds = f @ unlines (map (\<lambda>d. canonical_json (JObj d)) ds)"
  by (induction ds arbitrary: f) (simp_all add: append_jsonl_def)

lemma splitlines_log:
  assumes "\<forall>d \<in> set ds. line_record d"
  shows "splitlines (foldl append_jsonl [] ds) = map (\<lambda>d. canonical_json (JObj d)) ds"
proof -
  have "splitlines (unlines (map (\<lambda>d. canonical_json (JObj d)) ds)) = map (\<lambda>d. canonical_json (JObj d)) ds"
  proof (rule splitlines_unlines, clarsimp)
    fix d assume "d \<in> set ds"
    then have "one_line (dumps (JObj d))" using assms unfolding line_record_def by (blast intro: one_line_dumps)
    moreover have "dumps (JObj d) \<noteq> [] \<and> \<not> is_cont (hd (dumps (JObj d)))" by (simp add: is_cont_def)
    ultimately show "one_line (canonical_json (JObj d)) \<and> canonical_json (JObj d) \<noteq> [] \<and>
        \<not> is_cont (hd (canonical_json (JObj d)))"
      by (simp add: canonical_json_def)
  qed
  then show ?thesis by (simp add: log_unlines)
qed

lemma parse_line_record:
  assumes "line_record (lb_json b)" and "lb_ok b"
  shows "block (parse_line (i, canonical_json (JObj (lb_json b)))) = Some (b\<lparr>lb_payload := canon (lb_payload b)\<rparr>)"
proof -
  have "strip (canonical_json (JObj (lb_json b))) = canonical_json (JObj (lb_json b))"
    unfolding canonical_json_def by (rule strip_dumps_obj)
  moreover have "canonical_json (JObj (lb_json b)) \<noteq> []" by (simp add: canonical_json_def)
  moreover have "loads (canonical_json (JObj (lb_json b))) = Some (JObj (canon_dict (lb_json b)))"
    using loads_dumps [of "JObj (lb_json b)"] assms(1)
    by (simp add: line_record_def canonical_json_def canon_JObj del: wf_json.simps canon.simps dumps.simps)
  ultimately show ?thesis
    by (simp add: parse_line_def Let_def coerce_canon [OF assms(2)])
qed

lemma parsed_rewritten:
  assumes "\<forall>b \<in> set bs. line_record (lb_json b) \<and> lb_ok b"
  shows "map block (iter_parsed_lines (atomic_rewrite_ledger bs)) =
    map Some (map (\<lambda>b. b\<lparr>lb_payload := canon (lb_payload b)\<rparr>) bs)"
proof -
  let ?c = "\<lambda>b. b\<lparr>lb_payload := canon (lb_payload b)\<rparr>"
  have ls: "splitlines (atomic_rewrite_ledger bs) = map (\<lambda>b. canonical_json (JObj (lb_json b))) bs"
    using assms splitlines_log [of "map lb_json bs"] by (simp add: atomic_rewrite_ledger_def comp_def)
  have "map block (map parse_line (zip ns (map (\<lambda>b. canonical_json (JObj (lb_json b))) bs))) = map Some (map ?c bs)"
    if "length ns = length bs" for ns :: "nat list"
    using that assms
  proof (induction bs arbitrary: ns)
    case (Cons b bs)
    then obtain i ns' where "ns = i # ns'" by (cases ns) auto
    with Cons parse_line_record show ?case by simp
  qed simp
  then show ?thesis
    unfolding iter_parsed_lines_def ls by (simp del: upt_Suc map_map)
qed

lemma audit_rewritten:
  assumes "\<forall>b \<in> set bs. line_record (lb_json b) \<and> lb_ok b" and "chained alink lb_hash genesis_prev 0 bs"
  shows "audit_loop genesis_prev 0 (iter_parsed_lines (atomic_rewrite_ledger bs)) = Inr ()"
proof -
  have "chained alink lb_hash p n (map (\<lambda>b. b\<lparr>lb_payload := canon (lb_payload b)\<rparr>) bs)"
    if "chained alink lb_hash p n bs" for p n
    using that by (induction bs arbitrary: p n) (auto simp: alink_def consistent_canon)
  with assms(2) parsed_rewritten [OF assms(1)] show ?thesis unfolding audit_loop_iff by blast
qed

section \<open>Resolution\<close>

lemma valid_of_line: "valid_of item = Some v \<Longrightarrow> v_line v = line_no item \<and> block item = Some (v_block v) \<and>
    block_is_self_consistent (v_block v)"
  by (auto simp: valid_of_def split: option.splits if_splits)

lemma distinct_valid_lines:
  assumes "distinct (map line_no items)"
  shows "distinct (map v_line (valid_blocks items))"
  using assms
proof (induction items)
  case (Cons item items)
  have "v_line v \<in> line_no ` set items" if "v \<in> set (valid_blocks items)" for v
    using that valid_of_line by (force simp: valid_blocks_def in_map_filter)
  with Cons show ?case
    by (auto simp: valid_blocks_def List.map_filter_simps dest: valid_of_line split: option.splits)
qed (simp add: valid_blocks_def List.map_filter_simps)

lemma line_no_parse [simp]: "line_no (parse_line (i, r)) = i"
  by (simp add: parse_line_def Let_def split: option.splits)

lemma distinct_parsed_lines: "distinct (map line_no (iter_parsed_lines t))"
proof -
  have "map line_no (map parse_line (zip ns ls)) = take (length ls) ns" for ns :: "nat list" and ls
    by (induction ls arbitrary: ns) (simp, case_tac ns, simp_all)
  then show ?thesis unfolding iter_parsed_lines_def by simp
qed

lemma valid_in_file:
  assumes "v \<in> set (valid_blocks (iter_parsed_lines t))"
  shows "\<exists>item \<in> set (iter_parsed_lines t). block item = Some (v_block v)" and "lb_ok (v_block v)"
    and "block_is_self_consistent (v_block v)"
proof -
  from assms obtain item where item: "item \<in> set (iter_parsed_lines t)" "valid_of item = Some v"
    by (auto simp: valid_blocks_def in_map_filter)
  then show "\<exists>item \<in> set (iter_parsed_lines t). block item = Some (v_block v)"
    and "block_is_self_consistent (v_block v)"
    using valid_of_line by blast+
  from item obtain ir where "item = parse_line ir" by (auto simp: iter_parsed_lines_def simp del: upt_Suc)
  then show "lb_ok (v_block v)"
    using valid_of_line [OF item(2)] parse_line_block coerce_ok by (metis surj_pair)
qed

lemma linear_alink:
  assumes "chained vlink v_hash p n vs" and "\<forall>v \<in> set vs. block_is_self_consistent (v_block v)"
  shows "chained alink lb_hash p n (map v_block vs)"
  using assms by (induction vs arbitrary: p n) (auto simp: vlink_def alink_def v_index_def v_prev_def v_hash_def)

lemma reconciliation_link:
  "alink prev next (build_reconciliation_block ts prev next token summary)"
  by (simp add: alink_def build_reconciliation_block_def block_is_self_consistent_def Let_def)

definition summary_of :: "string \<Rightarrow> valid_block list \<Rightarrow> nat \<Rightarrow> int option \<Rightarrow> jdict" where
  "summary_of path chosen pruned fork =
     [(''ledger'', JStr path), (''chosen_tip_hash'', JStr (v_hash (last chosen))),
      (''chosen_blocks'', JInt (int (length chosen))), (''pruned_lines'', JInt (int pruned)),
      (''fork_point_index'', opt_int fork)]"

lemma text_ok_more_keys [simp]:
  "text_ok ''kind''" "text_ok ''CONSENSUS_RECONCILIATION_COMPLETE''" "text_ok ''ledger''"
  "text_ok ''chosen_tip_hash''" "text_ok ''chosen_blocks''" "text_ok ''pruned_lines''"
  "text_ok ''fork_point_index''" "text_ok ''event''" "text_ok ''ORPHANED_LEDGER_LINE''"
  "text_ok ''ledger_path''" "text_ok ''line_no''" "text_ok ''reason''" "text_ok ''block''" "text_ok ''raw''"
  by (rule text_ok_ascii; simp add: is_cont_def)+

lemma text_ok_hash: "looks_like_hash s n \<Longrightarrow> text_ok s"
  by (simp add: looks_like_hash_iff text_ok_hex)

lemma reconciliation_record:
  assumes "text_ok path" and "text_ok ts" and "text_ok token" and "looks_like_hash prev 64"
    and "looks_like_hash (v_hash (last chosen)) 64" and "ts \<noteq> []" and "token \<noteq> []"
  shows "line_record (lb_json (build_reconciliation_block ts prev next token (summary_of path chosen pruned fork)))"
    and "lb_ok (build_reconciliation_block ts prev next token (summary_of path chosen pruned fork))"
proof -
  let ?b = "build_reconciliation_block ts prev next token (summary_of path chosen pruned fork)"
  show "line_record (lb_json ?b)"
    using assms text_ok_hash
    by (auto simp: line_record_def lb_json_def build_reconciliation_block_def Let_def summary_of_def
        dupdate_def py_simps opt_int_def split: option.splits)
  show "lb_ok ?b"
    using assms by (simp add: lb_ok_def build_reconciliation_block_def Let_def compute_block_hash_def
        compute_block_signature_def looks_like_hash_sha256 looks_like_hash_fnv)
qed

lemma resolve_fork_cases:
  assumes "resolve_fork clock path a = Inr (r, a')"
  obtains t chosen fork cands pruned where "ledger_text a = Some t"
    "best_chain (valid_blocks (iter_parsed_lines t)) = (chosen, fork, cands)" "chosen \<noteq> []"
    "pruned = snd (write_orphaned clock path (iter_parsed_lines t) (map v_hash chosen) (orphaned_text a))"
    "ledger_text a' = Some (atomic_rewrite_ledger (map v_block chosen @
       [build_reconciliation_block (clock pruned) (v_hash (last chosen)) (v_index (last chosen) + 1)
          (lb_token (v_block (last chosen))) (summary_of path chosen pruned fork)]))"
    "orphaned_text a' = fst (write_orphaned clock path (iter_parsed_lines t) (map v_hash chosen) (orphaned_text a))"
    "chosen_blocks r = length chosen" "chosen_tip_hash r = v_hash (last chosen)" "pruned_lines r = pruned"
  using assms
  by (auto simp: resolve_fork_def choose_chain_def commit_chain_def Let_def res_bind_Inr_iff summary_of_def
      split: option.splits if_splits prod.splits)

lemma resolve_fork_audit:
  assumes "resolve_fork clock path a = Inr (r, a')" and "ledger_text a = Some t"
    and "\<forall>item \<in> set (iter_parsed_lines t). \<forall>b. block item = Some b \<longrightarrow> line_record (lb_json b)"
    and "text_ok path" and "\<forall>k. text_ok (clock k) \<and> clock k \<noteq> []"
  shows "audit_or_raise a' = Inr ()"
  using assms(1)
proof (rule resolve_fork_cases)
  fix t' chosen fork cands pruned
  assume t': "ledger_text a = Some t'" and bc: "best_chain (valid_blocks (iter_parsed_lines t')) = (chosen, fork, cands)"
    and ne: "chosen \<noteq> []"
    and new: "ledger_text a' = Some (atomic_rewrite_ledger (map v_block chosen @
       [build_reconciliation_block (clock pruned) (v_hash (last chosen)) (v_index (last chosen) + 1)
          (lb_token (v_block (last chosen))) (summary_of path chosen pruned fork)]))"
  let ?rec = "build_reconciliation_block (clock pruned) (v_hash (last chosen)) (v_index (last chosen) + 1)
          (lb_token (v_block (last chosen))) (summary_of path chosen pruned fork)"
  have t: "t' = t" using t' assms(2) by simp
  have spec: "linear chosen" "set chosen \<subseteq> set (valid_blocks (iter_parsed_lines t))"
    using best_chain_spec(1,2) [OF bc [unfolded t] distinct_valid_lines [OF distinct_parsed_lines]] by blast+
  have ok: "line_record (lb_json (v_block v)) \<and> lb_ok (v_block v) \<and> block_is_self_consistent (v_block v)"
    if "v \<in> set chosen" for v
    using valid_in_file [of v t] that spec(2) assms(3) by blast
  obtain cs c where chosen: "chosen = cs @ [c]" using ne by (cases chosen rule: rev_cases) auto
  have c: "line_record (lb_json (v_block c))" "lb_ok (v_block c)" using ok chosen by auto
  then have tok: "text_ok (lb_token (v_block c))" by (simp add: line_record_def lb_json_def)
  have rec: "line_record (lb_json ?rec) \<and> lb_ok ?rec"
    using c tok assms(4,5) chosen reconciliation_record [of path "clock pruned" "lb_token (v_block c)" "v_hash c" chosen]
    by (simp add: lb_ok_def v_hash_def)
  have "chained alink lb_hash genesis_prev 0 (map v_block chosen)"
    using spec(1) ok by (intro linear_alink) auto
  moreover have "alink (lb_hash (v_block c)) (int (length chosen)) ?rec"
    using reconciliation_link spec(1) linear_snoc [of cs c] chosen by (simp add: v_hash_def add.commute)
  ultimately have "chained alink lb_hash genesis_prev 0 (map v_block chosen @ [?rec])"
    using chosen by (simp add: audit_chain.chained_append add.commute)
  then have "audit_loop genesis_prev 0 (iter_parsed_lines (atomic_rewrite_ledger (map v_block chosen @ [?rec]))) = Inr ()"
    using ok rec by (intro audit_rewritten) auto
  with new show ?thesis by (simp add: audit_or_raise_def)
qed

text \<open>Resolution succeeds exactly when the file holds a valid genesis block.\<close>

lemma resolve_fork_iff:
  assumes "ledger_text a = Some t"
  shows "(\<exists>r a'. resolve_fork clock path a = Inr (r, a')) \<longleftrightarrow>
    (\<exists>v \<in> set (valid_blocks (iter_parsed_lines t)). v_index v = 0 \<and> v_prev v = genesis_prev)"
proof -
  let ?vs = "valid_blocks (iter_parsed_lines t)"
  obtain chosen fork cands where bc: "best_chain ?vs = (chosen, fork, cands)" by (metis prod_cases3)
  note spec = best_chain_spec [OF bc distinct_valid_lines [OF distinct_parsed_lines]]
  have "(\<exists>r a'. resolve_fork clock path a = Inr (r, a')) \<longleftrightarrow> chosen \<noteq> []"
  proof (cases "?vs = []")
    case True
    with bc have "chosen = []" by (simp add: best_chain_def)
    with True assms show ?thesis by (simp add: resolve_fork_def choose_chain_def)
  next
    case False
    have "\<exists>r a'. commit_chain clock path (iter_parsed_lines t) chosen fork x = (r, a')" for x
      by (metis surj_pair)
    with False assms bc show ?thesis by (simp add: resolve_fork_def choose_chain_def)
  qed
  also have "chosen \<noteq> [] \<longleftrightarrow> (\<exists>v \<in> set ?vs. v_index v = 0 \<and> v_prev v = genesis_prev)"
  proof
    assume "chosen \<noteq> []"
    with spec(1,2) show "\<exists>v \<in> set ?vs. v_index v = 0 \<and> v_prev v = genesis_prev"
      by (cases chosen) (auto simp: vlink_def)
  next
    assume "\<exists>v \<in> set ?vs. v_index v = 0 \<and> v_prev v = genesis_prev"
    then obtain v where "v \<in> set ?vs" "linear [v]" by (auto simp: vlink_def)
    with spec(3) [of "[v]"] show "chosen \<noteq> []" by auto
  qed
  finally show ?thesis .
qed

section \<open>The orphan log\<close>

definition orphan_records :: "(nat \<Rightarrow> string) \<Rightarrow> string \<Rightarrow> parsed_line list \<Rightarrow> nat \<Rightarrow> jdict list" where
  "orphan_records clock path items k =
     map (\<lambda>(i, item). orphan_record (clock i) path item) (zip [k..<k + length items] items)"

lemma write_orphaned_eq:
  "write_orphaned clock path parsed hs f =
     (let out = filter (\<lambda>item. \<not> kept hs item) parsed
      in (foldl append_jsonl f (orphan_records clock path out 0), length out))"
proof -
  have "foldl (\<lambda>(f, pruned) item. if kept hs item then (f, pruned)
        else (append_jsonl f (orphan_record (clock pruned) path item), pruned + 1)) (f, k) parsed =
      (foldl append_jsonl f (orphan_records clock path (filter (\<lambda>item. \<not> kept hs item) parsed) k),
       k + length (filter (\<lambda>item. \<not> kept hs item) parsed))" for k
  proof (induction parsed arbitrary: f k)
    case Nil
    then show ?case by (simp add: orphan_records_def)
  next
    case (Cons item parsed)
    have "orphan_records clock path (x # xs) k = orphan_record (clock k) path x # orphan_records clock path xs (Suc k)"
      for x xs
      by (simp add: orphan_records_def upt_conv_Cons del: upt_Suc)
    with Cons show ?case by simp
  qed
  then show ?thesis by (simp add: write_orphaned_def Let_def)
qed

lemma orphan_record_line:
  assumes "text_ok ts" and "text_ok path" and "case block item of Some b \<Rightarrow> line_record (lb_json b) | None \<Rightarrow> text_ok (raw item)"
    and "case parse_error item of Some e \<Rightarrow> text_ok e | None \<Rightarrow> True"
  shows "line_record (orphan_record ts path item)"
proof -
  have "text_ok ''fork_pruned''" by (rule text_ok_ascii) (simp add: is_cont_def)
  with assms show ?thesis
    by (auto simp: line_record_def orphan_record_def split: option.splits)
qed

section \<open>Properties\<close>

text \<open>C15: longest-chain rule. The chain \<open>_best_chain\<close> returns is a linear chain of blocks of
  the file from the genesis hash, no linear chain of the file's blocks is longer, and every
  candidate it reports is a linear chain of the same length.\<close>

theorem best_chain_longest:
  assumes "distinct (map v_line blocks)" and "best_chain blocks = (chosen, fork, cands)"
  shows "linear chosen \<and> set chosen \<subseteq> set blocks \<and>
    (\<forall>cs. linear cs \<and> set cs \<subseteq> set blocks \<longrightarrow> length cs \<le> length chosen) \<and>
    (\<forall>c \<in> set cands. linear c \<and> set c \<subseteq> set blocks \<and> length c = length chosen)"
  using best_chain_spec [OF assms(2,1)] by blast

definition demo_block :: "nat \<Rightarrow> int \<Rightarrow> string \<Rightarrow> string \<Rightarrow> valid_block" where
  "demo_block n i p h =
     \<lparr>v_line = n, v_block = \<lparr>lb_index = i, lb_ts = ''t'', lb_token = ''k'', lb_prev = p, lb_payload = JNull,
        lb_hash = h, lb_sig = ''0''\<rparr>, v_kind = ''UNKNOWN'', v_sig = 0\<rparr>"

theorem best_chain_longest_witness:
  "let blocks = [demo_block 1 0 genesis_prev ''a'', demo_block 2 1 ''a'' ''b'', demo_block 3 1 ''a'' ''c'',
       demo_block 4 2 ''c'' ''d'']
   in length (fst (best_chain blocks)) \<ge> 3"
proof -
  let ?blocks = "[demo_block 1 0 genesis_prev ''a'', demo_block 2 1 ''a'' ''b'', demo_block 3 1 ''a'' ''c'',
       demo_block 4 2 ''c'' ''d'']"
  let ?cs = "[demo_block 1 0 genesis_prev ''a'', demo_block 3 1 ''a'' ''c'', demo_block 4 2 ''c'' ''d'']"
  obtain chosen fork cands where bc: "best_chain ?blocks = (chosen, fork, cands)"
    by (metis prod_cases3)
  have "distinct (map v_line ?blocks)" by (simp add: demo_block_def)
  from best_chain_longest [OF this bc, THEN conjunct2, THEN conjunct2, THEN conjunct1, THEN spec, of ?cs]
  have "linear ?cs \<and> set ?cs \<subseteq> set ?blocks \<longrightarrow> length ?cs \<le> length chosen" .
  moreover have "linear ?cs"
    by (simp add: vlink_def demo_block_def v_index_def v_prev_def v_hash_def)
  moreover have "set ?cs \<subseteq> set ?blocks" by simp
  ultimately have "length ?cs \<le> length chosen" by blast
  with bc show ?thesis by simp
qed

text \<open>the audit accepts a ledger exactly when every line is a block and the blocks are a
  self-consistent chain from the genesis hash; and then the ledger verifier accepts it too.\<close>

theorem audit_sound_complete:
  "(audit_or_raise a = Inr () \<longleftrightarrow>
      (case ledger_text a of
         None \<Rightarrow> True
       | Some t \<Rightarrow> \<exists>bs. map block (iter_parsed_lines t) = map Some bs \<and> chained alink lb_hash genesis_prev 0 bs)) \<and>
   (audit_or_raise a = Inr () \<longrightarrow>
      verify_ledger_blocks (iter_ledger_blocks (ledger_text a)) = Inr (iter_ledger_blocks (ledger_text a)))"
  using audit_verifies
  by (auto simp: audit_or_raise_def audit_loop_iff iter_ledger_blocks_def verify_ledger_iff split: option.splits)


definition demo_genesis :: lblock where
  "demo_genesis = build_reconciliation_block ''t0'' genesis_prev 0 ''tok'' []"

lemma demo_genesis_ok:
  "line_record (lb_json demo_genesis)" "lb_ok demo_genesis" "block_is_self_consistent demo_genesis"
  "canon (lb_payload demo_genesis) = lb_payload demo_genesis" "lb_index demo_genesis = 0"
  "lb_prev demo_genesis = genesis_prev"
proof -
  have tok: "text_ok ''t0''" "text_ok ''tok''" by (rule text_ok_ascii; simp add: is_cont_def)+
  have "looks_like_hash genesis_prev 64"
    by (simp add: looks_like_hash_iff genesis_prev_def hex_alphabet_def)
  then show "lb_ok demo_genesis"
    by (simp add: lb_ok_def demo_genesis_def build_reconciliation_block_def Let_def compute_block_hash_def
        compute_block_signature_def looks_like_hash_sha256 looks_like_hash_fnv)
  show "line_record (lb_json demo_genesis)"
    using tok text_ok_genesis by (simp add: line_record_def lb_json_def demo_genesis_def build_reconciliation_block_def
        Let_def dupdate_def)
  show "block_is_self_consistent demo_genesis" "lb_index demo_genesis = 0" "lb_prev demo_genesis = genesis_prev"
    using reconciliation_link unfolding alink_def demo_genesis_def by blast+
  show "canon (lb_payload demo_genesis) = lb_payload demo_genesis"
    by (simp add: demo_genesis_def build_reconciliation_block_def Let_def dupdate_def)
qed


theorem audit_sound_complete_witness:
  "verify_ledger_blocks (iter_ledger_blocks (Some (atomic_rewrite_ledger [demo_genesis]))) =
    Inr (iter_ledger_blocks (Some (atomic_rewrite_ledger [demo_genesis])))"
proof -
  let ?a = "\<lparr>ledger_text = Some (atomic_rewrite_ledger [demo_genesis]), orphaned_text = [], last_candidates = []\<rparr>"
  have "audit_or_raise ?a = Inr ()"
    using audit_rewritten [of "[demo_genesis]"] demo_genesis_ok by (simp add: audit_or_raise_def alink_def)
  with audit_sound_complete [of ?a] show ?thesis by simp
qed

text \<open>no line is lost. Every line whose hash is not among the chosen ones is appended to the
  orphan log as one record, in file order, and the count of pruned lines is their number.\<close>

theorem orphan_log_complete:
  assumes "at_line_end f"
    and "\<forall>d \<in> set (orphan_records clock path (filter (\<lambda>item. \<not> kept hs item) parsed) 0). line_record d"
  shows "snd (write_orphaned clock path parsed hs f) = length (filter (\<lambda>item. \<not> kept hs item) parsed) \<and>
    jsonl_objs (fst (write_orphaned clock path parsed hs f)) =
      jsonl_objs f @ map canon_dict (orphan_records clock path (filter (\<lambda>item. \<not> kept hs item) parsed) 0)"
  using assms by (simp add: write_orphaned_eq Let_def jsonl.read_fold)

theorem orphan_log_complete_witness:
  "jsonl_objs (fst (write_orphaned (\<lambda>_. ''t'') ''L'' [\<lparr>line_no = 1, raw = ''x'', block = None, parse_error = Some ''e''\<rparr>] [] [])) =
    [canon_dict (orphan_record ''t'' ''L'' \<lparr>line_no = 1, raw = ''x'', block = None, parse_error = Some ''e''\<rparr>)]"
proof -
  have tok: "text_ok ''t''" "text_ok ''L''" "text_ok ''x''" "text_ok ''e''"
    by (rule text_ok_ascii; simp add: is_cont_def)+
  then have "line_record (orphan_record ''t'' ''L'' \<lparr>line_no = 1, raw = ''x'', block = None, parse_error = Some ''e''\<rparr>)"
    by (intro orphan_record_line) simp_all
  then show ?thesis
    using orphan_log_complete [of "[]" "\<lambda>_. ''t''" "''L''" "[]"
        "[\<lparr>line_no = 1, raw = ''x'', block = None, parse_error = Some ''e''\<rparr>]"]
    by (simp add: kept_def orphan_records_def at_line_end_def jsonl.read_empty)
qed

text \<open>a corrupt copy of a chosen block is dropped without a trace. A line that carries the
  hash of a chosen block with another payload is not in the chain and not in the orphan log.\<close>

theorem corrupt_copy_dropped:
  "write_orphaned clock path
     [\<lparr>line_no = 1, raw = r1, block = Some b, parse_error = None\<rparr>,
      \<lparr>line_no = 2, raw = r2, block = Some (b\<lparr>lb_payload := other\<rparr>), parse_error = None\<rparr>] [lb_hash b] f = (f, 0)"
  by (simp add: write_orphaned_def kept_def)

end
