(* ===== verification/Fault.thy ===== *)
theory Fault
  imports Schema
begin

text \<open>
  \<^verbatim>\<open>core/fault.py\<close>: the structural difference of two JSON values and the
  snapshots written when a pipeline halts or a quorum dissents. A snapshot is modelled by the
  JSON value that is written. The lemmas show that the difference is bounded by its limit and
  empty exactly when the values agree.
\<close>

section \<open>Structural difference\<close>

fun type_name :: "jval \<Rightarrow> string" where
  "type_name JNull = ''NoneType''"
| "type_name (JBool b) = ''bool''"
| "type_name (JInt i) = ''int''"
| "type_name (JFloat f) = ''float''"
| "type_name (JStr s) = ''str''"
| "type_name (JArr xs) = ''list''"
| "type_name (JObj d) = ''dict''"

text \<open>\<^verbatim>\<open>a != b\<close> on scalars of one type: NaN differs from itself, the zeros agree.\<close>

definition flt_eq :: "flt \<Rightarrow> flt \<Rightarrow> bool" where
  "flt_eq f g \<longleftrightarrow>
     (case (flt_val f, flt_val g) of
        (Some x, Some y) \<Rightarrow> x = y
      | (None, None) \<Rightarrow> f = g \<and> f \<noteq> ''NaN''
      | _ \<Rightarrow> False)"

fun scalar_eq :: "jval \<Rightarrow> jval \<Rightarrow> bool" where
  "scalar_eq (JFloat f) (JFloat g) = flt_eq f g"
| "scalar_eq a b = (a = b)"

definition diff_entry :: "string \<Rightarrow> string \<Rightarrow> jval \<Rightarrow> jval \<Rightarrow> jdict" where
  "diff_entry kind p a b =
     [(''path'', JStr p), (''kind'', JStr kind), (''observed'', a), (''expected'', b)]"

definition push_diff :: "nat \<Rightarrow> string \<Rightarrow> string \<Rightarrow> jval \<Rightarrow> jval \<Rightarrow> jdict list \<Rightarrow> jdict list" where
  "push_diff limit kind p a b acc =
     (if length acc \<ge> limit then acc else acc @ [diff_entry kind p a b])"

definition keys_only :: "jdict \<Rightarrow> jdict \<Rightarrow> string list" where
  "keys_only x y = sort (filter (\<lambda>k. \<not> dhas y k) (remdups (dkeys x)))"

definition keys_both :: "jdict \<Rightarrow> jdict \<Rightarrow> string list" where
  "keys_both x y = sort (filter (\<lambda>k. dhas y k) (remdups (dkeys x)))"

lemma keys_both_dget: "k \<in> set (keys_both x y) \<Longrightarrow> \<exists>v. dget x k = Some v"
  by (auto simp: keys_both_def dkeys_def) (metis dget_None_iff image_eqI not_None_eq set_map fst_conv)

lemma size_jget: "k \<in> set (keys_both x y) \<Longrightarrow> size (jget x k) < size (JObj x)"
  using keys_both_dget size_dget by (fastforce simp: jget_def)

lemma size_zip_elem: "(i, v, w) \<in> set (zip ns (zip xs ys)) \<Longrightarrow> size v < size (JArr xs)"
proof -
  assume "(i, v, w) \<in> set (zip ns (zip xs ys))"
  then have "v \<in> set xs" by (meson set_zip_leftD set_zip_rightD)
  from size_arr_elem [OF this] show ?thesis by simp
qed

function diff_walk :: "nat \<Rightarrow> jdict list \<Rightarrow> jval \<Rightarrow> jval \<Rightarrow> string \<Rightarrow> jdict list" where
  "diff_walk limit acc a b p =
     (if length acc \<ge> limit then acc
      else if type_name a \<noteq> type_name b
      then push_diff limit ''type_mismatch'' p (JStr (type_name a)) (JStr (type_name b)) acc
      else
        (case (a, b) of
           (JObj x, JObj y) \<Rightarrow>
             (let acc1 = foldl (\<lambda>ds k. push_diff limit ''unexpected_key'' (key_path p k) (jget x k) JNull ds)
                             acc (keys_only x y);
                  acc2 = foldl (\<lambda>ds k. push_diff limit ''missing_key'' (key_path p k) JNull (jget y k) ds)
                             acc1 (keys_only y x)
              in foldl (\<lambda>ds k. diff_walk limit ds (jget x k) (jget y k) (key_path p k)) acc2 (keys_both x y))
         | (JArr xs, JArr ys) \<Rightarrow>
             (let acc1 = (if length xs \<noteq> length ys
                            then push_diff limit ''length_mismatch'' p (JInt (int (length xs))) (JInt (int (length ys))) acc
                            else acc)
              in foldl (\<lambda>ds (i, x, y). diff_walk limit ds x y (idx_path p i)) acc1
                   (zip [0..<length xs] (zip xs ys)))
         | _ \<Rightarrow> if scalar_eq a b then acc else push_diff limit ''value_mismatch'' p a b acc))"
  by pat_completeness auto
termination
proof (relation "measure (\<lambda>(_, _, a, _, _). size a)")
qed (force dest: size_jget size_zip_elem)+

declare diff_walk.simps [simp del]

definition diff_json :: "jval \<Rightarrow> jval \<Rightarrow> string \<Rightarrow> nat \<Rightarrow> jdict list" where
  "diff_json observed expected path limit = diff_walk limit [] observed expected path"

section \<open>What the difference decides\<close>

text \<open>Two values agree: the same keys with agreeing members, elementwise, or equal scalars.\<close>

inductive agrees :: "jval \<Rightarrow> jval \<Rightarrow> bool" where
  agrees_obj: "(\<And>k. dhas x k \<longleftrightarrow> dhas y k) \<Longrightarrow> (\<And>k. dhas x k \<Longrightarrow> agrees (jget x k) (jget y k)) \<Longrightarrow>
    agrees (JObj x) (JObj y)"
| agrees_arr: "length xs = length ys \<Longrightarrow> (\<And>i. i < length xs \<Longrightarrow> agrees (xs ! i) (ys ! i)) \<Longrightarrow>
    agrees (JArr xs) (JArr ys)"
| agrees_scalar: "type_name a = type_name b \<Longrightarrow> \<not> is_obj a \<Longrightarrow> \<not> is_arr a \<Longrightarrow> scalar_eq a b \<Longrightarrow> agrees a b"

inductive_cases agrees_objE: "agrees (JObj x) b"
inductive_cases agrees_arrE: "agrees (JArr x) b"
inductive_cases agreesE: "agrees a b"

lemma keys_only_Nil: "keys_only x y = [] \<longleftrightarrow> (\<forall>k. dhas x k \<longrightarrow> dhas y k)"
proof -
  have "set (keys_only x y) = {k. dhas x k \<and> \<not> dhas y k}"
    by (auto simp: keys_only_def dkeys_def dhas_iff)
  then show ?thesis by (metis (mono_tags, lifting) empty_Collect_eq set_empty)
qed

lemma keys_both_set: "k \<in> set (keys_both x y) \<longleftrightarrow> dhas x k \<and> dhas y k"
  by (auto simp: keys_both_def dkeys_def dhas_iff)

lemma foldl_grow:
  assumes "\<And>acc x. x \<in> set xs \<Longrightarrow> \<exists>ds. f acc x = acc @ ds"
  shows "\<exists>ds. foldl f acc xs = acc @ ds"
  using assms
proof (induction xs arbitrary: acc)
  case (Cons x xs)
  then obtain ds where "f acc x = acc @ ds" by (meson list.set_intros(1))
  moreover from Cons obtain es where "foldl f (acc @ ds) xs = (acc @ ds) @ es" by (meson list.set_intros(2))
  ultimately show ?case by simp
qed simp

lemma foldl_same:
  assumes "\<And>acc x. x \<in> set xs \<Longrightarrow> \<exists>ds. f acc x = acc @ ds"
  shows "foldl f acc xs = acc \<longleftrightarrow> (\<forall>x \<in> set xs. f acc x = acc)"
  using assms
proof (induction xs arbitrary: acc)
  case (Cons x xs)
  from Cons.prems obtain ds where ds: "f acc x = acc @ ds" by (meson list.set_intros(1))
  have "\<exists>es. foldl f (f acc x) xs = f acc x @ es"
    using Cons.prems by (intro foldl_grow) simp
  with ds have "foldl f (f acc x) xs = acc \<Longrightarrow> ds = []" by auto
  with ds Cons show ?case by auto
qed simp

text \<open>Two passes that only append leave the list alone exactly when both do.\<close>

lemma grow_comp:
  assumes "\<And>acc. \<exists>ds. f acc = acc @ ds" and "\<And>acc. \<exists>ds. g acc = acc @ ds"
  shows "\<exists>ds. g (f acc) = acc @ ds" and "g (f acc) = acc \<longleftrightarrow> f acc = acc \<and> g acc = acc"
proof -
  obtain ds where ds: "f acc = acc @ ds" using assms(1) by blast
  obtain es where es: "g (f acc) = f acc @ es" using assms(2) by blast
  show "\<exists>ds. g (f acc) = acc @ ds" using ds es by simp
  show "g (f acc) = acc \<longleftrightarrow> f acc = acc \<and> g acc = acc"
  proof
    assume *: "g (f acc) = acc"
    with ds es have "f acc = acc" by simp
    with * show "f acc = acc \<and> g acc = acc" by simp
  qed simp
qed

lemma push_grow: "\<exists>ds. push_diff limit kind p a b acc = acc @ ds"
  by (simp add: push_diff_def)

lemma push_less: "length acc < limit \<Longrightarrow> push_diff limit kind p a b acc \<noteq> acc"
  by (simp add: push_diff_def)

lemma pushes_same:
  assumes "length acc < limit"
  shows "foldl (\<lambda>ds k. push_diff limit s (g k) (h k) (i k) ds) acc ks = acc \<longleftrightarrow> ks = []"
proof -
  have "foldl (\<lambda>ds k. push_diff limit s (g k) (h k) (i k) ds) acc ks = acc \<longleftrightarrow>
      (\<forall>k \<in> set ks. push_diff limit s (g k) (h k) (i k) acc = acc)"
    by (rule foldl_same, rule push_grow)
  with push_less [OF assms] show ?thesis by (cases ks) auto
qed

lemma push_bound: "length acc \<le> limit \<Longrightarrow> length (push_diff limit kind p a b acc) \<le> limit"
  by (simp add: push_diff_def)

text \<open>The branches of the walk below the limit.\<close>

lemma diff_walk_full: "limit \<le> length acc \<Longrightarrow> diff_walk limit acc a b p = acc"
  by (subst diff_walk.simps) simp

lemma diff_walk_type:
  "length acc < limit \<Longrightarrow> type_name a \<noteq> type_name b \<Longrightarrow>
    diff_walk limit acc a b p = acc @ [diff_entry ''type_mismatch'' p (JStr (type_name a)) (JStr (type_name b))]"
  by (subst diff_walk.simps) (simp add: push_diff_def)

lemma diff_walk_obj:
  "length acc < limit \<Longrightarrow> diff_walk limit acc (JObj x) (JObj y) p =
    foldl (\<lambda>ds k. diff_walk limit ds (jget x k) (jget y k) (key_path p k))
      (foldl (\<lambda>ds k. push_diff limit ''missing_key'' (key_path p k) JNull (jget y k) ds)
        (foldl (\<lambda>ds k. push_diff limit ''unexpected_key'' (key_path p k) (jget x k) JNull ds) acc (keys_only x y))
        (keys_only y x)) (keys_both x y)"
  by (subst diff_walk.simps) (simp add: Let_def)

lemma diff_walk_arr:
  "length acc < limit \<Longrightarrow> diff_walk limit acc (JArr xs) (JArr ys) p =
    foldl (\<lambda>ds (i, x, y). diff_walk limit ds x y (idx_path p i))
      (if length xs \<noteq> length ys
       then push_diff limit ''length_mismatch'' p (JInt (int (length xs))) (JInt (int (length ys))) acc else acc)
      (zip [0..<length xs] (zip xs ys))"
  by (subst diff_walk.simps) (simp add: Let_def)

lemma diff_walk_scalar:
  "length acc < limit \<Longrightarrow> type_name a = type_name b \<Longrightarrow> \<not> is_obj a \<Longrightarrow> \<not> is_arr a \<Longrightarrow>
    diff_walk limit acc a b p = (if scalar_eq a b then acc else push_diff limit ''value_mismatch'' p a b acc)"
  by (subst diff_walk.simps) (cases a; simp)

lemma walk_cases:
  obtains "type_name a \<noteq> type_name b" | x y where "a = JObj x" "b = JObj y"
  | xs ys where "a = JArr xs" "b = JArr ys"
  | "type_name a = type_name b" "\<not> is_obj a" "\<not> is_arr a"
  by (cases a; cases b) auto

lemma diff_walk_bound: "length acc \<le> limit \<Longrightarrow> length (diff_walk limit acc a b p) \<le> limit"
proof (induction a arbitrary: acc b p rule: measure_induct_rule [of size])
  case (less a)
  let ?P = "\<lambda>ds :: jdict list. length ds \<le> limit"
  have pushes: "?P (foldl (\<lambda>ds k. push_diff limit s (g k) (h k) (i k) ds) ds ks)"
    if "?P ds" for s g h i ds and ks :: "string list"
    using that by (rule foldl_invariant [where P = ?P]) (rule push_bound)
  show ?case
  proof (cases "limit \<le> length acc")
    case False
    then have lt: "length acc < limit" by simp
    show ?thesis
    proof (cases rule: walk_cases [of a b])
      case (2 x y)
      have "?P (foldl (\<lambda>ds k. diff_walk limit ds (jget x k) (jget y k) (key_path p k)) ds (keys_both x y))" if "?P ds" for ds
        using that by (rule foldl_invariant [where P = ?P]) (rule less.IH; simp add: 2 size_jget [simplified])
      with 2 lt less.prems pushes show ?thesis by (simp add: diff_walk_obj)
    next
      case (3 xs ys)
      have "?P (foldl (\<lambda>ds (i, x, y). diff_walk limit ds x y (idx_path p i)) ds (zip [0..<length xs] (zip xs ys)))"
        if "?P ds" for ds
        using that
        by (rule foldl_invariant [where P = ?P]) (auto simp: 3 intro!: less.IH dest: size_zip_elem [simplified])
      with 3 lt less.prems push_bound show ?thesis by (simp add: diff_walk_arr)
    qed (use lt less.prems push_bound in \<open>simp_all add: diff_walk_type diff_walk_scalar\<close>)
  qed (simp add: diff_walk_full less.prems)
qed

lemma diff_walk_grow: "\<exists>ds. diff_walk limit acc a b p = acc @ ds"
proof (induction a arbitrary: acc b p rule: measure_induct_rule [of size])
  case (less a)
  show ?case
  proof (cases "limit \<le> length acc")
    case False
    then have lt: "length acc < limit" by simp
    show ?thesis
    proof (cases rule: walk_cases [of a b])
      case (2 x y)
      have walk: "\<exists>ds. foldl (\<lambda>ds k. diff_walk limit ds (jget x k) (jget y k) (key_path p k)) acc (keys_both x y) = acc @ ds" for acc
        by (rule foldl_grow, rule less.IH) (simp add: 2 size_jget [simplified])
      have push: "\<exists>ds. foldl (\<lambda>ds k. push_diff limit s (g k) (h k) (i k) ds) acc ks = acc @ ds" for s g h i acc and ks :: "string list"
        by (rule foldl_grow, rule push_grow)
      from 2 lt show ?thesis
        unfolding 2 diff_walk_obj [OF lt]
        by (rule_tac grow_comp(1) [OF grow_comp(1) [OF push push] walk])
    next
      case (3 xs ys)
      have walk: "\<exists>ds. foldl (\<lambda>ds (i, x, y). diff_walk limit ds x y (idx_path p i)) acc (zip [0..<length xs] (zip xs ys)) = acc @ ds" for acc
        by (rule foldl_grow) (auto simp: 3 intro!: less.IH dest: size_zip_elem [simplified])
      obtain es where "(if length xs \<noteq> length ys then push_diff limit ''length_mismatch'' p (JInt (int (length xs)))
          (JInt (int (length ys))) acc else acc) = acc @ es"
        using push_grow by fastforce
      with walk [of "acc @ es"] 3 lt show ?thesis by (auto simp: diff_walk_arr)
    qed (use lt push_grow in \<open>simp_all add: diff_walk_type diff_walk_scalar\<close>)
  qed (simp add: diff_walk_full)
qed

lemma diff_walk_same: "length acc < limit \<Longrightarrow> diff_walk limit acc a b p = acc \<longleftrightarrow> agrees a b"
proof (induction a arbitrary: b p rule: measure_induct_rule [of size])
  case (less a)
  note lt = less.prems
  show ?case
  proof (cases rule: walk_cases [of a b])
    case 1
    then have "\<not> agrees a b" by (auto elim: agreesE)
    with 1 lt show ?thesis by (simp add: diff_walk_type)
  next
    case (2 x y)
    let ?u = "\<lambda>acc. foldl (\<lambda>ds k. push_diff limit ''unexpected_key'' (key_path p k) (jget x k) JNull ds) acc (keys_only x y)"
    let ?m = "\<lambda>acc. foldl (\<lambda>ds k. push_diff limit ''missing_key'' (key_path p k) JNull (jget y k) ds) acc (keys_only y x)"
    let ?w = "\<lambda>acc. foldl (\<lambda>ds k. diff_walk limit ds (jget x k) (jget y k) (key_path p k)) acc (keys_both x y)"
    have grow: "\<exists>ds. ?u acc = acc @ ds" "\<exists>ds. ?m acc = acc @ ds" "\<exists>ds. ?w acc = acc @ ds" for acc
      by (rule foldl_grow, rule push_grow)+ (rule foldl_grow, rule diff_walk_grow)
    have "?w (?m (?u acc)) = acc \<longleftrightarrow> ?m (?u acc) = acc \<and> ?w acc = acc"
      by (rule grow_comp(2) [OF grow_comp(1) [OF grow(1,2)] grow(3)])
    moreover have "?m (?u acc) = acc \<longleftrightarrow> ?u acc = acc \<and> ?m acc = acc"
      by (rule grow_comp(2) [OF grow(1,2)])
    ultimately have "?w (?m (?u acc)) = acc \<longleftrightarrow> ?u acc = acc \<and> ?m acc = acc \<and> ?w acc = acc"
      by blast
    moreover have "?u acc = acc \<longleftrightarrow> keys_only x y = []" "?m acc = acc \<longleftrightarrow> keys_only y x = []"
      by (rule pushes_same [OF lt])+
    moreover have "?w acc = acc \<longleftrightarrow> (\<forall>k \<in> set (keys_both x y). agrees (jget x k) (jget y k))"
      by (subst foldl_same, rule diff_walk_grow) (use less.IH lt 2 size_jget in force)
    ultimately have "diff_walk limit acc a b p = acc \<longleftrightarrow>
        keys_only x y = [] \<and> keys_only y x = [] \<and> (\<forall>k \<in> set (keys_both x y). agrees (jget x k) (jget y k))"
      using 2 lt by (simp add: diff_walk_obj)
    also have "\<dots> \<longleftrightarrow> agrees a b"
    proof
      assume *: "keys_only x y = [] \<and> keys_only y x = [] \<and> (\<forall>k \<in> set (keys_both x y). agrees (jget x k) (jget y k))"
      then have "dhas x k \<longleftrightarrow> dhas y k" for k
        by (metis keys_only_Nil)
      moreover have "agrees (jget x k) (jget y k)" if "dhas x k" for k
        using * that calculation by (simp add: keys_both_set)
      ultimately show "agrees a b" unfolding 2 by (rule agrees_obj)
    next
      assume "agrees a b"
      then show "keys_only x y = [] \<and> keys_only y x = [] \<and> (\<forall>k \<in> set (keys_both x y). agrees (jget x k) (jget y k))"
        unfolding 2 by (elim agrees_objE) (auto simp: keys_only_Nil keys_both_set)
    qed
    finally show ?thesis .
  next
    case (3 xs ys)
    let ?w = "\<lambda>acc. foldl (\<lambda>ds (i, x, y). diff_walk limit ds x y (idx_path p i)) acc (zip [0..<length xs] (zip xs ys))"
    have grow: "\<exists>ds. ?w acc = acc @ ds" for acc
      by (rule foldl_grow) (auto intro: diff_walk_grow)
    have "?w acc = acc \<longleftrightarrow> (\<forall>e \<in> set (zip [0..<length xs] (zip xs ys)). agrees (fst (snd e)) (snd (snd e)))"
    proof (subst foldl_same)
      show "\<exists>ds. (case e of (i, x, y) \<Rightarrow> diff_walk limit acc x y (idx_path p i)) = acc @ ds" for acc e
        by (cases e) (simp add: diff_walk_grow)
      have "diff_walk limit acc x y (idx_path p i) = acc \<longleftrightarrow> agrees x y"
        if "(i, x, y) \<in> set (zip [0..<length xs] (zip xs ys))" for i x y
        using less.IH [OF size_zip_elem [OF that, folded 3(1)] lt] .
      then show "(\<forall>e \<in> set (zip [0..<length xs] (zip xs ys)).
            (case e of (i, x, y) \<Rightarrow> diff_walk limit acc x y (idx_path p i)) = acc) \<longleftrightarrow>
          (\<forall>e \<in> set (zip [0..<length xs] (zip xs ys)). agrees (fst (snd e)) (snd (snd e)))"
        by (intro ball_cong refl) (auto split: prod.splits)
    qed
    moreover have "diff_walk limit acc a b p = acc \<longleftrightarrow> length xs = length ys \<and> ?w acc = acc"
    proof (cases "length xs = length ys")
      case False
      let ?q = "push_diff limit ''length_mismatch'' p (JInt (int (length xs))) (JInt (int (length ys))) acc"
      obtain ds es where "?q = acc @ ds" "?w ?q = ?q @ es" using push_grow grow by meson
      with push_less [OF lt] False 3 lt show ?thesis
        by (simp add: diff_walk_arr) (metis append_assoc append_is_Nil_conv append_Nil2 same_append_eq)
    qed (use 3 lt in \<open>simp add: diff_walk_arr\<close>)
    moreover have "length xs = length ys \<Longrightarrow>
        (\<forall>e \<in> set (zip [0..<length xs] (zip xs ys)). agrees (fst (snd e)) (snd (snd e))) \<longleftrightarrow>
        (\<forall>i < length xs. agrees (xs ! i) (ys ! i))"
      by (auto simp: set_zip) force
    moreover have "agrees (JArr xs) (JArr ys) \<longleftrightarrow>
        length xs = length ys \<and> (\<forall>i < length xs. agrees (xs ! i) (ys ! i))"
      by (auto elim: agrees_arrE intro: agrees_arr)
    ultimately show ?thesis unfolding 3 by blast
  next
    case 4
    then have "agrees a b \<longleftrightarrow> scalar_eq a b" by (auto elim: agreesE intro: agrees_scalar)
    with 4 lt push_less show ?thesis by (simp add: diff_walk_scalar)
  qed
qed

section \<open>Snapshots\<close>

text \<open>
  The value written to \<^verbatim>\<open>CRITICAL_MISALIGNMENT.json\<close>; \<open>error\<close> is the text of the
  exception.
\<close>

definition critical_misalignment :: "jdict \<Rightarrow> string \<Rightarrow> jval" where
  "critical_misalignment state error =
     JObj [(''pipeline_state'', JStr ''DEAD_HALT''), (''error'', JStr error), (''state'', JObj state)]"

definition dissenting_ballots :: "(string, jdict) dict \<Rightarrow> (string, jdict) dict" where
  "dissenting_ballots ballots = filter (\<lambda>(vid, b). \<not> truthy (jget b ''passed'')) ballots"

definition validator_diffs :: "(string, jdict) dict \<Rightarrow> jdict" where
  "validator_diffs dissenting =
     List.map_filter (\<lambda>(vid, b).
       if jget b ''observed'' \<noteq> JNull \<and> jget b ''expected'' \<noteq> JNull
       then Some (vid, JArr (map JObj (diff_json (jget b ''observed'') (jget b ''expected'') ''$'' 200)))
       else None) dissenting"

definition obj_of :: "(string, jdict) dict \<Rightarrow> jval" where
  "obj_of d = JObj (map (\<lambda>(k, v). (k, JObj v)) d)"

definition quorum_dissent_snapshot ::
  "string \<Rightarrow> string \<Rightarrow> string \<Rightarrow> string \<Rightarrow> jdict \<Rightarrow> (string, jdict) dict \<Rightarrow> jval" where
  "quorum_dissent_snapshot stage correlation_id handshake_hash envelope_signature payload ballots =
     (let dissenting = dissenting_ballots ballots in
      JObj [(''event'', JStr ''QUORUM_DISSENT''), (''stage'', JStr stage),
            (''correlation_id'', JStr correlation_id), (''handshake_hash'', JStr handshake_hash),
            (''envelope_signature'', JStr envelope_signature), (''proposer_payload'', JObj payload),
            (''ballots'', obj_of ballots), (''dissenting_ballots'', obj_of dissenting),
            (''structural_diffs'', JObj (validator_diffs dissenting))])"

section \<open>Properties\<close>

text \<open>C17: the structural difference never exceeds its limit, and with a positive limit it is empty
  exactly when the two values agree.\<close>

theorem diff_json_correct:
  "length (diff_json a b p limit) \<le> limit \<and> (diff_json a b p (Suc n) = [] \<longleftrightarrow> agrees a b)"
  using diff_walk_bound [of "[]" limit a b p] diff_walk_same [of "[]" "Suc n" a b p]
  by (simp add: diff_json_def)

end
