(* ===== verification/Governance.thy ===== *)
theory Governance
  imports Proof_Ledger
begin

text \<open>
  \<^verbatim>\<open>core/governance.py\<close>: the governance logger. An event is stamped with the time and
  the pipeline state, printed to the stream, appended to \<^verbatim>\<open>governance.jsonl\<close> and, when a
  ledger is attached, sealed into the proof ledger.
\<close>

record governance =
  gov_stream :: string
  gov_log :: string
  gov_state :: string
  gov_ledger :: "ledger option"

definition enrich :: "flt \<Rightarrow> jdict \<Rightarrow> string \<Rightarrow> jdict" where
  "enrich now event state = dput ''governance_state'' (JStr state) (dput ''ts'' (JFloat now) event)"

text \<open>\<open>now\<close> is the reading of \<^verbatim>\<open>time.time()\<close>, \<open>ts\<close> the timestamp of the ledger block.\<close>

definition emit_event :: "flt \<Rightarrow> string \<Rightarrow> jdict \<Rightarrow> governance \<Rightarrow> governance" where
  "emit_event now ts event g =
     (let enriched = enrich now event (gov_state g);
          g1 = g\<lparr>gov_stream := append_jsonl (gov_stream g) enriched,
                 gov_log := append_jsonl (gov_log g) enriched\<rparr>
      in (case gov_ledger g of
            None \<Rightarrow> g1
          | Some lg \<Rightarrow>
              g1\<lparr>gov_ledger :=
                Some (snd (append_block ts [(''kind'', JStr ''GOV_EVENT''), (''event'', JObj enriched)] lg))\<rparr>))"

definition set_state :: "flt \<Rightarrow> string \<Rightarrow> string \<Rightarrow> governance \<Rightarrow> governance" where
  "set_state now ts state g =
     emit_event now ts [(''event'', JStr ''STATE''), (''state'', JStr state)] (g\<lparr>gov_state := state\<rparr>)"

definition governance_inv :: "governance \<Rightarrow> bool" where
  "governance_inv g \<longleftrightarrow> at_line_end (gov_log g) \<and>
     (case gov_ledger g of None \<Rightarrow> True | Some lg \<Rightarrow> ledger_inv lg \<and> text_ok (execution_token lg))"

lemma text_ok_gov [simp]:
  "text_ok ''ts''" "text_ok ''governance_state''" "text_ok ''kind''" "text_ok ''GOV_EVENT''" "text_ok ''event''"
  by (rule text_ok_ascii; simp add: is_cont_def)+

lemma line_record_enrich:
  "line_record event \<Longrightarrow> wf_flt now \<Longrightarrow> text_ok state \<Longrightarrow> line_record (enrich now event state)"
  by (simp add: enrich_def line_record_dput)

lemma emit_clean:
  assumes "line_record event" and "wf_flt now" and "text_ok state" and "text_ok ts" and "text_ok (execution_token lg)"
  shows "clean_payload ts [(''kind'', JStr ''GOV_EVENT''), (''event'', JObj (enrich now event state))] lg"
  using line_record_enrich [OF assms(1-3)] assms(4,5)
  by (simp add: clean_payload_def line_record_def wf_dict_def)

section \<open>Properties\<close>

text \<open>every event is logged in order with its state, and sealed into the ledger, which stays
  verifiable.\<close>

theorem emit_event_logged:
  assumes "governance_inv g" and "line_record event" and "wf_flt now" and "text_ok (gov_state g)" and "text_ok ts"
  shows "governance_inv (emit_event now ts event g) \<and>
    jsonl_objs (gov_log (emit_event now ts event g)) =
      jsonl_objs (gov_log g) @ [canon_dict (enrich now event (gov_state g))] \<and>
    (case gov_ledger g of
       None \<Rightarrow> gov_ledger (emit_event now ts event g) = None
     | Some lg \<Rightarrow> \<exists>lg' b. gov_ledger (emit_event now ts event g) = Some lg' \<and>
         iter_ledger_blocks (ledger_file lg') = iter_ledger_blocks (ledger_file lg) @ [b] \<and>
         jget b ''payload'' = canon (JObj [(''kind'', JStr ''GOV_EVENT''), (''event'', JObj (enrich now event (gov_state g)))]))"
proof -
  note rec = line_record_enrich [OF assms(2-4)]
  show ?thesis
  proof (cases "gov_ledger g")
    case None
    with assms(1) rec show ?thesis
      by (simp add: emit_event_def governance_inv_def Let_def jsonl.read_append)
  next
    case (Some lg)
    let ?p = "[(''kind'', JStr ''GOV_EVENT''), (''event'', JObj (enrich now event (gov_state g)))]"
    from Some assms(1) have lg: "ledger_inv lg" "text_ok (execution_token lg)" by (auto simp: governance_inv_def)
    have clean: "clean_payload ts ?p lg" by (rule emit_clean [OF assms(2-4) assms(5) lg(2)])
    have "jget (canon_dict (new_block ts ?p lg)) ''payload'' = canon (JObj ?p)"
      by (simp add: jget_canon [OF wf_dict_block] del: canon.simps)
        (simp add: new_block_eq header_of_def Let_def del: canon.simps)
    moreover have "execution_token (snd (append_block ts ?p lg)) = execution_token lg"
      by (simp add: append_block_eq)
    ultimately show ?thesis
      using Some assms(1) rec lg append_block_inv [OF lg(1) clean] iter_append_block [OF lg(1) clean]
      by (simp add: emit_event_def governance_inv_def Let_def jsonl.read_append)
  qed
qed

theorem emit_event_logged_witness:
  "jsonl_objs (gov_log (emit_event ''0.0'' ''t'' [(''event'', JStr ''go'')]
      \<lparr>gov_stream = [], gov_log = [], gov_state = ''Running'', gov_ledger = None\<rparr>)) =
    [canon_dict (enrich ''0.0'' [(''event'', JStr ''go'')] ''Running'')]"
proof -
  have "text_ok ''t''" "text_ok ''Running''" "text_ok ''go''" by (rule text_ok_ascii; simp add: is_cont_def)+
  moreover have "wf_flt ''0.0''" by (rule wf_flt_zero)
  ultimately show ?thesis
    using emit_event_logged [of "\<lparr>gov_stream = [], gov_log = [], gov_state = ''Running'', gov_ledger = None\<rparr>"
        "[(''event'', JStr ''go'')]" "''0.0''" "''t''"]
    by (simp add: governance_inv_def at_line_end_def line_record_def wf_dict_def jsonl.read_empty)
qed

end
