(* ===== verification/Quorum_Systems.thy ===== *)
theory Quorum_Systems
  imports Prelude
begin

text \<open>
  Threshold quorums: among \<open>n\<close> voters a quorum is a set of at least \<open>q\<close> of them. The interface
  states the one arithmetic law that makes two quorums share more than \<open>f\<close> voters, and hence
  a correct one when at most \<open>f\<close> are faulty. The validation quorum and the consensus node
  interpret it with their own thresholds.
\<close>

locale threshold_quorum =
  fixes n :: nat and f :: nat and q :: nat
  assumes reachable: "q \<le> n"
    and overlap: "n + f < 2 * q"
begin

lemma intersection:
  assumes "finite V" and "card V = n" and "A \<subseteq> V" and "B \<subseteq> V" and "q \<le> card A" and "q \<le> card B"
  shows "f < card (A \<inter> B)"
proof -
  have "card A + card B = card (A \<union> B) + card (A \<inter> B)"
    using assms by (intro card_Un_Int) (auto intro: finite_subset)
  moreover have "card (A \<union> B) \<le> n" using assms by (metis Un_least card_mono)
  ultimately show ?thesis using assms overlap by linarith
qed

lemma correct_in_common:
  assumes "finite V" and "card V = n" and "A \<subseteq> V" and "B \<subseteq> V" and "q \<le> card A" and "q \<le> card B"
    and "F \<subseteq> V" and "card F \<le> f"
  shows "\<exists>v. v \<in> A \<and> v \<in> B \<and> v \<notin> F"
proof -
  have "f < card (A \<inter> B)" using assms by (intro intersection)
  with assms have "\<not> A \<inter> B \<subseteq> F" by (metis card_mono finite_subset linorder_not_less order_trans)
  then show ?thesis by blast
qed

lemma all_is_quorum: "finite V \<Longrightarrow> card V = n \<Longrightarrow> q \<le> card V"
  using reachable by simp

end

end
