(* ===== verification/Quorum.thy ===== *)
theory Quorum
  imports Quorum_Systems Fault Proof_Ledger
begin

text \<open>
  \<^verbatim>\<open>core/quorum.py\<close>: the validation quorum. Validators cast ballots on an envelope; the
  stage may commit when enough of them pass. The model has the default validators, the
  collection of ballots, the threshold, the ledger blocks and the dissent snapshot.

  The tasks of the \<^verbatim>\<open>TaskGroup\<close> finish in some order: \<open>validate\<close> takes the validators in
  the order in which they finish, and the decision is shown not to depend on it. Two parts of
  the standard library are parameters: \<open>uword\<close>, the Unicode database's word characters outside
  ASCII, and \<open>show_error\<close>, the text of a schema error.
\<close>

section \<open>Policy\<close>

datatype ballot_error_class =
  SCHEMA_VIOLATION | SECURITY_RISK | REGRESSION_INVENTORY | STRUCTURAL_DEVIATION | INTERNAL_ERROR

fun error_index :: "ballot_error_class \<Rightarrow> int" where
  "error_index SCHEMA_VIOLATION = 1"
| "error_index SECURITY_RISK = 2"
| "error_index REGRESSION_INVENTORY = 3"
| "error_index STRUCTURAL_DEVIATION = 4"
| "error_index INTERNAL_ERROR = 5"

record quorum_policy =
  policy_mode :: string
  halt_on_any_dissent :: bool

datatype quorum_error =
    UnknownMode string
  | QuorumFailed string nat nat nat
  | QuorumDissent string "string list"

definition required_passes :: "quorum_policy \<Rightarrow> nat \<Rightarrow> (quorum_error, nat) res" where
  "required_passes p n =
     (if n = 0 then Inr 0
      else if policy_mode p = ''unanimous'' then Inr n
      else if policy_mode p = ''supermajority'' then Inr ((2 * n) div 3 + 1)
      else Inl (UnknownMode (policy_mode p)))"

section \<open>Ballots\<close>

record validation_context =
  ctx_stage :: string
  ctx_schema :: schema
  ctx_payload :: jdict
  ctx_envelope_signature :: string
  ctx_handshake_hash :: string
  ctx_source_role :: string
  ctx_next_role :: string
  ctx_correlation_id :: string
  ctx_inventory :: "string option"

type_synonym ballot = jdict
type_synonym validator = "validation_context \<Rightarrow> (string, ballot) res"

definition ballot_signature :: "ballot \<Rightarrow> string" where
  "ballot_signature b = fnv1a_32 (canonical_json (JObj (dpop ''ballot_signature'' b)))"

definition opt_field :: "string \<Rightarrow> jval option \<Rightarrow> jdict" where
  "opt_field k v = (case v of None \<Rightarrow> [] | Some x \<Rightarrow> if x = JNull then [] else [(k, x)])"

definition make_ballot ::
  "string \<Rightarrow> validation_context \<Rightarrow> bool \<Rightarrow> ballot_error_class option \<Rightarrow> string \<Rightarrow> jval option
    \<Rightarrow> jval option \<Rightarrow> ballot" where
  "make_ballot vid ctx passed err details observed expected =
     (let b = [(''validator_id'', JStr vid), (''stage'', JStr (ctx_stage ctx)),
               (''schema_id'', JStr (schema_id (ctx_schema ctx))),
               (''handshake_hash'', JStr (ctx_handshake_hash ctx)),
               (''envelope_signature'', JStr (ctx_envelope_signature ctx)), (''passed'', JBool passed),
               (''error_class'', case err of None \<Rightarrow> JNull | Some e \<Rightarrow> JInt (error_index e)),
               (''details'', JStr details)]
              @ opt_field ''observed'' observed @ opt_field ''expected'' expected
      in dput ''ballot_signature'' (JStr (ballot_signature b)) b)"

fun iter_string_values :: "jval \<Rightarrow> string list" where
  "iter_string_values (JStr s) = [s]"
| "iter_string_values (JArr xs) = concat (map iter_string_values xs)"
| "iter_string_values (JObj d) = concat (map (\<lambda>kv. iter_string_values (snd kv)) d)"
| "iter_string_values _ = []"

section \<open>The validators\<close>

definition schema_auditor :: "(schema_error \<Rightarrow> string) \<Rightarrow> string \<Rightarrow> validator" where
  "schema_auditor show_error vid ctx =
     (case validate_against_schema (JObj (ctx_payload ctx)) (schema_def (ctx_schema ctx)) of
        Inl e \<Rightarrow> Inr (make_ballot vid ctx False (Some SCHEMA_VIOLATION) (show_error e)
                   (Some (JObj [(''schema_id'', JStr (schema_id (ctx_schema ctx)))]))
                   (Some (JObj [(''schema_id'', JStr (schema_id (ctx_schema ctx))), (''valid'', JBool True)])))
      | Inr _ \<Rightarrow> Inr (make_ballot vid ctx True None ''schema_ok'' None None))"

text \<open>
  The patterns are sequences of word boundaries, letters without case and white space. A letter
  stands for the code points that equal it without case: \<open>i\<close> also for the two Turkish ones,
  \<open>s\<close> also for the long s.
\<close>

datatype pat = WordB | Lit char | Spaces | Spaces1

definition same_letter :: "char \<Rightarrow> string \<Rightarrow> bool" where
  "same_letter c u \<longleftrightarrow>
     u = [c] \<or>
     (CHR ''a'' \<le> c \<and> c \<le> CHR ''z'' \<and> u = [char_of (of_char c - 32 :: nat)]) \<or>
     (c = CHR ''i'' \<and> u \<in> {[CHR 0xC4, CHR 0xB0], [CHR 0xC4, CHR 0xB1]}) \<or>
     (c = CHR ''s'' \<and> u = [CHR 0xC5, CHR 0xBF])"

definition is_word :: "(string \<Rightarrow> bool) \<Rightarrow> string \<Rightarrow> bool" where
  "is_word uword u \<longleftrightarrow>
     (case u of
        [c] \<Rightarrow> is_digit c \<or> (CHR ''a'' \<le> c \<and> c \<le> CHR ''z'') \<or> (CHR ''A'' \<le> c \<and> c \<le> CHR ''Z'') \<or> c = CHR ''_''
      | _ \<Rightarrow> uword u)"

definition opt_word :: "(string \<Rightarrow> bool) \<Rightarrow> string option \<Rightarrow> bool" where
  "opt_word uword x = (case x of None \<Rightarrow> False | Some u \<Rightarrow> is_word uword u)"

fun match_here :: "(string \<Rightarrow> bool) \<Rightarrow> pat list \<Rightarrow> string option \<Rightarrow> string list \<Rightarrow> bool" where
  "match_here uword [] prev us = True"
| "match_here uword (WordB # ps) prev us =
     (opt_word uword prev \<noteq> opt_word uword (case us of [] \<Rightarrow> None | u # _ \<Rightarrow> Some u) \<and> match_here uword ps prev us)"
| "match_here uword (Lit c # ps) prev us =
     (case us of [] \<Rightarrow> False | u # us' \<Rightarrow> same_letter c u \<and> match_here uword ps (Some u) us')"
| "match_here uword (Spaces # ps) prev us =
     (let sp = takeWhile is_space us
      in match_here uword ps (if sp = [] then prev else Some (last sp)) (dropWhile is_space us))"
| "match_here uword (Spaces1 # ps) prev us =
     (let sp = takeWhile is_space us
      in sp \<noteq> [] \<and> match_here uword ps (Some (last sp)) (dropWhile is_space us))"

fun search_from :: "(string \<Rightarrow> bool) \<Rightarrow> pat list \<Rightarrow> string option \<Rightarrow> string list \<Rightarrow> bool" where
  "search_from uword ps prev [] = match_here uword ps prev []"
| "search_from uword ps prev (u # us) =
     (match_here uword ps prev (u # us) \<or> search_from uword ps (Some u) us)"

definition lits :: "string \<Rightarrow> pat list" where
  "lits s = map Lit s"

definition vuln_patterns :: "(string \<times> pat list list) list" where
  "vuln_patterns =
     [(''eval'', [[WordB] @ lits ''eval'' @ [Spaces, Lit (CHR ''('')]]),
      (''exec'', [[WordB] @ lits ''exec'' @ [Spaces, Lit (CHR ''('')]]),
      (''subprocess_shell'', [[WordB] @ lits ''shell'' @ [Spaces, Lit (CHR ''=''), Spaces] @ lits ''true'' @ [WordB]]),
      (''sql_injection'', [[WordB] @ lits ''drop'' @ [Spaces1] @ lits ''table'' @ [WordB],
                           [WordB] @ lits ''union'' @ [Spaces1] @ lits ''select'' @ [WordB]]),
      (''vulnerability_marker'', [[WordB] @ lits ''vulnerability'' @ [WordB]])]"

definition pattern_search :: "(string \<Rightarrow> bool) \<Rightarrow> pat list list \<Rightarrow> string \<Rightarrow> bool" where
  "pattern_search uword alts t \<longleftrightarrow> list_ex (\<lambda>ps. search_from uword ps None (uchars t)) alts"

definition security_hits :: "(string \<Rightarrow> bool) \<Rightarrow> jdict \<Rightarrow> jval list" where
  "security_hits uword payload =
     concat (map (\<lambda>t. map (\<lambda>(name, alts). JObj [(''pattern'', JStr name), (''snippet'', JStr (py_take 120 t))])
                      (filter (\<lambda>(name, alts). pattern_search uword alts t) vuln_patterns))
       (iter_string_values (JObj payload)))"

definition security_worker :: "(string \<Rightarrow> bool) \<Rightarrow> string \<Rightarrow> validator" where
  "security_worker uword vid ctx =
     (let hits = security_hits uword (ctx_payload ctx) in
      if hits \<noteq> []
      then Inr (make_ballot vid ctx False (Some SECURITY_RISK) ''security_patterns_detected''
             (Some (JObj [(''hits'', JArr hits)])) (Some (JObj [(''hits'', JArr [])])))
      else Inr (make_ballot vid ctx True None ''security_ok'' None None))"

text \<open>\<^verbatim>\<open>re.fullmatch(r"[A-Za-z0-9_.-]{1,64}", t)\<close>.\<close>

definition repo_name_char :: "char \<Rightarrow> bool" where
  "repo_name_char c \<longleftrightarrow>
     is_digit c \<or> (CHR ''a'' \<le> c \<and> c \<le> CHR ''z'') \<or> (CHR ''A'' \<le> c \<and> c \<le> CHR ''Z'') \<or>
     c = CHR ''_'' \<or> c = CHR ''.'' \<or> c = CHR ''-''"

definition repo_name_ok :: "string \<Rightarrow> bool" where
  "repo_name_ok t \<longleftrightarrow> 1 \<le> length t \<and> length t \<le> 64 \<and> list_all repo_name_char t"

definition regression_worker :: "string \<Rightarrow> validator" where
  "regression_worker vid ctx =
     (let reject = (\<lambda>err details observed expected. Inr (make_ballot vid ctx False (Some err) details (Some observed) (Some expected)));
          targets = jget (ctx_payload ctx) ''target_repositories''
      in (case str_elems targets of
            None \<Rightarrow> reject STRUCTURAL_DEVIATION ''target_repositories_invalid''
                     (JObj [(''target_repositories'', targets)])
                     (JObj [(''target_repositories'', JArr [JStr ''<repo-name>''])])
          | Some names \<Rightarrow>
              (let bad = filter (\<lambda>t. \<not> repo_name_ok t) names in
               if bad \<noteq> []
               then reject REGRESSION_INVENTORY ''invalid_repo_name'' (JObj [(''invalid'', JArr (map JStr bad))])
                      (JObj [(''pattern'', JStr ''^[A-Za-z0-9_.-]{1,64}$'')])
               else
                 (case ctx_inventory ctx of
                    None \<Rightarrow> Inr (make_ballot vid ctx True None ''inventory_missing_but_tolerated'' None None)
                  | Some t \<Rightarrow>
                      (let print = JObj [(''inventory_fingerprint'', JStr (fnv1a_32 (py_take 4096 t)))] in
                       if \<not> (contains ''| Project |'' t \<and> contains ''| --- |'' t)
                       then reject REGRESSION_INVENTORY ''inventory_format_unrecognized'' print
                              (JObj [(''contains'', JArr [JStr ''| Project |'', JStr ''| --- |''])])
                       else Inr (make_ballot vid ctx True None ''regression_ok'' (Some print) None))))))"

definition twin_auditor_id :: "string \<Rightarrow> string" where
  "twin_auditor_id stage =
     (if stage = ''architecture_to_risk'' then ''architecture_twin_auditor''
      else if stage = ''intake_to_architecture'' then ''intake_twin_auditor''
      else if stage = ''risk_to_build_execution'' then ''risk_twin_auditor''
      else ''schema_auditor'')"

definition default_validators_for_stage ::
  "(schema_error \<Rightarrow> string) \<Rightarrow> (string \<Rightarrow> bool) \<Rightarrow> string \<Rightarrow> (string \<times> validator) list" where
  "default_validators_for_stage show_error uword stage =
     [(twin_auditor_id stage, schema_auditor show_error (twin_auditor_id stage)),
      (''security_validation_worker'', security_worker uword ''security_validation_worker''),
      (''regression_consistency_worker'', regression_worker ''regression_consistency_worker'')]"

section \<open>The manager\<close>

record quorum_manager =
  qm_policy :: quorum_policy
  qm_validators :: "(string, (string \<times> validator) list) dict option"
  qm_ledger :: "ledger option"
  qm_snapshot :: "jval option"

definition validators_for_stage ::
  "(schema_error \<Rightarrow> string) \<Rightarrow> (string \<Rightarrow> bool) \<Rightarrow> quorum_manager \<Rightarrow> string \<Rightarrow> (string \<times> validator) list" where
  "validators_for_stage show_error uword m stage =
     (case qm_validators m of
        None \<Rightarrow> default_validators_for_stage show_error uword stage
      | Some by_stage \<Rightarrow>
          (case dget by_stage stage of
             Some vs \<Rightarrow> vs
           | None \<Rightarrow> default_validators_for_stage show_error uword stage))"

definition stabilize :: "validation_context \<Rightarrow> string \<Rightarrow> ballot \<Rightarrow> ballot" where
  "stabilize ctx vid b =
     (let b1 = dput ''validator_id'' (JStr vid) b;
          b2 = dsetdefault ''stage'' (JStr (ctx_stage ctx)) b1;
          b3 = dsetdefault ''schema_id'' (JStr (schema_id (ctx_schema ctx))) b2;
          b4 = dsetdefault ''handshake_hash'' (JStr (ctx_handshake_hash ctx)) b3;
          b5 = dsetdefault ''envelope_signature'' (JStr (ctx_envelope_signature ctx)) b4;
          b6 = dsetdefault ''passed'' (JBool False) b5;
          b7 = dsetdefault ''error_class'' JNull b6;
          b8 = dsetdefault ''details'' (JStr []) b7
      in dput ''ballot_signature'' (JStr (ballot_signature b8)) b8)"

definition run_one :: "validation_context \<Rightarrow> string \<Rightarrow> validator \<Rightarrow> ballot" where
  "run_one ctx vid v =
     stabilize ctx vid
       (case v ctx of
          Inr b \<Rightarrow> b
        | Inl exc \<Rightarrow> make_ballot vid ctx False (Some INTERNAL_ERROR) (''validator_exception:'' @ exc) None None)"

definition collect_ballots :: "validation_context \<Rightarrow> (string \<times> validator) list \<Rightarrow> (string, ballot) dict" where
  "collect_ballots ctx vs = foldl (\<lambda>bs (vid, v). dput vid (run_one ctx vid v) bs) [] vs"

definition ballot_passed :: "ballot \<Rightarrow> bool" where
  "ballot_passed b = truthy (jget b ''passed'')"

definition ballot_voter :: "ballot \<Rightarrow> string" where
  "ballot_voter b = (case jget b ''validator_id'' of JStr s \<Rightarrow> s | _ \<Rightarrow> [])"

definition enforce_quorum :: "quorum_policy \<Rightarrow> string \<Rightarrow> (string, ballot) dict \<Rightarrow> (quorum_error, unit) res" where
  "enforce_quorum p stage ballots =
     res_bind (required_passes p (length ballots)) (\<lambda>required.
       (let passed = filter ballot_passed (dvalues ballots);
            failed = filter (\<lambda>b. \<not> ballot_passed b) (dvalues ballots)
        in if length passed < required
           then Inl (QuorumFailed stage (length passed) (length ballots) required)
           else if halt_on_any_dissent p \<and> failed \<noteq> []
           then Inl (QuorumDissent stage (sort (map ballot_voter failed)))
           else Inr ()))"

fun quorum_message :: "quorum_error \<Rightarrow> string" where
  "quorum_message (UnknownMode m) = ''Unknown quorum mode: '' @ m"
| "quorum_message (QuorumFailed stage passed n required) =
     ''Quorum failed for '' @ stage @ '': passed='' @ show_nat passed @ ''/'' @ show_nat n @
     '' required='' @ show_nat required"
| "quorum_message (QuorumDissent stage ds) =
     ''Quorum dissent for '' @ stage @ '': dissenters='' @ join '','' ds"

definition ledger_append :: "string \<Rightarrow> jdict \<Rightarrow> quorum_manager \<Rightarrow> quorum_manager" where
  "ledger_append ts payload m =
     (case qm_ledger m of
        None \<Rightarrow> m
      | Some lg \<Rightarrow> m\<lparr>qm_ledger := Some (snd (append_block ts payload lg))\<rparr>)"

definition ordered_ballots :: "(string, ballot) dict \<Rightarrow> jval" where
  "ordered_ballots ballots = obj_of (sort_key fst ballots)"

definition collected_block :: "quorum_policy \<Rightarrow> validation_context \<Rightarrow> (string, ballot) dict \<Rightarrow> jdict" where
  "collected_block p ctx ballots =
     [(''kind'', JStr ''QUORUM_BALLOTS_COLLECTED''), (''stage'', JStr (ctx_stage ctx)),
      (''schema_id'', JStr (schema_id (ctx_schema ctx))), (''correlation_id'', JStr (ctx_correlation_id ctx)),
      (''handshake_hash'', JStr (ctx_handshake_hash ctx)),
      (''envelope_signature'', JStr (ctx_envelope_signature ctx)),
      (''policy'', JObj [(''mode'', JStr (policy_mode p)), (''halt_on_any_dissent'', JBool (halt_on_any_dissent p))]),
      (''ballots'', ordered_ballots ballots)]"

definition dissent_block :: "validation_context \<Rightarrow> string \<Rightarrow> (string, ballot) dict \<Rightarrow> jdict" where
  "dissent_block ctx err ballots =
     [(''kind'', JStr ''QUORUM_DISSENT''), (''stage'', JStr (ctx_stage ctx)),
      (''schema_id'', JStr (schema_id (ctx_schema ctx))), (''correlation_id'', JStr (ctx_correlation_id ctx)),
      (''handshake_hash'', JStr (ctx_handshake_hash ctx)),
      (''envelope_signature'', JStr (ctx_envelope_signature ctx)), (''error'', JStr err),
      (''ballots'', ordered_ballots ballots)]"

definition passed_block :: "validation_context \<Rightarrow> nat \<Rightarrow> nat \<Rightarrow> nat \<Rightarrow> jdict" where
  "passed_block ctx passed n required =
     [(''kind'', JStr ''QUORUM_PASSED''), (''stage'', JStr (ctx_stage ctx)),
      (''schema_id'', JStr (schema_id (ctx_schema ctx))), (''correlation_id'', JStr (ctx_correlation_id ctx)),
      (''passed'', JInt (int passed)), (''total'', JInt (int n)), (''required'', JInt (int required))]"

text \<open>
  \<open>validate\<close>: the validators of the stage in the order they finish; \<open>ts0\<close> and \<open>ts1\<close> stamp
  the two ledger blocks. The state is returned also when the quorum raises.
\<close>

definition validate ::
  "string \<Rightarrow> string \<Rightarrow> validation_context \<Rightarrow> (string \<times> validator) list \<Rightarrow> quorum_manager
    \<Rightarrow> (quorum_error, (string, ballot) dict) res \<times> quorum_manager" where
  "validate ts0 ts1 ctx vs m =
     (let ballots = collect_ballots ctx vs;
          m1 = ledger_append ts0 (collected_block (qm_policy m) ctx ballots) m
      in (case enforce_quorum (qm_policy m) (ctx_stage ctx) ballots of
            Inl (UnknownMode x) \<Rightarrow> (Inl (UnknownMode x), m1)
          | Inl e \<Rightarrow>
              (let m2 = m1\<lparr>qm_snapshot := Some (quorum_dissent_snapshot (ctx_stage ctx) (ctx_correlation_id ctx)
                              (ctx_handshake_hash ctx) (ctx_envelope_signature ctx) (ctx_payload ctx) ballots)\<rparr>
               in (Inl e, ledger_append ts1 (dissent_block ctx (quorum_message e) ballots) m2))
          | Inr _ \<Rightarrow>
              (let required = (case required_passes (qm_policy m) (length ballots) of Inr r \<Rightarrow> r | Inl _ \<Rightarrow> 0)
               in (Inr ballots,
                   ledger_append ts1 (passed_block ctx (length (filter ballot_passed (dvalues ballots)))
                     (length ballots) required) m1))))"

section \<open>The threshold\<close>

interpretation supermajority: threshold_quorum "Suc k" "k div 3" "(2 * Suc k) div 3 + 1" for k
  by unfold_locales presburger+

interpretation unanimous: threshold_quorum "Suc k" k "Suc k" for k
  by unfold_locales simp_all

lemma required_passes_supermajority:
  "policy_mode p = ''supermajority'' \<Longrightarrow> required_passes p (Suc k) = Inr ((2 * Suc k) div 3 + 1)"
  by (simp add: required_passes_def)

lemma required_passes_known:
  "policy_mode p \<in> {''unanimous'', ''supermajority''} \<Longrightarrow> \<exists>r. required_passes p n = Inr r \<and> r \<le> n \<and> (r = 0 \<longleftrightarrow> n = 0)"
proof (cases n)
  case (Suc k)
  assume "policy_mode p \<in> {''unanimous'', ''supermajority''}"
  with Suc supermajority.reachable [of k] show ?thesis by (auto simp: required_passes_def)
qed (simp add: required_passes_def)

section \<open>Ballots\<close>

lemma dpop_dput_same: "dpop k (dput k v d) = dpop k d"
  by (simp add: dpop_def dput_def delete_update_same)

lemma ballot_signature_dput: "ballot_signature (dput ''ballot_signature'' v b) = ballot_signature b"
  by (simp add: ballot_signature_def dpop_dput_same)

lemma jget_dsetdefault:
  "jget (dsetdefault k v d) k' = (if k' = k \<and> \<not> dhas d k then v else jget d k')"
  by (auto simp: jget_def dsetdefault_def dget_dput dhas_def split: option.splits)

lemma stabilize_fields:
  "jget (stabilize ctx vid b) ''validator_id'' = JStr vid"
  "jget (stabilize ctx vid b) ''ballot_signature'' = JStr (ballot_signature (stabilize ctx vid b))"
  "jget (stabilize ctx vid b) ''passed'' = (if dhas b ''passed'' then jget b ''passed'' else JBool False)"
proof -
  show "jget (stabilize ctx vid b) ''ballot_signature'' = JStr (ballot_signature (stabilize ctx vid b))"
    by (simp add: stabilize_def Let_def jget_dput ballot_signature_dput)
  have has: "dhas (dsetdefault k v d) k' \<longleftrightarrow> k' = k \<or> dhas d k'" for k v k' and d :: jdict
    by (auto simp: dhas_def dget_dsetdefault)
  have put: "dhas (dput k v d) k' \<longleftrightarrow> k' = k \<or> dhas d k'" for k v k' and d :: jdict
    by (simp add: dhas_def dget_dput)
  show "jget (stabilize ctx vid b) ''validator_id'' = JStr vid"
    "jget (stabilize ctx vid b) ''passed'' = (if dhas b ''passed'' then jget b ''passed'' else JBool False)"
    by (simp_all add: stabilize_def Let_def jget_dput jget_dsetdefault has put)
qed

lemma stabilize_passed: "ballot_passed (stabilize ctx vid b) \<longleftrightarrow> ballot_passed b"
  by (auto simp: ballot_passed_def stabilize_fields) (auto simp: jget_def dhas_def split: option.splits)

lemma make_ballot_passed: "ballot_passed (make_ballot vid ctx passed err details obs ex) \<longleftrightarrow> passed"
  by (simp add: ballot_passed_def make_ballot_def Let_def jget_dput)

lemma ballot_voter_run: "ballot_voter (run_one ctx vid v) = vid"
  by (simp add: ballot_voter_def run_one_def stabilize_fields)

lemma collect_distinct:
  assumes "distinct (map fst vs)"
  shows "collect_ballots ctx vs = map (\<lambda>(vid, v). (vid, run_one ctx vid v)) vs"
proof -
  have "collect_ballots ctx vs = dict_of (map (\<lambda>(vid, v). (vid, run_one ctx vid v)) vs)"
    by (simp add: collect_ballots_def dict_of_def dupdate_def foldl_conv_fold fold_map comp_def case_prod_unfold)
  also have "\<dots> = map (\<lambda>(vid, v). (vid, run_one ctx vid v)) vs"
    using assms by (intro dict_of_distinct) (simp add: comp_def case_prod_unfold)
  finally show ?thesis .
qed

section \<open>The decision\<close>

lemma enforce_quorum_ok_iff:
  "enforce_quorum p stage ballots = Inr () \<longleftrightarrow>
     (\<exists>r. required_passes p (length ballots) = Inr r \<and> r \<le> length (filter ballot_passed (dvalues ballots)) \<and>
       (halt_on_any_dissent p \<longrightarrow> list_all ballot_passed (dvalues ballots)))"
  by (auto simp: enforce_quorum_def res_bind_Inr_iff Let_def filter_empty_conv list_all_iff not_less)

lemma validate_ok_iff:
  "fst (validate ts0 ts1 ctx vs m) = Inr ballots \<longleftrightarrow>
     ballots = collect_ballots ctx vs \<and> enforce_quorum (qm_policy m) (ctx_stage ctx) ballots = Inr ()"
  by (auto simp: validate_def Let_def split: sum.splits quorum_error.splits)

lemma enforce_quorum_perm:
  assumes "mset ballots = mset ballots'"
  shows "enforce_quorum p stage ballots = enforce_quorum p stage ballots'"
proof -
  have "mset (dvalues ballots) = mset (dvalues ballots')"
    using assms by (simp add: dvalues_def)
  then have fl: "mset (filter P (dvalues ballots)) = mset (filter P (dvalues ballots'))" for P
    by simp
  then have pass: "length (filter ballot_passed (dvalues ballots)) = length (filter ballot_passed (dvalues ballots'))"
    by (metis size_mset)
  have "mset (map ballot_voter (filter P (dvalues ballots))) = mset (map ballot_voter (filter P (dvalues ballots')))" for P
    unfolding mset_map fl ..
  then have voters: "sort (map ballot_voter (filter P (dvalues ballots))) = sort (map ballot_voter (filter P (dvalues ballots')))" for P
    by (rule sort_perm)
  have none: "filter P (dvalues ballots) = [] \<longleftrightarrow> filter P (dvalues ballots') = []" for P
    using fl [of P] by (metis mset_zero_iff)
  have len: "length ballots = length ballots'" using assms by (metis size_mset)
  show ?thesis by (simp only: enforce_quorum_def Let_def pass voters none len)
qed

lemma ordered_ballots_perm:
  assumes "mset ballots = mset ballots'" and "distinct (map fst ballots)"
  shows "ordered_ballots ballots = ordered_ballots ballots'"
  using assms sort_key_perm_unique [of ballots ballots' fst]
  by (simp add: ordered_ballots_def distinct_map)

lemma validate_passes_ok:
  "fst (validate ts0 ts1 ctx vs m) = Inr ballots \<longleftrightarrow>
     ballots = collect_ballots ctx vs \<and>
     (\<exists>r. required_passes (qm_policy m) (length ballots) = Inr r \<and>
        r \<le> length (filter ballot_passed (dvalues ballots))) \<and>
     (\<not> halt_on_any_dissent (qm_policy m) \<or> list_all ballot_passed (dvalues ballots))"
  unfolding validate_ok_iff enforce_quorum_ok_iff by blast

lemma default_votes_sound:
  assumes "distinct (map fst vs)" and "set vs = set (default_validators_for_stage show_error uword stage)"
    and "list_all ballot_passed (dvalues (collect_ballots ctx vs))"
  shows "conforms (schema_def (ctx_schema ctx)) (JObj (ctx_payload ctx)) \<and>
    security_hits uword (ctx_payload ctx) = [] \<and>
    (\<exists>names. str_elems (jget (ctx_payload ctx) ''target_repositories'') = Some names \<and> list_all repo_name_ok names)"
proof -
  from assms(3) have pass: "ballot_passed (run_one ctx vid v)" if "(vid, v) \<in> set vs" for vid v
    using that unfolding collect_distinct [OF assms(1)] by (force simp: list_all_iff dvalues_def)
  note pass = pass [unfolded assms(2)]
  have run: "ballot_passed (run_one ctx vid v) \<longleftrightarrow> (case v ctx of Inr b \<Rightarrow> ballot_passed b | Inl _ \<Rightarrow> False)" for vid v
    by (simp add: run_one_def stabilize_passed make_ballot_passed split: sum.splits)
  have "conforms (schema_def (ctx_schema ctx)) (JObj (ctx_payload ctx))"
    using pass [of "twin_auditor_id stage" "schema_auditor show_error (twin_auditor_id stage)"]
    by (auto simp: default_validators_for_stage_def run schema_auditor_def make_ballot_passed
        validate_against_schema_def validate_node_iff [symmetric, where p = "''$''"] split: sum.splits)
  moreover have "security_hits uword (ctx_payload ctx) = []"
    using pass [of "''security_validation_worker''" "security_worker uword ''security_validation_worker''"]
    by (simp add: default_validators_for_stage_def run security_worker_def make_ballot_passed Let_def split: if_splits)
  moreover have "\<exists>names. str_elems (jget (ctx_payload ctx) ''target_repositories'') = Some names \<and> list_all repo_name_ok names"
    using pass [of "''regression_consistency_worker''" "regression_worker ''regression_consistency_worker''"]
    by (auto simp: default_validators_for_stage_def run regression_worker_def make_ballot_passed Let_def
        filter_empty_conv list_all_iff split: if_splits option.splits)
  ultimately show ?thesis by blast
qed

lemma default_distinct: "distinct (map fst (default_validators_for_stage show_error uword stage))"
  by (simp add: default_validators_for_stage_def twin_auditor_id_def)

section \<open>Properties\<close>

text \<open>C18: the decision. A stage passes exactly when the policy's number of ballots passes and, where
  any dissent halts, every ballot passes; then the ballots returned are the collected ones.\<close>

theorem validate_passes_iff:
  "fst (validate ts0 ts1 ctx vs m) = Inr ballots \<longleftrightarrow>
     ballots = collect_ballots ctx vs \<and>
     (\<exists>r. required_passes (qm_policy m) (length ballots) = Inr r \<and>
        r \<le> length (filter ballot_passed (dvalues ballots))) \<and>
     (\<not> halt_on_any_dissent (qm_policy m) \<or> list_all ballot_passed (dvalues ballots))"
  by (rule validate_passes_ok)

definition demo_ctx :: validation_context where
  "demo_ctx = \<lparr>ctx_stage = ''intake_to_architecture'', ctx_schema = \<lparr>schema_id = ''s'', schema_def = [(''type'', JStr ''object'')]\<rparr>,
     ctx_payload = [(''target_repositories'', JArr [JStr ''repo''])], ctx_envelope_signature = ''e'',
     ctx_handshake_hash = ''h'', ctx_source_role = ''a'', ctx_next_role = ''b'', ctx_correlation_id = ''c'',
     ctx_inventory = None\<rparr>"

definition demo_manager :: quorum_manager where
  "demo_manager = \<lparr>qm_policy = \<lparr>policy_mode = ''unanimous'', halt_on_any_dissent = True\<rparr>,
     qm_validators = None, qm_ledger = None, qm_snapshot = None\<rparr>"

definition demo_voter :: validator where
  "demo_voter ctx = Inr [(''passed'', JBool True)]"

lemma demo_voter_passes: "ballot_passed (run_one ctx vid demo_voter)"
  by (simp add: run_one_def demo_voter_def stabilize_passed) (simp add: ballot_passed_def)

theorem validate_passes_iff_witness:
  "\<exists>b. fst (validate ''t0'' ''t1'' demo_ctx [(''v'', demo_voter)] demo_manager) = Inr [(''v'', b)]"
  using validate_passes_iff [of "''t0''" "''t1''" demo_ctx "[(''v'', demo_voter)]" demo_manager
      "[(''v'', run_one demo_ctx ''v'' demo_voter)]"] demo_voter_passes
  by (simp add: collect_distinct required_passes_def dvalues_def demo_manager_def)

text \<open>any two supermajorities of one electorate share more voters than a third of the others can
  corrupt, and a required number of passes never exceeds the number of voters.\<close>

theorem supermajority_overlap:
  assumes "policy_mode p = ''supermajority''" and "required_passes p (card V) = Inr r"
    and "finite V" and "V \<noteq> {}" and "A \<subseteq> V" and "B \<subseteq> V" and "r \<le> card A" and "r \<le> card B"
  shows "r \<le> card V \<and> (card V - 1) div 3 < card (A \<inter> B)"
proof -
  obtain k where k: "card V = Suc k" using assms(3,4) by (metis card_gt_0_iff gr0_implies_Suc)
  with assms(1,2) have r: "r = (2 * Suc k) div 3 + 1" by (simp add: required_passes_def)
  with k assms supermajority.intersection [of V k A B] supermajority.reachable [of k] show ?thesis by simp
qed

theorem supermajority_overlap_witness:
  "(0::nat) < card ({1, 2, 3} \<inter> {2, 3, 4 :: nat})"
  using supermajority_overlap [of "\<lparr>policy_mode = ''supermajority'', halt_on_any_dissent = False\<rparr>" "{1, 2, 3, 4 :: nat}" 3
      "{1, 2, 3}" "{2, 3, 4}"]
  by (simp add: required_passes_def)

text \<open>the decision and the ledger do not depend on the order in which the validators finish.\<close>

theorem validate_order_independent:
  assumes "mset vs = mset vs'" and "distinct (map fst vs)"
  shows "is_ok (fst (validate ts0 ts1 ctx vs m)) = is_ok (fst (validate ts0 ts1 ctx vs' m)) \<and>
    qm_ledger (snd (validate ts0 ts1 ctx vs m)) = qm_ledger (snd (validate ts0 ts1 ctx vs' m)) \<and>
    dget (collect_ballots ctx vs) = dget (collect_ballots ctx vs')"
proof -
  let ?f = "\<lambda>(vid, v). (vid, run_one ctx vid v)"
  have dist': "distinct (map fst vs')" using assms by (metis mset_eq_imp_distinct_iff mset_map)
  note col = collect_distinct [OF assms(2)] collect_distinct [OF dist']
  have perm: "mset (collect_ballots ctx vs) = mset (collect_ballots ctx vs')"
    using assms(1) by (simp add: col)
  have keys: "distinct (map fst (collect_ballots ctx vs))" "distinct (map fst (collect_ballots ctx vs'))"
    using assms(2) dist' by (simp_all add: col comp_def case_prod_unfold)
  have enf: "enforce_quorum p s (collect_ballots ctx vs) = enforce_quorum p s (collect_ballots ctx vs')" for p s
    by (rule enforce_quorum_perm [OF perm])
  have ord: "ordered_ballots (collect_ballots ctx vs) = ordered_ballots (collect_ballots ctx vs')"
    by (rule ordered_ballots_perm [OF perm keys(1)])
  have len: "length (collect_ballots ctx vs) = length (collect_ballots ctx vs')" using perm by (metis size_mset)
  have "mset (filter ballot_passed (dvalues (collect_ballots ctx vs))) =
      mset (filter ballot_passed (dvalues (collect_ballots ctx vs')))"
    using perm by (simp add: dvalues_def)
  then have pass: "length (filter ballot_passed (dvalues (collect_ballots ctx vs))) =
      length (filter ballot_passed (dvalues (collect_ballots ctx vs')))" by (metis size_mset)
  have "dget (collect_ballots ctx vs) = dget (collect_ballots ctx vs')"
    using perm keys by (auto simp: dget_def fun_eq_iff intro: map_of_eqI)
      (metis map_of_inject_set mset_eq_setD)
  moreover have "qm_ledger (snd (validate ts0 ts1 ctx vs m)) = qm_ledger (snd (validate ts0 ts1 ctx vs' m))"
    by (simp add: validate_def Let_def enf len pass collected_block_def dissent_block_def ord ledger_append_def
        split: sum.splits quorum_error.splits option.splits)
  moreover have "is_ok (fst (validate ts0 ts1 ctx vs m)) = is_ok (fst (validate ts0 ts1 ctx vs' m))"
    by (simp add: validate_def Let_def enf split: sum.splits quorum_error.splits)
  ultimately show ?thesis by blast
qed

theorem validate_order_independent_witness:
  "is_ok (fst (validate ''t0'' ''t1'' demo_ctx [(''v'', demo_voter), (''w'', demo_voter)] demo_manager)) =
    is_ok (fst (validate ''t0'' ''t1'' demo_ctx [(''w'', demo_voter), (''v'', demo_voter)] demo_manager))"
  using validate_order_independent [of "[(''v'', demo_voter), (''w'', demo_voter)]" "[(''w'', demo_voter), (''v'', demo_voter)]"]
  by (simp add: add_mset_commute)

text \<open>C19: a stage that passes the default validators, where any dissent halts, carries a payload
  that conforms to its schema, has no vulnerability pattern and names only well-formed repositories.\<close>

theorem default_quorum_sound:
  assumes "halt_on_any_dissent (qm_policy m)"
    and "fst (validate ts0 ts1 ctx (default_validators_for_stage show_error uword (ctx_stage ctx)) m) = Inr ballots"
  shows "conforms (schema_def (ctx_schema ctx)) (JObj (ctx_payload ctx)) \<and>
    security_hits uword (ctx_payload ctx) = [] \<and>
    (\<exists>names. str_elems (jget (ctx_payload ctx) ''target_repositories'') = Some names \<and> list_all repo_name_ok names)"
  using default_votes_sound [OF default_distinct refl] assms
  unfolding validate_passes_ok by blast

lemma demo_ctx_clean:
  "validate_against_schema (JObj (ctx_payload demo_ctx)) (schema_def (ctx_schema demo_ctx)) = Inr ()"
  "security_hits (\<lambda>_. False) (ctx_payload demo_ctx) = []"
  "repo_name_ok ''repo''"
  by code_simp+

theorem default_quorum_sound_witness:
  "conforms [(''type'', JStr ''object'')] (JObj [(''target_repositories'', JArr [JStr ''repo''])])"
proof -
  let ?vs = "default_validators_for_stage (\<lambda>_. []) (\<lambda>_. False) (ctx_stage demo_ctx)"
  have "distinct (map fst ?vs)"
    by (simp add: default_validators_for_stage_def twin_auditor_id_def)
  note col = collect_distinct [OF this]
  have "ctx_inventory demo_ctx = None" "jget (ctx_payload demo_ctx) ''target_repositories'' = JArr [JStr ''repo'']"
    by (simp_all add: demo_ctx_def)
  then have "list_all ballot_passed (dvalues (collect_ballots demo_ctx ?vs))"
    using demo_ctx_clean
    by (simp add: col dvalues_def) (simp add: default_validators_for_stage_def run_one_def stabilize_passed
        schema_auditor_def security_worker_def regression_worker_def make_ballot_passed Let_def)
  then have "fst (validate ''t0'' ''t1'' demo_ctx ?vs demo_manager) = Inr (collect_ballots demo_ctx ?vs)"
    unfolding validate_passes_ok
    by (auto simp: demo_manager_def required_passes_def list_all_iff dvalues_def)
  from default_quorum_sound [OF _ this] show ?thesis by (simp add: demo_manager_def demo_ctx_def)
qed

text \<open>every collected ballot is attributed to its validator and carries the signature of its
  content, also for validators that raise.\<close>

theorem collected_ballots_signed:
  assumes "(vid, b) \<in> set (collect_ballots ctx vs)" and "distinct (map fst vs)"
  shows "jget b ''validator_id'' = JStr vid \<and> jget b ''ballot_signature'' = JStr (ballot_signature b)"
  using assms by (auto simp: collect_distinct run_one_def stabilize_fields)

theorem collected_ballots_signed_witness:
  "jget (run_one demo_ctx ''v'' demo_voter) ''validator_id'' = JStr ''v''"
  using collected_ballots_signed [of "''v''" "run_one demo_ctx ''v'' demo_voter" demo_ctx "[(''v'', demo_voter)]"]
  by (simp add: collect_distinct)

end
