(* ===== verification/Workspace_Tx.thy ===== *)
theory Workspace_Tx
  imports Schema Proof_Ledger
begin

text \<open>
  \<^verbatim>\<open>core/transaction_manager.py\<close>: copy-on-write workspace transactions. While a
  transaction is current, opening a file of the workspace for writing is redirected to a staged
  copy and a deletion is recorded; the commit replays the touched entries on the live files.

  The file system is a map from resolved absolute paths (lists of components) to contents; the
  staging directory of a transaction is its own map. Directories, permissions and I/O failures
  are not modelled, so the branches that swallow \<^verbatim>\<open>OSError\<close> do not appear. The advisory
  locks of \<^verbatim>\<open>fcntl.flock\<close> are: a lock belongs to the open file description, so a second
  \<^verbatim>\<open>open\<close> of a lock file that is already locked is refused, also to the same process.
\<close>

section \<open>Paths\<close>

type_synonym path = "string list"

definition path_str :: "path \<Rightarrow> string" where
  "path_str p = ''/'' @ join ''/'' p"

definition posix :: "path \<Rightarrow> string" where
  "posix p = join ''/'' p"

text \<open>The components of a path text; empty ones are dropped.\<close>

fun split_slash :: "string \<Rightarrow> string \<Rightarrow> string list" where
  "split_slash cur [] = (if cur = [] then [] else [cur])"
| "split_slash cur (c # cs) =
     (if c = CHR ''/'' then (if cur = [] then split_slash [] cs else cur # split_slash [] cs)
      else split_slash (cur @ [c]) cs)"

definition path_of :: "string \<Rightarrow> path" where
  "path_of s = split_slash [] s"

definition path_ok :: "path \<Rightarrow> bool" where
  "path_ok p \<longleftrightarrow> (\<forall>c \<in> set p. c \<noteq> [] \<and> CHR ''/'' \<notin> set c)"

definition is_within :: "path \<Rightarrow> path \<Rightarrow> bool" where
  "is_within p rt \<longleftrightarrow> take (length rt) p = rt"

definition relative_to :: "path \<Rightarrow> path \<Rightarrow> string" where
  "relative_to p rt = posix (drop (length rt) p)"

definition mode_is_write :: "string \<Rightarrow> bool" where
  "mode_is_write mode \<longleftrightarrow> list_ex (\<lambda>c. c \<in> set mode) ''wax+''"

section \<open>The lock registry\<close>

datatype tx_error =
    WorkspaceIsolationError string
  | FileExistsError path
  | FileNotFoundError
  | EmptyRoots

type_synonym owners = "(path, string) dict"

definition try_acquire :: "path \<Rightarrow> string \<Rightarrow> owners \<Rightarrow> (tx_error, owners) res" where
  "try_acquire p owner os =
     (case dget os p of
        None \<Rightarrow> Inr (dput p owner os)
      | Some current \<Rightarrow>
          if current = owner then Inr (dput p owner os)
          else Inl (WorkspaceIsolationError (''Path locked by another transaction: '' @ path_str p)))"

definition release_all :: "string \<Rightarrow> owners \<Rightarrow> owners" where
  "release_all owner os = filter (\<lambda>(p, o'). o' \<noteq> owner) os"

definition is_locked_by_other :: "path \<Rightarrow> string \<Rightarrow> owners \<Rightarrow> bool" where
  "is_locked_by_other p owner os =
     (case dget os p of None \<Rightarrow> False | Some current \<Rightarrow> current \<noteq> owner)"

definition stable_lock_name :: "path \<Rightarrow> string" where
  "stable_lock_name p = take 32 (sha256_hex (path_str p))"

section \<open>State\<close>

datatype touch_op = Write | Delete

record touched_entry =
  te_op :: touch_op
  te_root :: nat
  te_rel :: string

datatype manifest_state = Staging | Committing | Committed | RolledBack

fun op_name :: "touch_op \<Rightarrow> string" where
  "op_name Write = ''write''"
| "op_name Delete = ''delete''"

fun state_name :: "manifest_state \<Rightarrow> string" where
  "state_name Staging = ''staging''"
| "state_name Committing = ''committing''"
| "state_name Committed = ''committed''"
| "state_name RolledBack = ''rolled_back''"

text \<open>
  The world outside a transaction: the live files, the process-wide registry, the lock files
  that some open file description has locked, and whether \<^verbatim>\<open>fcntl\<close> is available.
\<close>

record world =
  live :: "(path, string) dict"
  lock_owners :: owners
  flocks :: "(path \<times> string) list"
  has_fcntl :: bool

record wtx =
  tx_roots :: "path list"
  tx_exclude :: "path list"
  tx_token :: string
  tx_stage :: string
  txn_id :: string
  touched :: "touched_entry list"
  staged :: "(nat \<times> string, string) dict"
  lock_fds :: "(path \<times> string) list"
  current :: bool
  finalized :: bool
  manifest :: "jdict option"
  tx_ledger :: "ledger option"

definition new_tx :: "path list \<Rightarrow> path list \<Rightarrow> string \<Rightarrow> string \<Rightarrow> string \<Rightarrow> ledger option \<Rightarrow> (tx_error, wtx) res" where
  "new_tx roots exclude token stage uuid lg =
     (if roots = [] then Inl EmptyRoots
      else Inr \<lparr>tx_roots = roots, tx_exclude = exclude, tx_token = token, tx_stage = stage, txn_id = uuid,
                touched = [], staged = [], lock_fds = [], current = False, finalized = False,
                manifest = None, tx_ledger = lg\<rparr>)"

definition staging_base :: "wtx \<Rightarrow> path" where
  "staging_base tx = hd (tx_roots tx) @ [''.workspace_staging'', tx_token tx, tx_stage tx, txn_id tx]"

definition locks_dir :: "wtx \<Rightarrow> path" where
  "locks_dir tx = hd (tx_roots tx) @ [''.workspace_staging'', ''.locks'']"

section \<open>The manifest\<close>

definition entry_key :: "touched_entry \<Rightarrow> string \<times> nat \<times> string" where
  "entry_key e = (op_name (te_op e), te_root e, te_rel e)"

definition entry_json :: "touched_entry \<Rightarrow> jval" where
  "entry_json e =
     JObj [(''op'', JStr (op_name (te_op e))), (''root_index'', JInt (int (te_root e))), (''relpath'', JStr (te_rel e))]"

definition touched_json :: "wtx \<Rightarrow> jval" where
  "touched_json tx = JArr (map entry_json (sort_key entry_key (touched tx)))"

definition write_manifest :: "flt \<Rightarrow> manifest_state \<Rightarrow> wtx \<Rightarrow> wtx" where
  "write_manifest now st tx =
     tx\<lparr>manifest := Some
       [(''version'', JInt 1), (''token'', JStr (tx_token tx)), (''stage'', JStr (tx_stage tx)),
        (''txn_id'', JStr (txn_id tx)), (''state'', JStr (state_name st)), (''created_at'', JFloat now),
        (''repo_roots'', JArr (map (\<lambda>p. JStr (path_str p)) (tx_roots tx))), (''touched'', touched_json tx)]\<rparr>"

definition tx_append :: "string \<Rightarrow> jdict \<Rightarrow> wtx \<Rightarrow> wtx" where
  "tx_append ts payload tx =
     (case tx_ledger tx of
        None \<Rightarrow> tx
      | Some lg \<Rightarrow> tx\<lparr>tx_ledger := Some (snd (append_block ts payload lg))\<rparr>)"

definition tx_enter :: "flt \<Rightarrow> string \<Rightarrow> wtx \<Rightarrow> wtx" where
  "tx_enter now ts tx =
     tx_append ts
       [(''kind'', JStr ''TX_BEGIN''), (''token'', JStr (tx_token tx)), (''stage'', JStr (tx_stage tx)),
        (''txn_id'', JStr (txn_id tx)), (''staging_base'', JStr (path_str (staging_base tx))),
        (''repo_roots'', JArr (map (\<lambda>p. JStr (path_str p)) (tx_roots tx)))]
       (write_manifest now Staging (tx\<lparr>current := True\<rparr>))"

section \<open>Redirection\<close>

definition is_excluded :: "wtx \<Rightarrow> path \<Rightarrow> bool" where
  "is_excluded tx p \<longleftrightarrow>
     list_ex (is_within p) (tx_exclude tx) \<or>
     list_ex (\<lambda>rt. is_within p (rt @ [''.workspace_staging'']) \<or> is_within p (rt @ [''.git''])) (tx_roots tx)"

definition find_root_index :: "wtx \<Rightarrow> path \<Rightarrow> nat option" where
  "find_root_index tx p =
     map_option snd
       (foldl (\<lambda>best (idx, rt).
          if is_within p rt then
            (let score = py_len (path_str rt) in
             case best of
               None \<Rightarrow> Some (score, idx)
             | Some (s, i) \<Rightarrow> if score > s then Some (score, idx) else best)
          else best) None (zip [0..<length (tx_roots tx)] (tx_roots tx)))"

definition acquire_lock :: "path \<Rightarrow> wtx \<Rightarrow> world \<Rightarrow> (tx_error, unit) res \<times> wtx \<times> world" where
  "acquire_lock p tx w =
     (case try_acquire p (txn_id tx) (lock_owners w) of
        Inl e \<Rightarrow> (Inl e, tx, w)
      | Inr os \<Rightarrow>
          (let w1 = w\<lparr>lock_owners := os\<rparr> in
           if \<not> has_fcntl w then (Inr (), tx, w1)
           else
             (let lk = (locks_dir tx, stable_lock_name p) in
              if lk \<in> set (flocks w)
              then (Inl (WorkspaceIsolationError (''Unable to acquire filesystem lock: '' @ path_str p)), tx, w1)
              else (Inr (), tx\<lparr>lock_fds := lk # lock_fds tx\<rparr>, w1\<lparr>flocks := lk # flocks w\<rparr>))))"

definition release_locks :: "wtx \<Rightarrow> world \<Rightarrow> wtx \<times> world" where
  "release_locks tx w =
     (tx\<lparr>lock_fds := []\<rparr>,
      w\<lparr>lock_owners := release_all (txn_id tx) (lock_owners w),
        flocks := filter (\<lambda>lk. lk \<notin> set (lock_fds tx)) (flocks w)\<rparr>)"

definition register_touch :: "flt \<Rightarrow> touched_entry \<Rightarrow> wtx \<Rightarrow> wtx" where
  "register_touch now e tx =
     write_manifest now Staging
       (if e \<in> set (touched tx) then tx else tx\<lparr>touched := touched tx @ [e]\<rparr>)"

datatype target = Direct path | Redirected nat string

text \<open>An append starts from the committed version.\<close>

definition copy_for_append :: "path \<Rightarrow> string \<Rightarrow> nat \<times> string \<Rightarrow> wtx \<Rightarrow> world \<Rightarrow> wtx" where
  "copy_for_append p mode k tx w =
     (if CHR ''a'' \<in> set mode \<and> \<not> dhas (staged tx) k
      then (case dget (live w) p of None \<Rightarrow> tx | Some c \<Rightarrow> tx\<lparr>staged := dput k c (staged tx)\<rparr>)
      else tx)"

text \<open>\<open>_map_for_open\<close> on a resolved absolute path.\<close>

definition map_for_open ::
  "flt \<Rightarrow> path \<Rightarrow> string \<Rightarrow> wtx \<Rightarrow> world \<Rightarrow> (tx_error, target) res \<times> wtx \<times> world" where
  "map_for_open now p mode tx w =
     (if is_excluded tx p then (Inr (Direct p), tx, w)
      else
        (case find_root_index tx p of
           None \<Rightarrow> (Inr (Direct p), tx, w)
         | Some i \<Rightarrow>
             (let rel = relative_to p (tx_roots tx ! i) in
              if \<not> mode_is_write mode then
                (if is_locked_by_other p (txn_id tx) (lock_owners w)
                 then (Inl (WorkspaceIsolationError (''Read blocked by uncommitted writer: '' @ path_str p)), tx, w)
                 else if dhas (staged tx) (i, rel) then (Inr (Redirected i rel), tx, w)
                 else (Inr (Direct p), tx, w))
              else
                (case acquire_lock p tx w of
                   (Inl e, tx1, w1) \<Rightarrow> (Inl e, tx1, w1)
                 | (Inr _, tx1, w1) \<Rightarrow>
                     if CHR ''x'' \<in> set mode \<and> \<not> dhas (staged tx1) (i, rel) \<and> dhas (live w1) p
                     then (Inl (FileExistsError p), tx1, w1)
                     else
                       (Inr (Redirected i rel),
                        register_touch now \<lparr>te_op = Write, te_root = i, te_rel = rel\<rparr>
                          (copy_for_append p mode (i, rel) tx1 w1), w1)))))"

definition stage_delete ::
  "flt \<Rightarrow> path \<Rightarrow> wtx \<Rightarrow> world \<Rightarrow> (tx_error, unit) res \<times> wtx \<times> world" where
  "stage_delete now p tx w =
     (if is_excluded tx p then (Inr (), tx, w)
      else
        (case find_root_index tx p of
           None \<Rightarrow> (Inr (), tx, w)
         | Some i \<Rightarrow>
             (case acquire_lock p tx w of
                (Inl e, tx1, w1) \<Rightarrow> (Inl e, tx1, w1)
              | (Inr _, tx1, w1) \<Rightarrow>
                  (Inr (), register_touch now \<lparr>te_op = Delete, te_root = i, te_rel = relative_to p (tx_roots tx ! i)\<rparr> tx1, w1))))"

text \<open>What \<^verbatim>\<open>open(target, mode)\<close> followed by writing \<open>data\<close> leaves in the file.\<close>

definition written :: "path \<Rightarrow> string \<Rightarrow> string option \<Rightarrow> string \<Rightarrow> (tx_error, string) res" where
  "written p mode old data =
     (if CHR ''x'' \<in> set mode then (case old of None \<Rightarrow> Inr data | Some _ \<Rightarrow> Inl (FileExistsError p))
      else if CHR ''w'' \<in> set mode then Inr data
      else if CHR ''a'' \<in> set mode then Inr (case old of None \<Rightarrow> data | Some c \<Rightarrow> c @ data)
      else (case old of None \<Rightarrow> Inl FileNotFoundError | Some c \<Rightarrow> Inr (data @ drop (length data) c)))"

definition target_content :: "target \<Rightarrow> wtx \<Rightarrow> world \<Rightarrow> string option" where
  "target_content t tx w = (case t of Direct p \<Rightarrow> dget (live w) p | Redirected i r \<Rightarrow> dget (staged tx) (i, r))"

definition put_target :: "target \<Rightarrow> string \<Rightarrow> wtx \<Rightarrow> world \<Rightarrow> wtx \<times> world" where
  "put_target t c tx w =
     (case t of
        Direct p \<Rightarrow> (tx, w\<lparr>live := dput p c (live w)\<rparr>)
      | Redirected i r \<Rightarrow> (tx\<lparr>staged := dput (i, r) c (staged tx)\<rparr>, w))"

text \<open>The hooked \<^verbatim>\<open>open\<close> for writing and for reading, inside the transaction.\<close>

definition tx_write ::
  "flt \<Rightarrow> path \<Rightarrow> string \<Rightarrow> string \<Rightarrow> wtx \<Rightarrow> world \<Rightarrow> (tx_error, unit) res \<times> wtx \<times> world" where
  "tx_write now p mode data tx w =
     (case map_for_open now p mode tx w of
        (Inl e, tx1, w1) \<Rightarrow> (Inl e, tx1, w1)
      | (Inr t, tx1, w1) \<Rightarrow>
          (case written p mode (target_content t tx1 w1) data of
             Inl e \<Rightarrow> (Inl e, tx1, w1)
           | Inr c \<Rightarrow> (let (tx2, w2) = put_target t c tx1 w1 in (Inr (), tx2, w2))))"

definition tx_read :: "flt \<Rightarrow> path \<Rightarrow> wtx \<Rightarrow> world \<Rightarrow> (tx_error, string) res" where
  "tx_read now p tx w =
     (case map_for_open now p ''r'' tx w of
        (Inl e, _, _) \<Rightarrow> Inl e
      | (Inr t, tx1, w1) \<Rightarrow>
          (case target_content t tx1 w1 of None \<Rightarrow> Inl FileNotFoundError | Some c \<Rightarrow> Inr c))"

text \<open>
  The hooked \<^verbatim>\<open>Path.unlink\<close>: a current transaction stages the deletion, otherwise the
  live file goes.
\<close>

definition path_unlink ::
  "flt \<Rightarrow> path \<Rightarrow> wtx \<Rightarrow> world \<Rightarrow> (tx_error, unit) res \<times> wtx \<times> world" where
  "path_unlink now p tx w =
     (if current tx then stage_delete now p tx w
      else if dhas (live w) p then (Inr (), tx, w\<lparr>live := dpop p (live w)\<rparr>)
      else (Inl FileNotFoundError, tx, w))"

section \<open>Commit and rollback\<close>

definition b64_char :: "nat \<Rightarrow> char" where
  "b64_char n = ''ABCDEFGHIJKLMNOPQRSTUVWXYZabcdefghijklmnopqrstuvwxyz0123456789+/'' ! n"

fun b64encode :: "string \<Rightarrow> string" where
  "b64encode [] = []"
| "b64encode [a] =
     (let n = of_char a * 16 in [b64_char (n div 64), b64_char (n mod 64), CHR ''='', CHR ''=''])"
| "b64encode [a, b] =
     (let n = (of_char a * 256 + of_char b) * 4
      in [b64_char (n div 4096), b64_char (n div 64 mod 64), b64_char (n mod 64), CHR ''=''])"
| "b64encode (a # b # c # cs) =
     (let n = of_char a * 65536 + of_char b * 256 + of_char c
      in [b64_char (n div 262144), b64_char (n div 4096 mod 64), b64_char (n div 64 mod 64), b64_char (n mod 64)]
         @ b64encode cs)"

definition staged_item :: "string \<Rightarrow> jval" where
  "staged_item data =
     JObj ([(''sha256'', JStr (sha256_hex data)), (''bytes'', JInt (int (length data)))] @
           (if length data \<le> 65536 then [(''content_b64'', JStr (b64encode data))] else []))"

definition snapshot_key :: "touched_entry \<Rightarrow> nat \<times> string \<times> string" where
  "snapshot_key e = (te_root e, te_rel e, op_name (te_op e))"

definition staged_files :: "wtx \<Rightarrow> jdict" where
  "staged_files tx =
     foldl (\<lambda>d e.
       if te_op e = Write then
         (case dget (staged tx) (te_root e, te_rel e) of
            None \<Rightarrow> d
          | Some c \<Rightarrow> dput (show_nat (te_root e) @ '':'' @ te_rel e) (staged_item c) d)
       else d) [] (sort_key snapshot_key (touched tx))"

definition tx_block :: "string \<Rightarrow> wtx \<Rightarrow> jval \<Rightarrow> jdict \<Rightarrow> jdict" where
  "tx_block kind tx touched_js files =
     [(''kind'', JStr kind), (''token'', JStr (tx_token tx)), (''stage'', JStr (tx_stage tx)),
      (''txn_id'', JStr (txn_id tx)), (''touched'', touched_js), (''staged_files'', JObj files)]"

definition cleanup_staging :: "wtx \<Rightarrow> wtx" where
  "cleanup_staging tx = tx\<lparr>staged := [], manifest := None\<rparr>"

definition live_path :: "wtx \<Rightarrow> touched_entry \<Rightarrow> path" where
  "live_path tx e = tx_roots tx ! te_root e @ path_of (te_rel e)"

definition apply_entry ::
  "flt \<Rightarrow> touched_entry \<Rightarrow> wtx \<Rightarrow> world \<Rightarrow> (tx_error, unit) res \<times> wtx \<times> world" where
  "apply_entry now e tx w =
     (if te_op e = Delete then
        (if dhas (live w) (live_path tx e) then path_unlink now (live_path tx e) tx w else (Inr (), tx, w))
      else
        (case dget (staged tx) (te_root e, te_rel e) of
           None \<Rightarrow> (Inr (), tx, w)
         | Some c \<Rightarrow>
             (Inr (), tx\<lparr>staged := dpop (te_root e, te_rel e) (staged tx)\<rparr>,
              w\<lparr>live := dput (live_path tx e) c (live w)\<rparr>)))"

fun apply_entries ::
  "flt \<Rightarrow> touched_entry list \<Rightarrow> wtx \<Rightarrow> world \<Rightarrow> (tx_error, unit) res \<times> wtx \<times> world" where
  "apply_entries now [] tx w = (Inr (), tx, w)"
| "apply_entries now (e # es) tx w =
     (case apply_entry now e tx w of
        (Inl err, tx1, w1) \<Rightarrow> (Inl err, tx1, w1)
      | (Inr _, tx1, w1) \<Rightarrow> apply_entries now es tx1 w1)"

definition commit :: "flt \<Rightarrow> string \<Rightarrow> wtx \<Rightarrow> world \<Rightarrow> (tx_error, unit) res \<times> wtx \<times> world" where
  "commit now ts tx w =
     (if finalized tx then (Inr (), tx, w)
      else
        (let js = touched_json tx; files = staged_files tx in
         case apply_entries now (touched tx) (write_manifest now Committing tx) w of
           (Inl e, tx1, w1) \<Rightarrow> (Inl e, tx1, w1)
         | (Inr _, tx1, w1) \<Rightarrow>
             (Inr (), cleanup_staging (tx_append ts (tx_block ''TX_COMMIT'' tx js files)
                        ((write_manifest now Committed tx1)\<lparr>finalized := True\<rparr>)), w1)))"

definition rollback :: "flt \<Rightarrow> string \<Rightarrow> wtx \<Rightarrow> wtx" where
  "rollback now ts tx =
     (if finalized tx then tx
      else cleanup_staging (tx_append ts (tx_block ''TX_ROLLBACK'' tx (touched_json tx) (staged_files tx))
             ((write_manifest now RolledBack tx)\<lparr>finalized := True\<rparr>)))"

definition tx_exit :: "flt \<Rightarrow> string \<Rightarrow> bool \<Rightarrow> wtx \<Rightarrow> world \<Rightarrow> wtx \<times> world" where
  "tx_exit now ts raised tx w =
     (let tx1 = (if raised \<and> \<not> finalized tx then rollback now ts tx else tx);
          (tx2, w2) = release_locks tx1 w
      in (tx2\<lparr>current := False\<rparr>, w2))"

section \<open>Recovery\<close>

text \<open>\<open>recover_commit_from_manifest\<close> on the parsed manifest, the staged files beside it and the live ones.\<close>

definition recover_item ::
  "path list \<Rightarrow> (nat \<times> string, string) dict \<times> (path, string) dict \<Rightarrow> jval
    \<Rightarrow> (nat \<times> string, string) dict \<times> (path, string) dict" where
  "recover_item roots = (\<lambda>(files, lv) item.
     (case item of
        JObj d \<Rightarrow>
          (case (jget d ''op'', jget d ''root_index'', jget d ''relpath'') of
             (JStr op, ri, JStr rel) \<Rightarrow>
               if op \<notin> {''write'', ''delete''} \<or> \<not> is_int ri then (files, lv)
               else if int_of ri < 0 \<or> int_of ri \<ge> int (length roots) then (files, lv)
               else
                 (let i = nat (int_of ri); lp = roots ! i @ path_of rel in
                  if op = ''delete'' then (files, if dhas lv lp then dpop lp lv else lv)
                  else
                    (case (if is_bool ri then None else dget files (i, rel)) of
                       None \<Rightarrow> (files, lv)
                     | Some c \<Rightarrow> (dpop (i, rel) files, dput lp c lv)))
           | _ \<Rightarrow> (files, lv))
      | _ \<Rightarrow> (files, lv)))"

definition recover_commit_from_manifest ::
  "jval \<Rightarrow> (nat \<times> string, string) dict \<Rightarrow> (path, string) dict \<Rightarrow> (path, string) dict" where
  "recover_commit_from_manifest raw files lv =
     (case raw of
        JObj m \<Rightarrow>
          (case (str_elems (jget m ''repo_roots''), jget m ''touched'') of
             (Some roots, JArr items) \<Rightarrow> snd (foldl (recover_item (map path_of roots)) (files, lv) items)
           | _ \<Rightarrow> lv)
      | _ \<Rightarrow> lv)"

definition stage_rank :: "string \<Rightarrow> int option" where
  "stage_rank s =
     (if s = ''intake_to_architecture'' then Some 0
      else if s = ''architecture_to_risk'' then Some 1
      else if s = ''risk_to_build_execution'' then Some 2
      else None)"

text \<open>The staging tree of a token: per stage, per transaction, the manifest text value and the files.\<close>

record txn_dir =
  td_manifest :: "jval option"
  td_files :: "(nat \<times> string, string) dict"

type_synonym staging_tree = "(string, (string, txn_dir) dict) dict"

definition recover_txn :: "(path, string) dict \<Rightarrow> txn_dir \<Rightarrow> (path, string) dict" where
  "recover_txn lv td =
     (case td_manifest td of
        None \<Rightarrow> lv
      | Some m \<Rightarrow> recover_commit_from_manifest m (td_files td) lv)"

definition cleanup_workspace_staging ::
  "string option \<Rightarrow> staging_tree \<Rightarrow> (path, string) dict \<Rightarrow> staging_tree \<times> (path, string) dict" where
  "cleanup_workspace_staging active tree lv =
     (case active of
        None \<Rightarrow> ([], lv)
      | Some stage \<Rightarrow>
          (let active_rank = (case stage_rank stage of None \<Rightarrow> - 1 | Some r \<Rightarrow> r) in
           foldl (\<lambda>(out, lv) (name, txns).
             (let rank = (case stage_rank name of None \<Rightarrow> 999 | Some r \<Rightarrow> r) in
              if rank > active_rank then (out, lv)
              else (out @ [(name, [])], foldl recover_txn lv (dvalues txns)))) ([], lv) tree))"

section \<open>The lock registry excludes\<close>

locale lock_table =
  fixes acquire :: "'p \<Rightarrow> 'o \<Rightarrow> 't \<Rightarrow> ('e, 't) res" and release :: "'o \<Rightarrow> 't \<Rightarrow> 't"
    and holder :: "'t \<Rightarrow> 'p \<Rightarrow> 'o option" and invar :: "'t \<Rightarrow> bool"
  assumes acquire_holder: "acquire p a t = Inr t' \<Longrightarrow> holder t' q = (if q = p then Some a else holder t q)"
    and acquire_refused: "(\<exists>e. acquire p a t = Inl e) \<longleftrightarrow> (\<exists>b. holder t p = Some b \<and> b \<noteq> a)"
    and acquire_invar: "invar t \<Longrightarrow> acquire p a t = Inr t' \<Longrightarrow> invar t'"
    and release_holder: "invar t \<Longrightarrow> holder (release a t) q = (if holder t q = Some a then None else holder t q)"
    and release_invar: "invar t \<Longrightarrow> invar (release a t)"
begin

lemma mutual_exclusion: "acquire p a t = Inr t' \<Longrightarrow> b \<noteq> a \<Longrightarrow> \<exists>e. acquire p b t' = Inl e"
  by (simp add: acquire_refused acquire_holder)

lemma reentrant: "acquire p a t = Inr t' \<Longrightarrow> \<exists>t''. acquire p a t' = Inr t''"
  using acquire_refused [of p a t'] acquire_holder by (cases "acquire p a t'") fastforce+

lemma free_after_release:
  assumes "invar t" and "holder t p = Some a"
  shows "\<exists>t'. acquire p b (release a t) = Inr t'"
  using acquire_refused [of p b "release a t"] release_holder [OF assms(1), of a p] assms(2)
  by (cases "acquire p b (release a t)") auto

end

interpretation locks: lock_table try_acquire release_all dget wf_dict
proof
  show "try_acquire p a t = Inr t' \<Longrightarrow> dget t' q = (if q = p then Some a else dget t q)" for p a t t' q
    by (auto simp: try_acquire_def dget_dput split: option.splits if_splits)
  show "(\<exists>e. try_acquire p a t = Inl e) \<longleftrightarrow> (\<exists>b. dget t p = Some b \<and> b \<noteq> a)" for p a t
    by (auto simp: try_acquire_def split: option.splits)
  show "wf_dict t \<Longrightarrow> try_acquire p a t = Inr t' \<Longrightarrow> wf_dict t'" for t p a t'
    by (auto simp: try_acquire_def split: option.splits if_splits)
  show wf: "wf_dict t \<Longrightarrow> wf_dict (release_all a t)" for t a
    by (simp add: wf_dict_def release_all_def distinct_map_filter)
  show "dget (release_all a t) q = (if dget t q = Some a then None else dget t q)" if "wf_dict t" for t a q
  proof -
    have "dget (release_all a t) q = Some b \<longleftrightarrow> dget t q = Some b \<and> b \<noteq> a" for b
      unfolding wf_dict_dget_iff [OF that] wf_dict_dget_iff [OF wf [OF that]] by (auto simp: release_all_def)
    then show ?thesis by (metis option.exhaust)
  qed
qed

section \<open>Paths of entries\<close>

lemma split_slash_comp:
  "CHR ''/'' \<notin> set c \<Longrightarrow> split_slash cur (c @ s) = split_slash (cur @ c) s"
  by (induction c arbitrary: cur) auto

lemma path_of_join: "path_ok p \<Longrightarrow> path_of (join ''/'' p) = p"
proof -
  have "path_ok p \<Longrightarrow> split_slash [] (join ''/'' p) = p"
  proof (induction p rule: induct_list012)
    case (3 c d cs)
    have "split_slash [] (join ''/'' (c # d # cs)) = split_slash c (CHR ''/'' # join ''/'' (d # cs))"
      using "3.prems" split_slash_comp [of c "[]"] by (simp add: path_ok_def)
    also have "\<dots> = c # d # cs" using 3 by (simp add: path_ok_def)
    finally show ?case .
  qed (auto simp: path_ok_def split_slash_comp [of _ "[]" "[]", simplified])
  then show "path_ok p \<Longrightarrow> ?thesis" by (simp add: path_of_def)
qed

lemma path_of_str: "path_ok p \<Longrightarrow> path_of (path_str p) = p"
  using path_of_join [of p] by (simp add: path_str_def path_of_def)

lemma path_ok_drop: "path_ok p \<Longrightarrow> path_ok (drop n p)"
  by (auto simp: path_ok_def dest: in_set_dropD)

lemma path_relative: "path_ok p \<Longrightarrow> is_within p r \<Longrightarrow> r @ path_of (relative_to p r) = p"
  unfolding relative_to_def posix_def is_within_def
  by (metis append_take_drop_id path_of_join path_ok_drop)

lemma find_root_within: "find_root_index tx p = Some i \<Longrightarrow> i < length (tx_roots tx) \<and> is_within p (tx_roots tx ! i)"
proof -
  let ?f = "\<lambda>best (idx, rt). if is_within p rt then (let score = py_len (path_str rt) in
      case best of None \<Rightarrow> Some (score, idx) | Some (s, i) \<Rightarrow> if score > s then Some (score, idx) else best) else best"
  let ?P = "\<lambda>best. \<forall>s i. best = Some (s, i) \<longrightarrow> i < length (tx_roots tx) \<and> is_within p (tx_roots tx ! i)"
  have "?P (foldl ?f None (zip [0..<length (tx_roots tx)] (tx_roots tx)))"
    by (rule foldl_invariant [where P = ?P])
      (auto simp: set_zip Let_def split: if_splits option.splits prod.splits)
  then show "find_root_index tx p = Some i \<Longrightarrow> ?thesis"
    unfolding find_root_index_def by (auto simp: map_option_case split: option.splits prod.splits)
qed

definition in_scope :: "wtx \<Rightarrow> path \<Rightarrow> bool" where
  "in_scope tx p \<longleftrightarrow> \<not> is_excluded tx p \<and> find_root_index tx p \<noteq> None"

section \<open>Isolation\<close>

text \<open>What no operation inside the transaction changes.\<close>

definition same_frame :: "wtx \<Rightarrow> wtx \<Rightarrow> bool" where
  "same_frame tx tx' \<longleftrightarrow> tx_roots tx' = tx_roots tx \<and> tx_exclude tx' = tx_exclude tx \<and>
     txn_id tx' = txn_id tx \<and> current tx' = current tx"

lemma same_frame_refl [simp]: "same_frame tx tx"
  by (simp add: same_frame_def)

lemma same_frame_trans: "same_frame a b \<Longrightarrow> same_frame b c \<Longrightarrow> same_frame a c"
  by (simp add: same_frame_def)

lemma scope_frame:
  "same_frame tx tx' \<Longrightarrow> in_scope tx' p = in_scope tx p \<and> is_excluded tx' p = is_excluded tx p \<and>
    find_root_index tx' p = find_root_index tx p"
  by (simp add: same_frame_def in_scope_def is_excluded_def find_root_index_def)

lemma frame_simps [simp]:
  "same_frame tx (write_manifest now st tx') = same_frame tx tx'"
  "same_frame tx (tx_append ts pl tx') = same_frame tx tx'"
  "same_frame tx (register_touch now e tx') = same_frame tx tx'"
  "same_frame tx (cleanup_staging tx') = same_frame tx tx'"
  by (auto simp: same_frame_def write_manifest_def tx_append_def register_touch_def cleanup_staging_def
      split: option.splits)

lemma copy_for_append_frame [simp]: "same_frame tx (copy_for_append p mode k tx' w) = same_frame tx tx'"
  by (simp add: copy_for_append_def same_frame_def split: option.splits)

lemma acquire_lock_effect:
  assumes "acquire_lock p tx w = (r, tx', w')"
  shows "same_frame tx tx'" "live w' = live w" "has_fcntl w' = has_fcntl w"
    "staged tx' = staged tx" "touched tx' = touched tx" "finalized tx' = finalized tx"
  using assms by (auto simp: acquire_lock_def same_frame_def Let_def split: sum.splits if_splits)

lemma register_touch_simps [simp]:
  "staged (register_touch now e tx) = staged tx" "finalized (register_touch now e tx) = finalized tx"
  "touched (register_touch now e tx) = (if e \<in> set (touched tx) then touched tx else touched tx @ [e])"
  "lock_fds (register_touch now e tx) = lock_fds tx"
  by (simp_all add: register_touch_def write_manifest_def)

lemma map_for_open_effect:
  assumes "map_for_open now p mode tx w = (r, tx', w')"
  shows "same_frame tx tx'" "live w' = live w" "r = Inr (Direct q) \<Longrightarrow> q = p \<and> (mode_is_write mode \<longrightarrow> \<not> in_scope tx p)"
proof -
  have "same_frame tx tx' \<and> live w' = live w \<and> (r = Inr (Direct q) \<longrightarrow> q = p \<and> (mode_is_write mode \<longrightarrow> \<not> in_scope tx p))"
  proof (cases "in_scope tx p \<and> mode_is_write mode")
    case False
    with assms show ?thesis
      by (auto simp: map_for_open_def Let_def in_scope_def split: if_splits option.splits)
  next
    case True
    then obtain i where i: "find_root_index tx p = Some i" "\<not> is_excluded tx p" by (auto simp: in_scope_def)
    obtain r1 tx1 w1 where a: "acquire_lock p tx w = (r1, tx1, w1)" by (metis prod_cases3)
    note eff = acquire_lock_effect [OF a]
    show ?thesis
    proof (cases r1)
      case (Inl e)
      with assms True i a eff show ?thesis by (auto simp: map_for_open_def Let_def)
    next
      case (Inr u)
      with assms True i a eff show ?thesis
        by (auto simp: map_for_open_def Let_def split: if_splits)
    qed
  qed
  then show "same_frame tx tx'" "live w' = live w"
    "r = Inr (Direct q) \<Longrightarrow> q = p \<and> (mode_is_write mode \<longrightarrow> \<not> in_scope tx p)" by auto
qed

lemma stage_delete_effect:
  assumes "stage_delete now p tx w = (r, tx', w')"
  shows "same_frame tx tx'" "live w' = live w"
  using assms
  by (auto simp: stage_delete_def dest: acquire_lock_effect split: if_splits option.splits sum.splits prod.splits)

lemma tx_write_effect:
  assumes "tx_write now p mode data tx w = (r, tx', w')" and "mode_is_write mode"
  shows "same_frame tx tx'" "in_scope tx q \<Longrightarrow> dget (live w') q = dget (live w) q"
proof -
  obtain r1 tx1 w1 where m: "map_for_open now p mode tx w = (r1, tx1, w1)" by (metis prod_cases3)
  note eff = map_for_open_effect [OF m]
  have "same_frame tx tx' \<and> (in_scope tx q \<longrightarrow> dget (live w') q = dget (live w) q)"
  proof (cases r1)
    case (Inl e)
    with assms m eff(1,2) show ?thesis by (auto simp: tx_write_def)
  next
    case (Inr t)
    show ?thesis
    proof (cases "written p mode (target_content t tx1 w1) data")
      case (Inl e)
      with assms m eff(1,2) \<open>r1 = Inr t\<close> show ?thesis by (auto simp: tx_write_def)
    next
      case c: (Inr c)
      show ?thesis
      proof (cases t)
        case (Direct p')
        with eff(3) [of p'] Inr assms(2) have "p' = p" "\<not> in_scope tx p" by auto
        with assms m Inr c Direct eff(1,2) show ?thesis
          by (auto simp: tx_write_def put_target_def dget_dput)
      next
        case (Redirected j rel)
        with assms m Inr c eff(1,2) show ?thesis
          by (auto simp: tx_write_def put_target_def same_frame_def)
      qed
    qed
  qed
  then show "same_frame tx tx'" "in_scope tx q \<Longrightarrow> dget (live w') q = dget (live w) q" by auto
qed

text \<open>The steps of client code inside the transaction, whatever their outcome, and the rollback.\<close>

inductive tx_step :: "wtx \<times> world \<Rightarrow> wtx \<times> world \<Rightarrow> bool" where
  step_write: "mode_is_write mode \<Longrightarrow> tx_write now p mode data tx w = (r, tx', w') \<Longrightarrow> tx_step (tx, w) (tx', w')"
| step_unlink: "current tx \<Longrightarrow> path_unlink now p tx w = (r, tx', w') \<Longrightarrow> tx_step (tx, w) (tx', w')"
| step_rollback: "tx_step (tx, w) (rollback now ts tx, w)"

inductive_cases tx_stepE: "tx_step (tx, w) s"

lemma tx_step_isolated:
  assumes "tx_step (tx, w) (tx', w')" and "in_scope tx q"
  shows "same_frame tx tx' \<and> dget (live w') q = dget (live w) q"
  using assms(1)
proof (cases rule: tx_step.cases)
  case (step_write mode now p data r)
  with tx_write_effect [OF step_write(2,1)] assms(2) show ?thesis by simp
next
  case (step_unlink now p r)
  with stage_delete_effect show ?thesis by (auto simp: path_unlink_def)
next
  case (step_rollback now ts)
  have "same_frame tx (tx\<lparr>finalized := True\<rparr>)" "same_frame tx ((write_manifest now RolledBack tx)\<lparr>finalized := True\<rparr>)"
    by (simp_all add: same_frame_def write_manifest_def)
  with step_rollback show ?thesis by (auto simp: rollback_def)
qed

lemma tx_steps_isolated:
  assumes "tx_step\<^sup>*\<^sup>* s s'" and "in_scope (fst s) q"
  shows "same_frame (fst s) (fst s') \<and> dget (live (snd s')) q = dget (live (snd s)) q"
  using assms
proof (induction rule: rtranclp_induct)
  case (step y z)
  obtain tx w where y: "y = (tx, w)" by (cases y)
  obtain tx' w' where z: "z = (tx', w')" by (cases z)
  from step y have "in_scope tx q" using scope_frame by fastforce
  with step y z tx_step_isolated [of tx w tx' w' q] show ?case
    by (auto intro: same_frame_trans)
qed simp

section \<open>Reading, writing and locks\<close>

lemma map_for_open_write:
  assumes "in_scope tx p" and "mode_is_write mode" and "map_for_open now p mode tx w = (Inr t, tx', w')"
  obtains i rel where "find_root_index tx p = Some i" "rel = relative_to p (tx_roots tx ! i)" "t = Redirected i rel"
    "dget (lock_owners w') p = Some (txn_id tx)"
    "has_fcntl w \<Longrightarrow> (locks_dir tx, stable_lock_name p) \<in> set (flocks w')"
    "\<lparr>te_op = Write, te_root = i, te_rel = rel\<rparr> \<in> set (touched tx')"
proof -
  from assms(1) obtain i where i: "find_root_index tx p = Some i" "\<not> is_excluded tx p" by (auto simp: in_scope_def)
  let ?rel = "relative_to p (tx_roots tx ! i)"
  obtain r tx1 w1 where a: "acquire_lock p tx w = (r, tx1, w1)" by (metis prod_cases3)
  from assms(2,3) i a obtain u where r: "r = Inr u"
    by (cases r) (auto simp: map_for_open_def Let_def)
  have "t = Redirected i ?rel" "w' = w1" "\<lparr>te_op = Write, te_root = i, te_rel = ?rel\<rparr> \<in> set (touched tx')"
    using assms(2,3) i a r by (auto simp: map_for_open_def Let_def split: if_splits option.splits)
  moreover have "dget (lock_owners w1) p = Some (txn_id tx)"
    "has_fcntl w \<Longrightarrow> (locks_dir tx, stable_lock_name p) \<in> set (flocks w1)"
    using a r by (auto simp: acquire_lock_def try_acquire_def Let_def split: option.splits if_splits sum.splits)
  ultimately show ?thesis using that i by blast
qed

lemma tx_write_ok:
  assumes "in_scope tx p" and "mode_is_write mode" and "tx_write now p mode data tx w = (Inr (), tx', w')"
  obtains i rel c where "find_root_index tx p = Some i" "rel = relative_to p (tx_roots tx ! i)"
    "dget (staged tx') (i, rel) = Some c" "dget (lock_owners w') p = Some (txn_id tx)"
    "has_fcntl w \<Longrightarrow> (locks_dir tx, stable_lock_name p) \<in> set (flocks w')"
    "mode = ''w'' \<Longrightarrow> c = data"
proof -
  obtain r tx1 w1 where m: "map_for_open now p mode tx w = (r, tx1, w1)" by (metis prod_cases3)
  from assms(3) m obtain t where r: "r = Inr t" by (cases r) (auto simp: tx_write_def)
  from map_for_open_write [OF assms(1,2) m [unfolded r]] obtain i rel where t:
    "find_root_index tx p = Some i" "rel = relative_to p (tx_roots tx ! i)" "t = Redirected i rel"
    "dget (lock_owners w1) p = Some (txn_id tx)"
    "has_fcntl w \<Longrightarrow> (locks_dir tx, stable_lock_name p) \<in> set (flocks w1)" by metis
  from assms(3) m r obtain c where c: "written p mode (target_content t tx1 w1) data = Inr c"
    by (cases "written p mode (target_content t tx1 w1) data") (auto simp: tx_write_def)
  have "dget (staged tx') (i, rel) = Some c" "w' = w1"
    using assms(3) m r c t(3) by (auto simp: tx_write_def put_target_def)
  moreover have "mode = ''w'' \<Longrightarrow> c = data" using c by (simp add: written_def)
  ultimately show ?thesis using that t by blast
qed

section \<open>Commit\<close>

lemma entry_eqI: "te_op d = te_op e \<Longrightarrow> (te_root d, te_rel d) = (te_root e, te_rel e) \<Longrightarrow> d = e"
  for d e :: touched_entry
  by simp

text \<open>What a path holds after the writes of \<open>es\<close> have been applied.\<close>

definition after_writes :: "wtx \<Rightarrow> touched_entry list \<Rightarrow> (path, string) dict \<Rightarrow> path \<Rightarrow> string option" where
  "after_writes tx es lv p =
     (case find (\<lambda>e. live_path tx e = p \<and> dhas (staged tx) (te_root e, te_rel e)) es of
        None \<Rightarrow> dget lv p
      | Some e \<Rightarrow> dget (staged tx) (te_root e, te_rel e))"

lemma apply_writes:
  assumes "\<forall>e \<in> set es. te_op e = Write" and "distinct es" and "inj_on (live_path tx) (set es)"
  shows "\<exists>tx' w'. apply_entries now es tx w = (Inr (), tx', w') \<and> tx_roots tx' = tx_roots tx \<and>
    dget (live w') = after_writes tx es (live w)"
  using assms
proof (induction es arbitrary: tx w)
  case Nil
  then show ?case by (simp add: after_writes_def fun_eq_iff)
next
  case (Cons e es)
  obtain tx1 w1 where step: "apply_entry now e tx w = (Inr (), tx1, w1)" and roots: "tx_roots tx1 = tx_roots tx"
    and lv: "\<And>p. dget (live w1) p = (if p = live_path tx e \<and> dhas (staged tx) (te_root e, te_rel e)
      then dget (staged tx) (te_root e, te_rel e) else dget (live w) p)"
    and st: "\<And>k. k \<noteq> (te_root e, te_rel e) \<Longrightarrow> dget (staged tx1) k = dget (staged tx) k"
    using Cons.prems(1)
    by (cases "dget (staged tx) (te_root e, te_rel e)") (auto simp: apply_entry_def dget_dput dget_dpop dhas_def)
  have path: "live_path tx1 = live_path tx" by (simp add: live_path_def roots fun_eq_iff)
  have inj: "inj_on (live_path tx1) (set es)" unfolding path by (rule inj_on_subset [OF Cons.prems(3)]) auto
  have ws: "\<forall>e \<in> set es. te_op e = Write" "distinct es" using Cons.prems(1,2) by simp_all
  obtain tx' w' where ih: "apply_entries now es tx1 w1 = (Inr (), tx', w')"
    "tx_roots tx' = tx_roots tx1" "dget (live w') = after_writes tx1 es (live w1)"
    using Cons.IH [OF ws inj, where w = w1] by (elim exE conjE) (rule that)
  have keys: "dget (staged tx1) (te_root d, te_rel d) = dget (staged tx) (te_root d, te_rel d)" if "d \<in> set es" for d
  proof -
    have "d \<noteq> e" "te_op d = te_op e" using that Cons.prems(1,2) by auto
    then show ?thesis using entry_eqI st by blast
  qed
  have rest: "find (\<lambda>d. live_path tx1 d = p \<and> dhas (staged tx1) (te_root d, te_rel d)) es =
      find (\<lambda>d. live_path tx d = p \<and> dhas (staged tx) (te_root d, te_rel d)) es" for p
    unfolding path dhas_def by (rule find_cong) (simp_all add: keys)
  have apart: "find (\<lambda>d. live_path tx d = live_path tx e \<and> dhas (staged tx) (te_root d, te_rel d)) es = None"
    using Cons.prems(2,3) by (auto simp: find_None_iff inj_on_def)
  have "after_writes tx1 es (live w1) p = after_writes tx (e # es) (live w) p" for p
  proof (cases "live_path tx e = p")
    case True
    with lv apart show ?thesis by (auto simp: after_writes_def rest)
  next
    case False
    have "d \<in> set es" if "find P es = Some d" for P d using that by (auto simp: find_Some_iff)
    with False lv keys show ?thesis by (auto simp: after_writes_def rest split: option.splits)
  qed
  with step ih roots show ?case by (simp add: fun_eq_iff)
qed

lemma live_path_manifest [simp]: "live_path (write_manifest now st tx) = live_path tx"
  by (simp add: live_path_def write_manifest_def fun_eq_iff)

lemma staged_manifest [simp]: "staged (write_manifest now st tx) = staged tx"
  by (simp add: write_manifest_def)

lemma tx_append_simps [simp]:
  "finalized (tx_append ts pl tx) = finalized tx" "staged (tx_append ts pl tx) = staged tx"
  by (simp_all add: tx_append_def split: option.splits)

lemma after_writes_manifest [simp]: "after_writes (write_manifest now st tx) = after_writes tx"
  by (simp add: after_writes_def fun_eq_iff split: option.splits)

lemma commit_writes:
  assumes "\<not> finalized tx" and "\<forall>e \<in> set (touched tx). te_op e = Write" and "distinct (touched tx)"
    and "inj_on (live_path tx) (set (touched tx))"
  shows "\<exists>tx' w'. commit now ts tx w = (Inr (), tx', w') \<and> finalized tx' \<and> staged tx' = [] \<and>
    dget (live w') = after_writes tx (touched tx) (live w)"
proof -
  from apply_writes [OF assms(2,3), of "write_manifest now Committing tx" now w] assms(4)
  obtain tx1 w1 where "apply_entries now (touched tx) (write_manifest now Committing tx) w = (Inr (), tx1, w1)"
    "dget (live w1) = after_writes tx (touched tx) (live w)"
    by auto
  with assms(1) show ?thesis by (simp add: commit_def Let_def cleanup_staging_def)
qed

lemma after_writes_mem:
  assumes "inj_on (live_path tx) (set es)" and "e \<in> set es"
  shows "after_writes tx es lv (live_path tx e) =
    (case dget (staged tx) (te_root e, te_rel e) of None \<Rightarrow> dget lv (live_path tx e) | Some c \<Rightarrow> Some c)"
proof -
  have eq: "d = e" if "d \<in> set es" "live_path tx d = live_path tx e" for d
    using that assms by (auto dest: inj_onD)
  show ?thesis
  proof (cases "find (\<lambda>d. live_path tx d = live_path tx e \<and> dhas (staged tx) (te_root d, te_rel d)) es")
    case None
    with assms(2) have "\<not> dhas (staged tx) (te_root e, te_rel e)" by (auto simp: find_None_iff)
    with None show ?thesis by (simp add: after_writes_def dhas_def)
  next
    case (Some d)
    then have "d \<in> set es" "live_path tx d = live_path tx e" "dhas (staged tx) (te_root d, te_rel d)"
      by (auto simp: find_Some_iff)
    with eq have "d = e" by blast
    with Some \<open>dhas (staged tx) (te_root d, te_rel d)\<close> show ?thesis
      by (auto simp: after_writes_def dhas_def)
  qed
qed

lemma after_writes_other: "p \<notin> live_path tx ` set es \<Longrightarrow> after_writes tx es lv p = dget lv p"
  by (auto simp: after_writes_def split: option.splits) (auto simp: find_Some_iff)

lemma after_writes_perm:
  assumes "set es = set es'" and "inj_on (live_path tx) (set es)"
  shows "after_writes tx es lv = after_writes tx es' lv"
proof
  fix p
  show "after_writes tx es lv p = after_writes tx es' lv p"
  proof (cases "p \<in> live_path tx ` set es")
    case True
    with assms show ?thesis by (auto simp: after_writes_mem)
  next
    case False
    with assms(1) show ?thesis by (simp add: after_writes_other)
  qed
qed

section \<open>Recovery finishes a commit\<close>

lemma recover_entries:
  assumes "\<forall>e \<in> set es. te_op e = Write \<and> te_root e < length (tx_roots tx)"
  shows "apply_entries now es tx w = (Inr (), tx', w') \<Longrightarrow>
    foldl (recover_item (tx_roots tx)) (staged tx, live w) (map entry_json es) = (staged tx', live w')"
  using assms
proof (induction es arbitrary: tx w)
  case (Cons e es)
  have item: "recover_item (tx_roots tx) (staged tx, live w) (entry_json e) =
      (case dget (staged tx) (te_root e, te_rel e) of None \<Rightarrow> (staged tx, live w)
       | Some c \<Rightarrow> (dpop (te_root e, te_rel e) (staged tx), dput (live_path tx e) c (live w)))"
    using Cons.prems(2) by (simp add: recover_item_def entry_json_def int_of_def Let_def live_path_def
        split: option.splits)
  show ?case
  proof (cases "dget (staged tx) (te_root e, te_rel e)")
    case None
    with Cons item show ?thesis by (simp add: apply_entry_def)
  next
    case (Some c)
    with Cons.IH [of "tx\<lparr>staged := dpop (te_root e, te_rel e) (staged tx)\<rparr>" "w\<lparr>live := dput (live_path tx e) c (live w)\<rparr>"]
      Cons.prems item show ?thesis by (simp add: apply_entry_def)
  qed
qed simp

lemma recover_manifest:
  assumes "manifest (write_manifest now st tx) = Some m" and "\<forall>r \<in> set (tx_roots tx). path_ok r"
  shows "recover_commit_from_manifest (JObj m) files lv =
    snd (foldl (recover_item (tx_roots tx)) (files, lv) (map entry_json (sort_key entry_key (touched tx))))"
proof -
  have "str_elems (JArr (map (\<lambda>p. JStr (f p)) ps)) = Some (map f ps)" for f and ps :: "path list"
    by (simp add: list_all_iff comp_def)
  moreover have "map path_of (map path_str (tx_roots tx)) = tx_roots tx"
    using assms(2) by (simp add: map_idI path_of_str)
  ultimately show ?thesis
    using assms(1) by (auto simp: write_manifest_def recover_commit_from_manifest_def touched_json_def)
qed

lemma tx_write_fcntl: "tx_write now p mode data tx w = (r, tx', w') \<Longrightarrow> has_fcntl w' = has_fcntl w"
proof -
  have "map_for_open now p mode tx w = (r1, tx1, w1) \<Longrightarrow> has_fcntl w1 = has_fcntl w" for r1 tx1 w1
    by (cases "acquire_lock p tx w" rule: prod_cases3; case_tac "a")
      (auto simp: map_for_open_def Let_def dest: acquire_lock_effect split: if_splits option.splits)
  then show "tx_write now p mode data tx w = (r, tx', w') \<Longrightarrow> ?thesis"
    by (cases "map_for_open now p mode tx w" rule: prod_cases3)
      (auto simp: tx_write_def put_target_def split: sum.splits target.splits prod.splits)
qed

text \<open>A lock already held through another file description is refused.\<close>

lemma acquire_again:
  assumes "has_fcntl w" and "(locks_dir tx, stable_lock_name p) \<in> set (flocks w)"
  shows "\<exists>e tx' w'. acquire_lock p tx w = (Inl e, tx', w') \<and> live w' = live w"
  using assms by (auto simp: acquire_lock_def Let_def split: sum.splits)

lemma locks_dir_frame: "same_frame tx tx' \<Longrightarrow> tx_roots tx' = tx_roots tx \<and> locks_dir tx' = locks_dir tx"
  by (simp add: same_frame_def locks_dir_def)

lemma stage_delete_ok:
  assumes "stage_delete now p tx w = (Inr (), tx', w')" and "find_root_index tx p = Some i" and "\<not> is_excluded tx p"
    and "touched tx = []" and "has_fcntl w"
  shows "touched tx' = [\<lparr>te_op = Delete, te_root = i, te_rel = relative_to p (tx_roots tx ! i)\<rparr>]"
    "(locks_dir tx, stable_lock_name p) \<in> set (flocks w')" "has_fcntl w'" "finalized tx' = finalized tx"
  using assms
  by (auto simp: stage_delete_def acquire_lock_def Let_def split: sum.splits if_splits)

section \<open>Properties\<close>

text \<open>C20: isolation. Whatever a transaction opens, writes, deletes or rolls back, the live content of
  every file in its scope stays as it was.\<close>

theorem tx_isolation:
  assumes "tx_step\<^sup>*\<^sup>* (tx, w) (tx', w')" and "in_scope tx p"
  shows "dget (live w') p = dget (live w) p"
  using tx_steps_isolated [OF assms(1)] assms(2) by simp

definition demo_tx :: wtx where
  "demo_tx = \<lparr>tx_roots = [[''r'']], tx_exclude = [], tx_token = ''t'', tx_stage = ''s'', txn_id = ''u'', touched = [],
     staged = [], lock_fds = [], current = True, finalized = False, manifest = None, tx_ledger = None\<rparr>"

definition demo_world :: world where
  "demo_world = \<lparr>live = [([''r'', ''f''], ''old'')], lock_owners = [], flocks = [], has_fcntl = True\<rparr>"

lemma demo_scope: "in_scope demo_tx [''r'', ''f'']" "find_root_index demo_tx [''r'', ''f''] = Some 0"
  by (simp_all add: in_scope_def is_excluded_def find_root_index_def demo_tx_def is_within_def)

lemma demo_write_modes: "mode_is_write ''w''"
  by (simp add: mode_is_write_def)

theorem tx_isolation_witness:
  "dget (live (snd (snd (tx_write ''0.0'' [''r'', ''f''] ''w'' ''new'' demo_tx demo_world)))) [''r'', ''f''] = Some ''old''"
proof -
  obtain r tx' w' where t: "tx_write ''0.0'' [''r'', ''f''] ''w'' ''new'' demo_tx demo_world = (r, tx', w')"
    by (metis prod_cases3)
  have "tx_step\<^sup>*\<^sup>* (demo_tx, demo_world) (tx', w')"
    using step_write [OF demo_write_modes t] by blast
  from tx_isolation [OF this demo_scope(1)] t show ?thesis by (simp add: demo_world_def)
qed

text \<open>a transaction reads its own writes.\<close>

theorem tx_reads_own_write:
  assumes "in_scope tx p" and "tx_write now p ''w'' data tx w = (Inr (), tx', w')"
  shows "tx_read now' p tx' w' = Inr data"
proof -
  note frame = tx_write_effect(1) [OF assms(2) demo_write_modes]
  obtain i rel c where c: "find_root_index tx p = Some i" "rel = relative_to p (tx_roots tx ! i)"
    "dget (staged tx') (i, rel) = Some c" "dget (lock_owners w') p = Some (txn_id tx)" "c = data"
    using tx_write_ok [OF assms(1) demo_write_modes assms(2)] by metis
  have "\<not> is_excluded tx' p" "find_root_index tx' p = Some i" "tx_roots tx' = tx_roots tx" "txn_id tx' = txn_id tx"
    using assms(1) c(1) frame scope_frame [OF frame] by (auto simp: in_scope_def same_frame_def)
  with c show ?thesis
    by (simp add: tx_read_def map_for_open_def Let_def mode_is_write_def is_locked_by_other_def dhas_def target_content_def)
qed

lemma demo_write:
  "\<exists>tx' w'. tx_write ''0.0'' [''r'', ''f''] ''w'' ''new'' demo_tx demo_world = (Inr (), tx', w') \<and>
    dget (lock_owners w') [''r'', ''f''] = Some ''u'' \<and> dget (live w') [''r'', ''f''] = Some ''old''"
  using demo_scope
  by (simp add: tx_write_def map_for_open_def in_scope_def demo_write_modes acquire_lock_def try_acquire_def
      written_def put_target_def Let_def demo_world_def)
    (simp add: demo_tx_def)

theorem tx_reads_own_write_witness:
  "\<exists>tx' w'. tx_write ''0.0'' [''r'', ''f''] ''w'' ''new'' demo_tx demo_world = (Inr (), tx', w') \<and>
    tx_read ''0.0'' [''r'', ''f''] tx' w' = Inr ''new''"
  using demo_write tx_reads_own_write [OF demo_scope(1)] by metis

text \<open>C21: commit applies exactly the staged writes. After committing a transaction that only wrote,
  every touched file holds its staged content and every other file is unchanged.\<close>

theorem commit_applies_writes:
  assumes "\<not> finalized tx" and "\<forall>e \<in> set (touched tx). te_op e = Write" and "distinct (touched tx)"
    and "inj_on (live_path tx) (set (touched tx))"
  shows "\<exists>tx' w'. commit now ts tx w = (Inr (), tx', w') \<and> finalized tx' \<and> staged tx' = [] \<and>
    (\<forall>e \<in> set (touched tx). \<forall>c. dget (staged tx) (te_root e, te_rel e) = Some c \<longrightarrow>
       dget (live w') (live_path tx e) = Some c) \<and>
    (\<forall>p. p \<notin> live_path tx ` set (touched tx) \<longrightarrow> dget (live w') p = dget (live w) p)"
proof -
  from commit_writes [OF assms, of now ts w] obtain tx' w' where c: "commit now ts tx w = (Inr (), tx', w')"
    "finalized tx'" "staged tx' = []" "dget (live w') = after_writes tx (touched tx) (live w)" by blast
  moreover have "\<forall>e \<in> set (touched tx). \<forall>d. dget (staged tx) (te_root e, te_rel e) = Some d \<longrightarrow>
      dget (live w') (live_path tx e) = Some d"
    unfolding c(4) by (simp add: after_writes_mem [OF assms(4)])
  moreover have "\<forall>p. p \<notin> live_path tx ` set (touched tx) \<longrightarrow> dget (live w') p = dget (live w) p"
    unfolding c(4) by (simp add: after_writes_other)
  ultimately show ?thesis by blast
qed

theorem commit_applies_writes_witness:
  "\<exists>tx' w'. commit ''0.0'' ''ts'' (demo_tx\<lparr>touched := [\<lparr>te_op = Write, te_root = 0, te_rel = ''f''\<rparr>],
      staged := [((0, ''f''), ''new'')]\<rparr>) demo_world = (Inr (), tx', w') \<and> dget (live w') [''r'', ''f''] = Some ''new''"
  using commit_applies_writes [of "demo_tx\<lparr>touched := [\<lparr>te_op = Write, te_root = 0, te_rel = ''f''\<rparr>],
      staged := [((0, ''f''), ''new'')]\<rparr>" "''0.0''" "''ts''" demo_world]
  by (auto simp: demo_tx_def live_path_def path_of_def)

text \<open>C22: crash recovery finishes an interrupted commit: replaying the manifest of a write-only
  transaction leaves the live files as the commit would.\<close>

theorem recovery_equals_commit:
  assumes "\<not> finalized tx" and "\<forall>e \<in> set (touched tx). te_op e = Write \<and> te_root e < length (tx_roots tx)"
    and "distinct (touched tx)" and "inj_on (live_path tx) (set (touched tx))"
    and "\<forall>r \<in> set (tx_roots tx). path_ok r"
    and "manifest (write_manifest now st tx) = Some m" and "commit now' ts tx w = (Inr (), tx', w')"
  shows "dget (recover_commit_from_manifest (JObj m) (staged tx) (live w)) p = dget (live w') p"
proof -
  let ?es = "sort_key entry_key (touched tx)"
  have writes: "\<forall>e \<in> set (touched tx). te_op e = Write" using assms(2) by blast
  have "dget (live w') = after_writes tx (touched tx) (live w)"
    using commit_writes [OF assms(1) writes assms(3,4), of now' ts w] assms(7) by auto
  also have "\<dots> = after_writes tx ?es (live w)"
    using assms(4) by (intro after_writes_perm) simp_all
  finally have commit: "dget (live w') = after_writes tx ?es (live w)" .
  have inj: "inj_on (live_path tx) (set ?es)" and dist: "distinct ?es" and ws: "\<forall>e \<in> set ?es. te_op e = Write"
    using assms(3,4) writes by simp_all
  obtain tx2 w2 where ap: "apply_entries now ?es tx w = (Inr (), tx2, w2)"
    "dget (live w2) = after_writes tx ?es (live w)"
    using apply_writes [OF ws dist inj, of now w] by blast
  have "foldl (recover_item (tx_roots tx)) (staged tx, live w) (map entry_json ?es) = (staged tx2, live w2)"
    using assms(2) by (intro recover_entries [OF _ ap(1)]) simp
  then show ?thesis
    using recover_manifest [OF assms(6,5), of "staged tx" "live w"] ap(2) commit by simp
qed

theorem recovery_equals_commit_witness:
  "\<exists>m. manifest (write_manifest ''0.0'' Committing (demo_tx\<lparr>touched := [\<lparr>te_op = Write, te_root = 0, te_rel = ''f''\<rparr>]\<rparr>)) = Some m \<and>
    dget (recover_commit_from_manifest (JObj m) [((0, ''f''), ''new'')] [([''r'', ''f''], ''old'')]) [''r'', ''f''] = Some ''new''"
proof -
  let ?tx = "demo_tx\<lparr>touched := [\<lparr>te_op = Write, te_root = 0, te_rel = ''f''\<rparr>], staged := [((0, ''f''), ''new'')]\<rparr>"
  obtain tx' w' where c: "commit ''0.0'' ''ts'' ?tx demo_world = (Inr (), tx', w')"
    "dget (live w') = after_writes ?tx (touched ?tx) (live demo_world)"
    using commit_writes [of ?tx "''0.0''" "''ts''" demo_world] by (auto simp: demo_tx_def)
  obtain m where m: "manifest (write_manifest ''0.0'' Committing ?tx) = Some m" by (simp add: write_manifest_def)
  have "dget (recover_commit_from_manifest (JObj m) (staged ?tx) (live demo_world)) [''r'', ''f''] = dget (live w') [''r'', ''f'']"
    by (rule recovery_equals_commit [OF _ _ _ _ _ m c(1)]) (simp_all add: demo_tx_def path_ok_def)
  moreover have "dget (live w') [''r'', ''f''] = Some ''new''"
    unfolding c(2) by (simp add: after_writes_def demo_tx_def live_path_def path_of_def dhas_def)
  moreover have "manifest (write_manifest ''0.0'' Committing (demo_tx\<lparr>touched := [\<lparr>te_op = Write, te_root = 0, te_rel = ''f''\<rparr>]\<rparr>)) = Some m"
    using m by (simp add: write_manifest_def touched_json_def)
  ultimately show ?thesis by (simp add: demo_world_def)
qed

text \<open>writers exclude. While one transaction holds a file it wrote, another one can neither
  write nor read it.\<close>

theorem writer_excludes_others:
  assumes "in_scope tx p" and "mode_is_write mode" and "tx_write now p mode data tx w = (Inr (), tx', w')"
    and "in_scope other p" and "txn_id other \<noteq> txn_id tx"
  shows "(\<exists>e. fst (tx_write now' p mode data' other w') = Inl e) \<and> (\<exists>e. tx_read now' p other w' = Inl e)"
proof -
  have held: "dget (lock_owners w') p = Some (txn_id tx)"
    using tx_write_ok [OF assms(1-3)] by metis
  then obtain e where "try_acquire p (txn_id other) (lock_owners w') = Inl e"
    using locks.acquire_refused [of p "txn_id other" "lock_owners w'"] assms(5) by auto
  with assms(2,4,5) held show ?thesis
    by (auto simp: tx_write_def tx_read_def map_for_open_def in_scope_def Let_def acquire_lock_def
        is_locked_by_other_def mode_is_write_def)
qed

theorem writer_excludes_others_witness:
  "\<exists>tx' w' e. tx_write ''0.0'' [''r'', ''f''] ''w'' ''new'' demo_tx demo_world = (Inr (), tx', w') \<and>
    tx_read ''0.0'' [''r'', ''f''] (demo_tx\<lparr>txn_id := ''v''\<rparr>) w' = Inl e"
proof -
  have "in_scope (demo_tx\<lparr>txn_id := ''v''\<rparr>) [''r'', ''f'']"
    by (simp add: in_scope_def is_excluded_def find_root_index_def demo_tx_def is_within_def)
  moreover have "txn_id (demo_tx\<lparr>txn_id := ''v''\<rparr>) \<noteq> txn_id demo_tx" by (simp add: demo_tx_def)
  ultimately show ?thesis
    using demo_write writer_excludes_others [OF demo_scope(1) demo_write_modes] by metis
qed

text \<open>where advisory file locks are available, a transaction cannot open a file for writing a
  second time: its own lock, held through the first descriptor, refuses it.\<close>

theorem second_write_refused:
  assumes "has_fcntl w" and "in_scope tx p" and "mode_is_write mode" and "mode_is_write mode'"
    and "tx_write now p mode data tx w = (Inr (), tx', w')"
  shows "\<exists>e. fst (tx_write now' p mode' data' tx' w') = Inl e"
proof -
  note frame = tx_write_effect(1) [OF assms(5,3)]
  obtain i where i: "find_root_index tx p = Some i" and lk: "(locks_dir tx, stable_lock_name p) \<in> set (flocks w')"
    using tx_write_ok [OF assms(2,3,5)] assms(1) by metis
  have fc: "has_fcntl w'"
    using assms(1,5) tx_write_fcntl by metis
  have "locks_dir tx' = locks_dir tx" using locks_dir_frame [OF frame] by simp
  with acquire_again [OF fc, of tx' p] lk obtain e tx2 w2 where "acquire_lock p tx' w' = (Inl e, tx2, w2)" by auto
  moreover have "\<not> is_excluded tx' p" "find_root_index tx' p = Some i"
    using assms(2) i scope_frame [OF frame] by (auto simp: in_scope_def)
  ultimately show ?thesis
    using assms(4) by (auto simp: tx_write_def map_for_open_def Let_def)
qed

theorem second_write_refused_witness:
  "\<exists>tx' w' e. tx_write ''0.0'' [''r'', ''f''] ''w'' ''new'' demo_tx demo_world = (Inr (), tx', w') \<and>
    fst (tx_write ''0.0'' [''r'', ''f''] ''w'' ''newer'' tx' w') = Inl e"
proof -
  have "has_fcntl demo_world" by (simp add: demo_world_def)
  then show ?thesis
    using demo_write second_write_refused [OF _ demo_scope(1) demo_write_modes demo_write_modes] by metis
qed

text \<open>deletions cannot be committed from inside the transaction. The commit unlinks the live file
  through the hook of the still current transaction, which tries to lock it again: the commit raises
  and the file stays.\<close>

theorem commit_of_delete_raises:
  assumes "has_fcntl w" and "in_scope tx p" and "path_ok p" and "current tx" and "\<not> finalized tx"
    and "touched tx = []" and "dhas (live w) p" and "path_unlink now p tx w = (Inr (), tx', w')"
  shows "\<exists>e tx2 w2. commit now' ts tx' w' = (Inl e, tx2, w2) \<and> dget (live w2) p = dget (live w) p"
proof -
  from assms(2) obtain i where i: "find_root_index tx p = Some i" "\<not> is_excluded tx p" by (auto simp: in_scope_def)
  from assms(4,8) have sd: "stage_delete now p tx w = (Inr (), tx', w')" by (simp add: path_unlink_def)
  note eff = stage_delete_effect [OF sd] and ok = stage_delete_ok [OF sd i assms(6,1)]
  let ?e = "\<lparr>te_op = Delete, te_root = i, te_rel = relative_to p (tx_roots tx ! i)\<rparr>"
  let ?tx = "write_manifest now' Committing tx'"
  have frame: "same_frame tx ?tx" using eff(1) by simp
  have lp: "live_path ?tx ?e = p"
    using path_relative [OF assms(3)] find_root_within [OF i(1)] eff(1)
    by (simp add: live_path_def same_frame_def)
  have "locks_dir ?tx = locks_dir tx" "current ?tx" "\<not> is_excluded ?tx p" "find_root_index ?tx p = Some i"
    using locks_dir_frame [OF frame] scope_frame [OF frame] frame i assms(4) by (auto simp: same_frame_def)
  moreover from acquire_again [OF ok(3), of ?tx p] ok(2) calculation(1)
  obtain e tx2 w2 where "acquire_lock p ?tx w' = (Inl e, tx2, w2)" "live w2 = live w'" by auto
  ultimately have "apply_entry now' ?e ?tx w' = (Inl e, tx2, w2)" "live w2 = live w"
    using lp assms(7) eff(2) by (simp_all add: apply_entry_def path_unlink_def stage_delete_def)
  then show ?thesis
    using ok(1,4) assms(5) by (simp add: commit_def Let_def)
qed

theorem commit_of_delete_raises_witness:
  "\<exists>tx' w' e tx2 w2. path_unlink ''0.0'' [''r'', ''f''] demo_tx demo_world = (Inr (), tx', w') \<and>
    commit ''0.0'' ''ts'' tx' w' = (Inl e, tx2, w2)"
proof -
  have "\<exists>tx' w'. path_unlink ''0.0'' [''r'', ''f''] demo_tx demo_world = (Inr (), tx', w')"
    using demo_scope
    by (simp add: path_unlink_def stage_delete_def in_scope_def acquire_lock_def try_acquire_def Let_def demo_world_def)
      (simp add: demo_tx_def)
  then obtain tx' w' where u: "path_unlink ''0.0'' [''r'', ''f''] demo_tx demo_world = (Inr (), tx', w')" by blast
  have "has_fcntl demo_world" "path_ok [''r'', ''f'']" "current demo_tx" "\<not> finalized demo_tx" "touched demo_tx = []"
    "dhas (live demo_world) [''r'', ''f'']"
    by (simp_all add: demo_world_def demo_tx_def path_ok_def dhas_def)
  from commit_of_delete_raises [OF this(1) demo_scope(1) this(2-6) u] u show ?thesis by blast
qed

end
