(* ===== verification/Py_Convert.thy ===== *)
theory Py_Convert
  imports Hashing
begin

text \<open>
  The conversions \<^verbatim>\<open>float(x)\<close>, \<^verbatim>\<open>int(x)\<close> and \<^verbatim>\<open>x or default\<close> on JSON
  values, as the readers of journals and frames apply them to fields of unknown type.
  \<open>None\<close> is the exception (\<^verbatim>\<open>ValueError\<close>, \<^verbatim>\<open>TypeError\<close> or
  \<^verbatim>\<open>OverflowError\<close>) the conversion raises. Digits are the ASCII ones.
\<close>

section \<open>Numbers from text\<close>

text \<open>Underscores are allowed between two digits and nowhere else.\<close>

fun drop_underscores :: "bool \<Rightarrow> string \<Rightarrow> string option" where
  "drop_underscores dig [] = Some []"
| "drop_underscores dig (c # cs) =
     (if c = CHR ''_'' then
        (case cs of
           [] \<Rightarrow> None
         | d # _ \<Rightarrow> if dig \<and> is_digit d then drop_underscores False cs else None)
      else map_option ((#) c) (drop_underscores (is_digit c) cs))"

definition split_sign :: "string \<Rightarrow> bool \<times> string" where
  "split_sign s =
     (case s of
        [] \<Rightarrow> (False, [])
      | c # cs \<Rightarrow> if c = CHR ''-'' then (True, cs) else if c = CHR ''+'' then (False, cs) else (False, s))"

definition int_of_str :: "string \<Rightarrow> int option" where
  "int_of_str s =
     (let (neg, r) = split_sign (strip s) in
      case drop_underscores False r of
        None \<Rightarrow> None
      | Some ds \<Rightarrow>
          if ds = [] \<or> \<not> list_all is_digit ds then None
          else Some (if neg then - int (read_nat ds) else int (read_nat ds)))"

definition lower_char :: "char \<Rightarrow> char" where
  "lower_char c = (if 65 \<le> (of_char c :: nat) \<and> (of_char c :: nat) \<le> 90
                   then char_of ((of_char c :: nat) + 32) else c)"

definition signed_text :: "bool \<Rightarrow> string \<Rightarrow> string" where
  "signed_text neg s = (if neg then CHR ''-'' # s else s)"

text \<open>\<open>digits [. digits] [e [sign] digits]\<close> with a digit before or after the point.\<close>

definition is_decimal :: "string \<Rightarrow> bool" where
  "is_decimal s =
     (let r1 = dropWhile is_digit s;
          point = (r1 \<noteq> [] \<and> hd r1 = CHR ''.'');
          fp = (if point then takeWhile is_digit (tl r1) else []);
          r2 = (if point then dropWhile is_digit (tl r1) else r1);
          (ep, r3) = scan_exp r2
      in (takeWhile is_digit s \<noteq> [] \<or> fp \<noteq> []) \<and> r3 = [])"

definition float_of_str :: "string \<Rightarrow> flt option" where
  "float_of_str s =
     (let (neg, r) = split_sign (strip s); l = map lower_char r in
      if l = ''inf'' \<or> l = ''infinity'' then Some (signed_text neg ''Infinity'')
      else if l = ''nan'' then Some ''NaN''
      else
        (case drop_underscores False r of
           None \<Rightarrow> None
         | Some t \<Rightarrow> if is_decimal t then Some (signed_text neg (repr_pos (lit_val t))) else None))"

section \<open>Conversions of JSON values\<close>

fun to_float :: "jval \<Rightarrow> flt option" where
  "to_float (JFloat f) = Some f"
| "to_float (JInt i) =
     (let f = float_of_int i in if f \<in> {''Infinity'', ''-Infinity''} then None else Some f)"
| "to_float (JBool b) = Some (if b then ''1.0'' else ''0.0'')"
| "to_float (JStr s) = float_of_str s"
| "to_float _ = None"

fun to_int :: "jval \<Rightarrow> int option" where
  "to_int (JInt i) = Some i"
| "to_int (JBool b) = Some (if b then 1 else 0)"
| "to_int (JFloat f) = flt_trunc f"
| "to_int (JStr s) = int_of_str s"
| "to_int _ = None"

text \<open>\<^verbatim>\<open>v or d\<close>.\<close>

definition or_else :: "jval \<Rightarrow> jval \<Rightarrow> jval" where
  "or_else v d = (if truthy v then v else d)"

definition float_or_zero :: "flt \<Rightarrow> flt" where
  "float_or_zero f = (if flt_truthy f then f else ''0.0'')"

text \<open>
  \<^verbatim>\<open>str(v or "") == s\<close> for a text \<open>s\<close> that does not begin with a bracket and is not the
  text of a float or a boolean, as a hexadecimal hash of full length is not: only a string
  or an integer can be written that way.
\<close>

fun str_or_empty_is :: "jval \<Rightarrow> string \<Rightarrow> bool" where
  "str_or_empty_is (JStr t) s = (t = s)"
| "str_or_empty_is (JInt i) s = ((if i = 0 then [] else show_int i) = s)"
| "str_or_empty_is v s = (\<not> truthy v \<and> s = [])"

lemma to_int_simps_or [simp]: "to_int (or_else (JInt i) (JInt 0)) = Some i"
  by (simp add: or_else_def)

lemma to_float_or [simp]: "to_float (or_else (JFloat f) (JFloat ''0.0'')) = Some (float_or_zero f)"
  by (simp add: or_else_def float_or_zero_def)

text \<open>The two zeros are the only false floats, and the negative one reads as the positive one.\<close>

definition plain_flt :: "flt \<Rightarrow> bool" where
  "plain_flt f \<longleftrightarrow> wf_flt f \<and> f \<noteq> ''-0.0''"

lemma float_or_zero_plain [simp]: "plain_flt f \<Longrightarrow> float_or_zero f = f"
  by (auto simp: plain_flt_def float_or_zero_def flt_truthy_def)

end
