(* ===== verification/Rollup.thy ===== *)
theory Rollup
  imports Fork_Resolver Py_Convert
begin

text \<open>
  \<^verbatim>\<open>core/rollup.py\<close>: batches of telemetry transactions compressed into one ledger
  payload. The engine appends every transaction to a journal, takes batches of them and
  binds each batch by a Merkle root, a bit mask of its correlation ids, a hash of its totals
  and the head of the ledger; a verifier recomputes everything from its copy of the journal.

  The lemmas show that the payload of a batch is accepted against the journal, now and after
  later transactions, that the Merkle root fixes the transactions of a batch up to hash
  collisions, and that it does not depend on their order.

  The sums of floats are taken from left to right with rounding at every step, as
  \<^verbatim>\<open>sum\<close> does up to Python 3.11.
\<close>

section \<open>Transactions\<close>

record rtx =
  rt_seq :: int
  rt_ts :: flt
  rt_cid :: string
  rt_event :: string
  rt_wall :: flt
  rt_cpu :: flt
  rt_bytes :: int

definition rtx_json :: "rtx \<Rightarrow> jdict" where
  "rtx_json t =
     [(''seq'', JInt (rt_seq t)), (''ts'', JFloat (rt_ts t)), (''correlation_id'', JStr (rt_cid t)),
      (''event'', JStr (rt_event t)), (''wall_ms'', JFloat (rt_wall t)), (''cpu_ms'', JFloat (rt_cpu t)),
      (''bytes_transferred'', JInt (rt_bytes t))]"

datatype rollup_error = ValueError string | ConversionError

section \<open>Masks and hashes\<close>

definition byte_hex :: "nat \<Rightarrow> string" where
  "byte_hex n = [digit (n div 16), digit (n mod 16)]"

definition bytes_hex :: "string \<Rightarrow> string" where
  "bytes_hex s = concat (map (\<lambda>c. byte_hex (of_char c)) s)"

definition mask_bit :: "nat \<Rightarrow> string \<Rightarrow> nat" where
  "mask_bit bits cid =
     (let digest = sha256_digest cid
      in ((of_char (digest ! 0) :: nat) * 256 + (of_char (digest ! 1) :: nat)) mod bits)"

definition set_mask_bit :: "8 word list \<Rightarrow> nat \<Rightarrow> 8 word list" where
  "set_mask_bit out b = out[b div 8 := (out ! (b div 8)) OR push_bit (b mod 8) 1]"

definition compute_correlation_mask :: "string list \<Rightarrow> int \<Rightarrow> (rollup_error, string) res" where
  "compute_correlation_mask cids bits =
     (if bits \<le> 0 \<or> bits mod 8 \<noteq> 0 then Inl (ValueError ''bits must be a positive multiple of 8'')
      else
        (let out = foldl (\<lambda>o' cid. set_mask_bit o' (mask_bit (nat bits) cid))
                     (replicate (nat bits div 8) 0) cids
         in Inr (concat (map (\<lambda>w. byte_hex (unat w)) out))))"

definition compute_execution_token_hash :: "flt \<Rightarrow> flt \<Rightarrow> int \<Rightarrow> string" where
  "compute_execution_token_hash wall cpu nbytes =
     sha256_hex (canonical_json (JObj
       [(''wall_ms'', JFloat wall), (''cpu_ms'', JFloat cpu), (''bytes_transferred'', JInt nbytes)]))"

section \<open>The Merkle root\<close>

definition material :: "rtx \<Rightarrow> jdict" where
  "material t =
     [(''correlation_id'', JStr (rt_cid t)), (''event'', JStr (rt_event t)),
      (''wall_ms'', JFloat (float_or_zero (rt_wall t))), (''cpu_ms'', JFloat (float_or_zero (rt_cpu t))),
      (''bytes_transferred'', JInt (rt_bytes t))]"

definition micros :: "flt \<Rightarrow> int option" where
  "micros f = flt_trunc (flt_mult (float_or_zero f) ''1000000.0'')"

text \<open>\<open>_stable_key\<close>; the conversion to integers raises on infinite and undefined values.\<close>

definition stable_key :: "rtx \<Rightarrow> (string \<times> string \<times> int \<times> int \<times> int) option" where
  "stable_key t =
     (case (micros (rt_wall t), micros (rt_cpu t)) of
        (Some w, Some c) \<Rightarrow> Some (rt_cid t, rt_event t, rt_bytes t, w, c)
      | _ \<Rightarrow> None)"

definition leaf_text :: "rtx \<Rightarrow> string" where
  "leaf_text t = ''L'' @ canonical_json (JObj (material t))"

definition pad_level :: "string list \<Rightarrow> string list" where
  "pad_level level = (if odd (length level) then level @ [last level] else level)"

fun parents :: "string list \<Rightarrow> string list" where
  "parents (a # b # r) = sha256_digest (''I'' @ a @ b) # parents r"
| "parents _ = []"

lemma length_parents: "length (parents l) = length l div 2"
  by (induction l rule: parents.induct) auto

lemma length_pad_level: "length (pad_level l) = length l + length l mod 2"
  by (auto simp: pad_level_def odd_iff_mod_2_eq_one even_iff_mod_2_eq_zero)

function merkle_top :: "string list \<Rightarrow> string" where
  "merkle_top level = (if length level > 1 then merkle_top (parents (pad_level level)) else hd level)"
  by pat_completeness auto
termination
  by (relation "measure length") (auto simp: length_parents length_pad_level)

declare merkle_top.simps [simp del]

definition merkle_root_from_transactions :: "rtx list \<Rightarrow> (rollup_error, string) res" where
  "merkle_root_from_transactions txs =
     (if txs = [] then Inr (sha256_hex ''ROLLUP:EMPTY'')
      else if \<not> list_all (\<lambda>t. stable_key t \<noteq> None) txs then Inl ConversionError
      else
        (let ordered = sort_key (\<lambda>t. the (stable_key t)) txs;
             level = map (\<lambda>t. sha256_digest (leaf_text t)) ordered
         in Inr (bytes_hex (merkle_top level))))"

definition compute_target_ledger_root ::
  "string \<Rightarrow> string \<Rightarrow> string \<Rightarrow> string \<Rightarrow> int \<Rightarrow> int \<Rightarrow> int \<Rightarrow> string" where
  "compute_target_ledger_root prev_root merkle msk token seq_start seq_end tx_count =
     sha256_hex (canonical_json (JObj
       [(''previous_ledger_root'', JStr prev_root), (''merkle_root'', JStr merkle),
        (''correlation_mask'', JStr msk), (''execution_token_hash'', JStr token),
        (''seq_start'', JInt seq_start), (''seq_end'', JInt seq_end), (''tx_count'', JInt tx_count)]))"

definition proof_fields :: "string \<Rightarrow> string \<Rightarrow> string \<Rightarrow> string \<Rightarrow> jdict" where
  "proof_fields prev_root target msk token =
     [(''previous_ledger_root'', JStr prev_root), (''target_ledger_root'', JStr target),
      (''correlation_mask'', JStr msk), (''execution_token_hash'', JStr token)]"

section \<open>The journal\<close>

definition journal_append :: "string option \<Rightarrow> jdict \<Rightarrow> string option" where
  "journal_append f d = Some (append_jsonl (case f of None \<Rightarrow> [] | Some t \<Rightarrow> t) d)"

definition need :: "'a option \<Rightarrow> (rollup_error, 'a) res" where
  "need x = (case x of None \<Rightarrow> Inl ConversionError | Some v \<Rightarrow> Inr v)"

text \<open>A line of the journal: skipped, a transaction, or an exception of a conversion.\<close>

definition journal_tx :: "jdict \<Rightarrow> (rollup_error, rtx option) res" where
  "journal_tx obj =
     (case (as_int (jget obj ''seq''), as_str (jget obj ''correlation_id''), as_str (jget obj ''event'')) of
        (Some seq, Some cid, Some ev) \<Rightarrow>
          if seq \<le> 0 then Inr None
          else
            res_bind (need (to_float (or_else (jget obj ''ts'') (JFloat ''0.0'')))) (\<lambda>ts.
            res_bind (need (to_float (or_else (jget obj ''wall_ms'') (JFloat ''0.0'')))) (\<lambda>wall.
            res_bind (need (to_float (or_else (jget obj ''cpu_ms'') (JFloat ''0.0'')))) (\<lambda>cpu.
            res_bind (need (to_int (or_else (jget obj ''bytes_transferred'') (JInt 0)))) (\<lambda>n.
              Inr (Some \<lparr>rt_seq = seq, rt_ts = ts, rt_cid = cid, rt_event = ev,
                         rt_wall = wall, rt_cpu = cpu, rt_bytes = n\<rparr>)))))
      | _ \<Rightarrow> Inr None)"

fun journal_txs :: "jdict list \<Rightarrow> (rollup_error, rtx list) res" where
  "journal_txs [] = Inr []"
| "journal_txs (d # ds) =
     res_bind (journal_tx d) (\<lambda>t.
       res_bind (journal_txs ds) (\<lambda>ts. Inr (case t of None \<Rightarrow> ts | Some x \<Rightarrow> x # ts)))"

definition iter_rollup_journal :: "string option \<Rightarrow> (rollup_error, rtx list) res" where
  "iter_rollup_journal f = (case f of None \<Rightarrow> Inr [] | Some text \<Rightarrow> journal_txs (jsonl_objs text))"

section \<open>Verification\<close>

definition batch_key :: "rtx \<Rightarrow> string \<times> string \<times> int" where
  "batch_key t = (rt_cid t, rt_event t, rt_bytes t)"

definition sum_flt :: "flt list \<Rightarrow> flt" where
  "sum_flt xs = foldl flt_add ''0.0'' xs"

definition sum_int :: "int list \<Rightarrow> int" where
  "sum_int xs = foldl (+) 0 xs"

definition token_of :: "rtx list \<Rightarrow> string" where
  "token_of txs =
     compute_execution_token_hash (sum_flt (map rt_wall txs)) (sum_flt (map rt_cpu txs))
       (sum_int (map rt_bytes txs))"

definition check :: "bool \<Rightarrow> string \<Rightarrow> (rollup_error, unit) res" where
  "check b msg = require b (ValueError msg)"

definition pos_field :: "jdict \<Rightarrow> string \<Rightarrow> int \<Rightarrow> string \<Rightarrow> (rollup_error, int) res" where
  "pos_field d k low msg =
     (case jget d k of
        JInt i \<Rightarrow> if i < low then Inl (ValueError msg) else Inr i
      | _ \<Rightarrow> Inl (ValueError msg))"

definition hash_field :: "jdict \<Rightarrow> string \<Rightarrow> string \<Rightarrow> (rollup_error, string) res" where
  "hash_field d k msg =
     (case jget d k of
        JStr s \<Rightarrow> if looks_like_hash s 64 then Inr s else Inl (ValueError msg)
      | _ \<Rightarrow> Inl (ValueError msg))"

record rollup_fields =
  rf_start :: int
  rf_end :: int
  rf_count :: int
  rf_prev :: string
  rf_merkle :: string
  rf_mask :: string
  rf_token :: string
  rf_target :: string
  rf_proof :: jdict

text \<open>The checks of \<open>verify_rollup_payload\<close> on the shape of the payload.\<close>

definition payload_fields :: "jdict \<Rightarrow> (rollup_error, rollup_fields) res" where
  "payload_fields p =
     res_bind (check (eq_str (jget p ''kind'') ''ROLLUP_BLOCK'') ''payload kind is not ROLLUP_BLOCK'') (\<lambda>_.
     res_bind (check (as_str (jget p ''algo'') \<noteq> None) ''algo missing'') (\<lambda>_.
     res_bind (check (eq_str (jget p ''algo'') ''sha256/merkle:v1'') ''algo unsupported'') (\<lambda>_.
     res_bind (pos_field p ''seq_start'' 1 ''seq_start invalid'') (\<lambda>s.
     res_bind (pos_field p ''seq_end'' s ''seq_end invalid'') (\<lambda>e.
     res_bind (pos_field p ''tx_count'' 1 ''tx_count invalid'') (\<lambda>n.
     res_bind (hash_field p ''previous_ledger_root'' ''previous_ledger_root invalid'') (\<lambda>prev.
     res_bind (hash_field p ''merkle_root'' ''merkle_root invalid'') (\<lambda>mk.
     res_bind (hash_field p ''correlation_mask'' ''correlation_mask invalid'') (\<lambda>msk.
     res_bind (hash_field p ''execution_token_hash'' ''execution_token_hash invalid'') (\<lambda>tok.
     res_bind (hash_field p ''target_ledger_root'' ''target_ledger_root invalid'') (\<lambda>tgt.
       case jget p ''zk_proof'' of
         JObj zk \<Rightarrow> Inr \<lparr>rf_start = s, rf_end = e, rf_count = n, rf_prev = prev, rf_merkle = mk,
                       rf_mask = msk, rf_token = tok, rf_target = tgt, rf_proof = zk\<rparr>
       | _ \<Rightarrow> Inl (ValueError ''zk_proof invalid''))))))))))))"

text \<open>The recomputation from the transactions of the journal.\<close>

definition check_batch :: "rollup_fields \<Rightarrow> rtx list \<Rightarrow> (rollup_error, unit) res" where
  "check_batch r txs0 =
     res_bind (check (int (length txs0) = rf_count r)
       (''tx_count mismatch: journal has '' @ show_nat (length txs0) @ '' records'')) (\<lambda>_.
     let txs = sort_key batch_key txs0 in
     res_bind (merkle_root_from_transactions txs) (\<lambda>mk.
     res_bind (check (mk = rf_merkle r) ''merkle_root mismatch'') (\<lambda>_.
     res_bind (compute_correlation_mask (map rt_cid txs) 256) (\<lambda>msk.
     res_bind (check (msk = rf_mask r) ''correlation_mask mismatch'') (\<lambda>_.
     res_bind (check (token_of txs = rf_token r) ''execution_token_hash mismatch'') (\<lambda>_.
     check (compute_target_ledger_root (rf_prev r) (rf_merkle r) (rf_mask r) (rf_token r)
              (rf_start r) (rf_end r) (rf_count r) = rf_target r)
       ''target_ledger_root mismatch''))))))"

text \<open>The checks of the attached proof.\<close>

definition check_proof :: "rollup_fields \<Rightarrow> (rollup_error, unit) res" where
  "check_proof r =
     (let zk = rf_proof r in
     res_bind (check (str_or_empty_is (jget zk ''previous_ledger_root'') (rf_prev r))
       ''zk_proof previous_ledger_root mismatch'') (\<lambda>_.
     res_bind (check (str_or_empty_is (jget zk ''target_ledger_root'') (rf_target r))
       ''zk_proof target_ledger_root mismatch'') (\<lambda>_.
     res_bind (check (str_or_empty_is (jget zk ''correlation_mask'') (rf_mask r))
       ''zk_proof correlation_mask mismatch'') (\<lambda>_.
     res_bind (check (str_or_empty_is (jget zk ''execution_token_hash'') (rf_token r))
       ''zk_proof execution_token_hash mismatch'') (\<lambda>_.
     res_bind (hash_field zk ''proof_hash'' ''zk_proof proof_hash invalid'') (\<lambda>ph.
     check (sha256_hex (canonical_json (JObj
              (proof_fields (rf_prev r) (rf_target r) (rf_mask r) (rf_token r)))) = ph)
       ''zk_proof proof_hash mismatch''))))))"

definition verify_rollup_payload :: "jdict \<Rightarrow> string option \<Rightarrow> string \<Rightarrow> (rollup_error, jdict) res" where
  "verify_rollup_payload payload journal expected_prev_root =
     res_bind (payload_fields payload) (\<lambda>r.
     res_bind (check (rf_prev r = expected_prev_root) ''previous_ledger_root does not match block prev_hash'') (\<lambda>_.
     res_bind (iter_rollup_journal journal) (\<lambda>all.
     res_bind (check_batch r (filter (\<lambda>t. rf_start r \<le> rt_seq t \<and> rt_seq t \<le> rf_end r) all)) (\<lambda>_.
     res_bind (check_proof r) (\<lambda>_. Inr payload)))))"

section \<open>The engine\<close>

text \<open>
  A future is a position in \<open>re_futures\<close>, \<open>None\<close> while it is pending. The committed block and
  the payload are what a future resolves to (\<open>RollupCommitResult\<close>).
\<close>

record rollup_engine =
  re_journal :: "string option"
  re_batch_size :: int
  re_next_seq :: int
  re_pending :: "rtx list"
  re_waiters :: "nat list"
  re_counter :: nat
  re_futures :: "(jdict \<times> jdict) option list"

definition new_engine :: "string option \<Rightarrow> int \<Rightarrow> (rollup_error, rollup_engine) res" where
  "new_engine journal batch_size =
     (if batch_size \<le> 0 then Inl (ValueError ''batch_size must be > 0'')
      else Inr \<lparr>re_journal = journal, re_batch_size = batch_size, re_next_seq = 1, re_pending = [],
                re_waiters = [], re_counter = 0, re_futures = []\<rparr>)"

definition set_batch_size :: "jval \<Rightarrow> rollup_engine \<Rightarrow> (rollup_error, rollup_engine) res" where
  "set_batch_size v e =
     (case as_int v of
        Some n \<Rightarrow> if n \<le> 0 then Inl (ValueError ''batch_size must be a positive integer'')
                  else Inr (e\<lparr>re_batch_size := n\<rparr>)
      | None \<Rightarrow> Inl (ValueError ''batch_size must be a positive integer''))"

definition ingest_transaction ::
  "flt \<Rightarrow> string \<Rightarrow> string \<Rightarrow> flt \<Rightarrow> flt \<Rightarrow> int \<Rightarrow> rollup_engine \<Rightarrow> rtx \<times> rollup_engine" where
  "ingest_transaction now cid event wall cpu nbytes e =
     (let tx = \<lparr>rt_seq = re_next_seq e, rt_ts = now, rt_cid = cid, rt_event = event,
                rt_wall = wall, rt_cpu = cpu, rt_bytes = nbytes\<rparr>
      in (tx, e\<lparr>re_next_seq := re_next_seq e + 1, re_pending := re_pending e @ [tx],
                re_journal := journal_append (re_journal e) (rtx_json tx)\<rparr>))"

text \<open>The decision of the response cache and the telemetry record, by the fields that are read.\<close>

record decision_telemetry =
  dt_state :: string
  dt_wall :: flt
  dt_cpu :: flt
  dt_bytes :: int

definition ingest_cache_decision ::
  "flt \<Rightarrow> string \<Rightarrow> decision_telemetry \<Rightarrow> string option \<Rightarrow> rollup_engine \<Rightarrow> rtx \<times> rollup_engine" where
  "ingest_cache_decision now cid d event e =
     ingest_transaction now cid
       (case event of None \<Rightarrow> dt_state d | Some ev \<Rightarrow> if ev = [] then dt_state d else ev)
       (dt_wall d) (dt_cpu d) (dt_bytes d) e"

definition ingest_telemetry_record ::
  "flt \<Rightarrow> string \<Rightarrow> string \<Rightarrow> flt \<Rightarrow> int \<Rightarrow> rollup_engine \<Rightarrow> rtx \<times> rollup_engine" where
  "ingest_telemetry_record now cid event latency nbytes e =
     ingest_transaction now cid event latency ''0.0'' nbytes e"

text \<open>
  \<open>submit_transaction\<close> up to its \<open>await\<close>: the future the caller waits for, the batch handed to
  a flush task when the engine holds enough, and the engine.
\<close>

definition submit_transaction ::
  "flt \<Rightarrow> string \<Rightarrow> string \<Rightarrow> flt \<Rightarrow> flt \<Rightarrow> int \<Rightarrow> rollup_engine
    \<Rightarrow> nat \<times> (rtx list \<times> nat list) option \<times> rollup_engine" where
  "submit_transaction now cid event wall cpu nbytes e0 =
     (let e = snd (ingest_transaction now cid event wall cpu nbytes e0);
          fut = length (re_futures e);
          e1 = e\<lparr>re_futures := re_futures e @ [None], re_waiters := re_waiters e @ [fut]\<rparr>;
          n = nat (re_batch_size e1)
      in if length (re_pending e1) \<ge> n \<and> length (re_waiters e1) \<ge> n
         then (fut, Some (take n (re_pending e1), take n (re_waiters e1)),
               e1\<lparr>re_pending := drop n (re_pending e1), re_waiters := drop n (re_waiters e1)\<rparr>)
         else (fut, None, e1))"

definition flush :: "rollup_engine \<Rightarrow> (rtx list \<times> nat list) option \<times> rollup_engine" where
  "flush e =
     (if re_pending e = [] then (None, e)
      else (Some (re_pending e, re_waiters e), e\<lparr>re_pending := [], re_waiters := []\<rparr>))"

text \<open>
  The head of the consensus ledger (\<open>_hydrate_tail\<close> of \<^verbatim>\<open>core/consensus_node.py\<close>): the
  next index and the hash of the last line that is a block.
\<close>

definition consensus_tail :: "string option \<Rightarrow> int \<times> string" where
  "consensus_tail f =
     (case f of
        None \<Rightarrow> (0, genesis_prev)
      | Some text \<Rightarrow>
          (case List.map_filter (\<lambda>raw.
                  let l = strip raw in
                  if l = [] then None
                  else (case loads l of None \<Rightarrow> None | Some obj \<Rightarrow> coerce_block obj))
                (rev (splitlines text)) of
             [] \<Rightarrow> (0, genesis_prev)
           | b # _ \<Rightarrow> (lb_index b + 1, lb_hash b)))"

definition rollup_payload :: "nat \<Rightarrow> int \<Rightarrow> int \<Rightarrow> int \<Rightarrow> string \<Rightarrow> string \<Rightarrow> string \<Rightarrow> string \<Rightarrow> jdict" where
  "rollup_payload counter seq_start seq_end tx_count prev_root merkle msk token =
     (let target = compute_target_ledger_root prev_root merkle msk token seq_start seq_end tx_count;
          fields = proof_fields prev_root target msk token
      in [(''kind'', JStr ''ROLLUP_BLOCK''),
          (''batch_id'', JStr (show_nat counter @ '':'' @ show_int seq_start @ ''-'' @ show_int seq_end)),
          (''seq_start'', JInt seq_start), (''seq_end'', JInt seq_end), (''tx_count'', JInt tx_count),
          (''previous_ledger_root'', JStr prev_root), (''merkle_root'', JStr merkle),
          (''correlation_mask'', JStr msk), (''execution_token_hash'', JStr token),
          (''target_ledger_root'', JStr target),
          (''zk_proof'', JObj (fields @ [(''proof_hash'', JStr (sha256_hex (canonical_json (JObj fields))))])),
          (''algo'', JStr ''sha256/merkle:v1'')])"

text \<open>\<open>_flush_batch\<close> up to the submission: the payload for the consensus node.\<close>

definition flush_batch ::
  "string option \<Rightarrow> rtx list \<Rightarrow> rollup_engine \<Rightarrow> (rollup_error, jdict) res \<times> rollup_engine" where
  "flush_batch ledger txs e =
     (let ordered = sort_key batch_key txs in
      if ordered = [] then (Inl (ValueError ''min() arg is an empty sequence''), e)
      else
        (let seq_start = Min (set (map rt_seq ordered));
             seq_end = Max (set (map rt_seq ordered));
             tx_count = int (length ordered);
             e1 = e\<lparr>re_counter := re_counter e + 1\<rparr>
         in (res_bind (merkle_root_from_transactions ordered) (\<lambda>merkle.
             res_bind (compute_correlation_mask (map rt_cid ordered) 256) (\<lambda>msk.
               Inr (rollup_payload (re_counter e1) seq_start seq_end tx_count
                      (snd (consensus_tail ledger)) merkle msk (token_of ordered)))), e1)))"

text \<open>The rest of \<open>_flush_batch\<close>, when the block is committed: the waiters that are not done.\<close>

definition set_result :: "jdict \<times> jdict \<Rightarrow> (jdict \<times> jdict) option list \<Rightarrow> nat \<Rightarrow> (jdict \<times> jdict) option list" where
  "set_result r fs i = (if i < length fs \<and> fs ! i = None then fs[i := Some r] else fs)"

definition resolve_waiters :: "jdict \<Rightarrow> jdict \<Rightarrow> nat list \<Rightarrow> rollup_engine \<Rightarrow> rollup_engine" where
  "resolve_waiters committed payload waiters e =
     e\<lparr>re_futures := foldl (set_result (committed, payload)) (re_futures e) waiters\<rparr>"

section \<open>Shape of the hashes\<close>

lemma looks_like_hash_bytes:
  assumes "\<forall>n \<in> set ns. n < 256"
  shows "looks_like_hash (concat (map byte_hex ns)) (2 * length ns)"
proof -
  have "set (byte_hex n) \<subseteq> hex_alphabet" if "n < 256" for n
    using that by (auto simp: byte_hex_def intro!: digit_hex)
  moreover have "length (concat (map byte_hex ns)) = 2 * length ns"
    by (induction ns) (simp_all add: byte_hex_def)
  ultimately show ?thesis using assms by (auto simp: looks_like_hash_iff)
qed

lemma of_char_lt_256 [simp]: "(of_char c :: nat) < 256"
  by (metis of_char_of nat_of_char_less_256)

lemma looks_like_hash_bytes_hex: "length s = 32 \<Longrightarrow> looks_like_hash (bytes_hex s) 64"
  using looks_like_hash_bytes [of "map of_char s"] nat_of_char_less_256 by (simp add: bytes_hex_def comp_def)

lemma set_parents: "x \<in> set (parents l) \<Longrightarrow> length x = 32"
  by (induction l rule: parents.induct) auto

lemma merkle_top_in: "l \<noteq> [] \<Longrightarrow> \<forall>x \<in> set l. length x = 32 \<Longrightarrow> length (merkle_top l) = 32"
proof (induction l rule: merkle_top.induct)
  case (1 l)
  show ?case
  proof (cases "length l > 1")
    case True
    then have "parents (pad_level l) \<noteq> []"
      by (metis add_leD1 div_eq_0_iff leD length_0_conv length_pad_level length_parents linorder_not_less
          nat_neq_iff numeral_2_eq_2 One_nat_def Suc_le_eq zero_less_numeral)
    with 1 True show ?thesis by (subst merkle_top.simps) (simp add: set_parents)
  next
    case False
    with 1 show ?thesis by (subst merkle_top.simps) simp
  qed
qed

lemma length_set_mask_bits: "length (foldl (\<lambda>o' c. set_mask_bit o' (f c)) out cs) = length out"
  by (induction cs arbitrary: out) (simp_all add: set_mask_bit_def)

lemma mask_256: "\<exists>m. compute_correlation_mask cids 256 = Inr m \<and> looks_like_hash m 64"
proof -
  let ?out = "foldl (\<lambda>o' cid. set_mask_bit o' (mask_bit 256 cid)) (replicate 32 0) cids"
  have "\<forall>n \<in> set (map unat ?out). n < 256"
    using unsigned_less [where 'a = nat and 'b = 8] by auto
  from looks_like_hash_bytes [OF this] show ?thesis
    by (simp add: compute_correlation_mask_def length_set_mask_bits comp_def)
qed

text \<open>The floats of a transaction that can be hashed: finite, and not the negative zero.\<close>

definition tx_ok :: "rtx \<Rightarrow> bool" where
  "tx_ok t \<longleftrightarrow> rt_cid t \<noteq> [] \<and> rt_event t \<noteq> [] \<and> text_ok (rt_cid t) \<and> text_ok (rt_event t) \<and>
     plain_flt (rt_ts t) \<and> plain_flt (rt_wall t) \<and> plain_flt (rt_cpu t) \<and> stable_key t \<noteq> None"

lemma merkle_ok:
  assumes "txs \<noteq> []" and "\<forall>t \<in> set txs. tx_ok t"
  shows "\<exists>m. merkle_root_from_transactions txs = Inr m \<and> looks_like_hash m 64"
proof -
  have "list_all (\<lambda>t. stable_key t \<noteq> None) txs"
    using assms(2) by (auto simp: list_all_iff tx_ok_def)
  with assms(1) show ?thesis
    by (auto simp: merkle_root_from_transactions_def Let_def intro!: looks_like_hash_bytes_hex merkle_top_in)
qed

section \<open>The journal reads back\<close>

lemma text_ok_rollup_keys [simp]:
  "text_ok ''seq''" "text_ok ''ts''" "text_ok ''correlation_id''" "text_ok ''event''"
  "text_ok ''wall_ms''" "text_ok ''cpu_ms''" "text_ok ''bytes_transferred''"
  by (rule text_ok_ascii; simp add: is_cont_def)+

lemma line_record_tx: "tx_ok t \<Longrightarrow> line_record (rtx_json t)"
  by (simp add: line_record_def rtx_json_def tx_ok_def plain_flt_def)

lemma journal_tx_json:
  assumes "tx_ok t" and "rt_seq t > 0"
  shows "journal_tx (canon_dict (rtx_json t)) = Inr (Some t)"
proof -
  have "wf_dict (rtx_json t)" by (simp add: wf_dict_def rtx_json_def)
  note g = jget_canon [OF this]
  show ?thesis
    unfolding journal_tx_def g using assms by (simp add: rtx_json_def tx_ok_def need_def)
qed

lemma journal_txs_snoc:
  "journal_txs ds = Inr ts \<Longrightarrow> journal_tx d = Inr (Some t) \<Longrightarrow> journal_txs (ds @ [d]) = Inr (ts @ [t])"
proof (induction ds arbitrary: ts)
  case Nil
  then show ?case by simp
next
  case (Cons a ds)
  then show ?case by (auto simp: res_bind_Inr_iff split: option.splits)
qed

definition journal_text :: "string option \<Rightarrow> string" where
  "journal_text f = (case f of None \<Rightarrow> [] | Some t \<Rightarrow> t)"

lemma iter_journal_text: "iter_rollup_journal f = journal_txs (jsonl_objs (journal_text f))"
  by (cases f) (simp_all add: iter_rollup_journal_def journal_text_def jsonl.read_empty)

lemma iter_journal_append:
  assumes "iter_rollup_journal f = Inr ts" and "at_line_end (journal_text f)" and "tx_ok t" and "rt_seq t > 0"
  shows "iter_rollup_journal (journal_append f (rtx_json t)) = Inr (ts @ [t])"
proof -
  have "journal_text (journal_append f (rtx_json t)) = append_jsonl (journal_text f) (rtx_json t)"
    by (simp add: journal_append_def journal_text_def)
  with assms show ?thesis
    by (simp add: iter_journal_text jsonl_objs_append line_record_tx journal_txs_snoc journal_tx_json)
qed

section \<open>The engine's invariant\<close>

text \<open>
  A run of the engine with the transactions it ingests: the operations in any order, flush
  tasks and resolutions of futures included.
\<close>

inductive engine_run :: "rollup_engine \<Rightarrow> rtx list \<Rightarrow> rollup_engine \<Rightarrow> bool" where
  idle: "engine_run e [] e"
| ingest: "engine_run e ts e1 \<Longrightarrow> ingest_transaction now cid ev wall cpu n e1 = (t, e2) \<Longrightarrow> tx_ok t
    \<Longrightarrow> engine_run e (ts @ [t]) e2"
| submit: "engine_run e ts e1 \<Longrightarrow> submit_transaction now cid ev wall cpu n e1 = (fut, out, e2)
    \<Longrightarrow> t = fst (ingest_transaction now cid ev wall cpu n e1) \<Longrightarrow> tx_ok t
    \<Longrightarrow> engine_run e (ts @ [t]) e2"
| batch_size: "engine_run e ts e1 \<Longrightarrow> set_batch_size v e1 = Inr e2 \<Longrightarrow> engine_run e ts e2"
| flush: "engine_run e ts e1 \<Longrightarrow> flush e1 = (out, e2) \<Longrightarrow> engine_run e ts e2"
| task: "engine_run e ts e1 \<Longrightarrow> flush_batch ledger b e1 = (out, e2) \<Longrightarrow> engine_run e ts e2"
| resolve: "engine_run e ts e1 \<Longrightarrow> e2 = resolve_waiters blk p ws e1 \<Longrightarrow> engine_run e ts e2"

inductive_cases engine_runE: "engine_run e ts e'"

text \<open>
  The journal holds the transactions in order, numbered from 1, and the pending ones are
  its last ones.
\<close>

definition engine_inv :: "rtx list \<Rightarrow> rollup_engine \<Rightarrow> bool" where
  "engine_inv ts e \<longleftrightarrow>
     iter_rollup_journal (re_journal e) = Inr ts \<and> at_line_end (journal_text (re_journal e)) \<and>
     (\<forall>t \<in> set ts. tx_ok t) \<and> (\<forall>i < length ts. rt_seq (ts ! i) = int i + 1) \<and>
     re_next_seq e = int (length ts) + 1 \<and> (\<exists>m \<le> length ts. re_pending e = drop m ts)"

lemma engine_inv_ingest:
  assumes "engine_inv ts e" and "ingest_transaction now cid ev wall cpu n e = (t, e')" and "tx_ok t"
  shows "engine_inv (ts @ [t]) e'"
proof -
  obtain m where m: "m \<le> length ts" "re_pending e = drop m ts"
    using assms(1) by (auto simp: engine_inv_def)
  have t: "rt_seq t = int (length ts) + 1"
    and e': "re_journal e' = journal_append (re_journal e) (rtx_json t)"
      "re_next_seq e' = re_next_seq e + 1" "re_pending e' = re_pending e @ [t]"
    using assms(1,2) by (auto simp: ingest_transaction_def Let_def engine_inv_def)
  have "iter_rollup_journal (re_journal e') = Inr (ts @ [t])"
    using assms(1,3) t by (simp add: e' iter_journal_append engine_inv_def)
  moreover have "at_line_end (journal_text (re_journal e'))"
    by (simp add: e' journal_append_def journal_text_def)
  moreover have "\<exists>k \<le> length (ts @ [t]). re_pending e' = drop k (ts @ [t])"
    using m by (intro exI [of _ m]) (simp add: e')
  moreover have "\<forall>i < length (ts @ [t]). rt_seq ((ts @ [t]) ! i) = int i + 1"
    using assms(1) t by (auto simp: engine_inv_def nth_append less_Suc_eq)
  ultimately show ?thesis
    using assms(1,3) unfolding engine_inv_def by (simp add: e' ball_Un)
qed

lemma engine_inv_pending:
  assumes "engine_inv ts e" and "re_journal e' = re_journal e" and "re_next_seq e' = re_next_seq e"
    and "re_pending e' = drop k (re_pending e)" and "k \<le> length (re_pending e)"
  shows "engine_inv ts e'"
proof -
  obtain m where "m \<le> length ts" "re_pending e = drop m ts"
    using assms(1) by (auto simp: engine_inv_def)
  then have "\<exists>k \<le> length ts. re_pending e' = drop k ts"
    using assms(4,5) by (intro exI [of _ "m + k"]) (auto simp: add.commute)
  with assms show ?thesis by (simp add: engine_inv_def)
qed

lemma submit_parts:
  assumes "submit_transaction now cid ev wall cpu n e = (fut, out, e2)"
  obtains t e1 k where "ingest_transaction now cid ev wall cpu n e = (t, e1)"
    "re_journal e2 = re_journal e1" "re_next_seq e2 = re_next_seq e1"
    "re_pending e2 = drop k (re_pending e1)" "k \<le> length (re_pending e1)"
    "\<And>b ws. out = Some (b, ws) \<Longrightarrow> b = take k (re_pending e1)"
proof -
  obtain t e1 where i: "ingest_transaction now cid ev wall cpu n e = (t, e1)" by force
  let ?n = "nat (re_batch_size e1)"
  show thesis
  proof (cases "length (re_pending e1) \<ge> ?n \<and> length (re_waiters e1 @ [length (re_futures e1)]) \<ge> ?n")
    case True
    with assms i show thesis
      by (intro that [of t e1 ?n]) (auto simp: submit_transaction_def Let_def)
  next
    case False
    with assms i show thesis
      by (intro that [of t e1 0]) (auto simp: submit_transaction_def Let_def split: if_splits)
  qed
qed

lemma engine_inv_submit:
  assumes "engine_inv ts e" and "submit_transaction now cid ev wall cpu n e = (fut, out, e2)"
    and "tx_ok (fst (ingest_transaction now cid ev wall cpu n e))"
  shows "engine_inv (ts @ [fst (ingest_transaction now cid ev wall cpu n e)]) e2"
proof -
  from assms(2) obtain t e1 k where p: "ingest_transaction now cid ev wall cpu n e = (t, e1)"
    "re_journal e2 = re_journal e1" "re_next_seq e2 = re_next_seq e1"
    "re_pending e2 = drop k (re_pending e1)" "k \<le> length (re_pending e1)"
    by (rule submit_parts)
  have "engine_inv (ts @ [t]) e1"
    using assms(1,3) p(1) by (intro engine_inv_ingest) auto
  from engine_inv_pending [OF this p(2-5)] show ?thesis by (simp add: p(1))
qed

lemma engine_run_inv:
  "engine_run e ts' e' \<Longrightarrow> engine_inv ts e \<Longrightarrow> engine_inv (ts @ ts') e'"
proof (induction rule: engine_run.induct)
  case (ingest e ts' e1 now cid ev wall cpu n t e2)
  then show ?case using engine_inv_ingest by (metis append.assoc)
next
  case (submit e ts' e1 now cid ev wall cpu n fut out e2 t)
  then show ?case using engine_inv_submit by (metis append.assoc)
next
  case (batch_size e ts' e1 v e2)
  then show ?case
    by (auto simp: set_batch_size_def split: option.splits if_splits intro: engine_inv_pending [of _ e1 _ 0])
next
  case (flush e ts' e1 out e2)
  then show ?case
    by (auto simp: flush_def split: if_splits
        intro: engine_inv_pending [of _ e1 _ 0] engine_inv_pending [of _ e1 _ "length (re_pending e1)"])
next
  case (task e ts' e1 ledger b out e2)
  then show ?case
    by (auto simp: flush_batch_def Let_def split: if_splits intro: engine_inv_pending [of _ e1 _ 0])
next
  case (resolve e ts' e1 e2 blk p ws)
  then show ?case by (auto simp: resolve_waiters_def intro: engine_inv_pending [of _ e1 _ 0])
qed simp

lemma engine_inv_new: "new_engine None k = Inr e \<Longrightarrow> engine_inv [] e"
  by (auto simp: new_engine_def engine_inv_def iter_rollup_journal_def at_line_end_def journal_text_def
      split: if_splits)

section \<open>The payload of a batch is accepted\<close>

lemma looks_like_hash_genesis [simp]: "looks_like_hash genesis_prev 64"
  by (simp add: looks_like_hash_iff genesis_prev_def hex_alphabet_def)

lemma coerce_block_hash: "coerce_block obj = Some b \<Longrightarrow> looks_like_hash (lb_hash b) 64"
  by (auto simp: coerce_block_def split: jval.splits option.splits if_splits)

lemma consensus_tail_hash: "looks_like_hash (snd (consensus_tail f)) 64"
proof (cases f)
  case (Some t)
  let ?g = "\<lambda>raw. let l = strip raw in if l = [] then None
    else (case loads l of None \<Rightarrow> None | Some obj \<Rightarrow> coerce_block obj)"
  have "looks_like_hash (lb_hash b) 64" if "b \<in> set (List.map_filter ?g ls)" for b ls
    using that by (auto simp: in_map_filter Let_def coerce_block_hash split: if_splits option.splits)
  from this [of "hd (List.map_filter ?g (rev (splitlines t)))" "rev (splitlines t)"] Some show ?thesis
    by (cases "List.map_filter ?g (rev (splitlines t))") (auto simp: consensus_tail_def)
qed (simp add: consensus_tail_def)

lemma engine_segment:
  assumes "engine_inv ts e" and "m + k \<le> length ts" and "0 < k"
  shows "filter (\<lambda>t. int m + 1 \<le> rt_seq t \<and> rt_seq t \<le> int (m + k)) ts = take k (drop m ts)"
    and "Min (set (map rt_seq (take k (drop m ts)))) = int m + 1"
    and "Max (set (map rt_seq (take k (drop m ts)))) = int (m + k)"
proof -
  let ?P = "\<lambda>t. int m + 1 \<le> rt_seq t \<and> rt_seq t \<le> int (m + k)"
  have seq: "rt_seq (ts ! i) = int i + 1" if "i < length ts" for i
    using assms(1) that by (simp add: engine_inv_def)
  have split: "ts = take m ts @ take k (drop m ts) @ drop (m + k) ts"
    by (metis append_take_drop_id drop_drop add.commute)
  have "\<forall>t \<in> set (take m ts). \<not> ?P t"
    using assms(2) seq by (auto simp: in_set_conv_nth)
  moreover have "\<forall>t \<in> set (take k (drop m ts)). ?P t"
    using assms(2) seq by (auto simp: in_set_conv_nth)
  moreover have "\<forall>t \<in> set (drop (m + k) ts). \<not> ?P t"
    using assms(2) seq by (auto simp: in_set_conv_nth)
  ultimately show "filter ?P ts = take k (drop m ts)"
    by (subst split) (simp add: filter_empty_conv filter_id_conv del: append_take_drop_id)
  have range: "set (map rt_seq (take k (drop m ts))) = {int m + 1..int (m + k)}"
  proof
    show "set (map rt_seq (take k (drop m ts))) \<subseteq> {int m + 1..int (m + k)}"
      using assms(2) seq by (auto simp: in_set_conv_nth)
    show "{int m + 1..int (m + k)} \<subseteq> set (map rt_seq (take k (drop m ts)))"
    proof
      fix x assume x: "x \<in> {int m + 1..int (m + k)}"
      define i where "i = nat (x - int m - 1)"
      have "i < length (take k (drop m ts))" and "rt_seq (take k (drop m ts) ! i) = x"
        using x assms(2) seq [of "m + i"] by (auto simp: i_def)
      then show "x \<in> set (map rt_seq (take k (drop m ts)))" by (metis nth_mem image_eqI set_map)
    qed
  qed
  show "Min (set (map rt_seq (take k (drop m ts)))) = int m + 1"
    unfolding range using assms(3) by (intro Min_eqI) auto
  show "Max (set (map rt_seq (take k (drop m ts)))) = int (m + k)"
    unfolding range using assms(3) by (intro Max_eqI) auto
qed

lemma payload_fields_rollup:
  assumes "0 < a" and "a \<le> b" and "0 < n"
    and "looks_like_hash pr 64" and "looks_like_hash mk 64" and "looks_like_hash msk 64"
    and "looks_like_hash tok 64"
  obtains r where "payload_fields (rollup_payload c a b n pr mk msk tok) = Inr r"
    "rf_start r = a" "rf_end r = b" "rf_count r = n" "rf_prev r = pr" "rf_merkle r = mk" "rf_mask r = msk"
    "rf_token r = tok" "rf_target r = compute_target_ledger_root pr mk msk tok a b n"
    "rf_proof r = proof_fields (rf_prev r) (rf_target r) (rf_mask r) (rf_token r) @
      [(''proof_hash'', JStr (sha256_hex (canonical_json (JObj
         (proof_fields (rf_prev r) (rf_target r) (rf_mask r) (rf_token r))))))]"
proof -
  define tgt where "tgt = compute_target_ledger_root pr mk msk tok a b n"
  define fs where "fs = proof_fields pr tgt msk tok"
  let ?r = "\<lparr>rf_start = a, rf_end = b, rf_count = n, rf_prev = pr, rf_merkle = mk, rf_mask = msk,
             rf_token = tok, rf_target = tgt,
             rf_proof = fs @ [(''proof_hash'', JStr (sha256_hex (canonical_json (JObj fs))))]\<rparr>"
  have "looks_like_hash tgt 64" by (simp add: tgt_def compute_target_ledger_root_def looks_like_hash_sha256)
  then have "payload_fields (rollup_payload c a b n pr mk msk tok) = Inr ?r"
    using assms by (simp add: payload_fields_def rollup_payload_def tgt_def [symmetric] fs_def [symmetric] Let_def
        check_def eq_str_def pos_field_def hash_field_def)
  then show thesis by (rule that) (simp_all add: tgt_def fs_def)
qed

lemma check_proof_fields:
  assumes "rf_proof r = proof_fields (rf_prev r) (rf_target r) (rf_mask r) (rf_token r) @
      [(''proof_hash'', JStr (sha256_hex (canonical_json (JObj
         (proof_fields (rf_prev r) (rf_target r) (rf_mask r) (rf_token r))))))]"
  shows "check_proof r = Inr ()"
proof -
  have "hash_field (rf_proof r) ''proof_hash'' msg = Inr (sha256_hex (canonical_json (JObj
      (proof_fields (rf_prev r) (rf_target r) (rf_mask r) (rf_token r)))))" for msg
    unfolding assms using looks_like_hash_sha256 by (simp add: hash_field_def proof_fields_def)
  moreover have "jget (rf_proof r) ''previous_ledger_root'' = JStr (rf_prev r)"
    "jget (rf_proof r) ''target_ledger_root'' = JStr (rf_target r)"
    "jget (rf_proof r) ''correlation_mask'' = JStr (rf_mask r)"
    "jget (rf_proof r) ''execution_token_hash'' = JStr (rf_token r)"
    unfolding assms by (simp_all add: proof_fields_def)
  ultimately show ?thesis by (simp add: check_proof_def Let_def check_def)
qed

lemma flush_batch_result:
  assumes "b \<noteq> []" and "\<forall>t \<in> set b. tx_ok t"
  obtains mk msk where "looks_like_hash mk 64" "looks_like_hash msk 64"
    "merkle_root_from_transactions (sort_key batch_key b) = Inr mk"
    "compute_correlation_mask (map rt_cid (sort_key batch_key b)) 256 = Inr msk"
    "flush_batch ledger b e =
      (Inr (rollup_payload (re_counter e + 1) (Min (set (map rt_seq b))) (Max (set (map rt_seq b)))
        (int (length b)) (snd (consensus_tail ledger)) mk msk (token_of (sort_key batch_key b))),
       e\<lparr>re_counter := re_counter e + 1\<rparr>)"
proof -
  obtain mk where mk: "merkle_root_from_transactions (sort_key batch_key b) = Inr mk" "looks_like_hash mk 64"
    using merkle_ok [of "sort_key batch_key b"] assms by auto
  obtain msk where "compute_correlation_mask (map rt_cid (sort_key batch_key b)) 256 = Inr msk"
      "looks_like_hash msk 64"
    using mask_256 by blast
  with mk assms show thesis by (intro that [of mk msk]) (simp_all add: flush_batch_def Let_def)
qed

lemma looks_like_hash_token: "looks_like_hash (token_of ts) 64"
  by (simp add: token_of_def compute_execution_token_hash_def looks_like_hash_sha256)

text \<open>The journal may have grown since the batch was taken.\<close>

lemma segment_payload_verifies:
  assumes "engine_inv ts e" and "m + k \<le> length ts" and "0 < k"
    and "flush_batch ledger (take k (drop m ts)) e' = (out, e'')"
  shows "\<exists>p. out = Inr p \<and> verify_rollup_payload p (re_journal e) (snd (consensus_tail ledger)) = Inr p"
proof -
  let ?b = "take k (drop m ts)" and ?prev = "snd (consensus_tail ledger)"
  have b: "?b \<noteq> []" "\<forall>t \<in> set ?b. tx_ok t" "length ?b = k"
    using assms by (auto simp: engine_inv_def dest!: in_set_takeD in_set_dropD)
  note seg = engine_segment [OF assms(1-3)]
  obtain mk msk where mk: "looks_like_hash mk 64" "looks_like_hash msk 64"
    "merkle_root_from_transactions (sort_key batch_key ?b) = Inr mk"
    "compute_correlation_mask (map rt_cid (sort_key batch_key ?b)) 256 = Inr msk"
    and out: "out = Inr (rollup_payload (re_counter e' + 1) (int m + 1) (int (m + k)) (int k) ?prev mk msk
        (token_of (sort_key batch_key ?b)))"
    using flush_batch_result [OF b(1,2), of ledger e'] assms(4) b(3) seg(2,3) by (metis prod.inject)
  let ?tok = "token_of (sort_key batch_key ?b)"
  let ?p = "rollup_payload (re_counter e' + 1) (int m + 1) (int (m + k)) (int k) ?prev mk msk ?tok"
  obtain r where r: "payload_fields ?p = Inr r"
    and f: "rf_start r = int m + 1" "rf_end r = int (m + k)" "rf_count r = int k" "rf_prev r = ?prev"
      "rf_merkle r = mk" "rf_mask r = msk" "rf_token r = ?tok"
      "rf_target r = compute_target_ledger_root ?prev mk msk ?tok (int m + 1) (int (m + k)) (int k)"
      "rf_proof r = proof_fields (rf_prev r) (rf_target r) (rf_mask r) (rf_token r) @
        [(''proof_hash'', JStr (sha256_hex (canonical_json (JObj
           (proof_fields (rf_prev r) (rf_target r) (rf_mask r) (rf_token r))))))]"
    by (rule payload_fields_rollup [of "int m + 1" "int (m + k)" "int k" ?prev mk msk ?tok "re_counter e' + 1"])
      (use mk(1,2) assms(3) consensus_tail_hash looks_like_hash_token in simp_all)
  have "check_batch r ?b = Inr ()"
    unfolding check_batch_def Let_def mk(3,4) check_def f b(3) by simp
  moreover have "check_proof r = Inr ()" by (rule check_proof_fields) (rule f)
  moreover have "iter_rollup_journal (re_journal e) = Inr ts" using assms(1) by (simp add: engine_inv_def)
  ultimately have "verify_rollup_payload ?p (re_journal e) ?prev = Inr ?p"
    by (simp only: verify_rollup_payload_def r res_bind.simps f seg(1) check_def simp_thms require_simps)
  with out show ?thesis by blast
qed

lemma flush_segment:
  assumes "engine_inv ts e" and "flush e = (Some (b, ws), e')"
  obtains m k where "b = take k (drop m ts)" "m + k \<le> length ts" "0 < k"
proof -
  obtain m where "m \<le> length ts" "re_pending e = drop m ts" using assms(1) by (auto simp: engine_inv_def)
  with assms(2) show thesis
    by (intro that [of "length ts - m" m]) (auto simp: flush_def split: if_splits)
qed

section \<open>The Merkle root fixes its leaves\<close>

text \<open>The texts hashed on the way from a level to the root.\<close>

fun pair_texts :: "string list \<Rightarrow> string list" where
  "pair_texts (a # b # r) = (''I'' @ a @ b) # pair_texts r"
| "pair_texts _ = []"

function node_texts :: "string list \<Rightarrow> string list" where
  "node_texts level =
     (if length level > 1 then pair_texts (pad_level level) @ node_texts (parents (pad_level level)) else [])"
  by pat_completeness auto
termination
  by (relation "measure length") (auto simp: length_parents length_pad_level)

declare node_texts.simps [simp del]

definition ordered_txs :: "rtx list \<Rightarrow> rtx list" where
  "ordered_txs txs = sort_key (\<lambda>t. the (stable_key t)) txs"

definition leaf_level :: "rtx list \<Rightarrow> string list" where
  "leaf_level txs = map (\<lambda>t. sha256_digest (leaf_text t)) (ordered_txs txs)"

definition merkle_texts :: "rtx list \<Rightarrow> string set" where
  "merkle_texts txs = set (map leaf_text txs) \<union> set (node_texts (leaf_level txs))"

lemma parents_inj:
  assumes "inj_on sha256_digest A"
  shows "length l = length l' \<Longrightarrow> even (length l) \<Longrightarrow> \<forall>x \<in> set l \<union> set l'. length x = 32 \<Longrightarrow>
    set (pair_texts l) \<union> set (pair_texts l') \<subseteq> A \<Longrightarrow> parents l = parents l' \<Longrightarrow> l = l'"
proof (induction l arbitrary: l' rule: parents.induct)
  case (1 a b r)
  then obtain a' b' r' where l': "l' = a' # b' # r'"
    by (metis length_Cons length_Suc_conv)
  from 1 l' have "sha256_digest (''I'' @ a @ b) = sha256_digest (''I'' @ a' @ b')" by simp
  with 1 l' assms have "''I'' @ a @ b = ''I'' @ a' @ b'" by (auto dest!: inj_onD)
  with 1 l' show ?case by auto
qed auto

lemma pad_level_inj: "length l = length l' \<Longrightarrow> pad_level l = pad_level l' \<Longrightarrow> l = l'"
  by (auto simp: pad_level_def split: if_splits)

lemma set_pad_level: "l \<noteq> [] \<Longrightarrow> set (pad_level l) = set l"
  by (auto simp: pad_level_def)

lemma merkle_top_inj:
  assumes "inj_on sha256_digest A"
  shows "length l = length l' \<Longrightarrow> l \<noteq> [] \<Longrightarrow> \<forall>x \<in> set l \<union> set l'. length x = 32 \<Longrightarrow>
    set (node_texts l) \<union> set (node_texts l') \<subseteq> A \<Longrightarrow> merkle_top l = merkle_top l' \<Longrightarrow> l = l'"
proof (induction l arbitrary: l' rule: merkle_top.induct)
  case (1 l)
  show ?case
  proof (cases "length l > 1")
    case True
    let ?p = "parents (pad_level l)" and ?p' = "parents (pad_level l')"
    have len: "length (pad_level l) = length (pad_level l')" "length ?p = length ?p'"
      using 1 by (simp_all add: length_pad_level length_parents)
    have nt: "node_texts l = pair_texts (pad_level l) @ node_texts ?p"
      "node_texts l' = pair_texts (pad_level l') @ node_texts ?p'"
      using True 1(2) by (simp_all add: node_texts.simps [of l] node_texts.simps [of l'])
    have top: "merkle_top ?p = merkle_top ?p'"
      using "1.prems"(1,5) True by (simp add: merkle_top.simps [of l] merkle_top.simps [of l'])
    have ne: "?p \<noteq> []"
      using True length_parents [of "pad_level l"] by (auto simp: length_pad_level)
    have sub: "set (node_texts ?p) \<union> set (node_texts ?p') \<subseteq> A"
      "set (pair_texts (pad_level l)) \<union> set (pair_texts (pad_level l')) \<subseteq> A"
      using "1.prems"(4) unfolding nt by auto
    have eq: "?p = ?p'"
      by (rule "1.IH" [OF True len(2) ne _ sub(1) top]) (auto simp: set_parents)
    have "l' \<noteq> []" using "1.prems"(1,2) by auto
    then have l32: "\<forall>x \<in> set (pad_level l) \<union> set (pad_level l'). length x = 32"
      using "1.prems"(2,3) by (simp add: set_pad_level)
    have "pad_level l = pad_level l'"
      by (rule parents_inj [OF assms len(1) _ l32 sub(2) eq]) (simp add: length_pad_level)
    with "1.prems"(1) show ?thesis by (rule pad_level_inj)
  next
    case False
    with "1.prems"(1,2) have "length l = 1" "length l' = 1" by (cases l; simp)+
    then obtain x y where "l = [x]" "l' = [y]" by (metis One_nat_def length_0_conv length_Suc_conv)
    with "1.prems"(5) show ?thesis by (simp add: merkle_top.simps)
  qed
qed

lemma digit_inj: "m < 16 \<Longrightarrow> n < 16 \<Longrightarrow> digit m = digit n \<Longrightarrow> m = n"
  using hex_val_digit by (metis option.inject)

lemma bytes_hex_inj: "length s = length t \<Longrightarrow> bytes_hex s = bytes_hex t \<Longrightarrow> s = t"
proof (induction s t rule: list_induct2)
  case (Cons c s d t)
  then have "(of_char c :: nat) div 16 = of_char d div 16" "(of_char c :: nat) mod 16 = of_char d mod 16"
    by (auto simp: bytes_hex_def byte_hex_def less_mult_imp_div_less intro!: digit_inj)
  then have "(of_char c :: nat) = of_char d" by (metis div_mult_mod_eq)
  with Cons show ?case by (simp add: bytes_hex_def byte_hex_def)
qed simp

lemma leaf_text_material:
  assumes "tx_ok t" and "tx_ok u" and "leaf_text t = leaf_text u"
  shows "material t = material u"
proof -
  have "wf_json (JObj (material x))" if "tx_ok x" for x
    using that by (simp add: material_def tx_ok_def plain_flt_def float_or_zero_def wf_flt_zero)
  then have "canon (JObj (material t)) = canon (JObj (material u))"
    using assms by (intro dumps_eq_canon) (auto simp: leaf_text_def canonical_json_def simp del: dumps.simps)
  moreover have "wf_dict (material x)" for x by (simp add: material_def wf_dict_def)
  ultimately have g: "map_option canon (dget (material t) k) = map_option canon (dget (material u) k)" for k
    using dget_canon_dict by (metis canon_JObj jval.inject(6))
  show ?thesis
    using g [of "''correlation_id''"] g [of "''event''"] g [of "''wall_ms''"] g [of "''cpu_ms''"]
      g [of "''bytes_transferred''"] by (simp add: material_def)
qed

lemma map_sort_key_perm:
  assumes "mset xs = mset ys" and "\<And>x y. x \<in> set xs \<Longrightarrow> y \<in> set xs \<Longrightarrow> k x = k y \<Longrightarrow> f x = f y"
  shows "map f (sort_key k xs) = map f (sort_key k ys)"
proof -
  let ?a = "sort_key k xs" and ?b = "sort_key k ys"
  have set: "set ?a = set xs" "set ?b = set xs" using mset_eq_setD [OF assms(1)] by simp_all
  have "mset (map k ?a) = mset (map k ?b)" using assms(1) by simp
  then have keys: "map k ?a = map k ?b"
    by (metis properties_for_sort sorted_sort_id sorted_sort_key)
  then have len: "length ?a = length ?b" by (metis length_map)
  show ?thesis
  proof (rule nth_equalityI)
    fix i assume "i < length (map f ?a)"
    then have i: "i < length ?a" "i < length ?b" using len by simp_all
    then have "k (?a ! i) = k (?b ! i)" using keys by (metis nth_map)
    then have "f (?a ! i) = f (?b ! i)" using i set by (intro assms(2)) (metis nth_mem)+
    with i show "map f ?a ! i = map f ?b ! i" by simp
  qed (use len in simp)
qed

lemma mset_map_transfer:
  assumes "mset (map f xs) = mset (map f ys)"
    and "\<And>x y. x \<in> set xs \<Longrightarrow> y \<in> set ys \<Longrightarrow> f x = f y \<Longrightarrow> g x = g y"
  shows "mset (map g xs) = mset (map g ys)"
  using assms
proof (induction xs arbitrary: ys)
  case (Cons x xs)
  have "f x \<in> set (map f ys)" using mset_eq_setD [OF Cons.prems(1)] by auto
  then obtain y where y: "y \<in> set ys" "f x = f y" by auto
  then have ys: "mset ys = add_mset y (mset (remove1 y ys))" by simp
  have "image_mset f (mset ys) = add_mset (f x) (image_mset f (mset (remove1 y ys)))"
    unfolding ys y(2) by (rule image_mset_add_mset)
  with Cons.prems(1) have "mset (map f xs) = mset (map f (remove1 y ys))" by simp
  then have "mset (map g xs) = mset (map g (remove1 y ys))"
    using Cons.prems(2) by (intro Cons.IH) (auto dest: notin_set_remove1)
  moreover have "g x = g y" using Cons.prems(2) y by simp
  moreover have "image_mset g (mset ys) = add_mset (g y) (image_mset g (mset (remove1 y ys)))"
    unfolding ys by (rule image_mset_add_mset)
  ultimately show ?case by simp
qed simp

section \<open>A sample transaction\<close>

lemma million: "flt_val ''1000000.0'' = Some 1000000"
proof -
  have lit: "lit_val ''1000000.0'' = 1000000"
    by (simp add: lit_val_def is_digit_def read_nat_def digit_val_def pow_int_def)
  have len: "bit_length 1000000 = 20" "bit_length (Suc 0) = 1" by (simp_all add: bit_length.simps)
  have "(1000000::rat) < 2 ^ 20" by simp
  also have "\<dots> \<le> 2 ^ 1024" by (rule power_increasing) simp_all
  finally have "\<not> pow_int 2 1024 \<le> (1000000::rat)" by (simp only: pow_int_def) simp
  moreover have r: "round_half_even 8589934592000000 = 8589934592000000"
    by (simp add: round_half_even_def Let_def)
  moreover have p: "pow_int 2 19 = 524288" "pow_int 2 (- 33) = 1 / 8589934592" by (simp_all add: pow_int_def)
  ultimately have "round_double_pos 1000000 = Some 1000000" by (simp add: round_double_pos_def len p r)
  then show ?thesis unfolding flt_val_def lit by simp
qed

lemma micros_zero: "micros ''0.0'' = Some 0"
proof -
  have "flt_val ''0.0'' = Some 0"
    by (simp add: flt_val_def lit_val_def is_digit_def read_nat_def digit_val_def round_double_pos_def
        round_half_even_def Let_def pow_int_def)
  then show ?thesis
    by (simp add: micros_def float_or_zero_def flt_truthy_def flt_mult_def million flt_trunc_def)
qed

lemma tx_ok_sample:
  "tx_ok \<lparr>rt_seq = i, rt_ts = ''0.0'', rt_cid = ''c'', rt_event = ''e'', rt_wall = ''0.0'', rt_cpu = ''0.0'',
     rt_bytes = n\<rparr>"
proof -
  have "text_ok ''c''" "text_ok ''e''" by (rule text_ok_ascii; simp add: is_cont_def)+
  then show ?thesis by (simp add: tx_ok_def plain_flt_def wf_flt_zero stable_key_def micros_zero)
qed

section \<open>Properties\<close>



text \<open>the Merkle root fixes the transactions it was computed from: two batches of the same
  size with the same root hold the same transactions, unless two of the hashed texts collide.\<close>

theorem merkle_root_binds:
  assumes "\<forall>t \<in> set xs \<union> set ys. tx_ok t" and "length xs = length ys"
    and "merkle_root_from_transactions xs = merkle_root_from_transactions ys"
    and "inj_on sha256_digest (merkle_texts xs \<union> merkle_texts ys)"
  shows "mset (map material xs) = mset (map material ys)"
proof (cases "xs = []")
  case False
  let ?A = "merkle_texts xs \<union> merkle_texts ys"
  have root: "merkle_root_from_transactions zs = Inr (bytes_hex (merkle_top (leaf_level zs)))"
    if "zs \<noteq> []" "\<forall>t \<in> set zs. tx_ok t" for zs
    using that by (auto simp: merkle_root_from_transactions_def leaf_level_def ordered_txs_def list_all_iff tx_ok_def
        Let_def)
  have set32: "\<forall>x \<in> set (leaf_level xs) \<union> set (leaf_level ys). length x = 32"
    by (auto simp: leaf_level_def)
  have len: "length (leaf_level xs) = length (leaf_level ys)" "leaf_level xs \<noteq> []" "leaf_level ys \<noteq> []"
    using False assms(2) by (auto simp: leaf_level_def ordered_txs_def)
  have "ys \<noteq> []" using False assms(2) by auto
  then have "bytes_hex (merkle_top (leaf_level xs)) = bytes_hex (merkle_top (leaf_level ys))"
    using assms(1,3) False root [of xs] root [of ys] by simp
  moreover have "length (merkle_top (leaf_level xs)) = length (merkle_top (leaf_level ys))"
    using len set32 by (simp add: merkle_top_in)
  ultimately have "merkle_top (leaf_level xs) = merkle_top (leaf_level ys)" by (metis bytes_hex_inj)
  then have "leaf_level xs = leaf_level ys"
    using merkle_top_inj [OF assms(4) len(1,2) set32] by (auto simp: merkle_texts_def)
  then have "map sha256_digest (map leaf_text (ordered_txs xs)) = map sha256_digest (map leaf_text (ordered_txs ys))"
    by (simp add: leaf_level_def comp_def)
  moreover have "inj_on sha256_digest (set (map leaf_text (ordered_txs xs)) \<union> set (map leaf_text (ordered_txs ys)))"
    by (rule inj_on_subset [OF assms(4)]) (auto simp: merkle_texts_def ordered_txs_def)
  ultimately have "map leaf_text (ordered_txs xs) = map leaf_text (ordered_txs ys)"
    by (rule map_inj_on)
  then have "mset (map leaf_text xs) = mset (map leaf_text ys)"
    by (metis ordered_txs_def mset_map mset_sort)
  then show ?thesis
    by (rule mset_map_transfer) (use assms(1) in \<open>auto intro: leaf_text_material\<close>)
qed (use assms(2) in simp)

theorem merkle_root_binds_witness:
  "mset (map material
      [\<lparr>rt_seq = 1, rt_ts = ''0.0'', rt_cid = ''c'', rt_event = ''e'', rt_wall = ''0.0'', rt_cpu = ''0.0'', rt_bytes = 5\<rparr>]) =
   mset (map material
      [\<lparr>rt_seq = 2, rt_ts = ''0.0'', rt_cid = ''c'', rt_event = ''e'', rt_wall = ''0.0'', rt_cpu = ''0.0'', rt_bytes = 5\<rparr>])"
  (is "mset (map material [?t]) = mset (map material [?u])")
proof (rule merkle_root_binds)
  show "\<forall>t \<in> set [?t] \<union> set [?u]. tx_ok t" using tx_ok_sample by simp
  show "merkle_root_from_transactions [?t] = merkle_root_from_transactions [?u]"
    by (simp add: merkle_root_from_transactions_def stable_key_def leaf_text_def material_def micros_zero)
  have "merkle_texts [?t] = {leaf_text ?t}" "merkle_texts [?u] = {leaf_text ?t}"
    by (simp_all add: merkle_texts_def leaf_level_def ordered_txs_def node_texts.simps leaf_text_def material_def)
  then show "inj_on sha256_digest (merkle_texts [?t] \<union> merkle_texts [?u])" by simp
qed simp

text \<open>the Merkle root does not depend on the order of the transactions, when those with
  equal sort keys (which truncate times to microseconds) carry equal material.\<close>

theorem merkle_order_independent:
  assumes "mset xs = mset ys"
    and "\<And>t u. t \<in> set xs \<Longrightarrow> u \<in> set xs \<Longrightarrow> stable_key t = stable_key u \<Longrightarrow> material t = material u"
  shows "merkle_root_from_transactions xs = merkle_root_from_transactions ys"
proof -
  have eq: "set xs = set ys" "xs = [] \<longleftrightarrow> ys = []" using assms(1) by (auto dest: mset_eq_setD)
  show ?thesis
  proof (cases "list_all (\<lambda>t. stable_key t \<noteq> None) xs")
    case True
    let ?k = "\<lambda>t. the (stable_key t)"
    have "stable_key t \<noteq> None" if "t \<in> set xs" for t
      using True that unfolding list_all_iff by blast
    then have key: "?k t = ?k u \<Longrightarrow> material t = material u" if "t \<in> set xs" "u \<in> set xs" for t u
      using that assms(2) [OF that] option.expand by blast
    have "map (\<lambda>t. sha256_digest (leaf_text t)) (sort_key ?k xs) =
        map (\<lambda>t. sha256_digest (leaf_text t)) (sort_key ?k ys)"
    proof (rule map_sort_key_perm [OF assms(1)])
      fix t u assume "t \<in> set xs" "u \<in> set xs" "?k t = ?k u"
      then have "material t = material u" by (rule key)
      then show "sha256_digest (leaf_text t) = sha256_digest (leaf_text u)" by (simp add: leaf_text_def)
    qed
    then show ?thesis
      using True eq unfolding merkle_root_from_transactions_def list_all_iff Let_def by simp
  next
    case False
    with eq show ?thesis by (auto simp: merkle_root_from_transactions_def list_all_iff)
  qed
qed

theorem merkle_order_independent_witness:
  "merkle_root_from_transactions
     [\<lparr>rt_seq = 1, rt_ts = ''0.0'', rt_cid = ''b'', rt_event = ''e'', rt_wall = ''0.0'', rt_cpu = ''0.0'', rt_bytes = 5\<rparr>,
      \<lparr>rt_seq = 2, rt_ts = ''0.0'', rt_cid = ''a'', rt_event = ''e'', rt_wall = ''0.0'', rt_cpu = ''0.0'', rt_bytes = 5\<rparr>] =
   merkle_root_from_transactions
     [\<lparr>rt_seq = 2, rt_ts = ''0.0'', rt_cid = ''a'', rt_event = ''e'', rt_wall = ''0.0'', rt_cpu = ''0.0'', rt_bytes = 5\<rparr>,
      \<lparr>rt_seq = 1, rt_ts = ''0.0'', rt_cid = ''b'', rt_event = ''e'', rt_wall = ''0.0'', rt_cpu = ''0.0'', rt_bytes = 5\<rparr>]"
  by (rule merkle_order_independent) (auto simp: stable_key_def micros_zero)

text \<open>an engine created over a journal that already holds transactions numbers its own
  from 1 again, so its first payload is refused: the journal holds two records under that
  number.\<close>

theorem restart_payload_refused:
  assumes "new_engine None n = Inr e0" and "engine_run e0 ts e1" and "ts \<noteq> []"
    and "new_engine (re_journal e1) k = Inr e2"
    and "ingest_transaction now cid ev wall cpu nb e2 = (t, e3)" and "tx_ok t"
    and "flush_batch ledger [t] e3 = (Inr p, e4)"
  shows "verify_rollup_payload p (re_journal e4) (snd (consensus_tail ledger)) =
    Inl (ValueError ''tx_count mismatch: journal has 2 records'')"
proof -
  have inv: "engine_inv ts e1"
    using engine_run_inv [OF assms(2) engine_inv_new [OF assms(1)]] by simp
  have e2: "re_journal e2 = re_journal e1" "re_next_seq e2 = 1"
    using assms(4) by (auto simp: new_engine_def split: if_splits)
  have t: "rt_seq t = 1" and e3: "re_journal e3 = journal_append (re_journal e2) (rtx_json t)"
    using assms(5) e2 by (auto simp: ingest_transaction_def Let_def)
  have j: "iter_rollup_journal (re_journal e3) = Inr (ts @ [t])"
    unfolding e3 e2(1) by (rule iter_journal_append) (use inv assms(6) t in \<open>simp_all add: engine_inv_def\<close>)
  obtain mk msk where mk: "looks_like_hash mk 64" "looks_like_hash msk 64"
    and out: "flush_batch ledger [t] e3 =
      (Inr (rollup_payload (re_counter e3 + 1) (Min (set (map rt_seq [t]))) (Max (set (map rt_seq [t])))
        (int (length [t])) (snd (consensus_tail ledger)) mk msk (token_of (sort_key batch_key [t]))),
       e3\<lparr>re_counter := re_counter e3 + 1\<rparr>)"
    by (rule flush_batch_result [of "[t]" ledger e3]) (use assms(6) in auto)
  then have p: "p = rollup_payload (re_counter e3 + 1) 1 1 1 (snd (consensus_tail ledger)) mk msk (token_of [t])"
    and e4: "re_journal e4 = re_journal e3"
    using assms(7) t by auto
  obtain r where r: "payload_fields p = Inr r" "rf_start r = 1" "rf_end r = 1" "rf_count r = 1"
      "rf_prev r = snd (consensus_tail ledger)"
    unfolding p
    by (rule payload_fields_rollup [of 1 1 1 "snd (consensus_tail ledger)" mk msk "token_of [t]" "re_counter e3 + 1"])
      (use mk consensus_tail_hash looks_like_hash_token in simp_all)
  have "filter (\<lambda>x. 1 \<le> rt_seq x \<and> rt_seq x \<le> 1) (ts @ [t]) = [hd ts, t]"
    using engine_segment(1) [OF inv, of 0 1] assms(3) t
    by (cases ts) (simp_all only: filter_append, simp_all split: if_splits)
  then have "check_batch r (filter (\<lambda>x. rf_start r \<le> rt_seq x \<and> rt_seq x \<le> rf_end r) (ts @ [t])) =
      Inl (ValueError (''tx_count mismatch: journal has '' @ show_nat 2 @ '' records''))"
    by (simp add: r check_batch_def check_def numeral_2_eq_2)
  moreover have "show_nat 2 = ''2''" by code_simp
  ultimately show ?thesis
    by (simp add: verify_rollup_payload_def r e4 j check_def t)
qed

theorem restart_payload_refused_witness:
  "\<exists>e0 t e1 e2 u e3 p e4. new_engine None 1 = Inr e0 \<and>
     ingest_transaction ''0.0'' ''c'' ''e'' ''0.0'' ''0.0'' 7 e0 = (t, e1) \<and> new_engine (re_journal e1) 1 = Inr e2 \<and>
     ingest_transaction ''0.0'' ''c'' ''e'' ''0.0'' ''0.0'' 8 e2 = (u, e3) \<and> flush_batch None [u] e3 = (Inr p, e4) \<and>
     verify_rollup_payload p (re_journal e4) (snd (consensus_tail None)) =
       Inl (ValueError ''tx_count mismatch: journal has 2 records'')"
proof -
  obtain e0 where e0: "new_engine None 1 = Inr e0" by (simp add: new_engine_def)
  obtain t e1 where i: "ingest_transaction ''0.0'' ''c'' ''e'' ''0.0'' ''0.0'' 7 e0 = (t, e1)" by force
  then have ok: "tx_ok t" using tx_ok_sample by (auto simp: ingest_transaction_def Let_def)
  obtain e2 where e2: "new_engine (re_journal e1) 1 = Inr e2" by (simp add: new_engine_def)
  obtain u e3 where i2: "ingest_transaction ''0.0'' ''c'' ''e'' ''0.0'' ''0.0'' 8 e2 = (u, e3)" by force
  then have ok2: "tx_ok u" using tx_ok_sample by (auto simp: ingest_transaction_def Let_def)
  obtain p e4 where f: "flush_batch None [u] e3 = (Inr p, e4)"
    by (rule flush_batch_result [of "[u]" None e3]) (use ok2 in auto)
  from restart_payload_refused [OF e0 engine_run.ingest [OF engine_run.idle i ok] _ e2 i2 ok2 f]
  show ?thesis using e0 i e2 i2 f by blast
qed

end
