(* ===== verification/Consensus.thy ===== *)
theory Consensus
  imports Rollup Fault Quorum_Systems
begin

text \<open>
  \<^verbatim>\<open>core/consensus_node.py\<close>: one peer of the block replication protocol. The state
  is what the node object holds; every handler is a function on it; a coroutine that goes on
  after an \<open>await\<close> leaves a \<open>job\<close>, so that the steps of the node are the atomic segments
  between awaits in any interleaving. Messages handed to the transport are the outbox; loss,
  delay and the random drops of the test switches happen behind it.

  The lemmas show that the ledger a node writes is always one verifiable chain ending at its
  height, that it votes for at most one block per height, that it commits only with a quorum
  of votes, and that two quorums share a correct node when there are \<open>3 f + 1\<close> nodes; and
  they show where the protocol is weaker than that.
\<close>

section \<open>Equality of payloads\<close>

text \<open>
  \<^verbatim>\<open>a == b\<close> on JSON values: numbers by value, dictionaries regardless of order.
\<close>

fun json_eq :: "jval \<Rightarrow> jval \<Rightarrow> bool"
  and elems_eq :: "jval list \<Rightarrow> jval list \<Rightarrow> bool"
  and members_eq :: "(string \<times> jval) list \<Rightarrow> jdict \<Rightarrow> bool" where
  "json_eq (JObj x) b = (case b of JObj y \<Rightarrow> length x = length y \<and> members_eq x y | _ \<Rightarrow> False)"
| "json_eq (JArr xs) b = (case b of JArr ys \<Rightarrow> elems_eq xs ys | _ \<Rightarrow> False)"
| "json_eq (JStr s) b = (b = JStr s)"
| "json_eq JNull b = (b = JNull)"
| "json_eq (JInt i) b = eq_int b i"
| "json_eq (JBool t) b = eq_int b (if t then 1 else 0)"
| "json_eq (JFloat f) b =
     (case b of
        JFloat g \<Rightarrow> flt_eq f g
      | JInt i \<Rightarrow> eq_int (JFloat f) i
      | JBool t \<Rightarrow> eq_int (JFloat f) (if t then 1 else 0)
      | _ \<Rightarrow> False)"
| "elems_eq [] ys = (ys = [])"
| "elems_eq (x # xs) ys = (case ys of [] \<Rightarrow> False | y # ys' \<Rightarrow> json_eq x y \<and> elems_eq xs ys')"
| "members_eq [] y = True"
| "members_eq ((k, v) # r) y = (case dget y k of None \<Rightarrow> False | Some w \<Rightarrow> json_eq v w \<and> members_eq r y)"

section \<open>State\<close>

record tnode =
  tn_id :: string
  tn_host :: string
  tn_port :: int

record cand =
  cd_from :: string
  cd_payload :: jdict

record height =
  h_index :: int
  h_prev :: string
  h_proposal :: "lblock option"
  h_prepares :: "string set"
  h_commits :: "string set"
  h_committed :: bool

record conn =
  c_addr :: string
  c_outbound :: bool
  c_peer :: "string option"
  c_quarantined :: bool
  c_open :: bool

text \<open>Where a coroutine was started: the reader of a connection, or a proposal task.\<close>

datatype origin = Reader nat | Task int

datatype job =
    Propose int
  | Maybe_Commit origin int lblock
  | Commit_Block origin lblock
  | Finish_Commit origin lblock "cand list" "nat list"

record bft =
  bn_id :: string
  bn_token :: string
  bn_logs_in_repo :: bool
  bn_journal_path :: string
  bn_error_text :: string
  bn_clock :: "nat \<Rightarrow> string"
  bn_ticks :: nat
  bn_cluster :: string
  bn_nodes :: "tnode list"
  bn_started :: bool
  bn_closed :: bool
  bn_conns :: "(nat, conn) dict"
  bn_peers :: "(string, nat) dict"
  bn_blocked :: "string set"
  bn_quarantined :: "string set"
  bn_ledger :: "string option"
  bn_orphaned :: "string option"
  bn_journal :: "string option"
  bn_height :: height
  bn_pending :: "(int, cand list) dict"
  bn_tasks :: "int set"
  bn_waiters :: "(int, nat list) dict"
  bn_futures :: "lblock option list"
  bn_jobs :: "job list"
  bn_outbox :: "(nat \<times> jdict) list"

datatype bft_exc =
    Byzantine string "string option" jval
  | Drop
  | Not_Started
  | Bad_Topology string

definition new_height :: "int \<Rightarrow> string \<Rightarrow> height" where
  "new_height i p = \<lparr>h_index = i, h_prev = p, h_proposal = None, h_prepares = {}, h_commits = {},
     h_committed = False\<rparr>"

text \<open>\<open>__post_init__\<close>.\<close>

definition new_node ::
  "string \<Rightarrow> string \<Rightarrow> bool \<Rightarrow> string \<Rightarrow> string \<Rightarrow> (nat \<Rightarrow> string) \<Rightarrow> string option \<Rightarrow> string option
    \<Rightarrow> string option \<Rightarrow> bft" where
  "new_node nid token in_repo jpath etext clock ledger orphaned journal =
     (let (i, p) = consensus_tail ledger
      in \<lparr>bn_id = nid, bn_token = token, bn_logs_in_repo = in_repo, bn_journal_path = jpath,
          bn_error_text = etext, bn_clock = clock, bn_ticks = 0, bn_cluster = ''cluster'',
          bn_nodes = [], bn_started = False, bn_closed = False, bn_conns = [], bn_peers = [],
          bn_blocked = {}, bn_quarantined = {}, bn_ledger = ledger, bn_orphaned = orphaned,
          bn_journal = journal, bn_height = new_height i p, bn_pending = [], bn_tasks = {},
          bn_waiters = [], bn_futures = [], bn_jobs = [], bn_outbox = []\<rparr>)"

section \<open>Logs and quarantine\<close>

definition record_orphaned :: "string \<Rightarrow> string option \<Rightarrow> jdict \<Rightarrow> bft \<Rightarrow> bft" where
  "record_orphaned kind pid details s =
     s\<lparr>bn_ticks := bn_ticks s + 1,
       bn_orphaned := journal_append (bn_orphaned s)
         [(''ts_utc'', JStr (bn_clock s (bn_ticks s))), (''kind'', JStr kind),
          (''peer_id'', JStr (case pid of None \<Rightarrow> ''unknown'' | Some p \<Rightarrow> if p = [] then ''unknown'' else p)),
          (''details'', JObj details)]\<rparr>"

text \<open>
  The same call under \<open>ReadOnlyWorkspaceGuard\<close>, which refuses to open files of the repository
  for writing; the refusal is swallowed.
\<close>

definition record_guarded :: "string \<Rightarrow> string option \<Rightarrow> jdict \<Rightarrow> bft \<Rightarrow> bft" where
  "record_guarded kind pid details s =
     (if bn_logs_in_repo s then s\<lparr>bn_ticks := bn_ticks s + 1\<rparr> else record_orphaned kind pid details s)"

definition quarantine_peer :: "string \<Rightarrow> bft \<Rightarrow> bft" where
  "quarantine_peer pid s = s\<lparr>bn_quarantined := insert pid (bn_quarantined s)\<rparr>"

definition flush_quarantine :: "bool \<Rightarrow> bft \<Rightarrow> jdict \<times> bft" where
  "flush_quarantine clear_orphaned s =
     ([(''ok'', JBool True), (''quarantined_before'', JInt (int (card (bn_quarantined s)))),
       (''orphaned_cleared'', JBool clear_orphaned)],
      (if clear_orphaned then s\<lparr>bn_quarantined := {}, bn_orphaned := Some []\<rparr> else s\<lparr>bn_quarantined := {}\<rparr>))"

definition set_partition :: "string list \<Rightarrow> bft \<Rightarrow> bft" where
  "set_partition ps s = s\<lparr>bn_blocked := set ps\<rparr>"

definition peer_is_blocked :: "string \<Rightarrow> bft \<Rightarrow> bool" where
  "peer_is_blocked pid s \<longleftrightarrow> pid \<in> bn_quarantined s \<or> pid \<in> bn_blocked s"

section \<open>Topology, leader and quorum\<close>

definition topo_node :: "jval \<Rightarrow> tnode option" where
  "topo_node item =
     (case item of
        JObj d \<Rightarrow>
          (case (as_str (jget d ''id''), as_str (jget d ''host'')) of
             (Some i, Some h) \<Rightarrow>
               if is_int (jget d ''port'') \<and> 0 < int_of (jget d ''port'') \<and> int_of (jget d ''port'') \<le> 65535
               then Some \<lparr>tn_id = i, tn_host = h, tn_port = int_of (jget d ''port'')\<rparr> else None
           | _ \<Rightarrow> None)
      | _ \<Rightarrow> None)"

definition load_topology :: "jval \<Rightarrow> (bft_exc, string \<times> tnode list) res" where
  "load_topology v =
     (case v of
        JObj d \<Rightarrow>
          (case or_else (jget d ''cluster_id'') (JStr ''cluster'') of
             JStr cid \<Rightarrow>
               (case jget d ''nodes'' of
                  JArr items \<Rightarrow>
                    if items = [] then Inl (Bad_Topology ''nodes must be a non-empty list'')
                    else
                      (let nodes = List.map_filter topo_node items
                       in if nodes = [] then Inl (Bad_Topology ''No valid nodes in topology'')
                          else Inr (cid, nodes))
                | _ \<Rightarrow> Inl (Bad_Topology ''nodes must be a non-empty list''))
           | _ \<Rightarrow> Inl (Bad_Topology ''cluster_id must be a non-empty string''))
      | _ \<Rightarrow> Inl (Bad_Topology ''cluster_topology must be a JSON object''))"

definition start :: "jval \<Rightarrow> bft \<Rightarrow> (bft_exc, unit) res \<times> bft" where
  "start topo s =
     (case load_topology topo of
        Inl e \<Rightarrow> (Inl e, s)
      | Inr (cid, nodes) \<Rightarrow>
          (let s1 = s\<lparr>bn_cluster := cid, bn_nodes := nodes\<rparr> in
           if bn_id s \<in> set (map tn_id nodes) then (Inr (), s1\<lparr>bn_started := True, bn_closed := False\<rparr>)
           else (Inl (Bad_Topology (''node_id not found in topology: '' @ bn_id s)), s1)))"

definition leader_for_index :: "int \<Rightarrow> bft \<Rightarrow> string" where
  "leader_for_index i s =
     (let ids = sort (filter (\<lambda>n. n \<notin> bn_quarantined s) (map tn_id (bn_nodes s)))
      in if ids = [] then bn_id s else ids ! nat (i mod int (length ids)))"

definition quorum_size :: "nat \<Rightarrow> nat" where
  "quorum_size n = 2 * ((n - 1) div 3) + 1"

definition quorum :: "bft \<Rightarrow> nat" where
  "quorum s = quorum_size (length (bn_nodes s))"

section \<open>Sending\<close>

definition send_raw :: "nat \<Rightarrow> jdict \<Rightarrow> bft \<Rightarrow> bft" where
  "send_raw c msg s =
     (case dget (bn_conns s) c of
        None \<Rightarrow> s
      | Some cn \<Rightarrow>
          if c_quarantined cn \<or> \<not> c_open cn then s
          else if (case c_peer cn of None \<Rightarrow> False | Some p \<Rightarrow> p \<noteq> [] \<and> peer_is_blocked p s) then s
          else s\<lparr>bn_outbox := bn_outbox s @ [(c, msg)]\<rparr>)"

definition broadcast :: "jdict \<Rightarrow> bft \<Rightarrow> bft" where
  "broadcast msg s = foldl (\<lambda>t c. send_raw c msg t) s (dvalues (bn_peers s))"

definition send_to_peer :: "string \<Rightarrow> jdict \<Rightarrow> bft \<Rightarrow> bft" where
  "send_to_peer pid msg s =
     (if peer_is_blocked pid s then s
      else (case dget (bn_peers s) pid of None \<Rightarrow> s | Some c \<Rightarrow> send_raw c msg s))"

definition vote_msg :: "string \<Rightarrow> string \<Rightarrow> int \<Rightarrow> string \<Rightarrow> jdict" where
  "vote_msg kind from idx h =
     [(''type'', JStr kind), (''from'', JStr from), (''index'', JInt idx), (''block_hash'', JStr h)]"

definition hello_msg :: "bft \<Rightarrow> jdict" where
  "hello_msg s = [(''type'', JStr ''HELLO''), (''from'', JStr (bn_id s)), (''cluster_id'', JStr (bn_cluster s))]"

definition proposal_msg :: "string \<Rightarrow> lblock \<Rightarrow> jdict" where
  "proposal_msg from b = [(''type'', JStr ''PROPOSE_BLOCK''), (''from'', JStr from), (''block'', JObj (lb_json b))]"

definition open_conn :: "string \<Rightarrow> bool \<Rightarrow> bft \<Rightarrow> bft" where
  "open_conn addr outbound s =
     (let c = length (bn_conns s)
      in send_raw c (hello_msg s)
           (s\<lparr>bn_conns := dput c \<lparr>c_addr = addr, c_outbound = outbound, c_peer = None, c_quarantined = False,
               c_open = True\<rparr> (bn_conns s)\<rparr>))"

text \<open>\<open>_handle_inbound\<close> and \<open>_dial_peer\<close> (when the address answers).\<close>

definition handle_inbound :: "string \<Rightarrow> bft \<Rightarrow> bft" where
  "handle_inbound addr s = open_conn addr False s"

definition dial_peer :: "string \<Rightarrow> string \<Rightarrow> bft \<Rightarrow> bft" where
  "dial_peer pid addr s =
     (if \<not> bn_id s < pid \<or> peer_is_blocked pid s then s else open_conn addr True s)"

section \<open>Proposing\<close>

definition cand_key :: "cand \<Rightarrow> string \<times> string" where
  "cand_key c =
     (sha256_hex (canonical_json (JObj [(''from'', JStr (cd_from c)), (''payload'', JObj (cd_payload c))])),
      cd_from c)"

definition pending_at :: "int \<Rightarrow> bft \<Rightarrow> cand list" where
  "pending_at i s = (case dget (bn_pending s) i of None \<Rightarrow> [] | Some cs \<Rightarrow> cs)"

definition add_pending :: "int \<Rightarrow> cand \<Rightarrow> bft \<Rightarrow> bft" where
  "add_pending i c s = s\<lparr>bn_pending := dput i (pending_at i s @ [c]) (bn_pending s)\<rparr>"

definition schedule :: "int \<Rightarrow> bft \<Rightarrow> bft" where
  "schedule i s = s\<lparr>bn_tasks := insert i (bn_tasks s), bn_jobs := bn_jobs s @ [Propose i]\<rparr>"

definition submit_candidate :: "cand \<Rightarrow> bft \<Rightarrow> bft" where
  "submit_candidate c s =
     (let i = h_index (bn_height s);
          s1 = add_pending i c s;
          leader = leader_for_index i s1
      in if leader = bn_id s then (if i \<notin> bn_tasks s1 then schedule i s1 else s1)
         else send_to_peer leader
                [(''type'', JStr ''PROPOSE_REQUEST''), (''from'', JStr (bn_id s)), (''index'', JInt i),
                 (''payload'', JObj (cd_payload c))] s1)"

text \<open>\<open>submit_payload\<close> up to its \<open>await\<close>: the future the caller waits for.\<close>

definition submit_payload :: "jdict \<Rightarrow> bft \<Rightarrow> (bft_exc, nat) res \<times> bft" where
  "submit_payload payload s =
     (if \<not> bn_started s then (Inl Not_Started, s)
      else
        (let fut = length (bn_futures s);
             i = h_index (bn_height s);
             ws = (case dget (bn_waiters s) i of None \<Rightarrow> [] | Some w \<Rightarrow> w);
             s1 = s\<lparr>bn_futures := bn_futures s @ [None], bn_waiters := dput i (ws @ [fut]) (bn_waiters s)\<rparr>
         in (Inr fut, submit_candidate \<lparr>cd_from = bn_id s, cd_payload = payload\<rparr> s1)))"

definition build_block :: "string \<Rightarrow> int \<Rightarrow> string \<Rightarrow> string \<Rightarrow> jdict \<Rightarrow> lblock" where
  "build_block ts idx token prev payload =
     (let header = header_of (JInt idx) (JStr ts) (JStr token) (JStr prev) (JObj payload);
          h = compute_block_hash header
      in \<lparr>lb_index = idx, lb_ts = ts, lb_token = token, lb_prev = prev, lb_payload = JObj payload,
          lb_hash = h, lb_sig = compute_block_signature (dput ''hash'' (JStr h) header)\<rparr>)"

text \<open>The end of a coroutine: a proposal task leaves the table of tasks.\<close>

definition end_job :: "origin \<Rightarrow> bft \<Rightarrow> bft" where
  "end_job og s = (case og of Reader c \<Rightarrow> s | Task i \<Rightarrow> s\<lparr>bn_tasks := bn_tasks s - {i}\<rparr>)"

definition add_job :: "job \<Rightarrow> bft \<Rightarrow> bft" where
  "add_job j s = s\<lparr>bn_jobs := bn_jobs s @ [j]\<rparr>"

text \<open>\<open>_propose_after_grace\<close> after its sleep.\<close>

definition propose_after_grace :: "int \<Rightarrow> bft \<Rightarrow> bft" where
  "propose_after_grace i s =
     (let h = bn_height s; cs = pending_at i s in
      if h_index h \<noteq> i \<or> h_proposal h \<noteq> None then end_job (Task i) s
      else if cs = [] then end_job (Task i) s
      else
        (let chosen = hd (sort_key cand_key cs);
             b = build_block (bn_clock s (bn_ticks s)) i (bn_token s) (h_prev h) (cd_payload chosen);
             s1 = s\<lparr>bn_ticks := bn_ticks s + 1,
                    bn_height := h\<lparr>h_proposal := Some b, h_prepares := insert (bn_id s) (h_prepares h)\<rparr>\<rparr>;
             s2 = broadcast (proposal_msg (bn_id s) b) s1;
             s3 = broadcast (vote_msg ''PREPARE'' (bn_id s) i (lb_hash b)) s2
         in add_job (Maybe_Commit (Task i) i b) s3))"

section \<open>Committing\<close>

definition maybe_commit :: "origin \<Rightarrow> int \<Rightarrow> lblock \<Rightarrow> bft \<Rightarrow> bft" where
  "maybe_commit og i b s =
     (let h = bn_height s in
      if i \<noteq> h_index h \<or> h_committed h then end_job og s
      else if card (h_prepares h) \<ge> quorum s
      then add_job (Commit_Block og b) (broadcast (vote_msg ''COMMIT'' (bn_id s) i (lb_hash b)) s)
      else end_job og s)"

text \<open>The first locked section of \<open>_commit_block\<close>.\<close>

definition commit_block :: "origin \<Rightarrow> lblock \<Rightarrow> bft \<Rightarrow> (bft_exc, unit) res \<times> bft" where
  "commit_block og b s =
     (let h = bn_height s in
      if h_committed h then (Inr (), end_job og s)
      else if lb_index b \<noteq> h_index h then (Inr (), end_job og s)
      else if lb_prev b \<noteq> h_prev h
      then (Inl (Byzantine ''Commit continuity mismatch'' None
              (JObj [(''block'', JObj (lb_json b)), (''expected_prev_hash'', JStr (h_prev h))])), s)
      else
        (let ws = (case dget (bn_waiters s) (h_index h) of None \<Rightarrow> [] | Some w \<Rightarrow> w)
         in (Inr (), add_job (Finish_Commit og b (pending_at (h_index h) s) ws)
               (s\<lparr>bn_height := h\<lparr>h_committed := True\<rparr>, bn_waiters := dpop (h_index h) (bn_waiters s)\<rparr>))))"

definition orphan_candidate :: "lblock \<Rightarrow> bft \<Rightarrow> cand \<Rightarrow> bft" where
  "orphan_candidate b s c =
     (if json_eq (JObj (cd_payload c)) (lb_payload b) then s
      else record_orphaned ''ORPHANED_PROPOSAL_NOT_SELECTED'' (Some (cd_from c))
             [(''index'', JInt (lb_index b)), (''candidate_payload'', JObj (cd_payload c)),
              (''chosen_payload'', lb_payload b)] s)"

definition set_future :: "lblock \<Rightarrow> lblock option list \<Rightarrow> nat \<Rightarrow> lblock option list" where
  "set_future b fs i = (if i < length fs \<and> fs ! i = None then fs[i := Some b] else fs)"

text \<open>The rest of \<open>_commit_block\<close>: append, log, resolve the waiters, advance the height.\<close>

definition finish_commit :: "origin \<Rightarrow> lblock \<Rightarrow> cand list \<Rightarrow> nat list \<Rightarrow> bft \<Rightarrow> bft" where
  "finish_commit og b cs ws s =
     (let s1 = s\<lparr>bn_ledger := journal_append (bn_ledger s) (lb_json b)\<rparr>;
          s2 = foldl (orphan_candidate b) s1 cs;
          s3 = s2\<lparr>bn_futures := foldl (set_future b) (bn_futures s2) ws\<rparr>;
          i = h_index (bn_height s3);
          s4 = s3\<lparr>bn_pending := dpop i (bn_pending s3), bn_height := new_height (i + 1) (lb_hash b)\<rparr>;
          s5 = (if leader_for_index (i + 1) s4 = bn_id s4 \<and> dhas (bn_pending s4) (i + 1) \<and> i + 1 \<notin> bn_tasks s4
                then schedule (i + 1) s4 else s4)
      in end_job og s5)"

section \<open>Messages\<close>

definition set_conn :: "nat \<Rightarrow> (conn \<Rightarrow> conn) \<Rightarrow> bft \<Rightarrow> bft" where
  "set_conn c f s =
     (case dget (bn_conns s) c of None \<Rightarrow> s | Some cn \<Rightarrow> s\<lparr>bn_conns := dput c (f cn) (bn_conns s)\<rparr>)"

definition close_conn :: "nat \<Rightarrow> bft \<Rightarrow> bft" where
  "close_conn c s = set_conn c (\<lambda>cn. cn\<lparr>c_open := False\<rparr>) s"

definition peer_of :: "nat \<Rightarrow> bft \<Rightarrow> string option" where
  "peer_of c s = (case dget (bn_conns s) c of None \<Rightarrow> None | Some cn \<Rightarrow> c_peer cn)"

definition is_outbound :: "nat \<Rightarrow> bft \<Rightarrow> bool" where
  "is_outbound c s = (case dget (bn_conns s) c of None \<Rightarrow> False | Some cn \<Rightarrow> c_outbound cn)"

definition handle_hello :: "jdict \<Rightarrow> nat \<Rightarrow> bft \<Rightarrow> (bft_exc, unit) res \<times> bft" where
  "handle_hello msg c s =
     (case as_str (jget msg ''from'') of
        None \<Rightarrow> (Inr (), s)
      | Some pid \<Rightarrow>
          if \<not> eq_str (jget msg ''cluster_id'') (bn_cluster s)
          then (Inl (Byzantine ''HELLO cluster_id mismatch'' (Some pid)
                  (JObj [(''cluster_id'', jget msg ''cluster_id'')])), s)
          else if pid = bn_id s then (Inr (), s)
          else if peer_is_blocked pid s then (Inl Drop, s)
          else
            (let s1 = set_conn c (\<lambda>cn. cn\<lparr>c_peer := Some pid\<rparr>) s;
                 preferred = (bn_id s < pid)
             in case dget (bn_peers s1) pid of
                  None \<Rightarrow>
                    if is_outbound c s1 \<noteq> preferred then (Inl Drop, s1)
                    else (Inr (), s1\<lparr>bn_peers := dput pid c (bn_peers s1)\<rparr>)
                | Some c' \<Rightarrow>
                    if is_outbound c' s1 = preferred then (Inl Drop, s1)
                    else if is_outbound c s1 \<noteq> preferred then (Inl Drop, close_conn c' s1)
                    else (Inr (), (close_conn c' s1)\<lparr>bn_peers := dput pid c (bn_peers s1)\<rparr>)))"

definition handle_propose_request :: "jdict \<Rightarrow> nat \<Rightarrow> bft \<Rightarrow> (bft_exc, unit) res \<times> bft" where
  "handle_propose_request msg c s =
     (case jget msg ''payload'' of
        JObj payload \<Rightarrow>
          if \<not> is_int (jget msg ''index'') then (Inr (), s)
          else
            (let i = int_of (jget msg ''index''); h = bn_height s in
             if leader_for_index i s \<noteq> bn_id s then (Inr (), s)
             else if i \<noteq> h_index h
             then (Inr (), record_orphaned ''ORPHANED_PROPOSE_REQUEST'' (peer_of c s)
                     [(''index'', jget msg ''index''), (''expected_index'', JInt (h_index h)),
                      (''payload'', JObj payload)] s)
             else
               (let from = (case peer_of c s of None \<Rightarrow> ''peer'' | Some p \<Rightarrow> if p = [] then ''peer'' else p);
                    s1 = add_pending i \<lparr>cd_from = from, cd_payload = payload\<rparr> s
                in (Inr (), if i \<notin> bn_tasks s1 \<and> h_proposal h = None then schedule i s1 else s1)))
      | _ \<Rightarrow> (Inr (), s))"

definition rollup_error_text :: "bft \<Rightarrow> rollup_error \<Rightarrow> string" where
  "rollup_error_text s e = (case e of ValueError m \<Rightarrow> m | ConversionError \<Rightarrow> bn_error_text s)"

definition block_details :: "lblock \<Rightarrow> jval" where
  "block_details b = JObj [(''block'', JObj (lb_json b))]"

definition verify_pre_prepare :: "lblock \<Rightarrow> string option \<Rightarrow> bft \<Rightarrow> (bft_exc, unit) res \<times> bft" where
  "verify_pre_prepare b pid s =
     (if \<not> block_is_self_consistent b
      then (Inl (Byzantine ''Block hash/signature invalid'' pid (block_details b)), s)
      else if lb_token b \<noteq> bn_token s
      then (Inl (Byzantine ''Execution token mismatch'' pid
              (JObj [(''token'', JStr (lb_token b)), (''expected'', JStr (bn_token s)),
                     (''block'', JObj (lb_json b))])), s)
      else if \<not> looks_like_hash (lb_prev b) 64
      then (Inl (Byzantine ''prev_hash malformed'' pid (block_details b)), s)
      else if lb_index b < 0 then (Inl (Byzantine ''Index malformed'' pid (block_details b)), s)
      else
        (case lb_payload b of
           JObj p \<Rightarrow>
             if eq_str (jget p ''kind'') ''ROLLUP_BLOCK'' then
               (case verify_rollup_payload p (bn_journal s) (lb_prev b) of
                  Inr _ \<Rightarrow> (Inr (), s)
                | Inl e \<Rightarrow>
                    (Inl (Byzantine ''Rollup verification failed'' pid
                       (JObj [(''error'', JStr (rollup_error_text s e)), (''payload'', JObj p)])),
                     record_guarded ''FRAUD_PROOF_QUARANTINE'' pid
                       [(''index'', JInt (lb_index b)), (''journal_path'', JStr (bn_journal_path s)),
                        (''error'', JStr (rollup_error_text s e)), (''payload'', JObj p)] s))
             else (Inr (), s)
         | _ \<Rightarrow> (Inr (), s)))"

definition head_details :: "lblock \<Rightarrow> height \<Rightarrow> jval" where
  "head_details b h =
     JObj [(''index'', JInt (lb_index b)), (''expected_index'', JInt (h_index h)),
           (''prev_hash'', JStr (lb_prev b)), (''expected_prev_hash'', JStr (h_prev h)),
           (''block'', JObj (lb_json b))]"

text \<open>The locked section of \<open>_handle_propose_block\<close> and the vote that follows it.\<close>

definition accept_proposal :: "lblock \<Rightarrow> nat \<Rightarrow> bft \<Rightarrow> (bft_exc, unit) res \<times> bft" where
  "accept_proposal b c s =
     (let h = bn_height s; pid = peer_of c s in
      if lb_index b \<noteq> h_index h
      then (Inl (Byzantine ''Unexpected proposal index'' pid
              (JObj [(''index'', JInt (lb_index b)), (''expected_index'', JInt (h_index h)),
                     (''block'', JObj (lb_json b))])), s)
      else if lb_prev b \<noteq> h_prev h
      then (Inl (Byzantine ''Unexpected proposal prev_hash'' pid
              (JObj [(''index'', JInt (lb_index b)), (''prev_hash'', JStr (lb_prev b)),
                     (''expected_prev_hash'', JStr (h_prev h)), (''block'', JObj (lb_json b))])), s)
      else
        (case h_proposal h of
           Some b0 \<Rightarrow>
             if lb_hash b0 \<noteq> lb_hash b
             then (Inl (Byzantine ''Conflicting proposal at same height'' pid
                     (JObj [(''existing'', JObj (lb_json b0)), (''incoming'', JObj (lb_json b))])), s)
             else
               (Inr (), add_job (Maybe_Commit (Reader c) (lb_index b) b)
                  (broadcast (vote_msg ''PREPARE'' (bn_id s) (lb_index b) (lb_hash b))
                    (s\<lparr>bn_height := h\<lparr>h_prepares := insert (bn_id s) (h_prepares h)\<rparr>\<rparr>)))
         | None \<Rightarrow>
             (Inr (), add_job (Maybe_Commit (Reader c) (lb_index b) b)
                (broadcast (vote_msg ''PREPARE'' (bn_id s) (lb_index b) (lb_hash b))
                  (s\<lparr>bn_height := h\<lparr>h_proposal := Some b, h_prepares := insert (bn_id s) (h_prepares h)\<rparr>\<rparr>)))))"

definition handle_propose_block :: "jdict \<Rightarrow> nat \<Rightarrow> bft \<Rightarrow> (bft_exc, unit) res \<times> bft" where
  "handle_propose_block msg c s =
     (case coerce_block (jget msg ''block'') of
        None \<Rightarrow> (Inl (Byzantine ''Invalid block schema'' (peer_of c s) (JObj [(''block'', jget msg ''block'')])), s)
      | Some b \<Rightarrow>
          (let h = bn_height s; leader = leader_for_index (lb_index b) s in
           if peer_of c s \<noteq> Some leader then
             (if lb_index b \<noteq> h_index h \<or> lb_prev b \<noteq> h_prev h
              then (Inl (Byzantine ''Non-leader proposal violates local head'' (peer_of c s) (head_details b h)), s)
              else (Inr (), record_orphaned ''ORPHANED_NON_LEADER_PROPOSAL'' (peer_of c s)
                      [(''expected_leader'', JStr leader), (''block'', JObj (lb_json b))] s))
           else
             (case verify_pre_prepare b (peer_of c s) s of
                (Inl e, s1) \<Rightarrow> (Inl e, s1)
              | (Inr _, s1) \<Rightarrow> accept_proposal b c s1)))"

text \<open>The vote of a message: an index and a well-formed hash.\<close>

definition vote_of :: "jdict \<Rightarrow> (int \<times> string) option" where
  "vote_of msg =
     (case jget msg ''block_hash'' of
        JStr bh \<Rightarrow> if is_int (jget msg ''index'') \<and> looks_like_hash bh 64
                   then Some (int_of (jget msg ''index''), bh) else None
      | _ \<Rightarrow> None)"

definition add_peer :: "nat \<Rightarrow> bft \<Rightarrow> string set \<Rightarrow> string set" where
  "add_peer c s A = (case peer_of c s of None \<Rightarrow> A | Some p \<Rightarrow> if p = [] then A else insert p A)"

definition handle_prepare :: "jdict \<Rightarrow> nat \<Rightarrow> bft \<Rightarrow> (bft_exc, unit) res \<times> bft" where
  "handle_prepare msg c s =
     (case vote_of msg of
        None \<Rightarrow> (Inr (), s)
      | Some (i, bh) \<Rightarrow>
          (let h = bn_height s in
           if i \<noteq> h_index h then (Inr (), s)
           else
             (case h_proposal h of
                None \<Rightarrow> (Inr (), s)
              | Some b \<Rightarrow>
                  if lb_hash b \<noteq> bh
                  then (Inl (Byzantine ''Prepare hash mismatch'' (peer_of c s)
                          (JObj [(''index'', jget msg ''index''), (''block_hash'', JStr bh),
                                 (''expected'', JStr (lb_hash b))])), s)
                  else (Inr (), add_job (Maybe_Commit (Reader c) i b)
                          (s\<lparr>bn_height := h\<lparr>h_prepares := add_peer c s (h_prepares h)\<rparr>\<rparr>)))))"

definition handle_commit :: "jdict \<Rightarrow> nat \<Rightarrow> bft \<Rightarrow> (bft_exc, unit) res \<times> bft" where
  "handle_commit msg c s =
     (case vote_of msg of
        None \<Rightarrow> (Inr (), s)
      | Some (i, bh) \<Rightarrow>
          (let h = bn_height s in
           if i \<noteq> h_index h then (Inr (), s)
           else
             (case h_proposal h of
                None \<Rightarrow> (Inr (), s)
              | Some b \<Rightarrow>
                  if lb_hash b \<noteq> bh then (Inr (), s)
                  else
                    (let cs = insert (bn_id s) (add_peer c s (h_commits h));
                         s1 = s\<lparr>bn_height := h\<lparr>h_commits := cs\<rparr>\<rparr>
                     in (Inr (), if card cs \<ge> quorum s1 then add_job (Commit_Block (Reader c) b) s1 else s1)))))"

definition on_message :: "jdict \<Rightarrow> nat \<Rightarrow> bft \<Rightarrow> (bft_exc, unit) res \<times> bft" where
  "on_message msg c s =
     (case jget msg ''type'' of
        JStr t \<Rightarrow>
          if t = ''HELLO'' then handle_hello msg c s
          else if peer_of c s = None then (Inr (), s)
          else if t = ''PROPOSE_REQUEST'' then handle_propose_request msg c s
          else if t = ''PROPOSE_BLOCK'' then handle_propose_block msg c s
          else if t = ''PREPARE'' then handle_prepare msg c s
          else if t = ''COMMIT'' then handle_commit msg c s
          else (Inr (), s)
      | _ \<Rightarrow> (Inr (), s))"

section \<open>Connections that fail\<close>

definition quarantine_connection :: "nat \<Rightarrow> string \<Rightarrow> string option \<Rightarrow> jval \<Rightarrow> bft \<Rightarrow> bft" where
  "quarantine_connection c err exc_peer details s =
     (let own = (case peer_of c s of Some p \<Rightarrow> if p = [] then None else Some p | None \<Rightarrow> None);
          pid = (case own of Some p \<Rightarrow> Some p | None \<Rightarrow> exc_peer);
          s1 = (case pid of None \<Rightarrow> s | Some p \<Rightarrow> if p = [] then s else quarantine_peer p s);
          s2 = set_conn c (\<lambda>cn. cn\<lparr>c_quarantined := True\<rparr>) s1;
          addr = (case dget (bn_conns s) c of None \<Rightarrow> [] | Some cn \<Rightarrow> c_addr cn)
      in close_conn c (record_orphaned ''QUARANTINED'' pid
           [(''addr'', JStr addr), (''error'', JStr err), (''details'', details)] s2))"

text \<open>The \<open>finally\<close> of \<open>_peer_read_loop\<close>.\<close>

definition reader_end :: "nat \<Rightarrow> bft \<Rightarrow> bft" where
  "reader_end c s =
     (let s1 = close_conn c s in
      case peer_of c s1 of
        None \<Rightarrow> s1
      | Some p \<Rightarrow> if p \<noteq> [] \<and> dget (bn_peers s1) p = Some c then s1\<lparr>bn_peers := dpop p (bn_peers s1)\<rparr> else s1)"

definition reader_failed :: "nat \<Rightarrow> bft_exc \<Rightarrow> bft \<Rightarrow> bft" where
  "reader_failed c e s =
     (case e of
        Byzantine err pid details \<Rightarrow> reader_end c (quarantine_connection c err pid details s)
      | _ \<Rightarrow> reader_end c s)"

definition settle :: "origin \<Rightarrow> (bft_exc, unit) res \<times> bft \<Rightarrow> bft" where
  "settle og r =
     (case r of
        (Inr _, s) \<Rightarrow> s
      | (Inl e, s) \<Rightarrow> (case og of Reader c \<Rightarrow> reader_failed c e s | Task i \<Rightarrow> end_job og s))"

section \<open>Steps\<close>

fun job_origin :: "job \<Rightarrow> origin" where
  "job_origin (Propose i) = Task i"
| "job_origin (Maybe_Commit og i b) = og"
| "job_origin (Commit_Block og b) = og"
| "job_origin (Finish_Commit og b cs ws) = og"

text \<open>One message of a connection: the reader takes the next one when the last is done.\<close>

definition deliver :: "nat \<Rightarrow> jdict \<Rightarrow> bft \<Rightarrow> bft" where
  "deliver c msg s =
     (case dget (bn_conns s) c of
        None \<Rightarrow> s
      | Some cn \<Rightarrow>
          if \<not> c_open cn \<or> bn_closed s \<or> Reader c \<in> set (map job_origin (bn_jobs s)) then s
          else settle (Reader c) (on_message msg c s))"

definition run_job :: "job \<Rightarrow> bft \<Rightarrow> bft" where
  "run_job j s =
     (case j of
        Propose i \<Rightarrow> propose_after_grace i s
      | Maybe_Commit og i b \<Rightarrow> maybe_commit og i b s
      | Commit_Block og b \<Rightarrow> settle og (commit_block og b s)
      | Finish_Commit og b cs ws \<Rightarrow> finish_commit og b cs ws s)"

definition take_job :: "nat \<Rightarrow> bft \<Rightarrow> bft" where
  "take_job k s =
     (if k < length (bn_jobs s)
      then run_job (bn_jobs s ! k) (s\<lparr>bn_jobs := take k (bn_jobs s) @ drop (Suc k) (bn_jobs s)\<rparr>)
      else s)"

definition reconnect_targets :: "bft \<Rightarrow> tnode list" where
  "reconnect_targets s =
     filter (\<lambda>n. tn_id n \<noteq> bn_id s \<and> \<not> peer_is_blocked (tn_id n) s \<and> \<not> dhas (bn_peers s) (tn_id n)) (bn_nodes s)"

definition gossip_progress :: "bft \<Rightarrow> bft" where
  "gossip_progress s =
     (let h = bn_height s; i = h_index h; leader = leader_for_index i s in
      if h_committed h then s
      else
        (case h_proposal h of
           Some b \<Rightarrow>
             if looks_like_hash (lb_hash b) 64 then
               (let s1 = broadcast (vote_msg ''PREPARE'' (bn_id s) i (lb_hash b)) s
                in if leader = bn_id s then broadcast (proposal_msg (bn_id s) b) s1 else s1)
             else s
         | None \<Rightarrow>
             if leader = bn_id s \<and> pending_at i s \<noteq> [] \<and> i \<notin> bn_tasks s then schedule i s else s))"

text \<open>
  \<open>stop\<close> cancels the readers; an append that a cancelled reader had handed to its thread is
  still done.
\<close>

definition cancelled :: "job \<Rightarrow> bool" where
  "cancelled j \<longleftrightarrow> (case job_origin j of Reader c \<Rightarrow> True | Task i \<Rightarrow> False)"

fun thread_append :: "string option \<Rightarrow> job \<Rightarrow> string option" where
  "thread_append f (Finish_Commit og b cs ws) = journal_append f (lb_json b)"
| "thread_append f j = f"

definition stop :: "bft \<Rightarrow> bft" where
  "stop s =
     (if bn_closed s then s
      else s\<lparr>bn_closed := True, bn_started := False, bn_peers := [],
             bn_conns := map (\<lambda>(c, cn). (c, cn\<lparr>c_open := False\<rparr>)) (bn_conns s),
             bn_ledger := foldl thread_append (bn_ledger s) (filter cancelled (bn_jobs s)),
             bn_jobs := filter (\<lambda>j. \<not> cancelled j) (bn_jobs s)\<rparr>)"

datatype event =
    Deliver nat jdict
  | Run nat
  | Submit jdict
  | Inbound string
  | Dial string string
  | Disconnect nat
  | Gossip
  | Partition "string list"
  | Flush_Quarantine bool
  | Quarantine string
  | Start jval
  | Stop
  | Journal "string option"

fun bft_step :: "bft \<Rightarrow> event \<Rightarrow> bft" where
  "bft_step s (Deliver c msg) = deliver c msg s"
| "bft_step s (Run k) = take_job k s"
| "bft_step s (Submit p) = snd (submit_payload p s)"
| "bft_step s (Inbound addr) = handle_inbound addr s"
| "bft_step s (Dial pid addr) = dial_peer pid addr s"
| "bft_step s (Disconnect c) =
     (if Reader c \<in> set (map job_origin (bn_jobs s)) then s else reader_end c s)"
| "bft_step s Gossip = gossip_progress s"
| "bft_step s (Partition ps) = set_partition ps s"
| "bft_step s (Flush_Quarantine b) = snd (flush_quarantine b s)"
| "bft_step s (Quarantine p) = quarantine_peer p s"
| "bft_step s (Start topo) = snd (start topo s)"
| "bft_step s Stop = stop s"
| "bft_step s (Journal f) = s\<lparr>bn_journal := f\<rparr>"

definition bft_run :: "bft \<Rightarrow> event list \<Rightarrow> bft" where
  "bft_run s es = foldl bft_step s es"

section \<open>What the operations leave alone\<close>

text \<open>The part of the state the safety argument is about.\<close>

definition core :: "bft \<Rightarrow> string option \<times> height \<times> job list \<times> (int, cand list) dict \<times> string \<times> (nat \<Rightarrow> string) \<times> string" where
  "core s = (bn_ledger s, bn_height s, bn_jobs s, bn_pending s, bn_token s, bn_clock s, bn_id s)"

lemma core_eqD:
  assumes "core s = core t"
  shows "bn_ledger s = bn_ledger t" "bn_height s = bn_height t" "bn_jobs s = bn_jobs t"
    "bn_pending s = bn_pending t" "bn_token s = bn_token t" "bn_clock s = bn_clock t" "bn_id s = bn_id t"
  using assms by (simp_all add: core_def)

lemma core_record [simp]: "core (record_orphaned k p d s) = core s" "core (record_guarded k p d s) = core s"
  by (simp_all add: core_def record_orphaned_def record_guarded_def)

lemma core_send [simp]: "core (send_raw c m s) = core s"
  by (simp add: core_def send_raw_def split: option.splits)

lemma core_broadcast [simp]: "core (broadcast m s) = core s"
proof -
  have "core (foldl (\<lambda>t c. send_raw c m t) s cs) = core s" for cs
    by (induction cs arbitrary: s) auto
  then show ?thesis by (simp add: broadcast_def)
qed

lemma core_send_to [simp]: "core (send_to_peer p m s) = core s"
  by (simp add: send_to_peer_def split: option.splits)

lemma core_conn [simp]:
  "core (set_conn c f s) = core s" "core (close_conn c s) = core s" "core (quarantine_peer p s) = core s"
  "core (end_job og s) = core s" "core (s\<lparr>bn_peers := ps\<rparr>) = core s"
  by (simp_all add: core_def set_conn_def close_conn_def quarantine_peer_def end_job_def split: option.splits origin.splits)

lemma core_open [simp]: "core (open_conn a ob s) = core s"
  by (simp add: open_conn_def Let_def) (simp add: core_def)

lemma core_reader_end [simp]: "core (reader_end c s) = core s"
  by (simp add: reader_end_def Let_def split: option.splits)

lemma core_reader_failed [simp]: "core (reader_failed c e s) = core s"
  by (simp add: reader_failed_def quarantine_connection_def Let_def split: bft_exc.splits option.splits)

lemma core_settle [simp]: "core (settle og r) = core (snd r)"
  by (simp add: settle_def split: prod.splits sum.splits origin.splits)

lemma core_orphans: "core (foldl (orphan_candidate b) s cs) = core s"
  by (induction cs arbitrary: s) (simp_all add: orphan_candidate_def)

section \<open>The node's invariant\<close>

definition blk_ok :: "lblock \<Rightarrow> bool" where
  "blk_ok b \<longleftrightarrow> block_is_self_consistent b \<and> line_record (lb_json b)"

fun job_block :: "job \<Rightarrow> lblock option" where
  "job_block (Propose i) = None"
| "job_block (Maybe_Commit og i b) = Some b"
| "job_block (Commit_Block og b) = Some b"
| "job_block (Finish_Commit og b cs ws) = Some b"

fun finish_block :: "job \<Rightarrow> lblock option" where
  "finish_block (Finish_Commit og b cs ws) = Some b"
| "finish_block j = None"

definition finishing :: "job list \<Rightarrow> lblock list" where
  "finishing js = List.map_filter finish_block js"

lemma finishing_simps [simp]:
  "finishing [] = []"
  "finishing (js @ ks) = finishing js @ finishing ks"
  "finishing (j # js) = (case finish_block j of None \<Rightarrow> finishing js | Some b \<Rightarrow> b # finishing js)"
  by (simp_all add: finishing_def List.map_filter_def split: option.splits)

definition at_head :: "string option \<Rightarrow> height \<Rightarrow> bool" where
  "at_head f h \<longleftrightarrow> h_index h = int (length (iter_ledger_blocks f)) \<and>
     h_prev h = end_hash block_hash genesis_prev (iter_ledger_blocks f)"

definition ledger_ok :: "string option \<Rightarrow> bool" where
  "ledger_ok f \<longleftrightarrow> at_line_end (journal_text f) \<and>
     chained ledger_link block_hash genesis_prev 0 (iter_ledger_blocks f)"

definition clean_pending :: "(int, cand list) dict \<Rightarrow> bool" where
  "clean_pending pd \<longleftrightarrow> (\<forall>i cs c. dget pd i = Some cs \<longrightarrow> c \<in> set cs \<longrightarrow> line_record (cd_payload c))"

definition node_inv :: "bft \<Rightarrow> bool" where
  "node_inv s \<longleftrightarrow>
     (let h = bn_height s; fs = finishing (bn_jobs s) in
      ledger_ok (bn_ledger s) \<and> length fs \<le> 1 \<and>
      (h_committed h \<or> fs = []) \<and> (\<not> h_committed h \<or> fs \<noteq> [] \<longrightarrow> at_head (bn_ledger s) h) \<and>
      (\<forall>b \<in> set fs. lb_index b = h_index h \<and> lb_prev b = h_prev h) \<and>
      (\<forall>j \<in> set (bn_jobs s). \<forall>b. job_block j = Some b \<longrightarrow> blk_ok b) \<and>
      (\<forall>b. h_proposal h = Some b \<longrightarrow> blk_ok b) \<and>
      clean_pending (bn_pending s) \<and> text_ok (bn_token s) \<and> (\<forall>n. text_ok (bn_clock s n)) \<and> text_ok (h_prev h))"

lemma node_inv_core: "core s = core t \<Longrightarrow> node_inv s = node_inv t"
  by (simp add: node_inv_def core_def)

lemma node_invD:
  assumes "node_inv s"
  shows "ledger_ok (bn_ledger s)" "length (finishing (bn_jobs s)) \<le> 1"
    "h_committed (bn_height s) \<or> finishing (bn_jobs s) = []"
    "\<not> h_committed (bn_height s) \<or> finishing (bn_jobs s) \<noteq> [] \<Longrightarrow> at_head (bn_ledger s) (bn_height s)"
    "b \<in> set (finishing (bn_jobs s)) \<Longrightarrow> lb_index b = h_index (bn_height s) \<and> lb_prev b = h_prev (bn_height s)"
    "j \<in> set (bn_jobs s) \<Longrightarrow> job_block j = Some b \<Longrightarrow> blk_ok b"
    "h_proposal (bn_height s) = Some b \<Longrightarrow> blk_ok b"
    "clean_pending (bn_pending s)" "text_ok (bn_token s)" "text_ok (bn_clock s n)" "text_ok (h_prev (bn_height s))"
  using assms by (auto simp: node_inv_def Let_def)

text \<open>Adding or taking a job that is not the end of a commit.\<close>

lemma node_inv_jobs:
  assumes "node_inv s" and "finishing js = finishing (bn_jobs s)"
    and "\<And>j b. j \<in> set js \<Longrightarrow> job_block j = Some b \<Longrightarrow> blk_ok b"
  shows "node_inv (s\<lparr>bn_jobs := js\<rparr>)"
  using assms by (simp add: node_inv_def Let_def)

lemma node_inv_add_job:
  assumes "node_inv s" and "finish_block j = None" and "\<And>b. job_block j = Some b \<Longrightarrow> blk_ok b"
  shows "node_inv (add_job j s)"
  unfolding add_job_def
  by (rule node_inv_jobs [OF assms(1)]) (use assms node_invD(6) in auto)

lemma node_inv_schedule: "node_inv s \<Longrightarrow> node_inv (schedule i s)"
proof -
  assume "node_inv s"
  then have "node_inv (add_job (Propose i) s)" by (rule node_inv_add_job) simp_all
  moreover have "core (schedule i s) = core (add_job (Propose i) s)"
    by (simp add: core_def schedule_def add_job_def)
  ultimately show ?thesis by (metis node_inv_core)
qed

lemma node_inv_add_pending:
  assumes "node_inv s" and "line_record (cd_payload c)"
  shows "node_inv (add_pending i c s)"
proof -
  have "clean_pending (bn_pending (add_pending i c s))"
    using node_invD(8) [OF assms(1)] assms(2) unfolding clean_pending_def add_pending_def pending_at_def
    by (cases "dget (bn_pending s) i") (auto simp: dget_dput split: if_splits)
  then show ?thesis
    using assms(1) by (simp add: node_inv_def add_pending_def Let_def)
qed

lemma node_inv_votes:
  assumes "node_inv s"
  shows "node_inv (s\<lparr>bn_height := (bn_height s)\<lparr>h_prepares := A\<rparr>\<rparr>)"
    and "node_inv (s\<lparr>bn_height := (bn_height s)\<lparr>h_commits := B\<rparr>\<rparr>)"
  using assms by (simp_all add: node_inv_def Let_def at_head_def)

lemma node_inv_propose:
  assumes "node_inv s" and "blk_ok b"
  shows "node_inv (s\<lparr>bn_height := (bn_height s)\<lparr>h_proposal := Some b, h_prepares := A\<rparr>\<rparr>)"
  using assms by (simp add: node_inv_def Let_def at_head_def)

section \<open>Blocks\<close>

lemma text_ok_looks: "looks_like_hash s n \<Longrightarrow> text_ok s"
  by (rule text_ok_hash)

lemma line_record_lb:
  "line_record (lb_json b) \<longleftrightarrow>
     text_ok (lb_ts b) \<and> text_ok (lb_token b) \<and> text_ok (lb_prev b) \<and> text_ok (lb_hash b) \<and> text_ok (lb_sig b) \<and>
     wf_json (lb_payload b) \<and> json_text_ok (lb_payload b)"
  by (auto simp: line_record_def lb_json_def)

lemma line_record_jget:
  assumes "line_record d"
  shows "wf_json (jget d k)" "json_text_ok (jget d k)"
proof -
  have "dget d k = Some v \<Longrightarrow> wf_json v \<and> json_text_ok v" for v
    using assms by (auto simp: line_record_def list_all_iff dest!: dget_in_set)
  then show "wf_json (jget d k)" "json_text_ok (jget d k)"
    by (auto simp: jget_def split: option.splits)
qed

lemma line_record_obj: "line_record d \<Longrightarrow> jget d k = JObj p \<Longrightarrow> line_record p"
  using line_record_jget [of d k] by (simp add: line_record_def)

lemma line_record_str: "line_record d \<Longrightarrow> jget d k = JStr t \<Longrightarrow> text_ok t"
  using line_record_jget(2) [of d k] by simp

lemma coerce_block_clean:
  assumes "coerce_block v = Some b" and "wf_json v" and "json_text_ok v"
  shows "line_record (lb_json b)"
proof -
  obtain d where v: "v = JObj d" using assms(1) by (cases v) (auto simp: coerce_block_def)
  then have d: "line_record d" using assms by (simp add: line_record_def)
  note f = coerce_fields [OF assms(1) [unfolded v]]
  show ?thesis
    unfolding line_record_lb
    using f line_record_str [OF d] line_record_jget [OF d, of "''payload''"] by metis
qed

lemma build_block_ok:
  assumes "text_ok ts" and "text_ok token" and "text_ok prev" and "line_record payload"
  shows "blk_ok (build_block ts idx token prev payload)"
  using assms
  by (simp add: blk_ok_def line_record_lb build_block_def Let_def block_is_self_consistent_def)
    (simp add: line_record_def)

lemma iter_ledger_text: "iter_ledger_blocks f = jsonl_objs (journal_text f)"
  by (cases f) (simp_all add: iter_ledger_blocks_def journal_text_def jsonl.read_empty)

lemma ledger_append:
  assumes "ledger_ok f" and "at_head f h" and "blk_ok b" and "lb_index b = h_index h" and "lb_prev b = h_prev h"
  shows "ledger_ok (journal_append f (lb_json b))"
    and "at_head (journal_append f (lb_json b)) (new_height (h_index h + 1) (lb_hash b))"
proof -
  let ?b = "canon_dict (lb_json b)" and ?bs = "iter_ledger_blocks f"
  have jt: "journal_text (journal_append f (lb_json b)) = append_jsonl (journal_text f) (lb_json b)"
    by (simp add: journal_append_def journal_text_def)
  have iter: "iter_ledger_blocks (journal_append f (lb_json b)) = ?bs @ [?b]"
    using assms(1,3) by (simp add: iter_ledger_text jt jsonl_objs_append ledger_ok_def blk_ok_def)
  have link: "alink (h_prev h) (h_index h) b" using assms(3-5) by (simp add: alink_def blk_ok_def)
  then have "ledger_link (h_prev h) (h_index h) ?b"
    by (intro link_canon) (simp_all add: wf_dict_lb_json alink_ledger_link jget_lb_json)
  then show "ledger_ok (journal_append f (lb_json b))"
    using assms(1,2) by (simp add: ledger_ok_def iter chain.chained_snoc at_head_def) (simp add: jt)
  show "at_head (journal_append f (lb_json b)) (new_height (h_index h + 1) (lb_hash b))"
    using assms(2) alink_hash [OF link]
    by (simp add: at_head_def iter new_height_def block_hash_canon wf_dict_lb_json)
qed

section \<open>Every step keeps the invariant\<close>

lemma inv_propose:
  assumes "node_inv s"
  shows "node_inv (propose_after_grace i s)"
proof (cases "h_index (bn_height s) \<noteq> i \<or> h_proposal (bn_height s) \<noteq> None \<or> pending_at i s = []")
  case True
  then have "propose_after_grace i s = end_job (Task i) s" by (auto simp: propose_after_grace_def Let_def)
  then show ?thesis using assms node_inv_core [of "end_job (Task i) s" s] by simp
next
  case False
  let ?c = "hd (sort_key cand_key (pending_at i s))"
  let ?b = "build_block (bn_clock s (bn_ticks s)) i (bn_token s) (h_prev (bn_height s)) (cd_payload ?c)"
  have "?c \<in> set (pending_at i s)" using False by (metis hd_in_set set_sort sort_key_Nil_iff)
  then have "line_record (cd_payload ?c)"
    using node_invD(8) [OF assms] by (auto simp: clean_pending_def pending_at_def split: option.splits)
  then have b: "blk_ok ?b" using assms by (intro build_block_ok node_invD)
  let ?s1 = "s\<lparr>bn_height := (bn_height s)\<lparr>h_proposal := Some ?b, h_prepares := insert (bn_id s) (h_prepares (bn_height s))\<rparr>\<rparr>"
  have "core (propose_after_grace i s) = core (add_job (Maybe_Commit (Task i) i ?b) ?s1)"
    using False by (simp add: propose_after_grace_def Let_def add_job_def core_def)
      (simp add: core_eqD [OF core_broadcast])
  moreover have "node_inv (add_job (Maybe_Commit (Task i) i ?b) ?s1)"
    by (rule node_inv_add_job [OF node_inv_propose [OF assms b]]) (use b in auto)
  ultimately show ?thesis by (metis node_inv_core)
qed

lemma core_add_job: "core s = core t \<Longrightarrow> core (add_job j s) = core (add_job j t)"
  by (simp add: core_def add_job_def)

lemma inv_maybe_commit:
  assumes "node_inv s" and "blk_ok b"
  shows "node_inv (maybe_commit og i b s)"
proof -
  have "node_inv (add_job (Commit_Block og b) s)"
    by (rule node_inv_add_job [OF assms(1)]) (use assms(2) in auto)
  moreover have "core (maybe_commit og i b s) = core s \<or>
      core (maybe_commit og i b s) = core (add_job (Commit_Block og b) s)"
    unfolding maybe_commit_def Let_def by (simp add: core_add_job [OF core_broadcast])
  ultimately show ?thesis using assms(1) by (metis node_inv_core)
qed

text \<open>The effect of the first section: nothing, or the height is marked and the rest is due.\<close>

definition commit_ready :: "lblock \<Rightarrow> bft \<Rightarrow> bool" where
  "commit_ready b s \<longleftrightarrow> \<not> h_committed (bn_height s) \<and> lb_index b = h_index (bn_height s) \<and>
     lb_prev b = h_prev (bn_height s)"

definition mark_committed :: "origin \<Rightarrow> lblock \<Rightarrow> nat list \<Rightarrow> bft \<Rightarrow> bft" where
  "mark_committed og b ws s =
     s\<lparr>bn_jobs := bn_jobs s @ [Finish_Commit og b (pending_at (h_index (bn_height s)) s) ws],
       bn_height := (bn_height s)\<lparr>h_committed := True\<rparr>\<rparr>"

lemma commit_block_core:
  "\<not> commit_ready b s \<Longrightarrow> core (snd (commit_block og b s)) = core s"
  "commit_ready b s \<Longrightarrow> \<exists>ws. core (snd (commit_block og b s)) = core (mark_committed og b ws s)"
proof -
  show "core (snd (commit_block og b s)) = core s" if "\<not> commit_ready b s"
    using that by (auto simp: commit_block_def commit_ready_def Let_def)
  have "snd (commit_block og b s) =
      (let ws = (case dget (bn_waiters s) (h_index (bn_height s)) of None \<Rightarrow> [] | Some w \<Rightarrow> w)
       in (mark_committed og b ws s)\<lparr>bn_waiters := dpop (h_index (bn_height s)) (bn_waiters s)\<rparr>)"
    if "commit_ready b s"
    using that by (simp add: commit_block_def commit_ready_def Let_def mark_committed_def add_job_def)
  then show "\<exists>ws. core (snd (commit_block og b s)) = core (mark_committed og b ws s)" if "commit_ready b s"
    using that by (auto simp: Let_def core_def)
qed

lemma inv_commit_block:
  assumes "node_inv s" and "blk_ok b"
  shows "node_inv (snd (commit_block og b s))"
proof (cases "commit_ready b s")
  case False
  then show ?thesis using assms(1) commit_block_core(1) by (metis node_inv_core)
next
  case True
  then have "finishing (bn_jobs s) = []" "at_head (bn_ledger s) (bn_height s)"
    using node_invD(3,4) [OF assms(1)] by (auto simp: commit_ready_def)
  then have "node_inv (mark_committed og b ws s)" for ws
    using assms True node_invD(6) [OF assms(1)]
    by (simp add: node_inv_def Let_def at_head_def mark_committed_def commit_ready_def ball_Un)
  then show ?thesis using commit_block_core(2) [OF True] by (metis node_inv_core)
qed

lemma inv_finish:
  assumes "node_inv s" and "finishing (bn_jobs s) = []" and "h_committed (bn_height s)"
    and "at_head (bn_ledger s) (bn_height s)" and "blk_ok b"
    and "lb_index b = h_index (bn_height s)" and "lb_prev b = h_prev (bn_height s)"
  shows "node_inv (finish_commit og b cs ws s)"
proof -
  let ?s1 = "s\<lparr>bn_ledger := journal_append (bn_ledger s) (lb_json b)\<rparr>"
  let ?s2 = "foldl (orphan_candidate b) ?s1 cs"
  let ?i = "h_index (bn_height s)"
  let ?t = "s\<lparr>bn_ledger := journal_append (bn_ledger s) (lb_json b), bn_pending := dpop ?i (bn_pending s),
      bn_height := new_height (?i + 1) (lb_hash b)\<rparr>"
  note c2 = core_eqD [OF core_orphans [of b ?s1 cs]]
  have "text_ok (lb_hash b)" using assms(5) by (simp add: blk_ok_def line_record_lb)
  moreover have "clean_pending (dpop ?i (bn_pending s))"
    using node_invD(8) [OF assms(1)] by (auto simp: clean_pending_def dget_dpop)
  ultimately have t: "node_inv ?t"
    using assms node_invD(1,6,9,10) [OF assms(1)] ledger_append [OF node_invD(1) [OF assms(1)] assms(4-7)]
    by (simp add: node_inv_def Let_def) (simp add: new_height_def)
  have "core (finish_commit og b cs ws s) = core ?t \<or> core (finish_commit og b cs ws s) = core (schedule (?i + 1) ?t)"
    using c2 by (simp add: finish_commit_def Let_def core_def schedule_def new_height_def end_job_def split: origin.splits)
  with t show ?thesis by (metis node_inv_core node_inv_schedule)
qed

lemma core_hello: "core (snd (handle_hello msg c s)) = core s"
  unfolding handle_hello_def Let_def by (auto split: option.split)

lemma inv_propose_request:
  assumes "node_inv s" and "line_record msg"
  shows "node_inv (snd (handle_propose_request msg c s))"
proof (cases "jget msg ''payload''")
  case (JObj payload)
  have "line_record payload" by (rule line_record_obj [OF assms(2) JObj])
  then have "node_inv (add_pending i \<lparr>cd_from = f, cd_payload = payload\<rparr> s)" for i f
    using assms(1) by (simp add: node_inv_add_pending)
  then show ?thesis
    using JObj assms(1) by (simp add: handle_propose_request_def Let_def node_inv_schedule node_inv_core [OF core_record(1)])
qed (simp_all add: handle_propose_request_def assms)

lemma pre_prepare_core: "core (snd (verify_pre_prepare b pid s)) = core s"
  by (simp add: verify_pre_prepare_def split: jval.splits sum.splits)

lemma pre_prepare_ok: "fst (verify_pre_prepare b pid s) = Inr u \<Longrightarrow> block_is_self_consistent b"
  by (simp add: verify_pre_prepare_def split: if_splits)

lemma inv_accept:
  assumes "node_inv s" and "blk_ok b"
  shows "node_inv (snd (accept_proposal b c s))"
proof -
  let ?h = "bn_height s"
  let ?m = "Maybe_Commit (Reader c) (lb_index b) b"
  let ?p = "s\<lparr>bn_height := ?h\<lparr>h_prepares := insert (bn_id s) (h_prepares ?h)\<rparr>\<rparr>"
  let ?q = "s\<lparr>bn_height := ?h\<lparr>h_proposal := Some b, h_prepares := insert (bn_id s) (h_prepares ?h)\<rparr>\<rparr>"
  have "core (snd (accept_proposal b c s)) = core s \<or> core (snd (accept_proposal b c s)) = core (add_job ?m ?p) \<or>
      core (snd (accept_proposal b c s)) = core (add_job ?m ?q)"
    by (simp add: accept_proposal_def Let_def core_add_job [OF core_broadcast] split: option.splits)
  moreover have "node_inv (add_job ?m ?p)"
    by (rule node_inv_add_job [OF node_inv_votes(1) [OF assms(1)]]) (use assms(2) in auto)
  moreover have "node_inv (add_job ?m ?q)"
    by (rule node_inv_add_job [OF node_inv_propose [OF assms]]) (use assms(2) in auto)
  ultimately show ?thesis using assms(1) by (metis node_inv_core)
qed

lemma inv_propose_block:
  assumes "node_inv s" and "line_record msg"
  shows "node_inv (snd (handle_propose_block msg c s))"
proof (cases "coerce_block (jget msg ''block'')")
  case None
  with assms show ?thesis by (simp add: handle_propose_block_def)
next
  case (Some b)
  then have rec: "line_record (lb_json b)"
    using assms(2) line_record_jget by (intro coerce_block_clean)
  let ?v = "verify_pre_prepare b (peer_of c s) s"
  have v: "node_inv (snd ?v)" using assms(1) pre_prepare_core by (metis node_inv_core)
  show ?thesis
  proof (cases "peer_of c s = Some (leader_for_index (lb_index b) s)")
    case True
    with Some v rec show ?thesis
      using inv_accept [of "snd ?v" b c] pre_prepare_ok [of b "peer_of c s" s]
      by (auto simp: handle_propose_block_def Let_def blk_ok_def split: prod.splits sum.splits)
  next
    case False
    with Some assms(1) node_inv_core [OF core_record(1)] show ?thesis
      by (auto simp: handle_propose_block_def Let_def)
  qed
qed

lemma inv_prepare:
  assumes "node_inv s"
  shows "node_inv (snd (handle_prepare msg c s))"
proof -
  have "node_inv (add_job (Maybe_Commit (Reader c) i b) (s\<lparr>bn_height := (bn_height s)\<lparr>h_prepares := A\<rparr>\<rparr>))"
    if "h_proposal (bn_height s) = Some b" for i b A
    by (rule node_inv_add_job [OF node_inv_votes(1) [OF assms]]) (use node_invD(7) [OF assms that] in auto)
  then show ?thesis
    using assms by (auto simp: handle_prepare_def Let_def split: option.splits)
qed

lemma inv_commit:
  assumes "node_inv s"
  shows "node_inv (snd (handle_commit msg c s))"
proof -
  let ?t = "\<lambda>A. s\<lparr>bn_height := (bn_height s)\<lparr>h_commits := A\<rparr>\<rparr>"
  have "node_inv (add_job (Commit_Block (Reader c) b) (?t A))" if "h_proposal (bn_height s) = Some b" for b A
    by (rule node_inv_add_job [OF node_inv_votes(2) [OF assms]]) (use node_invD(7) [OF assms that] in auto)
  moreover have "node_inv (?t A)" for A by (rule node_inv_votes(2) [OF assms])
  ultimately show ?thesis
    using assms by (auto simp: handle_commit_def Let_def split: option.splits)
qed

lemma inv_on_message:
  assumes "node_inv s" and "line_record msg"
  shows "node_inv (snd (on_message msg c s))"
proof -
  have "node_inv (snd (handle_hello msg c s))" using assms(1) core_hello by (metis node_inv_core)
  with assms show ?thesis
    by (auto simp: on_message_def inv_propose_request inv_propose_block inv_prepare inv_commit split: jval.splits)
qed

lemma inv_deliver:
  assumes "node_inv s" and "line_record msg"
  shows "node_inv (deliver c msg s)"
  using assms inv_on_message [OF assms] node_inv_core [OF core_settle]
  by (auto simp: deliver_def split: option.splits)

lemma inv_take_job:
  assumes "node_inv s"
  shows "node_inv (take_job k s)"
proof (cases "k < length (bn_jobs s)")
  case True
  let ?j = "bn_jobs s ! k" and ?js = "take k (bn_jobs s) @ drop (Suc k) (bn_jobs s)"
  let ?t = "s\<lparr>bn_jobs := ?js\<rparr>"
  have eq: "bn_jobs s = take k (bn_jobs s) @ ?j # drop (Suc k) (bn_jobs s)" using True by (rule id_take_nth_drop)
  have ok: "job_block ?j = Some b \<Longrightarrow> blk_ok b" for b using node_invD(6) [OF assms] True nth_mem by blast
  have js: "j \<in> set ?js \<Longrightarrow> job_block j = Some b \<Longrightarrow> blk_ok b" for j b
    using node_invD(6) [OF assms, of j b] by (auto dest: in_set_takeD in_set_dropD)
  have t: "node_inv ?t" if "finish_block ?j = None"
    by (rule node_inv_jobs [OF assms]) (use that js in \<open>simp_all, subst (3) eq, simp\<close>)
  have "node_inv (run_job ?j ?t)"
  proof (cases ?j)
    case (Propose i)
    with t show ?thesis by (simp add: run_job_def inv_propose)
  next
    case (Maybe_Commit og i b)
    with t ok show ?thesis by (simp add: run_job_def inv_maybe_commit)
  next
    case (Commit_Block og b)
    with t ok have "node_inv (snd (commit_block og b ?t))" by (intro inv_commit_block) auto
    with Commit_Block node_inv_core [OF core_settle] show ?thesis by (simp add: run_job_def)
  next
    case (Finish_Commit og b cs ws)
    have fin: "finishing (bn_jobs s) = finishing (take k (bn_jobs s)) @ b # finishing (drop (Suc k) (bn_jobs s))"
      by (subst eq) (simp add: Finish_Commit)
    with node_invD(2) [OF assms] have none: "finishing ?js = []" by simp
    have h: "h_committed (bn_height s)" "at_head (bn_ledger s) (bn_height s)"
      "lb_index b = h_index (bn_height s)" "lb_prev b = h_prev (bn_height s)"
      using node_invD(3-5) [OF assms] fin by auto
    have "node_inv ?t"
      using assms none h js by (simp add: node_inv_def Let_def)
    then have "node_inv (finish_commit og b cs ws ?t)"
      using none h ok Finish_Commit by (intro inv_finish) simp_all
    with Finish_Commit show ?thesis by (simp add: run_job_def)
  qed
  with True show ?thesis by (simp add: take_job_def)
qed (simp add: take_job_def assms)

lemma inv_submit:
  assumes "node_inv s" and "line_record p"
  shows "node_inv (snd (submit_payload p s))"
proof (cases "bn_started s")
  case True
  let ?i = "h_index (bn_height s)"
  let ?c = "\<lparr>cd_from = bn_id s, cd_payload = p\<rparr>"
  define s1 where "s1 = s\<lparr>bn_futures := bn_futures s @ [None], bn_waiters := dput ?i
      ((case dget (bn_waiters s) ?i of None \<Rightarrow> [] | Some w \<Rightarrow> w) @ [length (bn_futures s)]) (bn_waiters s)\<rparr>"
  have s1: "core s1 = core s" by (simp add: s1_def core_def)
  have eq: "snd (submit_payload p s) = submit_candidate ?c s1"
    using True by (simp add: submit_payload_def Let_def s1_def)
  have "node_inv (add_pending ?i ?c s1)"
    by (rule node_inv_add_pending) (use assms node_inv_core [OF s1] in simp_all)
  moreover have "h_index (bn_height s1) = ?i" using core_eqD(2) [OF s1] by simp
  ultimately show ?thesis
    unfolding eq by (simp add: submit_candidate_def Let_def node_inv_schedule node_inv_core [OF core_send_to])
qed (simp add: submit_payload_def assms)

lemma inv_gossip:
  assumes "node_inv s"
  shows "node_inv (gossip_progress s)"
  using assms by (auto simp: gossip_progress_def Let_def node_inv_schedule node_inv_core [OF core_broadcast] split: option.split)

lemma finishing_split:
  "length (finishing (filter P js)) \<le> length (finishing js)"
  "set (finishing (filter P js)) \<subseteq> set (finishing js)"
  by (induction js) (auto split: option.splits)

lemma thread_append_finishing:
  "foldl thread_append f js = foldl (\<lambda>g b. journal_append g (lb_json b)) f (finishing js)"
proof (induction js arbitrary: f)
  case (Cons j js)
  then show ?case by (cases j) auto
qed simp

lemma finishing_partition:
  "length (finishing (filter P js)) + length (finishing (filter (\<lambda>j. \<not> P j) js)) = length (finishing js)"
  by (induction js) (auto split: option.splits)

lemma finish_is_block: "finish_block j = Some b \<Longrightarrow> job_block j = Some b"
  by (cases j) auto

lemma inv_stop:
  assumes "node_inv s"
  shows "node_inv (stop s)"
proof (cases "bn_closed s")
  case False
  let ?js = "bn_jobs s" and ?h = "bn_height s"
  let ?keep = "filter (\<lambda>j. \<not> cancelled j) ?js" and ?gone = "finishing (filter cancelled ?js)"
  let ?f = "foldl thread_append (bn_ledger s) (filter cancelled ?js)"
  have len: "length ?gone + length (finishing ?keep) \<le> 1"
    using finishing_partition [of cancelled ?js] node_invD(2) [OF assms] by simp
  have inv: "node_inv (s\<lparr>bn_ledger := ?f, bn_jobs := ?keep\<rparr>)"
  proof (cases ?gone)
    case Nil
    then have f: "?f = bn_ledger s" by (simp add: thread_append_finishing)
    have "finishing ?keep \<noteq> [] \<Longrightarrow> finishing ?js \<noteq> []"
      using finishing_split(1) [of "\<lambda>j. \<not> cancelled j" ?js] by auto
    moreover have "set (finishing ?keep) \<subseteq> set (finishing ?js)" by (rule finishing_split)
    ultimately show ?thesis
      using assms len unfolding f by (auto simp: node_inv_def Let_def)
  next
    case (Cons b bs)
    with len have g: "?gone = [b]" "finishing ?keep = []" by auto
    then have b: "b \<in> set (finishing ?js)"
      using finishing_split(2) [of cancelled ?js] by (metis list.set_intros(1) subsetD)
    then have "finishing ?js \<noteq> []" by auto
    with b have h: "h_committed ?h" "at_head (bn_ledger s) ?h" "lb_index b = h_index ?h" "lb_prev b = h_prev ?h"
      using node_invD(3-5) [OF assms] by blast+
    obtain j where "j \<in> set ?js" "finish_block j = Some b"
      using b by (auto simp: finishing_def in_map_filter)
    then have "blk_ok b" using node_invD(6) [OF assms] finish_is_block by blast
    with h have "ledger_ok (journal_append (bn_ledger s) (lb_json b))"
      using ledger_append(1) [OF node_invD(1) [OF assms]] by blast
    then show ?thesis
      using assms g h(1) by (auto simp: thread_append_finishing node_inv_def Let_def)
  qed
  have "core (stop s) = core (s\<lparr>bn_ledger := ?f, bn_jobs := ?keep\<rparr>)"
    using False by (simp add: stop_def core_def)
  with inv show ?thesis by (metis node_inv_core)
qed (simp add: stop_def assms)

definition clean_event :: "event \<Rightarrow> bool" where
  "clean_event e \<longleftrightarrow>
     (case e of Deliver c msg \<Rightarrow> line_record msg | Submit p \<Rightarrow> line_record p | _ \<Rightarrow> True)"

lemma core_start: "core (snd (start t s)) = core s"
  by (auto simp: start_def Let_def core_def split: sum.split)

lemma inv_step:
  assumes "node_inv s" and "clean_event e"
  shows "node_inv (bft_step s e)"
proof -
  have "core (bft_step s e) = core s \<Longrightarrow> ?thesis" using assms(1) by (metis node_inv_core)
  then show ?thesis
    using assms
    by (cases e) (auto simp: clean_event_def inv_deliver inv_take_job inv_submit inv_gossip inv_stop core_start
        handle_inbound_def dial_peer_def set_partition_def flush_quarantine_def core_def [of "_\<lparr>bn_blocked := _\<rparr>"]
        core_def [of "_\<lparr>bn_journal := _\<rparr>"] core_def [of "_\<lparr>bn_quarantined := _\<rparr>"]
        core_def [of "_\<lparr>bn_quarantined := _, bn_orphaned := _\<rparr>"] core_def [of s])
qed

lemma inv_run: "node_inv s \<Longrightarrow> \<forall>e \<in> set es. clean_event e \<Longrightarrow> node_inv (bft_run s es)"
  unfolding bft_run_def by (induction es arbitrary: s) (auto simp: inv_step)

lemma inv_new:
  assumes "text_ok token" and "\<And>n. text_ok (clock n)"
  shows "node_inv (new_node nid token ir jp et clock None orph jr)"
  using assms text_ok_genesis
  by (simp add: node_inv_def new_node_def consensus_tail_def Let_def ledger_ok_def at_head_def new_height_def
      iter_ledger_blocks_def journal_text_def at_line_end_def clean_pending_def)

section \<open>One vote per height\<close>

text \<open>The votes a node has handed to the transport.\<close>

definition sent :: "bft \<Rightarrow> int \<Rightarrow> string \<Rightarrow> bool" where
  "sent s i h \<longleftrightarrow> (\<exists>c. (c, vote_msg ''PREPARE'' (bn_id s) i h) \<in> set (bn_outbox s))"

definition vote_inv :: "bft \<Rightarrow> bool" where
  "vote_inv s \<longleftrightarrow>
     (\<forall>i h h'. sent s i h \<longrightarrow> sent s i h' \<longrightarrow> h = h') \<and>
     (\<forall>i h. sent s i h \<longrightarrow> i < h_index (bn_height s) \<or>
        i = h_index (bn_height s) \<and> map_option lb_hash (h_proposal (bn_height s)) = Some h)"

text \<open>What the votes depend on.\<close>

definition foot :: "bft \<Rightarrow> string \<times> (nat \<times> jdict) list \<times> int \<times> lblock option" where
  "foot s = (bn_id s, bn_outbox s, h_index (bn_height s), h_proposal (bn_height s))"

lemma vote_inv_foot: "foot s = foot t \<Longrightarrow> vote_inv s = vote_inv t"
  by (simp add: vote_inv_def sent_def foot_def)

lemma foot_simps [simp]:
  "foot (record_orphaned k p d s) = foot s" "foot (record_guarded k p d s) = foot s"
  "foot (set_conn c f s) = foot s" "foot (close_conn c s) = foot s" "foot (quarantine_peer q s) = foot s"
  "foot (end_job og s) = foot s" "foot (s\<lparr>bn_peers := ps\<rparr>) = foot s" "foot (add_job j s) = foot s"
  "foot (schedule i s) = foot s" "foot (add_pending i cd s) = foot s"
  "foot (s\<lparr>bn_height := (bn_height s)\<lparr>h_prepares := A\<rparr>\<rparr>) = foot s"
  "foot (s\<lparr>bn_height := (bn_height s)\<lparr>h_commits := A\<rparr>\<rparr>) = foot s"
  by (simp_all add: foot_def record_orphaned_def record_guarded_def set_conn_def close_conn_def quarantine_peer_def
      end_job_def add_job_def schedule_def add_pending_def split: option.splits origin.splits)

lemma foot_reader_end [simp]: "foot (reader_end c s) = foot s"
  by (simp add: reader_end_def Let_def split: option.splits)

lemma foot_reader_failed [simp]: "foot (reader_failed c e s) = foot s"
  by (simp add: reader_failed_def quarantine_connection_def Let_def split: bft_exc.splits option.splits)

lemma foot_settle [simp]: "foot (settle og r) = foot (snd r)"
  by (simp add: settle_def split: prod.splits sum.splits origin.splits)

text \<open>Other messages do not vote.\<close>

definition no_vote :: "jdict \<Rightarrow> bool" where
  "no_vote m \<longleftrightarrow> jget m ''type'' \<noteq> JStr ''PREPARE''"

lemma send_raw_outbox:
  "bn_outbox (send_raw c m s) = bn_outbox s \<or> bn_outbox (send_raw c m s) = bn_outbox s @ [(c, m)]"
  by (simp add: send_raw_def split: option.splits)

lemma send_raw_frame:
  "bn_id (send_raw c m s) = bn_id s" "bn_height (send_raw c m s) = bn_height s"
  by (rule core_eqD [OF core_send])+

lemma sent_send_raw: "sent (send_raw c m s) i h \<Longrightarrow> sent s i h \<or> m = vote_msg ''PREPARE'' (bn_id s) i h"
  using send_raw_outbox [of c m s] by (auto simp: sent_def send_raw_frame)

lemma vote_inv_send:
  assumes "vote_inv s" and "no_vote m"
  shows "vote_inv (send_raw c m s)"
proof -
  have "sent (send_raw c m s) i h \<Longrightarrow> sent s i h" for i h
    using sent_send_raw [of c m s i h] assms(2) by (auto simp: no_vote_def vote_msg_def)
  with assms(1) show ?thesis unfolding vote_inv_def send_raw_frame by blast
qed

lemma vote_inv_vote:
  assumes "vote_inv s" and "h_proposal (bn_height s) = Some b"
  shows "vote_inv (send_raw c (vote_msg ''PREPARE'' (bn_id s) (h_index (bn_height s)) (lb_hash b)) s)"
proof -
  let ?m = "vote_msg ''PREPARE'' (bn_id s) (h_index (bn_height s)) (lb_hash b)"
  have new: "sent (send_raw c ?m s) i h \<Longrightarrow> sent s i h \<or> i = h_index (bn_height s) \<and> h = lb_hash b" for i h
    using sent_send_raw [of c ?m s i h] by (auto simp: vote_msg_def)
  have cur: "sent s (h_index (bn_height s)) h \<Longrightarrow> h = lb_hash b" for h
    using assms by (auto simp: vote_inv_def)
  have uniq: "sent s i h \<Longrightarrow> sent s i h' \<Longrightarrow> h = h'" for i h h'
    using assms(1) unfolding vote_inv_def by blast
  have "h = h'" if "sent (send_raw c ?m s) i h" "sent (send_raw c ?m s) i h'" for i h h'
    using new [OF that(1)] new [OF that(2)] cur [of h] cur [of h'] uniq [of i h h'] by auto
  moreover have "i < h_index (bn_height s) \<or> i = h_index (bn_height s) \<and> lb_hash b = h"
    if "sent (send_raw c ?m s) i h" for i h
    using new [OF that] assms unfolding vote_inv_def by auto
  ultimately show ?thesis
    using assms(2) unfolding vote_inv_def send_raw_frame by simp
qed

lemma broadcast_frame: "bn_id (broadcast m s) = bn_id s" "bn_height (broadcast m s) = bn_height s"
  by (rule core_eqD [OF core_broadcast])+

lemma vote_inv_broadcast: "vote_inv s \<Longrightarrow> no_vote m \<Longrightarrow> vote_inv (broadcast m s)"
  unfolding broadcast_def by (rule foldl_invariant) (simp_all add: vote_inv_send)

lemma vote_inv_broadcast_vote:
  assumes "vote_inv s" and "h_proposal (bn_height s) = Some b"
  shows "vote_inv (broadcast (vote_msg ''PREPARE'' (bn_id s) (h_index (bn_height s)) (lb_hash b)) s)"
proof -
  let ?m = "vote_msg ''PREPARE'' (bn_id s) (h_index (bn_height s)) (lb_hash b)"
  let ?P = "\<lambda>t. vote_inv t \<and> bn_id t = bn_id s \<and> bn_height t = bn_height s"
  have "?P (foldl (\<lambda>t c. send_raw c ?m t) s (dvalues (bn_peers s)))"
  proof (rule foldl_invariant [where P = ?P])
    fix t c assume t: "?P t"
    then show "?P (send_raw c ?m t)"
      using vote_inv_vote [of t b c] assms(2) by (simp add: send_raw_frame)
  qed (use assms in simp)
  then show ?thesis by (simp add: broadcast_def)
qed

lemma vote_inv_set_proposal:
  assumes "vote_inv s" and "h_proposal (bn_height s) = None"
  shows "vote_inv (s\<lparr>bn_height := (bn_height s)\<lparr>h_proposal := Some b, h_prepares := A\<rparr>\<rparr>)"
proof -
  have "sent (s\<lparr>bn_height := (bn_height s)\<lparr>h_proposal := Some b, h_prepares := A\<rparr>\<rparr>) = sent s"
    by (simp add: sent_def fun_eq_iff)
  with assms show ?thesis unfolding vote_inv_def by simp blast
qed

lemma vote_propose:
  assumes "vote_inv s"
  shows "vote_inv (propose_after_grace i s)"
proof (cases "h_index (bn_height s) \<noteq> i \<or> h_proposal (bn_height s) \<noteq> None \<or> pending_at i s = []")
  case True
  then have "propose_after_grace i s = end_job (Task i) s" by (auto simp: propose_after_grace_def Let_def)
  then show ?thesis using assms vote_inv_foot [of "end_job (Task i) s" s] by simp
next
  case False
  let ?c = "hd (sort_key cand_key (pending_at i s))"
  let ?b = "build_block (bn_clock s (bn_ticks s)) i (bn_token s) (h_prev (bn_height s)) (cd_payload ?c)"
  let ?h = "(bn_height s)\<lparr>h_proposal := Some ?b, h_prepares := insert (bn_id s) (h_prepares (bn_height s))\<rparr>"
  define s1 where "s1 = s\<lparr>bn_ticks := bn_ticks s + 1, bn_height := ?h\<rparr>"
  define s2 where "s2 = broadcast (proposal_msg (bn_id s) ?b) s1"
  have "foot s1 = foot (s\<lparr>bn_height := ?h\<rparr>)" by (simp add: s1_def foot_def)
  then have "vote_inv s1" using vote_inv_set_proposal [OF assms] False vote_inv_foot by blast
  then have v2: "vote_inv s2" unfolding s2_def by (rule vote_inv_broadcast) (simp add: no_vote_def proposal_msg_def)
  have f: "bn_id s2 = bn_id s" "bn_height s2 = ?h" by (simp_all add: s2_def broadcast_frame s1_def)
  have "vote_inv (broadcast (vote_msg ''PREPARE'' (bn_id s2) (h_index (bn_height s2)) (lb_hash ?b)) s2)"
    by (rule vote_inv_broadcast_vote [OF v2]) (simp add: f)
  moreover have "propose_after_grace i s = add_job (Maybe_Commit (Task i) i ?b)
      (broadcast (vote_msg ''PREPARE'' (bn_id s2) (h_index (bn_height s2)) (lb_hash ?b)) s2)"
    using False by (simp add: propose_after_grace_def Let_def f) (simp add: s2_def s1_def)
  ultimately show ?thesis using vote_inv_foot [OF foot_simps(8)] by simp
qed

lemma vote_accept:
  assumes "vote_inv s"
  shows "vote_inv (snd (accept_proposal b c s))"
proof -
  let ?h = "bn_height s"
  let ?A = "insert (bn_id s) (h_prepares ?h)"
  have job: "vote_inv (add_job j t) = vote_inv t" for j t by (rule vote_inv_foot) simp
  have old: "vote_inv (broadcast (vote_msg ''PREPARE'' (bn_id s) (lb_index b) (lb_hash b)) (s\<lparr>bn_height := ?h\<lparr>h_prepares := ?A\<rparr>\<rparr>))"
    if "h_proposal ?h = Some b0" "lb_hash b0 = lb_hash b" "lb_index b = h_index ?h" for b0
  proof -
    have "vote_inv (s\<lparr>bn_height := ?h\<lparr>h_prepares := ?A\<rparr>\<rparr>)" using assms vote_inv_foot [OF foot_simps(11)] by simp
    from vote_inv_broadcast_vote [OF this, of b0] that show ?thesis by simp
  qed
  have new: "vote_inv (broadcast (vote_msg ''PREPARE'' (bn_id s) (lb_index b) (lb_hash b))
      (s\<lparr>bn_height := ?h\<lparr>h_proposal := Some b, h_prepares := ?A\<rparr>\<rparr>))"
    if "h_proposal ?h = None" "lb_index b = h_index ?h"
    using vote_inv_broadcast_vote [OF vote_inv_set_proposal [OF assms that(1), where b = b and A = ?A], of b] that by simp
  show ?thesis
    using assms old new by (simp add: accept_proposal_def Let_def job split: option.split)
qed

lemma vote_finish:
  assumes "vote_inv s"
  shows "vote_inv (finish_commit og b cs ws s)"
proof -
  let ?s1 = "s\<lparr>bn_ledger := journal_append (bn_ledger s) (lb_json b)\<rparr>"
  let ?s2 = "foldl (orphan_candidate b) ?s1 cs"
  let ?i = "h_index (bn_height s)"
  have foot2: "foot (foldl (orphan_candidate b) t cs) = foot t" for t
    by (induction cs arbitrary: t) (simp_all add: orphan_candidate_def)
  then have f2: "bn_id ?s2 = bn_id s" "bn_outbox ?s2 = bn_outbox s" "h_index (bn_height ?s2) = ?i"
    using foot2 [of ?s1] by (simp_all add: foot_def)
  have "foot (finish_commit og b cs ws s) = (bn_id s, bn_outbox s, ?i + 1, None)"
    using f2 by (simp add: finish_commit_def Let_def foot_def schedule_def new_height_def end_job_def split: origin.splits)
  then have g: "sent (finish_commit og b cs ws s) = sent s" "h_index (bn_height (finish_commit og b cs ws s)) = ?i + 1"
    by (simp_all add: foot_def sent_def fun_eq_iff)
  have "i < ?i + 1" if "sent s i h" for i h using assms that unfolding vote_inv_def by fastforce
  with assms show ?thesis unfolding vote_inv_def g by blast
qed

lemma foot_hello: "foot (snd (handle_hello msg c s)) = foot s"
  unfolding handle_hello_def Let_def by (auto split: option.split)

lemma foot_propose_request: "foot (snd (handle_propose_request msg c s)) = foot s"
  unfolding handle_propose_request_def Let_def by (simp split: jval.split)

lemma foot_pre_prepare: "foot (snd (verify_pre_prepare b pid s)) = foot s"
  by (simp add: verify_pre_prepare_def split: jval.splits sum.splits)

lemma foot_votes: "foot (snd (handle_prepare msg c s)) = foot s" "foot (snd (handle_commit msg c s)) = foot s"
  unfolding handle_prepare_def handle_commit_def Let_def by (auto split: option.split)

lemma foot_commit_block: "foot (snd (commit_block og b s)) = foot s"
  by (simp add: commit_block_def Let_def) (simp add: foot_def add_job_def)

lemma vote_propose_block:
  assumes "vote_inv s"
  shows "vote_inv (snd (handle_propose_block msg c s))"
proof (cases "coerce_block (jget msg ''block'')")
  case (Some b)
  have r: "vote_inv (record_orphaned k p d s)" for k p d using assms vote_inv_foot [OF foot_simps(1)] by simp
  have v: "vote_inv (snd (case verify_pre_prepare b pid s of
      (Inl e, s1) \<Rightarrow> (Inl e, s1) | (Inr x, s1) \<Rightarrow> accept_proposal b c s1))" for pid
  proof -
    obtain r t where rt: "verify_pre_prepare b pid s = (r, t)" by force
    then have "foot t = foot s" using foot_pre_prepare [of b pid s] by simp
    then have "vote_inv t" using assms vote_inv_foot by blast
    with rt show ?thesis by (simp add: vote_accept split: sum.split)
  qed
  from Some assms r v show ?thesis by (simp add: handle_propose_block_def Let_def)
qed (simp add: handle_propose_block_def assms)

lemma vote_on_message:
  assumes "vote_inv s"
  shows "vote_inv (snd (on_message msg c s))"
proof -
  have "vote_inv t" if "foot t = foot s" for t using assms that vote_inv_foot by blast
  then show ?thesis
    using assms foot_hello foot_propose_request foot_votes
    by (auto simp: on_message_def vote_propose_block split: jval.split)
qed

lemma vote_run_job:
  assumes "vote_inv s"
  shows "vote_inv (run_job j s)"
proof -
  have same: "vote_inv t" if "foot t = foot u" "vote_inv u" for t u using that vote_inv_foot by blast
  have "vote_inv (broadcast (vote_msg ''COMMIT'' x i h) s)" for x i h
    by (rule vote_inv_broadcast [OF assms]) (simp add: no_vote_def vote_msg_def)
  then have "vote_inv (maybe_commit og i b s)" for og i b
    using assms by (auto simp: maybe_commit_def Let_def intro: same [of "end_job og s" s] same [OF foot_simps(8)])
  moreover have "vote_inv (settle og (commit_block og b s))" for og b
    by (rule same [OF _ assms]) (simp add: foot_commit_block)
  ultimately show ?thesis
    using assms by (cases j) (simp_all add: run_job_def vote_propose vote_finish)
qed

lemma vote_gossip:
  assumes "vote_inv s"
  shows "vote_inv (gossip_progress s)"
proof -
  have sched: "vote_inv (schedule i s)" for i using assms vote_inv_foot [OF foot_simps(9)] by simp
  have "vote_inv (broadcast (proposal_msg x b) t)" if "vote_inv t" for x b t
    by (rule vote_inv_broadcast [OF that]) (simp add: no_vote_def proposal_msg_def)
  then show ?thesis
    using assms vote_inv_broadcast_vote [OF assms] sched
    by (simp add: gossip_progress_def Let_def split: option.split)
qed

lemma vote_submit:
  assumes "vote_inv s"
  shows "vote_inv (snd (submit_payload p s))"
proof -
  have send: "vote_inv (send_to_peer q m t)" if "vote_inv t" "no_vote m" for q m t
    using that by (simp add: send_to_peer_def vote_inv_send split: option.split)
  have "vote_inv (submit_candidate cd t)" if "foot t = foot s" for cd t
  proof -
    have "vote_inv (add_pending i cd t)" "vote_inv (schedule i (add_pending i cd t))" for i
      using assms that vote_inv_foot [of "add_pending i cd t" s] vote_inv_foot [of "schedule i (add_pending i cd t)" s]
      by simp_all
    then show ?thesis by (simp add: submit_candidate_def Let_def send no_vote_def)
  qed
  then show ?thesis
    using assms by (simp add: submit_payload_def Let_def foot_def)
qed

lemma vote_open: "vote_inv s \<Longrightarrow> vote_inv (open_conn a ob s)"
  unfolding open_conn_def Let_def
  by (rule vote_inv_send) (simp_all add: vote_inv_def sent_def no_vote_def hello_msg_def)

lemma foot_misc:
  "foot (stop s) = foot s" "foot (snd (start t s)) = foot s" "foot (snd (flush_quarantine x s)) = foot s"
  "foot (set_partition ps s) = foot s" "foot (s\<lparr>bn_journal := f\<rparr>) = foot s" "foot (s\<lparr>bn_jobs := js\<rparr>) = foot s"
  by (simp_all add: foot_def stop_def start_def Let_def flush_quarantine_def set_partition_def split: sum.split prod.split)

lemma vote_step:
  assumes "vote_inv s"
  shows "vote_inv (bft_step s e)"
proof -
  have same: "vote_inv t" if "foot t = foot s" for t using that assms vote_inv_foot by blast
  show ?thesis
  proof (cases e)
    case (Deliver c msg)
    have "vote_inv (settle (Reader c) (on_message msg c s))"
      using vote_on_message [OF assms, of msg c] vote_inv_foot [OF foot_settle] by blast
    with assms Deliver show ?thesis by (simp add: deliver_def split: option.split)
  next
    case (Run k)
    have "vote_inv (run_job j (s\<lparr>bn_jobs := js\<rparr>))" for j js
      by (rule vote_run_job) (rule same, rule foot_misc)
    with assms Run show ?thesis by (simp add: take_job_def)
  qed (simp_all add: vote_submit [OF assms] vote_gossip [OF assms] vote_open [OF assms] handle_inbound_def
      dial_peer_def assms same foot_misc)
qed

lemma vote_run: "vote_inv s \<Longrightarrow> vote_inv (bft_run s es)"
  unfolding bft_run_def by (induction es arbitrary: s) (auto simp: vote_step)

lemma vote_new: "vote_inv (new_node nid token ir jp et clock lg orph jr)"
  by (simp add: vote_inv_def sent_def new_node_def split: prod.split)

section \<open>Certificates\<close>

text \<open>A quorum of votes of one of the two phases at the current height.\<close>

definition certified :: "bft \<Rightarrow> bool" where
  "certified s \<longleftrightarrow> quorum s \<le> card (h_prepares (bn_height s)) \<or> quorum s \<le> card (h_commits (bn_height s))"

definition cert_inv :: "bft \<Rightarrow> bool" where
  "cert_inv s \<longleftrightarrow>
     (let h = bn_height s in
      finite (h_prepares h) \<and> finite (h_commits h) \<and> (h_committed h \<longrightarrow> certified s) \<and>
      (\<forall>b. h_proposal h = Some b \<longrightarrow> lb_index b = h_index h) \<and>
      (\<forall>og i b. Maybe_Commit og i b \<in> set (bn_jobs s) \<longrightarrow> lb_index b = i \<and> i \<le> h_index h) \<and>
      (\<forall>og b. Commit_Block og b \<in> set (bn_jobs s) \<longrightarrow>
         lb_index b < h_index h \<or> lb_index b = h_index h \<and> certified s))"

definition cert_view :: "bft \<Rightarrow> height \<times> job list \<times> nat" where
  "cert_view s = (bn_height s, bn_jobs s, length (bn_nodes s))"

lemma cert_inv_view: "cert_view s = cert_view t \<Longrightarrow> cert_inv s = cert_inv t"
  by (simp add: cert_inv_def certified_def cert_view_def quorum_def)

lemma view_simps [simp]:
  "cert_view (record_orphaned k p d s) = cert_view s" "cert_view (record_guarded k p d s) = cert_view s"
  "cert_view (set_conn c f s) = cert_view s" "cert_view (close_conn c s) = cert_view s"
  "cert_view (quarantine_peer q s) = cert_view s" "cert_view (end_job og s) = cert_view s"
  "cert_view (s\<lparr>bn_peers := ps\<rparr>) = cert_view s" "cert_view (add_pending i cd s) = cert_view s"
  "cert_view (send_raw c m s) = cert_view s"
  by (simp_all add: cert_view_def record_orphaned_def record_guarded_def set_conn_def close_conn_def quarantine_peer_def
      end_job_def add_pending_def send_raw_def split: option.splits origin.splits)

lemma view_broadcast [simp]: "cert_view (broadcast m s) = cert_view s"
proof -
  have "cert_view (foldl (\<lambda>t c. send_raw c m t) s cs) = cert_view s" for cs
    by (induction cs arbitrary: s) auto
  then show ?thesis by (simp add: broadcast_def)
qed

lemma view_send_to [simp]: "cert_view (send_to_peer p m s) = cert_view s"
  by (simp add: send_to_peer_def split: option.splits)

lemma view_reader_end [simp]: "cert_view (reader_end c s) = cert_view s"
  by (simp add: reader_end_def Let_def split: option.splits)

lemma view_reader_failed [simp]: "cert_view (reader_failed c e s) = cert_view s"
  by (simp add: reader_failed_def quarantine_connection_def Let_def split: bft_exc.splits option.splits)

lemma view_settle [simp]: "cert_view (settle og r) = cert_view (snd r)"
  by (simp add: settle_def split: prod.splits sum.splits origin.splits)

lemma view_open [simp]: "cert_view (open_conn a ob s) = cert_view s"
  by (simp add: open_conn_def Let_def) (simp add: cert_view_def)

lemma view_add_job: "cert_view s = cert_view t \<Longrightarrow> cert_view (add_job j s) = cert_view (add_job j t)"
  by (simp add: cert_view_def add_job_def)

lemma cert_add_job:
  assumes "cert_inv s"
    and "\<And>og i b. j = Maybe_Commit og i b \<Longrightarrow> lb_index b = i \<and> i \<le> h_index (bn_height s)"
    and "\<And>og b. j = Commit_Block og b \<Longrightarrow> lb_index b = h_index (bn_height s) \<and> certified s"
  shows "cert_inv (add_job j s)"
  using assms unfolding cert_inv_def Let_def by (simp add: add_job_def certified_def quorum_def) blast

lemma cert_jobs:
  assumes "cert_inv s" and "set js \<subseteq> set (bn_jobs s)"
  shows "cert_inv (s\<lparr>bn_jobs := js\<rparr>)"
  using assms unfolding cert_inv_def Let_def by (simp add: certified_def quorum_def) blast

lemma cert_grow:
  assumes "cert_inv s" and "h_prepares (bn_height s) \<subseteq> A" and "finite A"
  shows "cert_inv (s\<lparr>bn_height := (bn_height s)\<lparr>h_prepares := A\<rparr>\<rparr>)"
proof -
  have "card (h_prepares (bn_height s)) \<le> card A" using assms(2,3) by (rule card_mono [rotated])
  then have "certified s \<Longrightarrow> certified (s\<lparr>bn_height := (bn_height s)\<lparr>h_prepares := A\<rparr>\<rparr>)"
    by (auto simp: certified_def quorum_def)
  with assms show ?thesis unfolding cert_inv_def Let_def by simp blast
qed

lemma cert_grow_commits:
  assumes "cert_inv s" and "h_commits (bn_height s) \<subseteq> A" and "finite A"
  shows "cert_inv (s\<lparr>bn_height := (bn_height s)\<lparr>h_commits := A\<rparr>\<rparr>)"
proof -
  have "card (h_commits (bn_height s)) \<le> card A" using assms(2,3) by (rule card_mono [rotated])
  then have "certified s \<Longrightarrow> certified (s\<lparr>bn_height := (bn_height s)\<lparr>h_commits := A\<rparr>\<rparr>)"
    by (auto simp: certified_def quorum_def)
  with assms show ?thesis unfolding cert_inv_def Let_def by simp blast
qed

lemma cert_proposal:
  assumes "cert_inv s" and "lb_index b = h_index (bn_height s)"
  shows "cert_inv (s\<lparr>bn_height := (bn_height s)\<lparr>h_proposal := Some b\<rparr>\<rparr>)"
  using assms unfolding cert_inv_def Let_def by (simp add: certified_def quorum_def)

lemma cert_schedule: "cert_inv s \<Longrightarrow> cert_inv (schedule i s)"
proof -
  assume "cert_inv s"
  then have "cert_inv (add_job (Propose i) s)" by (rule cert_add_job) simp_all
  moreover have "cert_view (schedule i s) = cert_view (add_job (Propose i) s)"
    by (simp add: cert_view_def schedule_def add_job_def)
  ultimately show ?thesis using cert_inv_view by blast
qed

lemma cert_propose:
  assumes "cert_inv s"
  shows "cert_inv (propose_after_grace i s)"
proof (cases "h_index (bn_height s) \<noteq> i \<or> h_proposal (bn_height s) \<noteq> None \<or> pending_at i s = []")
  case True
  then have "propose_after_grace i s = end_job (Task i) s" by (auto simp: propose_after_grace_def Let_def)
  then show ?thesis using assms cert_inv_view [of "end_job (Task i) s" s] by simp
next
  case False
  let ?c = "hd (sort_key cand_key (pending_at i s))"
  let ?b = "build_block (bn_clock s (bn_ticks s)) i (bn_token s) (h_prev (bn_height s)) (cd_payload ?c)"
  let ?s1 = "s\<lparr>bn_height := (bn_height s)\<lparr>h_proposal := Some ?b\<rparr>\<rparr>"
  let ?s2 = "?s1\<lparr>bn_height := (bn_height ?s1)\<lparr>h_prepares := insert (bn_id s) (h_prepares (bn_height ?s1))\<rparr>\<rparr>"
  have idx: "lb_index ?b = i" by (simp add: build_block_def Let_def)
  have "cert_inv ?s1" by (rule cert_proposal [OF assms]) (use False idx in simp)
  then have "cert_inv ?s2" by (rule cert_grow) (use assms in \<open>auto simp: cert_inv_def Let_def\<close>)
  then have "cert_inv (add_job (Maybe_Commit (Task i) i ?b) ?s2)"
    by (rule cert_add_job) (use False idx in auto)
  moreover have "cert_view (propose_after_grace i s) = cert_view (add_job (Maybe_Commit (Task i) i ?b) ?s2)"
    using False by (simp add: propose_after_grace_def Let_def)
      (rule view_add_job, simp, simp add: cert_view_def)
  ultimately show ?thesis using cert_inv_view by blast
qed

lemma cert_maybe_commit:
  assumes "cert_inv s" and "lb_index b = i"
  shows "cert_inv (maybe_commit og i b s)"
proof -
  let ?h = "bn_height s"
  have same: "cert_inv (end_job og s)" using assms(1) cert_inv_view [OF view_simps(6)] by blast
  have "cert_inv (add_job (Commit_Block og b) (broadcast m s))"
    if "i = h_index ?h" "quorum s \<le> card (h_prepares ?h)" for m
  proof -
    have "cert_inv (add_job (Commit_Block og b) s)"
      by (rule cert_add_job [OF assms(1)]) (use that assms(2) in \<open>auto simp: certified_def\<close>)
    then show ?thesis using cert_inv_view [OF view_add_job [OF view_broadcast]] by blast
  qed
  with same show ?thesis by (simp add: maybe_commit_def Let_def)
qed

lemma cert_commit_block:
  assumes "cert_inv s" and "lb_index b < h_index (bn_height s) \<or> lb_index b = h_index (bn_height s) \<and> certified s"
  shows "cert_inv (snd (commit_block og b s))"
proof -
  let ?h = "bn_height s"
  have same: "cert_inv (end_job og s)" using assms(1) cert_inv_view [OF view_simps(6)] by blast
  have "cert_inv (add_job (Finish_Commit og b cs ws) (s\<lparr>bn_height := ?h\<lparr>h_committed := True\<rparr>, bn_waiters := w\<rparr>))"
    if "lb_index b = h_index ?h" for cs ws w
  proof (rule cert_add_job)
    show "cert_inv (s\<lparr>bn_height := ?h\<lparr>h_committed := True\<rparr>, bn_waiters := w\<rparr>)"
      using assms that unfolding cert_inv_def Let_def by (simp add: certified_def quorum_def)
  qed simp_all
  with same assms(1) show ?thesis by (simp add: commit_block_def Let_def)
qed

lemma cert_finish:
  assumes "cert_inv s"
  shows "cert_inv (finish_commit og b cs ws s)"
proof -
  let ?s1 = "s\<lparr>bn_ledger := journal_append (bn_ledger s) (lb_json b)\<rparr>"
  let ?s2 = "foldl (orphan_candidate b) ?s1 cs"
  let ?i = "h_index (bn_height s)"
  let ?t = "s\<lparr>bn_height := new_height (?i + 1) (lb_hash b)\<rparr>"
  have "cert_view (foldl (orphan_candidate b) t cs) = cert_view t" for t
    by (induction cs arbitrary: t) (simp_all add: orphan_candidate_def)
  from this [of ?s1] have v2: "bn_height ?s2 = bn_height s" "bn_jobs ?s2 = bn_jobs s" "length (bn_nodes ?s2) = length (bn_nodes s)"
    by (simp_all add: cert_view_def)
  have mj: "lb_index b = i \<and> i < ?i + 1" if "Maybe_Commit og i b \<in> set (bn_jobs s)" for og i b
    using assms that unfolding cert_inv_def Let_def by fastforce
  have cj: "lb_index b < ?i + 1" if "Commit_Block og b \<in> set (bn_jobs s)" for og b
    using assms that unfolding cert_inv_def Let_def by fastforce
  have t: "cert_inv ?t"
    unfolding cert_inv_def Let_def new_height_def using mj cj by (simp add: less_imp_le)
  have "cert_view (finish_commit og b cs ws s) = cert_view ?t \<or>
      cert_view (finish_commit og b cs ws s) = cert_view (schedule (?i + 1) ?t)"
    using v2 by (simp add: finish_commit_def Let_def cert_view_def schedule_def new_height_def end_job_def split: origin.splits)
  with t show ?thesis by (metis cert_inv_view cert_schedule)
qed

lemma cert_accept:
  assumes "cert_inv s"
  shows "cert_inv (snd (accept_proposal b c s))"
proof -
  let ?h = "bn_height s"
  let ?m = "Maybe_Commit (Reader c) (lb_index b) b"
  let ?A = "insert (bn_id s) (h_prepares ?h)"
  let ?p = "s\<lparr>bn_height := ?h\<lparr>h_prepares := ?A\<rparr>\<rparr>"
  let ?q0 = "s\<lparr>bn_height := ?h\<lparr>h_proposal := Some b\<rparr>\<rparr>"
  let ?q = "?q0\<lparr>bn_height := (bn_height ?q0)\<lparr>h_prepares := ?A\<rparr>\<rparr>"
  have fin: "finite ?A" using assms by (simp add: cert_inv_def Let_def)
  have p: "cert_inv ?p" by (rule cert_grow [OF assms _ fin]) auto
  have q: "cert_inv ?q" if "lb_index b = h_index ?h"
    by (rule cert_grow [OF cert_proposal [OF assms that] _ fin]) auto
  have jp: "cert_inv (add_job ?m (broadcast m ?p))" if "lb_index b = h_index ?h" for m
    using cert_add_job [OF p, of ?m] that cert_inv_view [OF view_add_job [OF view_broadcast]] by auto
  have jq: "cert_inv (add_job ?m (broadcast m ?q))" if "lb_index b = h_index ?h" for m
    using cert_add_job [OF q [OF that], of ?m] that cert_inv_view [OF view_add_job [OF view_broadcast]] by auto
  show ?thesis
    using assms jp jq by (simp add: accept_proposal_def Let_def split: option.split)
qed

lemma view_hello: "cert_view (snd (handle_hello msg c s)) = cert_view s"
  unfolding handle_hello_def Let_def by (auto split: option.split)

lemma view_pre_prepare: "cert_view (snd (verify_pre_prepare b pid s)) = cert_view s"
  by (simp add: verify_pre_prepare_def split: jval.splits sum.splits)

lemma cert_propose_request:
  assumes "cert_inv s"
  shows "cert_inv (snd (handle_propose_request msg c s))"
proof -
  have "cert_inv (add_pending i cd s)" "cert_inv (record_orphaned k p d s)" for i cd k p d
    using assms cert_inv_view [OF view_simps(8)] cert_inv_view [OF view_simps(1)] by blast+
  with assms show ?thesis
    unfolding handle_propose_request_def Let_def by (simp add: cert_schedule split: jval.split)
qed

lemma cert_propose_block:
  assumes "cert_inv s"
  shows "cert_inv (snd (handle_propose_block msg c s))"
proof (cases "coerce_block (jget msg ''block'')")
  case (Some b)
  have r: "cert_inv (record_orphaned k p d s)" for k p d using assms cert_inv_view [OF view_simps(1)] by blast
  have v: "cert_inv (snd (case verify_pre_prepare b pid s of
      (Inl e, s1) \<Rightarrow> (Inl e, s1) | (Inr x, s1) \<Rightarrow> accept_proposal b c s1))" for pid
  proof -
    obtain r t where rt: "verify_pre_prepare b pid s = (r, t)" by force
    then have "cert_view t = cert_view s" using view_pre_prepare [of b pid s] by simp
    then have "cert_inv t" using assms cert_inv_view by blast
    with rt show ?thesis by (simp add: cert_accept split: sum.split)
  qed
  from Some assms r v show ?thesis by (simp add: handle_propose_block_def Let_def)
qed (simp add: handle_propose_block_def assms)

lemma finite_add_peer: "finite A \<Longrightarrow> finite (add_peer c s A)" and add_peer_mono: "A \<subseteq> add_peer c s A"
  by (auto simp: add_peer_def split: option.splits)

lemma cert_prepare:
  assumes "cert_inv s"
  shows "cert_inv (snd (handle_prepare msg c s))"
proof -
  let ?h = "bn_height s"
  let ?A = "add_peer c s (h_prepares ?h)"
  let ?t = "s\<lparr>bn_height := ?h\<lparr>h_prepares := ?A\<rparr>\<rparr>"
  have t: "cert_inv ?t"
    by (rule cert_grow [OF assms add_peer_mono]) (use assms in \<open>simp add: cert_inv_def Let_def finite_add_peer\<close>)
  have "cert_inv (add_job (Maybe_Commit (Reader c) (h_index ?h) b) ?t)" if "h_proposal ?h = Some b" for b
    by (rule cert_add_job [OF t]) (use assms that in \<open>auto simp: cert_inv_def Let_def\<close>)
  with assms show ?thesis
    by (auto simp: handle_prepare_def Let_def split: option.split)
qed

lemma cert_commit:
  assumes "cert_inv s"
  shows "cert_inv (snd (handle_commit msg c s))"
proof -
  let ?h = "bn_height s"
  let ?A = "insert (bn_id s) (add_peer c s (h_commits ?h))"
  let ?t = "s\<lparr>bn_height := ?h\<lparr>h_commits := ?A\<rparr>\<rparr>"
  have t: "cert_inv ?t"
    by (rule cert_grow_commits [OF assms])
      (use assms add_peer_mono [of "h_commits ?h" c s] in \<open>auto simp: cert_inv_def Let_def finite_add_peer\<close>)
  have "cert_inv (add_job (Commit_Block (Reader c) b) ?t)" if "h_proposal ?h = Some b" "quorum ?t \<le> card ?A" for b
    by (rule cert_add_job [OF t]) (use assms that in \<open>auto simp: cert_inv_def Let_def certified_def\<close>)
  with assms t show ?thesis
    by (auto simp: handle_commit_def Let_def split: option.split)
qed

lemma cert_deliver:
  assumes "cert_inv s"
  shows "cert_inv (deliver c msg s)"
proof -
  have "cert_inv (snd (handle_hello msg c s))" using assms cert_inv_view [OF view_hello] by blast
  then have "cert_inv (snd (on_message msg c s))"
    using assms by (simp add: on_message_def cert_propose_request cert_propose_block cert_prepare cert_commit split: jval.split)
  then have "cert_inv (settle (Reader c) (on_message msg c s))" using cert_inv_view [OF view_settle] by blast
  with assms show ?thesis by (simp add: deliver_def split: option.split)
qed

lemma cert_take_job:
  assumes "cert_inv s"
  shows "cert_inv (take_job k s)"
proof (cases "k < length (bn_jobs s)")
  case True
  let ?j = "bn_jobs s ! k" and ?t = "s\<lparr>bn_jobs := take k (bn_jobs s) @ drop (Suc k) (bn_jobs s)\<rparr>"
  have mem: "?j \<in> set (bn_jobs s)" using True by simp
  have t: "cert_inv ?t" by (rule cert_jobs [OF assms]) (auto dest: in_set_takeD in_set_dropD)
  have "cert_inv (run_job ?j ?t)"
  proof (cases ?j)
    case (Propose i)
    with t show ?thesis by (simp add: run_job_def cert_propose)
  next
    case (Maybe_Commit og i b)
    with mem assms have "lb_index b = i" unfolding cert_inv_def Let_def by metis
    with Maybe_Commit t show ?thesis by (simp add: run_job_def cert_maybe_commit)
  next
    case (Commit_Block og b)
    with mem assms have "lb_index b < h_index (bn_height s) \<or> lb_index b = h_index (bn_height s) \<and> certified s"
      unfolding cert_inv_def Let_def by metis
    then have "cert_inv (snd (commit_block og b ?t))"
      by (intro cert_commit_block [OF t]) (simp add: certified_def quorum_def)
    with Commit_Block show ?thesis using cert_inv_view [OF view_settle] by (simp add: run_job_def)
  next
    case (Finish_Commit og b cs ws)
    with t show ?thesis by (simp add: run_job_def cert_finish)
  qed
  with True show ?thesis by (simp add: take_job_def)
qed (simp add: take_job_def assms)

lemma cert_submit:
  assumes "cert_inv s"
  shows "cert_inv (snd (submit_payload p s))"
proof -
  have "cert_inv (submit_candidate cd t)" if "cert_view t = cert_view s" for cd t
  proof -
    have "cert_inv (add_pending i cd t)" for i
      using assms that cert_inv_view [of "add_pending i cd t" s] by simp
    then show ?thesis
      using cert_inv_view [OF view_send_to] by (simp add: submit_candidate_def Let_def cert_schedule)
  qed
  then show ?thesis using assms by (simp add: submit_payload_def Let_def cert_view_def)
qed

lemma cert_stop:
  assumes "cert_inv s"
  shows "cert_inv (stop s)"
proof -
  have "cert_inv (s\<lparr>bn_jobs := filter (\<lambda>j. \<not> cancelled j) (bn_jobs s)\<rparr>)" by (rule cert_jobs [OF assms]) auto
  moreover have "cert_view (stop s) = cert_view (s\<lparr>bn_jobs := filter (\<lambda>j. \<not> cancelled j) (bn_jobs s)\<rparr>)"
    if "\<not> bn_closed s" using that by (simp add: stop_def cert_view_def)
  moreover have "stop s = s" if "bn_closed s" using that by (simp add: stop_def)
  ultimately show ?thesis using assms cert_inv_view by metis
qed

text \<open>The topology is read once, before the run.\<close>

definition is_start :: "event \<Rightarrow> bool" where
  "is_start e \<longleftrightarrow> (case e of Start t \<Rightarrow> True | _ \<Rightarrow> False)"

lemma cert_gossip:
  assumes "cert_inv s"
  shows "cert_inv (gossip_progress s)"
proof -
  have "cert_inv (broadcast m t) = cert_inv t" for m t by (rule cert_inv_view) simp
  with assms show ?thesis
    by (simp add: gossip_progress_def Let_def cert_schedule split: option.split)
qed

lemma cert_step:
  assumes "cert_inv s" and "\<not> is_start e"
  shows "cert_inv (bft_step s e)"
proof -
  have same: "cert_inv t" if "cert_view t = cert_view s" for t using that assms(1) cert_inv_view by blast
  have "cert_view (snd (flush_quarantine x s)) = cert_view s" "cert_view (set_partition ps s) = cert_view s"
    "cert_view (s\<lparr>bn_journal := f\<rparr>) = cert_view s" for x ps f
    by (simp_all add: cert_view_def flush_quarantine_def set_partition_def)
  then show ?thesis
    using assms cert_deliver [OF assms(1)] cert_take_job [OF assms(1)] cert_submit [OF assms(1)]
      cert_stop [OF assms(1)] cert_gossip [OF assms(1)]
    by (cases e) (simp_all add: is_start_def same handle_inbound_def dial_peer_def)
qed

lemma cert_run: "cert_inv s \<Longrightarrow> \<forall>e \<in> set es. \<not> is_start e \<Longrightarrow> cert_inv (bft_run s es)"
  unfolding bft_run_def by (induction es arbitrary: s) (auto simp: cert_step)

section \<open>Futures that nobody resolves\<close>

text \<open>
  A future that is registered while a commit is in progress is filed under a height that is
  already decided: its list of waiters was taken before.
\<close>

definition forgotten :: "nat \<Rightarrow> bft \<Rightarrow> bool" where
  "forgotten fut s \<longleftrightarrow>
     fut < length (bn_futures s) \<and> bn_futures s ! fut = None \<and>
     (\<forall>i ws. dget (bn_waiters s) i = Some ws \<longrightarrow> fut \<in> set ws \<longrightarrow>
        i < h_index (bn_height s) \<or> i = h_index (bn_height s) \<and> h_committed (bn_height s)) \<and>
     (\<forall>og b cs ws. Finish_Commit og b cs ws \<in> set (bn_jobs s) \<longrightarrow> fut \<notin> set ws)"

definition fut_view :: "bft \<Rightarrow> lblock option list \<times> (int, nat list) dict \<times> int \<times> bool \<times> job set" where
  "fut_view s = (bn_futures s, bn_waiters s, h_index (bn_height s), h_committed (bn_height s),
     {j \<in> set (bn_jobs s). finish_block j \<noteq> None})"

lemma forgotten_view:
  assumes "fut_view s = fut_view t"
  shows "forgotten fut s = forgotten fut t"
proof -
  have "Finish_Commit og b cs ws \<in> set (bn_jobs s) \<longleftrightarrow> Finish_Commit og b cs ws \<in> set (bn_jobs t)" for og b cs ws
  proof -
    have "Finish_Commit og b cs ws \<in> {j \<in> set (bn_jobs s). finish_block j \<noteq> None} \<longleftrightarrow>
        Finish_Commit og b cs ws \<in> {j \<in> set (bn_jobs t). finish_block j \<noteq> None}"
      using assms by (simp only: fut_view_def prod.inject)
    then show ?thesis by simp
  qed
  then show ?thesis using assms by (simp add: forgotten_def fut_view_def)
qed

lemma fut_view_simps [simp]:
  "fut_view (record_orphaned k p d s) = fut_view s" "fut_view (record_guarded k p d s) = fut_view s"
  "fut_view (set_conn c f s) = fut_view s" "fut_view (close_conn c s) = fut_view s"
  "fut_view (quarantine_peer q s) = fut_view s" "fut_view (end_job og s) = fut_view s"
  "fut_view (s\<lparr>bn_peers := ps\<rparr>) = fut_view s" "fut_view (add_pending i cd s) = fut_view s"
  "fut_view (send_raw c m s) = fut_view s"
  "fut_view (s\<lparr>bn_height := (bn_height s)\<lparr>h_prepares := A\<rparr>\<rparr>) = fut_view s"
  "fut_view (s\<lparr>bn_height := (bn_height s)\<lparr>h_commits := A\<rparr>\<rparr>) = fut_view s"
  "fut_view (s\<lparr>bn_height := (bn_height s)\<lparr>h_proposal := pr, h_prepares := A\<rparr>\<rparr>) = fut_view s"
  by (simp_all add: fut_view_def record_orphaned_def record_guarded_def set_conn_def close_conn_def quarantine_peer_def
      end_job_def add_pending_def send_raw_def split: option.splits origin.splits)

lemma fut_view_jobs [simp]:
  "finish_block j = None \<Longrightarrow> fut_view (add_job j s) = fut_view s"
  "fut_view (schedule i s) = fut_view s"
  by (auto simp: fut_view_def add_job_def schedule_def)

lemma fut_view_broadcast [simp]: "fut_view (broadcast m s) = fut_view s"
proof -
  have "fut_view (foldl (\<lambda>t c. send_raw c m t) s cs) = fut_view s" for cs
    by (induction cs arbitrary: s) auto
  then show ?thesis by (simp add: broadcast_def)
qed

lemma fut_view_send_to [simp]: "fut_view (send_to_peer p m s) = fut_view s"
  by (simp add: send_to_peer_def split: option.splits)

lemma fut_view_reader_end [simp]: "fut_view (reader_end c s) = fut_view s"
  by (simp add: reader_end_def Let_def split: option.splits)

lemma fut_view_reader_failed [simp]: "fut_view (reader_failed c e s) = fut_view s"
  by (simp add: reader_failed_def quarantine_connection_def Let_def split: bft_exc.splits option.splits)

lemma fut_view_settle [simp]: "fut_view (settle og r) = fut_view (snd r)"
  by (simp add: settle_def split: prod.splits sum.splits origin.splits)

lemma fut_view_open [simp]: "fut_view (open_conn a ob s) = fut_view s"
  by (simp add: open_conn_def Let_def) (simp add: fut_view_def)

lemma fut_view_accept: "fut_view (snd (accept_proposal b c s)) = fut_view s"
  by (simp add: accept_proposal_def Let_def split: option.split)

lemma fut_view_on_message: "fut_view (snd (on_message msg c s)) = fut_view s"
proof -
  have "fut_view (snd (handle_hello msg c s)) = fut_view s"
    unfolding handle_hello_def Let_def by (auto split: option.split)
  moreover have "fut_view (snd (handle_propose_request msg c s)) = fut_view s"
    unfolding handle_propose_request_def Let_def by (simp split: jval.split)
  moreover have "fut_view (snd (handle_propose_block msg c s)) = fut_view s"
  proof (cases "coerce_block (jget msg ''block'')")
    case (Some b)
    have "fut_view (snd (verify_pre_prepare b pid s)) = fut_view s" for pid
      by (simp add: verify_pre_prepare_def split: jval.splits sum.splits)
    then have "fut_view (snd (case verify_pre_prepare b pid s of
        (Inl e, s1) \<Rightarrow> (Inl e, s1) | (Inr x, s1) \<Rightarrow> accept_proposal b c s1)) = fut_view s" for pid
      using fut_view_accept by (metis (no_types, lifting) prod.case_eq_if snd_conv sum.case_eq_if)
    with Some show ?thesis by (simp add: handle_propose_block_def Let_def)
  qed (simp add: handle_propose_block_def)
  moreover have "fut_view (snd (handle_prepare msg c s)) = fut_view s"
    unfolding handle_prepare_def Let_def by (auto split: option.split)
  moreover have "fut_view (snd (handle_commit msg c s)) = fut_view s"
    unfolding handle_commit_def Let_def by (auto split: option.split)
  ultimately show ?thesis by (simp add: on_message_def split: jval.split)
qed

lemma set_future_skip: "fut \<notin> set ws \<Longrightarrow> foldl (set_future b) fs ws ! fut = fs ! fut"
  by (induction ws arbitrary: fs) (auto simp: set_future_def)

lemma length_set_future: "length (foldl (set_future b) fs ws) = length fs"
  by (induction ws arbitrary: fs) (auto simp: set_future_def)

lemma forgottenD:
  assumes "forgotten fut s" and "dget (bn_waiters s) i = Some ws" and "fut \<in> set ws"
  shows "i \<le> h_index (bn_height s)" and "i = h_index (bn_height s) \<Longrightarrow> h_committed (bn_height s)"
  using assms unfolding forgotten_def by fastforce+

lemma forgotten_commit_block:
  assumes "forgotten fut s"
  shows "forgotten fut (snd (commit_block og b s))"
proof (cases "commit_ready b s")
  case False
  then have "fut_view (snd (commit_block og b s)) = fut_view s"
    by (auto simp: commit_block_def commit_ready_def Let_def)
  with assms show ?thesis using forgotten_view by blast
next
  case True
  let ?h = "bn_height s"
  let ?ws = "case dget (bn_waiters s) (h_index ?h) of None \<Rightarrow> [] | Some w \<Rightarrow> w"
  have fresh: "fut \<notin> set ?ws"
    using forgottenD(2) [OF assms, of "h_index ?h"] True
    by (cases "dget (bn_waiters s) (h_index ?h)") (auto simp: commit_ready_def)
  have "snd (commit_block og b s) = s\<lparr>bn_jobs := bn_jobs s @ [Finish_Commit og b (pending_at (h_index ?h) s) ?ws],
      bn_height := ?h\<lparr>h_committed := True\<rparr>, bn_waiters := dpop (h_index ?h) (bn_waiters s)\<rparr>"
    using True by (simp add: commit_block_def commit_ready_def Let_def add_job_def)
  then show ?thesis
    using assms fresh True by (auto simp: forgotten_def dget_dpop commit_ready_def split: if_splits)
qed

lemma forgotten_finish:
  assumes "forgotten fut s" and "fut \<notin> set ws"
  shows "forgotten fut (finish_commit og b cs ws s)"
proof -
  let ?s1 = "s\<lparr>bn_ledger := journal_append (bn_ledger s) (lb_json b)\<rparr>"
  let ?s2 = "foldl (orphan_candidate b) ?s1 cs"
  let ?i = "h_index (bn_height s)"
  have "fut_view (foldl (orphan_candidate b) t cs) = fut_view t" for t
    by (induction cs arbitrary: t) (simp_all add: orphan_candidate_def)
  from this [of ?s1] have v: "bn_futures ?s2 = bn_futures s" "bn_waiters ?s2 = bn_waiters s"
    "h_index (bn_height ?s2) = ?i"
    "{j \<in> set (bn_jobs ?s2). finish_block j \<noteq> None} = {j \<in> set (bn_jobs s). finish_block j \<noteq> None}"
    by (simp_all add: fut_view_def)
  let ?t = "s\<lparr>bn_futures := foldl (set_future b) (bn_futures s) ws, bn_height := new_height (?i + 1) (lb_hash b)\<rparr>"
  have t: "forgotten fut ?t"
    using assms forgottenD(1) [OF assms(1)]
    by (simp add: forgotten_def length_set_future set_future_skip new_height_def)
  have "fut_view (finish_commit og b cs ws s) = fut_view ?t"
    using v by (auto simp: finish_commit_def Let_def fut_view_def schedule_def new_height_def end_job_def split: origin.splits)
  with t show ?thesis using forgotten_view by blast
qed

lemma forgotten_submit:
  assumes "forgotten fut s"
  shows "forgotten fut (snd (submit_payload p s))"
proof (cases "bn_started s")
  case True
  let ?i = "h_index (bn_height s)"
  define s1 where "s1 = s\<lparr>bn_futures := bn_futures s @ [None], bn_waiters := dput ?i
      ((case dget (bn_waiters s) ?i of None \<Rightarrow> [] | Some w \<Rightarrow> w) @ [length (bn_futures s)]) (bn_waiters s)\<rparr>"
  have s1: "forgotten fut s1"
    using assms forgottenD [OF assms] unfolding forgotten_def s1_def
    by (cases "dget (bn_waiters s) ?i") (auto simp: nth_append dget_dput split: if_splits)
  have "fut_view (snd (submit_payload p s)) = fut_view s1"
    using True by (simp add: submit_payload_def Let_def s1_def [symmetric] submit_candidate_def)
  with s1 show ?thesis using forgotten_view by blast
qed (simp add: submit_payload_def assms)

lemma forgotten_stop: "forgotten fut s \<Longrightarrow> forgotten fut (stop s)"
  by (auto simp: forgotten_def stop_def)

lemma forgotten_take_job:
  assumes "forgotten fut s"
  shows "forgotten fut (take_job k s)"
proof (cases "k < length (bn_jobs s)")
  case True
  let ?j = "bn_jobs s ! k" and ?t = "s\<lparr>bn_jobs := take k (bn_jobs s) @ drop (Suc k) (bn_jobs s)\<rparr>"
  have mem: "?j \<in> set (bn_jobs s)" using True by simp
  have t: "forgotten fut ?t"
    using assms by (auto simp: forgotten_def dest: in_set_takeD in_set_dropD)
  have same: "forgotten fut u" if "fut_view u = fut_view ?t" for u using that t forgotten_view by blast
  have "forgotten fut (run_job ?j ?t)"
  proof (cases ?j)
    case (Propose i)
    have "fut_view (propose_after_grace i u) = fut_view u" for u
      by (simp add: propose_after_grace_def Let_def) (simp add: fut_view_def)
    with Propose show ?thesis by (simp add: run_job_def same)
  next
    case (Maybe_Commit og i b)
    have "fut_view (maybe_commit og i b u) = fut_view u" for u
      by (simp add: maybe_commit_def Let_def)
    with Maybe_Commit show ?thesis by (simp add: run_job_def same)
  next
    case (Commit_Block og b)
    then show ?thesis
      using forgotten_commit_block [OF t, of og b] forgotten_view [OF fut_view_settle] by (simp add: run_job_def)
  next
    case (Finish_Commit og b cs ws)
    then have "fut \<notin> set ws" using assms mem unfolding forgotten_def by metis
    with Finish_Commit t show ?thesis by (simp add: run_job_def forgotten_finish)
  qed
  with True show ?thesis by (simp add: take_job_def)
qed (simp add: take_job_def assms)

lemma fut_view_misc:
  "fut_view (snd (flush_quarantine x s)) = fut_view s" "fut_view (set_partition ps s) = fut_view s"
  "fut_view (s\<lparr>bn_journal := f\<rparr>) = fut_view s" "fut_view (snd (start tp s)) = fut_view s"
  by (simp_all add: fut_view_def flush_quarantine_def set_partition_def start_def Let_def split: sum.split prod.split)

lemma fut_view_gossip: "fut_view (gossip_progress s) = fut_view s"
  by (simp add: gossip_progress_def Let_def split: option.split)

lemma fut_view_deliver: "fut_view (deliver c msg s) = fut_view s"
  by (simp add: deliver_def fut_view_on_message split: option.split)

lemmas fut_views = fut_view_misc fut_view_gossip fut_view_deliver

lemma forgotten_step:
  assumes "forgotten fut s"
  shows "forgotten fut (bft_step s e)"
proof -
  have same: "forgotten fut t" if "fut_view t = fut_view s" for t using that assms forgotten_view by blast
  show ?thesis
    using assms forgotten_take_job [OF assms] forgotten_submit [OF assms] forgotten_stop [OF assms]
    by (cases e) (simp_all add: same handle_inbound_def dial_peer_def fut_views)
qed

lemma forgotten_run: "forgotten fut s \<Longrightarrow> forgotten fut (bft_run s es)"
  unfolding bft_run_def by (induction es arbitrary: s) (auto simp: forgotten_step)

text \<open>Every registered future exists.\<close>

definition fut_ok :: "bft \<Rightarrow> bool" where
  "fut_ok s \<longleftrightarrow>
     (\<forall>i ws w. dget (bn_waiters s) i = Some ws \<longrightarrow> w \<in> set ws \<longrightarrow> w < length (bn_futures s)) \<and>
     (\<forall>og b cs ws w. Finish_Commit og b cs ws \<in> set (bn_jobs s) \<longrightarrow> w \<in> set ws \<longrightarrow> w < length (bn_futures s))"

lemma fut_okD:
  assumes "fut_ok s"
  shows "dget (bn_waiters s) i = Some ws \<Longrightarrow> w \<in> set ws \<Longrightarrow> w < length (bn_futures s)"
    and "Finish_Commit og b cs ws \<in> set (bn_jobs s) \<Longrightarrow> w \<in> set ws \<Longrightarrow> w < length (bn_futures s)"
  using assms unfolding fut_ok_def by blast+

lemma fut_ok_view:
  assumes "fut_view s = fut_view t"
  shows "fut_ok s = fut_ok t"
proof -
  have "Finish_Commit og b cs ws \<in> set (bn_jobs s) \<longleftrightarrow> Finish_Commit og b cs ws \<in> set (bn_jobs t)" for og b cs ws
    using assms unfolding fut_view_def by (metis (mono_tags, lifting) finish_block.simps(1) mem_Collect_eq option.discI prod.inject)
  then show ?thesis using assms by (simp add: fut_ok_def fut_view_def)
qed

lemma fut_ok_commit_block:
  assumes "fut_ok s"
  shows "fut_ok (snd (commit_block og b s))"
proof (cases "commit_ready b s")
  case False
  then have "fut_view (snd (commit_block og b s)) = fut_view s"
    by (auto simp: commit_block_def commit_ready_def Let_def)
  with assms show ?thesis using fut_ok_view by blast
next
  case True
  let ?h = "bn_height s"
  let ?ws = "case dget (bn_waiters s) (h_index ?h) of None \<Rightarrow> [] | Some w \<Rightarrow> w"
  have "snd (commit_block og b s) = s\<lparr>bn_jobs := bn_jobs s @ [Finish_Commit og b (pending_at (h_index ?h) s) ?ws],
      bn_height := ?h\<lparr>h_committed := True\<rparr>, bn_waiters := dpop (h_index ?h) (bn_waiters s)\<rparr>"
    using True by (simp add: commit_block_def commit_ready_def Let_def add_job_def)
  moreover have "w < length (bn_futures s)" if "w \<in> set ?ws" for w
    using that fut_okD(1) [OF assms, of "h_index ?h"] by (cases "dget (bn_waiters s) (h_index ?h)") auto
  ultimately show ?thesis
    using assms unfolding fut_ok_def by (simp add: dget_dpop)
qed

lemma fut_ok_finish:
  assumes "fut_ok s"
  shows "fut_ok (finish_commit og b cs ws s)"
proof -
  let ?s1 = "s\<lparr>bn_ledger := journal_append (bn_ledger s) (lb_json b)\<rparr>"
  let ?s2 = "foldl (orphan_candidate b) ?s1 cs"
  let ?i = "h_index (bn_height s)"
  have "fut_view (foldl (orphan_candidate b) t cs) = fut_view t" for t
    by (induction cs arbitrary: t) (simp_all add: orphan_candidate_def)
  from this [of ?s1] have v: "bn_futures ?s2 = bn_futures s" "bn_waiters ?s2 = bn_waiters s"
    "h_index (bn_height ?s2) = ?i"
    "{j \<in> set (bn_jobs ?s2). finish_block j \<noteq> None} = {j \<in> set (bn_jobs s). finish_block j \<noteq> None}"
    by (simp_all add: fut_view_def)
  let ?t = "s\<lparr>bn_futures := foldl (set_future b) (bn_futures s) ws, bn_height := new_height (?i + 1) (lb_hash b)\<rparr>"
  have t: "fut_ok ?t" using assms unfolding fut_ok_def by (simp add: length_set_future)
  have "fut_view (finish_commit og b cs ws s) = fut_view ?t"
    using v by (auto simp: finish_commit_def Let_def fut_view_def schedule_def new_height_def end_job_def split: origin.splits)
  with t show ?thesis using fut_ok_view by blast
qed

lemma fut_ok_submit:
  assumes "fut_ok s"
  shows "fut_ok (snd (submit_payload p s))"
proof (cases "bn_started s")
  case True
  let ?i = "h_index (bn_height s)"
  define s1 where "s1 = s\<lparr>bn_futures := bn_futures s @ [None], bn_waiters := dput ?i
      ((case dget (bn_waiters s) ?i of None \<Rightarrow> [] | Some w \<Rightarrow> w) @ [length (bn_futures s)]) (bn_waiters s)\<rparr>"
  have "w < Suc (length (bn_futures s))"
    if "w \<in> set ((case dget (bn_waiters s) ?i of None \<Rightarrow> [] | Some w \<Rightarrow> w) @ [length (bn_futures s)])" for w
    using that fut_okD(1) [OF assms, of ?i] by (cases "dget (bn_waiters s) ?i") (auto simp: less_Suc_eq)
  moreover have "w < Suc (length (bn_futures s))" if "dget (bn_waiters s) i = Some ws" "w \<in> set ws" for i ws w
    using fut_okD(1) [OF assms that] by simp
  moreover have "w < Suc (length (bn_futures s))" if "Finish_Commit og b cs ws \<in> set (bn_jobs s)" "w \<in> set ws" for og b cs ws w
    using fut_okD(2) [OF assms that] by simp
  ultimately have s1: "fut_ok s1" unfolding fut_ok_def s1_def by (auto simp: dget_dput split: if_splits)
  have "fut_view (snd (submit_payload p s)) = fut_view s1"
    using True by (simp add: submit_payload_def Let_def s1_def [symmetric] submit_candidate_def)
  with s1 show ?thesis using fut_ok_view by blast
qed (simp add: submit_payload_def assms)

lemma fut_ok_run_job:
  assumes "fut_ok s"
  shows "fut_ok (run_job j s)"
proof -
  have same: "fut_ok u" if "fut_view u = fut_view s" for u using that assms fut_ok_view by blast
  have "fut_view (propose_after_grace i s) = fut_view s" for i
    by (simp add: propose_after_grace_def Let_def) (simp add: fut_view_def)
  moreover have "fut_view (maybe_commit og i b s) = fut_view s" for og i b
    by (simp add: maybe_commit_def Let_def)
  moreover have "fut_ok (settle og (commit_block og b s))" for og b
    using fut_ok_commit_block [OF assms] fut_ok_view [OF fut_view_settle] by blast
  ultimately show ?thesis by (cases j) (simp_all add: run_job_def same fut_ok_finish assms)
qed

lemma fut_ok_step:
  assumes "fut_ok s"
  shows "fut_ok (bft_step s e)"
proof -
  have same: "fut_ok t" if "fut_view t = fut_view s" for t using that assms fut_ok_view by blast
  have sub: "fut_ok (s\<lparr>bn_jobs := js\<rparr>)" if "set js \<subseteq> set (bn_jobs s)" for js
    using assms that unfolding fut_ok_def by (simp add: subset_iff) blast
  have "fut_ok (take_job k s)" for k
    using assms fut_ok_run_job [OF sub, of "take k (bn_jobs s) @ drop (Suc k) (bn_jobs s)"]
    by (simp add: take_job_def set_take_subset set_drop_subset)
  moreover have "fut_ok (stop s)" using assms by (auto simp: stop_def fut_ok_def)
  ultimately show ?thesis
    using assms fut_ok_submit [OF assms]
    by (cases e) (simp_all add: same handle_inbound_def dial_peer_def fut_views)
qed

lemma fut_ok_run: "fut_ok s \<Longrightarrow> fut_ok (bft_run s es)"
  unfolding bft_run_def by (induction es arbitrary: s) (auto simp: fut_ok_step)

lemma fut_ok_new: "fut_ok (new_node nid token ir jp et clock lg orph jr)"
  by (simp add: fut_ok_def new_node_def split: prod.split)

section \<open>Quorums\<close>

lemma quorum_threshold: "n + (n - 1) div 3 < 2 * quorum_size n \<longleftrightarrow> n mod 3 = 1" if "n > 0" for n
  using that unfolding quorum_size_def by presburger

interpretation consensus_quorum: threshold_quorum "3 * f + 1" f "quorum_size (3 * f + 1)" for f
  by unfold_locales (simp_all add: quorum_size_def)

section \<open>A sample cluster\<close>

text \<open>A cluster of one node \<open>b\<close>, and the rules that evaluate its runs.\<close>

definition demo_topology :: jval where
  "demo_topology = JObj [(''nodes'', JArr [JObj [(''id'', JStr ''b''), (''host'', JStr ''h''), (''port'', JInt 1)]])]"

definition demo_node :: bft where
  "demo_node = new_node ''b'' ''tok'' True ''j'' ''err'' (\<lambda>n. ''t'') None None None"

definition demo_hello :: jdict where
  "demo_hello = [(''type'', JStr ''HELLO''), (''from'', JStr ''a''), (''cluster_id'', JStr ''cluster'')]"

lemma build_block_fields:
  "lb_index (build_block ts i token prev p) = i" "lb_prev (build_block ts i token prev p) = prev"
  by (simp_all add: build_block_def Let_def)

lemmas bft_eval = bft_run_def build_block_fields start_def demo_topology_def demo_node_def demo_hello_def load_topology_def or_else_def
  topo_node_def int_of_def List.map_filter_simps new_node_def consensus_tail_def submit_payload_def Let_def
  submit_candidate_def add_pending_def leader_for_index_def pending_at_def schedule_def take_job_def run_job_def
  propose_after_grace_def new_height_def broadcast_def dvalues_def add_job_def maybe_commit_def quorum_def
  quorum_size_def commit_block_def settle_def py_simps handle_inbound_def open_conn_def send_raw_def
  deliver_def on_message_def handle_hello_def eq_str_def peer_is_blocked_def set_conn_def is_outbound_def

lemma demo_sent:
  "sent (bft_run demo_node [Start demo_topology, Inbound ''x'', Deliver 0 demo_hello, Submit [], Run 0]) 0
     (lb_hash (build_block ''t'' 0 ''tok'' genesis_prev []))"
  by (simp add: bft_eval sent_def) blast

section \<open>Properties\<close>





text \<open>C27: with \<open>3 f + 1\<close> nodes of which at most \<open>f\<close> are faulty, two prepare quorums at one height
  are for the same block, when every vote of a correct node in them was sent by it.\<close>

theorem quorums_agree:
  assumes "finite V" and "card V = 3 * f + 1" and "F \<subseteq> V" and "card F \<le> f"
    and "A \<subseteq> V" and "quorum_size (card V) \<le> card A" and "B \<subseteq> V" and "quorum_size (card V) \<le> card B"
    and "\<And>v. v \<in> V - F \<Longrightarrow> \<exists>nid token ir jp et clock lg orph jr es.
      state v = bft_run (new_node nid token ir jp et clock lg orph jr) es"
    and "\<And>v. v \<in> A - F \<Longrightarrow> sent (state v) i h" and "\<And>v. v \<in> B - F \<Longrightarrow> sent (state v) i h'"
  shows "h = h'"
proof -
  obtain v where v: "v \<in> A" "v \<in> B" "v \<notin> F"
    using consensus_quorum.correct_in_common [of V f A B F] assms(1-8) by auto
  with assms(5) have "v \<in> V - F" by auto
  with assms(9) have "vote_inv (state v)" using vote_run [OF vote_new] by metis
  moreover have "sent (state v) i h" "sent (state v) i h'" using v assms(10,11) by auto
  ultimately show ?thesis unfolding vote_inv_def by blast
qed

theorem quorums_agree_witness:
  "\<exists>s h. s = bft_run demo_node [Start demo_topology, Inbound ''x'', Deliver 0 demo_hello, Submit [], Run 0] \<and>
     sent s 0 h \<and> (\<nexists>h'. sent s 0 h' \<and> h' \<noteq> h)"
proof -
  let ?s = "bft_run demo_node [Start demo_topology, Inbound ''x'', Deliver 0 demo_hello, Submit [], Run 0]"
  have h: "sent ?s 0 (lb_hash (build_block ''t'' 0 ''tok'' genesis_prev []))" by (rule demo_sent)
  have r: "\<exists>nid token ir jp et clock lg orph jr es. ?s = bft_run (new_node nid token ir jp et clock lg orph jr) es"
    unfolding demo_node_def by blast
  have "x = lb_hash (build_block ''t'' 0 ''tok'' genesis_prev [])" if "sent ?s 0 x" for x
    by (rule quorums_agree [of "{''b''}" 0 "{}" "{''b''}" "{''b''}" "\<lambda>v. ?s" 0, OF _ _ _ _ _ _ _ _ r that h])
      (simp_all add: quorum_size_def)
  with h show ?thesis by blast
qed

text \<open>two quorums of the node overlap in more than the tolerated number of faulty nodes exactly
  when the cluster has \<open>3 f + 1\<close> nodes; the quorum of a cluster of another size does not
  give agreement.\<close>

theorem quorum_overlap_iff:
  "Suc m + m div 3 < 2 * quorum_size (Suc m) \<longleftrightarrow> Suc m mod 3 = 1"
  using quorum_threshold [of "Suc m"] by simp



text \<open>a payload submitted while the node is finishing a commit is lost: the future its caller
  waits for is never resolved, whatever happens later.\<close>

theorem submission_during_commit_lost:
  assumes "s = bft_run (new_node nid token ir jp et clock lg orph jr) es" and "h_committed (bn_height s)"
    and "submit_payload p s = (Inr fut, s1)"
  shows "bn_futures (bft_run s1 es') ! fut = None"
proof -
  let ?i = "h_index (bn_height s)"
  define s' where "s' = s\<lparr>bn_futures := bn_futures s @ [None], bn_waiters := dput ?i
      ((case dget (bn_waiters s) ?i of None \<Rightarrow> [] | Some w \<Rightarrow> w) @ [length (bn_futures s)]) (bn_waiters s)\<rparr>"
  have fut: "fut = length (bn_futures s)" and v: "fut_view s1 = fut_view s'"
    using assms(3) by (auto simp: submit_payload_def Let_def s'_def [symmetric] submit_candidate_def split: if_splits)
  have ok: "fut_ok s" unfolding assms(1) by (rule fut_ok_run [OF fut_ok_new])
  have "i < ?i" if "i \<noteq> ?i" "dget (bn_waiters s) i = Some ws" "fut \<in> set ws" for i ws
    using fut_okD(1) [OF ok that(2,3)] fut by simp
  moreover have "fut \<notin> set ws" if "Finish_Commit og b cs ws \<in> set (bn_jobs s)" for og b cs ws
    using fut_okD(2) [OF ok that, of fut] fut by auto
  ultimately have "forgotten fut s'"
    using assms(2) unfolding forgotten_def s'_def fut by (auto simp: dget_dput split: if_splits)
  then have "forgotten fut s1" using v forgotten_view by blast
  from forgotten_run [OF this, of es'] show ?thesis by (simp add: forgotten_def)
qed

theorem submission_during_commit_lost_witness:
  "\<exists>s s1. s = bft_run demo_node [Start demo_topology, Submit [], Run 0, Run 0, Run 0] \<and>
     submit_payload [] s = (Inr 1, s1) \<and> bn_futures (bft_run s1 [Run 0]) ! 1 = None"
proof -
  let ?s = "bft_run demo_node [Start demo_topology, Submit [], Run 0, Run 0, Run 0]"
  have "h_committed (bn_height ?s)" by (simp add: bft_eval)
  moreover obtain s1 where "submit_payload [] ?s = (Inr 1, s1)" by (simp add: bft_eval)
  ultimately show ?thesis
    using submission_during_commit_lost [of ?s "''b''" "''tok''" True "''j''" "''err''" "\<lambda>n. ''t''" None None None]
    unfolding demo_node_def by blast
qed

text \<open>when the logs lie inside the repository, a fraudulent rollup proposal leaves no fraud
  record: the write guard refuses the log that the handler writes to.\<close>

theorem fraud_record_suppressed:
  assumes "bn_logs_in_repo s"
  shows "bn_orphaned (snd (verify_pre_prepare b pid s)) = bn_orphaned s"
  using assms by (simp add: verify_pre_prepare_def record_guarded_def split: jval.split sum.split)

theorem fraud_record_suppressed_witness:
  "bn_orphaned (snd (verify_pre_prepare
     (build_block ''t'' 0 ''tok'' genesis_prev [(''kind'', JStr ''ROLLUP_BLOCK'')]) None demo_node)) = None"
  using fraud_record_suppressed [of demo_node "build_block ''t'' 0 ''tok'' genesis_prev [(''kind'', JStr ''ROLLUP_BLOCK'')]" None]
  by (simp add: demo_node_def new_node_def split: prod.split)

text \<open>a peer whose id is not in the topology can join by its greeting and its votes are
  counted like those of a member.\<close>

theorem outsider_vote_counted:
  assumes "dget (bn_conns s) c = Some cn" and "c_open cn" and "\<not> bn_closed s"
    and "Reader c \<notin> set (map job_origin (bn_jobs s))" and "c_outbound cn = (bn_id s < p)"
    and "p \<noteq> []" and "p \<noteq> bn_id s" and "\<not> peer_is_blocked p s" and "dget (bn_peers s) p = None"
    and "h_proposal (bn_height s) = Some b" and "looks_like_hash (lb_hash b) 64"
    and "p \<notin> set (map tn_id (bn_nodes s))"
  shows "p \<in> h_prepares (bn_height (bft_run s
    [Deliver c [(''type'', JStr ''HELLO''), (''from'', JStr p), (''cluster_id'', JStr (bn_cluster s))],
     Deliver c (vote_msg ''PREPARE'' p (h_index (bn_height s)) (lb_hash b))]))"
proof -
  let ?hello = "[(''type'', JStr ''HELLO''), (''from'', JStr p), (''cluster_id'', JStr (bn_cluster s))]"
  define s1 where "s1 = s\<lparr>bn_conns := dput c (cn\<lparr>c_peer := Some p\<rparr>) (bn_conns s), bn_peers := dput p c (bn_peers s)\<rparr>"
  have "handle_hello ?hello c s = (Inr (), s1)"
    using assms(1,5-9) by (simp add: handle_hello_def eq_str_def set_conn_def is_outbound_def s1_def)
  then have "deliver c ?hello s = s1"
    using assms(1-4) by (simp add: deliver_def on_message_def settle_def)
  moreover have "p \<in> h_prepares (bn_height (deliver c (vote_msg ''PREPARE'' p (h_index (bn_height s)) (lb_hash b)) s1))"
    using assms(2-4,6,10,11)
    by (simp add: deliver_def s1_def on_message_def vote_msg_def peer_of_def settle_def handle_prepare_def vote_of_def
        int_of_def add_peer_def add_job_def Let_def)
  ultimately show ?thesis by (simp add: bft_run_def)
qed

theorem outsider_vote_counted_witness:
  "\<exists>s (b :: lblock). s = bft_run demo_node [Start demo_topology, Inbound ''x'', Submit [], Run 0] \<and>
     ''a'' \<in> h_prepares (bn_height (bft_run s [Deliver 0 demo_hello, Deliver 0 (vote_msg ''PREPARE'' ''a'' 0 (lb_hash b))]))"
proof -
  define s where "s = bft_run demo_node [Start demo_topology, Inbound ''x'', Submit [], Run 0]"
  define b where "b = build_block ''t'' 0 ''tok'' genesis_prev []"
  have h: "looks_like_hash (lb_hash b) 64"
    by (simp add: b_def build_block_def Let_def compute_block_hash_def looks_like_hash_sha256)
  let ?cn = "\<lparr>c_addr = ''x'', c_outbound = False, c_peer = None, c_quarantined = False, c_open = True\<rparr>"
  have f: "bn_cluster s = ''cluster''" "h_index (bn_height s) = 0" "bn_id s = ''b''" by (simp_all add: s_def bft_eval)
  have a: "dget (bn_conns s) 0 = Some ?cn" by (simp add: s_def bft_eval)
  have b1: "\<not> bn_closed s" by (simp add: s_def bft_eval)
  have b2: "Reader 0 \<notin> set (map job_origin (bn_jobs s))" by (simp add: s_def bft_eval)
  have b4: "\<not> peer_is_blocked ''a'' s" by (simp add: s_def bft_eval)
  have b5: "dget (bn_peers s) ''a'' = None" by (simp add: s_def bft_eval)
  have b6: "h_proposal (bn_height s) = Some b" by (simp add: s_def b_def bft_eval)
  have b7: "''a'' \<notin> set (map tn_id (bn_nodes s))" by (simp add: s_def bft_eval)
  have lt: "c_outbound ?cn = (bn_id s < ''a'')" unfolding f by simp
  have ne: "c_open ?cn" "''a'' \<noteq> []" "''a'' \<noteq> bn_id s" unfolding f by simp_all
  note outsider_vote_counted [OF a ne(1) b1 b2 lt ne(2,3) b4 b5 b6 h b7]
  then have "''a'' \<in> h_prepares (bn_height (bft_run s
      [Deliver 0 demo_hello, Deliver 0 (vote_msg ''PREPARE'' ''a'' 0 (lb_hash b))]))"
    unfolding f demo_hello_def .
  note vote = this
  show ?thesis by (rule exI [of _ s], rule exI [of _ b], rule conjI [OF s_def vote])
qed

end
