(* ===== verification/Bounded_Log.thy ===== *)
theory Bounded_Log
  imports Prelude
begin

text \<open>
  Bounded logs: a \<^verbatim>\<open>deque(maxlen=n)\<close> drops its oldest entry when it is full, and
  \<^verbatim>\<open>xs[-n:]\<close> looks at the last \<open>n\<close> entries of a list. The locale states what a
  component with such a buffer promises: the buffer is always the last entries of everything
  that was pushed.
\<close>

definition keep_last :: "nat \<Rightarrow> 'a list \<Rightarrow> 'a list" where
  "keep_last n xs = drop (length xs - n) xs"

lemma keep_last_short [simp]: "length xs \<le> n \<Longrightarrow> keep_last n xs = xs"
  by (simp add: keep_last_def)

lemma length_keep_last [simp]: "length (keep_last n xs) = min n (length xs)"
  by (simp add: keep_last_def)

lemma keep_last_snoc: "length xs < n \<Longrightarrow> keep_last n (xs @ [x]) = keep_last n xs @ [x]"
  by (simp add: keep_last_def)

lemma map_keep_last: "map f (keep_last n xs) = keep_last n (map f xs)"
  by (simp add: keep_last_def drop_map)

lemma keep_last_keep_last: "keep_last n (keep_last n xs @ ys) = keep_last n (xs @ ys)"
  by (cases "length xs \<le> n") (simp_all add: keep_last_def add.commute)

lemma keep_last_upt: "keep_last n [Suc 0..<Suc k] = [Suc (k - n)..<Suc k]"
  by (simp add: keep_last_def)

locale bounded_log =
  fixes push :: "'e \<Rightarrow> 's \<Rightarrow> 's"
    and contents :: "'s \<Rightarrow> 'e list"
    and capacity :: "'s \<Rightarrow> nat"
  assumes capacity_push: "capacity (push e s) = capacity s"
    and contents_push: "contents (push e s) = keep_last (capacity s) (contents s @ [e])"
begin

lemma contents_pushes:
  "length (contents s) \<le> capacity s \<Longrightarrow>
    contents (foldl (\<lambda>t e. push e t) s es) = keep_last (capacity s) (contents s @ es)"
proof (induction es arbitrary: s)
  case Nil
  then show ?case by simp
next
  case (Cons e es)
  then show ?case by (simp add: contents_push capacity_push keep_last_keep_last)
qed

lemma capacity_pushes: "capacity (foldl (\<lambda>t e. push e t) s es) = capacity s"
  by (induction es arbitrary: s) (simp_all add: capacity_push)

lemma contents_bounded:
  "length (contents s) \<le> capacity s \<Longrightarrow> length (contents (push e s)) \<le> capacity (push e s)"
  by (simp add: contents_push capacity_push)

end

end
