(* ===== verification/Json_Pretty.thy ===== *)
theory Json_Pretty
  imports Json_Reader
begin

text \<open>
  \<^verbatim>\<open>json.dumps(v, indent=2, sort_keys=True, ensure_ascii=False)\<close>, the format of the
  files a person may read: cache objects, traces, snapshots. What is written this way reads
  back as the value with its keys sorted, like the compact text.
\<close>

definition nl_indent :: "nat \<Rightarrow> string" where
  "nl_indent n = CHR 0x0A # replicate (2 * n) (CHR '' '')"

text \<open>The text at nesting depth \<open>n\<close>.\<close>

fun dumps_indent :: "nat \<Rightarrow> jval \<Rightarrow> string" where
  "dumps_indent n (JArr xs) =
     (if xs = [] then ''[]''
      else CHR ''['' # nl_indent (Suc n) @ join (CHR '','' # nl_indent (Suc n)) (map (dumps_indent (Suc n)) xs)
             @ nl_indent n @ '']'')"
| "dumps_indent n (JObj kvs) =
     (if kvs = [] then [CHR 0x7B, CHR 0x7D]
      else CHR 0x7B # nl_indent (Suc n)
             @ join (CHR '','' # nl_indent (Suc n))
                 (map (\<lambda>(k, t). quote k @ '': '' @ t)
                   (sort_key fst (map (\<lambda>kv. (fst kv, dumps_indent (Suc n) (snd kv))) kvs)))
             @ nl_indent n @ [CHR 0x7D])"
| "dumps_indent n v = dumps v"

definition file_json :: "jval \<Rightarrow> string" where
  "file_json v = dumps_indent 0 v @ [CHR 0x0A]"

abbreviation member_indent :: "nat \<Rightarrow> string \<times> jval \<Rightarrow> string" where
  "member_indent n kv \<equiv> quote (fst kv) @ '': '' @ dumps_indent n (snd kv)"

lemma dumps_indent_obj:
  "kvs \<noteq> [] \<Longrightarrow> dumps_indent n (JObj kvs) =
     CHR 0x7B # nl_indent (Suc n)
       @ join (CHR '','' # nl_indent (Suc n)) (map (member_indent (Suc n)) (sort_key fst kvs))
       @ nl_indent n @ [CHR 0x7D]"
  by (simp add: sort_key_map_fst comp_def case_prod_beta)

lemma skip_ws_spaces [simp]: "skip_ws (replicate n (CHR '' '') @ s) = skip_ws s"
  by (induction n) (simp_all add: skip_ws_def is_ws_def)

lemma skip_ws_indent [simp]: "skip_ws (nl_indent n @ s) = skip_ws s" "skip_ws (CHR '' '' # s) = skip_ws s"
  using skip_ws_spaces [of "2 * n" s] by (simp_all add: nl_indent_def skip_ws_def is_ws_def)

lemma delim_indent [simp]: "delim (nl_indent n @ s)"
  by (simp add: nl_indent_def)

lemma indent_head: "wf_json v \<Longrightarrow> dumps_indent n v \<noteq> [] \<and> val_head (hd (dumps_indent n v))"
  using dumps_head [of v] by (cases v) (auto simp: val_head_def is_ws_def)

lemma skip_ws_indent_val [simp]: "wf_json v \<Longrightarrow> skip_ws (dumps_indent n v @ r) = dumps_indent n v @ r"
  using indent_head [of v n] by (cases "dumps_indent n v") (auto simp: val_head_def)

lemma is_obj_canon [simp]: "is_obj (canon v) = is_obj v"
  by (cases v) simp_all

section \<open>Reading it back\<close>

definition rt_indent :: "jval \<Rightarrow> bool" where
  "rt_indent v \<longleftrightarrow> (\<forall>k n r. 2 * length (dumps_indent k v @ r) \<le> n \<longrightarrow> delim r \<longrightarrow>
     p_val n (dumps_indent k v @ r) = Some (canon v, r))"

lemma rt_indentD:
  "rt_indent v \<Longrightarrow> 2 * length (dumps_indent k v @ r) \<le> n \<Longrightarrow> delim r \<Longrightarrow>
    p_val n (dumps_indent k v @ r) = Some (canon v, r)"
  unfolding rt_indent_def by blast

lemma rt_indent_scalar: "rt_val v \<Longrightarrow> (\<And>k. dumps_indent k v = dumps v) \<Longrightarrow> rt_indent v"
  by (simp add: rt_val_def rt_indent_def)

lemma p_elems_indent:
  assumes "xs \<noteq> []" and "\<forall>x \<in> set xs. wf_json x \<and> rt_indent x"
    and "2 * length (join (CHR '','' # nl_indent k) (map (dumps_indent k) xs) @ nl_indent j @ CHR '']'' # r) < n"
  shows "p_elems n (join (CHR '','' # nl_indent k) (map (dumps_indent k) xs) @ nl_indent j @ CHR '']'' # r) =
    Some (map canon xs, r)"
  using assms
proof (induction xs arbitrary: n)
  case Nil
  then show ?case by simp
next
  case (Cons x xs)
  then obtain m where n: "n = Suc m" by (cases n) auto
  have x: "rt_indent x" using Cons.prems(2) by simp
  show ?case
  proof (cases xs)
    case Nil
    with Cons.prems n have "p_val m (dumps_indent k x @ nl_indent j @ CHR '']'' # r) = Some (canon x, nl_indent j @ CHR '']'' # r)"
      by (intro rt_indentD [OF x]) simp_all
    with Nil n show ?thesis by simp
  next
    case (Cons y ys)
    let ?t = "join (CHR '','' # nl_indent k) (map (dumps_indent k) xs) @ nl_indent j @ CHR '']'' # r"
    have "p_val m (dumps_indent k x @ CHR '','' # nl_indent k @ ?t) = Some (canon x, CHR '','' # nl_indent k @ ?t)"
      using Cons.prems(3) n Cons by (intro rt_indentD [OF x]) simp_all
    moreover have "skip_ws ?t = ?t"
      using Cons.prems(2) Cons indent_head [of y k] by (cases ys; cases "dumps_indent k y") (auto simp: val_head_def)
    moreover have "p_elems m ?t = Some (map canon xs, r)"
      using Cons.IH [of m] Cons.prems n Cons by simp
    ultimately show ?thesis using n Cons by simp
  qed
qed

lemma p_members_indent:
  assumes "kvs \<noteq> []" and "\<forall>kv \<in> set kvs. wf_json (snd kv) \<and> rt_indent (snd kv)"
    and "2 * length (join (CHR '','' # nl_indent k) (map (member_indent k) kvs) @ nl_indent j @ CHR 0x7D # r) < n"
  shows "p_members n (join (CHR '','' # nl_indent k) (map (member_indent k) kvs) @ nl_indent j @ CHR 0x7D # r) =
    Some (map (\<lambda>kv. (fst kv, canon (snd kv))) kvs, r)"
  using assms
proof (induction kvs arbitrary: n)
  case Nil
  then show ?case by simp
next
  case (Cons kv kvs)
  then obtain m where n: "n = Suc m" by (cases n) auto
  obtain s v where kv: "kv = (s, v)" by (cases kv)
  have v: "rt_indent v" "wf_json v" using Cons.prems(2) kv by simp_all
  have str: "p_str (concat (map esc s) @ CHR 0x22 # CHR '':'' # t) = Some (s, CHR '':'' # t)" for t
    by (rule p_str_quote)
  have colon: "skip_ws (CHR '':'' # t) = CHR '':'' # t" for t
    by (simp add: is_ws_def)
  show ?case
  proof (cases kvs)
    case Nil
    with Cons.prems n kv have "p_val m (dumps_indent k v @ nl_indent j @ CHR 0x7D # r) = Some (canon v, nl_indent j @ CHR 0x7D # r)"
      by (intro rt_indentD [OF v(1)]) simp_all
    with Nil n kv v show ?thesis by (simp add: quote_def str colon)
  next
    case (Cons y ys)
    let ?t = "join (CHR '','' # nl_indent k) (map (member_indent k) kvs) @ nl_indent j @ CHR 0x7D # r"
    have val: "p_val m (dumps_indent k v @ CHR '','' # nl_indent k @ ?t) = Some (canon v, CHR '','' # nl_indent k @ ?t)"
      using Cons.prems(3) n Cons kv by (intro rt_indentD [OF v(1)]) simp_all
    have "skip_ws ?t = ?t"
      using Cons by (cases ys) (auto simp: quote_def is_ws_def)
    moreover have "p_members m ?t = Some (map (\<lambda>kv. (fst kv, canon (snd kv))) kvs, r)"
      using Cons.IH [of m] Cons.prems n Cons kv by simp
    ultimately show ?thesis
      using n Cons kv v val by (simp add: quote_def str colon)
  qed
qed

lemma rt_indent_arr:
  assumes "\<forall>x \<in> set xs. wf_json x \<and> rt_indent x"
  shows "rt_indent (JArr xs)"
  unfolding rt_indent_def
proof (intro allI impI)
  fix k n r
  assume n: "2 * length (dumps_indent k (JArr xs) @ r) \<le> n" and r: "delim r"
  then obtain m where m: "n = Suc m" by (cases n) (auto split: if_splits)
  show "p_val n (dumps_indent k (JArr xs) @ r) = Some (canon (JArr xs), r)"
  proof (cases xs)
    case Nil
    with m show ?thesis by (simp add: is_ws_def)
  next
    case (Cons y ys)
    let ?t = "join (CHR '','' # nl_indent (Suc k)) (map (dumps_indent (Suc k)) xs) @ nl_indent k @ CHR '']'' # r"
    have "p_elems m ?t = Some (map canon xs, r)"
      using assms n m Cons by (intro p_elems_indent) auto
    moreover obtain d ds where "?t = d # ds" "val_head d"
      using assms Cons indent_head [of y "Suc k"] by (cases ys; cases "dumps_indent (Suc k) y") auto
    moreover from this have "skip_ws ?t = ?t" by (simp add: val_head_def)
    ultimately show ?thesis
      using m Cons by (auto simp: val_head_def)
  qed
qed

lemma rt_indent_obj:
  assumes "\<forall>kv \<in> set kvs. wf_json (snd kv) \<and> rt_indent (snd kv)" and "distinct (map fst kvs)"
  shows "rt_indent (JObj kvs)"
  unfolding rt_indent_def
proof (intro allI impI)
  fix k n r
  let ?ks = "sort_key fst kvs"
  assume n: "2 * length (dumps_indent k (JObj kvs) @ r) \<le> n" and r: "delim r"
  then obtain m where m: "n = Suc m" by (cases n) (auto split: if_splits)
  show "p_val n (dumps_indent k (JObj kvs) @ r) = Some (canon (JObj kvs), r)"
  proof (cases "kvs = []")
    case True
    with m show ?thesis by (simp add: is_ws_def)
  next
    case False
    let ?t = "join (CHR '','' # nl_indent (Suc k)) (map (member_indent (Suc k)) ?ks) @ nl_indent k @ CHR 0x7D # r"
    have ne: "?ks \<noteq> []" using False by (metis length_0_conv length_sort)
    have eq: "dumps_indent k (JObj kvs) @ r = CHR 0x7B # nl_indent (Suc k) @ ?t"
      using False by (simp add: dumps_indent_obj del: dumps_indent.simps)
    with n m have "2 * length ?t < m" by (simp add: nl_indent_def del: dumps_indent.simps)
    then have "p_members m ?t = Some (map (\<lambda>kv. (fst kv, canon (snd kv))) ?ks, r)"
      using assms(1) ne by (intro p_members_indent) simp_all
    moreover have "dict_of (map (\<lambda>kv. (fst kv, canon (snd kv))) ?ks) = map (\<lambda>kv. (fst kv, canon (snd kv))) ?ks"
      using assms(2) by (intro dict_of_distinct) (simp add: comp_def distinct_sort_key)
    moreover obtain u where u: "?t = CHR 0x22 # u"
      using ne by (cases ?ks; cases "tl ?ks") (auto simp: quote_def)
    moreover from u have "skip_ws ?t = ?t" by (simp add: is_ws_def)
    ultimately show ?thesis
      unfolding eq using m by (simp add: sort_key_map_fst)
  qed
qed

lemma rt_indent_all: "wf_json v \<Longrightarrow> rt_indent v"
proof (induction v)
  case (JArr xs)
  then show ?case by (intro rt_indent_arr) (auto simp: list_all_iff)
next
  case (JObj kvs)
  then show ?case by (intro rt_indent_obj) (fastforce simp: list_all_iff)+
qed (auto intro!: rt_indent_scalar rt_val_all)

text \<open>A file written with indentation reads back.\<close>

lemma loads_file_json:
  assumes "wf_json v"
  shows "loads (file_json v) = Some (canon v)"
proof -
  have "p_val (2 * length (file_json v) + 2) (file_json v) = Some (canon v, [CHR 0x0A])"
    unfolding file_json_def by (rule rt_indentD [OF rt_indent_all [OF assms]]) simp_all
  with assms show ?thesis
    by (simp add: loads_def file_json_def) (simp add: skip_ws_def is_ws_def)
qed

end
