(* ===== verification/Recovery.thy ===== *)
theory Recovery
  imports Governance Schema Py_Convert Bounded_Log Json_Pretty
begin

text \<open>
  \<^verbatim>\<open>core/recovery.py\<close>: the checkpoint file of the pipeline. A checkpoint is written
  after a stage whose payload fits its schema and carries the right signature; a later run of
  the same business case reads it back, and an operator may repair a halted one. The texts are
  the decoded contents of \<^verbatim>\<open>checkpoint_state.json\<close> and \<^verbatim>\<open>governance.jsonl\<close>.

  The lemmas show that what is recorded is what is loaded, that a refused record leaves the
  old checkpoint, that everything the loader accepts is well typed, that a repaired checkpoint
  is valid again, and how the test for a locked intervention treats the governance log.
\<close>

section \<open>Snapshots\<close>

record snapshot =
  cs_version :: int
  cs_token :: string
  cs_governance :: string
  cs_stage :: string
  cs_schema_id :: string
  cs_payload :: jdict
  cs_signature :: string
  cs_handshake :: string
  cs_role :: string
  cs_correlation :: string
  cs_created :: flt
  cs_updated :: flt
  cs_ballots :: jdict

datatype recovery_error =
    CheckpointFormatError string
  | UnknownSchema string
  | JSONDecodeError
  | OverflowError
  | SchemaError schema_error

definition stages :: "string list" where
  "stages = [''intake_to_architecture'', ''architecture_to_risk'', ''risk_to_build_execution'']"

definition governance_states :: "string list" where
  "governance_states = [''Running'', ''Pending Intervention'', ''QUORUM_LOCKED_INTERVENTION'', ''Completed'']"

definition to_json :: "snapshot \<Rightarrow> jdict" where
  "to_json s =
     [(''version'', JInt (cs_version s)), (''execution_token'', JStr (cs_token s)),
      (''governance_state'', JStr (cs_governance s)), (''active_stage'', JStr (cs_stage s)),
      (''schema_id'', JStr (cs_schema_id s)), (''payload'', JObj (cs_payload s)),
      (''envelope_signature'', JStr (cs_signature s)), (''handshake_hash'', JStr (cs_handshake s)),
      (''source_role'', JStr (cs_role s)), (''correlation_id'', JStr (cs_correlation s)),
      (''created_at'', JFloat (cs_created s)), (''updated_at'', JFloat (cs_updated s)),
      (''envelope_ballots'', JObj (cs_ballots s))]"

definition case_token :: "string \<Rightarrow> string" where
  "case_token business_case = sha256_hex (strip business_case)"

definition handshake_hash :: "string \<Rightarrow> string \<Rightarrow> string \<Rightarrow> jval \<Rightarrow> string" where
  "handshake_hash from_role to_role sid payload =
     fnv1a_32 (from_role @ ''->'' @ to_role @ '':'' @ sid @ '':'' @ canonical_json payload)"

text \<open>The new contents of the file: the temporary file replaces it in one step.\<close>

definition atomic_write_json :: "jdict \<Rightarrow> string" where
  "atomic_write_json obj = canonical_json (JObj obj) @ [CHR 0x0A]"

definition read_json_file :: "string \<Rightarrow> (recovery_error, jval) res" where
  "read_json_file t = (case loads t of None \<Rightarrow> Inl JSONDecodeError | Some v \<Rightarrow> Inr v)"

section \<open>Reading fields\<close>

definition field_str :: "jval \<Rightarrow> string \<Rightarrow> (recovery_error, string) res" where
  "field_str v field =
     (case v of
        JStr s \<Rightarrow> if s = [] then Inl (CheckpointFormatError (''Invalid '' @ field @ ''.'')) else Inr s
      | _ \<Rightarrow> Inl (CheckpointFormatError (''Invalid '' @ field @ ''.'')))"

definition field_float :: "jval \<Rightarrow> string \<Rightarrow> (recovery_error, flt) res" where
  "field_float v field =
     (if (is_int v \<or> is_flt v) \<and> \<not> is_bool v
      then (case to_float v of None \<Rightarrow> Inl OverflowError | Some f \<Rightarrow> Inr f)
      else Inl (CheckpointFormatError (''Invalid '' @ field @ ''.'')))"

definition field_payload :: "jval \<Rightarrow> (recovery_error, jdict) res" where
  "field_payload v = (case v of JObj d \<Rightarrow> Inr d | _ \<Rightarrow> Inl (CheckpointFormatError ''Invalid payload.''))"

definition field_ballots :: "jval \<Rightarrow> (recovery_error, jdict) res" where
  "field_ballots v =
     (case v of
        JNull \<Rightarrow> Inr []
      | JObj d \<Rightarrow> if list_all (\<lambda>kv. is_obj (snd kv)) d then Inr d
                  else Inl (CheckpointFormatError ''Invalid envelope_ballots.'')
      | _ \<Rightarrow> Inl (CheckpointFormatError ''Invalid envelope_ballots.''))"

section \<open>The manager\<close>

record manager =
  ck_token :: string
  ck_file :: "string option"
  ck_governance_log :: "string option"

definition new_manager :: "string \<Rightarrow> string option \<Rightarrow> string option \<Rightarrow> manager" where
  "new_manager business_case f g = \<lparr>ck_token = case_token business_case, ck_file = f, ck_governance_log = g\<rparr>"

text \<open>The fields after the token, in the order they are checked.\<close>

definition load_fields :: "string \<Rightarrow> jdict \<Rightarrow> (recovery_error, snapshot) res" where
  "load_fields token obj =
     res_bind (field_str (jget obj ''active_stage'') ''active_stage'') (\<lambda>stage.
     res_bind (require (stage \<in> set stages) (CheckpointFormatError ''Invalid active_stage.'')) (\<lambda>_.
     res_bind (field_str (jget obj ''governance_state'') ''governance_state'') (\<lambda>gs.
     res_bind (require (gs \<in> set governance_states) (CheckpointFormatError ''Invalid governance_state.'')) (\<lambda>_.
     res_bind (field_str (jget obj ''schema_id'') ''schema_id'') (\<lambda>sid.
     res_bind (field_payload (jget obj ''payload'')) (\<lambda>payload.
     res_bind (field_str (jget obj ''envelope_signature'') ''envelope_signature'') (\<lambda>sig.
     res_bind (field_str (jget obj ''handshake_hash'') ''handshake_hash'') (\<lambda>hh.
     res_bind (field_str (jget obj ''source_role'') ''source_role'') (\<lambda>role.
     res_bind (field_str (jget obj ''correlation_id'') ''correlation_id'') (\<lambda>corr.
     res_bind (field_float (jget obj ''created_at'') ''created_at'') (\<lambda>created.
     res_bind (field_float (jget obj ''updated_at'') ''updated_at'') (\<lambda>updated.
     res_bind (field_ballots (jget obj ''envelope_ballots'')) (\<lambda>ballots.
       Inr \<lparr>cs_version = 1, cs_token = token, cs_governance = gs, cs_stage = stage, cs_schema_id = sid,
            cs_payload = payload, cs_signature = sig, cs_handshake = hh, cs_role = role,
            cs_correlation = corr, cs_created = created, cs_updated = updated, cs_ballots = ballots\<rparr>)))))))))))))"

definition load :: "manager \<Rightarrow> (recovery_error, snapshot option) res" where
  "load m =
     (case ck_file m of
        None \<Rightarrow> Inr None
      | Some t \<Rightarrow>
          res_bind (read_json_file t) (\<lambda>raw.
            (case raw of
               JObj obj \<Rightarrow>
                 if \<not> eq_int (jget obj ''version'') 1
                 then Inl (CheckpointFormatError ''Unsupported checkpoint version.'')
                 else
                   res_bind (field_str (jget obj ''execution_token'') ''execution_token'') (\<lambda>token.
                     if token \<noteq> ck_token m then Inr None
                     else res_bind (load_fields token obj) (\<lambda>s. Inr (Some s)))
             | _ \<Rightarrow> Inl (CheckpointFormatError ''Checkpoint file must be a JSON object.''))))"

definition stage_snapshot ::
  "manager \<Rightarrow> string \<Rightarrow> string \<Rightarrow> schema \<Rightarrow> jdict \<Rightarrow> string \<Rightarrow> string \<Rightarrow> string \<Rightarrow> flt \<Rightarrow> string \<Rightarrow> jdict \<Rightarrow> flt
    \<Rightarrow> snapshot" where
  "stage_snapshot m gs stage sch payload sig role corr created next_role ballots now =
     \<lparr>cs_version = 1, cs_token = ck_token m, cs_governance = gs, cs_stage = stage,
      cs_schema_id = schema_id sch, cs_payload = payload, cs_signature = sig,
      cs_handshake = handshake_hash role next_role (schema_id sch) (JObj payload),
      cs_role = role, cs_correlation = corr, cs_created = created, cs_updated = now, cs_ballots = ballots\<rparr>"

definition record_stage ::
  "string \<Rightarrow> schema \<Rightarrow> jdict \<Rightarrow> string \<Rightarrow> string \<Rightarrow> string \<Rightarrow> flt \<Rightarrow> string \<Rightarrow> string \<Rightarrow> jdict \<Rightarrow> flt \<Rightarrow> manager
    \<Rightarrow> bool \<times> manager" where
  "record_stage stage sch payload sig role corr created next_role gs ballots now m =
     (case validate_against_schema (JObj payload) (schema_def sch) of
        Inl _ \<Rightarrow> (False, m)
      | Inr _ \<Rightarrow>
          if sig \<noteq> signature_for sch (JObj payload) then (False, m)
          else (True, m\<lparr>ck_file := Some (atomic_write_json (to_json
                  (stage_snapshot m gs stage sch payload sig role corr created next_role ballots now)))\<rparr>))"

definition record_quorum_halt ::
  "string \<Rightarrow> schema \<Rightarrow> jdict \<Rightarrow> string \<Rightarrow> string \<Rightarrow> string \<Rightarrow> flt \<Rightarrow> string \<Rightarrow> jdict \<Rightarrow> flt \<Rightarrow> manager
    \<Rightarrow> bool \<times> manager" where
  "record_quorum_halt stage sch payload sig role corr created next_role ballots now m =
     record_stage stage sch payload sig role corr created next_role ''QUORUM_LOCKED_INTERVENTION'' ballots now m"

definition clear :: "manager \<Rightarrow> manager" where
  "clear m = m\<lparr>ck_file := None\<rparr>"

definition stage_to_next :: "string \<Rightarrow> string" where
  "stage_to_next stage =
     (if stage = ''intake_to_architecture'' then ''software_architect''
      else if stage = ''architecture_to_risk'' then ''risk_compliance''
      else if stage = ''risk_to_build_execution'' then ''build_orchestrator''
      else ''unknown'')"

definition repaired_snapshot :: "snapshot \<Rightarrow> schema \<Rightarrow> flt \<Rightarrow> snapshot" where
  "repaired_snapshot s sch now =
     s\<lparr>cs_version := 1, cs_governance := ''Running'', cs_schema_id := schema_id sch,
       cs_signature := signature_for sch (JObj (cs_payload s)),
       cs_handshake := handshake_hash (cs_role s) (stage_to_next (cs_stage s)) (schema_id sch) (JObj (cs_payload s)),
       cs_updated := now, cs_ballots := []\<rparr>"

definition resolve_intervention ::
  "(string, schema) dict \<Rightarrow> flt \<Rightarrow> manager \<Rightarrow> (recovery_error, snapshot option) res \<times> manager" where
  "resolve_intervention schemas now m =
     (case load m of
        Inl e \<Rightarrow> (Inl e, m)
      | Inr None \<Rightarrow> (Inr None, m)
      | Inr (Some s) \<Rightarrow>
          (case dget schemas (cs_schema_id s) of
             None \<Rightarrow> (Inl (UnknownSchema (cs_schema_id s)), m)
           | Some sch \<Rightarrow>
               (case validate_against_schema (JObj (cs_payload s)) (schema_def sch) of
                  Inl e \<Rightarrow> (Inl (SchemaError e), m)
                | Inr _ \<Rightarrow>
                    (let r = repaired_snapshot s sch now
                     in (Inr (Some r), m\<lparr>ck_file := Some (atomic_write_json (to_json r))\<rparr>)))))"

text \<open>The four flags of \<open>requires_manual_intervention\<close> over the last 500 lines of the log.\<close>

definition log_obj :: "string \<Rightarrow> jdict option" where
  "log_obj raw = (case loads raw of Some (JObj d) \<Rightarrow> Some d | _ \<Rightarrow> None)"

definition is_state_event :: "string \<Rightarrow> jdict \<Rightarrow> bool" where
  "is_state_event st d \<longleftrightarrow> eq_str (jget d ''event'') ''STATE'' \<and> eq_str (jget d ''state'') st"

definition saw :: "(jdict \<Rightarrow> bool) \<Rightarrow> jdict list \<Rightarrow> bool" where
  "saw P ds \<longleftrightarrow> list_ex P ds"

definition intervention_seen :: "jdict list \<Rightarrow> bool" where
  "intervention_seen ds \<longleftrightarrow>
     saw (is_state_event ''Pending Intervention'') ds \<and> saw (\<lambda>d. eq_str (jget d ''event'') ''CRITICAL_MISALIGNMENT'') ds \<or>
     saw (is_state_event ''QUORUM_LOCKED_INTERVENTION'') ds \<and> saw (\<lambda>d. eq_str (jget d ''event'') ''QUORUM_DISSENT'') ds"

definition requires_manual_intervention :: "manager \<Rightarrow> bool" where
  "requires_manual_intervention m =
     (case ck_governance_log m of
        None \<Rightarrow> False
      | Some t \<Rightarrow> intervention_seen (List.map_filter log_obj (keep_last 500 (splitlines t))))"

section \<open>Reading back a checkpoint\<close>

definition snapshot_ok :: "snapshot \<Rightarrow> bool" where
  "snapshot_ok s \<longleftrightarrow>
     cs_version s = 1 \<and> cs_token s \<noteq> [] \<and> cs_stage s \<in> set stages \<and> cs_governance s \<in> set governance_states \<and>
     cs_schema_id s \<noteq> [] \<and> cs_signature s \<noteq> [] \<and> cs_handshake s \<noteq> [] \<and> cs_role s \<noteq> [] \<and>
     cs_correlation s \<noteq> [] \<and> (\<forall>kv \<in> set (cs_ballots s). is_obj (snd kv))"

definition snapshot_wf :: "snapshot \<Rightarrow> bool" where
  "snapshot_wf s \<longleftrightarrow> wf_json (JObj (cs_payload s)) \<and> wf_json (JObj (cs_ballots s)) \<and>
     wf_flt (cs_created s) \<and> wf_flt (cs_updated s)"

definition canon_snapshot :: "snapshot \<Rightarrow> snapshot" where
  "canon_snapshot s = s\<lparr>cs_payload := canon_dict (cs_payload s), cs_ballots := canon_dict (cs_ballots s)\<rparr>"


lemma ballots_canon: "(\<forall>kv \<in> set (canon_dict d). is_obj (snd kv)) = (\<forall>kv \<in> set d. is_obj (snd kv))"
  by (auto simp: canon_dict_def)

lemma field_simps [simp]:
  "s \<noteq> [] \<Longrightarrow> field_str (JStr s) f = Inr s"
  "field_float (JFloat x) f = Inr x"
  "field_payload (JObj d) = Inr d"
  "\<forall>kv \<in> set d. is_obj (snd kv) \<Longrightarrow> field_ballots (JObj d) = Inr d"
  by (simp_all add: field_str_def field_float_def field_payload_def field_ballots_def list_all_iff)

lemma stage_nonempty: "s \<in> set stages \<Longrightarrow> s \<noteq> []" "s \<in> set governance_states \<Longrightarrow> s \<noteq> []"
  by (auto simp: stages_def governance_states_def)

lemma wf_to_json: "snapshot_wf s \<Longrightarrow> wf_json (JObj (to_json s))"
  by (simp add: snapshot_wf_def to_json_def)

lemma read_written:
  assumes "snapshot_wf s"
  shows "read_json_file (atomic_write_json (to_json s)) = Inr (JObj (canon_dict (to_json s)))"
    and "jget (canon_dict (to_json s)) k = canon (jget (to_json s) k)"
proof -
  have wf: "wf_json (JObj (to_json s))" using assms by (rule wf_to_json)
  then show "read_json_file (atomic_write_json (to_json s)) = Inr (JObj (canon_dict (to_json s)))"
    using loads_object_line [OF wf]
    by (simp add: read_json_file_def atomic_write_json_def canonical_json_def canon_JObj del: dumps.simps canon.simps)
  from wf show "jget (canon_dict (to_json s)) k = canon (jget (to_json s) k)"
    by (intro jget_canon) (simp add: wf_dict_def)
qed

lemma jget_to_json [simp]:
  "jget (to_json s) ''version'' = JInt (cs_version s)" "jget (to_json s) ''execution_token'' = JStr (cs_token s)"
  "jget (to_json s) ''governance_state'' = JStr (cs_governance s)" "jget (to_json s) ''active_stage'' = JStr (cs_stage s)"
  "jget (to_json s) ''schema_id'' = JStr (cs_schema_id s)" "jget (to_json s) ''payload'' = JObj (cs_payload s)"
  "jget (to_json s) ''envelope_signature'' = JStr (cs_signature s)"
  "jget (to_json s) ''handshake_hash'' = JStr (cs_handshake s)" "jget (to_json s) ''source_role'' = JStr (cs_role s)"
  "jget (to_json s) ''correlation_id'' = JStr (cs_correlation s)" "jget (to_json s) ''created_at'' = JFloat (cs_created s)"
  "jget (to_json s) ''updated_at'' = JFloat (cs_updated s)" "jget (to_json s) ''envelope_ballots'' = JObj (cs_ballots s)"
  by (simp_all add: to_json_def)

lemma load_written:
  assumes "snapshot_ok s" and "snapshot_wf s" and "cs_token s = ck_token m"
  shows "load (m\<lparr>ck_file := Some (atomic_write_json (to_json s))\<rparr>) = Inr (Some (canon_snapshot s))"
proof -
  have "load_fields (cs_token s) (canon_dict (to_json s)) = Inr (canon_snapshot s)"
    using assms(1) stage_nonempty
    by (simp add: load_fields_def read_written(2) [OF assms(2)] snapshot_ok_def canon_JObj ballots_canon
        canon_snapshot_def del: canon.simps(2))
  then show ?thesis
    using assms by (simp add: load_def read_written snapshot_ok_def)
qed

lemma load_token_mismatch:
  assumes "snapshot_ok s" and "snapshot_wf s" and "ck_file m = Some (atomic_write_json (to_json s))"
    and "cs_token s \<noteq> ck_token m"
  shows "load m = Inr None"
  using assms by (simp add: load_def read_written snapshot_ok_def)

lemma handshake_nonempty [simp]: "handshake_hash a b c p \<noteq> []"
  by (simp add: handshake_hash_def fnv1a_32_def length_0_conv [symmetric] del: length_0_conv)

lemma case_token_nonempty [simp]: "case_token b \<noteq> []"
  by (simp add: case_token_def length_0_conv [symmetric] del: length_0_conv)

lemma signature_nonempty [simp]: "signature_for sch v \<noteq> []"
  by (simp add: signature_for_def length_0_conv [symmetric] del: length_0_conv)

lemma load_typed:
  assumes "load m = Inr (Some s)"
  shows "snapshot_ok s \<and> cs_token s = ck_token m"
proof -
  have str: "s \<noteq> []" if "field_str v f = Inr s" for v f s
    using that by (auto simp: field_str_def split: jval.splits if_splits)
  have bal: "is_obj b" if "field_ballots v = Inr d" "(a, b) \<in> set d" for v d a b
    using that by (auto simp: field_ballots_def list_all_iff split: jval.splits if_splits)
  obtain t v where v: "ck_file m = Some t" "read_json_file t = Inr v"
    using assms by (auto simp: load_def res_bind_Inr_iff split: option.splits)
  with assms obtain obj where "v = JObj obj"
    by (cases v) (auto simp: load_def)
  with assms v have "load_fields (ck_token m) obj = Inr s" "ck_token m \<noteq> []"
    using str by (auto simp: load_def res_bind_Inr_iff split: if_splits)
  then show ?thesis
    by (auto simp: load_fields_def res_bind_Inr_iff snapshot_ok_def dest: str bal)
qed

section \<open>The governance log\<close>

lemma log_obj_line: "wf_json (JObj d) \<Longrightarrow> log_obj (canonical_json (JObj d)) = Some (canon_dict d)"
  using loads_dumps [of "JObj d"] by (simp add: log_obj_def canonical_json_def canon_JObj del: dumps.simps canon.simps)

lemma splitlines_append_jsonl:
  assumes "at_line_end t" and "line_record d"
  shows "splitlines (append_jsonl t d) = splitlines t @ [canonical_json (JObj d)]"
proof -
  let ?t = "canonical_json (JObj d) @ [CHR 0x0A]"
  have "?t = [] \<or> \<not> is_cont (hd ?t)"
    using assms(2) dumps_hd_not_cont [of "JObj d"] by (simp add: line_record_def canonical_json_def)
  from splitlines_append_at_end [OF assms(1) this] splitlines_record [OF assms(2)]
  show ?thesis by (simp add: append_jsonl_def)
qed

lemma seen_mono: "intervention_seen ds \<Longrightarrow> intervention_seen (ds @ es)"
  by (auto simp: intervention_seen_def saw_def)

lemma resolve_keeps_log [simp]:
  "ck_governance_log (snd (resolve_intervention schemas now m)) = ck_governance_log m"
  by (simp add: resolve_intervention_def Let_def split: sum.split option.split)

lemma set_state_log:
  "gov_log (set_state now ts st g) = append_jsonl (gov_log g) (enrich now [(''event'', JStr ''STATE''), (''state'', JStr st)] st)"
  by (simp add: set_state_def emit_event_def Let_def split: option.split)

lemma text_ok_state [simp]: "text_ok ''STATE''" "text_ok ''state''" "text_ok ''Running''"
  by (rule text_ok_ascii; simp add: is_cont_def)+

section \<open>A sample run\<close>

definition demo_schema :: schema where
  "demo_schema = \<lparr>schema_id = ''s'', schema_def = [(''type'', JStr ''object'')]\<rparr>"

definition demo_manager :: manager where
  "demo_manager = snd (record_stage ''intake_to_architecture'' demo_schema [] (signature_for demo_schema (JObj []))
     ''isa'' ''c'' ''0.0'' ''sas'' ''Running'' [] ''0.0'' (new_manager ''b'' None None))"

definition demo_snapshot :: snapshot where
  "demo_snapshot = stage_snapshot (new_manager ''b'' None None) ''Running'' ''intake_to_architecture'' demo_schema []
     (signature_for demo_schema (JObj [])) ''isa'' ''c'' ''0.0'' ''sas'' [] ''0.0''"

lemma demo_valid: "validate_against_schema (JObj []) (schema_def demo_schema) = Inr ()"
  by (simp add: validate_against_schema_def demo_schema_def validate_node.simps validate_object.simps eq_str_def
      opt_properties_def opt_required_def opt_additional_def dkeys_def)

lemma demo_record:
  "record_stage ''intake_to_architecture'' demo_schema [] (signature_for demo_schema (JObj []))
     ''isa'' ''c'' ''0.0'' ''sas'' ''Running'' [] ''0.0'' (new_manager ''b'' None None) = (True, demo_manager)"
  "demo_manager = (new_manager ''b'' None None)\<lparr>ck_file := Some (atomic_write_json (to_json demo_snapshot))\<rparr>"
  by (simp_all add: demo_manager_def record_stage_def demo_valid demo_snapshot_def)

lemma demo_ok: "snapshot_ok demo_snapshot" "snapshot_wf demo_snapshot"
  by (simp_all add: snapshot_ok_def snapshot_wf_def demo_snapshot_def stage_snapshot_def new_manager_def
      stages_def governance_states_def demo_schema_def wf_flt_zero)

lemma demo_load: "load demo_manager = Inr (Some demo_snapshot)"
  using load_written [OF demo_ok, of "new_manager ''b'' None None"] 
  by (simp add: demo_record canon_snapshot_def demo_snapshot_def stage_snapshot_def canon_dict_def)

definition demo_lock :: governance where
  "demo_lock = set_state ''0.0'' ''t'' ''QUORUM_LOCKED_INTERVENTION''
     (emit_event ''0.0'' ''t'' [(''event'', JStr ''QUORUM_DISSENT'')]
       \<lparr>gov_stream = [], gov_log = [], gov_state = ''Running'', gov_ledger = None\<rparr>)"

lemma demo_lock_log:
  "splitlines (gov_log demo_lock) =
     [canonical_json (JObj (enrich ''0.0'' [(''event'', JStr ''QUORUM_DISSENT'')] ''Running'')),
      canonical_json (JObj (enrich ''0.0'' [(''event'', JStr ''STATE''), (''state'', JStr ''QUORUM_LOCKED_INTERVENTION'')]
        ''QUORUM_LOCKED_INTERVENTION''))]"
  "at_line_end (gov_log demo_lock)"
  "requires_manual_intervention (demo_manager\<lparr>ck_governance_log := Some (gov_log demo_lock)\<rparr>)"
proof -
  let ?a = "enrich ''0.0'' [(''event'', JStr ''QUORUM_DISSENT'')] ''Running''"
  let ?b = "enrich ''0.0'' [(''event'', JStr ''STATE''), (''state'', JStr ''QUORUM_LOCKED_INTERVENTION'')]
      ''QUORUM_LOCKED_INTERVENTION''"
  have t: "text_ok ''QUORUM_DISSENT''" "text_ok ''QUORUM_LOCKED_INTERVENTION''"
    by (rule text_ok_ascii; simp add: is_cont_def)+
  have a: "line_record ?a" and b: "line_record ?b"
    by (rule line_record_enrich; simp add: t wf_flt_zero line_record_def wf_dict_def)+
  have lg: "gov_log demo_lock = append_jsonl (append_jsonl [] ?a) ?b"
    by (simp add: demo_lock_def set_state_log emit_event_def Let_def)
  show ls: "splitlines (gov_log demo_lock) = [canonical_json (JObj ?a), canonical_json (JObj ?b)]"
    unfolding lg splitlines_append_jsonl [OF at_line_end_append b]
    using splitlines_append_jsonl [OF _ a, of "[]"] by (simp add: at_line_end_def splitlines_def)
  show "at_line_end (gov_log demo_lock)" by (simp add: lg)
  have "wf_dict ?a" "wf_dict ?b" using a b by (simp_all add: line_record_def wf_dict_def)
  then show "requires_manual_intervention (demo_manager\<lparr>ck_governance_log := Some (gov_log demo_lock)\<rparr>)"
    using a b ls log_obj_line [of ?a] log_obj_line [of ?b]
    by (simp add: requires_manual_intervention_def keep_last_def line_record_def List.map_filter_def
        intervention_seen_def saw_def is_state_event_def jget_canon eq_str_def enrich_def jget_dput)
qed

section \<open>Properties\<close>

text \<open>C29: a checkpoint that was recorded is what the next run of the same business case loads,
  and a run of another business case sees no checkpoint.\<close>

theorem checkpoint_roundtrip:
  assumes "record_stage stage sch payload sig role corr created next_role gs ballots now
      (new_manager business_case f g) = (True, m)"
    and "stage \<in> set stages" and "gs \<in> set governance_states"
    and "schema_id sch \<noteq> []" and "role \<noteq> []" and "corr \<noteq> []"
    and "wf_json (JObj payload)" and "wf_json (JObj ballots)" and "\<forall>kv \<in> set ballots. is_obj (snd kv)"
    and "wf_flt created" and "wf_flt now"
  shows "load m = Inr (Some (canon_snapshot (stage_snapshot (new_manager business_case f g)
      gs stage sch payload sig role corr created next_role ballots now))) \<and>
    (\<forall>other g'. case_token other \<noteq> case_token business_case \<longrightarrow> load (new_manager other (ck_file m) g') = Inr None)"
proof -
  let ?m = "new_manager business_case f g"
  let ?s = "stage_snapshot ?m gs stage sch payload sig role corr created next_role ballots now"
  have m: "m = ?m\<lparr>ck_file := Some (atomic_write_json (to_json ?s))\<rparr>" and sig: "sig = signature_for sch (JObj payload)"
    using assms(1) by (auto simp: record_stage_def split: sum.splits if_splits)
  have ok: "snapshot_ok ?s" "snapshot_wf ?s"
    using assms(2-11) by (simp_all add: snapshot_ok_def snapshot_wf_def stage_snapshot_def new_manager_def sig)
  have "load m = Inr (Some (canon_snapshot ?s))"
    unfolding m by (rule load_written [OF ok]) (simp add: stage_snapshot_def)
  moreover have "load (new_manager other (ck_file m) g') = Inr None"
    if "case_token other \<noteq> case_token business_case" for other g'
    using load_token_mismatch [OF ok, of "new_manager other (ck_file m) g'"] that
    by (simp add: m new_manager_def stage_snapshot_def)
  ultimately show ?thesis by simp
qed

theorem checkpoint_roundtrip_witness:
  "load demo_manager = Inr (Some (canon_snapshot demo_snapshot))"
  unfolding demo_snapshot_def
  by (rule checkpoint_roundtrip [OF demo_record(1), THEN conjunct1])
    (simp_all add: stages_def governance_states_def demo_schema_def wf_flt_zero)

text \<open>a stage is recorded exactly when its payload conforms to the schema and its signature
  is the right one; otherwise the old checkpoint stays.\<close>

theorem record_stage_iff:
  "record_stage stage sch payload sig role corr created next_role gs ballots now m =
    (if conforms (schema_def sch) (JObj payload) \<and> sig = signature_for sch (JObj payload)
     then (True, m\<lparr>ck_file := Some (atomic_write_json (to_json
        (stage_snapshot m gs stage sch payload sig role corr created next_role ballots now)))\<rparr>)
     else (False, m))"
  using validate_node_iff [of "JObj payload" "schema_def sch" "''$''"]
  by (auto simp: record_stage_def validate_against_schema_def split: sum.split)

text \<open>C30: whatever is in the checkpoint file, a snapshot the loader returns is of the same
  business case and has a known stage and state, no empty text field and ballots that are
  objects.\<close>

theorem loaded_checkpoint_typed:
  assumes "load m = Inr (Some s)"
  shows "snapshot_ok s \<and> cs_token s = ck_token m"
  by (rule load_typed [OF assms])

theorem loaded_checkpoint_typed_witness: "snapshot_ok demo_snapshot \<and> cs_token demo_snapshot = ck_token demo_manager"
  by (rule loaded_checkpoint_typed [OF demo_load])

text \<open>a repaired checkpoint conforms to its schema, carries the signature of the edited
  payload, is running again, and is what the next run loads.\<close>

theorem repaired_checkpoint_valid:
  assumes "resolve_intervention schemas now m = (Inr (Some s), m')"
    and "\<And>k sch. dget schemas k = Some sch \<Longrightarrow> schema_id sch = k" and "snapshot_wf s"
  shows "\<exists>sch. dget schemas (cs_schema_id s) = Some sch \<and> conforms (schema_def sch) (JObj (cs_payload s)) \<and>
    cs_signature s = signature_for sch (JObj (cs_payload s)) \<and> cs_governance s = ''Running'' \<and>
    load m' = Inr (Some (canon_snapshot s))"
proof -
  obtain s0 sch where ld: "load m = Inr (Some s0)" and sch: "dget schemas (cs_schema_id s0) = Some sch"
    and val: "validate_against_schema (JObj (cs_payload s0)) (schema_def sch) = Inr ()"
    and s: "s = repaired_snapshot s0 sch now" and m': "m' = m\<lparr>ck_file := Some (atomic_write_json (to_json s))\<rparr>"
    using assms(1) by (auto simp: resolve_intervention_def Let_def split: sum.splits option.splits)
  have typed: "snapshot_ok s0" "cs_token s0 = ck_token m" using load_typed [OF ld] by auto
  have id: "schema_id sch = cs_schema_id s0" by (rule assms(2) [OF sch])
  have "snapshot_ok s"
    using typed(1) by (simp add: s repaired_snapshot_def snapshot_ok_def id governance_states_def)
  from load_written [OF this assms(3), of m] typed(2) have "load m' = Inr (Some (canon_snapshot s))"
    by (simp add: m' s repaired_snapshot_def)
  with sch val show ?thesis
    by (simp add: s repaired_snapshot_def id validate_against_schema_def validate_node_iff)
qed

theorem repaired_checkpoint_valid_witness:
  "\<exists>s m'. resolve_intervention [(''s'', demo_schema)] ''0.0'' demo_manager = (Inr (Some s), m') \<and>
     cs_governance s = ''Running'' \<and> load m' = Inr (Some (canon_snapshot s))"
proof -
  let ?s = "repaired_snapshot demo_snapshot demo_schema ''0.0''"
  let ?m = "demo_manager\<lparr>ck_file := Some (atomic_write_json (to_json ?s))\<rparr>"
  have p: "cs_payload demo_snapshot = []" "cs_schema_id demo_snapshot = ''s''"
    by (simp_all add: demo_snapshot_def stage_snapshot_def demo_schema_def)
  have r: "resolve_intervention [(''s'', demo_schema)] ''0.0'' demo_manager = (Inr (Some ?s), ?m)"
    by (simp add: resolve_intervention_def demo_load p demo_valid Let_def)
  have k: "schema_id sch = k" if "dget [(''s'', demo_schema)] k = Some sch" for k sch
    using that by (auto simp: demo_schema_def split: if_splits)
  have "snapshot_wf ?s"
    using demo_ok(2) by (simp add: snapshot_wf_def repaired_snapshot_def wf_flt_zero)
  from repaired_checkpoint_valid [OF r k this] r show ?thesis by blast
qed

text \<open>a repaired intervention is demanded again: neither the repair nor the \<open>Running\<close> state
  that follows it clears the lock the governance log shows, so a restart asks for the
  intervention a second time.\<close>

theorem intervention_not_cleared:
  assumes "requires_manual_intervention m" and "ck_governance_log m = Some (gov_log g)"
    and "at_line_end (gov_log g)" and "length (splitlines (gov_log g)) < 500" and "wf_flt now"
  shows "requires_manual_intervention ((snd (resolve_intervention schemas now' m))
    \<lparr>ck_governance_log := Some (gov_log (set_state now ts ''Running'' g))\<rparr>)"
proof -
  let ?e = "enrich now [(''event'', JStr ''STATE''), (''state'', JStr ''Running'')] ''Running''"
  have e: "line_record ?e"
    by (rule line_record_enrich) (simp_all add: assms(5) line_record_def wf_dict_def)
  have "List.map_filter log_obj (keep_last 500 (splitlines (append_jsonl (gov_log g) ?e))) =
      List.map_filter log_obj (keep_last 500 (splitlines (gov_log g))) @ [canon_dict ?e]"
    using e assms(3,4) log_obj_line [of ?e]
    by (simp add: splitlines_append_jsonl keep_last_snoc line_record_def List.map_filter_def)
  moreover have "intervention_seen (List.map_filter log_obj (keep_last 500 (splitlines (gov_log g))))"
    using assms(1,2) by (simp add: requires_manual_intervention_def)
  ultimately show ?thesis
    using seen_mono by (simp add: requires_manual_intervention_def set_state_log)
qed

theorem intervention_not_cleared_witness:
  "requires_manual_intervention ((snd (resolve_intervention [(''s'', demo_schema)] ''0.0''
      (demo_manager\<lparr>ck_governance_log := Some (gov_log demo_lock)\<rparr>)))
    \<lparr>ck_governance_log := Some (gov_log (set_state ''0.0'' ''t'' ''Running'' demo_lock))\<rparr>)"
  by (rule intervention_not_cleared [OF demo_lock_log(3) _ demo_lock_log(2)])
    (simp_all add: demo_lock_log(1) wf_flt_zero)

end
