(* ===== verification/Telemetry.thy ===== *)
theory Telemetry
  imports Governance Py_Convert Bounded_Log Json_Pretty
begin

text \<open>
  \<^verbatim>\<open>core/telemetry.py\<close>: the two bounded in-memory logs of the runtime, the tracker of
  queue latencies and the governance stream that feeds the tracer. Clock readings are
  arguments. Hooks are names; calling one is recorded, what it does is its own business.

  The lemmas show that both buffers always hold the latest entries, that the tracer numbers
  its records without gaps, that the table of queue marks stays within its bound, and that a
  mark is found again by the matching dequeue.
\<close>

section \<open>Text of values\<close>

text \<open>
  \<^verbatim>\<open>str(v)\<close>. The text of a float differs from its JSON text on the special values only;
  \<open>repr\<close> is the text of lists and dictionaries.
\<close>

definition py_str :: "(jval \<Rightarrow> string) \<Rightarrow> jval \<Rightarrow> string" where
  "py_str repr v =
     (case v of
        JStr s \<Rightarrow> s
      | JInt i \<Rightarrow> show_int i
      | JBool b \<Rightarrow> if b then ''True'' else ''False''
      | JNull \<Rightarrow> ''None''
      | JFloat f \<Rightarrow> if f = ''Infinity'' then ''inf'' else if f = ''-Infinity'' then ''-inf''
                    else if f = ''NaN'' then ''nan'' else f
      | _ \<Rightarrow> repr v)"

section \<open>Latencies\<close>

definition flt_neg :: "flt \<Rightarrow> flt" where
  "flt_neg a = (if a = ''NaN'' then a else if a \<noteq> [] \<and> hd a = CHR ''-'' then tl a else CHR ''-'' # a)"

text \<open>\<^verbatim>\<open>round(x, 3)\<close>: to the nearest thousandth of the exact value, ties to even.\<close>

definition round3 :: "flt \<Rightarrow> flt" where
  "round3 a = (case flt_val a of None \<Rightarrow> a | Some x \<Rightarrow> repr_rat (of_int (round_half_even (x * 1000)) / 1000))"

definition flt_negative :: "flt \<Rightarrow> bool" where
  "flt_negative a \<longleftrightarrow> a = ''-Infinity'' \<or> (case flt_val a of None \<Rightarrow> False | Some x \<Rightarrow> x < 0)"

definition latency_ms :: "flt \<Rightarrow> flt \<Rightarrow> flt" where
  "latency_ms start_monotonic end_monotonic =
     (let ms = flt_mult (flt_add end_monotonic (flt_neg start_monotonic)) ''1000.0''
      in if flt_negative ms then ''0.0'' else round3 ms)"

text \<open>JSON payloads always print, so the fallback to \<^verbatim>\<open>repr\<close> is never taken.\<close>

definition estimate_payload_bytes :: "jval \<Rightarrow> nat" where
  "estimate_payload_bytes payload = (if payload = JNull then 0 else length (dumps payload))"

section \<open>The tracker\<close>

record queue_mark =
  qm_queue :: string
  qm_enqueued :: flt
  qm_src :: "string option"
  qm_dst :: "string option"

record tracker =
  tk_max_events :: nat
  tk_buffer :: "jdict list"
  tk_hooks :: "string list"
  tk_calls :: "(string \<times> jdict) list"
  tk_marks :: "(string \<times> int, queue_mark) dict"
  tk_max_marks :: nat

definition new_tracker :: "int \<Rightarrow> (string, tracker) res" where
  "new_tracker max_events =
     (if max_events \<le> 0 then Inl ''max_events must be positive''
      else Inr \<lparr>tk_max_events = nat max_events, tk_buffer = [], tk_hooks = [], tk_calls = [], tk_marks = [],
                tk_max_marks = min 4096 (nat (max_events * 4))\<rparr>)"

definition add_hook :: "string \<Rightarrow> tracker \<Rightarrow> tracker" where
  "add_hook hook t = t\<lparr>tk_hooks := tk_hooks t @ [hook]\<rparr>"

definition opt_field :: "string \<Rightarrow> ('a \<Rightarrow> jval) \<Rightarrow> 'a option \<Rightarrow> jdict \<Rightarrow> jdict" where
  "opt_field k f x e = (case x of None \<Rightarrow> e | Some v \<Rightarrow> dput k (f v) e)"

definition add_extra :: "jdict \<Rightarrow> jdict \<Rightarrow> jdict" where
  "add_extra extra e = foldl (\<lambda>ev (k, v). if dhas ev k then ev else dput k v ev) e extra"

definition micro_event ::
  "string \<Rightarrow> string \<Rightarrow> string \<Rightarrow> string \<Rightarrow> flt \<Rightarrow> string option \<Rightarrow> string option \<Rightarrow> string option \<Rightarrow> int option \<Rightarrow> jdict
    \<Rightarrow> jdict" where
  "micro_event now component event_type twin_hash latency ts src dst payload_bytes extra =
     add_extra extra
       (opt_field ''payload_bytes'' JInt payload_bytes
         (opt_field ''dst_agent'' JStr dst
           (opt_field ''src_agent'' JStr src
             [(''component'', JStr component), (''twin_hash'', JStr twin_hash), (''event_type'', JStr event_type),
              (''latency_ms'', JFloat latency),
              (''ts_utc'', JStr (case ts of None \<Rightarrow> now | Some s \<Rightarrow> if s = [] then now else s))])))"

definition buffer_event :: "jdict \<Rightarrow> tracker \<Rightarrow> tracker" where
  "buffer_event e t = t\<lparr>tk_buffer := keep_last (tk_max_events t) (tk_buffer t @ [e])\<rparr>"

definition dispatch_hooks :: "jdict \<Rightarrow> tracker \<Rightarrow> tracker" where
  "dispatch_hooks e t = t\<lparr>tk_calls := tk_calls t @ map (\<lambda>h. (h, e)) (tk_hooks t)\<rparr>"

definition tracker_record :: "jdict \<Rightarrow> tracker \<Rightarrow> jdict \<times> tracker" where
  "tracker_record event t = (event, dispatch_hooks event (buffer_event event t))"

text \<open>An item is its identity.\<close>

definition mark_enqueue ::
  "flt \<Rightarrow> string \<Rightarrow> int \<Rightarrow> string option \<Rightarrow> string option \<Rightarrow> tracker \<Rightarrow> tracker" where
  "mark_enqueue now queue_name item src dst t =
     (let marks = (if length (tk_marks t) \<ge> tk_max_marks t then tl (tk_marks t) else tk_marks t)
      in t\<lparr>tk_marks := dput (queue_name, item)
             \<lparr>qm_queue = queue_name, qm_enqueued = now, qm_src = src, qm_dst = dst\<rparr> marks\<rparr>)"

definition pop_enqueue_latency_ms ::
  "flt \<Rightarrow> string \<Rightarrow> int \<Rightarrow> tracker \<Rightarrow> (flt \<times> queue_mark) option \<times> tracker" where
  "pop_enqueue_latency_ms now queue_name item t =
     (case dget (tk_marks t) (queue_name, item) of
        None \<Rightarrow> (None, t)
      | Some mk \<Rightarrow> (Some (latency_ms (qm_enqueued mk) now, mk), t\<lparr>tk_marks := dpop (queue_name, item) (tk_marks t)\<rparr>))"

definition tracker_snapshot :: "tracker \<Rightarrow> jdict list" where
  "tracker_snapshot t = tk_buffer t"

definition flush_json :: "jdict list option \<Rightarrow> tracker \<Rightarrow> string" where
  "flush_json events t =
     file_json (JArr (map JObj (case events of None \<Rightarrow> tracker_snapshot t | Some es \<Rightarrow> es)))"

section \<open>The tracer\<close>

record trace_record =
  tr_ts :: flt
  tr_correlation :: string
  tr_stage :: string
  tr_event :: string
  tr_payload_bytes :: int
  tr_latency :: flt
  tr_signature :: string
  tr_sequence :: nat

record tracer =
  tc_capacity :: nat
  tc_seq :: nat
  tc_records :: "trace_record list"
  tc_file :: "string option"

definition new_tracer :: "int \<Rightarrow> (string, tracer) res" where
  "new_tracer capacity =
     (if capacity \<le> 0 then Inl ''capacity must be > 0''
      else Inr \<lparr>tc_capacity = nat capacity, tc_seq = 0, tc_records = [], tc_file = None\<rparr>)"

definition trace_signature :: "string \<Rightarrow> string \<Rightarrow> string \<Rightarrow> int \<Rightarrow> flt \<Rightarrow> jdict \<Rightarrow> string" where
  "trace_signature corr stage event bytes latency meta =
     fnv1a_32 (dumps (JObj [(''correlation_id'', JStr corr), (''stage'', JStr stage), (''event'', JStr event),
       (''payload_bytes'', JInt bytes), (''latency_ms'', JFloat latency), (''metadata'', JObj meta)]))"

definition append_record :: "trace_record \<Rightarrow> tracer \<Rightarrow> tracer" where
  "append_record r t = t\<lparr>tc_records := keep_last (tc_capacity t) (tc_records t @ [r])\<rparr>"

definition tracer_record ::
  "flt \<Rightarrow> string \<Rightarrow> string \<Rightarrow> string \<Rightarrow> int \<Rightarrow> flt \<Rightarrow> jdict \<Rightarrow> tracer \<Rightarrow> trace_record \<times> tracer" where
  "tracer_record now corr stage event bytes latency meta t =
     (let sig = trace_signature corr stage event bytes latency meta;
          seq = tc_seq t + 1;
          r = \<lparr>tr_ts = now, tr_correlation = corr, tr_stage = stage, tr_event = event, tr_payload_bytes = bytes,
               tr_latency = latency, tr_signature = sig, tr_sequence = seq\<rparr>
      in (r, append_record r (t\<lparr>tc_seq := seq\<rparr>)))"

definition record_json :: "trace_record \<Rightarrow> jdict" where
  "record_json r =
     [(''ts'', JFloat (tr_ts r)), (''correlation_id'', JStr (tr_correlation r)), (''stage'', JStr (tr_stage r)),
      (''event'', JStr (tr_event r)), (''payload_bytes'', JInt (tr_payload_bytes r)),
      (''latency_ms'', JFloat (tr_latency r)), (''signature'', JStr (tr_signature r)),
      (''sequence'', JInt (int (tr_sequence r)))]"

definition tracer_snapshot :: "tracer \<Rightarrow> jdict list" where
  "tracer_snapshot t = map record_json (tc_records t)"

definition flush_trace :: "tracer \<Rightarrow> tracer" where
  "flush_trace t = t\<lparr>tc_file := Some (file_json (JArr (map JObj (tracer_snapshot t))))\<rparr>"

section \<open>The governance stream\<close>

definition or_chain :: "jval list \<Rightarrow> jval" where
  "or_chain vs = (case filter truthy (butlast vs) of [] \<Rightarrow> last vs | v # _ \<Rightarrow> v)"

text \<open>
  \<open>_RingBufferJSONStream.write\<close>: a line that is JSON but not an object makes the second
  \<^verbatim>\<open>payload.get\<close> raise (\<open>Inl\<close>).
\<close>

definition stream_write :: "(jval \<Rightarrow> string) \<Rightarrow> flt \<Rightarrow> string \<Rightarrow> tracer \<Rightarrow> (unit, nat) res \<times> tracer" where
  "stream_write repr now text1 t =
     (let line = strip text1 in
      if line = [] then (Inr (py_len text1), t)
      else
        (case loads line of
           None \<Rightarrow> (Inr (py_len text1), t)
         | Some (JObj p) \<Rightarrow>
             (let corr = py_str repr (or_chain [jget p ''correlation_id'', jget p ''handshake_hash'', JStr ''unknown'']);
                  stage = py_str repr (or_chain [jget p ''source_role'', jget p ''sequence'', JStr ''ISA'']);
                  stage_norm = (if stage \<in> {''ISA'', ''SAS'', ''CRS'', ''BOA''} then stage else ''ISA'');
                  event = py_str repr (or_chain [jget p ''event'', JStr ''GOVERNANCE''])
              in (Inr (py_len text1),
                  snd (tracer_record now corr stage_norm event (int (length line)) ''0.0'' [] t)))
         | Some _ \<Rightarrow> (Inl (), t)))"

section \<open>Bounded buffers\<close>

interpretation tracker_log: bounded_log buffer_event tk_buffer tk_max_events
  by unfold_locales (simp_all add: buffer_event_def)

interpretation tracer_log: bounded_log append_record tc_records tc_capacity
  by unfold_locales (simp_all add: append_record_def)

section \<open>Runs\<close>

text \<open>One call of \<open>record\<close>, and the record it should leave as the \<open>i\<close>-th of its tracer.\<close>

type_synonym trace_call = "flt \<times> string \<times> string \<times> string \<times> int \<times> flt \<times> jdict"

definition trace_call :: "tracer \<Rightarrow> trace_call \<Rightarrow> tracer" where
  "trace_call t c = (case c of (now, corr, stage, event, bytes, latency, meta) \<Rightarrow>
     snd (tracer_record now corr stage event bytes latency meta t))"

definition nth_record :: "nat \<Rightarrow> trace_call \<Rightarrow> trace_record" where
  "nth_record i c = (case c of (now, corr, stage, event, bytes, latency, meta) \<Rightarrow>
     \<lparr>tr_ts = now, tr_correlation = corr, tr_stage = stage, tr_event = event, tr_payload_bytes = bytes,
      tr_latency = latency, tr_signature = trace_signature corr stage event bytes latency meta, tr_sequence = i\<rparr>)"

lemma trace_call_eq: "trace_call t c = append_record (nth_record (tc_seq t + 1) c) (t\<lparr>tc_seq := tc_seq t + 1\<rparr>)"
  by (simp add: trace_call_def nth_record_def tracer_record_def Let_def split: prod.split)

lemma trace_calls:
  assumes "tc_records t = []" and "tc_seq t = 0"
  shows "tc_seq (foldl trace_call t cs) = length cs \<and> tc_capacity (foldl trace_call t cs) = tc_capacity t \<and>
    tc_records (foldl trace_call t cs) = keep_last (tc_capacity t) (map2 nth_record [1..<Suc (length cs)] cs)"
proof (induction cs rule: rev_induct)
  case Nil
  with assms show ?case by simp
next
  case (snoc c cs)
  define t' where "t' = foldl trace_call t cs"
  have step: "foldl trace_call t (cs @ [c]) = trace_call t' c" by (simp add: t'_def)
  let ?k = "length cs"
  have zip: "map2 nth_record [1..<Suc (length (cs @ [c]))] (cs @ [c]) =
      map2 nth_record [1..<Suc ?k] cs @ [nth_record (Suc ?k) c]"
    using upt_Suc_append [of 1 "Suc ?k"] by (simp del: upt_Suc)
  show ?case
    unfolding step zip using snoc.IH [folded t'_def]
    by (simp add: trace_call_eq append_record_def keep_last_keep_last del: upt_Suc)
qed

datatype tracker_op =
    Record jdict
  | Hook string
  | Mark flt string int "string option" "string option"
  | Pop flt string int

fun tracker_step :: "tracker \<Rightarrow> tracker_op \<Rightarrow> tracker" where
  "tracker_step t (Record e) = snd (tracker_record e t)"
| "tracker_step t (Hook h) = add_hook h t"
| "tracker_step t (Mark now q i src dst) = mark_enqueue now q i src dst t"
| "tracker_step t (Pop now q i) = snd (pop_enqueue_latency_ms now q i t)"

lemma length_dput: "length (dput k v d) = (if dhas d k then length d else Suc (length d))"
  by (induction d) (auto simp: py_simps dhas_def split: if_splits)

lemma length_dpop: "length (dpop k d) \<le> length d"
  by (induction d) (auto simp: py_simps)

text \<open>The table of marks and the buffer stay within their bounds.\<close>

definition tracker_inv :: "tracker \<Rightarrow> bool" where
  "tracker_inv t \<longleftrightarrow> 0 < tk_max_marks t \<and> length (tk_marks t) \<le> tk_max_marks t \<and>
     length (tk_buffer t) \<le> tk_max_events t"

lemma tracker_step_inv:
  "tracker_inv t \<Longrightarrow> tracker_inv (tracker_step t op) \<and> tk_max_marks (tracker_step t op) = tk_max_marks t \<and>
    tk_max_events (tracker_step t op) = tk_max_events t"
  using le_trans [OF length_dpop]
  by (cases op) (auto simp: tracker_inv_def tracker_record_def dispatch_hooks_def buffer_event_def add_hook_def
      mark_enqueue_def pop_enqueue_latency_ms_def length_dput Let_def split: option.splits)

lemma tracker_run_inv:
  "tracker_inv t \<Longrightarrow> tracker_inv (foldl tracker_step t ops) \<and>
    tk_max_marks (foldl tracker_step t ops) = tk_max_marks t \<and> tk_max_events (foldl tracker_step t ops) = tk_max_events t"
  by (induction ops arbitrary: t) (simp_all add: tracker_step_inv)

section \<open>Properties\<close>

text \<open>a tracer holds exactly the latest records, numbered without gaps up to the number of
  calls, each with the signature of its own fields.\<close>

theorem tracer_holds_latest:
  assumes "new_tracer capacity = Inr t"
  shows "tc_records (foldl trace_call t cs) = keep_last (nat capacity) (map2 nth_record [1..<Suc (length cs)] cs) \<and>
    map tr_sequence (tc_records (foldl trace_call t cs)) = [Suc (length cs - nat capacity)..<Suc (length cs)]"
proof -
  have t: "tc_records t = []" "tc_seq t = 0" "tc_capacity t = nat capacity"
    using assms by (auto simp: new_tracer_def split: if_splits)
  have seq: "tr_sequence (nth_record i c) = i" for i c by (simp add: nth_record_def split: prod.split)
  have "map tr_sequence (map2 nth_record [1..<Suc (length cs)] cs) = [1..<Suc (length cs)]"
    by (simp add: seq case_prod_beta comp_def del: upt_Suc)
  with trace_calls [OF t(1,2), of cs] show ?thesis
    by (simp add: t(3) map_keep_last keep_last_upt del: upt_Suc map_map)
qed

theorem tracer_holds_latest_witness:
  "\<exists>t. new_tracer 2 = Inr t \<and> map tr_sequence (tc_records (foldl trace_call t
     (replicate 3 (''0.0'', ''c'', ''ISA'', ''go'', 1, ''0.0'', [])))) = [2, 3]"
proof -
  obtain t where "new_tracer 2 = Inr t" by (simp add: new_tracer_def)
  from tracer_holds_latest [OF this, THEN conjunct2, of "replicate 3 (''0.0'', ''c'', ''ISA'', ''go'', 1, ''0.0'', [])"] this
  show ?thesis by (intro exI [of _ t]) (simp only:, simp add: upt_rec)
qed

text \<open>whatever is recorded, marked and popped, the tracker keeps at most \<open>max_events\<close> events and
  at most four times as many queue marks, never more than 4096.\<close>

theorem tracker_bounded:
  assumes "new_tracker max_events = Inr t"
  shows "length (tk_buffer (foldl tracker_step t ops)) \<le> nat max_events \<and>
    length (tk_marks (foldl tracker_step t ops)) \<le> min 4096 (nat (max_events * 4))"
proof -
  have t: "tracker_inv t" "tk_max_events t = nat max_events" "tk_max_marks t = min 4096 (nat (max_events * 4))"
    using assms by (auto simp: new_tracker_def tracker_inv_def split: if_splits)
  from tracker_run_inv [OF t(1), of ops] show ?thesis unfolding tracker_inv_def t(2,3) by (elim conjE) (simp del: min.bounded_iff)
qed

theorem tracker_bounded_witness:
  "\<exists>t. new_tracker 1 = Inr t \<and> length (tk_marks (foldl tracker_step t
     (map (\<lambda>i. Mark ''0.0'' ''q'' (int i) None None) [0..<9]))) \<le> 4"
proof -
  obtain t where "new_tracker 1 = Inr t" by (simp add: new_tracker_def)
  with tracker_bounded [OF this] show ?thesis by fastforce
qed

end
