(* ===== verification/Cache.thy ===== *)
theory Cache
  imports Telemetry
begin

text \<open>
  \<^verbatim>\<open>core/cache.py\<close>: the content-addressed cache of stage results. A run is named by
  the SHA-256 of its manifest (agent, arguments, workspace files, upstream results); a stored
  result is served without running the sandbox. Objects and index are the texts of their
  files. What the sandboxed agent returns is an argument: an exception or a JSON value, with
  the metrics the hook received, if it was called.

  The lemmas show that a result once computed is what the next equal run is served, that
  whatever the cache serves was the sandbox's result for the same manifest (unless SHA-256
  collides), and that a miss forgets the later stages of its transaction.
\<close>

section \<open>State\<close>

record metrics =
  mt_wall :: flt
  mt_cpu :: flt
  mt_input :: int
  mt_output :: int
  mt_mode :: string
  mt_trace :: string

record cache_telemetry =
  ct_wall :: flt
  ct_cpu :: flt
  ct_bytes :: int
  ct_mode :: string
  ct_trace :: string

record cache_decision =
  cd_fingerprint :: string
  cd_state :: string
  cd_telemetry :: cache_telemetry

record cache =
  ch_objects :: "(string, string) dict"
  ch_index :: "string option"

datatype 'e cache_error =
    AttributeError
  | Sandbox 'e

definition stage_order :: "string list" where
  "stage_order = [''ISA'', ''SAS'', ''CRS'', ''BOA'']"

definition evict_objects :: "cache \<Rightarrow> cache" where
  "evict_objects c = c\<lparr>ch_objects := []\<rparr>"

definition empty_index :: jdict where
  "empty_index = [(''version'', JInt 1), (''transactions'', JObj [])]"

definition load_index :: "cache \<Rightarrow> jdict" where
  "load_index c =
     (case ch_index c of
        None \<Rightarrow> empty_index
      | Some t \<Rightarrow>
          (case loads t of
             Some (JObj raw) \<Rightarrow>
               (let r = (if is_obj (jget raw ''transactions'') then raw else dput ''transactions'' (JObj []) raw)
                in dsetdefault ''version'' (JInt 1) r)
           | _ \<Rightarrow> empty_index))"

definition save_index :: "jdict \<Rightarrow> cache \<Rightarrow> cache" where
  "save_index index c = c\<lparr>ch_index := Some (file_json (JObj index))\<rparr>"

definition fingerprint_manifest :: "jdict \<Rightarrow> string" where
  "fingerprint_manifest manifest = sha256_hex (dumps (JObj manifest))"

text \<open>
  The files that always enter a fingerprint; a workspace is the map from relative paths to
  contents, and a path it does not hold is skipped.
\<close>

definition hashed_files :: "string list" where
  "hashed_files =
     [''DESIGNATED_AGENTS_LIST.md'', ''PF_REPO_INVENTORY_LIST'', ''schema/intake_handshake.json'',
      ''schema/architecture_blueprint.json'', ''schema/risk_clearance.json'']"

definition file_hash :: "string \<Rightarrow> jval" where
  "file_hash content = JObj [(''sha256'', JStr (sha256_hex content)), (''size'', JInt (int (length content)))]"

definition compute_workspace_file_hashes :: "(string, string) dict \<Rightarrow> jdict" where
  "compute_workspace_file_hashes ws =
     List.map_filter (\<lambda>p. map_option (\<lambda>content. (p, file_hash content)) (dget ws p)) hashed_files"

definition cache_manifest :: "jdict \<Rightarrow> jval list \<Rightarrow> jdict \<Rightarrow> jdict \<Rightarrow> string list \<Rightarrow> jdict" where
  "cache_manifest agent_meta args kwargs files upstream =
     [(''agent'', JObj agent_meta), (''call'', JObj [(''args'', JArr args), (''kwargs'', JObj kwargs)]),
      (''workspace_files'', JObj files), (''upstream'', JArr (map JStr upstream))]"

section \<open>Running a stage\<close>

definition try_load :: "string \<Rightarrow> cache \<Rightarrow> jdict option" where
  "try_load fp c =
     (case dget (ch_objects c) fp of
        None \<Rightarrow> None
      | Some t \<Rightarrow> (case loads t of Some (JObj d) \<Rightarrow> Some d | _ \<Rightarrow> None))"

text \<open>The output a stored object offers.\<close>

definition stored_output :: "string \<Rightarrow> cache \<Rightarrow> (jdict \<times> string) option" where
  "stored_output fp c =
     (case try_load fp c of
        None \<Rightarrow> None
      | Some d \<Rightarrow> (case jget d ''output_json'' of JStr s \<Rightarrow> Some (d, s) | _ \<Rightarrow> None))"

definition output_value :: "string \<Rightarrow> jval" where
  "output_value s = (case loads s of None \<Rightarrow> JNull | Some v \<Rightarrow> v)"

text \<open>\<^verbatim>\<open>str(cached.get("telemetry", {}).get("sandbox_trace") or "")\<close>.\<close>

definition cached_trace :: "(jval \<Rightarrow> string) \<Rightarrow> jdict \<Rightarrow> string option" where
  "cached_trace repr d =
     (case dget d ''telemetry'' of
        None \<Rightarrow> Some []
      | Some (JObj m) \<Rightarrow> Some (py_str repr (or_else (jget m ''sandbox_trace'') (JStr [])))
      | Some _ \<Rightarrow> None)"

definition trace_hit :: "flt \<Rightarrow> string option \<Rightarrow> string \<Rightarrow> string \<Rightarrow> int \<Rightarrow> flt \<Rightarrow> tracer option \<Rightarrow> tracer option" where
  "trace_hit now corr stage event bytes latency tr =
     (case (tr, corr) of
        (Some t, Some cid) \<Rightarrow> Some (snd (tracer_record now cid stage event bytes latency [] t))
      | _ \<Rightarrow> tr)"

definition metric_flt :: "(metrics \<Rightarrow> flt) \<Rightarrow> metrics option \<Rightarrow> flt" where
  "metric_flt f m = (case m of None \<Rightarrow> ''0.0'' | Some x \<Rightarrow> float_or_zero (f x))"

definition metric_int :: "(metrics \<Rightarrow> int) \<Rightarrow> metrics option \<Rightarrow> int" where
  "metric_int f m = (case m of None \<Rightarrow> 0 | Some x \<Rightarrow> f x)"

definition metric_str :: "(metrics \<Rightarrow> string) \<Rightarrow> metrics option \<Rightarrow> string" where
  "metric_str f m = (case m of None \<Rightarrow> [] | Some x \<Rightarrow> f x)"

definition object_payload :: "flt \<Rightarrow> string \<Rightarrow> string \<Rightarrow> metrics option \<Rightarrow> jdict \<Rightarrow> jdict" where
  "object_payload now fp output m manifest =
     [(''version'', JInt 1), (''fingerprint'', JStr fp), (''created_at'', JFloat now),
      (''cache_state'', JStr ''CACHE_HIT''), (''output_json'', JStr output),
      (''telemetry'', JObj
        [(''wall_ms'', JFloat (metric_flt mt_wall m)), (''cpu_ms'', JFloat (metric_flt mt_cpu m)),
         (''bytes_transferred'', JInt (metric_int mt_input m + metric_int mt_output m)),
         (''sandbox_mode'', JStr (metric_str mt_mode m)), (''sandbox_trace'', JStr (metric_str mt_trace m))]),
      (''manifest'', JObj manifest)]"

text \<open>The entry of a transaction after a miss at \<open>stage\<close>: the later stages are dropped.\<close>

definition later_stages :: "string \<Rightarrow> string list" where
  "later_stages stage = (if stage \<in> set stage_order then tl (dropWhile (\<lambda>s. s \<noteq> stage) stage_order) else [])"

definition invalidate :: "string \<Rightarrow> string \<Rightarrow> jdict \<Rightarrow> jdict" where
  "invalidate stage fp tx = dput stage (JStr fp) (foldl (\<lambda>t s. dpop s t) tx (later_stages stage))"

definition index_miss :: "string \<Rightarrow> string \<Rightarrow> string \<Rightarrow> cache \<Rightarrow> cache" where
  "index_miss tid stage fp c =
     (let index = load_index c;
          txs = (case jget index ''transactions'' of JObj d \<Rightarrow> d | _ \<Rightarrow> []);
          tx = (case jget txs tid of JObj d \<Rightarrow> d | _ \<Rightarrow> [])
      in save_index (dput ''transactions'' (JObj (dput tid (JObj (invalidate stage fp tx)) txs)) index) c)"

definition store_and_index ::
  "flt \<Rightarrow> string option \<Rightarrow> string \<Rightarrow> string \<Rightarrow> string \<Rightarrow> metrics option \<Rightarrow> jdict \<Rightarrow> cache \<Rightarrow> cache" where
  "store_and_index now tid stage fp output m manifest c =
     (let c1 = c\<lparr>ch_objects := dput fp (file_json (JObj (object_payload now fp output m manifest))) (ch_objects c)\<rparr>
      in (case tid of None \<Rightarrow> c1 | Some t \<Rightarrow> index_miss t stage fp c1))"

definition or_int :: "int \<Rightarrow> int \<Rightarrow> int" where
  "or_int a b = (if a = 0 then b else a)"

text \<open>
  \<open>run_stage\<close>. \<open>sandbox\<close> is the outcome of running the agent, and the last component of the
  result tells whether it was run.
\<close>

definition run_stage ::
  "(jval \<Rightarrow> string) \<Rightarrow> flt \<Rightarrow> ('e, jval \<times> metrics option) res \<Rightarrow> string \<Rightarrow> jdict \<Rightarrow> string option \<Rightarrow> string option
    \<Rightarrow> tracer option \<Rightarrow> cache \<Rightarrow> ('e cache_error, jval \<times> cache_decision) res \<times> tracer option \<times> cache \<times> bool" where
  "run_stage repr now sandbox stage manifest corr tid tr c =
     (let fp = fingerprint_manifest manifest in
      case stored_output fp c of
        Some (d, output) \<Rightarrow>
          (case cached_trace repr d of
             None \<Rightarrow> (Inl AttributeError, tr, c, False)
           | Some trace \<Rightarrow>
               (let bytes = int (length output);
                    decision = \<lparr>cd_fingerprint = fp, cd_state = ''CACHE_HIT'',
                      cd_telemetry = \<lparr>ct_wall = ''0.0'', ct_cpu = ''0.0'', ct_bytes = bytes, ct_mode = ''cache'',
                        ct_trace = trace\<rparr>\<rparr>
                in (Inr (output_value output, decision), trace_hit now corr stage ''CACHE_HIT'' bytes ''0.0'' tr, c, False)))
      | None \<Rightarrow>
          (case sandbox of
             Inl e \<Rightarrow> (Inl (Sandbox e), tr, c, True)
           | Inr (v, m) \<Rightarrow>
               (let output = dumps v;
                    out_bytes = int (length output);
                    c1 = store_and_index now tid stage fp output m manifest c;
                    decision = \<lparr>cd_fingerprint = fp, cd_state = ''CACHE_MISS'',
                      cd_telemetry = \<lparr>ct_wall = metric_flt mt_wall m, ct_cpu = metric_flt mt_cpu m,
                        ct_bytes = metric_int mt_input m + or_int (metric_int mt_output m) out_bytes,
                        ct_mode = metric_str mt_mode m, ct_trace = metric_str mt_trace m\<rparr>\<rparr>
                in (Inr (v, decision), trace_hit now corr stage ''CACHE_MISS'' out_bytes (metric_flt mt_wall m) tr, c1, True))))"

section \<open>Stored objects\<close>

definition metrics_wf :: "metrics option \<Rightarrow> bool" where
  "metrics_wf m \<longleftrightarrow> wf_flt (metric_flt mt_wall m) \<and> wf_flt (metric_flt mt_cpu m)"

lemma stored_output_put:
  assumes "wf_json (JObj (object_payload now fp output m manifest))"
    and "dget (ch_objects c) fp = Some (file_json (JObj (object_payload now fp output m manifest)))"
  shows "stored_output fp c = Some (canon_dict (object_payload now fp output m manifest), output)"
proof -
  let ?p = "object_payload now fp output m manifest"
  have "wf_dict ?p" using assms(1) by (simp add: wf_dict_def)
  then have "jget (canon_dict ?p) ''output_json'' = JStr output"
    by (simp add: jget_canon object_payload_def)
  with assms show ?thesis
    by (simp add: stored_output_def try_load_def loads_file_json canon_JObj del: canon.simps)
qed

lemma objects_save_index [simp]: "ch_objects (save_index i c) = ch_objects c"
  by (simp add: save_index_def)

lemma objects_store:
  "ch_objects (store_and_index now tid stage fp output m manifest c) =
    dput fp (file_json (JObj (object_payload now fp output m manifest))) (ch_objects c)"
  by (simp add: store_and_index_def index_miss_def Let_def split: option.split)

lemma wf_object_payload:
  "wf_json (JObj (object_payload now fp output m manifest)) \<longleftrightarrow>
    wf_flt now \<and> metrics_wf m \<and> wf_json (JObj manifest)"
  by (auto simp: object_payload_def metrics_wf_def)

lemma cached_trace_stored:
  assumes "wf_json (JObj (object_payload now fp output m manifest))"
  shows "cached_trace repr (canon_dict (object_payload now fp output m manifest)) = Some (metric_str mt_trace m)"
proof -
  let ?p = "object_payload now fp output m manifest"
  let ?t = "[(''wall_ms'', JFloat (metric_flt mt_wall m)), (''cpu_ms'', JFloat (metric_flt mt_cpu m)),
         (''bytes_transferred'', JInt (metric_int mt_input m + metric_int mt_output m)),
         (''sandbox_mode'', JStr (metric_str mt_mode m)), (''sandbox_trace'', JStr (metric_str mt_trace m))]"
  have "wf_dict ?p" using assms by (simp add: wf_dict_def)
  then have "dget (canon_dict ?p) ''telemetry'' = Some (JObj (canon_dict ?t))"
    by (simp add: dget_canon_dict object_payload_def canon_JObj del: canon.simps)
  moreover have "jget (canon_dict ?t) ''sandbox_trace'' = JStr (metric_str mt_trace m)"
    by (subst jget_canon) (simp_all add: wf_dict_def)
  ultimately show ?thesis
    by (simp add: cached_trace_def or_else_def py_str_def)
qed

section \<open>What the cache holds\<close>

text \<open>One call; an exception of the agent is named by its text.\<close>

record stage_call =
  sc_now :: flt
  sc_outcome :: "(string, jval \<times> metrics option) res"
  sc_stage :: string
  sc_manifest :: jdict
  sc_correlation :: "string option"
  sc_transaction :: "string option"

definition run_call ::
  "(jval \<Rightarrow> string) \<Rightarrow> stage_call \<Rightarrow> tracer option \<Rightarrow> cache
    \<Rightarrow> (string cache_error, jval \<times> cache_decision) res \<times> tracer option \<times> cache \<times> bool" where
  "run_call repr k tr c =
     run_stage repr (sc_now k) (sc_outcome k) (sc_stage k) (sc_manifest k) (sc_correlation k) (sc_transaction k) tr c"

definition call_wf :: "stage_call \<Rightarrow> bool" where
  "call_wf k \<longleftrightarrow> wf_flt (sc_now k) \<and> wf_json (JObj (sc_manifest k)) \<and>
     (case sc_outcome k of Inl e \<Rightarrow> True | Inr (v, m) \<Rightarrow> wf_json v \<and> metrics_wf m)"

text \<open>
  A history of a cache: the runs it went through, with evictions in between, and the results
  the sandbox returned in them with the manifests they were computed for.
\<close>

inductive cache_run :: "(jval \<Rightarrow> string) \<Rightarrow> cache \<Rightarrow> (jdict \<times> jval) list \<Rightarrow> bool" for repr where
  fresh: "ch_objects c = [] \<Longrightarrow> cache_run repr c []"
| evicted: "cache_run repr c ps \<Longrightarrow> cache_run repr (evict_objects c) ps"
| served: "cache_run repr c ps \<Longrightarrow> run_call repr k tr c = (r, tr', c', False) \<Longrightarrow> cache_run repr c' ps"
| raised: "cache_run repr c ps \<Longrightarrow> run_call repr k tr c = (Inl e, tr', c', True) \<Longrightarrow> cache_run repr c' ps"
| computed: "cache_run repr c ps \<Longrightarrow> call_wf k \<Longrightarrow> run_call repr k tr c = (Inr (v, d), tr', c', True)
    \<Longrightarrow> cache_run repr c' (ps @ [(sc_manifest k, v)])"

definition holds_object :: "(jdict \<times> jval) list \<Rightarrow> string \<Rightarrow> string \<Rightarrow> bool" where
  "holds_object ps fp t \<longleftrightarrow> (\<exists>now m manifest v. (manifest, v) \<in> set ps \<and> fp = fingerprint_manifest manifest \<and>
     wf_json v \<and> wf_json (JObj manifest) \<and> wf_json (JObj (object_payload now fp (dumps v) m manifest)) \<and>
     t = file_json (JObj (object_payload now fp (dumps v) m manifest)))"

lemma holds_object_mono: "holds_object ps fp t \<Longrightarrow> set ps \<subseteq> set qs \<Longrightarrow> holds_object qs fp t"
  unfolding holds_object_def by blast

lemma run_call_cases:
  assumes "run_call repr k tr c = (r, tr', c', b)"
  shows "if b then stored_output (fingerprint_manifest (sc_manifest k)) c = None \<and>
           (case sc_outcome k of Inl e \<Rightarrow> r = Inl (Sandbox e) \<and> c' = c
            | Inr (v, m) \<Rightarrow> (\<exists>d. r = Inr (v, d) \<and> cd_fingerprint d = fingerprint_manifest (sc_manifest k)) \<and>
                c' = store_and_index (sc_now k) (sc_transaction k) (sc_stage k) (fingerprint_manifest (sc_manifest k))
                       (dumps v) m (sc_manifest k) c)
         else c' = c \<and> (\<exists>d output. stored_output (fingerprint_manifest (sc_manifest k)) c = Some (d, output) \<and>
           (r = Inl AttributeError \<or> (\<exists>dec. r = Inr (output_value output, dec) \<and>
             cd_fingerprint dec = fingerprint_manifest (sc_manifest k))))"
proof (cases "stored_output (fingerprint_manifest (sc_manifest k)) c")
  case None
  with assms show ?thesis
    by (cases "sc_outcome k") (auto simp: run_call_def run_stage_def Let_def split: prod.splits)
next
  case (Some x)
  with assms show ?thesis
    by (cases x) (auto simp: run_call_def run_stage_def Let_def split: option.splits)
qed

lemma cache_run_holds:
  "cache_run repr c ps \<Longrightarrow> dget (ch_objects c) fp = Some t \<Longrightarrow> holds_object ps fp t"
proof (induction arbitrary: fp t rule: cache_run.induct)
  case (fresh c)
  then show ?case by simp
next
  case (evicted c ps)
  then show ?case by (simp add: evict_objects_def)
next
  case (served c ps k tr r tr' c')
  from run_call_cases [OF served.hyps(2)] served show ?case by simp
next
  case (raised c ps k tr e tr' c')
  from run_call_cases [OF raised.hyps(2)] raised show ?case by (auto split: sum.splits)
next
  case (computed c ps k tr v d tr' c')
  let ?fp = "fingerprint_manifest (sc_manifest k)"
  obtain m where m: "sc_outcome k = Inr (v, m)"
    and c': "c' = store_and_index (sc_now k) (sc_transaction k) (sc_stage k) ?fp (dumps v) m (sc_manifest k) c"
    using run_call_cases [OF computed.hyps(3)] by (auto split: sum.splits prod.splits)
  show ?case
  proof (cases "fp = ?fp")
    case True
    with computed.prems computed.hyps(2) m c' show ?thesis
      unfolding holds_object_def
      by (intro exI [of _ "sc_now k"] exI [of _ m] exI [of _ "sc_manifest k"] exI [of _ v])
        (simp add: objects_store dget_dput call_wf_def wf_object_payload del: wf_json.simps)
  next
    case False
    with computed.prems c' have "dget (ch_objects c) fp = Some t" by (simp add: objects_store dget_dput)
    from computed.IH [OF this] show ?thesis by (rule holds_object_mono) auto
  qed
qed

section \<open>The index\<close>

definition tx_entry :: "string \<Rightarrow> cache \<Rightarrow> jdict" where
  "tx_entry tid c =
     (case jget (load_index c) ''transactions'' of
        JObj txs \<Rightarrow> (case jget txs tid of JObj d \<Rightarrow> d | _ \<Rightarrow> [])
      | _ \<Rightarrow> [])"

lemma wf_dict_dput_json:
  "wf_json (JObj d) \<Longrightarrow> wf_json v \<Longrightarrow> wf_json (JObj (dput k v d))"
proof -
  assume d: "wf_json (JObj d)" and v: "wf_json v"
  have "(k', v') \<in> set (dput k v d) \<Longrightarrow> v' = v \<or> (k', v') \<in> set d" for k' v'
    by (induction d) (auto simp: py_simps split: if_splits)
  with d v show ?thesis
    unfolding wf_json.simps list_all_iff wf_dict_def [symmetric] by (metis prod.collapse wf_dict_dput)
qed

lemma wf_json_dpop: "wf_json (JObj d) \<Longrightarrow> wf_json (JObj (dpop k d))"
proof -
  assume d: "wf_json (JObj d)"
  have "set (dpop k d) \<subseteq> set d" by (induction d) (auto simp: py_simps split: if_splits)
  with d show ?thesis
    unfolding wf_json.simps list_all_iff wf_dict_def [symmetric] by (metis subset_iff wf_dict_dpop)
qed

lemma wf_json_jget: "wf_json (JObj d) \<Longrightarrow> wf_json (jget d k)"
  by (fastforce simp: jget_def list_all_iff dest: dget_in_set split: option.split)

lemma wf_json_members: "wf_json v \<Longrightarrow> wf_json (JObj (case v of JObj d \<Rightarrow> d | _ \<Rightarrow> []))"
  by (cases v) simp_all

lemma wf_tx_entry:
  assumes "wf_json (JObj (load_index c))"
  shows "wf_json (JObj (tx_entry tid c))"
proof (cases "jget (load_index c) ''transactions''")
  case (JObj txs)
  with wf_json_jget [OF assms] have "wf_json (JObj txs)" by metis
  from wf_json_members [OF wf_json_jget [OF this]] JObj show ?thesis
    by (simp add: tx_entry_def del: wf_json.simps)
qed (simp_all add: tx_entry_def)

lemma invalidate_get:
  assumes "wf_json (JObj tx)"
  shows "wf_json (JObj (invalidate stage fp tx)) \<and>
    jget (invalidate stage fp tx) s = (if s = stage then JStr fp else if s \<in> set (later_stages stage) then JNull else jget tx s)"
proof -
  have "wf_json (JObj (foldl (\<lambda>t s. dpop s t) tx ss)) \<and>
      dget (foldl (\<lambda>t s. dpop s t) tx ss) s = (if s \<in> set ss then None else dget tx s)" for ss
    using assms by (induction ss arbitrary: tx) (auto simp: wf_json_dpop dget_dpop simp del: wf_json.simps)
  then show ?thesis
    by (auto simp: invalidate_def jget_def dget_dput simp del: wf_json.simps(3) intro!: wf_dict_dput_json)
qed

lemma load_saved:
  assumes "wf_json (JObj index)" and "is_obj (jget index ''transactions'')" and "dhas index ''version''"
  shows "load_index (save_index index c) = canon_dict index"
proof -
  have wf: "wf_dict index" using assms(1) by (simp add: wf_dict_def)
  then have "is_obj (jget (canon_dict index) ''transactions'')" "dhas (canon_dict index) ''version''"
    using assms(2,3) by (simp_all add: jget_canon dhas_def dget_canon_dict)
  with assms(1) show ?thesis
    by (simp add: load_index_def save_index_def loads_file_json canon_JObj dsetdefault_def del: canon.simps)
qed

lemma load_index_ok: "is_obj (jget (load_index c) ''transactions'') \<and> dhas (load_index c) ''version''"
proof -
  have "is_obj (jget (dsetdefault ''version'' (JInt 1) r) ''transactions'') \<and> dhas (dsetdefault ''version'' (JInt 1) r) ''version''"
    if "is_obj (jget r ''transactions'')" for r
    using that by (simp add: dsetdefault_def dhas_def jget_def dget_dput split: option.splits)
  then show ?thesis
    by (auto simp: load_index_def empty_index_def dhas_def jget_dput Let_def split: option.split jval.split)
qed

lemma index_miss_entry:
  assumes "wf_json (JObj (load_index c))"
  shows "wf_json (JObj (load_index (index_miss tid stage fp c))) \<and>
    tx_entry tid (index_miss tid stage fp c) = canon_dict (invalidate stage fp (tx_entry tid c))"
proof -
  obtain txs where txs: "jget (load_index c) ''transactions'' = JObj txs"
    using load_index_ok [of c] by (cases "jget (load_index c) ''transactions''") auto
  define tx where "tx = (case jget txs tid of JObj d \<Rightarrow> d | _ \<Rightarrow> [])"
  define txs' where "txs' = dput tid (JObj (invalidate stage fp tx)) txs"
  define index where "index = dput ''transactions'' (JObj txs') (load_index c)"
  have wt: "wf_json (JObj txs)" using wf_json_jget [OF assms] txs by metis
  then have "wf_json (JObj tx)"
    using wf_json_jget [OF wt, of tid] by (auto simp: tx_def split: jval.split)
  then have wt': "wf_json (JObj txs')"
    unfolding txs'_def by (intro wf_dict_dput_json wt) (simp add: invalidate_get del: wf_json.simps)
  then have wi: "wf_json (JObj index)" unfolding index_def by (intro wf_dict_dput_json assms)
  have ld: "load_index (index_miss tid stage fp c) = canon_dict index"
    using load_saved [OF wi] load_index_ok [of c]
    by (simp add: index_miss_def txs Let_def tx_def [symmetric] txs'_def [symmetric] index_def [symmetric])
      (simp add: index_def jget_dput dhas_def dget_dput)
  have d: "wf_dict index" "wf_dict txs'" using wi wt' by (simp_all add: wf_dict_def)
  have "tx_entry tid (index_miss tid stage fp c) = canon_dict (invalidate stage fp tx)"
    by (simp add: tx_entry_def ld jget_canon [OF d(1)])
      (simp add: index_def jget_dput canon_JObj jget_canon [OF d(2)] del: canon.simps,
       simp add: txs'_def jget_dput canon_JObj del: canon.simps)
  moreover have "tx_entry tid c = tx" by (simp add: tx_entry_def txs tx_def)
  moreover have "wf_json (JObj (canon_dict index))" using wf_canon [OF wi] by (simp add: canon_JObj del: canon.simps wf_json.simps)
  ultimately show ?thesis by (simp add: ld del: wf_json.simps)
qed

section \<open>A sample run\<close>

definition demo_call :: stage_call where
  "demo_call = \<lparr>sc_now = ''0.0'', sc_outcome = Inr (JInt 7, None), sc_stage = ''SAS'', sc_manifest = [],
     sc_correlation = None, sc_transaction = Some ''t''\<rparr>"

definition demo_cache :: cache where
  "demo_cache = \<lparr>ch_objects = [], ch_index = None\<rparr>"

text \<open>A \<^verbatim>\<open>repr\<close> for the sample runs, which never print a container.\<close>

definition demo_repr :: "jval \<Rightarrow> string" where
  "demo_repr v = []"

lemma demo_call_wf: "call_wf demo_call"
  by (simp add: call_wf_def demo_call_def metrics_wf_def metric_flt_def wf_flt_zero)

lemma demo_run:
  "\<exists>d c. run_call repr demo_call None demo_cache = (Inr (JInt 7, d), None, c, True)"
  by (simp add: run_call_def demo_call_def demo_cache_def run_stage_def stored_output_def try_load_def
      trace_hit_def Let_def)

section \<open>Properties\<close>

text \<open>a result the sandbox computed is what the next run with the same manifest is served,
  with the same fingerprint and without running the sandbox.\<close>

theorem hit_after_miss:
  assumes "run_call repr k tr c = (Inr (v, d), tr1, c1, True)" and "call_wf k"
    and "sc_manifest k' = sc_manifest k"
  shows "\<exists>d' tr2. run_call repr k' tr' c1 = (Inr (canon v, d'), tr2, c1, False) \<and>
    cd_fingerprint d' = cd_fingerprint d \<and> cd_state d' = ''CACHE_HIT''"
proof -
  let ?fp = "fingerprint_manifest (sc_manifest k)"
  obtain m where m: "sc_outcome k = Inr (v, m)" and d: "cd_fingerprint d = ?fp"
    and c1: "c1 = store_and_index (sc_now k) (sc_transaction k) (sc_stage k) ?fp (dumps v) m (sc_manifest k) c"
    using run_call_cases [OF assms(1)] by (auto split: sum.splits prod.splits)
  have wf: "wf_json (JObj (object_payload (sc_now k) ?fp (dumps v) m (sc_manifest k)))" and v: "wf_json v"
    using assms(2) m by (simp_all add: call_wf_def wf_object_payload del: wf_json.simps)
  have "stored_output ?fp c1 = Some (canon_dict (object_payload (sc_now k) ?fp (dumps v) m (sc_manifest k)), dumps v)"
    by (rule stored_output_put [OF wf]) (simp add: c1 objects_store)
  then show ?thesis
    using cached_trace_stored [OF wf, of repr] loads_dumps [OF v] assms(3) d
    by (simp add: run_call_def run_stage_def output_value_def Let_def)
qed

theorem hit_after_miss_witness:
  "\<exists>d c d'. run_call demo_repr demo_call None demo_cache = (Inr (JInt 7, d), None, c, True) \<and>
    run_call demo_repr demo_call None c = (Inr (JInt 7, d'), None, c, False)"
proof -
  obtain d c where r: "run_call demo_repr demo_call None demo_cache = (Inr (JInt 7, d), None, c, True)"
    using demo_run by blast
  obtain d' tr2 where h: "run_call demo_repr demo_call None c = (Inr (canon (JInt 7), d'), tr2, c, False)"
    using hit_after_miss [OF r demo_call_wf refl] by blast
  have "tr2 = None"
    using h by (auto simp: run_call_def run_stage_def demo_call_def Let_def trace_hit_def split: option.splits)
  with r h show ?thesis by auto
qed

text \<open>whatever a cache serves is the result the sandbox returned for the same manifest, up to
  the order of keys, unless two texts have the same SHA-256.\<close>

theorem served_result_is_own:
  assumes "cache_run repr c ps" and "run_call repr k tr c = (Inr (r, d), tr', c', False)"
    and "no_collision {t. t = dumps (JObj (sc_manifest k)) \<or> (\<exists>p \<in> set ps. t = dumps (JObj (fst p)))}"
    and "wf_json (JObj (sc_manifest k))"
  shows "\<exists>manifest v. (manifest, v) \<in> set ps \<and> r = canon v \<and> canon (JObj manifest) = canon (JObj (sc_manifest k))"
proof -
  let ?fp = "fingerprint_manifest (sc_manifest k)"
  obtain d0 out where st: "stored_output ?fp c = Some (d0, out)" and r: "r = output_value out"
    using run_call_cases [OF assms(2)] by auto
  then obtain t where t: "dget (ch_objects c) ?fp = Some t"
    by (auto simp: stored_output_def try_load_def split: option.splits)
  obtain now m manifest v where h: "(manifest, v) \<in> set ps" "?fp = fingerprint_manifest manifest" "wf_json v"
      "wf_json (JObj manifest)" "wf_json (JObj (object_payload now ?fp (dumps v) m manifest))"
      "t = file_json (JObj (object_payload now ?fp (dumps v) m manifest))"
    using cache_run_holds [OF assms(1) t] unfolding holds_object_def by blast
  from stored_output_put [OF h(5)] t h(6) st have "out = dumps v" by simp
  with r h(3) have "r = canon v" by (simp add: output_value_def loads_dumps)
  moreover have "dumps (JObj (sc_manifest k)) = dumps (JObj manifest)"
    by (rule no_collisionD [OF assms(3)]) (use h(1,2) in \<open>force simp: fingerprint_manifest_def\<close>)+
  then have "canon (JObj manifest) = canon (JObj (sc_manifest k))"
    using dumps_eq_canon [OF h(4) assms(4)] by simp
  ultimately show ?thesis using h(1) by blast
qed

theorem served_result_is_own_witness:
  "\<exists>c d. run_call demo_repr demo_call None c = (Inr (JInt 7, d), None, c, False) \<and>
    (\<exists>manifest v. (manifest, v) \<in> set [([], JInt 7)] \<and> JInt 7 = canon v \<and> canon (JObj manifest) = canon (JObj []))"
proof -
  obtain d c where r: "run_call demo_repr demo_call None demo_cache = (Inr (JInt 7, d), None, c, True)"
    using demo_run by blast
  have "cache_run demo_repr c ([] @ [(sc_manifest demo_call, JInt 7)])"
    by (rule cache_run.computed [OF cache_run.fresh demo_call_wf r]) (simp add: demo_cache_def)
  then have run: "cache_run demo_repr c [([], JInt 7)]" by (simp add: demo_call_def)
  have w: "wf_json (JObj (object_payload ''0.0'' (fingerprint_manifest []) (dumps (JInt 7)) None []))"
    by (simp add: object_payload_def metric_flt_def wf_flt_zero)
  have s: "stored_output (fingerprint_manifest []) c = Some (canon_dict (object_payload ''0.0'' (fingerprint_manifest [])
      (dumps (JInt 7)) None []), dumps (JInt 7))"
    using run_call_cases [OF r] w by (intro stored_output_put) (auto simp: demo_call_def objects_store simp del: wf_json.simps)
  have "\<exists>d'. run_call demo_repr demo_call None c = (Inr (JInt 7, d'), None, c, False)"
    using s cached_trace_stored [OF w, of demo_repr] loads_dumps [of "JInt 7"]
    by (simp add: run_call_def demo_call_def run_stage_def output_value_def trace_hit_def Let_def del: dumps.simps)
  then obtain d' where h: "run_call demo_repr demo_call None c = (Inr (JInt 7, d'), None, c, False)" ..
  have "\<exists>manifest v. (manifest, v) \<in> set [([], JInt 7)] \<and> JInt 7 = canon v \<and>
      canon (JObj manifest) = canon (JObj (sc_manifest demo_call))"
    by (rule served_result_is_own [OF run h]) (simp_all add: no_collision_def demo_call_def)
  with h show ?thesis by (auto simp: demo_call_def)
qed



end
