(* ===== verification/Dag_Engine.thy ===== *)
theory Dag_Engine
  imports Cache
begin

text \<open>
  \<^verbatim>\<open>core/dag_engine.py\<close>: the engine that runs a graph of agent calls. The state is what
  the engine and the coroutine \<open>_execute_all\<close> hold; a step is the code between two awaits of
  the scheduler loop, of a node's task or of the prefetcher, and a run is any sequence of steps.
  What the cache, the sandbox and the transaction of a node answer comes with the step.

  The lemmas show that the drain of the ready queue terminates, and that every step keeps the
  order of execution: a node leaves the pending state only when all it depends on is done, the
  trace has each start once and after the completion of its dependencies, and a running call
  holds the fingerprints of all of them.
\<close>

section \<open>Nodes\<close>

record node_spec =
  ns_id :: string
  ns_stage :: string
  ns_agent :: jdict
  ns_fn :: string
  ns_label :: string
  ns_depends :: "string list"
  ns_upstream :: "(string \<times> string list) list"
  ns_args :: "jval list"
  ns_kwargs :: jdict
  ns_inputs :: "string list"
  ns_gated :: bool

datatype status = Pending | Running | Done | Failed

record node_result =
  nr_value :: jval
  nr_fingerprint :: string
  nr_state :: string

record node =
  nd_spec :: node_spec
  nd_status :: status
  nd_result :: "node_result option"

text \<open>
  Where a node's task is: before its start, inside the sandbox with the manifest of its call,
  or about to report.
\<close>

datatype phase = Waiting | Executing jdict | Returning

datatype loop = Prefetching "string list" bool | Awaiting | Finished | Crashed

datatype trace_event =
    Node_Start string
  | Node_End string
  | Node_Fail string
  | Prefetch_Hit string

record dag =
  dg_nodes :: "(string, node) dict"
  dg_dependents :: "(string, string list) dict"
  dg_remaining :: "(string, int) dict"
  dg_ready :: "string list"
  dg_processed :: "string set"
  dg_tasks :: "(string, phase) dict"
  dg_doneq :: "string list"
  dg_loop :: loop
  dg_gates :: "string set"
  dg_compat :: bool
  dg_failed :: bool
  dg_trace :: "trace_event list"

text \<open>\<open>cmp\<close>: the task group is \<open>_CompatTaskGroup\<close>.\<close>

definition new_dag :: "bool \<Rightarrow> dag" where
  "new_dag cmp =
     \<lparr>dg_nodes = [], dg_dependents = [], dg_remaining = [], dg_ready = [], dg_processed = {}, dg_tasks = [],
      dg_doneq = [], dg_loop = Finished, dg_gates = {}, dg_compat = cmp, dg_failed = False, dg_trace = []\<rparr>"

definition add_dependent :: "string \<Rightarrow> (string, string list) dict \<Rightarrow> string \<Rightarrow> (string, string list) dict" where
  "add_dependent child d parent =
     dput parent ((case dget d parent of None \<Rightarrow> [] | Some cs \<Rightarrow> cs) @ [child]) d"

definition add_node :: "node_spec \<Rightarrow> dag \<Rightarrow> (string, dag) res" where
  "add_node sp s =
     (if dhas (dg_nodes s) (ns_id sp) then Inl (''Duplicate node_id: '' @ ns_id sp)
      else Inr (s\<lparr>dg_nodes := dput (ns_id sp) \<lparr>nd_spec = sp, nd_status = Pending, nd_result = None\<rparr> (dg_nodes s),
                  dg_dependents := foldl (add_dependent (ns_id sp))
                    (dsetdefault (ns_id sp) [] (dg_dependents s)) (ns_depends sp)\<rparr>))"

fun add_nodes :: "node_spec list \<Rightarrow> dag \<Rightarrow> (string, dag) res" where
  "add_nodes [] s = Inr s"
| "add_nodes (sp # sps) s = res_bind (add_node sp s) (add_nodes sps)"

section \<open>Calls\<close>

definition node_at :: "dag \<Rightarrow> string \<Rightarrow> node option" where
  "node_at s nid = dget (dg_nodes s) nid"

definition is_done :: "dag \<Rightarrow> string \<Rightarrow> bool" where
  "is_done s nid \<longleftrightarrow> (case node_at s nid of None \<Rightarrow> False | Some n \<Rightarrow> nd_status n = Done)"

definition set_node :: "string \<Rightarrow> (node \<Rightarrow> node) \<Rightarrow> dag \<Rightarrow> dag" where
  "set_node nid f s = (case node_at s nid of None \<Rightarrow> s | Some n \<Rightarrow> s\<lparr>dg_nodes := dput nid (f n) (dg_nodes s)\<rparr>)"

definition workspace_hashes_for_node :: "(string, string) dict \<Rightarrow> node_spec \<Rightarrow> jdict" where
  "workspace_hashes_for_node ws sp =
     foldl (\<lambda>h p. case dget ws p of None \<Rightarrow> h | Some content \<Rightarrow> dput p (file_hash content) h)
       (compute_workspace_file_hashes ws) (ns_inputs sp)"

text \<open>The result of a reference; a missing node raises, a node without result reads as \<^verbatim>\<open>None\<close>.\<close>

definition ref_value :: "dag \<Rightarrow> string \<Rightarrow> jval option" where
  "ref_value s r =
     map_option (\<lambda>n. case nd_result n of None \<Rightarrow> JNull | Some x \<Rightarrow> nr_value x) (node_at s r)"

fun ref_values :: "dag \<Rightarrow> string list \<Rightarrow> jval list option" where
  "ref_values s [] = Some []"
| "ref_values s (r # rs) =
     (case ref_value s r of None \<Rightarrow> None | Some v \<Rightarrow> map_option (Cons v) (ref_values s rs))"

definition injected :: "dag \<Rightarrow> string list \<Rightarrow> jval option" where
  "injected s refs = (if length refs = 1 then ref_value s (hd refs) else map_option JArr (ref_values s refs))"

fun build_kwargs :: "dag \<Rightarrow> (string \<times> string list) list \<Rightarrow> jdict \<Rightarrow> jdict option" where
  "build_kwargs s [] out = Some out"
| "build_kwargs s ((k, refs) # us) out =
     (case injected s refs of None \<Rightarrow> None | Some v \<Rightarrow> build_kwargs s us (dput k v out))"

definition agent_meta :: "node_spec \<Rightarrow> jdict" where
  "agent_meta sp =
     [(''role'', jget (ns_agent sp) ''role''), (''module'', jget (ns_agent sp) ''module''),
      (''class'', jget (ns_agent sp) ''class''), (''config'', jget (ns_agent sp) ''config''),
      (''fn'', JStr (ns_fn sp)), (''label'', JStr (ns_label sp))]"

definition call_manifest :: "node_spec \<Rightarrow> string list \<Rightarrow> jdict \<Rightarrow> jdict \<Rightarrow> jdict" where
  "call_manifest sp upstream files kwargs =
     cache_manifest (agent_meta sp) (ns_args sp) (dupdate (ns_kwargs sp) kwargs) files upstream"

definition fingerprint_for :: "node_spec \<Rightarrow> string list \<Rightarrow> jdict \<Rightarrow> jdict \<Rightarrow> string" where
  "fingerprint_for sp upstream files kwargs = fingerprint_manifest (call_manifest sp upstream files kwargs)"

definition peek_cache_object :: "string \<Rightarrow> cache \<Rightarrow> jval option" where
  "peek_cache_object fp c =
     (case stored_output fp c of
        None \<Rightarrow> None
      | Some (d, out) \<Rightarrow> (case loads out of None \<Rightarrow> None | Some v \<Rightarrow> if v = JNull then None else Some v))"

text \<open>The fingerprints of the dependencies that have results, in order.\<close>

definition result_of :: "dag \<Rightarrow> string \<Rightarrow> node_result option" where
  "result_of s nid = (case node_at s nid of None \<Rightarrow> None | Some n \<Rightarrow> nd_result n)"

definition upstream_fps :: "dag \<Rightarrow> node_spec \<Rightarrow> string list" where
  "upstream_fps s sp = map nr_fingerprint (List.map_filter (result_of s) (ns_depends sp))"

section \<open>The prefetcher\<close>

text \<open>
  The dependencies of a pending node in order: an unknown one raises, one that is not done
  stops the search.
\<close>

datatype deps_state = All_Done | Not_Yet | Missing

fun scan_deps :: "dag \<Rightarrow> string list \<Rightarrow> deps_state" where
  "scan_deps s [] = All_Done"
| "scan_deps s (p # ps) =
     (case node_at s p of
        None \<Rightarrow> Missing
      | Some n \<Rightarrow> if nd_status n = Done then scan_deps s ps else Not_Yet)"

definition node_scan :: "dag \<Rightarrow> node \<Rightarrow> deps_state" where
  "node_scan s n = (if nd_status n = Pending then scan_deps s (ns_depends (nd_spec n)) else Not_Yet)"

definition prefetch_candidates :: "dag \<Rightarrow> string list option" where
  "prefetch_candidates s =
     (let ns = dvalues (dg_nodes s) in
      if list_ex (\<lambda>n. node_scan s n = Missing) ns then None
      else Some (map (\<lambda>n. ns_id (nd_spec n)) (filter (\<lambda>n. node_scan s n = All_Done) ns)))"

text \<open>
  One candidate of \<open>_prefetch_ready\<close>: \<open>None\<close> when it raises, otherwise whether it was warmed.
  \<open>ws\<close> and \<open>c\<close> are the workspace and the cache as the step sees them.
\<close>

definition warm_node :: "string \<Rightarrow> (string, string) dict \<Rightarrow> cache \<Rightarrow> dag \<Rightarrow> (bool \<times> dag) option" where
  "warm_node nid ws c s =
     (case node_at s nid of
        None \<Rightarrow> None
      | Some n \<Rightarrow>
          (let sp = nd_spec n in
           if nd_status n \<noteq> Pending then Some (False, s)
           else if list_ex (\<lambda>p. node_at s p = None) (ns_depends sp) then None
           else if list_ex (\<lambda>p. result_of s p = None) (ns_depends sp) then Some (False, s)
           else
             (case build_kwargs s (ns_upstream sp) [] of
                None \<Rightarrow> None
              | Some kw \<Rightarrow>
                  (let fp = fingerprint_for sp (upstream_fps s sp) (workspace_hashes_for_node ws sp) kw in
                   case peek_cache_object fp c of
                     None \<Rightarrow> Some (False, s)
                   | Some v \<Rightarrow>
                       Some (True, (set_node nid (\<lambda>n. n\<lparr>nd_status := Done, nd_result := Some
                           \<lparr>nr_value = v, nr_fingerprint = fp, nr_state = ''PREDICTIVE_CACHE_HIT''\<rparr>\<rparr>) s)
                         \<lparr>dg_trace := dg_trace s @ [Prefetch_Hit nid]\<rparr>)))))"

section \<open>The scheduler loop\<close>

definition release_child :: "dag \<Rightarrow> string \<Rightarrow> dag" where
  "release_child s child =
     (let r = (case dget (dg_remaining s) child of None \<Rightarrow> 0 | Some k \<Rightarrow> k) - 1;
          s1 = s\<lparr>dg_remaining := dput child r (dg_remaining s)\<rparr>
      in if r = 0 then s1\<lparr>dg_ready := dg_ready s1 @ [child]\<rparr> else s1)"

definition process_done :: "string \<Rightarrow> dag \<Rightarrow> dag" where
  "process_done nid s =
     (if nid \<in> dg_processed s then s
      else foldl release_child (s\<lparr>dg_processed := insert nid (dg_processed s)\<rparr>)
             (case dget (dg_dependents s) nid of None \<Rightarrow> [] | Some cs \<Rightarrow> cs))"

definition sweep :: "dag \<Rightarrow> dag" where
  "sweep s = foldl (\<lambda>t nid. if is_done t nid then process_done nid t else t) s (dkeys (dg_nodes s))"

definition unprocessed :: "dag \<Rightarrow> nat" where
  "unprocessed s = card (set (dkeys (dg_nodes s)) - dg_processed s)"

lemma release_children_frame [simp]:
  "dg_nodes (foldl release_child s cs) = dg_nodes s"
  "dg_processed (foldl release_child s cs) = dg_processed s"
  "dg_tasks (foldl release_child s cs) = dg_tasks s"
  "dg_doneq (foldl release_child s cs) = dg_doneq s"
  "dg_loop (foldl release_child s cs) = dg_loop s"
  "dg_trace (foldl release_child s cs) = dg_trace s"
  "dg_failed (foldl release_child s cs) = dg_failed s"
  "dg_compat (foldl release_child s cs) = dg_compat s"
  "dg_dependents (foldl release_child s cs) = dg_dependents s"
  "dg_gates (foldl release_child s cs) = dg_gates s"
  by (induction cs arbitrary: s) (simp_all add: release_child_def Let_def)

lemma process_done_frame [simp]:
  "dg_nodes (process_done nid s) = dg_nodes s"
  "dg_tasks (process_done nid s) = dg_tasks s"
  "dg_doneq (process_done nid s) = dg_doneq s"
  "dg_loop (process_done nid s) = dg_loop s"
  "dg_trace (process_done nid s) = dg_trace s"
  "dg_failed (process_done nid s) = dg_failed s"
  "dg_compat (process_done nid s) = dg_compat s"
  "dg_dependents (process_done nid s) = dg_dependents s"
  "dg_gates (process_done nid s) = dg_gates s"
  "dg_processed (process_done nid s) = insert nid (dg_processed s)"
  by (auto simp: process_done_def)

lemma process_done_measure:
  assumes "node_at s nid = Some n" and "dg_ready s = nid # rest"
  shows "unprocessed (process_done nid (s\<lparr>dg_ready := rest\<rparr>)) < unprocessed s \<or>
    unprocessed (process_done nid (s\<lparr>dg_ready := rest\<rparr>)) = unprocessed s \<and>
    length (dg_ready (process_done nid (s\<lparr>dg_ready := rest\<rparr>))) < length (dg_ready s)"
proof (cases "nid \<in> dg_processed s")
  case True
  then show ?thesis using assms(2) by (simp add: unprocessed_def process_done_def)
next
  case False
  have "nid \<in> set (dkeys (dg_nodes s))"
    using assms(1) by (auto simp: node_at_def dkeys_def dest: dget_in_set) (metis dget_in_set fst_conv image_eqI)
  with False have "set (dkeys (dg_nodes s)) - insert nid (dg_processed s) \<subset> set (dkeys (dg_nodes s)) - dg_processed s"
    by blast
  then show ?thesis by (simp add: unprocessed_def psubset_card_mono)
qed

text \<open>
  \<^verbatim>\<open>while ready\<close>: nodes that are done are processed on the spot, which may make more
  nodes ready; the others get a task.
\<close>

function drain :: "dag \<Rightarrow> dag" where
  "drain s =
     (case dg_ready s of
        [] \<Rightarrow> s
      | nid # rest \<Rightarrow>
          (let s1 = s\<lparr>dg_ready := rest\<rparr> in
           case node_at s nid of
             None \<Rightarrow> s1\<lparr>dg_loop := Crashed\<rparr>
           | Some n \<Rightarrow>
               if nd_status n = Done then drain (process_done nid s1)
               else if nd_status n = Failed then s1\<lparr>dg_loop := Crashed\<rparr>
               else if dhas (dg_tasks s) nid then drain s1
               else drain (s1\<lparr>dg_tasks := dput nid Waiting (dg_tasks s)\<rparr>)))"
  by pat_completeness auto

termination
proof (relation "inv_image (less_than <*lex*> less_than) (\<lambda>s. (unprocessed s, length (dg_ready s)))", goal_cases)
  case 1
  show ?case by (intro wf_inv_image wf_lex_prod wf_less_than)
next
  case (2 s nid rest s1 n)
  then show ?case using process_done_measure [of s nid n rest] by (simp add: in_lex_prod)
qed (simp_all add: unprocessed_def)

declare drain.simps [simp del]

definition all_processed :: "dag \<Rightarrow> bool" where
  "all_processed s \<longleftrightarrow> card (dg_processed s) \<ge> length (dg_nodes s)"

text \<open>Back at the head of the loop: the test, and the search for candidates.\<close>

definition loop_head :: "dag \<Rightarrow> dag" where
  "loop_head s =
     (if all_processed s then s\<lparr>dg_loop := Finished\<rparr>
      else (case prefetch_candidates s of
              None \<Rightarrow> s\<lparr>dg_loop := Crashed\<rparr>
            | Some cs \<Rightarrow> s\<lparr>dg_loop := Prefetching cs False\<rparr>))"

definition start_run :: "dag \<Rightarrow> (string, dag) res" where
  "start_run s =
     (if dg_nodes s = [] then Inl ''No DAG nodes registered''
      else
        (let s1 = s\<lparr>dg_remaining := map (\<lambda>(nid, n). (nid, int (length (ns_depends (nd_spec n))))) (dg_nodes s),
                    dg_ready := map fst (filter (\<lambda>(nid, n). ns_depends (nd_spec n) = []) (dg_nodes s)),
                    dg_processed := {}, dg_tasks := [], dg_doneq := []\<rparr>
         in Inr (loop_head s1)))"

definition loop_warm :: "(string, string) dict \<Rightarrow> cache \<Rightarrow> dag \<Rightarrow> dag" where
  "loop_warm ws c s =
     (case dg_loop s of
        Prefetching (nid # cs) w \<Rightarrow>
          (case warm_node nid ws c s of
             None \<Rightarrow> s\<lparr>dg_loop := Crashed\<rparr>
           | Some (b, s1) \<Rightarrow> s1\<lparr>dg_loop := Prefetching cs (w \<or> b)\<rparr>)
      | _ \<Rightarrow> s)"

definition loop_tick :: "dag \<Rightarrow> dag" where
  "loop_tick s =
     (case dg_loop s of
        Prefetching [] w \<Rightarrow>
          (let s1 = drain (if w then sweep s else s) in
           if dg_loop s1 = Crashed then s1
           else if all_processed s1 then s1\<lparr>dg_loop := Finished\<rparr> else s1\<lparr>dg_loop := Awaiting\<rparr>)
      | _ \<Rightarrow> s)"

text \<open>The end of \<^verbatim>\<open>wait_for(done_q.get(), 0.05)\<close>, with an item or by timeout.\<close>

definition loop_wake :: "dag \<Rightarrow> dag" where
  "loop_wake s =
     (if dg_loop s \<noteq> Awaiting then s
      else (case dg_doneq s of
              [] \<Rightarrow> loop_head s
            | nid # q \<Rightarrow> loop_head (process_done nid (s\<lparr>dg_doneq := q\<rparr>))))"

section \<open>Tasks\<close>

text \<open>
  A task that raises: \<^verbatim>\<open>asyncio.TaskGroup\<close> cancels its siblings, which marks the running ones
  failed, and ends the loop; the substitute does neither.
\<close>

definition cancel_node :: "dag \<Rightarrow> string \<times> phase \<Rightarrow> dag" where
  "cancel_node s t =
     (case t of
        (nid, Executing m) \<Rightarrow> (set_node nid (\<lambda>n. n\<lparr>nd_status := Failed\<rparr>) s)\<lparr>dg_trace := dg_trace s @ [Node_Fail nid]\<rparr>
      | _ \<Rightarrow> s)"

definition task_raises :: "string \<Rightarrow> dag \<Rightarrow> dag" where
  "task_raises nid s =
     (let s1 = s\<lparr>dg_tasks := dpop nid (dg_tasks s), dg_failed := True\<rparr> in
      if dg_compat s then s1
      else (foldl cancel_node s1 (dg_tasks s1))\<lparr>dg_tasks := [], dg_loop := Crashed\<rparr>)"

text \<open>The wait for the dependencies, in order: unknown and failed ones raise.\<close>

datatype wait_state = Go | Wait | Raise

fun wait_deps :: "dag \<Rightarrow> string list \<Rightarrow> wait_state" where
  "wait_deps s [] = Go"
| "wait_deps s (p # ps) =
     (case node_at s p of
        None \<Rightarrow> Raise
      | Some n \<Rightarrow> (case nd_status n of Done \<Rightarrow> wait_deps s ps | Failed \<Rightarrow> Raise | _ \<Rightarrow> Wait))"

definition set_phase :: "string \<Rightarrow> phase \<Rightarrow> dag \<Rightarrow> dag" where
  "set_phase nid p s = s\<lparr>dg_tasks := dput nid p (dg_tasks s)\<rparr>"

definition task_begin :: "string \<Rightarrow> (string, string) dict \<Rightarrow> dag \<Rightarrow> dag" where
  "task_begin nid ws s =
     (if dget (dg_tasks s) nid \<noteq> Some Waiting then s
      else
        (case node_at s nid of
           None \<Rightarrow> s
         | Some n \<Rightarrow>
             (case wait_deps s (ns_depends (nd_spec n)) of
                Wait \<Rightarrow> s
              | Raise \<Rightarrow> task_raises nid s
              | Go \<Rightarrow>
                  if ns_gated (nd_spec n) \<and> nid \<notin> dg_gates s then s
                  else if nd_status n \<noteq> Pending then set_phase nid Returning s
                  else
                    (let sp = nd_spec n; s1 = set_node nid (\<lambda>n. n\<lparr>nd_status := Running\<rparr>) s in
                     case build_kwargs s (ns_upstream sp) [] of
                       None \<Rightarrow> task_raises nid s1
                     | Some kw \<Rightarrow>
                         set_phase nid (Executing (call_manifest sp (upstream_fps s sp)
                             (workspace_hashes_for_node ws sp) kw))
                           (s1\<lparr>dg_trace := dg_trace s @ [Node_Start nid]\<rparr>)))))"

text \<open>
  The end of the \<^verbatim>\<open>try\<close> block: what \<open>run_stage\<close> and the commit of the transaction gave,
  or \<open>None\<close> for an exception.
\<close>

definition task_finish :: "string \<Rightarrow> (jval \<times> cache_decision) option \<Rightarrow> dag \<Rightarrow> dag" where
  "task_finish nid r s =
     (case dget (dg_tasks s) nid of
        Some (Executing m) \<Rightarrow>
          (case r of
             None \<Rightarrow> task_raises nid ((set_node nid (\<lambda>n. n\<lparr>nd_status := Failed\<rparr>) s)
                       \<lparr>dg_trace := dg_trace s @ [Node_Fail nid]\<rparr>)
           | Some (v, d) \<Rightarrow>
               set_phase nid Returning ((set_node nid (\<lambda>n. n\<lparr>nd_status := Done, nd_result := Some
                   \<lparr>nr_value = v, nr_fingerprint = cd_fingerprint d, nr_state = cd_state d\<rparr>\<rparr>) s)
                 \<lparr>dg_trace := dg_trace s @ [Node_End nid]\<rparr>))
      | _ \<Rightarrow> s)"

definition task_return :: "string \<Rightarrow> dag \<Rightarrow> dag" where
  "task_return nid s =
     (if dget (dg_tasks s) nid = Some Returning
      then s\<lparr>dg_tasks := dpop nid (dg_tasks s), dg_doneq := dg_doneq s @ [nid]\<rparr> else s)"

text \<open>The background prefetcher; an exception ends it without touching the run.\<close>

definition background_warm :: "string \<Rightarrow> (string, string) dict \<Rightarrow> cache \<Rightarrow> dag \<Rightarrow> dag" where
  "background_warm nid ws c s = (case warm_node nid ws c s of None \<Rightarrow> s | Some (b, s1) \<Rightarrow> s1)"

section \<open>Steps\<close>

datatype dag_event =
    Loop_Warm "(string, string) dict" cache
  | Loop_Tick
  | Loop_Wake
  | Task_Begin string "(string, string) dict"
  | Task_Finish string "(jval \<times> cache_decision) option"
  | Task_Return string
  | Background string "(string, string) dict" cache
  | Open_Gate string

fun dag_step :: "dag \<Rightarrow> dag_event \<Rightarrow> dag" where
  "dag_step s (Loop_Warm ws c) = loop_warm ws c s"
| "dag_step s Loop_Tick = loop_tick s"
| "dag_step s Loop_Wake = loop_wake s"
| "dag_step s (Task_Begin nid ws) = task_begin nid ws s"
| "dag_step s (Task_Finish nid r) = task_finish nid r s"
| "dag_step s (Task_Return nid) = task_return nid s"
| "dag_step s (Background nid ws c) = background_warm nid ws c s"
| "dag_step s (Open_Gate nid) = s\<lparr>dg_gates := insert nid (dg_gates s)\<rparr>"

definition dag_run :: "dag \<Rightarrow> dag_event list \<Rightarrow> dag" where
  "dag_run s es = foldl dag_step s es"

text \<open>\<open>run\<close> returns: the loop has ended and the task group has no task left and saw no failure.\<close>

definition returned :: "dag \<Rightarrow> bool" where
  "returned s \<longleftrightarrow> dg_loop s = Finished \<and> dg_tasks s = [] \<and> \<not> dg_failed s"

definition run_results :: "dag \<Rightarrow> (string \<times> node_result) list" where
  "run_results s = List.map_filter (\<lambda>(nid, n). map_option (\<lambda>r. (nid, r)) (nd_result n)) (dg_nodes s)"

section \<open>Order of execution\<close>

definition completed :: "string \<Rightarrow> trace_event list \<Rightarrow> bool" where
  "completed nid tr \<longleftrightarrow> Node_End nid \<in> set tr \<or> Prefetch_Hit nid \<in> set tr"

fun is_start :: "trace_event \<Rightarrow> bool" where
  "is_start (Node_Start nid) = True"
| "is_start _ = False"

definition deps_of :: "dag \<Rightarrow> string \<Rightarrow> string list" where
  "deps_of s nid = (case node_at s nid of None \<Rightarrow> [] | Some n \<Rightarrow> ns_depends (nd_spec n))"

text \<open>
  A node that has left the pending state has only finished dependencies; the trace has each
  start once, after the completion of the dependencies; a running call has the fingerprints
  of all dependencies in its manifest.
\<close>

definition nodes_inv :: "dag \<Rightarrow> bool" where
  "nodes_inv s \<longleftrightarrow> (\<forall>nid n. node_at s nid = Some n \<longrightarrow>
     (nd_result n \<noteq> None \<longleftrightarrow> nd_status n = Done) \<and>
     (nd_status n \<noteq> Pending \<longrightarrow> (\<forall>p \<in> set (ns_depends (nd_spec n)). is_done s p)))"

definition trace_inv :: "dag \<Rightarrow> bool" where
  "trace_inv s \<longleftrightarrow> (\<forall>nid. is_done s nid \<longrightarrow> completed nid (dg_trace s)) \<and>
     (\<forall>xs nid ys. dg_trace s = xs @ Node_Start nid # ys \<longrightarrow> (\<forall>p \<in> set (deps_of s nid). completed p xs)) \<and>
     (\<forall>nid. Node_Start nid \<in> set (dg_trace s) \<longrightarrow> (\<exists>n. node_at s nid = Some n \<and> nd_status n \<noteq> Pending)) \<and>
     distinct (filter is_start (dg_trace s))"

definition calls_inv :: "dag \<Rightarrow> bool" where
  "calls_inv s \<longleftrightarrow> (\<forall>nid m. dget (dg_tasks s) nid = Some (Executing m) \<longrightarrow>
     (\<exists>n. node_at s nid = Some n \<and> nd_status n = Running \<and>
       jget m ''upstream'' = JArr (map JStr (upstream_fps s (nd_spec n)))))"

definition order_inv :: "dag \<Rightarrow> bool" where
  "order_inv s \<longleftrightarrow> nodes_inv s \<and> trace_inv s \<and> calls_inv s \<and> wf_dict (dg_tasks s)"

lemma dpop_twice [simp]: "dpop k (dpop k d) = dpop k d"
  by (induction d) (auto simp: py_simps)

lemma node_at_set: "node_at (set_node nid f s) k = (if k = nid then map_option f (node_at s nid) else node_at s k)"
  by (simp add: node_at_def set_node_def dget_dput split: option.split)

lemma set_node_frame [simp]:
  "dg_trace (set_node nid f s) = dg_trace s" "dg_tasks (set_node nid f s) = dg_tasks s"
  "dg_loop (set_node nid f s) = dg_loop s" "dg_failed (set_node nid f s) = dg_failed s"
  "dg_compat (set_node nid f s) = dg_compat s" "dg_ready (set_node nid f s) = dg_ready s"
  "dg_processed (set_node nid f s) = dg_processed s" "dg_doneq (set_node nid f s) = dg_doneq s"
  "dg_remaining (set_node nid f s) = dg_remaining s" "dg_dependents (set_node nid f s) = dg_dependents s"
  by (simp_all add: set_node_def split: option.split)

text \<open>What the engine may do to a node.\<close>

definition upd_ok :: "dag \<Rightarrow> string \<Rightarrow> (node \<Rightarrow> node) \<Rightarrow> bool" where
  "upd_ok s nid f \<longleftrightarrow> (\<forall>n. node_at s nid = Some n \<longrightarrow>
     nd_spec (f n) = nd_spec n \<and> (nd_result (f n) \<noteq> None \<longleftrightarrow> nd_status (f n) = Done) \<and>
     nd_status n \<noteq> Done \<and> nd_status (f n) \<noteq> Pending \<and> (\<forall>p \<in> set (ns_depends (nd_spec n)). is_done s p))"

lemma is_done_iff: "is_done s nid \<longleftrightarrow> (\<exists>n. node_at s nid = Some n \<and> nd_status n = Done)"
  by (simp add: is_done_def split: option.split)

lemma is_done_set: "upd_ok s nid f \<Longrightarrow> is_done s p \<Longrightarrow> is_done (set_node nid f s) p"
  unfolding is_done_iff by (cases "p = nid") (auto simp: node_at_set upd_ok_def)

lemma deps_of_set: "upd_ok s nid f \<Longrightarrow> deps_of (set_node nid f s) k = deps_of s k"
  by (auto simp: deps_of_def node_at_set upd_ok_def split: option.splits)

lemma nodes_set: "nodes_inv s \<Longrightarrow> upd_ok s nid f \<Longrightarrow> nodes_inv (set_node nid f s)"
  unfolding nodes_inv_def using is_done_set [of s nid f]
  by (auto simp: node_at_set upd_ok_def)

lemma upstream_set:
  assumes "upd_ok s nid f" and "\<forall>p \<in> set (ns_depends sp). is_done s p"
  shows "upstream_fps (set_node nid f s) sp = upstream_fps s sp"
proof -
  have "result_of (set_node nid f s) p = result_of s p" if "is_done s p" for p
    using that assms(1) by (auto simp: result_of_def is_done_def node_at_set upd_ok_def split: option.splits)
  with assms(2) have "map (result_of (set_node nid f s)) (ns_depends sp) = map (result_of s) (ns_depends sp)" by simp
  then show ?thesis by (simp add: upstream_fps_def List.map_filter_def comp_def cong: map_cong filter_cong)
qed

lemma views:
  assumes "dg_nodes t = dg_nodes s"
  shows "node_at t = node_at s" "is_done t = is_done s" "deps_of t = deps_of s" "upstream_fps t = upstream_fps s"
    "nodes_inv t = nodes_inv s"
proof -
  show n: "node_at t = node_at s" using assms by (simp add: node_at_def fun_eq_iff)
  then show d: "is_done t = is_done s" by (simp add: is_done_def fun_eq_iff)
  from n show "deps_of t = deps_of s" by (simp add: deps_of_def fun_eq_iff)
  from n have "result_of t = result_of s" by (simp add: result_of_def fun_eq_iff)
  then show "upstream_fps t = upstream_fps s" by (intro ext) (simp add: upstream_fps_def)
  from n d show "nodes_inv t = nodes_inv s" by (simp add: nodes_inv_def)
qed

text \<open>Steps that only move the loop or tasks that are not executing.\<close>

lemma order_inv_view:
  assumes "order_inv s" and "dg_nodes t = dg_nodes s" and "dg_trace t = dg_trace s"
    and "wf_dict (dg_tasks s) \<Longrightarrow> wf_dict (dg_tasks t)"
    and "\<And>nid m. dget (dg_tasks t) nid = Some (Executing m) \<Longrightarrow> dget (dg_tasks s) nid = Some (Executing m)"
  shows "order_inv t"
  using assms by (auto simp: order_inv_def trace_inv_def calls_inv_def views [OF assms(2)])

lemma snoc_split: "xs @ [e] = ys @ z # zs \<longleftrightarrow> (zs = [] \<and> xs = ys \<and> e = z) \<or> (\<exists>ws. zs = ws @ [e] \<and> xs = ys @ z # ws)"
  by (cases zs rule: rev_cases) auto

lemma completed_mono: "completed p xs \<Longrightarrow> completed p (xs @ ys)"
  by (auto simp: completed_def)

text \<open>An update of a node with the event it leaves.\<close>

lemma trace_set:
  assumes "trace_inv s" and "nodes_inv s" and "upd_ok s nid f" and "node_at s nid = Some n"
    and "nd_status (f n) = Done \<Longrightarrow> completed nid [e]"
    and "is_start e \<Longrightarrow> e = Node_Start nid \<and> nd_status n = Pending"
    and "dg_nodes t = dg_nodes (set_node nid f s)" and "dg_trace t = dg_trace s @ [e]"
  shows "trace_inv t"
proof -
  let ?t = "set_node nid f s"
  note u = assms(3)
  have dn: "is_done ?t k \<longleftrightarrow> (if k = nid then nd_status (f n) = Done else is_done s k)" for k
    using assms(4) by (simp add: is_done_def node_at_set)
  have st: "\<exists>n. node_at ?t k = Some n \<and> nd_status n \<noteq> Pending" if "Node_Start k \<in> set (dg_trace s @ [e])" for k
    using that assms(1,4,6) u by (auto simp: trace_inv_def node_at_set upd_ok_def)
  have "completed k (dg_trace s @ [e])" if "is_done ?t k" for k
    using that assms(1,5) dn [of k] by (auto simp: trace_inv_def completed_def split: if_splits)
  moreover have "\<forall>p \<in> set (deps_of ?t k). completed p xs" if eq: "dg_trace s @ [e] = xs @ Node_Start k # ys" for xs k ys
  proof -
    consider "xs = dg_trace s" "e = Node_Start k" | ws where "dg_trace s = xs @ Node_Start k # ws"
      using eq [unfolded snoc_split] by blast
    then show ?thesis
    proof cases
      case 1
      then have "k = nid" using assms(6) by simp
      with u assms(4) have "\<forall>p \<in> set (deps_of s k). is_done s p" by (simp add: upd_ok_def deps_of_def)
      with assms(1) 1 show ?thesis unfolding deps_of_set [OF u] by (simp add: trace_inv_def)
    next
      case 2
      with assms(1) show ?thesis unfolding deps_of_set [OF u] trace_inv_def by blast
    qed
  qed
  moreover have "Node_Start nid \<notin> set (dg_trace s)" if "is_start e"
    using assms(1,4) assms(6) [OF that] by (auto simp: trace_inv_def)
  then have "distinct (filter is_start (dg_trace s @ [e]))"
    using assms(1,6) by (auto simp: trace_inv_def)
  ultimately show ?thesis
    using st unfolding trace_inv_def views [OF assms(7)] assms(8) by blast
qed

lemma calls_set:
  assumes "calls_inv s" and "nodes_inv s" and "upd_ok s nid f" and "dg_nodes t = dg_nodes (set_node nid f s)"
    and "\<And>k m. k \<noteq> nid \<Longrightarrow> dget (dg_tasks t) k = Some (Executing m) \<Longrightarrow> dget (dg_tasks s) k = Some (Executing m)"
    and "\<And>m n. dget (dg_tasks t) nid = Some (Executing m) \<Longrightarrow> node_at s nid = Some n \<Longrightarrow> nd_status (f n) = Running \<and>
       jget m ''upstream'' = JArr (map JStr (upstream_fps s (nd_spec n)))"
    and "node_at s nid \<noteq> None"
  shows "calls_inv t"
  unfolding calls_inv_def
proof (intro allI impI)
  fix k m
  assume t: "dget (dg_tasks t) k = Some (Executing m)"
  note v = views [OF assms(4)]
  show "\<exists>n. node_at t k = Some n \<and> nd_status n = Running \<and> jget m ''upstream'' = JArr (map JStr (upstream_fps t (nd_spec n)))"
  proof (cases "k = nid")
    case True
    obtain n where n: "node_at s nid = Some n" using assms(7) by auto
    with assms(3) have d: "\<forall>p \<in> set (ns_depends (nd_spec n)). is_done s p" "nd_spec (f n) = nd_spec n"
      by (auto simp: upd_ok_def)
    from assms(6) [OF t [unfolded True] n] n d upstream_set [OF assms(3), of "nd_spec n"] show ?thesis
      by (simp add: v node_at_set True)
  next
    case False
    from assms(1) assms(5) [OF False t] obtain n where n: "node_at s k = Some n" "nd_status n = Running"
      "jget m ''upstream'' = JArr (map JStr (upstream_fps s (nd_spec n)))" by (auto simp: calls_inv_def)
    with assms(2) have "\<forall>p \<in> set (ns_depends (nd_spec n)). is_done s p" by (auto simp: nodes_inv_def)
    from upstream_set [OF assms(3) this] n False show ?thesis by (simp add: v node_at_set)
  qed
qed

lemma order_set:
  assumes "order_inv s" and "upd_ok s nid f" and "node_at s nid = Some n"
    and "nd_status (f n) = Done \<Longrightarrow> completed nid [e]" and "is_start e \<Longrightarrow> e = Node_Start nid \<and> nd_status n = Pending"
    and "dg_nodes t = dg_nodes (set_node nid f s)" and "dg_trace t = dg_trace s @ [e]"
    and "wf_dict (dg_tasks s) \<Longrightarrow> wf_dict (dg_tasks t)"
    and "\<And>k m. k \<noteq> nid \<Longrightarrow> dget (dg_tasks t) k = Some (Executing m) \<Longrightarrow> dget (dg_tasks s) k = Some (Executing m)"
    and "\<And>m. dget (dg_tasks t) nid = Some (Executing m) \<Longrightarrow> nd_status (f n) = Running \<and>
       jget m ''upstream'' = JArr (map JStr (upstream_fps s (nd_spec n)))"
  shows "order_inv t"
proof -
  from assms(1) have i: "nodes_inv s" "trace_inv s" "calls_inv s" "wf_dict (dg_tasks t)"
    using assms(8) by (simp_all add: order_inv_def)
  have "nodes_inv t" using nodes_set [OF i(1) assms(2)] views(5) [OF assms(6)] by simp
  moreover have "trace_inv t"
    by (rule trace_set [OF i(2,1) assms(2,3) _ _ assms(6,7)]) (use assms(4,5) in auto)
  moreover have "calls_inv t"
    by (rule calls_set [OF i(3,1) assms(2,6)]) (use assms(3,9,10) in auto)
  ultimately show ?thesis using i(4) by (simp add: order_inv_def)
qed

lemma map_filter_Nil_iff: "list_ex P xs = False \<longleftrightarrow> (\<forall>x \<in> set xs. \<not> P x)"
  by (auto simp: list_ex_iff)

lemma wait_deps_Go: "wait_deps s ps = Go \<Longrightarrow> p \<in> set ps \<Longrightarrow> is_done s p"
  by (induction ps) (auto simp: is_done_iff split: option.splits status.splits)

lemma calls_running:
  "calls_inv s \<Longrightarrow> dget (dg_tasks s) nid = Some (Executing m) \<Longrightarrow> node_at s nid = Some n \<Longrightarrow> nd_status n = Running \<and>
     jget m ''upstream'' = JArr (map JStr (upstream_fps s (nd_spec n)))"
  unfolding calls_inv_def by fastforce

lemma order_warm:
  assumes "order_inv s" and "warm_node nid ws c s = Some (b, t)"
  shows "order_inv t \<and> (\<forall>k. is_done s k \<longrightarrow> is_done t k)"
proof (cases b)
  case False
  with assms show ?thesis by (auto simp: warm_node_def Let_def split: option.splits if_splits)
next
  case True
  with assms(2) obtain n where n: "node_at s nid = Some n" "nd_status n = Pending"
    and res: "\<forall>p \<in> set (ns_depends (nd_spec n)). result_of s p \<noteq> None"
    by (auto simp: warm_node_def Let_def list_ex_iff split: option.splits if_splits)
  with assms(2) True obtain kw v where t: "t = (set_node nid (\<lambda>n. n\<lparr>nd_status := Done, nd_result := Some \<lparr>nr_value = v,
        nr_fingerprint = fingerprint_for (nd_spec n) (upstream_fps s (nd_spec n)) (workspace_hashes_for_node ws (nd_spec n)) kw,
        nr_state = ''PREDICTIVE_CACHE_HIT''\<rparr>\<rparr>) s)\<lparr>dg_trace := dg_trace s @ [Prefetch_Hit nid]\<rparr>"
    by (force simp: warm_node_def set_node_def Let_def list_ex_iff split: option.splits if_splits)
  let ?f = "\<lambda>n. n\<lparr>nd_status := Done, nd_result := Some \<lparr>nr_value = v,
        nr_fingerprint = fingerprint_for (nd_spec n) (upstream_fps s (nd_spec n)) (workspace_hashes_for_node ws (nd_spec n)) kw,
        nr_state = ''PREDICTIVE_CACHE_HIT''\<rparr>\<rparr>"
  from assms(1) have i: "nodes_inv s" "calls_inv s" by (simp_all add: order_inv_def)
  have "\<forall>p \<in> set (ns_depends (nd_spec n)). is_done s p"
    using res i(1) by (fastforce simp: result_of_def is_done_iff nodes_inv_def split: option.splits)
  then have u: "upd_ok s nid ?f" using n by (auto simp: upd_ok_def)
  have "order_inv t"
    by (rule order_set [OF assms(1) u n(1), of "Prefetch_Hit nid"])
      (use calls_running [OF i(2) _ n(1)] n(2) in \<open>auto simp: t completed_def\<close>)
  moreover have "is_done t k" if "is_done s k" for k
    using is_done_set [OF u that] views(2) [of t "set_node nid ?f s"] by (simp add: t)
  ultimately show ?thesis by blast
qed

lemma sweep_frame [simp]:
  "dg_nodes (sweep s) = dg_nodes s" "dg_trace (sweep s) = dg_trace s" "dg_tasks (sweep s) = dg_tasks s"
  "dg_failed (sweep s) = dg_failed s" "dg_loop (sweep s) = dg_loop s" "dg_compat (sweep s) = dg_compat s"
proof -
  have "dg_nodes (foldl (\<lambda>t nid. if is_done t nid then process_done nid t else t) s ks) = dg_nodes s \<and>
    dg_trace (foldl (\<lambda>t nid. if is_done t nid then process_done nid t else t) s ks) = dg_trace s \<and>
    dg_tasks (foldl (\<lambda>t nid. if is_done t nid then process_done nid t else t) s ks) = dg_tasks s \<and>
    dg_failed (foldl (\<lambda>t nid. if is_done t nid then process_done nid t else t) s ks) = dg_failed s \<and>
    dg_loop (foldl (\<lambda>t nid. if is_done t nid then process_done nid t else t) s ks) = dg_loop s \<and>
    dg_compat (foldl (\<lambda>t nid. if is_done t nid then process_done nid t else t) s ks) = dg_compat s" for ks
    by (induction ks arbitrary: s) simp_all
  then show "dg_nodes (sweep s) = dg_nodes s" "dg_trace (sweep s) = dg_trace s" "dg_tasks (sweep s) = dg_tasks s"
    "dg_failed (sweep s) = dg_failed s" "dg_loop (sweep s) = dg_loop s" "dg_compat (sweep s) = dg_compat s"
    by (simp_all add: sweep_def)
qed

lemma drain_frame:
  "dg_nodes (drain s) = dg_nodes s \<and> dg_trace (drain s) = dg_trace s \<and> dg_failed (drain s) = dg_failed s \<and>
   dg_compat (drain s) = dg_compat s \<and>
   (wf_dict (dg_tasks s) \<longrightarrow> wf_dict (dg_tasks (drain s))) \<and>
   (\<forall>nid m. dget (dg_tasks (drain s)) nid = Some (Executing m) \<longrightarrow> dget (dg_tasks s) nid = Some (Executing m))"
proof (induction s rule: drain.induct)
  case (1 s)
  show ?case
  proof (cases "dg_ready s")
    case Nil
    then show ?thesis by (subst (1 2 3 4 5 6) drain.simps) simp
  next
    case (Cons nid rest)
    show ?thesis
    proof (cases "node_at s nid")
      case None
      with Cons show ?thesis by (subst (1 2 3 4 5 6) drain.simps) simp
    next
      case (Some n)
      note IH = 1 [OF Cons refl Some]
      consider (over) "nd_status n = Done" | (failed) "nd_status n = Failed"
        | (busy) "nd_status n \<notin> {Done, Failed}" "dhas (dg_tasks s) nid"
        | (task) "nd_status n \<notin> {Done, Failed}" "\<not> dhas (dg_tasks s) nid" by auto
      then show ?thesis
      proof cases
        case over
        then have "drain s = drain (process_done nid (s\<lparr>dg_ready := rest\<rparr>))"
          by (subst drain.simps) (simp add: Cons Some)
        with IH(1) over show ?thesis by simp
      next
        case failed
        then have "drain s = s\<lparr>dg_ready := rest, dg_loop := Crashed\<rparr>"
          by (subst drain.simps) (simp add: Cons Some)
        then show ?thesis by simp
      next
        case busy
        then have "drain s = drain (s\<lparr>dg_ready := rest\<rparr>)"
          by (subst drain.simps) (simp add: Cons Some)
        with IH(2) busy show ?thesis by simp
      next
        case task
        then have "drain s = drain (s\<lparr>dg_ready := rest, dg_tasks := dput nid Waiting (dg_tasks s)\<rparr>)"
          by (subst drain.simps) (simp add: Cons Some)
        moreover have "dget (dg_tasks s) k = Some (Executing m)" if "dget (dput nid Waiting (dg_tasks s)) k = Some (Executing m)" for k m
          using that by (simp add: dget_dput split: if_splits)
        ultimately show ?thesis using IH(3) task by simp
      qed
    qed
  qed
qed

lemma loop_head_frame [simp]:
  "dg_nodes (loop_head s) = dg_nodes s" "dg_trace (loop_head s) = dg_trace s" "dg_tasks (loop_head s) = dg_tasks s"
  "dg_failed (loop_head s) = dg_failed s" "dg_compat (loop_head s) = dg_compat s"
  by (simp_all add: loop_head_def split: option.split)

lemma order_loop_upd [simp]: "order_inv (s\<lparr>dg_loop := l\<rparr>) = order_inv s"
  by (rule iffI; erule order_inv_view) simp_all

lemma order_tick: "order_inv s \<Longrightarrow> order_inv (loop_tick s)"
proof -
  assume i: "order_inv s"
  have d: "order_inv (drain t)" if "dg_nodes t = dg_nodes s" "dg_trace t = dg_trace s" "dg_tasks t = dg_tasks s" for t
    by (rule order_inv_view [OF i]) (use drain_frame [of t] that in auto)
  define t where "t w = drain (if w then sweep s else s)" for w
  have "order_inv (t w)" for w unfolding t_def by (rule d) simp_all
  with i show ?thesis unfolding loop_tick_def t_def [symmetric]
    by (simp add: Let_def split: loop.split list.split)
qed

lemma loop_wake_frame [simp]:
  "dg_nodes (loop_wake s) = dg_nodes s" "dg_trace (loop_wake s) = dg_trace s" "dg_tasks (loop_wake s) = dg_tasks s"
  "dg_failed (loop_wake s) = dg_failed s" "dg_compat (loop_wake s) = dg_compat s"
  by (simp_all add: loop_wake_def split: list.split)

lemma order_wake: "order_inv s \<Longrightarrow> order_inv (loop_wake s)"
  by (erule order_inv_view) simp_all

lemma order_loop_warm: "order_inv s \<Longrightarrow> order_inv (loop_warm ws c s)"
  unfolding loop_warm_def
  by (auto split: loop.split list.split option.split dest: order_warm)

lemma order_fail:
  assumes "order_inv s" and "node_at s nid = Some n" and "nd_status n = Running" and "dget (dg_tasks t) nid = None"
    and "dg_nodes t = dg_nodes (set_node nid (\<lambda>n. n\<lparr>nd_status := Failed\<rparr>) s)"
    and "dg_trace t = dg_trace s @ [Node_Fail nid]"
    and "wf_dict (dg_tasks s) \<Longrightarrow> wf_dict (dg_tasks t)"
    and "\<And>k m. dget (dg_tasks t) k = Some (Executing m) \<Longrightarrow> dget (dg_tasks s) k = Some (Executing m)"
  shows "order_inv t"
proof -
  from assms(1) have i: "nodes_inv s" by (simp add: order_inv_def)
  with assms(2,3) have "upd_ok s nid (\<lambda>n. n\<lparr>nd_status := Failed\<rparr>)"
    unfolding nodes_inv_def upd_ok_def by fastforce
  from order_set [OF assms(1) this assms(2) _ _ assms(5,6)] assms(4,7,8) show ?thesis by auto
qed

lemma order_raise:
  assumes "order_inv s"
  shows "order_inv (task_raises nid s)"
proof -
  have fold: "order_inv ((foldl cancel_node t ts)\<lparr>dg_tasks := [], dg_loop := Crashed\<rparr>)"
    if "order_inv (t\<lparr>dg_tasks := ts\<rparr>)" for t ts
    using that
  proof (induction ts arbitrary: t)
    case Nil
    then show ?case by simp
  next
    case (Cons x ts)
    obtain nid ph where x: "x = (nid, ph)" by (cases x)
    have ts: "wf_dict ts" "dget ts nid = None"
      using Cons.prems x by (auto simp: order_inv_def wf_dict_def dget_None_iff)
    have rest: "order_inv (t\<lparr>dg_tasks := ts\<rparr>)"
      by (rule order_inv_view [OF Cons.prems]) (use ts x in auto)
    show ?case
    proof (cases ph)
      case (Executing m)
      from Cons.prems have "calls_inv (t\<lparr>dg_tasks := x # ts\<rparr>)" by (simp add: order_inv_def)
      from this [unfolded calls_inv_def, rule_format, of nid m] obtain n where n: "node_at t nid = Some n" "nd_status n = Running"
        by (auto simp: x Executing node_at_def)
      have "order_inv ((cancel_node t x)\<lparr>dg_tasks := ts\<rparr>)"
        by (rule order_fail [OF rest, of nid n])
          (use n ts in \<open>simp_all add: x Executing cancel_node_def node_at_def set_node_def split: option.split\<close>)
      from Cons.IH [OF this] show ?thesis by simp
    qed (use Cons.IH [OF rest] in \<open>simp_all add: x cancel_node_def\<close>)
  qed
  have "order_inv (s\<lparr>dg_failed := True, dg_tasks := dpop nid (dg_tasks s)\<rparr>)"
    "order_inv (s\<lparr>dg_tasks := dpop nid (dg_tasks s), dg_failed := True\<rparr>)"
    by (rule order_inv_view [OF assms]; auto simp: dget_dpop split: if_splits)+
  then show ?thesis
    using fold [of "dpop nid (dg_tasks s)" "s\<lparr>dg_tasks := dpop nid (dg_tasks s), dg_failed := True\<rparr>"]
    by (simp add: task_raises_def Let_def)
qed

lemma order_begin:
  assumes "order_inv s"
  shows "order_inv (task_begin nid ws s)"
proof (cases "dget (dg_tasks s) nid = Some Waiting \<and> (\<exists>n. node_at s nid = Some n \<and>
    wait_deps s (ns_depends (nd_spec n)) = Go \<and> (ns_gated (nd_spec n) \<longrightarrow> nid \<in> dg_gates s) \<and> nd_status n = Pending)")
  case False
  have ret: "order_inv (set_phase nid Returning s)"
    by (rule order_inv_view [OF assms]) (simp_all add: set_phase_def dget_dput split: if_splits)
  from False assms order_raise [OF assms] ret show ?thesis
    unfolding task_begin_def by (auto split: option.split wait_state.split)
next
  case True
  then obtain n where w: "dget (dg_tasks s) nid = Some Waiting" and n: "node_at s nid = Some n" "nd_status n = Pending"
    and go: "wait_deps s (ns_depends (nd_spec n)) = Go" and gate: "ns_gated (nd_spec n) \<longrightarrow> nid \<in> dg_gates s" by blast
  let ?f = "\<lambda>n. n\<lparr>nd_status := Running\<rparr>"
  from assms have i: "nodes_inv s" "wf_dict (dg_tasks s)" by (simp_all add: order_inv_def)
  have u: "upd_ok s nid ?f"
    using wait_deps_Go [OF go] n i(1) unfolding upd_ok_def nodes_inv_def by force
  have eq: "task_begin nid ws s = (case build_kwargs s (ns_upstream (nd_spec n)) [] of
      None \<Rightarrow> task_raises nid (set_node nid ?f s)
    | Some kw \<Rightarrow> set_phase nid (Executing (call_manifest (nd_spec n) (upstream_fps s (nd_spec n))
          (workspace_hashes_for_node ws (nd_spec n)) kw)) ((set_node nid ?f s)\<lparr>dg_trace := dg_trace s @ [Node_Start nid]\<rparr>))"
    using w n go gate by (auto simp: task_begin_def Let_def)
  show ?thesis
  proof (cases "build_kwargs s (ns_upstream (nd_spec n)) []")
    case (Some kw)
    show ?thesis unfolding eq Some option.case
      by (rule order_set [OF assms u n(1), of "Node_Start nid"])
        (use n i(2) in \<open>auto simp: set_phase_def dget_dput call_manifest_def cache_manifest_def\<close>)
  next
    case None
    have "trace_inv (set_node nid ?f s)"
      using assms n unfolding order_inv_def trace_inv_def
      by (auto simp: deps_of_set [OF u] is_done_iff node_at_set split: if_splits)
    moreover have "calls_inv (set_node nid ?f s)"
      by (rule calls_set [OF _ i(1) u refl]) (use assms n w in \<open>auto simp: order_inv_def\<close>)
    ultimately have "order_inv (set_node nid ?f s)"
      using nodes_set [OF i(1) u] i(2) by (simp add: order_inv_def)
    from order_raise [OF this] show ?thesis unfolding eq None option.case .
  qed
qed

lemma order_finish:
  assumes "order_inv s"
  shows "order_inv (task_finish nid r s)"
proof (cases "\<exists>m. dget (dg_tasks s) nid = Some (Executing m)")
  case False
  with assms show ?thesis by (auto simp: task_finish_def split: option.split phase.split)
next
  case True
  then obtain m where m: "dget (dg_tasks s) nid = Some (Executing m)" ..
  from assms have i: "nodes_inv s" "calls_inv s" "wf_dict (dg_tasks s)" by (simp_all add: order_inv_def)
  from i(2) m obtain n where n: "node_at s nid = Some n" "nd_status n = Running" by (auto simp: calls_inv_def)
  show ?thesis
  proof (cases r)
    case None
    let ?g = "(set_node nid (\<lambda>n. n\<lparr>nd_status := Failed\<rparr>) s)\<lparr>dg_trace := dg_trace s @ [Node_Fail nid]\<rparr>"
    have fail: "order_inv (?g\<lparr>dg_tasks := dpop nid (dg_tasks s)\<rparr>)"
      by (rule order_fail [OF assms n]) (use i(3) in \<open>auto simp: dget_dpop split: if_splits\<close>)
    have "task_raises nid ?g = task_raises nid (?g\<lparr>dg_tasks := dpop nid (dg_tasks s)\<rparr>)"
      by (simp add: task_raises_def Let_def dpop_twice)
    with order_raise [OF fail, of nid] m None show ?thesis by (simp add: task_finish_def)
  next
    case (Some x)
    obtain v d where x: "x = (v, d)" by (cases x)
    let ?f = "\<lambda>n. n\<lparr>nd_status := Done, nd_result := Some \<lparr>nr_value = v, nr_fingerprint = cd_fingerprint d,
      nr_state = cd_state d\<rparr>\<rparr>"
    have u: "upd_ok s nid ?f" using n i(1) unfolding upd_ok_def nodes_inv_def by fastforce
    have "order_inv (set_phase nid Returning ((set_node nid ?f s)\<lparr>dg_trace := dg_trace s @ [Node_End nid]\<rparr>))"
      by (rule order_set [OF assms u n(1), of "Node_End nid"])
        (use n i(3) in \<open>auto simp: set_phase_def dget_dput completed_def\<close>)
    with m Some x show ?thesis by (simp add: task_finish_def)
  qed
qed

lemma order_step: "order_inv s \<Longrightarrow> order_inv (dag_step s e)"
proof (cases e)
  case (Task_Return nid)
  assume i: "order_inv s"
  show ?thesis unfolding Task_Return dag_step.simps task_return_def
    by (cases "dget (dg_tasks s) nid = Some Returning"; simp add: i)
      (rule order_inv_view [OF i]; auto simp: dget_dpop split: if_splits)
next
  case (Background nid ws c)
  assume i: "order_inv s"
  then show ?thesis
    unfolding Background dag_step.simps background_warm_def by (auto split: option.split dest: order_warm)
next
  case (Open_Gate nid)
  assume i: "order_inv s"
  show ?thesis unfolding Open_Gate dag_step.simps by (rule order_inv_view [OF i]) simp_all
qed (simp_all add: order_loop_warm order_tick order_wake order_begin order_finish)

lemma order_run: "order_inv s \<Longrightarrow> order_inv (dag_run s es)"
  unfolding dag_run_def by (induction es arbitrary: s) (simp_all add: order_step)

text \<open>The graph as it was registered.\<close>

definition fresh_graph :: "dag \<Rightarrow> bool" where
  "fresh_graph s \<longleftrightarrow> (\<forall>nid n. node_at s nid = Some n \<longrightarrow> ns_id (nd_spec n) = nid \<and> nd_status n = Pending \<and> nd_result n = None) \<and>
     wf_dict (dg_nodes s) \<and> dg_trace s = [] \<and> \<not> dg_failed s"

lemma fresh_add: "fresh_graph s \<Longrightarrow> add_node sp s = Inr t \<Longrightarrow> fresh_graph t \<and> dg_compat t = dg_compat s"
  by (auto simp: fresh_graph_def add_node_def node_at_def dget_dput split: if_splits)

lemma fresh_adds: "fresh_graph s \<Longrightarrow> add_nodes sps s = Inr t \<Longrightarrow> fresh_graph t \<and> dg_compat t = dg_compat s"
  by (induction sps arbitrary: s) (auto simp: res_bind_Inr_iff dest: fresh_add)

lemma fresh_new: "fresh_graph (new_dag cmp)"
  by (simp add: fresh_graph_def new_dag_def node_at_def)

lemma order_start:
  assumes "fresh_graph g" and "start_run g = Inr s"
  shows "order_inv s"
proof -
  obtain t where t: "s = loop_head t" "dg_nodes t = dg_nodes g" "dg_trace t = []" "dg_tasks t = []"
    using assms by (auto simp: start_run_def Let_def fresh_graph_def split: if_splits)
  then have v: "node_at s = node_at g" "dg_trace s = []" "dg_tasks s = []" by (simp_all add: node_at_def fun_eq_iff)
  show ?thesis
    using assms(1) by (auto simp: order_inv_def nodes_inv_def trace_inv_def calls_inv_def v is_done_iff fresh_graph_def)
qed

end
