(* ===== verification/Dag_Progress.thy ===== *)
theory Dag_Progress
  imports Dag_Engine
begin

text \<open>
  What a run of \<^verbatim>\<open>core/dag_engine.py\<close> can reach: the registered graph never changes; a node
  that failed and the nodes of a cycle are never processed, so the loop does not finish on
  them; and a run that returns has a result for every node.
\<close>

section \<open>What is registered stays\<close>

definition spec_at :: "dag \<Rightarrow> string \<Rightarrow> node_spec option" where
  "spec_at s nid = map_option nd_spec (node_at s nid)"

definition keys :: "dag \<Rightarrow> string set" where
  "keys s = set (dkeys (dg_nodes s))"

definition same_graph :: "dag \<Rightarrow> dag \<Rightarrow> bool" where
  "same_graph t s \<longleftrightarrow> spec_at t = spec_at s \<and> dkeys (dg_nodes t) = dkeys (dg_nodes s) \<and> dg_compat t = dg_compat s"

lemma keys_iff: "k \<in> keys s \<longleftrightarrow> node_at s k \<noteq> None"
  by (simp add: keys_def dkeys_def node_at_def dget_None_iff)

lemma same_graph_keys: "same_graph t s \<Longrightarrow> keys t = keys s"
  by (simp add: same_graph_def keys_def)

lemma same_graph_refl [simp]: "same_graph s s"
  by (simp add: same_graph_def)

lemma same_graph_trans: "same_graph t s \<Longrightarrow> same_graph s r \<Longrightarrow> same_graph t r"
  by (simp add: same_graph_def)

lemma same_graph_view: "dg_nodes t' = dg_nodes t \<Longrightarrow> dg_compat t' = dg_compat t \<Longrightarrow> same_graph t' s = same_graph t s"
  by (simp add: same_graph_def spec_at_def node_at_def fun_eq_iff)

lemma same_graph_upd [simp]:
  "same_graph (t\<lparr>dg_remaining := a\<rparr>) s = same_graph t s" "same_graph (t\<lparr>dg_ready := b\<rparr>) s = same_graph t s"
  "same_graph (t\<lparr>dg_processed := c\<rparr>) s = same_graph t s" "same_graph (t\<lparr>dg_tasks := d\<rparr>) s = same_graph t s"
  "same_graph (t\<lparr>dg_doneq := b\<rparr>) s = same_graph t s" "same_graph (t\<lparr>dg_loop := e\<rparr>) s = same_graph t s"
  "same_graph (t\<lparr>dg_gates := c\<rparr>) s = same_graph t s" "same_graph (t\<lparr>dg_failed := f\<rparr>) s = same_graph t s"
  "same_graph (t\<lparr>dg_trace := g\<rparr>) s = same_graph t s"
  by (simp_all add: same_graph_def spec_at_def node_at_def fun_eq_iff)

lemma dkeys_dput_present: "dget d k \<noteq> None \<Longrightarrow> dkeys (dput k v d) = dkeys d"
  by (induction d) (auto simp: py_simps dkeys_def split: if_splits)

lemma same_graph_set: "(\<And>n. nd_spec (f n) = nd_spec n) \<Longrightarrow> same_graph (set_node nid f s) s"
  by (auto simp: same_graph_def spec_at_def node_at_set fun_eq_iff option.map_comp comp_def set_node_def
      node_at_def dkeys_dput_present dget_dput split: option.split)

lemma dkeys_set_node: "dkeys (dg_nodes (set_node nid f s)) = dkeys (dg_nodes s)"
  by (auto simp: set_node_def node_at_def dkeys_dput_present split: option.split)

lemma same_graph_set_view:
  "(\<And>n. nd_spec (f n) = nd_spec n) \<Longrightarrow> dg_nodes t = dg_nodes (set_node nid f s) \<Longrightarrow> dg_compat t = dg_compat s \<Longrightarrow>
   same_graph t s"
  using same_graph_set [of f nid s] same_graph_view [of t "set_node nid f s" s] by simp

text \<open>A candidate is left alone, or a pending node with all results it needs becomes done.\<close>

lemma warm_cases:
  assumes "warm_node nid ws c s = Some (b, t)"
  obtains (same) "t = s"
  | (hit) n r where "node_at s nid = Some n" "nd_status n = Pending" "\<forall>p \<in> set (ns_depends (nd_spec n)). result_of s p \<noteq> None"
      "t = (set_node nid (\<lambda>n. n\<lparr>nd_status := Done, nd_result := Some r\<rparr>) s)\<lparr>dg_trace := dg_trace s @ [Prefetch_Hit nid]\<rparr>"
proof (cases b)
  case False
  with assms have "t = s" by (auto simp: warm_node_def Let_def split: option.splits if_splits)
  then show ?thesis by (rule same)
next
  case True
  with assms obtain n where n: "node_at s nid = Some n" "nd_status n = Pending"
    "\<forall>p \<in> set (ns_depends (nd_spec n)). result_of s p \<noteq> None"
    by (auto simp: warm_node_def Let_def list_ex_iff split: option.splits if_splits)
  with assms True obtain r where "t = (set_node nid (\<lambda>n. n\<lparr>nd_status := Done, nd_result := Some r\<rparr>) s)
      \<lparr>dg_trace := dg_trace s @ [Prefetch_Hit nid]\<rparr>"
    by (force simp: warm_node_def set_node_def Let_def list_ex_iff split: option.splits if_splits)
  from hit [OF n this] show ?thesis .
qed

lemma same_graph_warm: "warm_node nid ws c s = Some (b, t) \<Longrightarrow> same_graph t s"
  by (erule warm_cases) (auto simp: same_graph_set)

lemma loop_head_fields [simp]:
  "dg_nodes (loop_head s) = dg_nodes s" "dg_compat (loop_head s) = dg_compat s" "dg_tasks (loop_head s) = dg_tasks s"
  "dg_processed (loop_head s) = dg_processed s" "dg_doneq (loop_head s) = dg_doneq s" "dg_failed (loop_head s) = dg_failed s"
  "dg_trace (loop_head s) = dg_trace s" "dg_ready (loop_head s) = dg_ready s"
  "dg_remaining (loop_head s) = dg_remaining s" "dg_dependents (loop_head s) = dg_dependents s"
  by (simp_all add: loop_head_def split: option.split)

lemma same_graph_cancels: "same_graph (foldl cancel_node s ts) s"
proof (induction ts arbitrary: s)
  case (Cons x ts)
  obtain a ph where x: "x = (a, ph)" by (cases x)
  have "same_graph (cancel_node s x) s"
    by (cases ph) (simp_all add: x cancel_node_def same_graph_set)
  with Cons.IH [of "cancel_node s x"] show ?case by (simp add: same_graph_trans)
qed simp

lemma same_graph_raise: "same_graph (task_raises nid s) s"
proof -
  have "same_graph (s\<lparr>dg_tasks := dpop nid (dg_tasks s), dg_failed := True\<rparr>) s" by simp
  from same_graph_trans [OF same_graph_cancels this] show ?thesis by (simp add: task_raises_def Let_def)
qed

lemma same_graph_step: "same_graph (dag_step s e) s"
proof (cases e)
  case (Task_Begin nid ws)
  have b: "same_graph (set_node nid (\<lambda>n. n\<lparr>nd_status := Running\<rparr>) s) s" by (simp add: same_graph_set)
  have "same_graph (task_raises nid (set_node nid (\<lambda>n. n\<lparr>nd_status := Running\<rparr>) s)) s"
    by (rule same_graph_trans [OF same_graph_raise b])
  with b same_graph_raise [of nid s] show ?thesis
    by (auto simp: Task_Begin task_begin_def set_phase_def Let_def split: option.split wait_state.split)
next
  case (Task_Finish nid r)
  have f: "same_graph ((set_node nid (\<lambda>n. n\<lparr>nd_status := Failed\<rparr>) s)\<lparr>dg_trace := tr\<rparr>) s" for tr
    by (simp add: same_graph_set)
  from same_graph_trans [OF same_graph_raise f] show ?thesis
    by (simp add: Task_Finish task_finish_def set_phase_def same_graph_set split: option.split phase.split prod.split)
next
  case Loop_Tick
  have d: "same_graph (drain t) t" "same_graph (sweep t) t" for t
    using same_graph_view [of "drain t" t t] same_graph_view [of "sweep t" t t] by (simp_all add: drain_frame)
  have "same_graph (drain (sweep s)) s" by (rule same_graph_trans [OF d(1) d(2)])
  with d show ?thesis
    by (auto simp: Loop_Tick loop_tick_def Let_def split: loop.split list.split)
next
  case Loop_Wake
  have h: "same_graph (loop_head t) s = same_graph t s" "same_graph (process_done nid t) s = same_graph t s" for t nid
    by (rule same_graph_view; simp)+
  show ?thesis by (simp add: Loop_Wake loop_wake_def h split: list.split)
qed (auto simp: loop_warm_def task_return_def background_warm_def
    split: loop.split list.split option.split dest: same_graph_warm)

lemma same_graph_run: "same_graph (dag_run s es) s"
  unfolding dag_run_def
proof (induction es arbitrary: s)
  case (Cons e es)
  from same_graph_trans [OF Cons.IH same_graph_step] show ?case by simp
qed simp

section \<open>The invariant of the scheduler\<close>

text \<open>
  What has been reported or processed has run or was found in the cache; a node with a task
  has not failed, and waits while it is pending; without a failure every running node has
  its call; the loop has finished only when all nodes are processed. The nodes of \<open>C\<close>, each
  with a dependency in \<open>C\<close>, are pending.
\<close>

definition free :: "dag \<Rightarrow> string set" where
  "free s = {k. (\<exists>n. node_at s k = Some n \<and> nd_status n \<in> {Done, Running}) \<and> (\<forall>m. dget (dg_tasks s) k \<noteq> Some (Executing m))}"

definition tasks_ok :: "dag \<Rightarrow> bool" where
  "tasks_ok s \<longleftrightarrow> (\<forall>k ph. dget (dg_tasks s) k = Some ph \<longrightarrow>
     (\<exists>n. node_at s k = Some n \<and> nd_status n \<noteq> Failed \<and> (nd_status n = Pending \<longrightarrow> ph = Waiting)))"

definition clean :: "dag \<Rightarrow> bool" where
  "clean s \<longleftrightarrow> dg_failed s \<or> (\<forall>k n. node_at s k = Some n \<longrightarrow> nd_status n \<noteq> Failed \<and>
     (nd_status n = Running \<longrightarrow> (\<exists>m. dget (dg_tasks s) k = Some (Executing m))))"

definition cyclic :: "string set \<Rightarrow> dag \<Rightarrow> bool" where
  "cyclic C s \<longleftrightarrow> (\<forall>k \<in> C. \<exists>n. node_at s k = Some n \<and> nd_status n = Pending \<and> set (ns_depends (nd_spec n)) \<inter> C \<noteq> {})"

definition sched_inv :: "string set \<Rightarrow> dag \<Rightarrow> bool" where
  "sched_inv C s \<longleftrightarrow> dg_processed s \<union> set (dg_doneq s) \<subseteq> free s \<and> tasks_ok s \<and> clean s \<and> cyclic C s \<and>
     (dg_loop s = Finished \<longrightarrow> all_processed s)"

lemma cyclic_not_done: "cyclic C s \<Longrightarrow> k \<in> C \<Longrightarrow> \<not> is_done s k"
  by (auto simp: cyclic_def is_done_iff)

lemma free_known: "free s \<subseteq> keys s"
  by (auto simp: free_def keys_iff)

lemma done_free: "tasks_ok s \<Longrightarrow> calls_inv s \<Longrightarrow> is_done s k \<Longrightarrow> k \<in> free s"
  by (fastforce simp: free_def is_done_iff calls_inv_def)

lemma all_processed_iff:
  assumes "dg_processed s \<subseteq> keys s" and "distinct (dkeys (dg_nodes s))"
  shows "all_processed s \<longleftrightarrow> dg_processed s = keys s"
proof -
  have "length (dg_nodes s) = card (keys s)"
    using distinct_card [OF assms(2)] by (simp add: keys_def dkeys_def)
  moreover have "finite (keys s)" by (simp add: keys_def)
  ultimately show ?thesis using assms(1) by (auto simp: all_processed_def dest: card_seteq)
qed

lemma same_graph_processed:
  assumes "same_graph t s" and "dg_processed t = dg_processed s"
  shows "all_processed t = all_processed s"
proof -
  have "length (dkeys (dg_nodes t)) = length (dkeys (dg_nodes s))" using assms(1) by (simp add: same_graph_def)
  then show ?thesis by (simp add: all_processed_def assms(2) dkeys_def)
qed

text \<open>Steps that leave the nodes alone.\<close>

lemma sched_view:
  assumes "sched_inv C s" and "dg_nodes t = dg_nodes s" and "dg_failed t = dg_failed s"
    and "dg_processed t \<union> set (dg_doneq t) \<subseteq> dg_processed s \<union> set (dg_doneq s) \<union> free s"
    and "\<And>k m. dget (dg_tasks t) k = Some (Executing m) \<longleftrightarrow> dget (dg_tasks s) k = Some (Executing m)"
    and "\<And>k ph. dget (dg_tasks t) k = Some ph \<Longrightarrow> dget (dg_tasks s) k \<noteq> Some ph \<Longrightarrow>
      \<exists>n. node_at s k = Some n \<and> nd_status n \<noteq> Failed \<and> (nd_status n = Pending \<longrightarrow> ph = Waiting)"
    and "dg_loop t = Finished \<Longrightarrow> all_processed t"
  shows "sched_inv C t"
proof -
  note v = views [OF assms(2)]
  have f: "free t = free s" using assms(5) by (simp add: free_def v)
  have "tasks_ok t"
    unfolding tasks_ok_def v
  proof (intro allI impI)
    fix k ph
    assume a: "dget (dg_tasks t) k = Some ph"
    show "\<exists>n. node_at s k = Some n \<and> nd_status n \<noteq> Failed \<and> (nd_status n = Pending \<longrightarrow> ph = Waiting)"
    proof (cases "dget (dg_tasks s) k = Some ph")
      case True
      with assms(1) show ?thesis by (simp add: sched_inv_def tasks_ok_def)
    qed (use assms(6) [OF a] in blast)
  qed
  moreover have "clean t" "cyclic C t"
    using assms(1,3,5) by (auto simp: sched_inv_def clean_def cyclic_def v)
  ultimately show ?thesis using assms(1,4,7) f by (auto simp: sched_inv_def)
qed

text \<open>Steps that change a node which is not processed.\<close>

lemma sched_set:
  assumes "sched_inv C s" and "node_at s nid = Some n" and "nid \<notin> free s" and "nid \<notin> C" and "nd_spec (f n) = nd_spec n"
    and "dg_nodes t = dg_nodes (set_node nid f s)"
    and "dg_failed t = dg_failed s" and "dg_processed t = dg_processed s" and "dg_doneq t = dg_doneq s"
    and "\<And>k. k \<noteq> nid \<Longrightarrow> dget (dg_tasks t) k = dget (dg_tasks s) k"
    and "dget (dg_tasks t) nid = None \<or> nd_status (f n) \<notin> {Failed, Pending}"
    and "nd_status (f n) \<noteq> Failed \<and> (nd_status (f n) = Running \<longrightarrow> (\<exists>m. dget (dg_tasks t) nid = Some (Executing m)))"
    and "dg_loop t = dg_loop s"
  shows "sched_inv C t"
proof -
  note v = views [OF assms(6)]
  have at: "node_at t k = (if k = nid then Some (f n) else node_at s k)" for k
    using assms(2) by (simp add: v node_at_set)
  have "free s \<subseteq> free t"
    using assms(3,10) by (auto simp: free_def at)
  moreover have "tasks_ok t"
    unfolding tasks_ok_def
  proof (intro allI impI)
    fix k ph
    assume "dget (dg_tasks t) k = Some ph"
    then show "\<exists>n. node_at t k = Some n \<and> nd_status n \<noteq> Failed \<and> (nd_status n = Pending \<longrightarrow> ph = Waiting)"
      using assms(1,10,11) by (cases "k = nid") (auto simp: at sched_inv_def tasks_ok_def)
  qed
  moreover have "clean t" using assms(1,7,10,12) by (auto simp: clean_def at sched_inv_def)
  moreover have "cyclic C t" using assms(1,4) by (auto simp: cyclic_def at sched_inv_def)
  moreover have "length (dg_nodes t) = length (dg_nodes s)"
    using assms(6) arg_cong [OF dkeys_set_node [of nid f s], of length] by (simp add: dkeys_def)
  then have "all_processed t = all_processed s" by (simp add: all_processed_def assms(8))
  ultimately show ?thesis using assms(1,8,9,13) by (auto simp: sched_inv_def)
qed

lemma sched_loop: "sched_inv C s \<Longrightarrow> l \<noteq> Finished \<Longrightarrow> sched_inv C (s\<lparr>dg_loop := l\<rparr>)"
  by (erule sched_view) auto

lemma sched_process:
  assumes "sched_inv C s" and "nid \<in> free s"
  shows "sched_inv C (process_done nid s)"
proof -
  have "all_processed s \<Longrightarrow> all_processed (process_done nid s)"
    using assms(1) free_known [of s] card_mono [of "keys s" "dg_processed s"] unfolding all_processed_def
    by (auto simp: sched_inv_def card_insert_if keys_def finite_subset split: if_splits
        dest: finite_subset [OF _ finite_set])
  with assms show ?thesis
    by (intro sched_view [OF assms(1)]) (auto simp: sched_inv_def)
qed

lemma sched_head: "sched_inv C s \<Longrightarrow> sched_inv C (loop_head s)"
  by (erule sched_view) (auto simp: loop_head_def all_processed_def split: if_splits option.splits)

lemma sched_pop: "sched_inv C s \<Longrightarrow> sched_inv C (s\<lparr>dg_ready := rs\<rparr>)"
  by (frule sched_view [of C s "s\<lparr>dg_ready := rs\<rparr>"]) (auto simp: sched_inv_def all_processed_def)

lemma sched_tasks: "sched_inv C s \<Longrightarrow> tasks_ok s"
  by (simp add: sched_inv_def)

lemma sched_cyclic:
  assumes "sched_inv C s" and "nid \<in> C" and "node_at s nid = Some n"
  shows "nd_status n = Pending" "\<exists>p \<in> set (ns_depends (nd_spec n)). p \<in> C \<and> \<not> is_done s p"
  using assms cyclic_not_done [of C s] by (fastforce simp: sched_inv_def cyclic_def)+

lemma sched_sweep:
  assumes "sched_inv C s" and "calls_inv s"
  shows "sched_inv C (sweep s)"
proof -
  have "calls_inv (process_done nid t)" if "calls_inv t" for nid t
    using that by (simp add: calls_inv_def views [of "process_done nid t" t])
  then have "sched_inv C s \<Longrightarrow> calls_inv s \<Longrightarrow>
      sched_inv C (foldl (\<lambda>t nid. if is_done t nid then process_done nid t else t) s ks)" for ks
    by (induction ks arbitrary: s) (auto intro: sched_process done_free sched_tasks)
  with assms show ?thesis by (simp add: sweep_def)
qed

lemma sched_drain: "sched_inv C s \<Longrightarrow> calls_inv s \<Longrightarrow> sched_inv C (drain s)"
proof (induction s rule: drain.induct)
  case (1 s)
  show ?case
  proof (cases "dg_ready s")
    case Nil
    with 1(4) show ?thesis by (simp add: drain.simps [of s])
  next
    case (Cons nid rest)
    let ?s = "s\<lparr>dg_ready := rest\<rparr>"
    have h: "sched_inv C ?s" by (rule sched_pop [OF 1(4)])
    have c: "sched_inv C (?s\<lparr>dg_loop := Crashed\<rparr>)" by (rule sched_loop [OF h]) simp
    have ci: "calls_inv ?s" "calls_inv (process_done nid ?s)"
      using 1(5) by (simp_all add: calls_inv_def views [of ?s s] views [of "process_done nid ?s" s])
    show ?thesis
    proof (cases "node_at s nid")
      case None
      with Cons c show ?thesis by (simp add: drain.simps [of s])
    next
      case (Some n)
      consider "nd_status n = Failed" | "nd_status n = Done"
        | "nd_status n \<noteq> Failed" "nd_status n \<noteq> Done" "dhas (dg_tasks s) nid"
        | "nd_status n \<noteq> Failed" "nd_status n \<noteq> Done" "\<not> dhas (dg_tasks s) nid" by blast
      then show ?thesis
      proof cases
        case 1
        with Cons Some c show ?thesis by (simp add: drain.simps [of s])
      next
        case 2
        with Some h ci have "nid \<in> free ?s"
          by (intro done_free) (auto simp: sched_inv_def is_done_iff node_at_def)
        from 1(1) [OF Cons refl Some 2 sched_process [OF h this] ci(2)] 2 Cons Some show ?thesis
          by (simp add: drain.simps [of s])
      next
        case 3
        from 1(2) [OF Cons refl Some 3(2,1) _ h ci(1)] 3 Cons Some show ?thesis by (simp add: drain.simps [of s])
      next
        case 4
        let ?t = "?s\<lparr>dg_tasks := dput nid Waiting (dg_tasks s)\<rparr>"
        have no: "dget (dg_tasks s) nid = None" using 4 by (simp add: dhas_def split: option.splits)
        have "sched_inv C ?t"
          by (rule sched_view [OF h])
            (use Some 4 h no in \<open>auto simp: dget_dput node_at_def sched_inv_def all_processed_def split: if_splits\<close>)
        moreover have "calls_inv ?t" using 1(5) no by (auto simp: calls_inv_def views [of ?t s] dget_dput)
        ultimately show ?thesis using 1(3) [OF Cons refl Some] 4 Cons Some by (simp add: drain.simps [of s])
      qed
    qed
  qed
qed

lemma sched_warm:
  assumes "sched_inv C s" and "nodes_inv s" and "warm_node nid ws c s = Some (b, t)"
  shows "sched_inv C t"
  using assms(3)
proof (cases rule: warm_cases)
  case same
  with assms(1) show ?thesis by simp
next
  case (hit n r)
  have "nid \<notin> C"
  proof
    assume "nid \<in> C"
    from sched_cyclic [OF assms(1) this hit(1)] obtain p where p: "p \<in> set (ns_depends (nd_spec n))" "\<not> is_done s p" by blast
    with hit(3) assms(2) show False
      by (auto simp: result_of_def nodes_inv_def is_done_iff split: option.splits)
  qed
  moreover have "nid \<notin> free s" using hit by (auto simp: free_def)
  ultimately show ?thesis
    by (intro sched_set [OF assms(1) hit(1), where f = "\<lambda>n. n\<lparr>nd_status := Done, nd_result := Some r\<rparr>"]) (simp_all add: hit)
qed

lemma cancels_frame:
  "dg_processed (foldl cancel_node s ts) = dg_processed s \<and> dg_doneq (foldl cancel_node s ts) = dg_doneq s \<and>
   dg_tasks (foldl cancel_node s ts) = dg_tasks s \<and>
   ((\<forall>m. (k, Executing m) \<notin> set ts) \<longrightarrow> node_at (foldl cancel_node s ts) k = node_at s k)"
proof (induction ts arbitrary: s)
  case (Cons x ts)
  obtain a ph where x: "x = (a, ph)" by (cases x)
  have n: "node_at (cancel_node s x) k = node_at (set_node a (\<lambda>n. n\<lparr>nd_status := Failed\<rparr>) s) k" if "ph = Executing m" for m
    by (simp add: x cancel_node_def that node_at_def)
  show ?case
    by (cases ph) (use Cons.IH [of "cancel_node s x"] n in \<open>auto simp: x cancel_node_def node_at_set\<close>)
qed simp

text \<open>A raising task leaves the nodes that are not executing.\<close>

lemma raise_frame:
  "dg_processed (task_raises nid s) = dg_processed s" "dg_doneq (task_raises nid s) = dg_doneq s"
  "dget (dg_tasks (task_raises nid s)) k = None \<or> k \<noteq> nid \<and> dget (dg_tasks (task_raises nid s)) k = dget (dg_tasks s) k"
  "dg_loop (task_raises nid s) = (if dg_compat s then dg_loop s else Crashed)"
  "wf_dict (dg_tasks s) \<Longrightarrow> (\<And>m. dget (dg_tasks s) k \<noteq> Some (Executing m)) \<Longrightarrow> node_at (task_raises nid s) k = node_at s k"
proof -
  let ?s = "s\<lparr>dg_tasks := dpop nid (dg_tasks s), dg_failed := True\<rparr>"
  note f = cancels_frame [of ?s "dpop nid (dg_tasks s)" k]
  from f show "dg_processed (task_raises nid s) = dg_processed s" "dg_doneq (task_raises nid s) = dg_doneq s"
    by (simp_all add: task_raises_def Let_def)
  show "dget (dg_tasks (task_raises nid s)) k = None \<or> k \<noteq> nid \<and> dget (dg_tasks (task_raises nid s)) k = dget (dg_tasks s) k"
    "dg_loop (task_raises nid s) = (if dg_compat s then dg_loop s else Crashed)"
    by (auto simp: task_raises_def Let_def dget_dpop py_simps)
  assume wf: "wf_dict (dg_tasks s)" and m: "\<And>m. dget (dg_tasks s) k \<noteq> Some (Executing m)"
  have "(k, Executing m) \<notin> set (dpop nid (dg_tasks s))" for m
  proof
    assume "(k, Executing m) \<in> set (dpop nid (dg_tasks s))"
    with wf have "dget (dpop nid (dg_tasks s)) k = Some (Executing m)" by (simp add: wf_dict_dget_iff)
    with m show False by (auto simp: dget_dpop split: if_splits)
  qed
  with f have "node_at (foldl cancel_node ?s (dpop nid (dg_tasks s))) k = node_at ?s k" by blast
  then show "node_at (task_raises nid s) k = node_at s k" by (simp add: task_raises_def Let_def node_at_def)
qed


lemma sched_raise:
  assumes "dg_processed s \<union> set (dg_doneq s) \<subseteq> free s" and "wf_dict (dg_tasks s)" and "cyclic C s"
    and "dg_loop s = Finished \<Longrightarrow> all_processed s"
    and "\<And>k ph. dget (dg_tasks s) k = Some ph \<Longrightarrow>
      \<exists>n. node_at s k = Some n \<and> (k \<noteq> nid \<longrightarrow> nd_status n \<noteq> Failed) \<and> (nd_status n = Pending \<longrightarrow> ph = Waiting)"
  shows "sched_inv C (task_raises nid s)"
proof -
  let ?t = "task_raises nid s"
  have at: "node_at ?t k = node_at s k" if "\<And>m. dget (dg_tasks s) k \<noteq> Some (Executing m)" for k
    by (rule raise_frame(5) [OF assms(2) that])
  have tk: "dget (dg_tasks ?t) k = None \<or> k \<noteq> nid \<and> dget (dg_tasks ?t) k = dget (dg_tasks s) k" for k
    by (rule raise_frame(3))
  have "free s \<subseteq> free ?t"
  proof
    fix k
    assume "k \<in> free s"
    with at [of k] tk [of k] show "k \<in> free ?t" by (auto simp: free_def)
  qed
  moreover have "tasks_ok ?t"
    unfolding tasks_ok_def
  proof (intro allI impI)
    fix k ph
    assume a: "dget (dg_tasks ?t) k = Some ph"
    with tk [of k] have k: "k \<noteq> nid" "dget (dg_tasks s) k = Some ph" by auto
    have "node_at ?t k = node_at s k"
    proof (cases "dg_compat s")
      case True
      then show ?thesis by (simp add: task_raises_def Let_def node_at_def)
    next
      case False
      with a show ?thesis by (simp add: task_raises_def Let_def py_simps dget_def)
    qed
    with assms(5) [OF k(2)] k(1) show "\<exists>n. node_at ?t k = Some n \<and> nd_status n \<noteq> Failed \<and> (nd_status n = Pending \<longrightarrow> ph = Waiting)"
      by auto
  qed
  moreover have "cyclic C ?t"
  proof -
    have "node_at ?t k = node_at s k" if "k \<in> C" for k
    proof (rule at)
      fix m
      show "dget (dg_tasks s) k \<noteq> Some (Executing m)"
        using assms(3,5) that by (fastforce simp: cyclic_def)
    qed
    with assms(3) show ?thesis by (simp add: cyclic_def)
  qed
  moreover have "clean ?t"
  proof -
    have "dg_failed (foldl cancel_node u ts) = dg_failed u" for u ts
    proof (induction ts arbitrary: u)
      case (Cons x ts)
      then show ?case by (cases x; cases "snd x") (auto simp: cancel_node_def)
    qed simp
    then have "dg_failed ?t" by (simp add: task_raises_def Let_def)
    then show ?thesis by (simp add: clean_def)
  qed
  moreover have "all_processed ?t = all_processed s"
    by (rule same_graph_processed [OF same_graph_raise]) (simp add: raise_frame)
  ultimately show ?thesis using assms(1,4) by (auto simp: sched_inv_def raise_frame split: if_splits)
qed

lemma sched_raises:
  assumes "sched_inv C s" and "wf_dict (dg_tasks s)"
  shows "sched_inv C (task_raises nid s)"
  by (rule sched_raise) (use assms in \<open>fastforce simp: sched_inv_def tasks_ok_def\<close>)+

lemma sched_begin:
  assumes "sched_inv C s" and "wf_dict (dg_tasks s)" and "calls_inv s"
  shows "sched_inv C (task_begin nid ws s)"
proof (cases "dget (dg_tasks s) nid = Some Waiting \<and> (\<exists>n. node_at s nid = Some n \<and>
    wait_deps s (ns_depends (nd_spec n)) = Go \<and> (ns_gated (nd_spec n) \<longrightarrow> nid \<in> dg_gates s))")
  case False
  with assms(1) sched_raises [OF assms(1,2)] show ?thesis
    unfolding task_begin_def by (auto split: option.split wait_state.split)
next
  case True
  then obtain n where w: "dget (dg_tasks s) nid = Some Waiting" and n: "node_at s nid = Some n"
    and go: "wait_deps s (ns_depends (nd_spec n)) = Go" and gate: "ns_gated (nd_spec n) \<longrightarrow> nid \<in> dg_gates s" by blast
  show ?thesis
  proof (cases "nd_status n = Pending")
    case False
    have "nd_status n \<noteq> Failed" using sched_tasks [OF assms(1)] w n by (fastforce simp: tasks_ok_def)
    with False have "sched_inv C (set_phase nid Returning s)"
      by (intro sched_view [OF assms(1)])
        (use n w assms(1) in \<open>auto simp: set_phase_def dget_dput sched_inv_def all_processed_def split: if_splits\<close>)
    with False w n go gate show ?thesis by (auto simp: task_begin_def)
  next
    case True
    let ?f = "\<lambda>n. n\<lparr>nd_status := Running\<rparr>"
    have C: "nid \<notin> C" using sched_cyclic(2) [OF assms(1) _ n] wait_deps_Go [OF go] by blast
    have nf: "nid \<notin> free s" using n True by (simp add: free_def)
    have eq: "task_begin nid ws s = (case build_kwargs s (ns_upstream (nd_spec n)) [] of
        None \<Rightarrow> task_raises nid (set_node nid ?f s)
      | Some kw \<Rightarrow> set_phase nid (Executing (call_manifest (nd_spec n) (upstream_fps s (nd_spec n))
            (workspace_hashes_for_node ws (nd_spec n)) kw)) ((set_node nid ?f s)\<lparr>dg_trace := dg_trace s @ [Node_Start nid]\<rparr>))"
      using w n go gate True by (auto simp: task_begin_def Let_def)
    show ?thesis
    proof (cases "build_kwargs s (ns_upstream (nd_spec n)) []")
      case (Some kw)
      show ?thesis unfolding eq Some option.case
        by (rule sched_set [OF assms(1) n nf C, where f = ?f]) (simp_all add: set_phase_def dget_dput)
    next
      case None
      let ?s = "set_node nid ?f s"
      have at: "node_at ?s k = (if k = nid then Some (?f n) else node_at s k)" for k by (simp add: node_at_set n)
      have "sched_inv C (task_raises nid ?s)"
      proof (rule sched_raise)
        show "dg_processed ?s \<union> set (dg_doneq ?s) \<subseteq> free ?s"
          using assms(1) nf by (auto simp: sched_inv_def free_def at)
        show "cyclic C ?s" using assms(1) C by (auto simp: sched_inv_def cyclic_def at)
        show "dg_loop ?s = Finished \<Longrightarrow> all_processed ?s"
          using assms(1) arg_cong [OF dkeys_set_node [of nid ?f s], of length]
          by (simp add: sched_inv_def all_processed_def dkeys_def)
        show "\<exists>n. node_at ?s k = Some n \<and> (k \<noteq> nid \<longrightarrow> nd_status n \<noteq> Failed) \<and> (nd_status n = Pending \<longrightarrow> ph = Waiting)"
          if "dget (dg_tasks ?s) k = Some ph" for k ph
          using that sched_tasks [OF assms(1)] by (auto simp: tasks_ok_def at)
      qed (use assms(2) in simp)
      then show ?thesis unfolding eq None option.case .
    qed
  qed
qed

lemma sched_finish:
  assumes "sched_inv C s" and "wf_dict (dg_tasks s)" and "calls_inv s"
  shows "sched_inv C (task_finish nid r s)"
proof (cases "\<exists>m. dget (dg_tasks s) nid = Some (Executing m)")
  case False
  with assms(1) show ?thesis by (auto simp: task_finish_def split: option.split phase.split)
next
  case True
  then obtain m where m: "dget (dg_tasks s) nid = Some (Executing m)" ..
  from calls_inv_def [of s] assms(3) m obtain n where n: "node_at s nid = Some n" "nd_status n = Running" by blast
  have C: "nid \<notin> C" using sched_cyclic(1) [OF assms(1) _ n(1)] n(2) by auto
  have nf: "nid \<notin> free s" using m by (simp add: free_def)
  show ?thesis
  proof (cases r)
    case None
    let ?f = "\<lambda>n. n\<lparr>nd_status := Failed\<rparr>"
    let ?s = "(set_node nid ?f s)\<lparr>dg_trace := dg_trace s @ [Node_Fail nid]\<rparr>"
    have at: "node_at ?s k = (if k = nid then Some (?f n) else node_at s k)" for k
      using node_at_set [of nid ?f s k] by (simp add: node_at_def n [unfolded node_at_def])
    have "sched_inv C (task_raises nid ?s)"
    proof (rule sched_raise)
      show "dg_processed ?s \<union> set (dg_doneq ?s) \<subseteq> free ?s"
        using assms(1) nf by (auto simp: sched_inv_def free_def at)
      show "cyclic C ?s" using assms(1) C by (auto simp: sched_inv_def cyclic_def at)
      have "all_processed ?s = all_processed s"
        by (rule same_graph_processed) (simp_all add: same_graph_set)
      then show "dg_loop ?s = Finished \<Longrightarrow> all_processed ?s" using assms(1) by (simp add: sched_inv_def)
      show "\<exists>n. node_at ?s k = Some n \<and> (k \<noteq> nid \<longrightarrow> nd_status n \<noteq> Failed) \<and> (nd_status n = Pending \<longrightarrow> ph = Waiting)"
        if "dget (dg_tasks ?s) k = Some ph" for k ph
        using that sched_tasks [OF assms(1)] by (auto simp: tasks_ok_def at)
    qed (use assms(2) in simp)
    with m None show ?thesis by (simp add: task_finish_def)
  next
    case (Some x)
    obtain v d where x: "x = (v, d)" by (cases x)
    let ?f = "\<lambda>n. n\<lparr>nd_status := Done, nd_result := Some \<lparr>nr_value = v, nr_fingerprint = cd_fingerprint d,
      nr_state = cd_state d\<rparr>\<rparr>"
    have "sched_inv C (set_phase nid Returning ((set_node nid ?f s)\<lparr>dg_trace := dg_trace s @ [Node_End nid]\<rparr>))"
      by (rule sched_set [OF assms(1) n(1) nf C, where f = ?f]) (simp_all add: set_phase_def dget_dput)
    with m Some x show ?thesis by (simp add: task_finish_def)
  qed
qed

lemma sched_return:
  assumes "sched_inv C s"
  shows "sched_inv C (task_return nid s)"
proof (cases "dget (dg_tasks s) nid = Some Returning")
  case False
  with assms show ?thesis by (simp add: task_return_def)
next
  case True
  with sched_tasks [OF assms] obtain n where "node_at s nid = Some n" "nd_status n \<noteq> Failed" "nd_status n \<noteq> Pending"
    by (fastforce simp: tasks_ok_def)
  with True have f: "nid \<in> free s" by (cases "nd_status n") (auto simp: free_def)
  have "sched_inv C (s\<lparr>dg_tasks := dpop nid (dg_tasks s), dg_doneq := dg_doneq s @ [nid]\<rparr>)"
    by (rule sched_view [OF assms])
      (use assms True f in \<open>auto simp: dget_dpop sched_inv_def all_processed_def split: if_splits\<close>)
  with True show ?thesis by (simp add: task_return_def)
qed

lemma sched_step:
  assumes "sched_inv C s" and "order_inv s"
  shows "sched_inv C (dag_step s e)"
proof -
  from assms(2) have i: "nodes_inv s" "wf_dict (dg_tasks s)" "calls_inv s" by (simp_all add: order_inv_def)
  show ?thesis
  proof (cases e)
    case (Loop_Warm ws c)
    have w: "sched_inv C (t\<lparr>dg_loop := Prefetching cs b\<rparr>)" if "warm_node nid ws c s = Some (b', t)" for nid t b' b cs
      by (rule sched_loop [OF sched_warm [OF assms(1) i(1) that]]) simp
    have "sched_inv C (s\<lparr>dg_loop := Crashed\<rparr>)" by (rule sched_loop [OF assms(1)]) simp
    with w assms(1) show ?thesis
      by (auto simp: Loop_Warm loop_warm_def split: loop.split list.split option.split)
  next
    case Loop_Tick
    have "calls_inv (sweep s)" using i(3) by (simp add: calls_inv_def views [of "sweep s" s])
    then have d: "sched_inv C (drain s)" "sched_inv C (drain (sweep s))"
      using sched_drain [OF assms(1) i(3)] sched_drain [OF sched_sweep [OF assms(1) i(3)]] by simp_all
    have l: "sched_inv C (t\<lparr>dg_loop := Awaiting\<rparr>)" "all_processed t \<Longrightarrow> sched_inv C (t\<lparr>dg_loop := Finished\<rparr>)"
      if "sched_inv C t" for t
      by (rule sched_loop [OF that]; simp)
        (rule sched_view [OF that]; use that in \<open>auto simp: sched_inv_def all_processed_def\<close>)
    from l [OF d(1)] l [OF d(2)] d assms(1) show ?thesis
      by (auto simp: Loop_Tick loop_tick_def Let_def split: loop.split list.split)
  next
    case Loop_Wake
    have "sched_inv C (loop_head (process_done nid (s\<lparr>dg_doneq := q\<rparr>)))" if q: "dg_doneq s = nid # q" for nid q
    proof (rule sched_head [OF sched_process])
      show "sched_inv C (s\<lparr>dg_doneq := q\<rparr>)"
        by (rule sched_view [OF assms(1)]) (use assms(1) q in \<open>auto simp: sched_inv_def all_processed_def\<close>)
      show "nid \<in> free (s\<lparr>dg_doneq := q\<rparr>)"
        using assms(1) q by (auto simp: sched_inv_def free_def node_at_def)
    qed
    with sched_head [OF assms(1)] assms(1) show ?thesis
      by (auto simp: Loop_Wake loop_wake_def split: list.split)
  next
    case (Background nid ws c)
    with assms(1) i(1) show ?thesis
      by (auto simp: background_warm_def split: option.split intro: sched_warm)
  next
    case (Open_Gate nid)
    have "sched_inv C (s\<lparr>dg_gates := insert nid (dg_gates s)\<rparr>)"
      by (rule sched_view [OF assms(1)]) (use assms(1) in \<open>auto simp: sched_inv_def all_processed_def\<close>)
    with Open_Gate show ?thesis by simp
  qed (use assms(1) i in \<open>simp_all add: sched_begin sched_finish sched_return\<close>)
qed

lemma sched_run: "sched_inv C s \<Longrightarrow> order_inv s \<Longrightarrow> sched_inv C (dag_run s es)"
  unfolding dag_run_def by (induction es arbitrary: s) (simp_all add: sched_step order_step)

lemma sched_finished:
  assumes "sched_inv C s" and "dg_loop s = Finished" and "distinct (dkeys (dg_nodes s))"
  shows "keys s \<subseteq> free s"
proof -
  from assms have p: "dg_processed s \<subseteq> free s" "all_processed s" by (simp_all add: sched_inv_def)
  with free_known [of s] have "dg_processed s \<subseteq> keys s" by blast
  with all_processed_iff [OF this assms(3)] p show ?thesis by simp
qed

section \<open>The start of a run\<close>

text \<open>What \<open>add_nodes\<close> registers: the nodes of the list, in order, each with its specification.\<close>

lemma add_node_specs:
  assumes "add_node sp s = Inr t"
  shows "dkeys (dg_nodes t) = dkeys (dg_nodes s) @ [ns_id sp]"
    "spec_at t k = (if k = ns_id sp then Some sp else spec_at s k)"
    "ns_id sp \<notin> set (dkeys (dg_nodes s))"
proof -
  from assms have n: "dget (dg_nodes s) (ns_id sp) = None" by (auto simp: add_node_def dhas_def split: if_splits)
  with assms show "dkeys (dg_nodes t) = dkeys (dg_nodes s) @ [ns_id sp]"
    "spec_at t k = (if k = ns_id sp then Some sp else spec_at s k)"
    by (auto simp: add_node_def dhas_def dput_new dkeys_def spec_at_def node_at_def dget_dput [symmetric] split: if_splits)
      (auto simp: dget_dput dput_new [symmetric])
  from n show "ns_id sp \<notin> set (dkeys (dg_nodes s))" by (simp add: dget_None_iff dkeys_def)
qed

lemma add_nodes_specs:
  assumes "add_nodes sps s = Inr t" and "distinct (dkeys (dg_nodes s))"
  shows "dkeys (dg_nodes t) = dkeys (dg_nodes s) @ map ns_id sps \<and> distinct (dkeys (dg_nodes t)) \<and>
    (\<forall>k. spec_at t k = (case find (\<lambda>sp. ns_id sp = k) sps of None \<Rightarrow> spec_at s k | Some sp \<Rightarrow> Some sp))"
  using assms
proof (induction sps arbitrary: s)
  case Nil
  then show ?case by simp
next
  case (Cons sp sps)
  then obtain u where u: "add_node sp s = Inr u" "add_nodes sps u = Inr t" by (auto simp: res_bind_Inr_iff)
  note a = add_node_specs [OF u(1)]
  have d: "distinct (dkeys (dg_nodes u))" using a Cons.prems(2) by simp
  note IH = Cons.IH [OF u(2) d, THEN conjunct1] Cons.IH [OF u(2) d, THEN conjunct2]
  have "find (\<lambda>sp'. ns_id sp' = ns_id sp) sps = None"
    using IH a(1) by (auto simp: find_None_iff) (metis image_eqI)
  with IH a show ?case by (auto split: option.split)
qed

lemma start_view:
  assumes "start_run g = Inr s"
  obtains "dg_nodes s = dg_nodes g" "dg_compat s = dg_compat g" "dg_tasks s = []" "dg_processed s = {}" "dg_doneq s = []"
    "dg_trace s = dg_trace g" "dg_failed s = dg_failed g" "dg_nodes g \<noteq> []" "dg_loop s \<noteq> Finished"
  using assms by (auto simp: start_run_def Let_def loop_head_def all_processed_def split: if_splits option.splits)

text \<open>A run from the registration of the nodes \<open>sps\<close> on.\<close>

definition run_from :: "bool \<Rightarrow> node_spec list \<Rightarrow> dag_event list \<Rightarrow> dag \<Rightarrow> bool" where
  "run_from cmp sps es s \<longleftrightarrow> (\<exists>g s0. add_nodes sps (new_dag cmp) = Inr g \<and> start_run g = Inr s0 \<and> s = dag_run s0 es)"

lemma run_from_facts:
  assumes "run_from cmp sps es s"
  shows "order_inv s" "dkeys (dg_nodes s) = map ns_id sps" "distinct (map ns_id sps)"
    "spec_at s k = find (\<lambda>sp. ns_id sp = k) sps" "dg_compat s = cmp"
proof -
  from assms obtain g s0 where r: "add_nodes sps (new_dag cmp) = Inr g" "start_run g = Inr s0" "s = dag_run s0 es"
    by (auto simp: run_from_def)
  from fresh_adds [OF fresh_new r(1)] have g: "fresh_graph g" "dg_compat g = cmp" by (simp_all add: new_dag_def)
  from order_run [OF order_start [OF g(1) r(2)]] show "order_inv s" by (simp add: r(3))
  obtain n: "dg_nodes s0 = dg_nodes g" "dg_compat s0 = dg_compat g" using r(2) by (rule start_view)
  then have "same_graph s g" using same_graph_run [of s0 es] same_graph_view [of s0 g g]
    by (auto simp: r(3) intro: same_graph_trans)
  moreover have "dkeys (dg_nodes (new_dag cmp)) = []" "spec_at (new_dag cmp) k = None" for k
    by (simp_all add: new_dag_def dkeys_def spec_at_def node_at_def)
  ultimately show "dkeys (dg_nodes s) = map ns_id sps" "distinct (map ns_id sps)"
    "spec_at s k = find (\<lambda>sp. ns_id sp = k) sps" "dg_compat s = cmp"
    using add_nodes_specs [OF r(1)] g(2) by (auto simp: same_graph_def split: option.split)
qed

section \<open>Correctness of a run\<close>

section \<open>Failures\<close>

text \<open>
  A failure leaves its mark: the node stays failed, and without the substitute task group the
  loop has been cancelled.
\<close>

definition fail_inv :: "dag \<Rightarrow> bool" where
  "fail_inv s \<longleftrightarrow> (\<forall>k. Node_Fail k \<in> set (dg_trace s) \<longrightarrow> dg_failed s \<and> (\<exists>n. node_at s k = Some n \<and> nd_status n = Failed)) \<and>
     (dg_failed s \<longrightarrow> dg_compat s \<or> dg_loop s = Crashed)"

lemma fail_view:
  assumes "fail_inv s" and "dg_nodes t = dg_nodes s" and "dg_trace t = dg_trace s" and "dg_compat t = dg_compat s"
    and "dg_failed t = dg_failed s" and "dg_loop s = Crashed \<Longrightarrow> dg_loop t = Crashed"
  shows "fail_inv t"
  using assms by (auto simp: fail_inv_def views [OF assms(2)])

lemma fail_set:
  assumes "fail_inv s" and "node_at s nid = Some n" and "nd_status n \<noteq> Failed" and "nd_spec (f n) = nd_spec n"
    and "dg_nodes t = dg_nodes (set_node nid f s)" and "set (dg_trace t) \<subseteq> insert e (set (dg_trace s))"
    and "\<And>k. e \<noteq> Node_Fail k" and "dg_compat t = dg_compat s" and "dg_failed t = dg_failed s" and "dg_loop t = dg_loop s"
  shows "fail_inv t"
proof -
  have at: "node_at t k = (if k = nid then Some (f n) else node_at s k)" for k
    using assms(2) by (simp add: views [OF assms(5)] node_at_set)
  have "dg_failed s \<and> (\<exists>n. node_at t k = Some n \<and> nd_status n = Failed)" if "Node_Fail k \<in> set (dg_trace t)" for k
  proof -
    have "Node_Fail k \<in> set (dg_trace s)" using that assms(6) assms(7) [of k] by auto
    with assms(1) have "dg_failed s" "\<exists>n. node_at s k = Some n \<and> nd_status n = Failed" by (simp_all add: fail_inv_def)
    with assms(2,3) at [of k] show ?thesis by auto
  qed
  with assms(1,8,9,10) show ?thesis by (simp add: fail_inv_def)
qed

lemma fail_cancels:
  assumes "\<And>k. Node_Fail k \<in> set (dg_trace u) \<Longrightarrow> \<exists>n. node_at u k = Some n \<and> nd_status n = Failed"
    and "\<And>k m. (k, Executing m) \<in> set ts \<Longrightarrow> node_at u k \<noteq> None"
    and "Node_Fail k \<in> set (dg_trace (foldl cancel_node u ts))"
  shows "\<exists>n. node_at (foldl cancel_node u ts) k = Some n \<and> nd_status n = Failed"
  using assms
proof (induction ts arbitrary: u)
  case (Cons x ts)
  obtain a ph where x: "x = (a, ph)" by (cases x)
  show ?case
  proof (cases ph)
    case (Executing m)
    let ?u = "(set_node a (\<lambda>n. n\<lparr>nd_status := Failed\<rparr>) u)\<lparr>dg_trace := dg_trace u @ [Node_Fail a]\<rparr>"
    have c: "cancel_node u x = ?u" by (simp add: x Executing cancel_node_def)
    obtain n where n: "node_at u a = Some n" using Cons.prems(2) [of a m] by (auto simp: x Executing)
    have at: "node_at ?u j = (if j = a then Some (n\<lparr>nd_status := Failed\<rparr>) else node_at u j)" for j
      using node_at_set [of a "\<lambda>n. n\<lparr>nd_status := Failed\<rparr>" u j] by (simp add: node_at_def n [unfolded node_at_def])
    have "\<exists>n. node_at (foldl cancel_node ?u ts) k = Some n \<and> nd_status n = Failed"
    proof (rule Cons.IH)
      show "\<exists>n. node_at ?u j = Some n \<and> nd_status n = Failed" if "Node_Fail j \<in> set (dg_trace ?u)" for j
        using that Cons.prems(1) [of j] unfolding at by auto
      show "node_at ?u j \<noteq> None" if "(j, Executing m) \<in> set ts" for j m
        unfolding at using that Cons.prems(2) [of j m] by simp
    qed (use Cons.prems(3) c in simp)
    then show ?thesis by (simp add: c)
  qed (use Cons in \<open>force simp: x cancel_node_def\<close>)+
qed simp

lemma fail_raise:
  assumes "\<And>k. Node_Fail k \<in> set (dg_trace s) \<Longrightarrow> \<exists>n. node_at s k = Some n \<and> nd_status n = Failed"
    and "wf_dict (dg_tasks s)" and "\<And>k m. dget (dg_tasks s) k = Some (Executing m) \<Longrightarrow> node_at s k \<noteq> None"
  shows "fail_inv (task_raises nid s)"
proof -
  let ?s = "s\<lparr>dg_tasks := dpop nid (dg_tasks s), dg_failed := True\<rparr>"
  have at: "node_at ?s = node_at s" by (simp add: node_at_def fun_eq_iff)
  have "\<exists>n. node_at (foldl cancel_node ?s (dpop nid (dg_tasks s))) k = Some n \<and> nd_status n = Failed"
    if "Node_Fail k \<in> set (dg_trace (foldl cancel_node ?s (dpop nid (dg_tasks s))))" for k
  proof (rule fail_cancels [OF _ _ that])
    fix k m
    assume "(k, Executing m) \<in> set (dpop nid (dg_tasks s))"
    with assms(2) have "dget (dpop nid (dg_tasks s)) k = Some (Executing m)" by (simp add: wf_dict_dget_iff)
    then show "node_at ?s k \<noteq> None" using assms(3) at by (auto simp: dget_dpop split: if_splits)
  qed (use assms(1) at in simp)
  moreover have "dg_failed (foldl cancel_node u ts) = dg_failed u" for u ts
  proof (induction ts arbitrary: u)
    case (Cons x ts)
    then show ?case by (cases x; cases "snd x") (auto simp: cancel_node_def)
  qed simp
  ultimately show ?thesis
    using assms(1) at by (auto simp: fail_inv_def task_raises_def Let_def node_at_def)
qed

lemma fail_warm:
  assumes "fail_inv s" and "warm_node nid ws c s = Some (b, t)"
  shows "fail_inv t"
  using assms(2)
proof (cases rule: warm_cases)
  case same
  with assms(1) show ?thesis by simp
next
  case (hit n r)
  show ?thesis
    by (rule fail_set [OF assms(1) hit(1), where f = "\<lambda>n. n\<lparr>nd_status := Done, nd_result := Some r\<rparr>" and e = "Prefetch_Hit nid"])
      (simp_all add: hit)
qed

lemma fail_begin:
  assumes "fail_inv s" and "order_inv s"
  shows "fail_inv (task_begin nid ws s)"
proof -
  from assms(2) have i: "wf_dict (dg_tasks s)" "calls_inv s" by (simp_all add: order_inv_def)
  have fr: "fail_inv (task_raises nid s)"
    by (rule fail_raise [OF _ i(1)]) (use assms(1) i(2) in \<open>fastforce simp: fail_inv_def calls_inv_def\<close>)+
  show ?thesis
  proof (cases "\<exists>n. node_at s nid = Some n \<and> nd_status n = Pending")
    case False
    have "fail_inv (set_phase nid Returning s)" by (rule fail_view [OF assms(1)]) (simp_all add: set_phase_def)
    with False fr assms(1) show ?thesis unfolding task_begin_def by (auto split: option.split wait_state.split)
  next
    case True
    then obtain n where n: "node_at s nid = Some n" "nd_status n = Pending" by blast
    let ?f = "\<lambda>n. n\<lparr>nd_status := Running\<rparr>"
    let ?s = "set_node nid ?f s"
    have go: "fail_inv (set_phase nid p (?s\<lparr>dg_trace := dg_trace s @ [Node_Start nid]\<rparr>))" for p
      by (rule fail_set [OF assms(1) n(1), where f = ?f and e = "Node_Start nid"]) (simp_all add: n set_phase_def)
    have at: "node_at ?s k = (if k = nid then Some (?f n) else node_at s k)" for k by (simp add: node_at_set n)
    have "fail_inv (task_raises nid ?s)"
    proof (rule fail_raise)
      show "\<exists>n. node_at ?s k = Some n \<and> nd_status n = Failed" if "Node_Fail k \<in> set (dg_trace ?s)" for k
      proof -
        from that assms(1) obtain n' where "node_at s k = Some n'" "nd_status n' = Failed" by (auto simp: fail_inv_def)
        with n show ?thesis by (auto simp: at)
      qed
      show "node_at ?s k \<noteq> None" if "dget (dg_tasks ?s) k = Some (Executing m)" for k m
        using that i(2) by (auto simp: at calls_inv_def)
    qed (use i(1) in simp)
    with go fr assms(1) n show ?thesis
      by (auto simp: task_begin_def Let_def split: wait_state.split option.split)
  qed
qed

lemma fail_finish:
  assumes "fail_inv s" and "order_inv s"
  shows "fail_inv (task_finish nid r s)"
proof (cases "\<exists>m. dget (dg_tasks s) nid = Some (Executing m)")
  case False
  with assms(1) show ?thesis by (auto simp: task_finish_def split: option.split phase.split)
next
  case True
  then obtain m where m: "dget (dg_tasks s) nid = Some (Executing m)" ..
  from assms(2) have i: "wf_dict (dg_tasks s)" "calls_inv s" by (simp_all add: order_inv_def)
  with m obtain n where n: "node_at s nid = Some n" "nd_status n = Running" by (auto simp: calls_inv_def)
  show ?thesis
  proof (cases r)
    case None
    let ?f = "\<lambda>n. n\<lparr>nd_status := Failed\<rparr>"
    let ?s = "(set_node nid ?f s)\<lparr>dg_trace := dg_trace s @ [Node_Fail nid]\<rparr>"
    have at: "node_at ?s k = (if k = nid then Some (?f n) else node_at s k)" for k
      using node_at_set [of nid ?f s k] by (simp add: node_at_def n [unfolded node_at_def])
    have "fail_inv (task_raises nid ?s)"
    proof (rule fail_raise)
      show "\<exists>n. node_at ?s k = Some n \<and> nd_status n = Failed" if "Node_Fail k \<in> set (dg_trace ?s)" for k
        using that assms(1) unfolding at by (auto simp: fail_inv_def)
      show "node_at ?s k \<noteq> None" if "dget (dg_tasks ?s) k = Some (Executing m)" for k m
        unfolding at using that i(2) by (auto simp: calls_inv_def)
    qed (use i(1) in simp)
    with m None show ?thesis by (simp add: task_finish_def)
  next
    case (Some x)
    obtain v d where x: "x = (v, d)" by (cases x)
    let ?f = "\<lambda>n. n\<lparr>nd_status := Done, nd_result := Some \<lparr>nr_value = v, nr_fingerprint = cd_fingerprint d,
      nr_state = cd_state d\<rparr>\<rparr>"
    have "fail_inv (set_phase nid Returning ((set_node nid ?f s)\<lparr>dg_trace := dg_trace s @ [Node_End nid]\<rparr>))"
      by (rule fail_set [OF assms(1) n(1), where f = ?f and e = "Node_End nid"]) (simp_all add: n set_phase_def)
    with m Some x show ?thesis by (simp add: task_finish_def)
  qed
qed

lemma fail_step:
  assumes "fail_inv s" and "order_inv s"
  shows "fail_inv (dag_step s e)"
proof (cases e)
  case (Loop_Warm ws c)
  show ?thesis
  proof (cases "dg_loop s = Crashed")
    case True
    with assms(1) show ?thesis by (simp add: Loop_Warm loop_warm_def)
  next
    case False
    have w: "fail_inv (t\<lparr>dg_loop := l\<rparr>)" if "fail_inv t" "dg_loop t \<noteq> Crashed" for t l
      using that by (auto simp: fail_inv_def node_at_def)
    have "dg_loop t = dg_loop s" if "warm_node nid ws c s = Some (b, t)" for nid b t
      using that by (cases rule: warm_cases) simp_all
    with False w assms(1) fail_warm [OF assms(1)] show ?thesis
      by (auto simp: Loop_Warm loop_warm_def split: loop.split list.split option.split)
  qed
next
  case Loop_Tick
  have "dg_trace (drain t) = dg_trace t \<and> dg_failed (drain t) = dg_failed t" for t using drain_frame [of t] by simp
  with assms(1) drain_frame show ?thesis
    by (auto simp: Loop_Tick loop_tick_def Let_def node_at_def fail_inv_def split: loop.split list.split)
next
  case Loop_Wake
  show ?thesis
    by (cases "dg_loop s = Awaiting"; cases "dg_doneq s")
      (use assms(1) in \<open>auto simp: Loop_Wake loop_wake_def node_at_def fail_inv_def\<close>)
next
  case (Task_Return nid)
  show ?thesis by (rule fail_view [OF assms(1)]) (simp_all add: Task_Return task_return_def)
next
  case (Background nid ws c)
  with assms(1) show ?thesis by (auto simp: background_warm_def split: option.split intro: fail_warm)
next
  case (Open_Gate nid)
  show ?thesis by (rule fail_view [OF assms(1)]) (simp_all add: Open_Gate)
qed (use assms in \<open>simp_all add: fail_begin fail_finish\<close>)

lemma fail_run: "fail_inv s \<Longrightarrow> order_inv s \<Longrightarrow> fail_inv (dag_run s es)"
  unfolding dag_run_def by (induction es arbitrary: s) (simp_all add: fail_step order_step)

lemma run_fail: "run_from cmp sps es s \<Longrightarrow> fail_inv s"
proof -
  assume "run_from cmp sps es s"
  then obtain g s0 where r: "add_nodes sps (new_dag cmp) = Inr g" "start_run g = Inr s0" "s = dag_run s0 es"
    by (auto simp: run_from_def)
  from fresh_adds [OF fresh_new r(1)] have g: "fresh_graph g" by simp
  obtain v: "dg_trace s0 = dg_trace g" "dg_failed s0 = dg_failed g"
    using r(2) by (rule start_view)
  with g have "fail_inv s0" by (simp add: fail_inv_def fresh_graph_def)
  from fail_run [OF this order_start [OF g r(2)]] show ?thesis by (simp add: r(3))
qed

lemma run_append: "run_from cmp sps es s \<Longrightarrow> run_from cmp sps (es @ es') (dag_run s es')"
  by (auto simp: run_from_def dag_run_def)

lemma raise_trace: "set (dg_trace s) \<subseteq> set (dg_trace (task_raises nid s))"
proof -
  have "set (dg_trace u) \<subseteq> set (dg_trace (foldl cancel_node u ts))" for u ts
  proof (induction ts arbitrary: u)
    case (Cons x ts)
    have "set (dg_trace u) \<subseteq> set (dg_trace (cancel_node u x))"
      by (cases x; cases "snd x") (auto simp: cancel_node_def)
    with Cons.IH [of "cancel_node u x"] show ?case by auto
  qed simp
  from this [of "s\<lparr>dg_tasks := dpop nid (dg_tasks s), dg_failed := True\<rparr>"] show ?thesis
    by (simp add: task_raises_def Let_def)
qed

lemma warm_trace: "warm_node nid ws c s = Some (b, t) \<Longrightarrow> e \<in> set (dg_trace s) \<Longrightarrow> e \<in> set (dg_trace t)"
  by (erule warm_cases) auto

lemma trace_grows: "set (dg_trace s) \<subseteq> set (dg_trace (dag_step s e))"
proof (cases e)
  case (Task_Begin nid ws)
  show ?thesis
    using raise_trace [of s nid] raise_trace [of "set_node nid (\<lambda>n. n\<lparr>nd_status := Running\<rparr>) s" nid]
    by (auto simp: Task_Begin task_begin_def set_phase_def Let_def split: option.split wait_state.split)
next
  case (Task_Finish nid r)
  show ?thesis
    using raise_trace [of "(set_node nid (\<lambda>n. n\<lparr>nd_status := Failed\<rparr>) s)\<lparr>dg_trace := dg_trace s @ [Node_Fail nid]\<rparr>" nid]
    by (auto simp: Task_Finish task_finish_def set_phase_def split: option.split phase.split)
next
  case (Loop_Warm ws c)
  then show ?thesis
    by (auto simp: loop_warm_def split: loop.split list.split option.split dest: warm_trace)
next
  case (Background nid ws c)
  then show ?thesis by (auto simp: background_warm_def split: option.split dest: warm_trace)
next
  case Loop_Tick
  then show ?thesis by (simp add: loop_tick_def Let_def drain_frame split: loop.split list.split)
next
  case Loop_Wake
  then show ?thesis by (simp add: loop_wake_def split: list.split)
qed (simp_all add: task_return_def)

lemma run_trace: "set (dg_trace s) \<subseteq> set (dg_trace (dag_run s es))"
  unfolding dag_run_def
proof (induction es arbitrary: s)
  case (Cons e es)
  with trace_grows [of s e] Cons.IH [of "dag_step s e"] show ?case by auto
qed simp

text \<open>C32: in every interleaving of the scheduler, the tasks and the prefetcher, a node's call
  starts at most once, and only after each node it depends on has completed.\<close>

theorem dependencies_first:
  assumes "run_from cmp sps es s" and "dg_trace s = xs @ Node_Start nid # ys"
  shows "Node_Start nid \<notin> set (xs @ ys) \<and>
    (\<exists>sp \<in> set sps. ns_id sp = nid \<and> (\<forall>p \<in> set (ns_depends sp). completed p xs))"
proof -
  note r = run_from_facts [OF assms(1)]
  from r(1) assms(2) have t: "\<forall>p \<in> set (deps_of s nid). completed p xs" "\<exists>n. node_at s nid = Some n"
    and d: "distinct (filter is_start (dg_trace s))"
    by (auto simp: order_inv_def trace_inv_def)
  from t(2) have "spec_at s nid \<noteq> None" by (auto simp: spec_at_def)
  then obtain sp where sp: "find (\<lambda>sp. ns_id sp = nid) sps = Some sp" "spec_at s nid = Some sp" using r(4) by fastforce
  then have "sp \<in> set sps" "ns_id sp = nid" by (auto simp: find_Some_iff)
  moreover have "deps_of s nid = ns_depends sp" using sp(2) by (auto simp: spec_at_def deps_of_def)
  moreover have "Node_Start nid \<notin> set (xs @ ys)"
  proof
    assume "Node_Start nid \<in> set (xs @ ys)"
    then have "Node_Start nid \<in> set (filter is_start xs) \<union> set (filter is_start ys)" by auto
    with d show False by (auto simp: assms(2))
  qed
  ultimately show ?thesis using t(1) by auto
qed


lemma run_sched:
  assumes "run_from cmp sps es s" and "\<And>k. k \<in> C \<Longrightarrow> \<exists>sp \<in> set sps. ns_id sp = k \<and> set (ns_depends sp) \<inter> C \<noteq> {}"
  shows "sched_inv C s"
proof -
  from assms(1) obtain g s0 where r: "add_nodes sps (new_dag cmp) = Inr g" "start_run g = Inr s0" "s = dag_run s0 es"
    by (auto simp: run_from_def)
  have f: "run_from cmp sps [] s0" unfolding run_from_def dag_run_def using r by auto
  note f0 = run_from_facts [OF f]
  from fresh_adds [OF fresh_new r(1)] have fresh: "fresh_graph g" by simp
  obtain v: "dg_nodes s0 = dg_nodes g" "dg_compat s0 = dg_compat g" "dg_tasks s0 = []" "dg_processed s0 = {}" "dg_doneq s0 = []"
    "dg_trace s0 = dg_trace g" "dg_failed s0 = dg_failed g" "dg_nodes g \<noteq> []" "dg_loop s0 \<noteq> Finished"
    using r(2) by (rule start_view)
  have "\<exists>n. node_at s0 k = Some n \<and> nd_status n = Pending \<and> set (ns_depends (nd_spec n)) \<inter> C \<noteq> {}" if k: "k \<in> C" for k
  proof -
    from assms(2) [OF k] obtain sp where sp: "sp \<in> set sps" "ns_id sp = k" "set (ns_depends sp) \<inter> C \<noteq> {}" by blast
    have "find (\<lambda>sp. ns_id sp = k) sps = Some sp"
      using sp(1,2) f0(3) by (induction sps) (auto simp: image_iff)
    then obtain n where n: "node_at s0 k = Some n" "nd_spec n = sp" using f0(4) [of k] by (auto simp: spec_at_def)
    with fresh v(1) have "nd_status n = Pending" by (auto simp: fresh_graph_def node_at_def)
    with n sp(3) show ?thesis by blast
  qed
  moreover have "clean s0" using fresh v(1) by (auto simp: clean_def fresh_graph_def node_at_def)
  ultimately have "sched_inv C s0" using v by (auto simp: sched_inv_def cyclic_def tasks_ok_def dget_def)
  from sched_run [OF this f0(1)] show ?thesis by (simp add: r(3))
qed


text \<open>\<open>run\<close> returns only when every node is done: the results are those of all registered
  nodes, in the order of registration, and each node was run or found in the cache.\<close>

theorem returned_complete:
  assumes "run_from cmp sps es s" and "returned s"
  shows "map fst (run_results s) = map ns_id sps \<and> (\<forall>nid \<in> set (map ns_id sps). is_done s nid \<and> completed nid (dg_trace s))"
proof -
  note r = run_from_facts [OF assms(1)]
  have i: "sched_inv {} s" by (rule run_sched [OF assms(1)]) simp
  from assms(2) have fin: "dg_loop s = Finished" "dg_tasks s = []" "\<not> dg_failed s" by (simp_all add: returned_def)
  have d: "\<exists>x. nd_status n = Done \<and> nd_result n = Some x" if "node_at s k = Some n" for k n
  proof -
    have "k \<in> free s" using sched_finished [OF i fin(1)] r(2,3) that by (auto simp: keys_iff)
    with i that fin have "nd_status n = Done" by (auto simp: free_def sched_inv_def clean_def dget_def)
    with r(1) that show ?thesis by (auto simp: order_inv_def nodes_inv_def)
  qed
  have "\<exists>x. nd_result (snd kn) = Some x" if "kn \<in> set (dg_nodes s)" for kn
    using d [of "fst kn" "snd kn"] that r(2,3) wf_dict_dget_iff [of "dg_nodes s" "fst kn" "snd kn"]
    by (auto simp: node_at_def wf_dict_def dkeys_def)
  then have "map fst (List.map_filter (\<lambda>(nid, n). map_option (\<lambda>r. (nid, r)) (nd_result n)) ns) = map fst ns"
    if "set ns \<subseteq> set (dg_nodes s)" for ns
    using that by (induction ns) (force simp: List.map_filter_simps)+
  then have "map fst (run_results s) = dkeys (dg_nodes s)" by (simp add: run_results_def dkeys_def)
  moreover have "is_done s nid \<and> completed nid (dg_trace s)" if k: "nid \<in> set (map ns_id sps)" for nid
  proof -
    from k r(2) have "nid \<in> keys s" by (simp add: keys_def)
    then obtain n where "node_at s nid = Some n" by (auto simp: keys_iff)
    with d have "is_done s nid" by (auto simp: is_done_iff)
    with r(1) show ?thesis by (simp add: order_inv_def trace_inv_def)
  qed
  ultimately show ?thesis using r(2) by simp
qed

text \<open>a failure is final: the node is never done and the run never returns. The scheduler
  loop is cancelled; with the substitute task group it goes on, and never ends.\<close>

theorem failure_never_returns:
  assumes "run_from cmp sps es s" and "Node_Fail nid \<in> set (dg_trace s)"
  shows "\<not> is_done (dag_run s es') nid \<and> \<not> returned (dag_run s es') \<and> dg_loop (dag_run s es') \<noteq> Finished \<and>
    (\<not> cmp \<longrightarrow> dg_loop (dag_run s es') = Crashed)"
proof -
  let ?t = "dag_run s es'"
  have run: "run_from cmp sps (es @ es') ?t" by (rule run_append [OF assms(1)])
  note r = run_from_facts [OF run]
  have f: "dg_failed ?t" "\<exists>n. node_at ?t nid = Some n \<and> nd_status n = Failed" "\<not> cmp \<longrightarrow> dg_loop ?t = Crashed"
    using run_fail [OF run] assms(2) run_trace [of s es'] r(5) by (auto simp: fail_inv_def)
  have i: "sched_inv {} ?t" by (rule run_sched [OF run]) simp
  from f(2) have "nid \<in> keys ?t" "nid \<notin> free ?t" by (auto simp: keys_iff free_def)
  with sched_finished [OF i] r(2,3) have "dg_loop ?t \<noteq> Finished" by auto
  with f show ?thesis by (auto simp: returned_def is_done_iff)
qed

text \<open>a prefetched node has the result its call would have had: begun in the same state and
  workspace, with the same cache, the call is served from the cache with the same value and
  fingerprint.\<close>

theorem prefetch_agrees:
  assumes "warm_node nid ws c s = Some (True, t)" and "dget (dg_tasks s) nid = Some Waiting"
    and "dget (dg_tasks (task_begin nid ws s)) nid = Some (Executing m)"
    and "run_call repr k tr c = (Inr (v, d), tr', c', b)" and "sc_manifest k = m"
  shows "\<not> b \<and> c' = c \<and> (\<exists>r. result_of t nid = Some r \<and> nr_value r = v \<and> nr_fingerprint r = cd_fingerprint d)"
proof -
  obtain n where n: "node_at s nid = Some n" using assms(1) by (auto simp: warm_node_def split: option.splits)
  let ?sp = "nd_spec n"
  obtain kw where kw: "build_kwargs s (ns_upstream ?sp) [] = Some kw" and st: "nd_status n = Pending"
    using assms(1) n by (auto simp: warm_node_def Let_def split: option.splits if_splits)
  let ?m = "call_manifest ?sp (upstream_fps s ?sp) (workspace_hashes_for_node ws ?sp) kw"
  obtain x where x: "peek_cache_object (fingerprint_manifest ?m) c = Some x"
    and t: "t = (set_node nid (\<lambda>n. n\<lparr>nd_status := Done, nd_result := Some \<lparr>nr_value = x,
        nr_fingerprint = fingerprint_manifest ?m, nr_state = ''PREDICTIVE_CACHE_HIT''\<rparr>\<rparr>) s)\<lparr>dg_trace := dg_trace s @ [Prefetch_Hit nid]\<rparr>"
    using assms(1) n kw
    by (auto simp: warm_node_def Let_def fingerprint_for_def split: option.splits if_splits)
  have res: "result_of t nid = Some \<lparr>nr_value = x, nr_fingerprint = fingerprint_manifest ?m, nr_state = ''PREDICTIVE_CACHE_HIT''\<rparr>"
    using n by (simp add: t result_of_def node_at_def set_node_def)
  have "m = ?m"
    using assms(2,3) n st kw raise_frame(3) [of nid s nid]
    by (auto simp: task_begin_def Let_def set_phase_def split: wait_state.splits if_splits)
  with assms(5) x obtain d0 out where o: "stored_output (fingerprint_manifest (sc_manifest k)) c = Some (d0, out)" "loads out = Some x"
    by (auto simp: peek_cache_object_def split: option.splits if_splits)
  with run_call_cases [OF assms(4)] have "\<not> b" "c' = c" "v = x" "cd_fingerprint d = fingerprint_manifest (sc_manifest k)"
    by (auto simp: output_value_def split: if_splits sum.splits)
  with res \<open>m = ?m\<close> assms(5) show ?thesis by simp
qed

section \<open>Sample runs\<close>

definition demo_node :: "string \<Rightarrow> string list \<Rightarrow> node_spec" where
  "demo_node nid deps = \<lparr>ns_id = nid, ns_stage = ''SAS'', ns_agent = [], ns_fn = ''f'', ns_label = nid, ns_depends = deps,
     ns_upstream = [], ns_args = [], ns_kwargs = [], ns_inputs = [], ns_gated = False\<rparr>"

lemma demo_node_sel [simp]:
  "ns_id (demo_node nid deps) = nid" "ns_depends (demo_node nid deps) = deps" "ns_upstream (demo_node nid deps) = []"
  "ns_gated (demo_node nid deps) = False"
  by (simp_all add: demo_node_def)

definition demo_decision :: cache_decision where
  "demo_decision = \<lparr>cd_fingerprint = ''fp'', cd_state = ''CACHE_MISS'',
     cd_telemetry = \<lparr>ct_wall = ''0.0'', ct_cpu = ''0.0'', ct_bytes = 0, ct_mode = '''', ct_trace = ''''\<rparr>\<rparr>"

lemma peek_empty [simp]: "peek_cache_object fp demo_cache = None"
  by (simp add: peek_cache_object_def stored_output_def try_load_def demo_cache_def)

lemmas run_eval = node_at_def is_done_def set_node_def ref_value_def prefetch_candidates_def node_scan_def warm_node_def
  upstream_fps_def result_of_def process_done_def release_child_def sweep_def drain.simps all_processed_def loop_head_def
  loop_warm_def loop_tick_def loop_wake_def task_begin_def task_finish_def task_return_def task_raises_def set_phase_def
  cancel_node_def add_node_def add_dependent_def new_dag_def start_run_def Let_def py_simps dvalues_def dkeys_def dhas_def
  dsetdefault_def dget_def map_filter_simps run_from_def dag_run_def

text \<open>Two nodes, the second after the first.\<close>

definition two_specs :: "node_spec list" where
  "two_specs = [demo_node ''a'' [], demo_node ''b'' [''a'']]"

definition two_result :: "int \<Rightarrow> node_result" where
  "two_result i = \<lparr>nr_value = JInt i, nr_fingerprint = ''fp'', nr_state = ''CACHE_MISS''\<rparr>"

definition two :: "status \<Rightarrow> node_result option \<Rightarrow> status \<Rightarrow> node_result option \<Rightarrow> int \<Rightarrow> string list \<Rightarrow> string set
    \<Rightarrow> (string, phase) dict \<Rightarrow> string list \<Rightarrow> loop \<Rightarrow> trace_event list \<Rightarrow> dag" where
  "two sa ra sb rb k ready proc tasks q l tr =
     \<lparr>dg_nodes = [(''a'', \<lparr>nd_spec = demo_node ''a'' [], nd_status = sa, nd_result = ra\<rparr>),
        (''b'', \<lparr>nd_spec = demo_node ''b'' [''a''], nd_status = sb, nd_result = rb\<rparr>)],
      dg_dependents = [(''a'', [''b'']), (''b'', [])], dg_remaining = [(''a'', 0), (''b'', k)], dg_ready = ready,
      dg_processed = proc, dg_tasks = tasks, dg_doneq = q, dg_loop = l, dg_gates = {}, dg_compat = False,
      dg_failed = False, dg_trace = tr\<rparr>"

definition two_call :: "string \<Rightarrow> string list \<Rightarrow> string list \<Rightarrow> phase" where
  "two_call nid deps ups = Executing (call_manifest (demo_node nid deps) ups (workspace_hashes_for_node [] (demo_node nid deps)) [])"

abbreviation "two0 \<equiv> two Pending None Pending None 1 [''a''] {} [] [] (Prefetching [''a''] False) []"
abbreviation "a_done \<equiv> two Done (Some (two_result 1))"
abbreviation "a_trace \<equiv> [Node_Start ''a'', Node_End ''a'']"
abbreviation "ab_trace \<equiv> [Node_Start ''a'', Node_End ''a'', Node_Start ''b'']"
abbreviation "all_trace \<equiv> [Node_Start ''a'', Node_End ''a'', Node_Start ''b'', Node_End ''b'']"

lemma two_start: "res_bind (add_nodes two_specs (new_dag False)) start_run = Inr two0"
  by (simp add: two_def two_specs_def run_eval)

lemma two_steps:
  "dag_step two0 (Loop_Warm [] demo_cache) = two Pending None Pending None 1 [''a''] {} [] [] (Prefetching [] False) []"
  "dag_step (two Pending None Pending None 1 [''a''] {} [] [] (Prefetching [] False) []) Loop_Tick =
     two Pending None Pending None 1 [] {} [(''a'', Waiting)] [] Awaiting []"
  "dag_step (two Pending None Pending None 1 [] {} [(''a'', Waiting)] [] Awaiting []) (Task_Begin ''a'' []) =
     two Running None Pending None 1 [] {} [(''a'', two_call ''a'' [] [])] [] Awaiting [Node_Start ''a'']"
  "dag_step (two Running None Pending None 1 [] {} [(''a'', two_call ''a'' [] [])] [] Awaiting [Node_Start ''a''])
     (Task_Finish ''a'' (Some (JInt 1, demo_decision))) = a_done Pending None 1 [] {} [(''a'', Returning)] [] Awaiting a_trace"
  "dag_step (a_done Pending None 1 [] {} [(''a'', Returning)] [] Awaiting a_trace) (Task_Return ''a'') =
     a_done Pending None 1 [] {} [] [''a''] Awaiting a_trace"
  "dag_step (a_done Pending None 1 [] {} [] [''a''] Awaiting a_trace) Loop_Wake =
     a_done Pending None 0 [''b''] {''a''} [] [] (Prefetching [''b''] False) a_trace"
  "dag_step (a_done Pending None 0 [''b''] {''a''} [] [] (Prefetching [''b''] False) a_trace) (Loop_Warm [] demo_cache) =
     a_done Pending None 0 [''b''] {''a''} [] [] (Prefetching [] False) a_trace"
  "dag_step (a_done Pending None 0 [''b''] {''a''} [] [] (Prefetching [] False) a_trace) Loop_Tick =
     a_done Pending None 0 [] {''a''} [(''b'', Waiting)] [] Awaiting a_trace"
  "dag_step (a_done Pending None 0 [] {''a''} [(''b'', Waiting)] [] Awaiting a_trace) (Task_Begin ''b'' []) =
     a_done Running None 0 [] {''a''} [(''b'', two_call ''b'' [''a''] [''fp''])] [] Awaiting ab_trace"
  "dag_step (a_done Running None 0 [] {''a''} [(''b'', two_call ''b'' [''a''] [''fp''])] [] Awaiting ab_trace)
     (Task_Finish ''b'' (Some (JInt 2, demo_decision))) =
     a_done Done (Some (two_result 2)) 0 [] {''a''} [(''b'', Returning)] [] Awaiting all_trace"
  "dag_step (a_done Done (Some (two_result 2)) 0 [] {''a''} [(''b'', Returning)] [] Awaiting all_trace)
     (Task_Return ''b'') = a_done Done (Some (two_result 2)) 0 [] {''a''} [] [''b''] Awaiting all_trace"
  "dag_step (a_done Done (Some (two_result 2)) 0 [] {''a''} [] [''b''] Awaiting all_trace) Loop_Wake =
     a_done Done (Some (two_result 2)) 0 [] {''b'', ''a''} [] [] Finished all_trace"
  by (simp_all add: two_def two_call_def two_result_def run_eval demo_decision_def)

definition two_calls :: "dag_event list" where
  "two_calls = [Loop_Warm [] demo_cache, Loop_Tick, Task_Begin ''a'' [], Task_Finish ''a'' (Some (JInt 1, demo_decision)),
     Task_Return ''a'', Loop_Wake, Loop_Warm [] demo_cache, Loop_Tick, Task_Begin ''b'' []]"

definition two_returns :: "dag_event list" where
  "two_returns = two_calls @ [Task_Finish ''b'' (Some (JInt 2, demo_decision)), Task_Return ''b'', Loop_Wake]"

lemma run_fromI: "res_bind (add_nodes sps (new_dag cmp)) start_run = Inr s0 \<Longrightarrow> run_from cmp sps es (dag_run s0 es)"
  by (auto simp: run_from_def res_bind_Inr_iff)

lemma run_two:
  "run_from False two_specs two_calls (a_done Running None 0 [] {''a''} [(''b'', two_call ''b'' [''a''] [''fp''])] []
     Awaiting ab_trace)"
  "run_from False two_specs two_returns (a_done Done (Some (two_result 2)) 0 [] {''b'', ''a''} [] [] Finished
     all_trace)"
  using run_fromI [OF two_start, of two_calls] run_fromI [OF two_start, of two_returns]
  by (simp_all add: dag_run_def two_calls_def two_returns_def two_steps del: dag_step.simps)

text \<open>One node, which fails.\<close>

definition one_failure :: "dag_event list" where
  "one_failure = [Loop_Warm [] demo_cache, Loop_Tick, Task_Begin ''a'' [], Task_Finish ''a'' None]"

lemma run_failure: "\<exists>s. run_from True [demo_node ''a'' []] one_failure s \<and> dg_trace s = [Node_Start ''a'', Node_Fail ''a'']"
  by (simp add: run_eval one_failure_def)

lemma run_self: "\<exists>s. run_from cmp [demo_node ''a'' [''a'']] [] s"
  by (simp add: run_eval)

theorem dependencies_first_witness:
  "Node_Start ''b'' \<notin> set (a_trace @ []) \<and> (\<exists>sp \<in> set two_specs. ns_id sp = ''b'' \<and> (\<forall>p \<in> set (ns_depends sp). completed p a_trace))"
  using dependencies_first [OF run_two(1), of a_trace "''b''" "[]"] by (simp add: two_def)


theorem returned_complete_witness:
  "map fst (run_results (a_done Done (Some (two_result 2)) 0 [] {''b'', ''a''} [] [] Finished
     all_trace)) = [''a'', ''b'']"
  using returned_complete [OF run_two(2)] by (simp add: two_def returned_def two_specs_def)

theorem failure_never_returns_witness:
  "\<exists>s. run_from True [demo_node ''a'' []] one_failure s \<and> \<not> returned (dag_run s [Loop_Wake, Loop_Tick])"
proof -
  obtain s where s: "run_from True [demo_node ''a'' []] one_failure s" "dg_trace s = [Node_Start ''a'', Node_Fail ''a'']"
    using run_failure by blast
  from failure_never_returns [OF s(1), of "''a''"] s show ?thesis by auto
qed

definition demo_manifest :: jdict where
  "demo_manifest = call_manifest (demo_node ''a'' []) [] (workspace_hashes_for_node [] (demo_node ''a'' [])) []"

abbreviation "warm_call \<equiv> demo_call\<lparr>sc_manifest := demo_manifest\<rparr>"
abbreviation "two_waiting \<equiv> two Pending None Pending None 1 [] {} [(''a'', Waiting)] [] Awaiting []"

lemma warm_call_wf: "call_wf warm_call"
  by (simp add: call_wf_def demo_call_def metrics_wf_def metric_flt_def wf_flt_zero demo_manifest_def call_manifest_def
      cache_manifest_def agent_meta_def demo_node_def workspace_hashes_for_node_def compute_workspace_file_hashes_def
      hashed_files_def jget_def py_simps dupdate_def dget_def)

lemma warm_call_run: "\<exists>d c. run_call repr warm_call None demo_cache = (Inr (JInt 7, d), None, c, True)"
  by (simp add: run_call_def demo_call_def demo_cache_def run_stage_def stored_output_def try_load_def
      trace_hit_def Let_def)

theorem prefetch_agrees_witness:
  "\<exists>c t d r. warm_node ''a'' [] c two_waiting = Some (True, t) \<and> run_call demo_repr warm_call None c = (Inr (JInt 7, d), None, c, False) \<and>
    result_of t ''a'' = Some r \<and> nr_value r = JInt 7 \<and> nr_fingerprint r = cd_fingerprint d"
proof -
  obtain d0 c where r: "run_call demo_repr warm_call None demo_cache = (Inr (JInt 7, d0), None, c, True)"
    using warm_call_run by blast
  obtain d tr where h: "run_call demo_repr warm_call None c = (Inr (JInt 7, d), tr, c, False)"
    using hit_after_miss [OF r warm_call_wf refl, of None] by auto
  then have tr: "tr = None"
    by (auto simp: run_call_def run_stage_def demo_call_def Let_def trace_hit_def split: option.splits)
  obtain o0 out where o: "stored_output (fingerprint_manifest demo_manifest) c = Some (o0, out)" "JInt 7 = output_value out"
    using run_call_cases [OF h] by auto
  then have p: "peek_cache_object (fingerprint_manifest demo_manifest) c = Some (JInt 7)"
    by (auto simp: peek_cache_object_def output_value_def split: option.splits)
  then obtain t where t: "warm_node ''a'' [] c two_waiting = Some (True, t)"
    by (auto simp: warm_node_def two_def node_at_def dget_def Let_def upstream_fps_def map_filter_simps fingerprint_for_def
        demo_manifest_def)
  have m: "dget (dg_tasks (task_begin ''a'' [] two_waiting)) ''a'' = Some (Executing demo_manifest)"
    using two_steps(3) by (simp add: two_def two_call_def dget_def demo_manifest_def del: dag_step.simps) 
      (simp add: run_eval two_def)
  have w: "dget (dg_tasks two_waiting) ''a'' = Some Waiting" by (simp add: two_def dget_def)
  from prefetch_agrees [OF t w m h] t h tr show ?thesis by auto
qed

end
