(* ===== verification/Blueprint.thy ===== *)
theory Blueprint
  imports Telemetry
begin

text \<open>
  The compilation helpers of \<^verbatim>\<open>core/dag_engine.py\<close>: the JSON block of
  \<^verbatim>\<open>DESIGNATED_AGENTS_LIST.md\<close>, the projects of \<^verbatim>\<open>PF_REPO_INVENTORY_LIST\<close> and the blueprint
  of a graph made from them. The two texts are arguments.

  The lemmas show that the nodes of a blueprint come after what they depend on, and that the
  compiler nevertheless always raises: its pattern is a raw string with doubled backslashes,
  so it asks for literal backslashes, and what it finds is never JSON.
\<close>

section \<open>The designated agents\<close>

datatype compile_error = No_Block | Bad_Json | Not_Object | Bad_Payload

abbreviation backslash :: char where
  "backslash \<equiv> CHR 0x5C"

definition drop_prefix :: "string \<Rightarrow> string \<Rightarrow> string option" where
  "drop_prefix p s = (if take (length p) s = p then Some (drop (length p) s) else None)"

text \<open>
  The pattern, as the regular expression reads: three back quotes, \<^verbatim>\<open>json\<close>, a backslash and any
  number of \<^verbatim>\<open>s\<close>; a backslash and an opening brace; as little as possible; a backslash and a
  closing brace; a backslash, any number of \<^verbatim>\<open>s\<close> and three back quotes. The group starts at
  the second backslash.
\<close>

definition block_ends :: "string \<Rightarrow> bool" where
  "block_ends s \<longleftrightarrow>
     (case drop_prefix [backslash] s of
        None \<Rightarrow> False
      | Some r \<Rightarrow> drop_prefix ''```'' (dropWhile (\<lambda>c. c = CHR ''s'') r) \<noteq> None)"

fun block_body :: "string \<Rightarrow> string option" where
  "block_body [] = None"
| "block_body (c # cs) =
     (case drop_prefix [backslash, CHR ''}''] (c # cs) of
        Some r \<Rightarrow> if block_ends r then Some [backslash, CHR ''}''] else map_option (Cons c) (block_body cs)
      | None \<Rightarrow> map_option (Cons c) (block_body cs))"

definition block_at :: "string \<Rightarrow> string option" where
  "block_at s =
     (case drop_prefix (''```json'' @ [backslash]) s of
        None \<Rightarrow> None
      | Some r \<Rightarrow>
          (case drop_prefix [backslash, CHR ''{''] (dropWhile (\<lambda>c. c = CHR ''s'') r) of
             None \<Rightarrow> None
           | Some b \<Rightarrow> map_option (\<lambda>w. backslash # CHR ''{'' # w) (block_body b)))"

fun json_block :: "string \<Rightarrow> string option" where
  "json_block [] = None"
| "json_block (c # cs) = (case block_at (c # cs) of None \<Rightarrow> json_block cs | Some g \<Rightarrow> Some g)"

definition parse_json_block :: "string \<Rightarrow> (compile_error, jdict) res" where
  "parse_json_block s =
     (case json_block s of
        None \<Rightarrow> Inl No_Block
      | Some g \<Rightarrow>
          (case loads g of
             None \<Rightarrow> Inl Bad_Json
           | Some (JObj d) \<Rightarrow> Inr d
           | Some _ \<Rightarrow> Inl Not_Object))"

section \<open>The inventory\<close>

fun split_on :: "char \<Rightarrow> string \<Rightarrow> string list" where
  "split_on x [] = [[]]"
| "split_on x (c # cs) =
     (if c = x then [] # split_on x cs
      else (case split_on x cs of [] \<Rightarrow> [[c]] | w # ws \<Rightarrow> (c # w) # ws))"

definition strip_char :: "char \<Rightarrow> string \<Rightarrow> string" where
  "strip_char x s = rev (dropWhile (\<lambda>c. c = x) (rev (dropWhile (\<lambda>c. c = x) s)))"

definition row_project :: "string \<Rightarrow> string option" where
  "row_project line =
     (let ln = strip line;
          name = strip (hd (split_on (CHR ''|'') (strip_char (CHR ''|'') ln)))
      in if take 1 ln \<noteq> ''|'' \<or> count_list ln (CHR ''|'') < 4 then None
         else if name = [] \<or> map lower_char name = ''project'' \<or> list_all (\<lambda>c. c = CHR ''-'') name then None
         else Some name)"

definition parse_repo_inventory_projects :: "string \<Rightarrow> string list" where
  "parse_repo_inventory_projects s =
     foldl (\<lambda>out p. if p \<in> set out then out else out @ [p]) [] (List.map_filter row_project (splitlines s))"

section \<open>The blueprint\<close>

text \<open>\<^verbatim>\<open>re.sub\<close> with the same doubling: a backslash and the letters \<^verbatim>\<open>s\<close> after it become one underscore.\<close>

function sub_blank :: "string \<Rightarrow> string" where
  "sub_blank [] = []"
| "sub_blank (c # cs) =
     (if c = backslash \<and> take 1 cs = ''s'' then CHR ''_'' # sub_blank (dropWhile (\<lambda>d. d = CHR ''s'') cs)
      else c # sub_blank cs)"
  by pat_completeness auto
termination
  by (relation "measure length") (auto simp: length_dropWhile_le less_Suc_eq_le)

definition agent_spec :: "jdict \<Rightarrow> string \<Rightarrow> jval" where
  "agent_spec agents role =
     (case dget agents role of
        Some (JObj raw) \<Rightarrow>
          JObj [(''role'', JStr role), (''module'', jget raw ''module''), (''class'', jget raw ''class'')]
      | _ \<Rightarrow> JObj [(''role'', JStr role), (''module'', JNull), (''class'', JNull)])"

definition role_at :: "(jval \<Rightarrow> string) \<Rightarrow> jval list \<Rightarrow> nat \<Rightarrow> string \<Rightarrow> string" where
  "role_at repr pipeline i d = (if i < length pipeline then py_str repr (pipeline ! i) else d)"

definition sas_nodes :: "string list \<Rightarrow> string list" where
  "sas_nodes repos = map (\<lambda>r. ''SAS::'' @ sub_blank r) (if repos = [] then [''workspace''] else take 64 repos)"

definition blueprint_node :: "string \<Rightarrow> jval \<Rightarrow> string list \<Rightarrow> jval" where
  "blueprint_node stage agent deps =
     JObj [(''stage'', JStr stage), (''agent'', agent), (''depends_on'', JArr (map JStr deps))]"

definition blueprint :: "(jval \<Rightarrow> string) \<Rightarrow> jval list \<Rightarrow> jdict \<Rightarrow> string list \<Rightarrow> jdict" where
  "blueprint repr pipeline agents repos =
     (let isa = agent_spec agents (role_at repr pipeline 0 ''intake_specialist'');
          sas = agent_spec agents (role_at repr pipeline 1 ''software_architect'');
          crs = agent_spec agents (role_at repr pipeline 2 ''risk_compliance'');
          boa = agent_spec agents (role_at repr pipeline 3 ''build_orchestrator'');
          nodes = sas_nodes repos;
          b1 = [(''ISA'', blueprint_node ''ISA'' isa [])];
          b2 = foldl (\<lambda>b nid. dput nid (blueprint_node ''SAS'' sas [''ISA'']) b) b1 nodes
      in dput ''BOA'' (blueprint_node ''BOA'' boa [''CRS'']) (dput ''CRS'' (blueprint_node ''CRS'' crs nodes) b2))"

definition compile_blueprint ::
  "(jval \<Rightarrow> string) \<Rightarrow> string \<Rightarrow> string \<Rightarrow> (compile_error, jdict) res" where
  "compile_blueprint repr designated_text inventory_text =
     res_bind (parse_json_block designated_text) (\<lambda>designated.
       let repos = parse_repo_inventory_projects inventory_text in
       case (case dget designated ''default_pipeline'' of None \<Rightarrow> JArr [] | Some v \<Rightarrow> v,
             case dget designated ''agents'' of None \<Rightarrow> JObj [] | Some v \<Rightarrow> v) of
         (JArr pipeline, JObj agents) \<Rightarrow> Inr (blueprint repr pipeline agents repos)
       | _ \<Rightarrow> Inl Bad_Payload)"

section \<open>Order of a blueprint\<close>

text \<open>The dependencies of a node of a blueprint, as \<^verbatim>\<open>depends_on\<close> lists them.\<close>

fun str_values :: "jval list \<Rightarrow> string list" where
  "str_values [] = []"
| "str_values (JStr s # vs) = s # str_values vs"
| "str_values (v # vs) = str_values vs"

definition node_deps :: "jval \<Rightarrow> string list" where
  "node_deps v =
     (case v of
        JObj d \<Rightarrow> (case jget d ''depends_on'' of JArr vs \<Rightarrow> str_values vs | _ \<Rightarrow> [])
      | _ \<Rightarrow> [])"

lemma str_values_map [simp]: "str_values (map JStr ss) = ss"
  by (induction ss) auto

lemma node_deps_node [simp]: "node_deps (blueprint_node stage agent deps) = deps"
  by (simp add: node_deps_def blueprint_node_def jget_def dget_def)

lemma dput_append: "k \<notin> set (map fst b) \<Longrightarrow> dput k v (b @ c) = b @ dput k v c"
  by (induction b) (auto simp: py_simps)

lemma dput_same: "dput k v (map (\<lambda>k. (k, v)) ks) = map (\<lambda>k. (k, v)) (if k \<in> set ks then ks else ks @ [k])"
  by (induction ks) (auto simp: py_simps)

lemma sas_fold:
  assumes "set (map fst b) \<inter> set nodes = {}"
  shows "\<exists>ks. foldl (\<lambda>b nid. dput nid v b) (b @ map (\<lambda>k. (k, v)) ks0) nodes = b @ map (\<lambda>k. (k, v)) ks \<and>
    set ks = set ks0 \<union> set nodes"
  using assms
proof (induction nodes arbitrary: ks0)
  case Nil
  then show ?case by auto
next
  case (Cons nid nodes)
  then have "nid \<notin> set (map fst b)" by auto
  with Cons.IH [of "if nid \<in> set ks0 then ks0 else ks0 @ [nid]"] Cons.prems show ?case
    by (auto simp: dput_append dput_same)
qed

lemma sas_names: "nid \<in> set (sas_nodes repos) \<Longrightarrow> nid \<notin> {''ISA'', ''CRS'', ''BOA''}"
  by (auto simp: sas_nodes_def)

lemma blueprint_shape:
  "\<exists>ks. blueprint repr pipeline agents repos =
     (''ISA'', blueprint_node ''ISA'' (agent_spec agents (role_at repr pipeline 0 ''intake_specialist'')) []) #
     map (\<lambda>k. (k, blueprint_node ''SAS'' (agent_spec agents (role_at repr pipeline 1 ''software_architect'')) [''ISA''])) ks @
     [(''CRS'', blueprint_node ''CRS'' (agent_spec agents (role_at repr pipeline 2 ''risk_compliance'')) (sas_nodes repos)),
      (''BOA'', blueprint_node ''BOA'' (agent_spec agents (role_at repr pipeline 3 ''build_orchestrator'')) [''CRS''])] \<and>
     set ks = set (sas_nodes repos)"
proof -
  let ?v = "blueprint_node ''SAS'' (agent_spec agents (role_at repr pipeline 1 ''software_architect'')) [''ISA'']"
  let ?b = "[(''ISA'', blueprint_node ''ISA'' (agent_spec agents (role_at repr pipeline 0 ''intake_specialist'')) [])]"
  have "set (map fst ?b) \<inter> set (sas_nodes repos) = {}" using sas_names [of _ repos] by auto
  from sas_fold [OF this, of ?v "[]"] obtain ks where
    f: "foldl (\<lambda>b nid. dput nid ?v b) ?b (sas_nodes repos) = ?b @ map (\<lambda>k. (k, ?v)) ks" and ks: "set ks = set (sas_nodes repos)"
    by auto
  have "''CRS'' \<notin> set (map fst (?b @ map (\<lambda>k. (k, ?v)) ks))" "''BOA'' \<notin> set (map fst (?b @ map (\<lambda>k. (k, ?v)) ks))"
    using sas_names [of _ repos] ks by auto
  then show ?thesis
    using f ks by (auto simp: blueprint_def Let_def dput_new dget_None_iff)
qed

lemma loads_backslash: "loads (backslash # r) = None"
  by (simp add: loads_def skip_ws_def is_ws_def p_const_def p_num_def scan_num_def scan_int_def Let_def is_digit_def
      split: prod.split)

lemma json_block_head: "json_block s = Some g \<Longrightarrow> \<exists>r. g = backslash # r"
  by (induction s) (auto simp: block_at_def split: option.splits)

section \<open>Properties\<close>

text \<open>compiling a blueprint raises for every pair of files: there is no block for the
  pattern, or what it finds is not JSON.\<close>

theorem compile_blueprint_raises:
  "compile_blueprint repr designated_text inventory_text =
     Inl (if json_block designated_text = None then No_Block else Bad_Json)"
  by (auto simp: compile_blueprint_def parse_json_block_def loads_backslash split: option.split dest!: json_block_head)

text \<open>in a blueprint every node comes after all nodes it depends on, so it has no cycle, and
  the clearance node waits for a node of each of the first 64 projects.\<close>

theorem blueprint_layered:
  "(\<forall>xs nid v ys. blueprint repr pipeline agents repos = xs @ (nid, v) # ys \<longrightarrow> set (node_deps v) \<subseteq> set (map fst xs)) \<and>
   (\<exists>v. dget (blueprint repr pipeline agents repos) ''CRS'' = Some v \<and> node_deps v = sas_nodes repos)"
proof -
  obtain ks v0 v1 where b: "blueprint repr pipeline agents repos =
     (''ISA'', v0) # map (\<lambda>k. (k, v1)) ks @
     [(''CRS'', blueprint_node ''CRS'' (agent_spec agents (role_at repr pipeline 2 ''risk_compliance'')) (sas_nodes repos)),
      (''BOA'', blueprint_node ''BOA'' (agent_spec agents (role_at repr pipeline 3 ''build_orchestrator'')) [''CRS''])]"
    and ks: "set ks = set (sas_nodes repos)" and d: "node_deps v0 = []" "node_deps v1 = [''ISA'']"
    using blueprint_shape [of repr pipeline agents repos] by (metis node_deps_node)
  have "set (node_deps v) \<subseteq> set (map fst xs)" if "blueprint repr pipeline agents repos = xs @ (nid, v) # ys" for xs nid v ys
    using that d ks unfolding b
    by (auto simp: Cons_eq_append_conv append_eq_append_conv2 map_eq_append_conv append_eq_Cons_conv map_eq_Cons_conv image_iff)
  moreover have "dget (map (\<lambda>k. (k, v1)) ks @ c) ''CRS'' = dget c ''CRS''" for c
  proof -
    have "''CRS'' \<notin> set ks" using sas_names [of "''CRS''" repos] ks by auto
    then have "map_of (map (\<lambda>k. (k, v1)) ks) ''CRS'' = None" by (force simp: map_of_eq_None_iff)
    then show ?thesis by (simp add: dget_def map_add_def split: option.split)
  qed
  ultimately show ?thesis by (auto simp: b py_simps)
qed

end
