(* ===== verification/Handshake.thy ===== *)
theory Handshake
  imports Quorum Recovery Workspace_Tx
begin

text \<open>
  \<^verbatim>\<open>core/handshake.py\<close>: the schemas and envelopes of the pipeline and
  \<open>run_three_stage_pipeline\<close>. Three agents hand payloads on through bounded queues; every payload
  is validated, signed, put to the vote of the quorum and recorded in the checkpoint before
  the workspace writes of its agent are committed; a fourth agent builds. The pipeline
  is a state with one phase per task, and a step is the code between two awaits of one
  task. The quorum and the transactions write to the ledger of the governance logger.

  What the agents return and write, the clock, the identifiers and the order in which the
  validators finish come with the steps. The sandbox, and a quorum manager with a ledger of
  its own, are not modelled.
\<close>

section \<open>Schemas\<close>

definition string_schema :: jval where
  "string_schema = JObj [(''type'', JStr ''string'')]"

definition strings_schema :: jval where
  "strings_schema = JObj [(''type'', JStr ''array''), (''items'', string_schema)]"

definition open_object_schema :: jval where
  "open_object_schema = JObj [(''type'', JStr ''object''), (''additionalProperties'', JBool True), (''required'', JArr [])]"

definition closed_object_schema :: "string list \<Rightarrow> jdict \<Rightarrow> jdict" where
  "closed_object_schema required properties =
     [(''type'', JStr ''object''), (''additionalProperties'', JBool False), (''required'', JArr (map JStr required)),
      (''properties'', JObj properties)]"

definition trace_schema :: "string \<Rightarrow> jval" where
  "trace_schema k = JObj (closed_object_schema [k] [(k, string_schema)])"

definition intake_schema :: jdict where
  "intake_schema = closed_object_schema
     [''business_case'', ''target_repositories'', ''requirements'', ''workspace_snapshot'']
     [(''business_case'', string_schema), (''target_repositories'', strings_schema),
      (''requirements'', strings_schema), (''workspace_snapshot'', open_object_schema)]"

definition architecture_schema :: jdict where
  "architecture_schema = closed_object_schema
     [''target_repositories'', ''architecture_plan'', ''impact_assessment'', ''trace'']
     [(''target_repositories'', strings_schema), (''architecture_plan'', strings_schema),
      (''impact_assessment'', open_object_schema), (''trace'', trace_schema ''intake_signature'')]"

definition risk_schema :: jdict where
  "risk_schema = closed_object_schema
     [''target_repositories'', ''compliance_status'', ''risk_summary'', ''recommended_actions'', ''trace'']
     [(''target_repositories'', strings_schema), (''compliance_status'', string_schema),
      (''risk_summary'', strings_schema), (''recommended_actions'', strings_schema),
      (''trace'', trace_schema ''architecture_signature'')]"

definition handshake_schemas :: "(string, schema) dict" where
  "handshake_schemas =
     map (\<lambda>(k, d). (k, \<lparr>schema_id = k, schema_def = d\<rparr>))
       [(''intake_to_architecture.v1'', intake_schema), (''architecture_to_risk.v1'', architecture_schema),
        (''risk_to_build_execution.v1'', risk_schema)]"

section \<open>Envelopes\<close>

record envelope =
  en_sequence :: string
  en_schema_id :: string
  en_payload :: jdict
  en_signature :: string
  en_role :: string
  en_correlation :: string
  en_created :: flt

datatype pipe_error =
    Misalignment string
  | Quorum_Raised quorum_error
  | Agent_Raised string
  | Tx_Raised tx_error

text \<open>One reading of the clock: \<^verbatim>\<open>time.time()\<close> and the time stamp of a ledger block.\<close>

record reading =
  rd_now :: flt
  rd_ts :: string

definition emit :: "reading \<Rightarrow> jdict \<Rightarrow> governance \<Rightarrow> governance" where
  "emit r event g = emit_event (rd_now r) (rd_ts r) event g"

definition require_schema :: "string \<Rightarrow> (pipe_error, schema) res" where
  "require_schema sid =
     (case dget handshake_schemas sid of
        None \<Rightarrow> Inl (Misalignment (''Unknown schema_id: '' @ sid))
      | Some sch \<Rightarrow> Inr sch)"

definition validate_payload ::
  "(schema_error \<Rightarrow> string) \<Rightarrow> reading \<Rightarrow> string \<Rightarrow> string \<Rightarrow> schema \<Rightarrow> jval \<Rightarrow> governance
    \<Rightarrow> (pipe_error, jdict) res \<times> governance" where
  "validate_payload show_error r sequence role sch payload g =
     (case payload of
        JObj d \<Rightarrow>
          (case validate_against_schema payload (schema_def sch) of
             Inl e \<Rightarrow>
               (Inl (Misalignment (show_error e)),
                emit r [(''event'', JStr ''HANDSHAKE_PAYLOAD_SCHEMA_ERROR''), (''sequence'', JStr sequence),
                  (''schema_id'', JStr (schema_id sch)), (''error'', JStr (show_error e)),
                  (''source_role'', JStr role)] g)
           | Inr _ \<Rightarrow> (Inr d, g))
      | _ \<Rightarrow> (Inl (Misalignment ''Payload must be an object.''), g))"

text \<open>\<open>clk\<close> numbers the readings of the clock in a step; \<open>uuid\<close> is the identifier drawn for an
  envelope without a correlation identifier.\<close>

definition create_envelope ::
  "(schema_error \<Rightarrow> string) \<Rightarrow> (nat \<Rightarrow> reading) \<Rightarrow> string \<Rightarrow> string \<Rightarrow> string \<Rightarrow> jval \<Rightarrow> string \<Rightarrow> string option
    \<Rightarrow> governance \<Rightarrow> (pipe_error, envelope) res \<times> governance" where
  "create_envelope show_error clk uuid sequence sid payload role corr g =
     (case require_schema sid of
        Inl e \<Rightarrow> (Inl e, g)
      | Inr sch \<Rightarrow>
          (case validate_payload show_error (clk 0) sequence role sch payload g of
             (Inl e, g1) \<Rightarrow> (Inl e, g1)
           | (Inr d, g1) \<Rightarrow>
               (let env = \<lparr>en_sequence = sequence, en_schema_id = sid, en_payload = d, en_signature = signature_for sch payload,
                      en_role = role, en_correlation = (case corr of Some c \<Rightarrow> if c = [] then uuid else c | None \<Rightarrow> uuid),
                      en_created = rd_now (clk 0)\<rparr>
                in (Inr env, emit (clk 1) [(''event'', JStr ''HANDSHAKE_ENVELOPE_CREATED''), (''sequence'', JStr sequence),
                      (''schema_id'', JStr sid), (''signature'', JStr (en_signature env)), (''source_role'', JStr role),
                      (''correlation_id'', JStr (en_correlation env))] g1))))"

definition validate_envelope ::
  "(schema_error \<Rightarrow> string) \<Rightarrow> (nat \<Rightarrow> reading) \<Rightarrow> envelope \<Rightarrow> string \<Rightarrow> governance
    \<Rightarrow> (pipe_error, unit) res \<times> governance" where
  "validate_envelope show_error clk env expected g =
     (if en_sequence env \<noteq> expected
      then (Inl (Misalignment (''Envelope sequence mismatch: expected '' @ expected @ '', got '' @ en_sequence env)), g)
      else
        (case require_schema (en_schema_id env) of
           Inl e \<Rightarrow> (Inl e, g)
         | Inr sch \<Rightarrow>
             (case validate_payload show_error (clk 0) (en_sequence env) (en_role env) sch (JObj (en_payload env)) g of
                (Inl e, g1) \<Rightarrow> (Inl e, g1)
              | (Inr d, g1) \<Rightarrow>
                  (let expected_sig = signature_for sch (JObj (en_payload env)) in
                   if en_signature env \<noteq> expected_sig
                   then (Inl (Misalignment ''Handshake signature validation failed.''),
                         emit (clk 1) [(''event'', JStr ''HANDSHAKE_SIGNATURE_INVALID''), (''sequence'', JStr (en_sequence env)),
                           (''schema_id'', JStr (en_schema_id env)), (''expected_signature'', JStr expected_sig),
                           (''actual_signature'', JStr (en_signature env)), (''source_role'', JStr (en_role env)),
                           (''correlation_id'', JStr (en_correlation env))] g1)
                   else (Inr (),
                         emit (clk 1) [(''event'', JStr ''HANDSHAKE_SIGNATURE_VALID''), (''sequence'', JStr (en_sequence env)),
                           (''schema_id'', JStr (en_schema_id env)), (''signature'', JStr (en_signature env)),
                           (''source_role'', JStr (en_role env)), (''correlation_id'', JStr (en_correlation env))] g1)))))"

section \<open>State\<close>

datatype item = Packet envelope | STOP

text \<open>
  The phase of a task: before its first await; with its agent in the sandbox, inside an open
  transaction; waiting for the ballots; waiting to put an envelope, inside the transaction or
  after it; waiting to put the stop mark; building; ended. \<open>Running\<close> keeps the envelope the
  agent works on.
\<close>

datatype task_phase =
    Starting
  | Running wtx "envelope option"
  | Balloting wtx envelope
  | Putting wtx envelope
  | Sending envelope
  | Stopping
  | Building envelope
  | Ended

text \<open>What the pipeline leaves behind: approved envelopes with their ballots, and builds.\<close>

datatype pipe_note = Approved envelope "(string, ballot) dict" | Built envelope

text \<open>
  Queues 0, 1, 2 are \<open>q1\<close>, \<open>q2\<close>, \<open>q3\<close>; tasks 0, 1, 2 are the stages, 3 the build, 4 the seed
  of the stop mark, which goes to queue \<open>pp_seed\<close>.
\<close>

record pipe =
  pp_gov :: governance
  pp_quorum :: quorum_manager
  pp_ckpt :: "manager option"
  pp_world :: world
  pp_root :: path
  pp_exclude :: "path list"
  pp_token :: string
  pp_queue :: "nat \<Rightarrow> item list"
  pp_task :: "nat \<Rightarrow> task_phase"
  pp_seed :: nat
  pp_result :: "jval option"
  pp_error :: "pipe_error option"
  pp_notes :: "pipe_note list"

definition stage_name :: "nat \<Rightarrow> string" where
  "stage_name i = stages ! i"

definition stage_schema :: "nat \<Rightarrow> string" where
  "stage_schema i = [''intake_to_architecture.v1'', ''architecture_to_risk.v1'', ''risk_to_build_execution.v1''] ! i"

definition stage_role :: "nat \<Rightarrow> string" where
  "stage_role i = [''intake_specialist'', ''software_architect'', ''risk_compliance''] ! i"

definition queue_name :: "nat \<Rightarrow> string" where
  "queue_name i = [''q1'', ''q2'', ''q3''] ! i"

section \<open>Shared pieces\<close>

definition env_meta :: "item \<Rightarrow> jval" where
  "env_meta it =
     (case it of
        STOP \<Rightarrow> JObj [(''stop'', JBool True)]
      | Packet e \<Rightarrow>
          JObj [(''sequence'', JStr (en_sequence e)), (''schema_id'', JStr (en_schema_id e)),
                (''signature'', JStr (en_signature e)), (''source_role'', JStr (en_role e)),
                (''correlation_id'', JStr (en_correlation e))])"

definition gov_append :: "reading \<Rightarrow> jdict \<Rightarrow> governance \<Rightarrow> governance" where
  "gov_append r payload g =
     (case gov_ledger g of
        None \<Rightarrow> g
      | Some lg \<Rightarrow> g\<lparr>gov_ledger := Some (snd (append_block (rd_ts r) payload lg))\<rparr>)"

definition queue_note :: "string \<Rightarrow> reading \<Rightarrow> nat \<Rightarrow> item \<Rightarrow> pipe \<Rightarrow> pipe" where
  "queue_note kind r q it p =
     p\<lparr>pp_gov := gov_append r [(''kind'', JStr kind), (''queue'', JStr (queue_name q)), (''item'', env_meta it)] (pp_gov p)\<rparr>"

definition set_task :: "nat \<Rightarrow> task_phase \<Rightarrow> pipe \<Rightarrow> pipe" where
  "set_task i ph p = p\<lparr>pp_task := (pp_task p)(i := ph)\<rparr>"

text \<open>A transaction works on the ledger of the governance logger.\<close>

definition tx_in :: "pipe \<Rightarrow> wtx \<Rightarrow> wtx" where
  "tx_in p tx = tx\<lparr>tx_ledger := gov_ledger (pp_gov p)\<rparr>"

definition tx_out :: "wtx \<Rightarrow> world \<Rightarrow> pipe \<Rightarrow> pipe" where
  "tx_out tx w p = p\<lparr>pp_world := w, pp_gov := (pp_gov p)\<lparr>gov_ledger := tx_ledger tx\<rparr>\<rparr>"

definition close_tx :: "reading \<Rightarrow> bool \<Rightarrow> wtx \<Rightarrow> pipe \<Rightarrow> pipe" where
  "close_tx r raised tx p =
     (let (tx1, w1) = tx_exit (rd_now r) (rd_ts r) raised (tx_in p tx) (pp_world p) in tx_out tx1 w1 p)"

definition open_of :: "task_phase \<Rightarrow> wtx option" where
  "open_of ph =
     (case ph of Running tx _ \<Rightarrow> Some tx | Balloting tx _ \<Rightarrow> Some tx | Putting tx _ \<Rightarrow> Some tx | _ \<Rightarrow> None)"

text \<open>
  An exception leaves the task group: the open transactions are rolled back, the raising
  task's first, and every task ends.
\<close>

definition close_task :: "(nat \<Rightarrow> reading) \<Rightarrow> nat \<Rightarrow> pipe \<Rightarrow> pipe" where
  "close_task clk i p =
     (case open_of (pp_task p i) of
        None \<Rightarrow> set_task i Ended p
      | Some tx \<Rightarrow> set_task i Ended (close_tx (clk (10 + i)) True tx p))"

definition fail :: "(nat \<Rightarrow> reading) \<Rightarrow> nat \<Rightarrow> pipe_error \<Rightarrow> pipe \<Rightarrow> pipe" where
  "fail clk i e p = foldl (\<lambda>p j. close_task clk j p) (p\<lparr>pp_error := Some e\<rparr>) (i # [0..<5])"

section \<open>The stages\<close>

definition enter_stage :: "(nat \<Rightarrow> reading) \<Rightarrow> string \<Rightarrow> nat \<Rightarrow> envelope option \<Rightarrow> pipe \<Rightarrow> pipe" where
  "enter_stage clk uuid i inp p =
     (case new_tx [pp_root p] (pp_exclude p) (pp_token p) (stage_name i) uuid (gov_ledger (pp_gov p)) of
        Inl e \<Rightarrow> fail clk i (Tx_Raised e) p
      | Inr tx \<Rightarrow>
          (let tx1 = tx_enter (rd_now (clk 2)) (rd_ts (clk 2)) tx
           in set_task i (Running tx1 inp) (tx_out tx1 (pp_world p) p)))"

definition intake_begin :: "(nat \<Rightarrow> reading) \<Rightarrow> string \<Rightarrow> pipe \<Rightarrow> pipe" where
  "intake_begin clk uuid p = (if pp_task p 0 \<noteq> Starting then p else enter_stage clk uuid 0 None p)"

text \<open>\<open>_q_get\<close> and what follows it in the architect, the risk and the build task.\<close>

definition take_item :: "(schema_error \<Rightarrow> string) \<Rightarrow> (nat \<Rightarrow> reading) \<Rightarrow> string \<Rightarrow> nat \<Rightarrow> pipe \<Rightarrow> pipe" where
  "take_item show_error clk uuid i p =
     (if pp_task p i \<noteq> Starting \<or> i = 0 \<or> i > 3 then p
      else
        (case pp_queue p (i - 1) of
           [] \<Rightarrow> p
         | it # rest \<Rightarrow>
             (let p1 = queue_note ''QUEUE_GET'' (clk 0) (i - 1) it (p\<lparr>pp_queue := (pp_queue p)(i - 1 := rest)\<rparr>) in
              case it of
                STOP \<Rightarrow>
                  if i = 3 then fail clk i (Misalignment ''Pipeline terminated before build execution.'') p1
                  else set_task i Stopping (queue_note ''QUEUE_PUT'' (clk 1) i STOP p1)
              | Packet env \<Rightarrow>
                  (case validate_envelope show_error (\<lambda>k. clk (k + 3)) env (stage_name (i - 1)) (pp_gov p1) of
                     (Inl e, g) \<Rightarrow> fail clk i e (p1\<lparr>pp_gov := g\<rparr>)
                   | (Inr _, g) \<Rightarrow>
                       if i = 3 then set_task i (Building env) (p1\<lparr>pp_gov := g, pp_notes := pp_notes p1 @ [Built env]\<rparr>)
                       else enter_stage clk uuid i (Some env) (p1\<lparr>pp_gov := g\<rparr>)))))"

text \<open>The agent opens and deletes files inside the transaction of its stage.\<close>

definition agent_write :: "flt \<Rightarrow> nat \<Rightarrow> path \<Rightarrow> string \<Rightarrow> string \<Rightarrow> pipe \<Rightarrow> pipe" where
  "agent_write now i f mode data p =
     (case pp_task p i of
        Running tx inp \<Rightarrow>
          (let (r, tx1, w1) = tx_write now f mode data (tx_in p tx) (pp_world p)
           in set_task i (Running tx1 inp) (tx_out tx1 w1 p))
      | _ \<Rightarrow> p)"

definition agent_unlink :: "flt \<Rightarrow> nat \<Rightarrow> path \<Rightarrow> pipe \<Rightarrow> pipe" where
  "agent_unlink now i f p =
     (case pp_task p i of
        Running tx inp \<Rightarrow>
          (let (r, tx1, w1) = path_unlink now f (tx_in p tx) (pp_world p)
           in set_task i (Running tx1 inp) (tx_out tx1 w1 p))
      | _ \<Rightarrow> p)"

definition agent_return ::
  "(schema_error \<Rightarrow> string) \<Rightarrow> (nat \<Rightarrow> reading) \<Rightarrow> string \<Rightarrow> nat \<Rightarrow> (string, jval) res \<Rightarrow> pipe \<Rightarrow> pipe" where
  "agent_return show_error clk uuid i r p =
     (case pp_task p i of
        Running tx inp \<Rightarrow>
          (case r of
             Inl e \<Rightarrow> fail clk i (Agent_Raised e) p
           | Inr payload \<Rightarrow>
               (case create_envelope show_error clk uuid (stage_name i) (stage_schema i) payload (stage_role i)
                       (map_option en_correlation inp) (pp_gov p) of
                  (Inl e, g) \<Rightarrow> fail clk i e (p\<lparr>pp_gov := g\<rparr>)
                | (Inr env, g) \<Rightarrow> set_task i (Balloting tx env) (p\<lparr>pp_gov := g\<rparr>)))
      | Building env \<Rightarrow>
          (case r of
             Inl e \<Rightarrow> fail clk i (Agent_Raised e) p
           | Inr v \<Rightarrow> set_task i Ended (p\<lparr>pp_ckpt := map_option clear (pp_ckpt p), pp_result := Some v\<rparr>))
      | _ \<Rightarrow> p)"

section \<open>The vote\<close>

definition ballot_context :: "envelope \<Rightarrow> schema \<Rightarrow> string \<Rightarrow> string option \<Rightarrow> validation_context" where
  "ballot_context env sch next_role inventory =
     \<lparr>ctx_stage = en_sequence env, ctx_schema = sch, ctx_payload = en_payload env,
      ctx_envelope_signature = en_signature env,
      ctx_handshake_hash = handshake_hash (en_role env) next_role (schema_id sch) (JObj (en_payload env)),
      ctx_source_role = en_role env, ctx_next_role = next_role, ctx_correlation_id = en_correlation env,
      ctx_inventory = inventory\<rparr>"

text \<open>The validators in the order they finish: \<open>ord\<close> permutes their positions.\<close>

definition in_order :: "nat list \<Rightarrow> 'a list \<Rightarrow> 'a list option" where
  "in_order ord vs = (if sort ord = [0..<length vs] then Some (map (\<lambda>k. vs ! k) ord) else None)"

definition hold_vote ::
  "(nat \<Rightarrow> reading) \<Rightarrow> validation_context \<Rightarrow> (string \<times> validator) list \<Rightarrow> pipe
    \<Rightarrow> (quorum_error, (string, ballot) dict) res \<times> pipe" where
  "hold_vote clk ctx vs p =
     (let (r, m) = validate (rd_ts (clk 0)) (rd_ts (clk 1)) ctx vs ((pp_quorum p)\<lparr>qm_ledger := gov_ledger (pp_gov p)\<rparr>)
      in (r, p\<lparr>pp_quorum := m, pp_gov := (pp_gov p)\<lparr>gov_ledger := qm_ledger m\<rparr>\<rparr>))"

definition ballots_json :: "(string, ballot) dict \<Rightarrow> jdict" where
  "ballots_json bs = map (\<lambda>(k, b). (k, JObj b)) bs"

definition record_ckpt ::
  "string \<Rightarrow> flt \<Rightarrow> envelope \<Rightarrow> schema \<Rightarrow> string \<Rightarrow> (string, ballot) dict \<Rightarrow> pipe \<Rightarrow> bool \<times> pipe" where
  "record_ckpt state now env sch next_role bs p =
     (case pp_ckpt p of
        None \<Rightarrow> (True, p)
      | Some m \<Rightarrow>
          (let (ok, m1) = record_stage (en_sequence env) sch (en_payload env) (en_signature env) (en_role env)
                 (en_correlation env) (en_created env) next_role state (ballots_json bs) now m
           in (ok, p\<lparr>pp_ckpt := Some m1\<rparr>)))"

text \<open>
  The ballots are in: a dissent locks the checkpoint and raises; otherwise the stage is
  recorded and its writes are committed, unless the record was refused.
\<close>

definition ballots_in ::
  "(schema_error \<Rightarrow> string) \<Rightarrow> (string \<Rightarrow> bool) \<Rightarrow> (nat \<Rightarrow> reading) \<Rightarrow> nat \<Rightarrow> nat list \<Rightarrow> string option \<Rightarrow> pipe \<Rightarrow> pipe" where
  "ballots_in show_error uword clk i ord inventory p =
     (case pp_task p i of
        Balloting tx env \<Rightarrow>
          (case (dget handshake_schemas (en_schema_id env),
                 in_order ord (validators_for_stage show_error uword (pp_quorum p) (en_sequence env))) of
             (Some sch, Some vs) \<Rightarrow>
               (let next_role = stage_to_next (stage_name i);
                    ctx = ballot_context env sch next_role inventory
                in case hold_vote clk ctx vs p of
                     (Inl (UnknownMode x), p1) \<Rightarrow> fail clk i (Quorum_Raised (UnknownMode x)) p1
                   | (Inl e, p1) \<Rightarrow>
                       fail clk i (Quorum_Raised e)
                         (snd (record_ckpt ''QUORUM_LOCKED_INTERVENTION'' (rd_now (clk 2)) env sch next_role (collect_ballots ctx vs) p1))
                   | (Inr bs, p1) \<Rightarrow>
                       (let (ok, p2) = record_ckpt (gov_state (pp_gov p1)) (rd_now (clk 2)) env sch next_role bs
                              (p1\<lparr>pp_notes := pp_notes p1 @ [Approved env bs]\<rparr>);
                            (cr, tx1, w1) = (if ok then commit (rd_now (clk 3)) (rd_ts (clk 3)) (tx_in p2 tx) (pp_world p2)
                                             else (Inr (), tx_in p2 tx, pp_world p2));
                            p3 = tx_out tx1 w1 p2
                        in case cr of
                             Inl e \<Rightarrow> fail clk i (Tx_Raised e) (set_task i (Balloting tx1 env) p3)
                           | Inr _ \<Rightarrow>
                               if i = 0 then
                                 set_task i (Sending env)
                                   (queue_note ''QUEUE_PUT'' (clk 5) i (Packet env) (close_tx (clk 4) False tx1 p3))
                               else set_task i (Putting tx1 env) (queue_note ''QUEUE_PUT'' (clk 5) i (Packet env) p3)))
           | _ \<Rightarrow> p)
      | _ \<Rightarrow> p)"

section \<open>Handing on\<close>

definition has_room :: "nat \<Rightarrow> pipe \<Rightarrow> bool" where
  "has_room q p \<longleftrightarrow> length (pp_queue p q) < 1"

definition put_item :: "nat \<Rightarrow> item \<Rightarrow> pipe \<Rightarrow> pipe" where
  "put_item q it p = p\<lparr>pp_queue := (pp_queue p)(q := pp_queue p q @ [it])\<rparr>"

text \<open>The end of \<^verbatim>\<open>q.put\<close>, when the queue has room.\<close>

definition put_done :: "(nat \<Rightarrow> reading) \<Rightarrow> nat \<Rightarrow> pipe \<Rightarrow> pipe" where
  "put_done clk i p =
     (case pp_task p i of
        Sending env \<Rightarrow>
          if has_room i p then set_task i Stopping (queue_note ''QUEUE_PUT'' (clk 0) i STOP (put_item i (Packet env) p)) else p
      | Putting tx env \<Rightarrow>
          if has_room i p then set_task i Starting (close_tx (clk 0) False tx (put_item i (Packet env) p)) else p
      | Stopping \<Rightarrow>
          (let q = (if i = 4 then pp_seed p else i)
           in if has_room q p then set_task i Ended (put_item q STOP p) else p)
      | _ \<Rightarrow> p)"

definition seed_begin :: "(nat \<Rightarrow> reading) \<Rightarrow> pipe \<Rightarrow> pipe" where
  "seed_begin clk p =
     (if pp_task p 4 \<noteq> Starting then p
      else if pp_seed p \<ge> 2 then set_task 4 Ended p
      else set_task 4 Stopping (queue_note ''QUEUE_PUT'' (clk 0) (pp_seed p) STOP p))"

section \<open>Runs\<close>

datatype pipe_event =
    Intake_Begin "nat \<Rightarrow> reading" string
  | Take_Item "nat \<Rightarrow> reading" string nat
  | Agent_Write flt nat path string string
  | Agent_Unlink flt nat path
  | Agent_Return "nat \<Rightarrow> reading" string nat "(string, jval) res"
  | Ballots_In "nat \<Rightarrow> reading" nat "nat list" "string option"
  | Put_Done "nat \<Rightarrow> reading" nat
  | Seed_Begin "nat \<Rightarrow> reading"

fun pipe_step :: "(schema_error \<Rightarrow> string) \<Rightarrow> (string \<Rightarrow> bool) \<Rightarrow> pipe \<Rightarrow> pipe_event \<Rightarrow> pipe" where
  "pipe_step se uw p (Intake_Begin clk uuid) = intake_begin clk uuid p"
| "pipe_step se uw p (Take_Item clk uuid i) = take_item se clk uuid i p"
| "pipe_step se uw p (Agent_Write now i f mode data) = (if mode_is_write mode then agent_write now i f mode data p else p)"
| "pipe_step se uw p (Agent_Unlink now i f) = agent_unlink now i f p"
| "pipe_step se uw p (Agent_Return clk uuid i r) = agent_return se clk uuid i r p"
| "pipe_step se uw p (Ballots_In clk i ord invt) = ballots_in se uw clk i ord invt p"
| "pipe_step se uw p (Put_Done clk i) = put_done clk i p"
| "pipe_step se uw p (Seed_Begin clk) = seed_begin clk p"

definition pipe_run :: "(schema_error \<Rightarrow> string) \<Rightarrow> (string \<Rightarrow> bool) \<Rightarrow> pipe \<Rightarrow> pipe_event list \<Rightarrow> pipe" where
  "pipe_run se uw p es = foldl (pipe_step se uw) p es"

text \<open>The start of a run: \<open>tree\<close> is the staging tree an earlier run of the token left.\<close>

definition new_pipe ::
  "governance \<Rightarrow> quorum_manager \<Rightarrow> manager option \<Rightarrow> path \<Rightarrow> path list \<Rightarrow> string \<Rightarrow> string option \<Rightarrow> staging_tree \<Rightarrow> world
    \<Rightarrow> pipe" where
  "new_pipe g m ck rt exclude business_case active tree w =
     \<lparr>pp_gov = g, pp_quorum = m, pp_ckpt = ck,
      pp_world = w\<lparr>live := snd (cleanup_workspace_staging active tree (live w))\<rparr>,
      pp_root = rt, pp_exclude = exclude,
      pp_token = (case ck of Some c \<Rightarrow> ck_token c | None \<Rightarrow> case_token business_case),
      pp_queue = (\<lambda>q. []), pp_task = (\<lambda>i. if i < 4 then Starting else Ended), pp_seed = 2,
      pp_result = None, pp_error = None, pp_notes = []\<rparr>"

definition snapshot_envelope :: "snapshot \<Rightarrow> envelope" where
  "snapshot_envelope s =
     \<lparr>en_sequence = cs_stage s, en_schema_id = cs_schema_id s, en_payload = cs_payload s, en_signature = cs_signature s,
      en_role = cs_role s, en_correlation = cs_correlation s, en_created = cs_created s\<rparr>"

definition stage_index :: "string \<Rightarrow> nat option" where
  "stage_index st =
     (if st = stage_name 0 then Some 0 else if st = stage_name 1 then Some 1 else if st = stage_name 2 then Some 2 else None)"

text \<open>
  A resumed run: the snapshot is voted on again and recorded, its envelope is put, and only
  the tasks after its stage run.
\<close>

definition resume_pipe ::
  "(schema_error \<Rightarrow> string) \<Rightarrow> (string \<Rightarrow> bool) \<Rightarrow> (nat \<Rightarrow> reading) \<Rightarrow> nat list \<Rightarrow> string option \<Rightarrow> snapshot \<Rightarrow> pipe \<Rightarrow> pipe" where
  "resume_pipe se uw clk ord inventory s p =
     (let env = snapshot_envelope s; next_role = stage_to_next (cs_stage s);
          dead = p\<lparr>pp_task := \<lambda>i. Ended\<rparr>
      in case dget handshake_schemas (cs_schema_id s) of
           None \<Rightarrow> dead\<lparr>pp_error := Some (Misalignment (''Unknown schema_id in resume snapshot: '' @ cs_schema_id s))\<rparr>
         | Some sch \<Rightarrow>
             (case in_order ord (validators_for_stage se uw (pp_quorum p) (cs_stage s)) of
                None \<Rightarrow> dead
              | Some vs \<Rightarrow>
                  (case hold_vote clk (ballot_context env sch next_role inventory) vs dead of
                     (Inl e, p1) \<Rightarrow> p1\<lparr>pp_error := Some (Quorum_Raised e)\<rparr>
                   | (Inr bs, p1) \<Rightarrow>
                       (let p2 = snd (record_ckpt (gov_state (pp_gov p1)) (rd_now (clk 2)) env sch next_role bs
                              (p1\<lparr>pp_notes := pp_notes p1 @ [Approved env bs]\<rparr>))
                        in case stage_index (cs_stage s) of
                             None \<Rightarrow> p2\<lparr>pp_error := Some (Misalignment (''Unsupported resume stage: '' @ cs_stage s))\<rparr>
                           | Some k \<Rightarrow>
                               (put_item k (Packet env) (queue_note ''QUEUE_PUT'' (clk 3) k (Packet env) p2))
                                 \<lparr>pp_task := (\<lambda>i. if k < i \<and> i < 5 then Starting else Ended), pp_seed := k\<rparr>))))"

section \<open>What the pieces leave alone\<close>

lemma queue_note_frame [simp]:
  "pp_queue (queue_note kind r q it p) = pp_queue p" "pp_task (queue_note kind r q it p) = pp_task p"
  "pp_notes (queue_note kind r q it p) = pp_notes p" "pp_ckpt (queue_note kind r q it p) = pp_ckpt p"
  "pp_world (queue_note kind r q it p) = pp_world p" "pp_quorum (queue_note kind r q it p) = pp_quorum p"
  "pp_root (queue_note kind r q it p) = pp_root p" "pp_exclude (queue_note kind r q it p) = pp_exclude p"
  "pp_error (queue_note kind r q it p) = pp_error p" "pp_result (queue_note kind r q it p) = pp_result p"
  "pp_seed (queue_note kind r q it p) = pp_seed p" "pp_token (queue_note kind r q it p) = pp_token p"
  by (simp_all add: queue_note_def)

lemma set_task_frame [simp]:
  "pp_queue (set_task i ph p) = pp_queue p" "pp_task (set_task i ph p) = (pp_task p)(i := ph)"
  "pp_notes (set_task i ph p) = pp_notes p" "pp_ckpt (set_task i ph p) = pp_ckpt p"
  "pp_world (set_task i ph p) = pp_world p" "pp_quorum (set_task i ph p) = pp_quorum p"
  "pp_root (set_task i ph p) = pp_root p" "pp_exclude (set_task i ph p) = pp_exclude p"
  "pp_error (set_task i ph p) = pp_error p" "pp_result (set_task i ph p) = pp_result p" "pp_gov (set_task i ph p) = pp_gov p"
  "pp_seed (set_task i ph p) = pp_seed p" "pp_token (set_task i ph p) = pp_token p"
  by (simp_all add: set_task_def)

lemma tx_out_frame [simp]:
  "pp_queue (tx_out tx w p) = pp_queue p" "pp_task (tx_out tx w p) = pp_task p"
  "pp_notes (tx_out tx w p) = pp_notes p" "pp_ckpt (tx_out tx w p) = pp_ckpt p"
  "pp_world (tx_out tx w p) = w" "pp_quorum (tx_out tx w p) = pp_quorum p"
  "pp_root (tx_out tx w p) = pp_root p" "pp_exclude (tx_out tx w p) = pp_exclude p"
  "pp_error (tx_out tx w p) = pp_error p" "pp_result (tx_out tx w p) = pp_result p"
  "pp_seed (tx_out tx w p) = pp_seed p" "pp_token (tx_out tx w p) = pp_token p"
  by (simp_all add: tx_out_def)

lemma close_tx_frame [simp]:
  "pp_queue (close_tx r b tx p) = pp_queue p" "pp_task (close_tx r b tx p) = pp_task p"
  "pp_notes (close_tx r b tx p) = pp_notes p" "pp_ckpt (close_tx r b tx p) = pp_ckpt p"
  "pp_quorum (close_tx r b tx p) = pp_quorum p" "pp_root (close_tx r b tx p) = pp_root p"
  "pp_exclude (close_tx r b tx p) = pp_exclude p" "pp_error (close_tx r b tx p) = pp_error p"
  "pp_result (close_tx r b tx p) = pp_result p" "live (pp_world (close_tx r b tx p)) = live (pp_world p)"
  "pp_seed (close_tx r b tx p) = pp_seed p" "pp_token (close_tx r b tx p) = pp_token p"
  by (simp_all add: close_tx_def tx_exit_def release_locks_def Let_def split: prod.split)

lemma put_item_frame [simp]:
  "pp_queue (put_item q it p) = (pp_queue p)(q := pp_queue p q @ [it])" "pp_task (put_item q it p) = pp_task p"
  "pp_notes (put_item q it p) = pp_notes p" "pp_ckpt (put_item q it p) = pp_ckpt p"
  "pp_world (put_item q it p) = pp_world p" "pp_quorum (put_item q it p) = pp_quorum p"
  "pp_root (put_item q it p) = pp_root p" "pp_exclude (put_item q it p) = pp_exclude p"
  "pp_error (put_item q it p) = pp_error p" "pp_result (put_item q it p) = pp_result p" "pp_gov (put_item q it p) = pp_gov p"
  "pp_seed (put_item q it p) = pp_seed p" "pp_token (put_item q it p) = pp_token p"
  by (simp_all add: put_item_def)

lemma close_tasks_frame:
  "pp_queue (foldl (\<lambda>p j. close_task clk j p) p js) = pp_queue p \<and>
   pp_notes (foldl (\<lambda>p j. close_task clk j p) p js) = pp_notes p \<and>
   pp_ckpt (foldl (\<lambda>p j. close_task clk j p) p js) = pp_ckpt p \<and>
   pp_quorum (foldl (\<lambda>p j. close_task clk j p) p js) = pp_quorum p \<and>
   pp_root (foldl (\<lambda>p j. close_task clk j p) p js) = pp_root p \<and>
   pp_exclude (foldl (\<lambda>p j. close_task clk j p) p js) = pp_exclude p \<and>
   pp_error (foldl (\<lambda>p j. close_task clk j p) p js) = pp_error p \<and>
   pp_result (foldl (\<lambda>p j. close_task clk j p) p js) = pp_result p \<and>
   live (pp_world (foldl (\<lambda>p j. close_task clk j p) p js)) = live (pp_world p) \<and>
   pp_task (foldl (\<lambda>p j. close_task clk j p) p js) = (\<lambda>i. if i \<in> set js then Ended else pp_task p i)"
  by (induction js arbitrary: p) (auto simp: close_task_def fun_eq_iff split: option.split)

lemma fail_frame [simp]:
  "pp_queue (fail clk i e p) = pp_queue p" "pp_notes (fail clk i e p) = pp_notes p" "pp_ckpt (fail clk i e p) = pp_ckpt p"
  "pp_quorum (fail clk i e p) = pp_quorum p" "pp_root (fail clk i e p) = pp_root p" "pp_exclude (fail clk i e p) = pp_exclude p"
  "pp_error (fail clk i e p) = Some e" "pp_result (fail clk i e p) = pp_result p"
  "live (pp_world (fail clk i e p)) = live (pp_world p)"
  "pp_task (fail clk i e p) = (\<lambda>j. if j = i \<or> j < 5 then Ended else pp_task p j)"
  using close_tasks_frame [of clk "p\<lparr>pp_error := Some e\<rparr>" "i # [0..<5]"]
  by (simp_all add: fail_def fun_eq_iff del: foldl_Cons upt_rec_numeral)

lemma hold_vote_frame:
  assumes "hold_vote clk ctx vs p = (r, p1)"
  shows "pp_queue p1 = pp_queue p" "pp_notes p1 = pp_notes p" "pp_ckpt p1 = pp_ckpt p" "pp_task p1 = pp_task p"
    "pp_root p1 = pp_root p" "pp_exclude p1 = pp_exclude p" "pp_error p1 = pp_error p" "pp_result p1 = pp_result p"
    "pp_world p1 = pp_world p" "pp_token p1 = pp_token p" "pp_seed p1 = pp_seed p"
    "qm_policy (pp_quorum p1) = qm_policy (pp_quorum p)" "gov_state (pp_gov p1) = gov_state (pp_gov p)"
  using assms
  by (auto simp: hold_vote_def validate_def ledger_append_def Let_def split: prod.splits sum.splits quorum_error.splits option.splits)

lemma hold_vote_passed:
  assumes "hold_vote clk ctx vs p = (Inr bs, p1)"
  shows "bs = collect_ballots ctx vs" "enforce_quorum (qm_policy (pp_quorum p)) (ctx_stage ctx) bs = Inr ()"
  using assms by (auto simp: hold_vote_def validate_def Let_def split: prod.splits sum.splits quorum_error.splits)

lemma record_ckpt_frame:
  assumes "record_ckpt st now env sch nr bs p = (ok, p1)"
  shows "pp_queue p1 = pp_queue p" "pp_notes p1 = pp_notes p" "pp_quorum p1 = pp_quorum p" "pp_task p1 = pp_task p"
    "pp_root p1 = pp_root p" "pp_exclude p1 = pp_exclude p" "pp_error p1 = pp_error p" "pp_result p1 = pp_result p"
    "pp_world p1 = pp_world p" "pp_gov p1 = pp_gov p" "pp_token p1 = pp_token p" "pp_seed p1 = pp_seed p"
  using assms by (auto simp: record_ckpt_def Let_def split: option.splits prod.splits)

section \<open>What reaches the build\<close>

definition good :: "nat \<Rightarrow> envelope \<Rightarrow> bool" where
  "good i env \<longleftrightarrow> en_sequence env = stage_name i \<and>
     (\<exists>sch. dget handshake_schemas (en_schema_id env) = Some sch \<and>
        conforms (schema_def sch) (JObj (en_payload env)) \<and> en_signature env = signature_for sch (JObj (en_payload env)))"

definition approved :: "pipe \<Rightarrow> envelope \<Rightarrow> bool" where
  "approved p env \<longleftrightarrow> (\<exists>bs. Approved env bs \<in> set (pp_notes p) \<and>
     enforce_quorum (qm_policy (pp_quorum p)) (en_sequence env) bs = Inr ())"

fun carried :: "task_phase \<Rightarrow> envelope option" where
  "carried (Sending env) = Some env"
| "carried (Putting tx env) = Some env"
| "carried (Building env) = Some env"
| "carried _ = None"

definition handing_inv :: "pipe \<Rightarrow> bool" where
  "handing_inv p \<longleftrightarrow> (\<forall>q env. Packet env \<in> set (pp_queue p q) \<longrightarrow> approved p env) \<and>
     (\<forall>i env. carried (pp_task p i) = Some env \<longrightarrow> approved p env) \<and>
     (\<forall>env. Built env \<in> set (pp_notes p) \<longrightarrow> approved p env \<and> good 2 env)"

lemma validate_payload_ok:
  "validate_payload se r sq role sch payload g = (Inr d, g1) \<Longrightarrow>
   payload = JObj d \<and> conforms (schema_def sch) payload \<and> g1 = g"
  using validate_node_iff [of payload "schema_def sch" "''$''"]
  by (auto simp: validate_payload_def validate_against_schema_def split: jval.splits sum.splits)

lemma validate_envelope_ok:
  assumes "validate_envelope se clk env (stage_name i) g = (Inr u, g1)"
  shows "good i env"
proof -
  obtain sch where sch: "dget handshake_schemas (en_schema_id env) = Some sch" and sq: "en_sequence env = stage_name i"
    using assms by (auto simp: validate_envelope_def require_schema_def split: if_splits option.splits)
  obtain r g2 where v: "validate_payload se (clk 0) (en_sequence env) (en_role env) sch (JObj (en_payload env)) g = (r, g2)"
    by fastforce
  with assms sch sq obtain d where "r = Inr d" "en_signature env = signature_for sch (JObj (en_payload env))"
    by (cases r) (auto simp: validate_envelope_def require_schema_def Let_def split: if_splits)
  with validate_payload_ok v sch sq show ?thesis by (auto simp: good_def)
qed

lemma create_envelope_ok:
  assumes "create_envelope se clk uuid (stage_name i) (stage_schema i) payload role corr g = (Inr env, g1)"
  shows "good i env" "en_schema_id env = stage_schema i" "en_role env = role" "payload = JObj (en_payload env)"
    "gov_state g1 = gov_state g"
proof -
  obtain sch where sch: "dget handshake_schemas (stage_schema i) = Some sch"
    using assms by (auto simp: create_envelope_def require_schema_def split: option.splits)
  obtain r g2 where v: "validate_payload se (clk 0) (stage_name i) role sch payload g = (r, g2)" by fastforce
  with assms sch obtain d where d: "r = Inr d"
    by (cases r) (auto simp: create_envelope_def require_schema_def Let_def)
  note ok = validate_payload_ok [OF v [unfolded d]]
  from assms sch v d show "good i env" "en_schema_id env = stage_schema i" "en_role env = role"
    "payload = JObj (en_payload env)" "gov_state g1 = gov_state g"
    using ok by (auto simp: create_envelope_def require_schema_def Let_def good_def emit_def emit_event_def split: option.splits)
qed

lemma approved_mono:
  "approved p env \<Longrightarrow> set (pp_notes p) \<subseteq> set (pp_notes p') \<Longrightarrow> qm_policy (pp_quorum p') = qm_policy (pp_quorum p) \<Longrightarrow> approved p' env"
  by (auto simp: approved_def)

text \<open>Steps that hand nothing on.\<close>

lemma handing_view:
  assumes "handing_inv p" and "\<And>q env. Packet env \<in> set (pp_queue p' q) \<Longrightarrow> Packet env \<in> set (pp_queue p q) \<or> approved p' env"
    and "\<And>i env. carried (pp_task p' i) = Some env \<Longrightarrow> carried (pp_task p i) = Some env \<or> approved p' env"
    and "set (pp_notes p) \<subseteq> set (pp_notes p')"
    and "\<And>env. Built env \<in> set (pp_notes p') \<Longrightarrow> Built env \<in> set (pp_notes p) \<or> approved p' env \<and> good 2 env"
    and "qm_policy (pp_quorum p') = qm_policy (pp_quorum p)"
  shows "handing_inv p'"
  using assms approved_mono [OF _ assms(4,6)] unfolding handing_inv_def by metis

lemma handing_fail: "handing_inv p \<Longrightarrow> handing_inv (fail clk i e p)"
  by (erule handing_view) (auto split: if_splits)

lemma handing_enter: "handing_inv p \<Longrightarrow> handing_inv (enter_stage clk uuid i inp p)"
  unfolding enter_stage_def
  by (auto split: sum.split simp: handing_fail Let_def elim!: handing_view split: if_splits)

lemma handing_take:
  assumes "handing_inv p"
  shows "handing_inv (take_item se clk uuid i p)"
proof (cases "pp_task p i \<noteq> Starting \<or> i = 0 \<or> i > 3 \<or> pp_queue p (i - 1) = []")
  case True
  with assms show ?thesis by (auto simp: take_item_def split: list.split)
next
  case False
  then obtain it rest where q: "pp_queue p (i - 1) = it # rest" by (cases "pp_queue p (i - 1)") auto
  let ?p = "queue_note ''QUEUE_GET'' (clk 0) (i - 1) it (p\<lparr>pp_queue := (pp_queue p)(i - 1 := rest)\<rparr>)"
  have p: "handing_inv ?p" by (rule handing_view [OF assms]) (auto simp: q [simplified] split: if_splits)
  have g: "handing_inv (?p\<lparr>pp_gov := g\<rparr>)" for g by (rule handing_view [OF p]) auto
  show ?thesis
  proof (cases it)
    case STOP
    have "handing_inv (set_task i Stopping (queue_note ''QUEUE_PUT'' (clk 1) i STOP ?p))"
      by (rule handing_view [OF p]) (auto split: if_splits)
    with False q STOP handing_fail [OF p] show ?thesis by (auto simp: take_item_def Let_def)
  next
    case (Packet env)
    have "Packet env \<in> set (pp_queue p (i - 1))" using q Packet by simp
    then have "approved p env" using assms unfolding handing_inv_def by blast
    then have a: "approved ?p env" by (simp add: approved_def)
    obtain r g1 where v: "validate_envelope se (\<lambda>k. clk (k + 3)) env (stage_name (i - 1)) (pp_gov ?p) = (r, g1)"
      by fastforce
    show ?thesis
    proof (cases r)
      case (Inl e)
      with False q Packet v handing_fail [OF g] show ?thesis by (auto simp: take_item_def Let_def)
    next
      case (Inr u)
      have "handing_inv (set_task 3 (Building env) (?p\<lparr>pp_gov := g1, pp_notes := pp_notes ?p @ [Built env]\<rparr>))" if "i = 3"
        by (rule handing_view [OF p])
          (use a validate_envelope_ok [OF v [unfolded Inr]] that in \<open>auto simp: approved_def split: if_splits\<close>)
      with False q Packet v Inr handing_enter [OF g] show ?thesis by (auto simp: take_item_def Let_def)
    qed
  qed
qed

lemma handing_agent:
  assumes "handing_inv p"
  shows "handing_inv (agent_write now i f mode data p)" "handing_inv (agent_unlink now i f p)"
proof -
  have t: "handing_inv (set_task i (Running tx1 inp) (tx_out tx1 w1 p))" for tx1 inp w1
    by (rule handing_view [OF assms]) (auto split: if_splits)
  from assms t show "handing_inv (agent_write now i f mode data p)" "handing_inv (agent_unlink now i f p)"
    by (auto simp: agent_write_def agent_unlink_def split: task_phase.split prod.split)
qed

lemma handing_return:
  assumes "handing_inv p"
  shows "handing_inv (agent_return se clk uuid i r p)"
proof -
  have t: "handing_inv (p\<lparr>pp_gov := g\<rparr>)" "handing_inv (set_task i (Balloting tx env) (p\<lparr>pp_gov := g\<rparr>))"
    "handing_inv (set_task i Ended (p\<lparr>pp_ckpt := map_option clear (pp_ckpt p), pp_result := Some v\<rparr>))" for g tx env v
    by (rule handing_view [OF assms]; auto split: if_splits)+
  from assms t handing_fail show ?thesis
    unfolding agent_return_def by (auto split: task_phase.split sum.split prod.split)
qed

lemma handing_ballots:
  assumes "handing_inv p"
  shows "handing_inv (ballots_in se uw clk i ord invt p)"
proof (cases "\<exists>tx env sch vs. pp_task p i = Balloting tx env \<and> dget handshake_schemas (en_schema_id env) = Some sch \<and>
    in_order ord (validators_for_stage se uw (pp_quorum p) (en_sequence env)) = Some vs")
  case False
  with assms show ?thesis by (auto simp: ballots_in_def split: task_phase.split option.split)
next
  case True
  then obtain tx env sch vs where s: "pp_task p i = Balloting tx env" "dget handshake_schemas (en_schema_id env) = Some sch"
    "in_order ord (validators_for_stage se uw (pp_quorum p) (en_sequence env)) = Some vs" by blast
  let ?next = "stage_to_next (stage_name i)"
  let ?ctx = "ballot_context env sch ?next invt"
  obtain r p1 where v: "hold_vote clk ?ctx vs p = (r, p1)" by fastforce
  note f = hold_vote_frame [OF v]
  have p1: "handing_inv p1" by (rule handing_view [OF assms]) (auto simp: f)
  have dissent: "handing_inv (snd (record_ckpt st now env sch ?next bs p1))" for st now bs
  proof -
    obtain ok p2 where rc: "record_ckpt st now env sch ?next bs p1 = (ok, p2)" by fastforce
    note g = record_ckpt_frame [OF rc]
    show ?thesis unfolding rc snd_conv by (rule handing_view [OF p1]) (auto simp: g)
  qed
  show ?thesis
  proof (cases r)
    case (Inl e)
    with s v handing_fail [OF p1] handing_fail [OF dissent] show ?thesis
      by (cases e) (simp_all add: ballots_in_def Let_def)
  next
    case (Inr bs)
    let ?q = "p1\<lparr>pp_notes := pp_notes p1 @ [Approved env bs]\<rparr>"
    obtain ok p2 where rc: "record_ckpt (gov_state (pp_gov p1)) (rd_now (clk 2)) env sch ?next bs ?q = (ok, p2)" by fastforce
    note g = record_ckpt_frame [OF rc]
    obtain cr tx1 w1 where c: "(if ok then commit (rd_now (clk 3)) (rd_ts (clk 3)) (tx_in p2 tx) (pp_world p2)
        else (Inr (), tx_in p2 tx, pp_world p2)) = (cr, tx1, w1)" by (metis prod_cases3)
    let ?p3 = "tx_out tx1 w1 p2"
    have ap: "approved ?p3 env"
      using hold_vote_passed(2) [OF v [unfolded Inr]] by (auto simp: approved_def g f ballot_context_def)
    have p3: "handing_inv ?p3" by (rule handing_view [OF p1]) (auto simp: g)
    have err: "handing_inv (set_task i (Balloting tx1 env) ?p3)" by (rule handing_view [OF p3]) (auto split: if_splits)
    have out: "handing_inv (set_task i (Sending env) (queue_note k rd q it (close_tx rd' b tx1 ?p3)))"
      "handing_inv (set_task i (Putting tx1 env) (queue_note k rd q it ?p3))" for k rd q it rd' b
      using ap by (auto intro!: handing_view [OF p3] simp: approved_def split: if_splits)
    have "ballots_in se uw clk i ord invt p = (case cr of
        Inl e \<Rightarrow> fail clk i (Tx_Raised e) (set_task i (Balloting tx1 env) ?p3)
      | Inr _ \<Rightarrow> if i = 0 then set_task i (Sending env) (queue_note ''QUEUE_PUT'' (clk 5) i (Packet env) (close_tx (clk 4) False tx1 ?p3))
          else set_task i (Putting tx1 env) (queue_note ''QUEUE_PUT'' (clk 5) i (Packet env) ?p3))"
      using s v Inr rc c by (simp add: ballots_in_def Let_def)
    with handing_fail [OF err] out show ?thesis by (auto split: sum.split)
  qed
qed

lemma handing_put:
  assumes "handing_inv p"
  shows "handing_inv (put_done clk i p)"
proof -
  have ap: "approved p env" if "carried (pp_task p i) = Some env" for env
    using assms that by (auto simp: handing_inv_def)
  have "handing_inv (set_task i Stopping (queue_note k r q it (put_item i (Packet env) p)))"
    "handing_inv (set_task i Starting (close_tx r b tx (put_item i (Packet env) p)))" if "carried (pp_task p i) = Some env" for env k r q it b tx
    using ap [OF that] by (auto intro!: handing_view [OF assms] simp: approved_def split: if_splits)
  moreover have "handing_inv (set_task i Ended (put_item q STOP p))" for q
    by (rule handing_view [OF assms]) (auto split: if_splits)
  ultimately show ?thesis using assms by (auto simp: put_done_def Let_def split: task_phase.split)
qed

lemma handing_step: "handing_inv p \<Longrightarrow> handing_inv (pipe_step se uw p e)"
proof (cases e)
  case (Intake_Begin clk uuid)
  assume h: "handing_inv p"
  then show ?thesis by (simp add: Intake_Begin intake_begin_def handing_enter)
next
  case (Seed_Begin clk)
  assume h: "handing_inv p"
  have "handing_inv (set_task 4 Ended p)" "handing_inv (set_task 4 Stopping (queue_note k r q it p))" for k r q it
    by (rule handing_view [OF h]; auto split: if_splits)+
  with h show ?thesis by (simp add: Seed_Begin seed_begin_def)
qed (simp_all add: handing_take handing_agent handing_return handing_ballots handing_put)

lemma handing_run: "handing_inv p \<Longrightarrow> handing_inv (pipe_run se uw p es)"
  unfolding pipe_run_def by (induction es arbitrary: p) (simp_all add: handing_step)

lemma handing_new: "handing_inv (new_pipe g m ck rt ex bc active tree w)"
  by (simp add: handing_inv_def new_pipe_def)

lemma handing_resume:
  assumes "pp_notes p = []" and "pp_queue p = (\<lambda>q. [])"
  shows "handing_inv (resume_pipe se uw clk ord invt s p)"
proof -
  let ?dead = "p\<lparr>pp_task := \<lambda>i. Ended\<rparr>"
  let ?env = "snapshot_envelope s"
  let ?next = "stage_to_next (cs_stage s)"
  have d: "handing_inv (?dead\<lparr>pp_error := x\<rparr>)" "handing_inv ?dead" for x using assms by (simp_all add: handing_inv_def)
  show ?thesis
  proof (cases "dget handshake_schemas (cs_schema_id s)")
    case None
    with d show ?thesis by (simp add: resume_pipe_def Let_def)
  next
    case (Some sch)
    show ?thesis
    proof (cases "in_order ord (validators_for_stage se uw (pp_quorum p) (cs_stage s))")
      case None
      with Some d show ?thesis by (simp add: resume_pipe_def Let_def)
    next
      case vs: (Some vs)
      obtain r p1 where v: "hold_vote clk (ballot_context ?env sch ?next invt) vs ?dead = (r, p1)" by fastforce
      note f = hold_vote_frame [OF v]
      show ?thesis
      proof (cases r)
        case (Inl e)
        have "handing_inv (p1\<lparr>pp_error := x\<rparr>)" for x by (rule handing_view [OF d(2)]) (auto simp: f)
        with Some vs v Inl show ?thesis by (simp add: resume_pipe_def Let_def)
      next
        case (Inr bs)
        let ?q = "p1\<lparr>pp_notes := pp_notes p1 @ [Approved ?env bs]\<rparr>"
        obtain ok p2 where rc: "record_ckpt (gov_state (pp_gov p1)) (rd_now (clk 2)) ?env sch ?next bs ?q = (ok, p2)" by fastforce
        note g = record_ckpt_frame [OF rc]
        have ap: "enforce_quorum (qm_policy (pp_quorum p2)) (en_sequence ?env) bs = Inr ()" "Approved ?env bs \<in> set (pp_notes p2)"
          using hold_vote_passed(2) [OF v [unfolded Inr]] by (auto simp: g f ballot_context_def)
        have h: "handing_inv p2" by (rule handing_view [OF d(2)]) (auto simp: g f)
        have "handing_inv (p2\<lparr>pp_error := x\<rparr>)" for x by (rule handing_view [OF h]) auto
        moreover have "handing_inv ((put_item k (Packet ?env) (queue_note kd rd k (Packet ?env) p2))
            \<lparr>pp_task := \<lambda>i. if k < i \<and> i < 5 then Starting else Ended, pp_seed := k\<rparr>)" for k kd rd
          by (rule handing_view [OF h]) (use ap in \<open>auto simp: approved_def split: if_splits\<close>)
        ultimately show ?thesis using Some vs v Inr rc by (simp add: resume_pipe_def Let_def split: option.split)
      qed
    qed
  qed
qed

end
