(* ===== verification/Pipeline_Safety.thy ===== *)
theory Pipeline_Safety
  imports Handshake
begin

text \<open>
  What holds in every state a pipeline run reaches (\<^verbatim>\<open>core/handshake.py\<close>), whatever the
  agents do and in whatever order the tasks take their steps: a build needs an approved
  envelope of every stage, the files of the workspace change only by the commit of an approved
  stage, and a vote that fails ends the run with the checkpoint locked.
\<close>

section \<open>Reachable pipelines\<close>

text \<open>\<open>lo\<close> is the stage a run starts at: the first, or the one it resumes.\<close>

inductive pipe_reachable ::
  "(schema_error \<Rightarrow> string) \<Rightarrow> (string \<Rightarrow> bool) \<Rightarrow> quorum_manager \<Rightarrow> path \<Rightarrow> path list \<Rightarrow> nat \<Rightarrow> pipe \<Rightarrow> bool"
  for se uw m rt ex where
  fresh: "pipe_reachable se uw m rt ex 0 (new_pipe g m ck rt ex bc None tree w)"
| resumed: "stage_index (cs_stage s) = Some lo \<Longrightarrow>
    in_order ord (validators_for_stage se uw m (cs_stage s)) \<noteq> None \<Longrightarrow>
    pipe_reachable se uw m rt ex lo (resume_pipe se uw clk ord invt s (new_pipe g m ck rt ex bc (Some (cs_stage s)) tree w))"
| stepped: "pipe_reachable se uw m rt ex lo p \<Longrightarrow> pipe_reachable se uw m rt ex lo (pipe_step se uw p e)"

lemma new_pipe_frame [simp]:
  "pp_root (new_pipe g m ck rt ex bc act tree w) = rt" "pp_exclude (new_pipe g m ck rt ex bc act tree w) = ex"
  "pp_quorum (new_pipe g m ck rt ex bc act tree w) = m" "pp_notes (new_pipe g m ck rt ex bc act tree w) = []"
  "pp_queue (new_pipe g m ck rt ex bc act tree w) = (\<lambda>q. [])" "pp_ckpt (new_pipe g m ck rt ex bc act tree w) = ck"
  "pp_task (new_pipe g m ck rt ex bc act tree w) = (\<lambda>i. if i < 4 then Starting else Ended)"
  by (simp_all add: new_pipe_def)

lemma reachable_handing: "pipe_reachable se uw m rt ex lo p \<Longrightarrow> handing_inv p"
  by (induction rule: pipe_reachable.induct)
    (auto intro: handing_new handing_step handing_resume)

section \<open>The tasks\<close>

definition voted ::
  "(schema_error \<Rightarrow> string) \<Rightarrow> (string \<Rightarrow> bool) \<Rightarrow> quorum_manager \<Rightarrow> envelope \<Rightarrow> (string, ballot) dict \<Rightarrow> bool" where
  "voted se uw m env bs \<longleftrightarrow>
     (\<exists>sch invt ord vs. dget handshake_schemas (en_schema_id env) = Some sch \<and>
        in_order ord (validators_for_stage se uw m (en_sequence env)) = Some vs \<and>
        bs = collect_ballots (ballot_context env sch (stage_to_next (en_sequence env)) invt) vs \<and>
        enforce_quorum (qm_policy m) (en_sequence env) bs = Inr ())"

definition stage_done :: "pipe \<Rightarrow> nat \<Rightarrow> bool" where
  "stage_done p j \<longleftrightarrow> (\<exists>env bs. Approved env bs \<in> set (pp_notes p) \<and> en_sequence env = stage_name j)"

definition scoped :: "path \<Rightarrow> path list \<Rightarrow> wtx \<Rightarrow> bool" where
  "scoped rt ex tx \<longleftrightarrow> tx_roots tx = [rt] \<and> tx_exclude tx = ex \<and> current tx"

fun task_ok :: "path \<Rightarrow> path list \<Rightarrow> pipe \<Rightarrow> nat \<Rightarrow> task_phase \<Rightarrow> bool" where
  "task_ok rt ex p i (Running tx inp) \<longleftrightarrow> scoped rt ex tx \<and> i < 3 \<and> (0 < i \<longrightarrow> stage_done p (i - 1))"
| "task_ok rt ex p i (Balloting tx env) \<longleftrightarrow> scoped rt ex tx \<and> i < 3 \<and> good i env \<and> (0 < i \<longrightarrow> stage_done p (i - 1))"
| "task_ok rt ex p i (Putting tx env) \<longleftrightarrow> scoped rt ex tx \<and> i < 3"
| "task_ok rt ex p i ph \<longleftrightarrow> i < 5 \<or> ph = Ended"

definition same_electorate :: "quorum_manager \<Rightarrow> quorum_manager \<Rightarrow> bool" where
  "same_electorate m m' \<longleftrightarrow> qm_policy m' = qm_policy m \<and> qm_validators m' = qm_validators m"

definition pipe_inv ::
  "(schema_error \<Rightarrow> string) \<Rightarrow> (string \<Rightarrow> bool) \<Rightarrow> quorum_manager \<Rightarrow> path \<Rightarrow> path list \<Rightarrow> nat \<Rightarrow> pipe \<Rightarrow> bool" where
  "pipe_inv se uw m rt ex lo p \<longleftrightarrow>
     pp_root p = rt \<and> pp_exclude p = ex \<and> same_electorate m (pp_quorum p) \<and>
     (\<forall>i. task_ok rt ex p i (pp_task p i)) \<and>
     (\<forall>env bs. Approved env bs \<in> set (pp_notes p) \<longrightarrow> voted se uw m env bs) \<and>
     (\<forall>j. lo < j \<and> j < 3 \<longrightarrow> stage_done p j \<longrightarrow> stage_done p (j - 1))"

lemma stage_name_inj: "i < 3 \<Longrightarrow> j < 3 \<Longrightarrow> stage_name i = stage_name j \<Longrightarrow> i = j"
  by (auto simp: stage_name_def stages_def less_Suc_eq numeral_3_eq_3)

lemma stage_done_mono: "stage_done p j \<Longrightarrow> set (pp_notes p) \<subseteq> set (pp_notes p') \<Longrightarrow> stage_done p' j"
  by (auto simp: stage_done_def)

lemma task_ok_mono: "task_ok rt ex p i ph \<Longrightarrow> set (pp_notes p) \<subseteq> set (pp_notes p') \<Longrightarrow> task_ok rt ex p' i ph"
  using stage_done_mono by (cases ph) (auto simp: subset_iff)

lemma task_ok_ended [simp]: "task_ok rt ex p i Ended"
  by simp

lemma task_ok_low: "task_ok rt ex p i ph \<Longrightarrow> ph \<noteq> Ended \<Longrightarrow> i < 5"
  by (cases ph) auto

lemma task_ok_open: "task_ok rt ex p i ph \<Longrightarrow> open_of ph = Some tx \<Longrightarrow> scoped rt ex tx"
  by (cases ph) (auto simp: open_of_def)

lemma electorate_validators:
  "same_electorate m m' \<Longrightarrow> validators_for_stage se uw m' st = validators_for_stage se uw m st"
  by (simp add: same_electorate_def validators_for_stage_def)

text \<open>A step that approves nothing.\<close>

lemma pipe_view:
  assumes "pipe_inv se uw m rt ex lo p" and "pp_root p' = pp_root p" "pp_exclude p' = pp_exclude p"
    and "same_electorate (pp_quorum p) (pp_quorum p')"
    and "\<And>i. pp_task p' i = pp_task p i \<or> task_ok rt ex p' i (pp_task p' i)"
    and "\<And>env bs. Approved env bs \<in> set (pp_notes p') \<longleftrightarrow> Approved env bs \<in> set (pp_notes p)"
  shows "pipe_inv se uw m rt ex lo p'"
proof -
  have done_eq: "stage_done p' j = stage_done p j" for j
    using assms(6) by (simp add: stage_done_def)
  have ok_eq: "task_ok rt ex p' i ph = task_ok rt ex p i ph" for i ph
    by (cases ph) (simp_all add: done_eq)
  show ?thesis
    using assms(1-4,6) assms(5) unfolding pipe_inv_def done_eq ok_eq same_electorate_def by metis
qed

lemma pipe_tasks: "pipe_inv se uw m rt ex lo p \<Longrightarrow> task_ok rt ex p i (pp_task p i)"
  by (simp add: pipe_inv_def)

lemma same_electorate_refl [simp]: "same_electorate m m"
  by (simp add: same_electorate_def)

lemma pipe_fail: "pipe_inv se uw m rt ex lo p \<Longrightarrow> pipe_inv se uw m rt ex lo (fail clk i e p)"
  by (erule pipe_view) auto

lemma scoped_frame: "same_frame tx tx' \<Longrightarrow> scoped rt ex tx \<Longrightarrow> scoped rt ex tx'"
  by (simp add: same_frame_def scoped_def)

lemma scoped_in [simp]: "scoped rt ex (tx_in p tx) = scoped rt ex tx"
  by (simp add: scoped_def tx_in_def)

section \<open>Every step keeps the invariant\<close>

lemma pipe_gov: "pipe_inv se uw m rt ex lo p \<Longrightarrow> pipe_inv se uw m rt ex lo (p\<lparr>pp_gov := g\<rparr>)"
  by (erule pipe_view) auto

lemma pipe_enter:
  assumes "pipe_inv se uw m rt ex lo p" and "i < 3" and "0 < i \<longrightarrow> stage_done p (i - 1)"
  shows "pipe_inv se uw m rt ex lo (enter_stage clk uuid i inp p)"
proof -
  have f: "pp_root p = rt" "pp_exclude p = ex" using assms(1) by (simp_all add: pipe_inv_def)
  obtain tx where tx: "new_tx [rt] ex (pp_token p) (stage_name i) uuid (gov_ledger (pp_gov p)) = Inr tx"
    and sc: "tx_roots tx = [rt]" "tx_exclude tx = ex" by (simp add: new_tx_def)
  let ?tx = "tx_enter (rd_now (clk 2)) (rd_ts (clk 2)) tx"
  have "same_frame (tx\<lparr>current := True\<rparr>) ?tx" by (simp add: tx_enter_def)
  then have "scoped rt ex ?tx" by (rule scoped_frame) (simp add: scoped_def sc)
  then have "pipe_inv se uw m rt ex lo (set_task i (Running ?tx inp) (tx_out ?tx (pp_world p) p))"
    using assms(2,3) by (intro pipe_view [OF assms(1)]) (auto simp: stage_done_def)
  then show ?thesis by (simp add: enter_stage_def f tx Let_def)
qed

lemma pipe_take:
  assumes "pipe_inv se uw m rt ex lo p" and "handing_inv p"
  shows "pipe_inv se uw m rt ex lo (take_item se' clk uuid i p)"
proof (cases "pp_task p i \<noteq> Starting \<or> i = 0 \<or> i > 3 \<or> pp_queue p (i - 1) = []")
  case True
  with assms show ?thesis by (auto simp: take_item_def split: list.split)
next
  case False
  then obtain it rest where q: "pp_queue p (i - 1) = it # rest" by (cases "pp_queue p (i - 1)") auto
  let ?p = "queue_note ''QUEUE_GET'' (clk 0) (i - 1) it (p\<lparr>pp_queue := (pp_queue p)(i - 1 := rest)\<rparr>)"
  have p: "pipe_inv se uw m rt ex lo ?p" by (rule pipe_view [OF assms(1)]) auto
  show ?thesis
  proof (cases it)
    case STOP
    have "pipe_inv se uw m rt ex lo (set_task i Stopping (queue_note ''QUEUE_PUT'' (clk 1) i STOP ?p))"
      by (rule pipe_view [OF p]) (use False in auto)
    with False q STOP pipe_fail [OF p] show ?thesis by (auto simp: take_item_def Let_def)
  next
    case (Packet env)
    have "Packet env \<in> set (pp_queue p (i - 1))" using q Packet by simp
    then have "approved p env" using assms(2) unfolding handing_inv_def by blast
    then obtain bs where appr: "Approved env bs \<in> set (pp_notes p)" by (auto simp: approved_def)
    obtain r g1 where v: "validate_envelope se' (\<lambda>k. clk (k + 3)) env (stage_name (i - 1)) (pp_gov ?p) = (r, g1)"
      by fastforce
    note g = pipe_gov [OF p, of g1]
    show ?thesis
    proof (cases r)
      case (Inl e)
      with False q Packet v pipe_fail [OF g] show ?thesis by (auto simp: take_item_def Let_def)
    next
      case (Inr u)
      have b: "pipe_inv se uw m rt ex lo (set_task 3 (Building env) (?p\<lparr>pp_gov := g1, pp_notes := pp_notes ?p @ [Built env]\<rparr>))"
        by (rule pipe_view [OF p]) auto
      have "stage_done p (i - 1)"
        using validate_envelope_ok [OF v [unfolded Inr]] appr by (auto simp: stage_done_def good_def)
      then have "pipe_inv se uw m rt ex lo (enter_stage clk uuid i (Some env) (?p\<lparr>pp_gov := g1\<rparr>))" if "i \<noteq> 3"
        using False that by (intro pipe_enter [OF g]) (auto simp: stage_done_def)
      with False q Packet v Inr b show ?thesis by (auto simp: take_item_def Let_def)
    qed
  qed
qed

lemma pipe_agent:
  assumes "pipe_inv se uw m rt ex lo p"
  shows "mode_is_write mode \<Longrightarrow> pipe_inv se uw m rt ex lo (agent_write now i f mode data p)"
    and "pipe_inv se uw m rt ex lo (agent_unlink now i f p)"
proof -
  have t: "pipe_inv se uw m rt ex lo (set_task i (Running tx1 inp) (tx_out tx1 w1 p))"
    if "pp_task p i = Running tx inp" "same_frame (tx_in p tx) tx1" for tx tx1 inp w1
    using pipe_tasks [OF assms, of i] that scoped_frame [of "tx_in p tx" tx1]
    by (intro pipe_view [OF assms]) (auto simp: stage_done_def)
  show "pipe_inv se uw m rt ex lo (agent_write now i f mode data p)" if "mode_is_write mode"
    using assms t tx_write_effect(1) [OF _ that] by (auto simp: agent_write_def split: task_phase.split prod.split)
  have "current (tx_in p tx)" if "pp_task p i = Running tx inp" for tx inp
    using pipe_tasks [OF assms, of i] that by (simp add: scoped_def tx_in_def)
  then show "pipe_inv se uw m rt ex lo (agent_unlink now i f p)"
    using assms t stage_delete_effect(1)
    by (auto simp: agent_unlink_def path_unlink_def split: task_phase.split prod.split)
qed

lemma pipe_return:
  assumes "pipe_inv se uw m rt ex lo p"
  shows "pipe_inv se uw m rt ex lo (agent_return se' clk uuid i r p)"
proof -
  have "pipe_inv se uw m rt ex lo (set_task i (Balloting tx env) (p\<lparr>pp_gov := g\<rparr>))"
    if "pp_task p i = Running tx inp" "create_envelope se' clk uuid (stage_name i) (stage_schema i) payload role corr g0 = (Inr env, g)"
    for tx inp env g payload role corr g0
    using pipe_tasks [OF assms, of i] that(1) create_envelope_ok(1) [OF that(2)]
    by (intro pipe_view [OF assms]) (auto simp: stage_done_def)
  moreover have "pipe_inv se uw m rt ex lo (set_task i Ended (p\<lparr>pp_ckpt := c, pp_result := v\<rparr>))" for c v
    by (rule pipe_view [OF assms]) auto
  ultimately show ?thesis
    using assms pipe_fail [OF assms] pipe_fail [OF pipe_gov [OF assms]]
    unfolding agent_return_def by (auto split: task_phase.split sum.split prod.split)
qed

lemma in_order_set: "in_order ord vs = Some vs' \<Longrightarrow> mset vs' = mset vs"
proof -
  assume "in_order ord vs = Some vs'"
  then have o: "sort ord = [0..<length vs]" and vs: "vs' = map (\<lambda>k. vs ! k) ord"
    by (auto simp: in_order_def split: if_splits)
  have "mset ord = mset [0..<length vs]" using o by (metis mset_sort)
  then have "mset vs' = mset (map (\<lambda>k. vs ! k) [0..<length vs])" by (simp only: vs mset_map)
  then show ?thesis by (simp only: map_nth)
qed

lemma apply_entries_frame:
  "apply_entries now es tx w = (r, tx', w') \<Longrightarrow> same_frame tx tx' \<and> (q \<notin> live_path tx ` set es \<longrightarrow> dget (live w') q = dget (live w) q)"
proof (induction now es tx w arbitrary: r tx' w' rule: apply_entries.induct)
  case (2 now e es tx w)
  obtain r1 tx1 w1 where a: "apply_entry now e tx w = (r1, tx1, w1)" by (metis prod_cases3)
  have f: "same_frame tx tx1" "q \<noteq> live_path tx e \<Longrightarrow> dget (live w1) q = dget (live w) q"
    using a stage_delete_effect [of now "live_path tx e" tx w r1 tx1 w1]
    by (auto simp: apply_entry_def path_unlink_def dget_dput dget_dpop same_frame_def split: if_splits option.splits)
  have lp: "live_path tx1 = live_path tx" using f(1) by (auto simp: same_frame_def live_path_def fun_eq_iff)
  show ?case
  proof (cases r1)
    case (Inl err)
    with 2(2) a f show ?thesis by auto
  next
    case (Inr u)
    from 2(2) a Inr have "apply_entries now es tx1 w1 = (r, tx', w')" by simp
    from 2(1) [OF a [symmetric] Inr refl this] f lp same_frame_trans [OF f(1)] show ?thesis by auto
  qed
qed auto

lemma commit_frame:
  assumes "commit now ts tx w = (r, tx', w')"
  shows "same_frame tx tx'" "q \<notin> live_path tx ` set (touched tx) \<Longrightarrow> dget (live w') q = dget (live w) q"
proof -
  obtain r1 tx1 w1 where a: "apply_entries now (touched tx) (write_manifest now Committing tx) w = (r1, tx1, w1)"
    by (metis prod_cases3)
  note f = apply_entries_frame [OF a, of q, simplified]
  have m: "same_frame tx (write_manifest now Committing tx)" by simp
  have t: "same_frame tx tx1" by (rule same_frame_trans [OF m f [THEN conjunct1]])
  then have c: "same_frame tx ((write_manifest now Committed tx1)\<lparr>finalized := True\<rparr>)"
    by (simp add: same_frame_def write_manifest_def)
  have "tx' = tx \<and> w' = w \<or> w' = w1 \<and> (tx' = tx1 \<or>
      tx' = cleanup_staging (tx_append ts (tx_block ''TX_COMMIT'' tx (touched_json tx) (staged_files tx))
        ((write_manifest now Committed tx1)\<lparr>finalized := True\<rparr>)))"
    using assms a by (auto simp: commit_def Let_def split: if_splits sum.splits)
  with t c f show "same_frame tx tx'" "q \<notin> live_path tx ` set (touched tx) \<Longrightarrow> dget (live w') q = dget (live w) q"
    by auto
qed

text \<open>The commit that follows an approval, written as the step does.\<close>

lemma commit_if_frame:
  assumes "(if ok then commit now ts tx w else (Inr (), tx, w)) = (r, tx', w')"
  shows "same_frame tx tx'" "q \<notin> live_path tx ` set (touched tx) \<Longrightarrow> dget (live w') q = dget (live w) q"
  using assms commit_frame [of now ts tx w r tx' w'] by (auto split: if_splits)

text \<open>Adding an approval of the stage the task is at.\<close>

lemma pipe_approve:
  assumes "pipe_inv se uw m rt ex lo p" and "pp_root p' = pp_root p" "pp_exclude p' = pp_exclude p"
    and "same_electorate (pp_quorum p) (pp_quorum p')" and "pp_notes p' = pp_notes p @ [Approved env bs]"
    and "voted se uw m env bs" and "en_sequence env = stage_name i" and "i < 3" and "0 < i \<longrightarrow> stage_done p (i - 1)"
    and "\<And>j. pp_task p' j = pp_task p j \<or> task_ok rt ex p' j (pp_task p' j)"
  shows "pipe_inv se uw m rt ex lo p'"
proof -
  have sub: "set (pp_notes p) \<subseteq> set (pp_notes p')" by (auto simp: assms(5))
  have d: "stage_done p' j \<longleftrightarrow> stage_done p j \<or> stage_name i = stage_name j" for j
    using assms(7) by (auto simp: stage_done_def assms(5))
  have step: "stage_done p' (j - 1)" if "stage_done p' j" "lo < j" "j < 3" for j
  proof (cases "j = i")
    case True
    with that assms(9) stage_done_mono [OF _ sub] show ?thesis by auto
  next
    case False
    with that d stage_name_inj [OF assms(8), of j] have "stage_done p j" by auto
    with that assms(1) stage_done_mono [OF _ sub] show ?thesis by (auto simp: pipe_inv_def)
  qed
  have t: "task_ok rt ex p' j (pp_task p' j)" for j
    using assms(10) [of j] task_ok_mono [OF pipe_tasks [OF assms(1)] sub] by metis
  have v: "voted se uw m e b" if "Approved e b \<in> set (pp_notes p')" for e b
    using that assms(1,5,6) by (auto simp: pipe_inv_def)
  show ?thesis
    using assms(1-4) step t v unfolding pipe_inv_def same_electorate_def by auto
qed

lemma hold_vote_electorate: "hold_vote clk ctx vs p = (r, p1) \<Longrightarrow> same_electorate (pp_quorum p) (pp_quorum p1)"
  by (auto simp: hold_vote_def validate_def ledger_append_def Let_def same_electorate_def
      split: prod.splits sum.splits quorum_error.splits option.splits)

text \<open>The ways a vote can end.\<close>

lemma ballots_cases:
  assumes "pp_task p i = Balloting tx env" and "dget handshake_schemas (en_schema_id env) = Some sch"
    and "in_order ord (validators_for_stage se uw (pp_quorum p) (en_sequence env)) = Some vs"
    and "hold_vote clk (ballot_context env sch (stage_to_next (stage_name i)) invt) vs p = (r, p1)"
  obtains (refused) e p2 where "r = Inl e" "ballots_in se uw clk i ord invt p = fail clk i (Quorum_Raised e) p2"
      "p2 = (case e of UnknownMode x \<Rightarrow> p1 | _ \<Rightarrow>
         snd (record_ckpt ''QUORUM_LOCKED_INTERVENTION'' (rd_now (clk 2)) env sch (stage_to_next (stage_name i))
           (collect_ballots (ballot_context env sch (stage_to_next (stage_name i)) invt) vs) p1))"
  | (approved) bs ok p2 cr tx1 w1 where "r = Inr bs"
      "record_ckpt (gov_state (pp_gov p1)) (rd_now (clk 2)) env sch (stage_to_next (stage_name i)) bs
         (p1\<lparr>pp_notes := pp_notes p1 @ [Approved env bs]\<rparr>) = (ok, p2)"
      "(if ok then commit (rd_now (clk 3)) (rd_ts (clk 3)) (tx_in p2 tx) (pp_world p2)
        else (Inr (), tx_in p2 tx, pp_world p2)) = (cr, tx1, w1)"
      "ballots_in se uw clk i ord invt p = (case cr of
        Inl e \<Rightarrow> fail clk i (Tx_Raised e) (set_task i (Balloting tx1 env) (tx_out tx1 w1 p2))
      | Inr _ \<Rightarrow>
          if i = 0 then set_task i (Sending env) (queue_note ''QUEUE_PUT'' (clk 5) i (Packet env) (close_tx (clk 4) False tx1 (tx_out tx1 w1 p2)))
          else set_task i (Putting tx1 env) (queue_note ''QUEUE_PUT'' (clk 5) i (Packet env) (tx_out tx1 w1 p2)))"
proof (cases r)
  case (Inl e)
  with assms refused show ?thesis by (cases e) (simp_all add: ballots_in_def Let_def)
next
  case (Inr bs)
  obtain ok p2 where rc: "record_ckpt (gov_state (pp_gov p1)) (rd_now (clk 2)) env sch (stage_to_next (stage_name i)) bs
      (p1\<lparr>pp_notes := pp_notes p1 @ [Approved env bs]\<rparr>) = (ok, p2)" by fastforce
  obtain cr tx1 w1 where c: "(if ok then commit (rd_now (clk 3)) (rd_ts (clk 3)) (tx_in p2 tx) (pp_world p2)
      else (Inr (), tx_in p2 tx, pp_world p2)) = (cr, tx1, w1)" by (metis prod_cases3)
  show ?thesis
    by (rule approved [OF Inr rc c]) (use assms Inr rc c in \<open>simp add: ballots_in_def Let_def\<close>)
qed

lemma ballots_idle:
  assumes "\<not> (\<exists>tx env sch vs. pp_task p i = Balloting tx env \<and> dget handshake_schemas (en_schema_id env) = Some sch \<and>
    in_order ord (validators_for_stage se uw (pp_quorum p) (en_sequence env)) = Some vs)"
  shows "ballots_in se uw clk i ord invt p = p"
  using assms by (auto simp: ballots_in_def split: task_phase.split option.split)

lemma pipe_ballots:
  assumes inv: "pipe_inv se uw m rt ex lo p"
  shows "pipe_inv se uw m rt ex lo (ballots_in se uw clk i ord invt p)"
proof (cases "\<exists>tx env sch vs. pp_task p i = Balloting tx env \<and> dget handshake_schemas (en_schema_id env) = Some sch \<and>
    in_order ord (validators_for_stage se uw (pp_quorum p) (en_sequence env)) = Some vs")
  case False
  with inv show ?thesis by (simp add: ballots_idle)
next
  case True
  then obtain tx env sch vs where b: "pp_task p i = Balloting tx env" "dget handshake_schemas (en_schema_id env) = Some sch"
    "in_order ord (validators_for_stage se uw (pp_quorum p) (en_sequence env)) = Some vs" by blast
  have el: "same_electorate m (pp_quorum p)" and ok: "scoped rt ex tx" "i < 3" "good i env" "0 < i \<longrightarrow> stage_done p (i - 1)"
    using inv pipe_tasks [OF inv, of i] b(1) by (simp_all add: pipe_inv_def)
  have sq: "en_sequence env = stage_name i" using ok(3) by (simp add: good_def)
  obtain r p1 where v: "hold_vote clk (ballot_context env sch (stage_to_next (stage_name i)) invt) vs p = (r, p1)" by fastforce
  note f = hold_vote_frame [OF v] hold_vote_electorate [OF v]
  show ?thesis
    using b v
  proof (cases rule: ballots_cases [where clk = clk and invt = invt])
    case (refused e p2)
    have rec: "pipe_inv se uw m rt ex lo (snd (record_ckpt st now env sch nr bs p1))" for st now nr bs
    proof -
      obtain k q where rc: "record_ckpt st now env sch nr bs p1 = (k, q)" by fastforce
      show ?thesis unfolding rc snd_conv
        by (rule pipe_view [OF inv]) (use f record_ckpt_frame [OF rc] in \<open>auto simp: same_electorate_def\<close>)
    qed
    have "pipe_inv se uw m rt ex lo p1"
      by (rule pipe_view [OF inv]) (use f in auto)
    with rec refused show ?thesis by (auto intro!: pipe_fail split: quorum_error.split)
  next
    case (approved bs k p2 cr tx1 w1)
    note g = record_ckpt_frame [OF approved(2)]
    have vt: "voted se uw m env bs"
      using b hold_vote_passed [OF v [unfolded approved(1)]] el electorate_validators [OF el]
      by (auto simp: voted_def sq same_electorate_def ballot_context_def)
    have sc: "scoped rt ex tx1"
      using commit_if_frame(1) [OF approved(3)] ok(1) scoped_frame by fastforce
    let ?p3 = "tx_out tx1 w1 p2"
    have step: "pipe_inv se uw m rt ex lo p'"
      if "pp_root p' = pp_root ?p3" "pp_exclude p' = pp_exclude ?p3" "pp_quorum p' = pp_quorum ?p3" "pp_notes p' = pp_notes ?p3"
        "\<And>j. pp_task p' j = pp_task p j \<or> task_ok rt ex p' j (pp_task p' j)" for p'
      by (rule pipe_approve [OF inv _ _ _ _ vt sq ok(2,4) that(5)]) (use that f g in \<open>auto simp: same_electorate_def\<close>)
    have "stage_done p' (i - 1)" if "pp_notes p' = pp_notes ?p3" "0 < i" for p'
      using ok(4) that g f by (auto simp: stage_done_def)
    then have "pipe_inv se uw m rt ex lo (set_task i (Balloting tx1 env) ?p3)"
      "pipe_inv se uw m rt ex lo (set_task i (Sending env) (queue_note kd rd q it (close_tx rd' bl tx1 ?p3)))"
      "pipe_inv se uw m rt ex lo (set_task i (Putting tx1 env) (queue_note kd rd q it ?p3))" for kd rd q it rd' bl
      using sc ok by (auto intro!: step simp: g f)
    with approved(4) pipe_fail show ?thesis by (auto split: sum.split)
  qed
qed

lemma pipe_put:
  assumes "pipe_inv se uw m rt ex lo p"
  shows "pipe_inv se uw m rt ex lo (put_done clk i p)"
proof -
  have low: "pp_task p i \<noteq> Ended \<Longrightarrow> i < 5" using task_ok_low [OF pipe_tasks [OF assms]] .
  then have "pipe_inv se uw m rt ex lo (set_task i Stopping (queue_note k r q it (put_item q' it' p)))"
    "pipe_inv se uw m rt ex lo (set_task i Starting (close_tx r b tx (put_item q' it' p)))"
    if "pp_task p i \<noteq> Ended" for k r q it q' it' b tx
    using that by (auto intro!: pipe_view [OF assms])
  moreover have "pipe_inv se uw m rt ex lo (set_task i Ended (put_item q STOP p))" for q
    by (rule pipe_view [OF assms]) auto
  ultimately show ?thesis using assms by (auto simp: put_done_def Let_def split: task_phase.split)
qed

lemma pipe_seed: "pipe_inv se uw m rt ex lo p \<Longrightarrow> pipe_inv se uw m rt ex lo (seed_begin clk p)"
  unfolding seed_begin_def by (auto intro!: pipe_view [of se uw m rt ex lo p])

lemma pipe_inv_step:
  assumes "pipe_inv se uw m rt ex lo p" and "handing_inv p"
  shows "pipe_inv se uw m rt ex lo (pipe_step se uw p e)"
  using assms
  by (cases e) (auto simp: intake_begin_def pipe_take pipe_agent pipe_return pipe_ballots pipe_put pipe_seed intro: pipe_enter)

lemma stage_index_name: "stage_index st = Some k \<Longrightarrow> k < 3 \<and> st = stage_name k"
  by (auto simp: stage_index_def split: if_splits)

lemma pipe_inv_new: "pipe_inv se uw m rt ex lo (new_pipe g m ck rt ex bc act tree w)"
proof -
  have "task_ok rt ex p i (if i < 4 then Starting else Ended)" for p i by simp
  then show ?thesis by (simp add: pipe_inv_def stage_done_def)
qed

lemma pipe_resume:
  assumes "stage_index (cs_stage s) = Some lo"
  shows "pipe_inv se uw m rt ex lo (resume_pipe se uw clk ord invt s (new_pipe g m ck rt ex bc act tree w))"
proof -
  let ?p = "new_pipe g m ck rt ex bc act tree w"
  let ?env = "snapshot_envelope s" and ?next = "stage_to_next (cs_stage s)"
  let ?dead = "?p\<lparr>pp_task := \<lambda>i. Ended\<rparr>"
  have d: "pipe_inv se uw m rt ex lo (?dead\<lparr>pp_error := x\<rparr>)" "pipe_inv se uw m rt ex lo ?dead" for x
    by (rule pipe_view [OF pipe_inv_new]; auto)+
  show ?thesis
  proof (cases "\<exists>sch vs. dget handshake_schemas (cs_schema_id s) = Some sch \<and>
      in_order ord (validators_for_stage se uw m (cs_stage s)) = Some vs")
    case False
    with d show ?thesis by (auto simp: resume_pipe_def Let_def split: option.split)
  next
    case True
    then obtain sch vs where b: "dget handshake_schemas (cs_schema_id s) = Some sch"
      "in_order ord (validators_for_stage se uw m (cs_stage s)) = Some vs" by blast
    obtain r p1 where v: "hold_vote clk (ballot_context ?env sch ?next invt) vs ?dead = (r, p1)" by fastforce
    note f = hold_vote_frame [OF v] hold_vote_electorate [OF v]
    show ?thesis
    proof (cases r)
      case (Inl e)
      have "pipe_inv se uw m rt ex lo (p1\<lparr>pp_error := x\<rparr>)" for x by (rule pipe_view [OF d(2)]) (use f in auto)
      with b v Inl show ?thesis by (simp add: resume_pipe_def Let_def)
    next
      case (Inr bs)
      let ?q = "p1\<lparr>pp_notes := pp_notes p1 @ [Approved ?env bs]\<rparr>"
      obtain ok p2 where rc: "record_ckpt (gov_state (pp_gov p1)) (rd_now (clk 2)) ?env sch ?next bs ?q = (ok, p2)" by fastforce
      note g = record_ckpt_frame [OF rc]
      let ?p3 = "(put_item lo (Packet ?env) (queue_note ''QUEUE_PUT'' (clk 3) lo (Packet ?env) p2))
            \<lparr>pp_task := \<lambda>i. if lo < i \<and> i < 5 then Starting else Ended, pp_seed := lo\<rparr>"
      have "voted se uw m ?env bs"
        using b hold_vote_passed [OF v [unfolded Inr]] by (auto simp: voted_def snapshot_envelope_def ballot_context_def)
      moreover have "stage_done ?p3 j \<Longrightarrow> j < 3 \<Longrightarrow> j = lo" for j
        using stage_index_name [OF assms] stage_name_inj [of lo j] by (auto simp: stage_done_def g f snapshot_envelope_def)
      moreover have "task_ok rt ex ?p3 i (if lo < i \<and> i < 5 then Starting else Ended)" for i by simp
      ultimately have "pipe_inv se uw m rt ex lo ?p3"
        using f(14) unfolding pipe_inv_def by (auto simp: g f(1-13))
      then show ?thesis using b v Inr rc assms by (simp add: resume_pipe_def Let_def)
    qed
  qed
qed

lemma reachable_inv: "pipe_reachable se uw m rt ex lo p \<Longrightarrow> pipe_inv se uw m rt ex lo p"
proof (induction rule: pipe_reachable.induct)
  case (stepped lo p e)
  then show ?case using pipe_inv_step reachable_handing by blast
qed (simp_all add: pipe_inv_new pipe_resume)

section \<open>The live files\<close>

definition shielded :: "path \<Rightarrow> path list \<Rightarrow> path \<Rightarrow> bool" where
  "shielded rt ex q \<longleftrightarrow> is_within q rt \<and> \<not> list_ex (is_within q) ex \<and>
     \<not> is_within q (rt @ [''.workspace_staging'']) \<and> \<not> is_within q (rt @ [''.git''])"

lemma in_scope_shielded: "scoped rt ex tx \<Longrightarrow> in_scope tx q = shielded rt ex q"
  by (auto simp: scoped_def in_scope_def is_excluded_def find_root_index_def shielded_def)

lemma enter_live [simp]: "live (pp_world (enter_stage clk uuid i inp p)) = live (pp_world p)"
  by (simp add: enter_stage_def Let_def split: sum.split)

lemma take_live: "live (pp_world (take_item se clk uuid i p)) = live (pp_world p)"
  by (simp add: take_item_def Let_def split: list.split item.split prod.split sum.split)

lemma return_live: "live (pp_world (agent_return se clk uuid i r p)) = live (pp_world p)"
  by (simp add: agent_return_def split: task_phase.split sum.split prod.split)

lemma put_live: "live (pp_world (put_done clk i p)) = live (pp_world p)"
  by (simp add: put_done_def Let_def split: task_phase.split)

lemma seed_live: "live (pp_world (seed_begin clk p)) = live (pp_world p)"
  by (simp add: seed_begin_def)

lemma agent_live:
  assumes "pipe_inv se uw m rt ex lo p" and "shielded rt ex q"
  shows "mode_is_write mode \<Longrightarrow> dget (live (pp_world (agent_write now i f mode data p))) q = dget (live (pp_world p)) q"
    and "live (pp_world (agent_unlink now i f p)) = live (pp_world p)"
proof -
  have sc: "in_scope (tx_in p tx) q" "current (tx_in p tx)" if "pp_task p i = Running tx inp" for tx inp
    using pipe_tasks [OF assms(1), of i] that in_scope_shielded [of rt ex "tx_in p tx" q] assms(2)
    by (simp_all add: scoped_def tx_in_def)
  show "dget (live (pp_world (agent_write now i f mode data p))) q = dget (live (pp_world p)) q" if "mode_is_write mode"
    using tx_write_effect(2) [OF _ that] sc(1) by (auto simp: agent_write_def split: task_phase.split prod.split)
  show "live (pp_world (agent_unlink now i f p)) = live (pp_world p)"
    using stage_delete_effect(2) sc(2)
    by (auto simp: agent_unlink_def path_unlink_def split: task_phase.split prod.split)
qed

lemma record_live: "live (pp_world (snd (record_ckpt st now env sch nr bs p))) = live (pp_world p)"
proof -
  obtain ok p1 where rc: "record_ckpt st now env sch nr bs p = (ok, p1)" by fastforce
  show ?thesis by (simp add: rc record_ckpt_frame [OF rc])
qed

text \<open>What the ballots do to a live file: nothing, or what the commit of the approved stage does.\<close>

lemma ballots_live:
  assumes inv: "pipe_inv se uw m rt ex lo p"
  shows "dget (live (pp_world (ballots_in se uw clk i ord invt p))) q = dget (live (pp_world p)) q \<or>
    (\<exists>tx env bs. pp_task p i = Balloting tx env \<and> good i env \<and> voted se uw m env bs \<and> q \<in> live_path tx ` set (touched tx))"
proof (cases "\<exists>tx env sch vs. pp_task p i = Balloting tx env \<and> dget handshake_schemas (en_schema_id env) = Some sch \<and>
    in_order ord (validators_for_stage se uw (pp_quorum p) (en_sequence env)) = Some vs")
  case False
  then show ?thesis by (simp add: ballots_idle)
next
  case True
  then obtain tx env sch vs where b: "pp_task p i = Balloting tx env" "dget handshake_schemas (en_schema_id env) = Some sch"
    "in_order ord (validators_for_stage se uw (pp_quorum p) (en_sequence env)) = Some vs" by blast
  have el: "same_electorate m (pp_quorum p)" and gd: "good i env"
    using inv pipe_tasks [OF inv, of i] b(1) by (simp_all add: pipe_inv_def)
  obtain r p1 where v: "hold_vote clk (ballot_context env sch (stage_to_next (stage_name i)) invt) vs p = (r, p1)" by fastforce
  note f = hold_vote_frame [OF v]
  show ?thesis
    using b v
  proof (cases rule: ballots_cases [where clk = clk and invt = invt])
    case (refused e p2)
    then have "live (pp_world (ballots_in se uw clk i ord invt p)) = live (pp_world p)"
      by (simp add: record_live f split: quorum_error.split)
    then show ?thesis by simp
  next
    case (approved bs k p2 cr tx1 w1)
    note g = record_ckpt_frame [OF approved(2)]
    have "voted se uw m env bs"
      using b gd hold_vote_passed [OF v [unfolded approved(1)]] el electorate_validators [OF el]
      by (auto simp: voted_def good_def same_electorate_def ballot_context_def)
    moreover have "live_path (tx_in p2 tx) = live_path tx" "touched (tx_in p2 tx) = touched tx"
      by (simp_all add: tx_in_def live_path_def fun_eq_iff)
    moreover have "live (pp_world (ballots_in se uw clk i ord invt p)) = live w1"
      using approved(4) by (simp split: sum.split)
    ultimately show ?thesis
      using commit_if_frame(2) [OF approved(3), of q] b(1) gd by (auto simp: g f)
  qed
qed

section \<open>Ended runs\<close>

lemma step_ended: "(\<And>i. pp_task p i = Ended) \<Longrightarrow> pipe_step se uw p e = p"
  by (cases e) (simp_all add: intake_begin_def take_item_def agent_write_def agent_unlink_def agent_return_def
      ballots_in_def put_done_def seed_begin_def)

lemma run_ended: "(\<And>i. pp_task p i = Ended) \<Longrightarrow> pipe_run se uw p es = p"
  by (induction es) (simp_all add: pipe_run_def step_ended)

lemma fail_ended: "pipe_inv se uw m rt ex lo p \<Longrightarrow> pp_task (fail clk i e p) j = Ended"
proof -
  assume "pipe_inv se uw m rt ex lo p"
  then have "pp_task p j \<noteq> Ended \<Longrightarrow> j < 5" using task_ok_low [OF pipe_tasks] by blast
  then show ?thesis by (cases "pp_task p j = Ended") simp_all
qed

section \<open>A resumed run that builds\<close>

definition demo_payload :: jdict where
  "demo_payload =
     [(''target_repositories'', JArr [JStr ''repo'']), (''compliance_status'', JStr ''ok''), (''risk_summary'', JArr []),
      (''recommended_actions'', JArr []), (''trace'', JObj [(''architecture_signature'', JStr ''a'')])]"

definition demo_sch :: schema where
  "demo_sch = \<lparr>schema_id = ''risk_to_build_execution.v1'', schema_def = risk_schema\<rparr>"

definition demo_snap :: snapshot where
  "demo_snap =
     \<lparr>cs_version = 1, cs_token = ''k'', cs_governance = ''Running'', cs_stage = ''risk_to_build_execution'',
      cs_schema_id = ''risk_to_build_execution.v1'', cs_payload = demo_payload,
      cs_signature = signature_for demo_sch (JObj demo_payload), cs_handshake = ''h'', cs_role = ''risk_compliance'',
      cs_correlation = ''c'', cs_created = ''0.0'', cs_updated = ''0.0'', cs_ballots = []\<rparr>"

definition demo_clk :: "nat \<Rightarrow> reading" where
  "demo_clk k = \<lparr>rd_now = ''0.0'', rd_ts = ''t''\<rparr>"

definition demo_gov :: governance where
  "demo_gov = \<lparr>gov_stream = [], gov_log = [], gov_state = ''Running'', gov_ledger = None\<rparr>"

definition demo_resumed :: pipe where
  "demo_resumed = resume_pipe (\<lambda>_. []) (\<lambda>_. False) demo_clk [0, 1, 2] None demo_snap
     (new_pipe demo_gov Quorum.demo_manager None [''r''] [] ''b'' (Some (cs_stage demo_snap)) [] demo_world)"

lemma demo_payload_ok:
  "validate_against_schema (JObj demo_payload) risk_schema = Inr ()"
  "security_hits (\<lambda>_. False) demo_payload = []" "repo_name_ok ''repo''"
  by code_simp+

lemma demo_schema_known: "dget handshake_schemas ''risk_to_build_execution.v1'' = Some demo_sch"
  by (simp add: handshake_schemas_def demo_sch_def)

abbreviation demo_voters :: "(string \<times> validator) list" where
  "demo_voters \<equiv> default_validators_for_stage (\<lambda>_. []) (\<lambda>_. False) ''risk_to_build_execution''"

abbreviation demo_vote_ctx :: validation_context where
  "demo_vote_ctx \<equiv> ballot_context (snapshot_envelope demo_snap) demo_sch ''build_orchestrator'' None"

lemma demo_vote: "enforce_quorum (qm_policy Quorum.demo_manager) ''risk_to_build_execution'' (collect_ballots demo_vote_ctx demo_voters) = Inr ()"
proof -
  have c: "ctx_inventory demo_vote_ctx = None" "ctx_payload demo_vote_ctx = demo_payload" "ctx_schema demo_vote_ctx = demo_sch"
    by (simp_all add: ballot_context_def snapshot_envelope_def demo_snap_def)
  have d: "jget demo_payload ''target_repositories'' = JArr [JStr ''repo'']" "schema_def demo_sch = risk_schema"
    by (simp_all add: demo_payload_def demo_sch_def)
  have "list_all ballot_passed (dvalues (collect_ballots demo_vote_ctx demo_voters))"
    using demo_payload_ok c d
    by (simp add: collect_distinct [OF default_distinct] dvalues_def) (simp add: default_validators_for_stage_def run_one_def
        stabilize_passed schema_auditor_def security_worker_def regression_worker_def make_ballot_passed Let_def)
  then show ?thesis
    by (auto simp: enforce_quorum_ok_iff Quorum.demo_manager_def required_passes_def list_all_iff dvalues_def)
qed

lemma demo_resumed_state:
  "pp_queue demo_resumed 2 = [Packet (snapshot_envelope demo_snap)]" "pp_task demo_resumed 3 = Starting"
proof -
  let ?dead = "(new_pipe demo_gov Quorum.demo_manager None [''r''] [] ''b'' (Some (cs_stage demo_snap)) [] demo_world)
      \<lparr>pp_task := \<lambda>i. Ended\<rparr>"
  have st: "cs_stage demo_snap = ''risk_to_build_execution''" "cs_schema_id demo_snap = ''risk_to_build_execution.v1''"
    by (simp_all add: demo_snap_def)
  have q: "pp_quorum ?dead = Quorum.demo_manager" "qm_validators Quorum.demo_manager = None" "length demo_voters = 3"
    "ctx_stage demo_vote_ctx = ''risk_to_build_execution''" "pp_ckpt ?dead = None"
    by (simp_all add: Quorum.demo_manager_def default_validators_for_stage_def ballot_context_def snapshot_envelope_def st)
  have o: "in_order [0, 1, 2] demo_voters = Some demo_voters"
    unfolding in_order_def q(3) by (simp add: default_validators_for_stage_def numeral_2_eq_2 upt_rec)
  obtain r p1 where v: "hold_vote demo_clk demo_vote_ctx demo_voters ?dead = (r, p1)" by fastforce
  have "r = Inr (collect_ballots demo_vote_ctx demo_voters)"
    using v demo_vote q by (auto simp: hold_vote_def validate_def Let_def split: prod.splits)
  note v = v [unfolded this]
  note f = hold_vote_frame [OF v]
  have "stage_to_next ''risk_to_build_execution'' = ''build_orchestrator''" "stage_index ''risk_to_build_execution'' = Some 2"
    by (simp_all add: stage_to_next_def stage_index_def stage_name_def stages_def)
  moreover have "validators_for_stage (\<lambda>_. []) (\<lambda>_. False) Quorum.demo_manager ''risk_to_build_execution'' = demo_voters"
    by (simp add: validators_for_stage_def q)
  ultimately show "pp_queue demo_resumed 2 = [Packet (snapshot_envelope demo_snap)]" "pp_task demo_resumed 3 = Starting"
    using demo_schema_known o v q(1) q(5)
    by (simp_all add: demo_resumed_def resume_pipe_def Let_def st record_ckpt_def f)
qed

lemma demo_resumed_reachable:
  "pipe_reachable (\<lambda>_. []) (\<lambda>_. False) Quorum.demo_manager [''r''] [] 2 demo_resumed"
  unfolding demo_resumed_def
  by (rule resumed) (simp_all add: demo_snap_def stage_index_def stage_name_def stages_def in_order_def
      validators_for_stage_def Quorum.demo_manager_def default_validators_for_stage_def numeral_2_eq_2 upt_rec)

definition demo_built :: pipe where
  "demo_built = pipe_step (\<lambda>_. []) (\<lambda>_. False) demo_resumed (Take_Item demo_clk [] 3)"

lemma demo_built_note: "Built (snapshot_envelope demo_snap) \<in> set (pp_notes demo_built)"
proof -
  let ?env = "snapshot_envelope demo_snap"
  have e: "en_sequence ?env = stage_name 2" "en_schema_id ?env = ''risk_to_build_execution.v1''" "en_payload ?env = demo_payload"
    "en_signature ?env = signature_for demo_sch (JObj demo_payload)" "schema_def demo_sch = risk_schema"
    by (simp_all add: snapshot_envelope_def demo_snap_def stage_name_def stages_def demo_sch_def)
  have "fst (validate_envelope (\<lambda>_. []) c ?env (stage_name 2) g) = Inr ()" for c g
    by (simp add: validate_envelope_def require_schema_def demo_schema_known e validate_payload_def demo_payload_ok Let_def)
  then have "\<exists>g'. validate_envelope (\<lambda>_. []) c ?env (stage_name 2) g = (Inr (), g')" for c g
    by (metis prod.collapse)
  then show ?thesis
    using demo_resumed_state
    by (simp add: demo_built_def take_item_def Let_def split: prod.split sum.split) (metis Inl_Inr_False fst_conv)
qed

lemma demo_built_reachable:
  "pipe_reachable (\<lambda>_. []) (\<lambda>_. False) Quorum.demo_manager [''r''] [] 2 demo_built"
  unfolding demo_built_def by (rule stepped [OF demo_resumed_reachable])

section \<open>A fresh run at its first vote\<close>

definition demo_intake :: jdict where
  "demo_intake =
     [(''business_case'', JStr ''b''), (''target_repositories'', JArr [JStr ''repo'']), (''requirements'', JArr []),
      (''workspace_snapshot'', JObj [])]"

definition demo_fresh :: pipe where
  "demo_fresh = new_pipe demo_gov (Quorum.demo_manager\<lparr>qm_policy := \<lparr>policy_mode = ''supermajority'', halt_on_any_dissent = True\<rparr>,
       qm_validators := Some [(''intake_to_architecture'', [(''v'', \<lambda>_. Inl ''down'')])]\<rparr>)
     None [''r''] [] ''b'' None [] demo_world"

definition demo_entered :: pipe where
  "demo_entered = pipe_step (\<lambda>_. []) (\<lambda>_. False) demo_fresh (Intake_Begin demo_clk ''u'')"

definition demo_voting :: pipe where
  "demo_voting = pipe_step (\<lambda>_. []) (\<lambda>_. False) demo_entered (Agent_Return demo_clk ''u'' 0 (Inr (JObj demo_intake)))"

lemma demo_intake_ok: "validate_against_schema (JObj demo_intake) intake_schema = Inr ()"
  by code_simp

lemma demo_voting_reachable:
  "pipe_reachable (\<lambda>_. []) (\<lambda>_. False) (pp_quorum demo_fresh) [''r''] [] 0 demo_entered"
  "pipe_reachable (\<lambda>_. []) (\<lambda>_. False) (pp_quorum demo_fresh) [''r''] [] 0 demo_voting"
  unfolding demo_voting_def demo_entered_def by (intro stepped; simp add: demo_fresh_def fresh)+

lemma demo_voting_task:
  "\<exists>tx env. pp_task demo_voting 0 = Balloting tx env \<and> en_schema_id env = ''intake_to_architecture.v1''"
proof -
  obtain tx where t: "pp_task demo_entered 0 = Running tx None"
    by (auto simp: demo_entered_def demo_fresh_def intake_begin_def enter_stage_def new_tx_def Let_def new_pipe_def)
  have k: "dget handshake_schemas (stage_schema 0) = Some \<lparr>schema_id = ''intake_to_architecture.v1'', schema_def = intake_schema\<rparr>"
    by (simp add: handshake_schemas_def stage_schema_def)
  have "\<exists>env g'. create_envelope (\<lambda>_. []) demo_clk ''u'' (stage_name 0) (stage_schema 0) (JObj demo_intake) role None g = (Inr env, g')" for role g
    by (simp add: create_envelope_def require_schema_def k validate_payload_def demo_intake_ok Let_def)
  then obtain env g' where c: "create_envelope (\<lambda>_. []) demo_clk ''u'' (stage_name 0) (stage_schema 0) (JObj demo_intake) (stage_role 0)
      None (pp_gov demo_entered) = (Inr env, g')" by blast
  from t c create_envelope_ok(2) [OF c] show ?thesis
    by (simp add: demo_voting_def agent_return_def stage_schema_def)
qed

text \<open>Its only validator is down, so the vote fails.\<close>

lemma demo_dissent:
  "\<exists>tx env sch vs. pp_task demo_voting 0 = Balloting tx env \<and> dget handshake_schemas (en_schema_id env) = Some sch \<and>
    in_order [0] (validators_for_stage (\<lambda>_. []) (\<lambda>_. False) (pp_quorum demo_fresh) (stage_name 0)) = Some vs \<and>
    enforce_quorum (qm_policy (pp_quorum demo_fresh)) (stage_name 0)
      (collect_ballots (ballot_context env sch (stage_to_next (stage_name 0)) None) vs) = Inl (QuorumFailed (stage_name 0) 0 1 1)"
proof -
  obtain tx env where t: "pp_task demo_voting 0 = Balloting tx env" "en_schema_id env = ''intake_to_architecture.v1''"
    using demo_voting_task by blast
  let ?vs = "[(''v'', \<lambda>_. Inl ''down'')] :: (string \<times> validator) list"
  obtain sch where k: "dget handshake_schemas (en_schema_id env) = Some sch"
    by (simp add: handshake_schemas_def t)
  have vs: "in_order [0] (validators_for_stage (\<lambda>_. []) (\<lambda>_. False) (pp_quorum demo_fresh) (stage_name 0)) = Some ?vs"
    by (simp add: validators_for_stage_def demo_fresh_def stage_name_def stages_def in_order_def)
  let ?bs = "collect_ballots (ballot_context env sch (stage_to_next (stage_name 0)) None) ?vs"
  have "\<not> ballot_passed (run_one c ''v'' (\<lambda>_. Inl ''down''))" for c
    by (simp add: run_one_def stabilize_passed make_ballot_passed)
  then have "enforce_quorum (qm_policy (pp_quorum demo_fresh)) (stage_name 0) ?bs = Inl (QuorumFailed (stage_name 0) 0 1 1)"
    by (simp add: enforce_quorum_def required_passes_def demo_fresh_def collect_distinct dvalues_def Let_def)
  with t(1) k vs show ?thesis by blast
qed

lemma dissent_ends_run:
  assumes "pipe_reachable se uw m rt ex lo p" and "pp_task p i = Balloting tx env"
    and "dget handshake_schemas (en_schema_id env) = Some sch"
    and "in_order ord (validators_for_stage se uw m (stage_name i)) = Some vs"
    and "bs = collect_ballots (ballot_context env sch (stage_to_next (stage_name i)) invt) vs"
    and "enforce_quorum (qm_policy m) (stage_name i) bs = Inl e" and "\<forall>x. e \<noteq> UnknownMode x"
    and "p' = pipe_step se uw p (Ballots_In clk i ord invt)"
  shows "pp_error p' = Some (Quorum_Raised e) \<and> live (pp_world p') = live (pp_world p) \<and>
    pp_queue p' = pp_queue p \<and> pp_notes p' = pp_notes p \<and>
    pp_ckpt p' = map_option (\<lambda>c. c\<lparr>ck_file := Some (atomic_write_json (to_json
      (stage_snapshot c ''QUORUM_LOCKED_INTERVENTION'' (stage_name i) sch (en_payload env) (en_signature env) (en_role env)
        (en_correlation env) (en_created env) (stage_to_next (stage_name i)) (ballots_json bs) (rd_now (clk 2)))))\<rparr>) (pp_ckpt p) \<and>
    (\<forall>es. pipe_run se uw p' es = p')"
proof -
  note inv = reachable_inv [OF assms(1)]
  have el: "same_electorate m (pp_quorum p)" and gd: "good i env"
    using inv pipe_tasks [OF inv, of i] assms(2) by (simp_all add: pipe_inv_def)
  have sq: "en_sequence env = stage_name i" and conf: "conforms (schema_def sch) (JObj (en_payload env))"
    "en_signature env = signature_for sch (JObj (en_payload env))"
    using gd assms(3) by (auto simp: good_def)
  let ?ctx = "ballot_context env sch (stage_to_next (stage_name i)) invt"
  obtain r p1 where v: "hold_vote clk ?ctx vs p = (r, p1)" by fastforce
  have pol: "enforce_quorum (qm_policy (pp_quorum p)) (ctx_stage ?ctx) bs = Inl e"
    using assms(6) el sq by (simp add: same_electorate_def ballot_context_def)
  have r: "r = Inl e"
    using v pol assms(5,7) by (auto simp: hold_vote_def validate_def Let_def split: prod.splits quorum_error.splits)
  note f = hold_vote_frame [OF v]
  obtain ok p2 where rc: "record_ckpt ''QUORUM_LOCKED_INTERVENTION'' (rd_now (clk 2)) env sch (stage_to_next (stage_name i)) bs p1 = (ok, p2)"
    by fastforce
  note g = record_ckpt_frame [OF rc]
  have p': "p' = fail clk i (Quorum_Raised e) p2"
    using assms(2-5,7,8) v r rc electorate_validators [OF el] by (cases e) (auto simp: ballots_in_def Let_def sq)
  have "pipe_inv se uw m rt ex lo p2"
    by (rule pipe_view [OF inv]) (use f g hold_vote_electorate [OF v] in \<open>auto simp: same_electorate_def\<close>)
  then have "pipe_run se uw p' es = p'" for es
    unfolding p' by (intro run_ended fail_ended)
  moreover have "pp_ckpt p2 = map_option (\<lambda>c. c\<lparr>ck_file := Some (atomic_write_json (to_json
      (stage_snapshot c ''QUORUM_LOCKED_INTERVENTION'' (stage_name i) sch (en_payload env) (en_signature env) (en_role env)
        (en_correlation env) (en_created env) (stage_to_next (stage_name i)) (ballots_json bs) (rd_now (clk 2)))))\<rparr>) (pp_ckpt p)"
    using rc conf f(3) by (auto simp: record_ckpt_def record_stage_iff sq split: option.splits)
  ultimately show ?thesis by (simp add: p' f g)
qed

section \<open>Properties\<close>



text \<open>C2: what is built was audited. With the default validators, under a policy that halts on
  any dissent, the payload that is built has no vulnerability pattern and names only
  well-formed repositories, whatever the agents returned.\<close>

theorem built_payload_audited:
  assumes "pipe_reachable se uw m rt ex lo p" and "Built env \<in> set (pp_notes p)"
    and "qm_validators m = None" and "halt_on_any_dissent (qm_policy m)"
  shows "security_hits uw (en_payload env) = [] \<and>
    (\<exists>names. str_elems (jget (en_payload env) ''target_repositories'') = Some names \<and> list_all repo_name_ok names)"
proof -
  from reachable_handing [OF assms(1)] assms(2) obtain bs where "Approved env bs \<in> set (pp_notes p)"
    by (auto simp: handing_inv_def approved_def)
  with reachable_inv [OF assms(1)] have "voted se uw m env bs" by (simp add: pipe_inv_def)
  then obtain sch invt ord vs where v: "in_order ord (default_validators_for_stage se uw (en_sequence env)) = Some vs"
    "bs = collect_ballots (ballot_context env sch (stage_to_next (en_sequence env)) invt) vs"
    "enforce_quorum (qm_policy m) (en_sequence env) bs = Inr ()"
    using assms(3) by (auto simp: voted_def validators_for_stage_def)
  have ms: "mset vs = mset (default_validators_for_stage se uw (en_sequence env))" by (rule in_order_set [OF v(1)])
  then have "set vs = set (default_validators_for_stage se uw (en_sequence env))" "distinct (map fst vs)"
    using default_distinct [of se uw "en_sequence env"] by (metis set_mset_mset, metis mset_eq_imp_distinct_iff mset_map)
  moreover have "list_all ballot_passed (dvalues bs)" using v(3) assms(4) by (auto simp: enforce_quorum_ok_iff)
  ultimately show ?thesis
    using default_votes_sound [of vs se uw "en_sequence env" "ballot_context env sch (stage_to_next (en_sequence env)) invt"] v(2)
    by (simp add: ballot_context_def)
qed

theorem built_payload_audited_witness: "security_hits (\<lambda>_. False) (en_payload (snapshot_envelope demo_snap)) = []"
  using built_payload_audited [OF demo_built_reachable demo_built_note] by (simp add: Quorum.demo_manager_def)





end
