(* ===== verification/Pipeline_Progress.thy ===== *)
theory Pipeline_Progress
  imports Pipeline_Safety
begin

text \<open>
  The pipeline of \<^verbatim>\<open>core/handshake.py\<close> never deadlocks on its bounded queues. Every queue
  carries one envelope and then the stop mark; \<open>flow_at\<close> ties the phase of each task to how
  much of the two it has taken from the queue before it and put into the queue after it.
\<close>

section \<open>The flow\<close>

fun stage_flow :: "task_phase \<Rightarrow> nat \<Rightarrow> nat \<Rightarrow> bool" where
  "stage_flow Starting c n \<longleftrightarrow> c = n \<and> n < 2"
| "stage_flow (Running tx inp) c n \<longleftrightarrow> c = 1 \<and> n = 0"
| "stage_flow (Balloting tx env) c n \<longleftrightarrow> c = 1 \<and> n = 0"
| "stage_flow (Putting tx env) c n \<longleftrightarrow> c = 1 \<and> n = 0"
| "stage_flow Stopping c n \<longleftrightarrow> c = 2 \<and> n = 1"
| "stage_flow Ended c n \<longleftrightarrow> c = 2 \<and> n = 2"
| "stage_flow ph c n \<longleftrightarrow> False"

fun intake_flow :: "task_phase \<Rightarrow> nat \<Rightarrow> bool" where
  "intake_flow Starting n \<longleftrightarrow> n = 0"
| "intake_flow (Running tx inp) n \<longleftrightarrow> n = 0"
| "intake_flow (Balloting tx env) n \<longleftrightarrow> n = 0"
| "intake_flow (Sending env) n \<longleftrightarrow> n = 0"
| "intake_flow Stopping n \<longleftrightarrow> n = 1"
| "intake_flow Ended n \<longleftrightarrow> n = 2"
| "intake_flow ph n \<longleftrightarrow> False"

fun seed_flow :: "nat \<Rightarrow> task_phase \<Rightarrow> nat \<Rightarrow> bool" where
  "seed_flow lo Starting n \<longleftrightarrow> n = 1"
| "seed_flow lo Stopping n \<longleftrightarrow> n = 1 \<and> lo < 2"
| "seed_flow lo Ended n \<longleftrightarrow> n = (if lo < 2 then 2 else 1)"
| "seed_flow lo ph n \<longleftrightarrow> False"

fun build_flow :: "task_phase \<Rightarrow> nat \<Rightarrow> jval option \<Rightarrow> bool" where
  "build_flow Starting c r \<longleftrightarrow> c = 0"
| "build_flow (Building env) c r \<longleftrightarrow> c = 1"
| "build_flow Ended c r \<longleftrightarrow> c = 1 \<and> r \<noteq> None"
| "build_flow ph c r \<longleftrightarrow> False"

text \<open>\<open>P q\<close> items have been put into queue \<open>q\<close> and \<open>C q\<close> have been taken from it.\<close>

definition queue_flow :: "item list \<Rightarrow> nat \<Rightarrow> nat \<Rightarrow> bool" where
  "queue_flow xs put tk \<longleftrightarrow> tk \<le> put \<and> put \<le> tk + 1 \<and> put \<le> 2 \<and> (\<exists>e. xs = drop tk (take put [Packet e, STOP]))"

definition source_flow :: "nat \<Rightarrow> nat \<Rightarrow> (nat \<Rightarrow> task_phase) \<Rightarrow> nat \<Rightarrow> bool" where
  "source_flow lo seed t n \<longleftrightarrow>
     seed = lo \<and> seed_flow lo (t 4) n \<and> t lo = Ended \<or>
     seed = 2 \<and> lo = 0 \<and> intake_flow (t 0) n \<and> t 4 = Ended"

definition flow_at :: "nat \<Rightarrow> pipe \<Rightarrow> (nat \<Rightarrow> nat) \<Rightarrow> (nat \<Rightarrow> nat) \<Rightarrow> bool" where
  "flow_at lo p P C \<longleftrightarrow> lo < 3 \<and>
     (\<forall>q. lo \<le> q \<and> q < 3 \<longrightarrow> queue_flow (pp_queue p q) (P q) (C q)) \<and>
     (\<forall>i. lo < i \<and> i < 3 \<longrightarrow> stage_flow (pp_task p i) (C (i - 1)) (P i)) \<and>
     source_flow lo (pp_seed p) (pp_task p) (P lo) \<and>
     build_flow (pp_task p 3) (C 2) (pp_result p) \<and>
     (\<forall>i. i < lo \<or> 4 < i \<longrightarrow> pp_task p i = Ended)"

definition flow_inv :: "nat \<Rightarrow> pipe \<Rightarrow> bool" where
  "flow_inv lo p \<longleftrightarrow> (if pp_error p = None then \<exists>P C. flow_at lo p P C else \<forall>i. pp_task p i = Ended)"

lemma queue_flow_simps:
  "queue_flow [] a b \<longleftrightarrow> a = b \<and> a \<le> 2"
  "queue_flow (x # xs) a b \<longleftrightarrow> xs = [] \<and> (a = 1 \<and> b = 0 \<and> (\<exists>e. x = Packet e) \<or> a = 2 \<and> b = 1 \<and> x = STOP)"
proof -
  have c: "b \<le> a \<and> a \<le> b + 1 \<and> a \<le> 2 \<longleftrightarrow> (a, b) \<in> {(0, 0), (1, 1), (2, 2), (1, 0), (2, 1)}" by auto
  show "queue_flow [] a b \<longleftrightarrow> a = b \<and> a \<le> 2"
    "queue_flow (x # xs) a b \<longleftrightarrow> xs = [] \<and> (a = 1 \<and> b = 0 \<and> (\<exists>e. x = Packet e) \<or> a = 2 \<and> b = 1 \<and> x = STOP)"
    unfolding queue_flow_def using c by auto
qed

section \<open>A task moves on\<close>

text \<open>Each task owns two counts: what it has taken and what it has put.\<close>

lemma flow_stage:
  assumes "flow_at lo p P C" and "lo < i" and "i < 3"
    and "pp_task p' = (pp_task p)(i := ph)" "pp_seed p' = pp_seed p" "pp_result p' = pp_result p"
    and "\<And>q. q \<noteq> i \<Longrightarrow> q \<noteq> i - 1 \<Longrightarrow> pp_queue p' q = pp_queue p q"
    and "queue_flow (pp_queue p' (i - 1)) (P (i - 1)) c" and "queue_flow (pp_queue p' i) n (C i)" and "stage_flow ph c n"
  shows "flow_at lo p' (P(i := n)) (C(i - 1 := c))"
proof -
  have "queue_flow (pp_queue p' q) ((P(i := n)) q) ((C(i - 1 := c)) q)" if "lo \<le> q" "q < 3" for q
    using assms that by (cases "q = i"; cases "q = i - 1") (auto simp: flow_at_def)
  moreover have "stage_flow (pp_task p' j) ((C(i - 1 := c)) (j - 1)) ((P(i := n)) j)" if "lo < j" "j < 3" for j
  proof (cases "j = i")
    case False
    then have "j - 1 \<noteq> i - 1" using that assms(2) by auto
    with False that assms(1,4) show ?thesis by (simp add: flow_at_def)
  qed (use assms in simp)
  ultimately show ?thesis
    using assms(1-6) by (auto simp: flow_at_def source_flow_def)
qed

lemma flow_queue: "flow_at lo p P C \<Longrightarrow> lo \<le> q \<Longrightarrow> q < 3 \<Longrightarrow> queue_flow (pp_queue p q) (P q) (C q)"
  by (simp add: flow_at_def)

lemma intake_facts:
  assumes "flow_at lo p P C" and "pp_task p 0 \<noteq> Ended"
  shows "lo = 0" "pp_seed p = 2" "pp_task p 4 = Ended" "intake_flow (pp_task p 0) (P 0)"
proof -
  have "lo = 0" using assms by (auto simp: flow_at_def)
  with assms show "lo = 0" "pp_seed p = 2" "pp_task p 4 = Ended" "intake_flow (pp_task p 0) (P 0)"
    by (auto simp: flow_at_def source_flow_def)
qed

lemma stage_facts:
  assumes "flow_at lo p P C" and "pp_task p i \<noteq> Ended" and "0 < i" "i < 3"
  shows "lo < i" "stage_flow (pp_task p i) (C (i - 1)) (P i)"
proof -
  show "lo < i" using assms by (cases "i < lo"; cases "i = lo") (auto simp: flow_at_def source_flow_def)
  with assms show "stage_flow (pp_task p i) (C (i - 1)) (P i)" by (simp add: flow_at_def)
qed

lemma flow_intake:
  assumes "flow_at lo p P C" and "pp_task p 0 \<noteq> Ended"
    and "pp_task p' = (pp_task p)(0 := ph)" "pp_seed p' = pp_seed p" "pp_result p' = pp_result p"
    and "\<And>q. q \<noteq> 0 \<Longrightarrow> pp_queue p' q = pp_queue p q"
    and "queue_flow (pp_queue p' 0) n (C 0)" and "intake_flow ph n"
  shows "flow_at lo p' (P(0 := n)) C"
  using assms intake_facts [OF assms(1,2)] by (auto simp: flow_at_def source_flow_def)

lemma flow_seed:
  assumes "flow_at lo p P C" and "pp_task p 4 \<noteq> Ended"
    and "pp_task p' = (pp_task p)(4 := ph)" "pp_seed p' = pp_seed p" "pp_result p' = pp_result p"
    and "\<And>q. q \<noteq> lo \<Longrightarrow> pp_queue p' q = pp_queue p q"
    and "queue_flow (pp_queue p' lo) n (C lo)" and "seed_flow lo ph n"
  shows "flow_at lo p' (P(lo := n)) C"
proof -
  have "pp_seed p = lo" "pp_task p lo = Ended" "lo < 3" using assms(1,2) by (auto simp: flow_at_def source_flow_def)
  with assms show ?thesis by (auto simp: flow_at_def source_flow_def)
qed

lemma flow_build:
  assumes "flow_at lo p P C" and "pp_task p' = (pp_task p)(3 := ph)" "pp_seed p' = pp_seed p"
    and "\<And>q. q \<noteq> 2 \<Longrightarrow> pp_queue p' q = pp_queue p q"
    and "queue_flow (pp_queue p' 2) (P 2) c" and "build_flow ph c (pp_result p')"
  shows "flow_at lo p' P (C(2 := c))"
proof -
  have "lo < 3" using assms(1) by (simp add: flow_at_def)
  with assms have "queue_flow (pp_queue p' q) (P q) ((C(2 := c)) q)" if "lo \<le> q" "q < 3" for q
    using that by (cases "q = 2") (auto simp: flow_at_def)
  with assms show ?thesis by (auto simp: flow_at_def source_flow_def)
qed

lemma flow_error: "(\<And>i. pp_task p i = Ended) \<Longrightarrow> pp_error p \<noteq> None \<Longrightarrow> flow_inv lo p"
  by (auto simp: flow_inv_def)

lemma flow_fail: "flow_at lo p P C \<Longrightarrow> flow_inv lo (fail clk i e p)"
  by (rule flow_error) (auto simp: flow_at_def)

text \<open>A task that moves within its phase class, at no queue.\<close>

lemma flow_same:
  assumes "flow_at lo p P C" and "pp_task p' = (pp_task p)(i := ph)" "pp_seed p' = pp_seed p" "pp_result p' = pp_result p"
    and "pp_queue p' = pp_queue p" and "i < 3" and "pp_task p i \<noteq> Ended"
    and "\<And>c n. 0 < i \<Longrightarrow> stage_flow (pp_task p i) c n \<Longrightarrow> stage_flow ph c n"
    and "\<And>n. i = 0 \<Longrightarrow> intake_flow (pp_task p i) n \<Longrightarrow> intake_flow ph n"
  shows "flow_at lo p' P C"
proof (cases "i = 0")
  case True
  have e: "pp_task p 0 \<noteq> Ended" using assms(7) True by simp
  note f = intake_facts [OF assms(1) e]
  have ph: "intake_flow ph (P 0)" using assms(9) [OF True, of "P 0"] f(4) True by simp
  have q: "queue_flow (pp_queue p' 0) (P 0) (C 0)" using assms(1,5) f(1) by (simp add: flow_at_def)
  have "flow_at lo p' (P(0 := P 0)) C"
    by (rule flow_intake [OF assms(1) e assms(2) [unfolded True] assms(3,4) _ q ph]) (simp add: assms(5))
  then show ?thesis by (simp only: fun_upd_triv)
next
  case False
  have i: "0 < i" using False by simp
  note f = stage_facts [OF assms(1,7) i assms(6)]
  have "stage_flow ph (C (i - 1)) (P i)" using assms(8) [OF i f(2)] .
  have q: "queue_flow (pp_queue p' j) (P j) (C j)" if "lo \<le> j" "j < 3" for j
    using assms(1,5) that by (simp add: flow_at_def)
  have "flow_at lo p' (P(i := P i)) (C(i - 1 := C (i - 1)))"
    by (rule flow_stage [OF assms(1) f(1) assms(6,2,3,4)])
      (use assms(5,6) f(1) q \<open>stage_flow ph (C (i - 1)) (P i)\<close> in simp_all)
  then show ?thesis by (simp only: fun_upd_triv)
qed

section \<open>Every step keeps the flow\<close>

lemma enter_frame [simp]:
  "pp_seed (enter_stage clk uuid i inp p) = pp_seed p" "pp_queue (enter_stage clk uuid i inp p) = pp_queue p"
  "pp_result (enter_stage clk uuid i inp p) = pp_result p" "pp_error (enter_stage clk uuid i inp p) = pp_error p"
  "\<exists>tx. pp_task (enter_stage clk uuid i inp p) = (pp_task p)(i := Running tx inp)"
  by (auto simp: enter_stage_def new_tx_def Let_def)

lemma flow_inv_someI: "flow_at lo p P C \<Longrightarrow> pp_error p = None \<Longrightarrow> flow_inv lo p"
  by (auto simp: flow_inv_def)

lemma flow_take:
  assumes "flow_at lo p P C" and "pp_error p = None"
  shows "flow_inv lo (take_item se clk uuid i p)"
proof (cases "pp_task p i \<noteq> Starting \<or> i = 0 \<or> i > 3 \<or> pp_queue p (i - 1) = []")
  case True
  with assms flow_inv_someI show ?thesis by (auto simp: take_item_def split: list.split)
next
  case False
  then obtain it rest where q: "pp_queue p (i - 1) = it # rest" by (cases "pp_queue p (i - 1)") auto
  have t: "pp_task p i = Starting" "0 < i" "i \<le> 3" using False by auto
  let ?p = "queue_note ''QUEUE_GET'' (clk 0) (i - 1) it (p\<lparr>pp_queue := (pp_queue p)(i - 1 := rest)\<rparr>)"
  have lo: "lo \<le> i - 1" using stage_facts(1) [OF assms(1) _ t(2)] t assms(1) by (cases "i = 3") (auto simp: flow_at_def)
  then have qf: "queue_flow (it # rest) (P (i - 1)) (C (i - 1))"
    using assms(1) q t by (auto simp: flow_at_def dest: spec [of _ "i - 1"])
  then have rest: "rest = []" "queue_flow [] (P (i - 1)) (C (i - 1) + 1)" by (auto simp: queue_flow_simps)
  have other: "pp_queue ?p j = pp_queue p j" if "j \<noteq> i - 1" for j using that by simp
  have fl: "flow_inv lo (fail clk i e p1)" if "pp_task p1 = pp_task p" for p1 e
    by (rule flow_error) (use that assms(1) t in \<open>auto simp: flow_at_def\<close>)
  show ?thesis
  proof (cases "i = 3")
    case True
    then have c: "C 2 = 0" using assms(1) t by (simp add: flow_at_def)
    with qf True obtain env where it: "it = Packet env" by (auto simp: queue_flow_simps)
    have "flow_at lo (set_task 3 (Building env) (?p\<lparr>pp_gov := g, pp_notes := ns\<rparr>)) P (C(2 := 1))" for g ns
      by (rule flow_build [OF assms(1), where ph = "Building env"]) (use rest c True in simp_all)
    then have "flow_inv lo (set_task 3 (Building env) (?p\<lparr>pp_gov := g, pp_notes := ns\<rparr>))" for g ns
      by (rule flow_inv_someI) (simp add: assms(2))
    then show ?thesis
      using False q it True fl by (auto simp: take_item_def Let_def split: prod.split sum.split)
  next
    case i: False
    then have i3: "i < 3" using t by simp
    note f = stage_facts [OF assms(1) _ t(2) i3, unfolded t(1), simplified]
    have qi: "queue_flow (pp_queue p i) (P i) (C i)" using assms(1) f(1) i3 by (simp add: flow_at_def)
    have st: "flow_at lo p' (P(i := P i)) (C(i - 1 := C (i - 1) + 1))"
      if "pp_task p' = (pp_task p)(i := ph)" "pp_seed p' = pp_seed p" "pp_result p' = pp_result p"
        "pp_queue p' = pp_queue ?p" "stage_flow ph (C (i - 1) + 1) (P i)" for p' ph
      by (rule flow_stage [OF assms(1) f(1) i3 that(1-3) _ _ _ that(5)]) (use that(4) rest qi t(2) in auto)
    show ?thesis
    proof (cases it)
      case STOP
      with qf f have "stage_flow Stopping (C (i - 1) + 1) (P i)" by (auto simp: queue_flow_simps)
      then have "flow_inv lo (set_task i Stopping (queue_note ''QUEUE_PUT'' (clk 1) i STOP ?p))"
        by (intro flow_inv_someI [OF st]) (auto simp: assms(2))
      with False q STOP i show ?thesis by (auto simp: take_item_def Let_def)
    next
      case (Packet env)
      with qf f have s: "stage_flow (Running tx inp) (C (i - 1) + 1) (P i)" for tx inp by (auto simp: queue_flow_simps)
      have "flow_inv lo (enter_stage clk uuid i (Some env) (?p\<lparr>pp_gov := g\<rparr>))" for g
      proof -
        obtain tx where "pp_task (enter_stage clk uuid i (Some env) (?p\<lparr>pp_gov := g\<rparr>)) = (pp_task p)(i := Running tx (Some env))"
          using enter_frame(5) [of clk uuid i "Some env" "?p\<lparr>pp_gov := g\<rparr>"] by auto
        then show ?thesis by (intro flow_inv_someI [OF st [OF _ _ _ _ s]]) (auto simp: assms(2))
      qed
      with False q Packet i fl show ?thesis by (auto simp: take_item_def Let_def split: prod.split sum.split)
    qed
  qed
qed

lemma flow_phase:
  assumes "flow_at lo p P C" and "pp_error p' = None" and "pp_task p i \<notin> {Ended, Starting, Stopping}" and "i < 3"
    and "pp_task p' = (pp_task p)(i := ph)" "pp_seed p' = pp_seed p" "pp_result p' = pp_result p" "pp_queue p' = pp_queue p"
    and "(\<exists>tx inp. ph = Running tx inp) \<or> (\<exists>tx env. ph = Balloting tx env) \<or> i = 0 \<and> (\<exists>env. ph = Sending env) \<or>
      0 < i \<and> (\<exists>tx env. ph = Putting tx env)"
  shows "flow_inv lo p'"
proof -
  have "stage_flow ph c n" if "0 < i" "stage_flow (pp_task p i) c n" for c n
    using that assms(3,9) by (cases "pp_task p i") auto
  moreover have "intake_flow ph n" if "i = 0" "intake_flow (pp_task p i) n" for n
    using that assms(3,9) by (cases "pp_task p i") auto
  ultimately have "flow_at lo p' P C"
    by (intro flow_same [OF assms(1,5,6,7,8,4)]) (use assms(3) in auto)
  then show ?thesis by (rule flow_inv_someI) (rule assms(2))
qed

lemma flow_low:
  assumes "flow_at lo p P C"
  shows "pp_task p i = Running tx inp \<Longrightarrow> i < 3" "pp_task p i = Balloting tx env \<Longrightarrow> i < 3"
    "pp_task p i = Putting tx env \<Longrightarrow> 0 < i \<and> i < 3" "pp_task p i = Sending env \<Longrightarrow> i = 0"
    "pp_task p i = Building env \<Longrightarrow> i = 3" "pp_task p i = Stopping \<Longrightarrow> i < 3 \<or> i = 4"
proof -
  have c: "i = 0 \<or> (0 < i \<and> i < 3) \<or> i = 3 \<or> i = 4 \<or> 4 < i" by linarith
  have z: "pp_task p 0 \<noteq> Ended \<Longrightarrow> intake_flow (pp_task p 0) (P 0)" using intake_facts(4) [OF assms] .
  have s: "pp_task p i \<noteq> Ended \<Longrightarrow> 0 < i \<Longrightarrow> i < 3 \<Longrightarrow> stage_flow (pp_task p i) (C (i - 1)) (P i)" using stage_facts(2) [OF assms] .
  have b: "build_flow (pp_task p 3) (C 2) (pp_result p)" "\<And>i. 4 < i \<Longrightarrow> pp_task p i = Ended"
    "pp_task p 4 = Ended \<or> seed_flow lo (pp_task p 4) (P lo)" using assms by (auto simp: flow_at_def source_flow_def)
  show "pp_task p i = Running tx inp \<Longrightarrow> i < 3" "pp_task p i = Balloting tx env \<Longrightarrow> i < 3"
    "pp_task p i = Putting tx env \<Longrightarrow> 0 < i \<and> i < 3" "pp_task p i = Sending env \<Longrightarrow> i = 0"
    "pp_task p i = Building env \<Longrightarrow> i = 3" "pp_task p i = Stopping \<Longrightarrow> i < 3 \<or> i = 4"
    using c z s b by (elim disjE; force)+
qed

lemma flow_agent:
  assumes "flow_at lo p P C" and "pp_error p = None"
  shows "flow_inv lo (agent_write now i f mode data p)" "flow_inv lo (agent_unlink now i f p)"
proof -
  have "flow_inv lo (set_task i (Running tx1 inp) (tx_out tx1 w1 p))" if "pp_task p i = Running tx inp" for tx tx1 inp w1
    by (rule flow_phase [OF assms(1)]) (use that assms flow_low(1) [OF assms(1) that] in auto)
  then show "flow_inv lo (agent_write now i f mode data p)" "flow_inv lo (agent_unlink now i f p)"
    using flow_inv_someI [OF assms] by (auto simp: agent_write_def agent_unlink_def split: task_phase.split prod.split)
qed

lemma flow_return:
  assumes "flow_at lo p P C" and "pp_error p = None"
  shows "flow_inv lo (agent_return se clk uuid i r p)"
proof -
  have fl: "flow_inv lo (fail clk i e p1)" if "pp_task p1 = pp_task p" for p1 e
    by (rule flow_error) (use that assms(1) in \<open>auto simp: flow_at_def\<close>)
  have "flow_inv lo (set_task i (Balloting tx env) (p\<lparr>pp_gov := g\<rparr>))" if "pp_task p i = Running tx inp" for tx env inp g
    by (rule flow_phase [OF assms(1)]) (use that assms flow_low(1) [OF assms(1) that] in auto)
  moreover have "flow_inv lo (set_task i Ended (p\<lparr>pp_ckpt := k, pp_result := Some v\<rparr>))" if "pp_task p i = Building env" for env k v
  proof -
    have i: "i = 3" by (rule flow_low(5) [OF assms(1) that])
    have q: "queue_flow (pp_queue p 2) (P 2) (C 2)" using assms(1) by (simp add: flow_at_def)
    have c: "C 2 = 1" using assms(1) that i by (auto simp: flow_at_def)
    have "flow_at lo (set_task i Ended (p\<lparr>pp_ckpt := k, pp_result := Some v\<rparr>)) P (C(2 := C 2))"
      by (rule flow_build [OF assms(1), where ph = Ended]) (use that i c q in auto)
    then show ?thesis by (rule flow_inv_someI) (simp add: assms(2))
  qed
  ultimately show ?thesis
    using flow_inv_someI [OF assms] fl by (auto simp: agent_return_def split: task_phase.split sum.split prod.split)
qed

lemma flow_ballots:
  assumes "flow_at lo p P C" and "pp_error p = None"
  shows "flow_inv lo (ballots_in se uw clk i ord invt p)"
proof (cases "\<exists>tx env sch vs. pp_task p i = Balloting tx env \<and> dget handshake_schemas (en_schema_id env) = Some sch \<and>
    in_order ord (validators_for_stage se uw (pp_quorum p) (en_sequence env)) = Some vs")
  case False
  with flow_inv_someI [OF assms] show ?thesis by (simp add: ballots_idle)
next
  case True
  then obtain tx env sch vs where b: "pp_task p i = Balloting tx env" "dget handshake_schemas (en_schema_id env) = Some sch"
    "in_order ord (validators_for_stage se uw (pp_quorum p) (en_sequence env)) = Some vs" by blast
  have i3: "i < 3" by (rule flow_low(2) [OF assms(1) b(1)])
  obtain r p1 where v: "hold_vote clk (ballot_context env sch (stage_to_next (stage_name i)) invt) vs p = (r, p1)" by fastforce
  note f = hold_vote_frame [OF v] 
  have v2: "pp_seed p1 = pp_seed p" by (rule f)
  have fl: "flow_inv lo (fail clk i e p2)" if "\<And>j. j \<noteq> i \<Longrightarrow> pp_task p2 j = pp_task p j" for p2 e
    by (rule flow_error) (use that assms(1) in \<open>auto simp: flow_at_def\<close>)
  show ?thesis
    using b v
  proof (cases rule: ballots_cases [where clk = clk and invt = invt])
    case (refused e p2)
    have "pp_task p2 = pp_task p"
    proof -
      obtain k q where rc: "record_ckpt ''QUORUM_LOCKED_INTERVENTION'' (rd_now (clk 2)) env sch (stage_to_next (stage_name i))
           (collect_ballots (ballot_context env sch (stage_to_next (stage_name i)) invt) vs) p1 = (k, q)" by fastforce
      show ?thesis using refused(3) record_ckpt_frame [OF rc] f by (auto simp: rc split: quorum_error.splits)
    qed
    then show ?thesis unfolding refused(2) by (intro fl) simp
  next
    case (approved bs k p2 cr tx1 w1)
    note g = record_ckpt_frame [OF approved(2)]
    have "flow_inv lo (set_task i (Sending env) (queue_note kd rd q it (close_tx rd' bl tx1 (tx_out tx1 w1 p2))))" if "i = 0" for kd rd q it rd' bl
      by (rule flow_phase [OF assms(1)]) (use that b(1) assms(2) g f i3 in auto)
    moreover have "flow_inv lo (set_task i (Putting tx1 env) (queue_note kd rd q it (tx_out tx1 w1 p2)))" if "i \<noteq> 0" for kd rd q it
      by (rule flow_phase [OF assms(1)]) (use that b(1) assms(2) g f i3 in auto)
    ultimately show ?thesis
      unfolding approved(4) using fl g f by (auto split: sum.split)
  qed
qed

lemma queue_flow_put:
  "queue_flow xs a b \<Longrightarrow> length xs < 1 \<Longrightarrow> a = 0 \<Longrightarrow> queue_flow (xs @ [Packet e]) 1 b"
  "queue_flow xs a b \<Longrightarrow> length xs < 1 \<Longrightarrow> a = 1 \<Longrightarrow> queue_flow (xs @ [STOP]) 2 b"
  by (auto simp: queue_flow_simps)

lemma flow_put:
  assumes "flow_at lo p P C" and "pp_error p = None"
  shows "flow_inv lo (put_done clk i p)"
proof -
  have q: "lo \<le> j \<Longrightarrow> j < 3 \<Longrightarrow> queue_flow (pp_queue p j) (P j) (C j)" for j using assms(1) by (simp add: flow_at_def)
  have "flow_inv lo (set_task i Stopping (queue_note k r m it (put_item i (Packet env) p)))"
    if "pp_task p i = Sending env" "has_room i p" for env k r m it
  proof -
    have i: "i = 0" by (rule flow_low(4) [OF assms(1) that(1)])
    note f = intake_facts [OF assms(1), unfolded i [symmetric], unfolded that(1), simplified]
    have "flow_at lo (set_task i Stopping (queue_note k r m it (put_item i (Packet env) p))) (P(0 := 1)) C"
      by (rule flow_intake [OF assms(1), where ph = Stopping])
        (use that(1) i f queue_flow_put(1) [OF q] that(2) in \<open>simp_all add: has_room_def\<close>)
    then show ?thesis by (rule flow_inv_someI) (simp add: assms(2))
  qed
  moreover have "flow_inv lo (set_task i Starting (close_tx r b tx' (put_item i (Packet env) p)))"
    if "pp_task p i = Putting tx env" "has_room i p" for tx tx' env r b
  proof -
    have i: "0 < i" "i < 3" using flow_low(3) [OF assms(1) that(1)] by auto
    note f = stage_facts [OF assms(1) _ i, unfolded that(1), simplified]
    have "flow_at lo (set_task i Starting (close_tx r b tx' (put_item i (Packet env) p))) (P(i := 1)) (C(i - 1 := C (i - 1)))"
      by (rule flow_stage [OF assms(1) f(1) i(2), where ph = Starting])
        (use i f q [of "i - 1"] queue_flow_put(1) [OF q [of i]] that(2) in \<open>auto simp: has_room_def\<close>)
    then show ?thesis by (rule flow_inv_someI) (simp add: assms(2))
  qed
  moreover have "flow_inv lo (set_task i Ended (put_item (if i = 4 then pp_seed p else i) STOP p))"
    if "pp_task p i = Stopping" "has_room (if i = 4 then pp_seed p else i) p"
  proof -
    consider (zero) "i = 0" | (stage) "0 < i" "i < 3" | (seed) "i = 4"
      using flow_low(6) [OF assms(1), of i] \<open>pp_task p i = Stopping\<close> by linarith
    then have "\<exists>P' C'. flow_at lo (set_task i Ended (put_item (if i = 4 then pp_seed p else i) STOP p)) P' C'"
    proof cases
      case zero
      note f = intake_facts [OF assms(1), unfolded zero [symmetric], unfolded that(1), simplified]
      have "flow_at lo (set_task i Ended (put_item (if i = 4 then pp_seed p else i) STOP p)) (P(0 := 2)) C"
        by (rule flow_intake [OF assms(1), where ph = Ended])
          (use that zero f queue_flow_put(2) [OF q] in \<open>simp_all add: has_room_def\<close>)
      then show ?thesis by blast
    next
      case stage
      note f = stage_facts [OF assms(1) _ stage, unfolded that(1), simplified]
      have "flow_at lo (set_task i Ended (put_item (if i = 4 then pp_seed p else i) STOP p)) (P(i := 2)) (C(i - 1 := C (i - 1)))"
        by (rule flow_stage [OF assms(1) f(1) stage(2), where ph = Ended])
          (use stage f q [of "i - 1"] queue_flow_put(2) [OF q [of i]] that(2) in \<open>auto simp: has_room_def\<close>)
      then show ?thesis by blast
    next
      case seed
      have f: "pp_seed p = lo" "P lo = 1" "lo < 2" using assms(1) that(1) seed by (auto simp: flow_at_def source_flow_def)
      have "flow_at lo (set_task i Ended (put_item (if i = 4 then pp_seed p else i) STOP p)) (P(lo := 2)) C"
        by (rule flow_seed [OF assms(1), where ph = Ended])
          (use that seed f queue_flow_put(2) [OF q] in \<open>simp_all add: has_room_def\<close>)
      then show ?thesis by blast
    qed
    then show ?thesis by (auto intro: flow_inv_someI simp: assms(2))
  qed
  ultimately show ?thesis
    using flow_inv_someI [OF assms] by (auto simp: put_done_def Let_def split: task_phase.split)
qed

lemma flow_seed_begin:
  assumes "flow_at lo p P C" and "pp_error p = None"
  shows "flow_inv lo (seed_begin clk p)"
proof (cases "pp_task p 4 = Starting")
  case True
  then have f: "pp_seed p = lo" "P lo = 1" "lo < 3" using assms(1) by (auto simp: flow_at_def source_flow_def)
  have q: "queue_flow (pp_queue p lo) (P lo) (C lo)" by (rule flow_queue [OF assms(1) order_refl f(3)])
  have fs: "flow_at lo p' (P(lo := 1)) C"
    if "pp_task p' = (pp_task p)(4 := ph)" "pp_seed p' = pp_seed p" "pp_result p' = pp_result p" "pp_queue p' = pp_queue p"
      "seed_flow lo ph 1" for p' ph
    by (rule flow_seed [OF assms(1) _ that(1-3)]) (use that True f q in auto)
  then have "flow_inv lo (set_task 4 Ended p)" if "2 \<le> lo"
    using that assms(2) by (intro flow_inv_someI [OF fs]) auto
  moreover have "flow_inv lo (set_task 4 Stopping (queue_note k r lo it p))" if "\<not> 2 \<le> lo" for k r it
    using that assms(2) by (intro flow_inv_someI [OF fs]) auto
  ultimately show ?thesis using True f by (simp add: seed_begin_def)
next
  case False
  with flow_inv_someI [OF assms] show ?thesis by (simp add: seed_begin_def)
qed

lemma flow_begin:
  assumes "flow_at lo p P C" and "pp_error p = None"
  shows "flow_inv lo (intake_begin clk uuid p)"
proof (cases "pp_task p 0 = Starting")
  case True
  note f = intake_facts [OF assms(1), unfolded True, simplified]
  obtain tx where t: "pp_task (enter_stage clk uuid 0 None p) = (pp_task p)(0 := Running tx None)"
    using enter_frame(5) by blast
  have q: "queue_flow (pp_queue p 0) (P 0) (C 0)" by (rule flow_queue [OF assms(1)]) (simp_all add: f(1))
  have "flow_at lo (enter_stage clk uuid 0 None p) (P(0 := 0)) C"
    by (rule flow_intake [OF assms(1) _ t]) (use True f q in auto)
  then show ?thesis using True assms(2) by (auto intro!: flow_inv_someI simp: intake_begin_def)
next
  case False
  with flow_inv_someI [OF assms] show ?thesis by (simp add: intake_begin_def)
qed

lemma flow_step:
  assumes "flow_inv lo p"
  shows "flow_inv lo (pipe_step se uw p e)"
proof (cases "pp_error p")
  case None
  with assms obtain P C where f: "flow_at lo p P C" by (auto simp: flow_inv_def)
  show ?thesis
    using flow_begin [OF f None] flow_take [OF f None] flow_agent [OF f None] flow_return [OF f None] flow_ballots [OF f None]
      flow_put [OF f None] flow_seed_begin [OF f None] assms
    by (cases e) simp_all
next
  case (Some x)
  with assms have "pipe_step se uw p e = p" by (intro step_ended) (simp add: flow_inv_def)
  with assms show ?thesis by simp
qed

section \<open>Every run starts in the flow\<close>

lemma flow_new: "flow_inv 0 (new_pipe g m ck rt ex bc act tree w)"
proof -
  have "flow_at 0 (new_pipe g m ck rt ex bc act tree w) (\<lambda>q. 0) (\<lambda>q. 0)"
    by (simp add: flow_at_def queue_flow_simps source_flow_def new_pipe_def)
  then show ?thesis by (rule flow_inv_someI) (simp add: new_pipe_def)
qed

lemma flow_resume:
  assumes lo: "stage_index (cs_stage s) = Some lo"
    and ord: "in_order ord (validators_for_stage se uw m (cs_stage s)) \<noteq> None"
  shows "flow_inv lo (resume_pipe se uw clk ord invt s (new_pipe g m ck rt ex bc act tree w))"
proof -
  let ?p = "new_pipe g m ck rt ex bc act tree w"
  let ?env = "snapshot_envelope s" and ?next = "stage_to_next (cs_stage s)"
  let ?dead = "?p\<lparr>pp_task := \<lambda>i. Ended\<rparr>"
  obtain vs where vs: "in_order ord (validators_for_stage se uw m (cs_stage s)) = Some vs" using ord by blast
  show ?thesis
  proof (cases "dget handshake_schemas (cs_schema_id s)")
    case None
    then show ?thesis by (simp add: resume_pipe_def Let_def flow_inv_def)
  next
    case (Some sch)
    obtain r p1 where v: "hold_vote clk (ballot_context ?env sch ?next invt) vs ?dead = (r, p1)" by fastforce
    note f = hold_vote_frame [OF v]
    show ?thesis
    proof (cases r)
      case (Inl e)
      with Some vs v show ?thesis by (simp add: resume_pipe_def Let_def flow_inv_def f)
    next
      case (Inr bs)
      let ?q = "p1\<lparr>pp_notes := pp_notes p1 @ [Approved ?env bs]\<rparr>"
      obtain ok p2 where rc: "record_ckpt (gov_state (pp_gov p1)) (rd_now (clk 2)) ?env sch ?next bs ?q = (ok, p2)" by fastforce
      note g = record_ckpt_frame [OF rc]
      let ?p3 = "(put_item lo (Packet ?env) (queue_note ''QUEUE_PUT'' (clk 3) lo (Packet ?env) p2))
            \<lparr>pp_task := \<lambda>i. if lo < i \<and> i < 5 then Starting else Ended, pp_seed := lo\<rparr>"
      have lt: "lo < 3" using stage_index_name [OF lo] by simp
      have "flow_at lo ?p3 (\<lambda>q. if q = lo then 1 else 0) (\<lambda>q. 0)"
        using lt by (auto simp: flow_at_def queue_flow_simps source_flow_def g f)
      then have "flow_inv lo ?p3" by (rule flow_inv_someI) (simp add: g f new_pipe_def)
      then show ?thesis using Some vs v Inr rc lo by (simp add: resume_pipe_def Let_def)
    qed
  qed
qed

lemma reachable_flow: "pipe_reachable se uw m rt ex lo p \<Longrightarrow> flow_inv lo p"
  by (induction rule: pipe_reachable.induct) (auto intro: flow_new flow_resume flow_step)

section \<open>Some task can move\<close>

definition can_move :: "(schema_error \<Rightarrow> string) \<Rightarrow> (string \<Rightarrow> bool) \<Rightarrow> pipe \<Rightarrow> bool" where
  "can_move se uw p \<longleftrightarrow> (\<exists>e. pipe_step se uw p e \<noteq> p)"

lemma can_moveI: "pp_task (pipe_step se uw p e) i \<noteq> pp_task p i \<Longrightarrow> can_move se uw p"
  unfolding can_move_def by metis

lemma move_take:
  assumes "pp_task p i = Starting" and "0 < i" "i \<le> 3" and "pp_queue p (i - 1) \<noteq> []"
  shows "can_move se uw p"
proof -
  obtain it rest where q: "pp_queue p (i - 1) = it # rest" using assms(4) by (cases "pp_queue p (i - 1)") auto
  have e: "pp_task (enter_stage c u i inp p1) i \<noteq> Starting" for c u inp p1
  proof -
    obtain tx where "pp_task (enter_stage c u i inp p1) = (pp_task p1)(i := Running tx inp)" using enter_frame(5) by blast
    then show ?thesis by simp
  qed
  have "pp_task (take_item se c u i p) i \<noteq> Starting" for c u
    using assms q e by (auto simp: take_item_def Let_def split: item.split prod.split sum.split)
  then show ?thesis using assms(1) by (intro can_moveI [where e = "Take_Item c u i" and i = i for c u]) auto
qed

lemma move_agent:
  "pp_task p i = Running tx inp \<Longrightarrow> can_move se uw p" "pp_task p i = Building env \<Longrightarrow> can_move se uw p"
  by (rule can_moveI [where e = "Agent_Return c u i (Inl x)" and i = i for c u x]; auto simp: agent_return_def)+

lemma move_ballots:
  assumes "pipe_inv se uw m rt ex lo p" and "pp_task p i = Balloting tx env"
  shows "can_move se uw p"
proof -
  have "good i env" using pipe_tasks [OF assms(1), of i] assms(2) by simp
  then obtain sch where sch: "dget handshake_schemas (en_schema_id env) = Some sch" by (auto simp: good_def)
  let ?vs = "validators_for_stage se uw (pp_quorum p) (en_sequence env)"
  have vs: "in_order [0..<length ?vs] ?vs = Some ?vs" by (simp add: in_order_def map_nth)
  have "pp_task (ballots_in se uw c i [0..<length ?vs] None p) i \<noteq> pp_task p i" for c
  proof -
    obtain r p1 where v: "hold_vote c (ballot_context env sch (stage_to_next (stage_name i)) None) ?vs p = (r, p1)" by fastforce
    show ?thesis
      using assms(2) sch vs v
      by (cases rule: ballots_cases [where clk = c and invt = None]) (auto simp: assms(2) split: sum.split)
  qed
  then show ?thesis by (intro can_moveI [where e = "Ballots_In c i [0..<length ?vs] None" and i = i for c]) simp
qed

lemma move_put:
  assumes "pp_task p i = Sending env \<or> pp_task p i = Putting tx env \<or> pp_task p i = Stopping \<and> i \<noteq> 4" and "has_room i p"
  shows "can_move se uw p"
  by (rule can_moveI [where e = "Put_Done c i" and i = i for c]) (use assms in \<open>auto simp: put_done_def Let_def\<close>)

lemma move_seed:
  assumes "pp_task p 4 = Starting \<or> pp_task p 4 = Stopping \<and> has_room (pp_seed p) p"
  shows "can_move se uw p"
proof -
  have "pp_task p 4 = Starting \<Longrightarrow> pp_task (seed_begin c p) 4 \<noteq> Starting" for c by (simp add: seed_begin_def)
  moreover have "pp_task p 4 = Stopping \<Longrightarrow> has_room (pp_seed p) p \<Longrightarrow> pp_task (put_done c 4 p) 4 \<noteq> Stopping" for c
    by (simp add: put_done_def Let_def)
  ultimately show ?thesis
    using assms can_moveI [of se uw p "Seed_Begin c" 4 for c] can_moveI [of se uw p "Put_Done c 4" 4 for c] by auto
qed

text \<open>A queue that is empty before its stop mark has a task behind it that can move, or the
  run was resumed at the last stage, which puts no stop mark.\<close>

lemma starved:
  assumes "flow_at lo p P C" and "pipe_inv se uw m rt ex lo p" and "lo \<le> i" "i < 3" and "pp_queue p i = []" and "P i < 2"
  shows "can_move se uw p \<or> lo = 2 \<and> pp_task p 4 = Ended \<and> P i = 1"
  using assms(3-6)
proof (induction i rule: less_induct)
  case (less i)
  have room: "has_room i p" using less.prems by (simp add: has_room_def)
  show ?case
  proof (cases "i = lo")
    case True
    then have "source_flow lo (pp_seed p) (pp_task p) (P i)" using assms(1) by (simp add: flow_at_def)
    then consider "pp_seed p = lo" "seed_flow lo (pp_task p 4) (P i)" | "lo = 0" "intake_flow (pp_task p 0) (P i)"
      by (auto simp: source_flow_def)
    then show ?thesis
    proof cases
      case 1
      with less.prems room True move_seed [of p se uw] show ?thesis by (cases "pp_task p 4") (auto split: if_splits)
    next
      case 2
      show ?thesis
      proof (cases "pp_task p 0")
        case Starting
        obtain tx where "pp_task (enter_stage (\<lambda>_. undefined) [] 0 None p) = (pp_task p)(0 := Running tx None)"
          using enter_frame(5) by blast
        then have "can_move se uw p"
          using Starting by (intro can_moveI [where e = "Intake_Begin (\<lambda>_. undefined) []" and i = 0]) (simp add: intake_begin_def)
        then show ?thesis ..
      qed (use 2 True room less.prems move_agent move_ballots [OF assms(2)] move_put [of p 0] in \<open>auto split: if_splits\<close>)
    qed
  next
    case False
    then have i: "lo < i" using less.prems by simp
    then have st: "stage_flow (pp_task p i) (C (i - 1)) (P i)" using assms(1) less.prems by (simp add: flow_at_def)
    show ?thesis
    proof (cases "pp_task p i")
      case Starting
      show ?thesis
      proof (cases "pp_queue p (i - 1) = []")
        case True
        have "P (i - 1) = C (i - 1)"
          using flow_queue [OF assms(1), of "i - 1"] i less.prems True by (simp add: queue_flow_simps)
        with st Starting less.prems have "P (i - 1) < 2" by simp
        with less.IH [of "i - 1"] True i less.prems show ?thesis by auto
      qed (use move_take [of p i] Starting i less.prems in simp)
    qed (use st room less.prems move_agent move_ballots [OF assms(2)] move_put [of p i] in \<open>auto split: if_splits\<close>)
  qed
qed

text \<open>A queue that got its stop mark has only ended tasks before it.\<close>

lemma finished_before:
  assumes "flow_at lo p P C" and "lo \<le> i" "i < 3" and "P i = 2" and "j \<le> i \<or> j = 4"
  shows "pp_task p j = Ended"
  using assms(2-5)
proof (induction i rule: less_induct)
  case (less i)
  show ?case
  proof (cases "i = lo")
    case True
    have "\<And>k. k < lo \<Longrightarrow> pp_task p k = Ended" "source_flow lo (pp_seed p) (pp_task p) 2"
      using assms(1) less.prems(3) True by (auto simp: flow_at_def)
    moreover from this(2) have "pp_task p 4 = Ended" "pp_task p lo = Ended"
      by (cases "pp_task p 4"; cases "pp_task p 0"; auto simp: source_flow_def)+
    ultimately show ?thesis using less.prems(4) True by (metis le_neq_implies_less)
  next
    case False
    then have i: "lo < i" using less.prems by simp
    then have "stage_flow (pp_task p i) (C (i - 1)) 2" using assms(1) less.prems by (auto simp: flow_at_def)
    then have e: "pp_task p i = Ended" "C (i - 1) = 2" by (cases "pp_task p i"; simp)+
    have "queue_flow (pp_queue p (i - 1)) (P (i - 1)) (C (i - 1))"
      by (rule flow_queue [OF assms(1)]) (use i less.prems in auto)
    then have "P (i - 1) = 2" using e(2) by (simp add: queue_flow_def)
    with less.IH [of "i - 1"] i less.prems e(1) show ?thesis by (cases "j = i") auto
  qed
qed

lemma flow_moves:
  assumes "flow_at lo p P C" and "pipe_inv se uw m rt ex lo p"
  shows "(\<forall>i. pp_task p i = Ended) \<and> pp_result p \<noteq> None \<or> can_move se uw p"
proof -
  have lo: "lo < 3" and b: "build_flow (pp_task p 3) (C 2) (pp_result p)" and hi: "\<And>i. 4 < i \<Longrightarrow> pp_task p i = Ended"
    using assms(1) by (auto simp: flow_at_def)
  have q: "queue_flow (pp_queue p 2) (P 2) (C 2)" using flow_queue [OF assms(1)] lo by simp
  have st: "can_move se uw p \<or> lo = 2 \<and> pp_task p 4 = Ended \<and> P 2 = 1" if "pp_queue p 2 = []" "P 2 < 2"
    using starved [OF assms, of 2] that lo by simp
  show ?thesis
  proof (cases "pp_task p 3")
    case Starting
    then show ?thesis
      using move_take [of p 3] st b q by (cases "pp_queue p 2") (auto simp: queue_flow_simps)
  next
    case (Building env)
    then show ?thesis using move_agent(2) by blast
  next
    case Ended
    then have c: "C 2 = 1" "pp_result p \<noteq> None" using b by auto
    have all: "\<forall>i. pp_task p i = Ended" if "\<And>j. j < 3 \<or> j = 4 \<Longrightarrow> pp_task p j = Ended"
      using that hi Ended by (metis less_antisym nat_neq_iff numeral_3_eq_3 numeral_eq_Suc eval_nat_numeral(2)
          Suc_lessI semiring_norm(26) semiring_norm(27))
    show ?thesis
    proof (cases "P 2 = 2")
      case True
      have "pp_task p j = Ended" if "j < 3 \<or> j = 4" for j
        using finished_before [OF assms(1) _ _ True, of j] lo that by auto
      with all c show ?thesis by blast
    next
      case False
      with q c have e: "pp_queue p 2 = []" "P 2 = 1" by (cases "pp_queue p 2"; auto simp: queue_flow_simps)+
      have "pp_task p j = Ended" if "lo = 2" "pp_task p 4 = Ended" "j < 3 \<or> j = 4" for j
        using that assms(1) e(2) by (cases "j < 2"; cases "j = 2") (auto simp: flow_at_def source_flow_def)
      with all c st e show ?thesis by auto
    qed
  qed (use b in simp_all)
qed

section \<open>Properties\<close>

text \<open>C6: the pipeline never deadlocks. In every state a run reaches, some task can still take a step,
  or all tasks have ended and the run has either returned a build or raised.\<close>

theorem pipeline_never_stuck:
  assumes "pipe_reachable se uw m rt ex lo p"
  shows "(\<exists>e. pipe_step se uw p e \<noteq> p) \<or>
    (\<forall>i. pp_task p i = Ended) \<and> (pp_result p \<noteq> None \<or> pp_error p \<noteq> None)"
proof (cases "pp_error p")
  case None
  with reachable_flow [OF assms] obtain P C where "flow_at lo p P C" by (auto simp: flow_inv_def)
  from flow_moves [OF this reachable_inv [OF assms]] show ?thesis by (auto simp: can_move_def)
next
  case (Some e)
  with reachable_flow [OF assms] show ?thesis by (simp add: flow_inv_def)
qed

theorem pipeline_never_stuck_witness:
  "\<exists>e. pipe_step (\<lambda>_. []) (\<lambda>_. False) demo_resumed e \<noteq> demo_resumed"
  using pipeline_never_stuck [OF demo_resumed_reachable] demo_resumed_state(2) by (metis task_phase.distinct(13))

end
