(* ===== verification/Pipeline_Resume.thy ===== *)
theory Pipeline_Resume
  imports Pipeline_Safety
begin

text \<open>
  A stage that was approved and recorded in the checkpoint (\<^verbatim>\<open>core/recovery.py\<close>) can be
  resumed (\<^verbatim>\<open>core/handshake.py\<close>): the reader returns the payload with its keys sorted, which
  neither the schema check nor the signature can tell from the payload that was recorded.
\<close>

section \<open>Sorting keys keeps a payload valid\<close>

lemma scalar_canon: "scalar_ok t v \<Longrightarrow> canon v = v"
  by (cases v) (auto simp: scalar_ok_def)

lemma wf_member: "wf_json (JObj d) \<Longrightarrow> dget d k = Some w \<Longrightarrow> wf_json w"
  by (induction d) (auto split: if_splits)

lemma conforms_canon: "conforms sd v \<Longrightarrow> wf_json v \<Longrightarrow> conforms sd (canon v)"
proof (induction rule: conforms.induct)
  case (scalar sd t v)
  then show ?case using scalar_canon conforms.scalar by metis
next
  case (array_any sd xs)
  then show ?case by (simp add: conforms.array_any)
next
  case (array_of sd items xs)
  then have "conforms items y" if "y \<in> set (map canon xs)" for y
    using that by (auto simp: list_all_iff)
  then have "conforms sd (JArr (map canon xs))" by (intro conforms.array_of [OF array_of.hyps(1,2)])
  then show ?case by simp
next
  case (object sd d)
  have wd: "wf_dict d" using object.prems by (simp add: wf_dict_def)
  have has: "dhas (canon_dict d) k \<longleftrightarrow> dhas d k" for k by (simp add: dhas_def dget_canon_dict [OF wd])
  have "\<exists>psd. ps = JObj psd \<and> conforms psd w" if "(k, ps) \<in> set (obj_items (opt_properties sd))" "dget (canon_dict d) k = Some w" for k ps w
  proof -
    from that(2) obtain u where u: "dget d k = Some u" "w = canon u" by (auto simp: dget_canon_dict [OF wd])
    from wf_member [OF object.prems u(1)] object.IH [OF that(1) u(1)] u(2) show ?thesis by blast
  qed
  then have "conforms sd (JObj (canon_dict d))"
    using object.hyps has by (intro conforms.object) auto
  then show ?case by (simp add: canon_JObj del: canon.simps)
qed

lemma payload_signature_canon: "signature_for sch (JObj (canon_dict d)) = signature_for sch (JObj d)"
  using dumps_canon [of "JObj d"] by (simp add: signature_for_def canonical_json_def canon_JObj del: canon.simps dumps.simps)

lemma good_envelope_valid:
  assumes "good i env"
  shows "fst (validate_envelope se clk env (stage_name i) g) = Inr ()"
proof -
  obtain sch where "dget handshake_schemas (en_schema_id env) = Some sch" "en_sequence env = stage_name i"
    "validate_against_schema (JObj (en_payload env)) (schema_def sch) = Inr ()"
    "en_signature env = signature_for sch (JObj (en_payload env))"
    using assms by (auto simp: good_def validate_against_schema_def validate_node_iff)
  then show ?thesis by (simp add: validate_envelope_def require_schema_def validate_payload_def Let_def)
qed

lemma schema_keys: "dget handshake_schemas k = Some sch \<Longrightarrow> schema_id sch = k \<and> k \<noteq> []"
  by (auto simp: handshake_schemas_def split: if_splits)

lemma stage_name_known: "i < 3 \<Longrightarrow> stage_name i \<in> set stages \<and> stage_index (stage_name i) = Some i"
  by (auto simp: stage_name_def stages_def stage_index_def less_Suc_eq numeral_3_eq_3)

section \<open>Properties\<close>

text \<open>C7: a recorded stage resumes. After a stage with a valid envelope was recorded, the next run of the
  same business case loads a snapshot of that stage, and the envelope it puts back into the
  queue passes the check of the task that takes it.\<close>

theorem recorded_stage_resumes:
  assumes "good i env" and "i < 3" and "dget handshake_schemas (en_schema_id env) = Some sch"
    and "record_ckpt gs now env sch (stage_to_next (stage_name i)) bs p = (ok, p')"
    and "pp_ckpt p = Some (new_manager business_case f lg)" and "gs \<in> set governance_states"
    and "en_role env \<noteq> []" and "en_correlation env \<noteq> []"
    and "wf_json (JObj (en_payload env))" and "wf_json (JObj (ballots_json bs))" and "wf_flt (en_created env)" and "wf_flt now"
  shows "ok \<and> (\<exists>s. map_option load (pp_ckpt p') = Some (Inr (Some s)) \<and> stage_index (cs_stage s) = Some i \<and>
    cs_governance s = gs \<and> (\<forall>se clk g. fst (validate_envelope se clk (snapshot_envelope s) (stage_name i) g) = Inr ()))"
proof -
  let ?m = "new_manager business_case f lg"
  let ?s = "stage_snapshot ?m gs (en_sequence env) sch (en_payload env) (en_signature env) (en_role env) (en_correlation env)
      (en_created env) (stage_to_next (stage_name i)) (ballots_json bs) now"
  have sq: "en_sequence env = stage_name i" and cf: "conforms (schema_def sch) (JObj (en_payload env))"
    and sg: "en_signature env = signature_for sch (JObj (en_payload env))" and key: "schema_id sch = en_schema_id env" "en_schema_id env \<noteq> []"
    using assms(1,3) schema_keys [OF assms(3)] by (auto simp: good_def)
  have ok: "ok" and ck: "pp_ckpt p' = Some (?m\<lparr>ck_file := Some (atomic_write_json (to_json ?s))\<rparr>)"
    using assms(4,5) cf sg by (auto simp: record_ckpt_def record_stage_iff)
  have "is_obj (snd kv)" if "kv \<in> set (ballots_json bs)" for kv
    using that by (auto simp: ballots_json_def)
  then have "snapshot_ok ?s" "snapshot_wf ?s" "cs_token ?s = ck_token ?m"
    using assms(6-12) key stage_name_known [OF assms(2)]
    by (simp_all add: snapshot_ok_def snapshot_wf_def stage_snapshot_def new_manager_def sg sq)
  from load_written [OF this] have ld: "map_option load (pp_ckpt p') = Some (Inr (Some (canon_snapshot ?s)))" by (simp add: ck)
  have "good i (snapshot_envelope (canon_snapshot ?s))"
    using assms(1,3) key cf sg conforms_canon [OF cf] assms(9)
    by (simp add: good_def snapshot_envelope_def canon_snapshot_def stage_snapshot_def payload_signature_canon canon_JObj del: canon.simps wf_json.simps)
  with ok ld good_envelope_valid stage_name_known [OF assms(2)] sq show ?thesis
    by (auto simp: canon_snapshot_def stage_snapshot_def)
qed

theorem recorded_stage_resumes_witness:
  "\<exists>s p'. record_ckpt ''Running'' ''0.0'' (snapshot_envelope demo_snap) demo_sch (stage_to_next (stage_name 2)) []
      (new_pipe demo_gov Quorum.demo_manager (Some (new_manager ''b'' None None)) [''r''] [] ''b'' None [] demo_world) = (True, p') \<and>
    map_option load (pp_ckpt p') = Some (Inr (Some s)) \<and>
    fst (validate_envelope (\<lambda>_. []) demo_clk (snapshot_envelope s) (stage_name 2) demo_gov) = Inr ()"
proof -
  let ?env = "snapshot_envelope demo_snap"
  let ?p = "new_pipe demo_gov Quorum.demo_manager (Some (new_manager ''b'' None None)) [''r''] [] ''b'' None [] demo_world"
  have e: "good 2 ?env"
    using reachable_handing [OF demo_built_reachable] demo_built_note by (simp add: handing_inv_def)
  have v: "en_schema_id ?env = ''risk_to_build_execution.v1''" "en_role ?env \<noteq> []" "en_correlation ?env \<noteq> []"
    "en_created ?env = ''0.0''" "en_payload ?env = demo_payload"
    by (simp_all add: snapshot_envelope_def demo_snap_def)
  have w: "wf_json (JObj demo_payload)" by (simp add: demo_payload_def)
  obtain ok p' where r: "record_ckpt ''Running'' ''0.0'' ?env demo_sch (stage_to_next (stage_name 2)) [] ?p = (ok, p')" by fastforce
  from recorded_stage_resumes [OF e _ _ r, of "''b''" None None] v w demo_schema_known r show ?thesis
    by (simp add: governance_states_def wf_flt_zero ballots_json_def) metis
qed

end
