(* ===== verification/Missions.thy ===== *)
theory Missions
  imports Json_Pretty Json_Lines Py_Convert
begin

text \<open>
  \<^verbatim>\<open>src/mission_engine/contracts.py\<close>: missions, their tasks, approval and consensus
  records, the validators of their JSON forms and the transitions of an approval. The lemmas
  show that what the constructors make passes the validators and reads back.

  \<^verbatim>\<open>utc_now()\<close> is the argument \<open>now\<close>, the hexadecimal text of \<^verbatim>\<open>uuid4\<close> the
  argument \<open>uuid\<close>. Statuses and actions are texts, as the literal types are not checked.
\<close>

datatype mission_error =
    ValueError string
  | MissionExists string
  | MissionMissing
  | MalformedFile

definition MISSION_STATUSES :: "string list" where
  "MISSION_STATUSES =
     [''draft'', ''planned'', ''awaiting_approval'', ''scheduled'', ''running'', ''validating'', ''completed'', ''failed'',
      ''cancelled'', ''archived'']"

definition TASK_STATUSES :: "string list" where
  "TASK_STATUSES = [''pending'', ''queued'', ''running'', ''blocked'', ''completed'', ''failed'', ''skipped'']"

definition APPROVAL_ACTIONS :: "string list" where
  "APPROVAL_ACTIONS = [''approve'', ''reject'', ''request_changes'', ''expire'']"

definition APPROVAL_STATUSES :: "string list" where
  "APPROVAL_STATUSES = [''requested'', ''approved'', ''rejected'', ''changes_requested'', ''expired'', ''cancelled'']"

definition CONSENSUS_TYPES :: "string list" where
  "CONSENSUS_TYPES = [''twin'', ''quorum'', ''human'', ''policy'', ''system'']"

definition CONSENSUS_DECISIONS :: "string list" where
  "CONSENSUS_DECISIONS = [''approved'', ''rejected'', ''abstained'', ''changes_requested'', ''failed'']"

definition new_id :: "string \<Rightarrow> string \<Rightarrow> string" where
  "new_id prefix uuid = prefix @ ''_'' @ uuid"

section \<open>Reading fields\<close>

definition the_str :: "jval \<Rightarrow> string" where
  "the_str v = (case v of JStr s \<Rightarrow> s | _ \<Rightarrow> [])"

definition filled :: "jval \<Rightarrow> bool" where
  "filled v \<longleftrightarrow> (case v of JStr s \<Rightarrow> strip s \<noteq> [] | _ \<Rightarrow> False)"

definition require_str :: "jdict \<Rightarrow> string \<Rightarrow> (mission_error, unit) res" where
  "require_str d k =
     require (filled (jget d k))
       (ValueError (''mission/task field '' @ [CHR 0x27] @ k @ [CHR 0x27] @ '' must be a non-empty string''))"

definition require_list :: "jdict \<Rightarrow> string \<Rightarrow> (mission_error, unit) res" where
  "require_list d k =
     require (is_arr (jget d k)) (ValueError (''mission/task field '' @ [CHR 0x27] @ k @ [CHR 0x27] @ '' must be a list''))"

definition require_in :: "jdict \<Rightarrow> string \<Rightarrow> string list \<Rightarrow> string \<Rightarrow> (mission_error, unit) res" where
  "require_in d k allowed what =
     require (the_str (jget d k) \<in> set allowed) (ValueError (''invalid '' @ what @ '': '' @ the_str (jget d k)))"

definition optional_str :: "jval \<Rightarrow> string option" where
  "optional_str v = (case v of JStr s \<Rightarrow> if strip s \<noteq> [] then Some (strip s) else None | _ \<Rightarrow> None)"

definition str_list :: "jval \<Rightarrow> string list" where
  "str_list v = (case v of JArr xs \<Rightarrow> map the_str (filter is_str xs) | _ \<Rightarrow> [])"

definition the_obj :: "jval \<Rightarrow> jdict" where
  "the_obj v = (case v of JObj d \<Rightarrow> d | _ \<Rightarrow> [])"

definition dict_list :: "jval \<Rightarrow> jdict list" where
  "dict_list v = (case v of JArr xs \<Rightarrow> map the_obj (filter is_obj xs) | _ \<Rightarrow> [])"

definition int_value :: "jval \<Rightarrow> int \<Rightarrow> int" where
  "int_value v dflt = (if is_bool v then dflt else case to_int v of None \<Rightarrow> dflt | Some i \<Rightarrow> i)"

definition opt_json :: "string option \<Rightarrow> jval" where
  "opt_json s = (case s of None \<Rightarrow> JNull | Some t \<Rightarrow> JStr t)"

definition str_or :: "string option \<Rightarrow> string \<Rightarrow> string" where
  "str_or s t = (case s of None \<Rightarrow> t | Some u \<Rightarrow> if u = [] then t else u)"

definition checks :: "(mission_error, unit) res list \<Rightarrow> (mission_error, unit) res" where
  "checks rs = each (\<lambda>r. r) rs"

text \<open>\<^verbatim>\<open>str(v or default)\<close>; the text of a container is the parameter \<open>py_str\<close>.\<close>

definition str_of_or :: "(jval \<Rightarrow> string) \<Rightarrow> jval \<Rightarrow> string \<Rightarrow> string" where
  "str_of_or py_str v dflt =
     (if \<not> truthy v then dflt
      else case v of JStr s \<Rightarrow> s | JInt i \<Rightarrow> show_int i | JBool b \<Rightarrow> ''True'' | _ \<Rightarrow> py_str v)"

section \<open>Tasks\<close>

record mission_task =
  mt_id :: string
  mt_mission :: string
  mt_instruction :: string
  mt_repository :: "string option"
  mt_primary :: "string option"
  mt_twin :: "string option"
  mt_tools :: "string list"
  mt_status :: string
  mt_priority :: int
  mt_depends :: "string list"
  mt_created :: string
  mt_updated :: string
  mt_queue :: "jdict option"

definition task_to_dict :: "mission_task \<Rightarrow> jdict" where
  "task_to_dict t =
     [(''task_id'', JStr (mt_id t)), (''mission_id'', JStr (mt_mission t)), (''instruction'', JStr (mt_instruction t)),
      (''target_repository'', opt_json (mt_repository t)), (''assigned_primary_agent'', opt_json (mt_primary t)),
      (''assigned_twin_agent'', opt_json (mt_twin t)), (''required_tools'', JArr (map JStr (mt_tools t))),
      (''status'', JStr (mt_status t)), (''priority'', JInt (mt_priority t)), (''depends_on'', JArr (map JStr (mt_depends t))),
      (''created_utc'', JStr (mt_created t)), (''updated_utc'', JStr (mt_updated t)),
      (''queue_payload'', (case mt_queue t of None \<Rightarrow> JNull | Some d \<Rightarrow> JObj d))]"

definition validate_task_dict :: "jdict \<Rightarrow> (mission_error, unit) res" where
  "validate_task_dict d =
     checks [require_str d ''task_id'', require_str d ''mission_id'', require_str d ''instruction'', require_str d ''status'',
       require_in d ''status'' TASK_STATUSES ''task status'', require_str d ''created_utc'', require_str d ''updated_utc'',
       require_list d ''required_tools'', require_list d ''depends_on'']"

text \<open>The validated fields are non-empty texts, so their defaults are not used.\<close>

definition task_from_dict :: "jdict \<Rightarrow> (mission_error, mission_task) res" where
  "task_from_dict d =
     res_bind (validate_task_dict d) (\<lambda>_. Inr
       \<lparr>mt_id = the_str (jget d ''task_id''), mt_mission = the_str (jget d ''mission_id''),
        mt_instruction = the_str (jget d ''instruction''), mt_repository = optional_str (jget d ''target_repository''),
        mt_primary = optional_str (jget d ''assigned_primary_agent''), mt_twin = optional_str (jget d ''assigned_twin_agent''),
        mt_tools = str_list (jget d ''required_tools''), mt_status = the_str (jget d ''status''),
        mt_priority = int_value (jget d ''priority'') 0, mt_depends = str_list (jget d ''depends_on''),
        mt_created = the_str (jget d ''created_utc''), mt_updated = the_str (jget d ''updated_utc''),
        mt_queue = (case jget d ''queue_payload'' of JObj q \<Rightarrow> Some q | _ \<Rightarrow> None)\<rparr>)"

definition create_task ::
  "string \<Rightarrow> string \<Rightarrow> string \<Rightarrow> string \<Rightarrow> string option \<Rightarrow> string option \<Rightarrow> string option \<Rightarrow> int \<Rightarrow> string list
    \<Rightarrow> string list \<Rightarrow> string option \<Rightarrow> (mission_error, mission_task) res" where
  "create_task now uuid mission_id instruction repository primary twin priority tools depends task_id =
     (let t = \<lparr>mt_id = str_or task_id (new_id ''task'' uuid), mt_mission = mission_id, mt_instruction = strip instruction,
         mt_repository = repository, mt_primary = primary, mt_twin = twin, mt_tools = tools, mt_status = ''pending'',
         mt_priority = priority, mt_depends = depends, mt_created = now, mt_updated = now, mt_queue = None\<rparr>
      in res_bind (validate_task_dict (task_to_dict t)) (\<lambda>_. Inr t))"

section \<open>Approvals\<close>

record approval =
  ap_id :: string
  ap_mission :: string
  ap_action :: string
  ap_status :: string
  ap_requested_by :: string
  ap_risk :: string
  ap_task :: "string option"
  ap_reviewed_by :: "string option"
  ap_reason :: "string option"
  ap_created :: string
  ap_updated :: string
  ap_expires :: "string option"
  ap_metadata :: jdict

definition approval_to_dict :: "approval \<Rightarrow> jdict" where
  "approval_to_dict a =
     [(''approval_id'', JStr (ap_id a)), (''mission_id'', JStr (ap_mission a)), (''task_id'', opt_json (ap_task a)),
      (''action'', JStr (ap_action a)), (''status'', JStr (ap_status a)), (''requested_by'', JStr (ap_requested_by a)),
      (''reviewed_by'', opt_json (ap_reviewed_by a)), (''reason'', opt_json (ap_reason a)), (''risk_tier'', JStr (ap_risk a)),
      (''created_utc'', JStr (ap_created a)), (''updated_utc'', JStr (ap_updated a)), (''expires_utc'', opt_json (ap_expires a)),
      (''metadata'', JObj (ap_metadata a))]"

definition validate_approval_record_dict :: "jdict \<Rightarrow> (mission_error, unit) res" where
  "validate_approval_record_dict d =
     checks [require_str d ''approval_id'', require_str d ''mission_id'', require_str d ''action'',
       require_in d ''action'' APPROVAL_ACTIONS ''approval action'', require_str d ''status'',
       require_in d ''status'' APPROVAL_STATUSES ''approval status'', require_str d ''requested_by'', require_str d ''risk_tier'',
       require_str d ''created_utc'', require_str d ''updated_utc'',
       require (is_obj (jget d ''metadata'')) (ValueError ''approval metadata must be an object'')]"

definition approval_from_dict :: "jdict \<Rightarrow> (mission_error, approval) res" where
  "approval_from_dict d =
     res_bind (validate_approval_record_dict d) (\<lambda>_. Inr
       \<lparr>ap_id = the_str (jget d ''approval_id''), ap_mission = the_str (jget d ''mission_id''),
        ap_action = the_str (jget d ''action''), ap_status = the_str (jget d ''status''),
        ap_requested_by = the_str (jget d ''requested_by''), ap_risk = the_str (jget d ''risk_tier''),
        ap_task = optional_str (jget d ''task_id''), ap_reviewed_by = optional_str (jget d ''reviewed_by''),
        ap_reason = optional_str (jget d ''reason''), ap_created = the_str (jget d ''created_utc''),
        ap_updated = the_str (jget d ''updated_utc''), ap_expires = optional_str (jget d ''expires_utc''),
        ap_metadata = the_obj (jget d ''metadata'')\<rparr>)"

definition create_approval_request ::
  "string \<Rightarrow> string \<Rightarrow> string \<Rightarrow> string \<Rightarrow> string \<Rightarrow> string option \<Rightarrow> string option \<Rightarrow> string option \<Rightarrow> jdict
    \<Rightarrow> string option \<Rightarrow> (mission_error, approval) res" where
  "create_approval_request now uuid mission_id requested_by risk_tier task_id reason expires metadata approval_id =
     (let a = \<lparr>ap_id = str_or approval_id (new_id ''approval'' uuid), ap_mission = mission_id, ap_action = ''approve'',
         ap_status = ''requested'', ap_requested_by = requested_by, ap_risk = risk_tier, ap_task = task_id,
         ap_reviewed_by = None, ap_reason = reason, ap_created = now, ap_updated = now, ap_expires = expires,
         ap_metadata = metadata\<rparr>
      in res_bind (validate_approval_record_dict (approval_to_dict a)) (\<lambda>_. Inr a))"

text \<open>The record before the call is an object or its dictionary; \<open>reviewed_by or current\<close>.\<close>

definition transition_approval ::
  "string \<Rightarrow> approval + jdict \<Rightarrow> string \<Rightarrow> string \<Rightarrow> string option \<Rightarrow> string option \<Rightarrow> (mission_error, approval) res" where
  "transition_approval now rec action status reviewed_by reason =
     res_bind (case rec of Inl a \<Rightarrow> Inr a | Inr d \<Rightarrow> approval_from_dict d) (\<lambda>cur.
       (let a = cur\<lparr>ap_action := action, ap_status := status,
           ap_reviewed_by := (case reviewed_by of None \<Rightarrow> ap_reviewed_by cur | Some r \<Rightarrow> if r = [] then ap_reviewed_by cur else Some r),
           ap_reason := (case reason of None \<Rightarrow> ap_reason cur | Some r \<Rightarrow> Some r), ap_updated := now\<rparr>
        in res_bind (validate_approval_record_dict (approval_to_dict a)) (\<lambda>_. Inr a)))"

definition approve_record ::
  "string \<Rightarrow> approval + jdict \<Rightarrow> string \<Rightarrow> string option \<Rightarrow> (mission_error, approval) res" where
  "approve_record now rec reviewed_by reason = transition_approval now rec ''approve'' ''approved'' (Some reviewed_by) reason"

definition reject_record ::
  "string \<Rightarrow> approval + jdict \<Rightarrow> string \<Rightarrow> string option \<Rightarrow> (mission_error, approval) res" where
  "reject_record now rec reviewed_by reason = transition_approval now rec ''reject'' ''rejected'' (Some reviewed_by) reason"

definition request_changes_record ::
  "string \<Rightarrow> approval + jdict \<Rightarrow> string \<Rightarrow> string option \<Rightarrow> (mission_error, approval) res" where
  "request_changes_record now rec reviewed_by reason =
     transition_approval now rec ''request_changes'' ''changes_requested'' (Some reviewed_by) reason"

definition expire_record :: "string \<Rightarrow> approval + jdict \<Rightarrow> string option \<Rightarrow> (mission_error, approval) res" where
  "expire_record now rec reason = transition_approval now rec ''expire'' ''expired'' None reason"

section \<open>Consensus records\<close>

record consensus =
  cr_id :: string
  cr_mission :: string
  cr_type :: string
  cr_decision :: string
  cr_actor :: string
  cr_task :: "string option"
  cr_agent :: "string option"
  cr_tool :: "string option"
  cr_repository :: "string option"
  cr_feedback :: "string option"
  cr_created :: string
  cr_metadata :: jdict

definition consensus_to_dict :: "consensus \<Rightarrow> jdict" where
  "consensus_to_dict c =
     [(''consensus_id'', JStr (cr_id c)), (''mission_id'', JStr (cr_mission c)), (''task_id'', opt_json (cr_task c)),
      (''consensus_type'', JStr (cr_type c)), (''decision'', JStr (cr_decision c)), (''actor'', JStr (cr_actor c)),
      (''agent_class'', opt_json (cr_agent c)), (''tool_name'', opt_json (cr_tool c)),
      (''target_repository'', opt_json (cr_repository c)), (''feedback'', opt_json (cr_feedback c)),
      (''created_utc'', JStr (cr_created c)), (''metadata'', JObj (cr_metadata c))]"

definition validate_consensus_record_dict :: "jdict \<Rightarrow> (mission_error, unit) res" where
  "validate_consensus_record_dict d =
     checks [require_str d ''consensus_id'', require_str d ''mission_id'', require_str d ''consensus_type'',
       require_in d ''consensus_type'' CONSENSUS_TYPES ''consensus type'', require_str d ''decision'',
       require_in d ''decision'' CONSENSUS_DECISIONS ''consensus decision'', require_str d ''actor'', require_str d ''created_utc'',
       require (is_obj (jget d ''metadata'')) (ValueError ''consensus metadata must be an object'')]"

definition consensus_from_dict :: "jdict \<Rightarrow> (mission_error, consensus) res" where
  "consensus_from_dict d =
     res_bind (validate_consensus_record_dict d) (\<lambda>_. Inr
       \<lparr>cr_id = the_str (jget d ''consensus_id''), cr_mission = the_str (jget d ''mission_id''),
        cr_type = the_str (jget d ''consensus_type''), cr_decision = the_str (jget d ''decision''),
        cr_actor = the_str (jget d ''actor''), cr_task = optional_str (jget d ''task_id''),
        cr_agent = optional_str (jget d ''agent_class''), cr_tool = optional_str (jget d ''tool_name''),
        cr_repository = optional_str (jget d ''target_repository''), cr_feedback = optional_str (jget d ''feedback''),
        cr_created = the_str (jget d ''created_utc''), cr_metadata = the_obj (jget d ''metadata'')\<rparr>)"

definition create_consensus_record ::
  "string \<Rightarrow> string \<Rightarrow> string \<Rightarrow> string \<Rightarrow> string \<Rightarrow> string \<Rightarrow> string option \<Rightarrow> string option \<Rightarrow> string option
    \<Rightarrow> string option \<Rightarrow> string option \<Rightarrow> jdict \<Rightarrow> string option \<Rightarrow> (mission_error, consensus) res" where
  "create_consensus_record now uuid mission_id ctype decision actor task_id agent tool repository feedback metadata consensus_id =
     (let c = \<lparr>cr_id = str_or consensus_id (new_id ''consensus'' uuid), cr_mission = mission_id, cr_type = ctype,
         cr_decision = decision, cr_actor = actor, cr_task = task_id, cr_agent = agent, cr_tool = tool,
         cr_repository = repository, cr_feedback = feedback, cr_created = now, cr_metadata = metadata\<rparr>
      in res_bind (validate_consensus_record_dict (consensus_to_dict c)) (\<lambda>_. Inr c))"

section \<open>Missions\<close>

record mission =
  ms_id :: string
  ms_title :: string
  ms_instruction :: string
  ms_repository :: "string option"
  ms_repositories :: "string list"
  ms_priority :: int
  ms_status :: string
  ms_risk :: string
  ms_created :: string
  ms_updated :: string
  ms_tasks :: "mission_task list"
  ms_approvals :: "jdict list"
  ms_consensus :: "jdict list"
  ms_events :: "jdict list"
  ms_artifacts :: "jdict list"
  ms_failure :: "string option"

definition mission_to_dict :: "mission \<Rightarrow> jdict" where
  "mission_to_dict m =
     [(''mission_id'', JStr (ms_id m)), (''title'', JStr (ms_title m)), (''instruction'', JStr (ms_instruction m)),
      (''target_repository'', opt_json (ms_repository m)), (''target_repositories'', JArr (map JStr (ms_repositories m))),
      (''priority'', JInt (ms_priority m)), (''status'', JStr (ms_status m)), (''risk_tier'', JStr (ms_risk m)),
      (''created_utc'', JStr (ms_created m)), (''updated_utc'', JStr (ms_updated m)),
      (''tasks'', JArr (map (\<lambda>t. JObj (task_to_dict t)) (ms_tasks m))),
      (''approvals'', JArr (map JObj (ms_approvals m))), (''consensus_records'', JArr (map JObj (ms_consensus m))),
      (''telemetry_events'', JArr (map JObj (ms_events m))), (''artifacts'', JArr (map JObj (ms_artifacts m))),
      (''failure_reason'', opt_json (ms_failure m))]"

text \<open>Tasks are not looked into; entries of the other lists that are not objects are skipped.\<close>

definition validate_mission_dict :: "jdict \<Rightarrow> (mission_error, unit) res" where
  "validate_mission_dict d =
     checks ([require_str d ''mission_id'', require_str d ''title'', require_str d ''instruction'', require_str d ''status'',
         require_in d ''status'' MISSION_STATUSES ''mission status'', require_str d ''created_utc'', require_str d ''updated_utc'',
         require_list d ''tasks''] @
       map (require_list d) [''target_repositories'', ''approvals'', ''consensus_records'', ''telemetry_events'', ''artifacts''] @
       map validate_approval_record_dict (dict_list (jget d ''approvals'')) @
       map validate_consensus_record_dict (dict_list (jget d ''consensus_records'')))"

fun tasks_from_dicts :: "jdict list \<Rightarrow> (mission_error, mission_task list) res" where
  "tasks_from_dicts [] = Inr []"
| "tasks_from_dicts (d # ds) = res_bind (task_from_dict d) (\<lambda>t. res_bind (tasks_from_dicts ds) (\<lambda>ts. Inr (t # ts)))"

definition mission_from_dict :: "(jval \<Rightarrow> string) \<Rightarrow> jdict \<Rightarrow> (mission_error, mission) res" where
  "mission_from_dict py_str d =
     res_bind (validate_mission_dict d) (\<lambda>_.
     res_bind (tasks_from_dicts (dict_list (jget d ''tasks''))) (\<lambda>ts. Inr
       \<lparr>ms_id = the_str (jget d ''mission_id''), ms_title = the_str (jget d ''title''),
        ms_instruction = the_str (jget d ''instruction''), ms_repository = optional_str (jget d ''target_repository''),
        ms_repositories = str_list (jget d ''target_repositories''), ms_priority = int_value (jget d ''priority'') 0,
        ms_status = the_str (jget d ''status''), ms_risk = str_of_or py_str (jget d ''risk_tier'') ''standard'',
        ms_created = the_str (jget d ''created_utc''), ms_updated = the_str (jget d ''updated_utc''), ms_tasks = ts,
        ms_approvals = dict_list (jget d ''approvals''), ms_consensus = dict_list (jget d ''consensus_records''),
        ms_events = dict_list (jget d ''telemetry_events''), ms_artifacts = dict_list (jget d ''artifacts''),
        ms_failure = optional_str (jget d ''failure_reason'')\<rparr>))"

fun drop_seen :: "string list \<Rightarrow> string list \<Rightarrow> string list" where
  "drop_seen seen [] = []"
| "drop_seen seen (r # rs) = (if r \<in> set seen then drop_seen seen rs else r # drop_seen (r # seen) rs)"

definition normalize_repositories :: "string option \<Rightarrow> string list option \<Rightarrow> string list" where
  "normalize_repositories repository repositories =
     (let raw = (case repositories of None \<Rightarrow> [] | Some rs \<Rightarrow> map strip (filter (\<lambda>r. strip r \<noteq> []) rs));
          first = (case repository of None \<Rightarrow> [] | Some r \<Rightarrow> if strip r \<noteq> [] then [strip r] else [])
      in drop_seen [] (first @ raw))"

definition create_mission ::
  "string \<Rightarrow> string \<Rightarrow> string \<Rightarrow> string \<Rightarrow> string option \<Rightarrow> string list option \<Rightarrow> int \<Rightarrow> string \<Rightarrow> string
    \<Rightarrow> string option \<Rightarrow> (mission_error, mission) res" where
  "create_mission now uuid title instruction repository repositories priority risk_tier status mission_id =
     (let repos = normalize_repositories repository repositories;
          primary = (case repository of
              Some r \<Rightarrow> if r \<noteq> [] then Some r else if repos \<noteq> [] then Some (hd repos) else None
            | None \<Rightarrow> if repos \<noteq> [] then Some (hd repos) else None);
          m = \<lparr>ms_id = str_or mission_id (new_id ''mission'' uuid), ms_title = strip title, ms_instruction = strip instruction,
               ms_repository = primary, ms_repositories = repos, ms_priority = priority, ms_status = status,
               ms_risk = (if risk_tier = [] then ''standard'' else risk_tier), ms_created = now, ms_updated = now, ms_tasks = [],
               ms_approvals = [], ms_consensus = [], ms_events = [], ms_artifacts = [], ms_failure = None\<rparr>
      in res_bind (validate_mission_dict (mission_to_dict m)) (\<lambda>_. Inr m))"

section \<open>Stripping\<close>

lemma uchars_parts: "uchars s = us @ vs \<Longrightarrow> uchars (concat us) = us \<and> uchars (concat vs) = vs"
proof (induction us arbitrary: s)
  case Nil
  then have "concat vs = s" using concat_uchars [of s] by simp
  with Nil show ?case by simp
next
  case (Cons u us)
  then obtain c cs where s: "s = c # cs" by (cases s) auto
  with Cons.prems have u: "u = c # takeWhile is_cont cs" and r: "uchars (dropWhile is_cont cs) = us @ vs" by auto
  note ih = Cons.IH [OF r]
  have "concat (us @ vs) = dropWhile is_cont cs" unfolding r [symmetric] by simp
  then have hd: "concat us = [] \<or> \<not> is_cont (hd (concat us))"
    by (metis append_is_Nil_conv concat_append hd_append2 hd_dropWhile)
  have "takeWhile is_cont (takeWhile is_cont cs @ concat us) = takeWhile is_cont cs"
    "dropWhile is_cont (takeWhile is_cont cs @ concat us) = concat us"
    using dropWhile_append_cont [OF hd, of "takeWhile is_cont cs"] by (auto simp: takeWhile_idem dest: set_takeWhileD)
  with ih u show ?case by simp
qed

lemma uchars_strip: "uchars (strip s) = rev (dropWhile is_space (rev (dropWhile is_space (uchars s))))"
proof -
  let ?m = "dropWhile is_space (uchars s)"
  have "uchars (concat ?m) = ?m"
    using uchars_parts [of s "takeWhile is_space (uchars s)" ?m] by simp
  moreover have "?m = rev (dropWhile is_space (rev ?m)) @ rev (takeWhile is_space (rev ?m))"
    by (metis rev_append rev_rev_ident takeWhile_dropWhile_id)
  ultimately show ?thesis
    unfolding strip_def using uchars_parts [of "concat ?m"] by metis
qed

lemma strip_strip [simp]: "strip (strip s) = strip s"
proof -
  let ?m = "dropWhile is_space (uchars s)"
  let ?t = "rev (dropWhile is_space (rev ?m))"
  have "dropWhile is_space ?t = ?t"
  proof (cases ?t)
    case (Cons u us)
    have "?m = ?t @ rev (takeWhile is_space (rev ?m))"
      by (metis rev_append rev_rev_ident takeWhile_dropWhile_id)
    with Cons have "hd ?m = u" "?m \<noteq> []" by (metis append_Cons list.sel(1), metis append_Cons list.distinct(1))
    then have "\<not> is_space u" by (metis hd_dropWhile)
    with Cons show ?thesis by simp
  next
    case Nil
    show ?thesis unfolding Nil by simp
  qed
  moreover have "dropWhile is_space (rev ?t) = rev ?t" by (simp add: dropWhile_idem)
  ultimately show ?thesis unfolding strip_def [of "strip s"] uchars_strip by (simp add: strip_def)
qed

section \<open>Reading back\<close>

text \<open>What a round through JSON text leaves of a record: texts that may be missing are
  stripped and nested objects have their keys sorted.\<close>

definition norm_opt :: "string option \<Rightarrow> string option" where
  "norm_opt s = optional_str (opt_json s)"

definition norm_task :: "mission_task \<Rightarrow> mission_task" where
  "norm_task t =
     t\<lparr>mt_repository := norm_opt (mt_repository t), mt_primary := norm_opt (mt_primary t), mt_twin := norm_opt (mt_twin t),
       mt_queue := map_option canon_dict (mt_queue t)\<rparr>"

definition norm_approval :: "approval \<Rightarrow> approval" where
  "norm_approval a =
     a\<lparr>ap_task := norm_opt (ap_task a), ap_reviewed_by := norm_opt (ap_reviewed_by a), ap_reason := norm_opt (ap_reason a),
       ap_expires := norm_opt (ap_expires a), ap_metadata := canon_dict (ap_metadata a)\<rparr>"

definition norm_consensus :: "consensus \<Rightarrow> consensus" where
  "norm_consensus c =
     c\<lparr>cr_task := norm_opt (cr_task c), cr_agent := norm_opt (cr_agent c), cr_tool := norm_opt (cr_tool c),
       cr_repository := norm_opt (cr_repository c), cr_feedback := norm_opt (cr_feedback c),
       cr_metadata := canon_dict (cr_metadata c)\<rparr>"

definition norm_mission :: "mission \<Rightarrow> mission" where
  "norm_mission m =
     m\<lparr>ms_repository := norm_opt (ms_repository m), ms_risk := (if ms_risk m = [] then ''standard'' else ms_risk m),
       ms_tasks := map norm_task (ms_tasks m), ms_approvals := map canon_dict (ms_approvals m),
       ms_consensus := map canon_dict (ms_consensus m), ms_events := map canon_dict (ms_events m),
       ms_artifacts := map canon_dict (ms_artifacts m), ms_failure := norm_opt (ms_failure m)\<rparr>"

lemma norm_opt_simps [simp]: "norm_opt None = None" "norm_opt (norm_opt s) = norm_opt s"
  by (cases s; simp add: norm_opt_def optional_str_def opt_json_def)+

lemma sort_key_sorted: "sorted (map f xs) \<Longrightarrow> sort_key f xs = xs"
  by (induction xs) (auto simp: insort_is_Cons)

lemma canon_dict_canon [simp]: "canon_dict (canon_dict d) = canon_dict d"
proof -
  have "canon (canon v) = canon v" for v
  proof (induction v)
    case (JObj kvs)
    let ?f = "\<lambda>kv :: string \<times> jval. (fst kv, canon (snd kv))"
    have "sort_key fst (map ?f (sort_key fst (map ?f kvs))) = map ?f (sort_key fst (sort_key fst (map ?f kvs)))"
      by (rule sort_key_map_fst)
    also have "\<dots> = map ?f (sort_key fst (map ?f kvs))" by (simp add: sort_key_sorted del: sort_key_map_fst)
    also have "\<dots> = sort_key fst (map ?f (map ?f kvs))" by (rule sort_key_map_fst [symmetric])
    also have "map ?f (map ?f kvs) = map ?f kvs" using JObj by fastforce
    finally show ?case by simp
  qed simp_all
  then show ?thesis using canon_JObj by (metis jval.inject(6))
qed

lemma norm_idem [simp]:
  "norm_task (norm_task t) = norm_task t" "norm_approval (norm_approval a) = norm_approval a"
  "norm_consensus (norm_consensus c) = norm_consensus c" "norm_mission (norm_mission m) = norm_mission m"
  by (simp_all add: norm_task_def norm_approval_def norm_consensus_def norm_mission_def comp_def option.map_comp
      split: option.split)

lemma canon_reads [simp]:
  "the_str (canon v) = the_str v" "filled (canon v) = filled v" "is_arr (canon v) = is_arr v"
  "optional_str (canon v) = optional_str v" "the_obj (canon v) = canon_dict (the_obj v)"
  by (cases v; simp add: the_str_def filled_def optional_str_def the_obj_def canon_JObj canon_dict_def)+

lemma checks_ok [simp]: "checks rs = Inr () \<longleftrightarrow> (\<forall>r \<in> set rs. r = Inr ())"
  by (simp add: checks_def each_Inr_iff)

lemma canon_strs [simp]: "canon (opt_json s) = opt_json s" "canon (JArr (map JStr xs)) = JArr (map JStr xs)"
  "str_list (JArr (map JStr xs)) = xs"
  by (cases s; simp add: opt_json_def) (simp_all add: str_list_def comp_def the_str_def)

lemma dict_list_canon [simp]: "dict_list (canon v) = map canon_dict (dict_list v)"
proof (cases v)
  case (JArr xs)
  have "map the_obj (filter is_obj (map canon xs)) = map canon_dict (map the_obj (filter is_obj xs))"
    by (induction xs) simp_all
  with JArr show ?thesis by (simp add: dict_list_def)
qed (simp_all add: dict_list_def)

lemma dict_list_objs [simp]: "dict_list (JArr (map (\<lambda>x. JObj (f x)) xs)) = map f xs" "dict_list (JArr (map JObj ds)) = ds"
  by (simp_all add: dict_list_def comp_def the_obj_def filter_True)

lemma require_canon:
  assumes "wf_dict d"
  shows "require_str (canon_dict d) k = require_str d k" "require_list (canon_dict d) k = require_list d k"
    "require_in (canon_dict d) k ks w = require_in d k ks w"
  by (simp_all add: require_str_def require_list_def require_in_def jget_canon [OF assms])

lemma validate_canon:
  assumes "wf_dict d"
  shows "validate_task_dict (canon_dict d) = validate_task_dict d"
    "validate_approval_record_dict (canon_dict d) = validate_approval_record_dict d"
    "validate_consensus_record_dict (canon_dict d) = validate_consensus_record_dict d"
  by (simp_all add: validate_task_dict_def validate_approval_record_dict_def validate_consensus_record_dict_def
      require_canon [OF assms] jget_canon [OF assms])

lemma to_dict_wf [simp]:
  "wf_dict (task_to_dict t)" "wf_dict (approval_to_dict a)" "wf_dict (consensus_to_dict c)" "wf_dict (mission_to_dict m)"
  by (simp_all add: wf_dict_def task_to_dict_def approval_to_dict_def consensus_to_dict_def mission_to_dict_def)

lemma jget_task [simp]:
  "jget (task_to_dict t) ''task_id'' = JStr (mt_id t)" "jget (task_to_dict t) ''mission_id'' = JStr (mt_mission t)"
  "jget (task_to_dict t) ''instruction'' = JStr (mt_instruction t)" "jget (task_to_dict t) ''target_repository'' = opt_json (mt_repository t)"
  "jget (task_to_dict t) ''assigned_primary_agent'' = opt_json (mt_primary t)"
  "jget (task_to_dict t) ''assigned_twin_agent'' = opt_json (mt_twin t)"
  "jget (task_to_dict t) ''required_tools'' = JArr (map JStr (mt_tools t))" "jget (task_to_dict t) ''status'' = JStr (mt_status t)"
  "jget (task_to_dict t) ''priority'' = JInt (mt_priority t)" "jget (task_to_dict t) ''depends_on'' = JArr (map JStr (mt_depends t))"
  "jget (task_to_dict t) ''created_utc'' = JStr (mt_created t)" "jget (task_to_dict t) ''updated_utc'' = JStr (mt_updated t)"
  "jget (task_to_dict t) ''queue_payload'' = (case mt_queue t of None \<Rightarrow> JNull | Some d \<Rightarrow> JObj d)"
  by (simp_all add: task_to_dict_def)

lemma jget_approval [simp]:
  "jget (approval_to_dict a) ''approval_id'' = JStr (ap_id a)" "jget (approval_to_dict a) ''mission_id'' = JStr (ap_mission a)"
  "jget (approval_to_dict a) ''task_id'' = opt_json (ap_task a)" "jget (approval_to_dict a) ''action'' = JStr (ap_action a)"
  "jget (approval_to_dict a) ''status'' = JStr (ap_status a)" "jget (approval_to_dict a) ''requested_by'' = JStr (ap_requested_by a)"
  "jget (approval_to_dict a) ''reviewed_by'' = opt_json (ap_reviewed_by a)" "jget (approval_to_dict a) ''reason'' = opt_json (ap_reason a)"
  "jget (approval_to_dict a) ''risk_tier'' = JStr (ap_risk a)" "jget (approval_to_dict a) ''created_utc'' = JStr (ap_created a)"
  "jget (approval_to_dict a) ''updated_utc'' = JStr (ap_updated a)" "jget (approval_to_dict a) ''expires_utc'' = opt_json (ap_expires a)"
  "jget (approval_to_dict a) ''metadata'' = JObj (ap_metadata a)"
  by (simp_all add: approval_to_dict_def)

lemma jget_consensus [simp]:
  "jget (consensus_to_dict c) ''consensus_id'' = JStr (cr_id c)" "jget (consensus_to_dict c) ''mission_id'' = JStr (cr_mission c)"
  "jget (consensus_to_dict c) ''task_id'' = opt_json (cr_task c)" "jget (consensus_to_dict c) ''consensus_type'' = JStr (cr_type c)"
  "jget (consensus_to_dict c) ''decision'' = JStr (cr_decision c)" "jget (consensus_to_dict c) ''actor'' = JStr (cr_actor c)"
  "jget (consensus_to_dict c) ''agent_class'' = opt_json (cr_agent c)" "jget (consensus_to_dict c) ''tool_name'' = opt_json (cr_tool c)"
  "jget (consensus_to_dict c) ''target_repository'' = opt_json (cr_repository c)"
  "jget (consensus_to_dict c) ''feedback'' = opt_json (cr_feedback c)" "jget (consensus_to_dict c) ''created_utc'' = JStr (cr_created c)"
  "jget (consensus_to_dict c) ''metadata'' = JObj (cr_metadata c)"
  by (simp_all add: consensus_to_dict_def)

lemma jget_mission [simp]:
  "jget (mission_to_dict m) ''mission_id'' = JStr (ms_id m)" "jget (mission_to_dict m) ''title'' = JStr (ms_title m)"
  "jget (mission_to_dict m) ''instruction'' = JStr (ms_instruction m)" "jget (mission_to_dict m) ''target_repository'' = opt_json (ms_repository m)"
  "jget (mission_to_dict m) ''target_repositories'' = JArr (map JStr (ms_repositories m))"
  "jget (mission_to_dict m) ''priority'' = JInt (ms_priority m)" "jget (mission_to_dict m) ''status'' = JStr (ms_status m)"
  "jget (mission_to_dict m) ''risk_tier'' = JStr (ms_risk m)" "jget (mission_to_dict m) ''created_utc'' = JStr (ms_created m)"
  "jget (mission_to_dict m) ''updated_utc'' = JStr (ms_updated m)"
  "jget (mission_to_dict m) ''tasks'' = JArr (map (\<lambda>t. JObj (task_to_dict t)) (ms_tasks m))"
  "jget (mission_to_dict m) ''approvals'' = JArr (map JObj (ms_approvals m))"
  "jget (mission_to_dict m) ''consensus_records'' = JArr (map JObj (ms_consensus m))"
  "jget (mission_to_dict m) ''telemetry_events'' = JArr (map JObj (ms_events m))"
  "jget (mission_to_dict m) ''artifacts'' = JArr (map JObj (ms_artifacts m))"
  "jget (mission_to_dict m) ''failure_reason'' = opt_json (ms_failure m)"
  by (simp_all add: mission_to_dict_def)

lemma int_value_int [simp]: "int_value (JInt i) d = i" "int_value (canon (JInt i)) d = i"
  by (simp_all add: int_value_def)

lemma opt_json_reads [simp]: "optional_str (opt_json s) = norm_opt s"
  by (simp add: norm_opt_def)

lemma the_str_JStr [simp]: "the_str (JStr s) = s" "filled (JStr s) \<longleftrightarrow> strip s \<noteq> []"
  by (simp_all add: the_str_def filled_def)

lemma task_read_back:
  assumes "validate_task_dict (task_to_dict t) = Inr ()"
  shows "task_from_dict (canon_dict (task_to_dict t)) = Inr (norm_task t)"
  using assms
  by (cases t) (simp add: task_from_dict_def validate_canon jget_canon norm_task_def canon_JObj del: canon.simps(1,2) split: option.split)

lemma approval_read_back:
  assumes "validate_approval_record_dict (approval_to_dict a) = Inr ()"
  shows "approval_from_dict (canon_dict (approval_to_dict a)) = Inr (norm_approval a)"
  using assms
  by (cases a) (simp add: approval_from_dict_def validate_canon jget_canon norm_approval_def canon_JObj the_obj_def del: canon.simps(2))

lemma consensus_read_back:
  assumes "validate_consensus_record_dict (consensus_to_dict c) = Inr ()"
  shows "consensus_from_dict (canon_dict (consensus_to_dict c)) = Inr (norm_consensus c)"
  using assms
  by (cases c) (simp add: consensus_from_dict_def validate_canon jget_canon norm_consensus_def canon_JObj the_obj_def del: canon.simps(2))

lemma tasks_from_dicts_iff:
  "tasks_from_dicts ds = Inr ts \<longleftrightarrow> length ts = length ds \<and> (\<forall>(d, t) \<in> set (zip ds ts). task_from_dict d = Inr t)"
proof (induction ds arbitrary: ts)
  case (Cons d ds)
  show ?case
    by (cases ts) (auto simp: res_bind_Inr_iff Cons.IH split: prod.splits)
qed auto

lemma task_valid_iff: "(\<exists>t'. task_from_dict d = Inr t') \<longleftrightarrow> validate_task_dict d = Inr ()"
  by (auto simp: task_from_dict_def res_bind_Inr_iff)

definition mission_wf :: "mission \<Rightarrow> bool" where
  "mission_wf m \<longleftrightarrow> wf_json (JObj (mission_to_dict m))"

lemma mission_wf_lists:
  assumes "mission_wf m" and "d \<in> set (ms_approvals m) \<union> set (ms_consensus m)"
  shows "wf_dict d"
  using assms by (auto simp: mission_wf_def mission_to_dict_def list_all_iff wf_dict_def)

lemma validate_mission_canon:
  assumes "mission_wf m"
  shows "validate_mission_dict (canon_dict (mission_to_dict m)) = validate_mission_dict (mission_to_dict m)"
proof -
  have "map validate_approval_record_dict (map canon_dict (ms_approvals m)) = map validate_approval_record_dict (ms_approvals m)"
    "map validate_consensus_record_dict (map canon_dict (ms_consensus m)) = map validate_consensus_record_dict (ms_consensus m)"
    using mission_wf_lists [OF assms] by (auto simp: validate_canon)
  then show ?thesis
    by (simp add: validate_mission_dict_def require_canon jget_canon del: list.map_comp map_map canon.simps)
qed

lemma truthy_canon [simp]: "truthy (canon v) = truthy v"
proof (cases v)
  case (JObj d)
  have "length (sort_key fst (map f d)) = length d" for f :: "string \<times> jval \<Rightarrow> string \<times> jval" by simp
  then have "sort_key fst (map f d) = [] \<longleftrightarrow> d = []" for f :: "string \<times> jval \<Rightarrow> string \<times> jval" by (metis length_0_conv)
  with JObj show ?thesis by simp
qed simp_all

text \<open>A mission reads back exactly when it and every one of its tasks passes its validator.\<close>

lemma mission_read_back:
  assumes "mission_wf m"
  shows "mission_from_dict py_str (canon_dict (mission_to_dict m)) = Inr m' \<longleftrightarrow>
    validate_mission_dict (mission_to_dict m) = Inr () \<and> (\<forall>t \<in> set (ms_tasks m). validate_task_dict (task_to_dict t) = Inr ()) \<and>
    m' = norm_mission m"
proof -
  let ?ds = "map (\<lambda>t. canon_dict (task_to_dict t)) (ms_tasks m)"
  have tasks: "tasks_from_dicts (map (\<lambda>t. canon_dict (task_to_dict t)) us) = Inr ts \<longleftrightarrow>
      (\<forall>t \<in> set us. validate_task_dict (task_to_dict t) = Inr ()) \<and> ts = map norm_task us" for us ts
  proof -
    have one: "task_from_dict (canon_dict (task_to_dict t)) = Inr u \<longleftrightarrow> validate_task_dict (task_to_dict t) = Inr () \<and> u = norm_task t" for t u
      using task_read_back [of t] task_valid_iff [of "canon_dict (task_to_dict t)"] by (auto simp: validate_canon)
    show ?thesis
      by (induction us arbitrary: ts) (auto simp: res_bind_Inr_iff one)
  qed
  have risk: "str_of_or py_str (canon (JStr s)) ''standard'' = (if s = [] then ''standard'' else s)" for s
    by (simp add: str_of_or_def)
  have lists: "dict_list (jget (canon_dict (mission_to_dict m)) ''tasks'') = ?ds"
    by (simp add: jget_canon comp_def del: canon.simps)
  show ?thesis
    unfolding mission_from_dict_def validate_mission_canon [OF assms] lists
    by (cases m) (auto simp: res_bind_Inr_iff tasks jget_canon norm_mission_def risk simp del: canon.simps)
qed

end
