(* ===== verification/Repo_Router.thy ===== *)
theory Repo_Router
  imports Missions
begin

text \<open>
  \<^verbatim>\<open>src/routers/repo_governance_router.py\<close>: which pair of agents works on a repository.
  The registry file is given by its modification time and text, or is missing; the module's
  cache is passed through. The logged interruption is returned with the route.
\<close>

record route =
  rt_target :: "string option"
  rt_resolved :: "string option"
  rt_default :: bool
  rt_primary :: string
  rt_twin :: string
  rt_constraints :: jdict
  rt_quant :: "string option"
  rt_reason :: "string option"

type_synonym registry_cache = "(jdict \<times> flt) option"

section \<open>The registry\<close>

definition load_agent_registry ::
  "bool \<Rightarrow> (flt \<times> string) option \<Rightarrow> registry_cache \<Rightarrow> jdict \<times> registry_cache" where
  "load_agent_registry use_cache f cache =
     (case f of
        None \<Rightarrow> ([], cache)
      | Some (mtime, contents) \<Rightarrow>
          (let loaded = (case loads contents of Some (JObj d) \<Rightarrow> d | _ \<Rightarrow> []) in
           case cache of
             None \<Rightarrow> (loaded, Some (loaded, mtime))
           | Some (r, t) \<Rightarrow> if use_cache \<and> t = mtime then (r, cache) else (loaded, Some (loaded, mtime))))"

definition extract_target_repository :: "jdict \<Rightarrow> string option" where
  "extract_target_repository payload =
     (case optional_str (jget payload ''target_repository'') of
        Some r \<Rightarrow> Some r
      | None \<Rightarrow>
          (case jget payload ''target_repositories'' of
             JArr (x # xs) \<Rightarrow> optional_str x
           | _ \<Rightarrow> None))"

definition default_profile :: "jdict \<Rightarrow> jdict" where
  "default_profile registry = the_obj (jget registry ''default_profile'')"

text \<open>A registry without \<^verbatim>\<open>repositories\<close> is itself the mapping.\<close>

definition repo_profiles :: "jdict \<Rightarrow> jdict" where
  "repo_profiles registry = (case jget registry ''repositories'' of JObj d \<Rightarrow> d | _ \<Rightarrow> registry)"

definition profile_has_required_fields :: "jdict \<Rightarrow> bool" where
  "profile_has_required_fields profile \<longleftrightarrow>
     is_str (jget profile ''primary_agent_class'') \<and> is_str (jget profile ''twin_agent_class'') \<and>
     is_obj (jget profile ''execution_constraints'')"

definition routing_enabled :: "jdict \<Rightarrow> bool" where
  "routing_enabled profile =
     (case jget profile ''routing'' of JObj cfg \<Rightarrow> jget cfg ''enabled'' \<noteq> JBool False | _ \<Rightarrow> True)"

section \<open>The route\<close>

text \<open>Why the default profile is used, if it is.\<close>

definition fallback_reason :: "string option \<Rightarrow> jdict option \<Rightarrow> string option" where
  "fallback_reason target profile =
     (case target of
        None \<Rightarrow> Some ''missing target_repository''
      | Some t \<Rightarrow>
          (case profile of
             None \<Rightarrow> Some (''unknown repository: '' @ t)
           | Some pr \<Rightarrow>
               if \<not> routing_enabled pr then Some (''unmapped repository: '' @ t)
               else if \<not> profile_has_required_fields pr then Some (''incomplete agent profile for repository: '' @ t)
               else None))"

definition default_constraints :: jdict where
  "default_constraints = [(''num_thread'', JInt 4), (''quantization_preference'', JStr ''Q5_K_M''), (''max_context_chars'', JInt 12000)]"

definition agent_class :: "jval \<Rightarrow> string \<Rightarrow> string" where
  "agent_class v dflt = (if filled v then the_str v else dflt)"

definition fallback_event :: "string \<Rightarrow> string option \<Rightarrow> string option \<Rightarrow> string \<Rightarrow> jdict" where
  "fallback_event path target resolved reason =
     [(''event_type'', JStr ''REPO_ROUTER_FALLBACK''),
      (''message'', JStr (''Falling back to default agent profile ('' @ reason @ '').'')),
      (''details'', JObj [(''target_repository'', opt_json target), (''resolved_repository'', opt_json resolved),
        (''reason'', JStr reason), (''registry_path'', JStr path)])]"

definition route_of_registry :: "string \<Rightarrow> jdict \<Rightarrow> jdict \<Rightarrow> route \<times> jdict option" where
  "route_of_registry path registry payload =
     (let target = extract_target_repository payload;
          own = (case target of
              None \<Rightarrow> None
            | Some t \<Rightarrow> (case jget (repo_profiles registry) t of JObj d \<Rightarrow> Some d | _ \<Rightarrow> None));
          resolved = (case own of None \<Rightarrow> None | Some _ \<Rightarrow> target);
          reason = fallback_reason target own;
          profile = (case reason of Some _ \<Rightarrow> default_profile registry
            | None \<Rightarrow> (case own of Some d \<Rightarrow> if d = [] then default_profile registry else d | None \<Rightarrow> default_profile registry));
          cs = jget profile ''execution_constraints''
      in (\<lparr>rt_target = target, rt_resolved = (case reason of Some _ \<Rightarrow> None | None \<Rightarrow> resolved), rt_default = (reason \<noteq> None),
           rt_primary = agent_class (jget profile ''primary_agent_class'') ''RuntimeDiagnosticAgent'',
           rt_twin = agent_class (jget profile ''twin_agent_class'') ''RuntimeDiagnosticTwinAgent'',
           rt_constraints = (case cs of JObj d \<Rightarrow> d | _ \<Rightarrow> default_constraints),
           rt_quant = (case cs of JObj d \<Rightarrow> (case jget d ''quantization_preference'' of JStr q \<Rightarrow> Some q | _ \<Rightarrow> None) | _ \<Rightarrow> None),
           rt_reason = reason\<rparr>,
          map_option (fallback_event path target resolved) reason))"

definition resolve_repo_governance_route ::
  "string \<Rightarrow> (flt \<times> string) option \<Rightarrow> registry_cache \<Rightarrow> jdict \<Rightarrow> (route \<times> jdict option) \<times> registry_cache" where
  "resolve_repo_governance_route path f cache payload =
     (let (registry, cache1) = load_agent_registry True f cache in (route_of_registry path registry payload, cache1))"

section \<open>The context of the engine\<close>

definition constraints_for_engine :: "route \<Rightarrow> int \<times> int" where
  "constraints_for_engine r =
     (int_value (jget (rt_constraints r) ''num_thread'') 4, int_value (jget (rt_constraints r) ''max_context_chars'') 12000)"

definition build_governance_system_context :: "(jval \<Rightarrow> string) \<Rightarrow> route \<Rightarrow> string" where
  "build_governance_system_context py_str r =
     (let (threads, chars) = constraints_for_engine r;
          quant = str_or (rt_quant r) (str_of_or py_str (jget (rt_constraints r) ''quantization_preference'') []);
          repo = str_or (rt_target r) (str_or (rt_resolved r) ''unknown'');
          resolved = str_or (rt_resolved r) ''default'';
          reason = str_or (rt_reason r) (if rt_default r then ''default profile'' else ''matched profile'')
      in join [CHR 0x0A]
           ([''[GOVERNANCE_ROUTER]'', ''target_repository='' @ repo, ''resolved_repository='' @ resolved,
             ''primary_agent_class='' @ rt_primary r, ''twin_agent_class='' @ rt_twin r,
             ''num_thread='' @ show_int threads, ''max_context_chars='' @ show_int chars] @
            (if quant \<noteq> [] then [''quantization_preference='' @ quant] else []) @
            [''routing_reason='' @ reason,
             ''Instruction: apply paired governance; primary proposes changes, twin audits and enforces constraints.'']))"

section \<open>What a route promises\<close>

lemma diagnostic_agents [simp]: "strip ''RuntimeDiagnosticAgent'' \<noteq> []" "strip ''RuntimeDiagnosticTwinAgent'' \<noteq> []"
  by code_simp+

lemma agent_class_filled: "strip dflt \<noteq> [] \<Longrightarrow> strip (agent_class v dflt) \<noteq> []"
  by (cases v) (auto simp: agent_class_def filled_def)

text \<open>A route always names two agents.\<close>

lemma route_agents:
  "strip (rt_primary (fst (route_of_registry path registry payload))) \<noteq> []"
  "strip (rt_twin (fst (route_of_registry path registry payload))) \<noteq> []"
  by (simp_all add: route_of_registry_def Let_def agent_class_filled)

lemma route_of_registry_own:
  "\<not> rt_default (fst (route_of_registry path registry payload)) \<longleftrightarrow>
    (\<exists>t d. extract_target_repository payload = Some t \<and> jget (repo_profiles registry) t = JObj d \<and>
       routing_enabled d \<and> profile_has_required_fields d)"
  by (auto simp: route_of_registry_def Let_def fallback_reason_def split: option.splits jval.splits)

text \<open>What the cache holds is a registry text read at its time stamp, so a run of requests in which a
  time stamp determines the text sees what each file holds.\<close>

fun route_all :: "string \<Rightarrow> ((flt \<times> string) option \<times> jdict) list \<Rightarrow> registry_cache \<Rightarrow> (route \<times> jdict option) list" where
  "route_all path [] cache = []"
| "route_all path ((f, payload) # reqs) cache =
     (let (r, cache1) = resolve_repo_governance_route path f cache payload in r # route_all path reqs cache1)"

definition fresh_registry :: "(flt \<times> string) option \<Rightarrow> jdict" where
  "fresh_registry f = (case f of None \<Rightarrow> [] | Some (mtime, contents) \<Rightarrow> (case loads contents of Some (JObj d) \<Rightarrow> d | _ \<Rightarrow> []))"

lemma load_agent_registry_fresh:
  assumes held: "\<And>r t s. cache = Some (r, t) \<Longrightarrow> f = Some (t, s) \<Longrightarrow> r = fresh_registry f"
  shows "fst (load_agent_registry use f cache) = fresh_registry f"
    and "snd (load_agent_registry use f cache) = cache \<or>
      (\<exists>t s. f = Some (t, s) \<and> snd (load_agent_registry use f cache) = Some (fresh_registry f, t))"
proof -
  have "fst (load_agent_registry use f cache) = fresh_registry f \<and> (snd (load_agent_registry use f cache) = cache \<or>
      (\<exists>t s. f = Some (t, s) \<and> snd (load_agent_registry use f cache) = Some (fresh_registry f, t)))"
  proof (cases f)
    case None
    then show ?thesis by (simp add: load_agent_registry_def fresh_registry_def)
  next
    case (Some mc)
    obtain m c where f: "f = Some (m, c)" using Some by (cases mc) auto
    have fresh: "(case loads c of Some (JObj d) \<Rightarrow> d | _ \<Rightarrow> []) = fresh_registry f" by (simp add: f fresh_registry_def)
    show ?thesis
    proof (cases cache)
      case None
      then show ?thesis using f fresh by (simp add: load_agent_registry_def Let_def)
    next
      case (Some rt)
      obtain r t where c: "cache = Some (r, t)" using Some by (cases rt) auto
      show ?thesis
      proof (cases "use \<and> t = m")
        case True
        with c f have "r = fresh_registry f" using held by blast
        with True c f show ?thesis by (simp add: load_agent_registry_def Let_def)
      next
        case False
        with c f fresh show ?thesis by (auto simp: load_agent_registry_def Let_def)
      qed
    qed
  qed
  then show "fst (load_agent_registry use f cache) = fresh_registry f"
    and "snd (load_agent_registry use f cache) = cache \<or>
      (\<exists>t s. f = Some (t, s) \<and> snd (load_agent_registry use f cache) = Some (fresh_registry f, t))" by blast+
qed

lemma route_all_fresh:
  assumes "\<forall>t s s'. Some (t, s) \<in> fst ` set reqs \<longrightarrow> Some (t, s') \<in> fst ` set reqs \<longrightarrow> s = s'"
    and "\<And>r t s. cache = Some (r, t) \<Longrightarrow> Some (t, s) \<in> fst ` set reqs \<Longrightarrow> r = fresh_registry (Some (t, s))"
  shows "route_all path reqs cache = map (\<lambda>(f, payload). route_of_registry path (fresh_registry f) payload) reqs"
  using assms
proof (induction reqs arbitrary: cache)
  case Nil
  then show ?case by simp
next
  case (Cons q reqs)
  obtain f payload where q: "q = (f, payload)" by fastforce
  have held: "r = fresh_registry f" if "cache = Some (r, t)" "f = Some (t, s)" for r t s
    using Cons.prems(2) [OF that(1)] that(2) q by simp
  let ?c = "snd (load_agent_registry True f cache)"
  have "r = fresh_registry (Some (t, s))" if "?c = Some (r, t)" "Some (t, s) \<in> fst ` set reqs" for r t s
  proof -
    consider "?c = cache" | t0 s0 where "f = Some (t0, s0)" "?c = Some (fresh_registry f, t0)"
      using load_agent_registry_fresh(2) [of cache f True] held by blast
    then show ?thesis
    proof cases
      case 1
      have "Some (t, s) \<in> fst ` set (q # reqs)" using that(2) by simp
      with 1 that(1) show ?thesis using Cons.prems(2) by simp
    next
      case 2
      then have t0: "f = Some (t, s0)" and r: "r = fresh_registry f" using that(1) by auto
      have "Some (t, s0) \<in> fst ` set (q # reqs)" and "Some (t, s) \<in> fst ` set (q # reqs)" using t0 that(2) q by simp_all
      then have "s0 = s" using Cons.prems(1) by blast
      with t0 r show ?thesis by simp
    qed
  qed
  moreover have "\<forall>t s s'. Some (t, s) \<in> fst ` set reqs \<longrightarrow> Some (t, s') \<in> fst ` set reqs \<longrightarrow> s = s'"
    using Cons.prems(1) unfolding list.set image_insert by blast
  ultimately have "route_all path reqs ?c = map (\<lambda>(f, payload). route_of_registry path (fresh_registry f) payload) reqs"
    using Cons.IH [of ?c] by blast
  moreover have "fst (load_agent_registry True f cache) = fresh_registry f"
    using load_agent_registry_fresh(1) [of cache f True] held by blast
  moreover have "route_all path (q # reqs) cache =
      route_of_registry path (fst (load_agent_registry True f cache)) payload # route_all path reqs ?c"
    by (simp only: q route_all.simps resolve_repo_governance_route_def split_beta Let_def fst_conv snd_conv)
  ultimately show ?case by (simp only: q list.map case_prod_conv)
qed

text \<open>As long as a time stamp of the registry file determines its text, the registry cache is
  transparent: whatever requests were served before, a route is the one its own file gives, it names two
  agents, and it comes from the repository's own profile exactly when the file has a complete one that is not
  switched off.\<close>

theorem routed_by_own_profile:
  assumes "\<forall>t s s'. Some (t, s) \<in> fst ` set (reqs @ [(f, payload)]) \<longrightarrow> Some (t, s') \<in> fst ` set (reqs @ [(f, payload)]) \<longrightarrow> s = s'"
    and "rt = fst (last (route_all path (reqs @ [(f, payload)]) None))"
  shows "strip (rt_primary rt) \<noteq> [] \<and> strip (rt_twin rt) \<noteq> [] \<and>
    (\<not> rt_default rt \<longleftrightarrow>
      (\<exists>t d. extract_target_repository payload = Some t \<and> jget (repo_profiles (fresh_registry f)) t = JObj d \<and>
         routing_enabled d \<and> profile_has_required_fields d))"
proof -
  have "route_all path (reqs @ [(f, payload)]) None =
      map (\<lambda>(f, payload). route_of_registry path (fresh_registry f) payload) (reqs @ [(f, payload)])"
    by (rule route_all_fresh [OF assms(1)]) simp
  then have "rt = fst (route_of_registry path (fresh_registry f) payload)" using assms(2) by simp
  then show ?thesis by (simp only: route_of_registry_own route_agents simp_thms)
qed

theorem routed_by_own_profile_witness:
  "let rt = fst (last (route_all ''r.json'' ([(None, [])] @ [(None, [(''target_repository'', JStr ''a'')])]) None))
   in strip (rt_primary rt) \<noteq> [] \<and> strip (rt_twin rt) \<noteq> [] \<and> rt_default rt"
  using routed_by_own_profile [of "[(None, [])]" None "[(''target_repository'', JStr ''a'')]" _ "''r.json''", OF _ refl]
  by (simp add: Let_def fresh_registry_def repo_profiles_def del: route_all.simps)

end
