(* ===== verification/Mission_Store.thy ===== *)
theory Mission_Store
  imports Repo_Router
begin

text \<open>
  \<^verbatim>\<open>src/mission_engine/store.py\<close>, \<^verbatim>\<open>planner.py\<close> and \<^verbatim>\<open>queue_adapter.py\<close>:
  mission files, the tasks planned for a mission and the single slot of the legacy queue. A
  directory is a map from file names to texts; a write replaces a file in one step. Whether a
  character outside ASCII is alphanumeric is the parameter \<open>ualnum\<close>.

  The lemmas show which missions a store can read back and that the operations of the store
  keep every file readable as long as the tasks given to it are valid.
\<close>

section \<open>Files\<close>

definition ascii_alnum :: "char \<Rightarrow> bool" where
  "ascii_alnum c \<longleftrightarrow> (let n = (of_char c :: nat) in 48 \<le> n \<and> n \<le> 57 \<or> 65 \<le> n \<and> n \<le> 90 \<or> 97 \<le> n \<and> n \<le> 122)"

definition safe_unit :: "(string \<Rightarrow> bool) \<Rightarrow> string \<Rightarrow> string" where
  "safe_unit ualnum u =
     (case u of
        [c] \<Rightarrow> if ascii_alnum c \<or> c = CHR ''-'' \<or> c = CHR ''_'' then u else ''_''
      | _ \<Rightarrow> if ualnum u then u else ''_'')"

text \<open>The name of the file without its directory and extension.\<close>

definition mission_path :: "(string \<Rightarrow> bool) \<Rightarrow> string \<Rightarrow> (mission_error, string) res" where
  "mission_path ualnum mid =
     (let safe = concat (take 120 (map (safe_unit ualnum) (uchars mid)))
      in if safe = [] then Inl (ValueError ''mission_id is required'') else Inr safe)"

record mission_store =
  st_files :: "(string, string) dict"
  st_archive :: "(string, string) dict"

definition atomic_write :: "string \<Rightarrow> jdict \<Rightarrow> mission_store \<Rightarrow> (mission_error, unit) res \<times> mission_store" where
  "atomic_write name payload st =
     (case validate_mission_dict payload of
        Inl e \<Rightarrow> (Inl e, st)
      | Inr _ \<Rightarrow> (Inr (), st\<lparr>st_files := dput name (file_json (JObj payload)) (st_files st)\<rparr>))"

definition read_mission_json :: "string \<Rightarrow> mission_store \<Rightarrow> (mission_error, jdict) res" where
  "read_mission_json name st =
     (case dget (st_files st) name of
        None \<Rightarrow> Inl MissionMissing
      | Some t \<Rightarrow>
          (case loads t of
             None \<Rightarrow> Inl MalformedFile
           | Some (JObj d) \<Rightarrow> res_bind (validate_mission_dict d) (\<lambda>_. Inr d)
           | Some _ \<Rightarrow> Inl (ValueError (''mission file must contain object: '' @ name))))"

section \<open>The store\<close>

definition write_mission ::
  "(string \<Rightarrow> bool) \<Rightarrow> string \<Rightarrow> mission \<Rightarrow> mission_store \<Rightarrow> (mission_error, mission) res \<times> mission_store" where
  "write_mission ualnum now m st =
     (let m1 = m\<lparr>ms_updated := now\<rparr> in
      case mission_path ualnum (ms_id m) of
        Inl e \<Rightarrow> (Inl e, st)
      | Inr name \<Rightarrow>
          (case atomic_write name (mission_to_dict m1) st of
             (Inl e, st1) \<Rightarrow> (Inl e, st1)
           | (Inr _, st1) \<Rightarrow> (Inr m1, st1)))"

definition store_create ::
  "(string \<Rightarrow> bool) \<Rightarrow> string \<Rightarrow> mission \<Rightarrow> mission_store \<Rightarrow> (mission_error, mission) res \<times> mission_store" where
  "store_create ualnum now m st =
     (case mission_path ualnum (ms_id m) of
        Inl e \<Rightarrow> (Inl e, st)
      | Inr name \<Rightarrow>
          if dhas (st_files st) name then (Inl (MissionExists (''mission already exists: '' @ ms_id m)), st)
          else write_mission ualnum now m st)"

definition read_mission ::
  "(string \<Rightarrow> bool) \<Rightarrow> (jval \<Rightarrow> string) \<Rightarrow> string \<Rightarrow> mission_store \<Rightarrow> (mission_error, mission) res" where
  "read_mission ualnum py_str mid st =
     res_bind (mission_path ualnum mid) (\<lambda>name. res_bind (read_mission_json name st) (mission_from_dict py_str))"

text \<open>Read, change, write back.\<close>

definition update_mission ::
  "(string \<Rightarrow> bool) \<Rightarrow> (jval \<Rightarrow> string) \<Rightarrow> string \<Rightarrow> string \<Rightarrow> (mission \<Rightarrow> (mission_error, mission) res) \<Rightarrow> mission_store
    \<Rightarrow> (mission_error, mission) res \<times> mission_store" where
  "update_mission ualnum py_str now mid change st =
     (case res_bind (read_mission ualnum py_str mid st) change of
        Inl e \<Rightarrow> (Inl e, st)
      | Inr m \<Rightarrow> write_mission ualnum now m st)"

definition set_status :: "string \<Rightarrow> string option \<Rightarrow> mission \<Rightarrow> (mission_error, mission) res" where
  "set_status status failure m =
     Inr (m\<lparr>ms_status := status, ms_failure := (case failure of None \<Rightarrow> ms_failure m | Some f \<Rightarrow> Some f)\<rparr>)"

definition add_event :: "string \<Rightarrow> jdict \<Rightarrow> mission \<Rightarrow> (mission_error, mission) res" where
  "add_event now event m = Inr (m\<lparr>ms_events := ms_events m @ [dsetdefault ''ts_utc'' (JStr now) event]\<rparr>)"

definition add_task :: "mission_task \<Rightarrow> mission \<Rightarrow> (mission_error, mission) res" where
  "add_task t m =
     res_bind (require (mt_mission t = ms_id m) (ValueError ''task mission_id does not match mission'')) (\<lambda>_.
       Inr (m\<lparr>ms_tasks := ms_tasks m @ [t], ms_status := (if ms_status m = ''draft'' then ''planned'' else ms_status m)\<rparr>))"

definition add_approval :: "approval + jdict \<Rightarrow> mission \<Rightarrow> (mission_error, mission) res" where
  "add_approval r m =
     (let d = (case r of Inl a \<Rightarrow> approval_to_dict a | Inr d \<Rightarrow> d) in
      res_bind (validate_approval_record_dict d) (\<lambda>_.
      res_bind (require (the_str (jget d ''mission_id'') = ms_id m) (ValueError ''approval mission_id does not match mission'')) (\<lambda>_.
        Inr (m\<lparr>ms_approvals := ms_approvals m @ [d]\<rparr>))))"

definition add_consensus :: "consensus + jdict \<Rightarrow> mission \<Rightarrow> (mission_error, mission) res" where
  "add_consensus r m =
     (let d = (case r of Inl c \<Rightarrow> consensus_to_dict c | Inr d \<Rightarrow> d) in
      res_bind (validate_consensus_record_dict d) (\<lambda>_.
      res_bind (require (the_str (jget d ''mission_id'') = ms_id m) (ValueError ''consensus mission_id does not match mission'')) (\<lambda>_.
        Inr (m\<lparr>ms_consensus := ms_consensus m @ [d]\<rparr>))))"

text \<open>An archived file whose name is taken gets the time stamp \<open>stamp\<close>.\<close>

definition archive_mission ::
  "(string \<Rightarrow> bool) \<Rightarrow> (jval \<Rightarrow> string) \<Rightarrow> string \<Rightarrow> string \<Rightarrow> string \<Rightarrow> mission_store
    \<Rightarrow> (mission_error, string) res \<times> mission_store" where
  "archive_mission ualnum py_str now stamp mid st =
     (case update_mission ualnum py_str now mid (set_status ''archived'' None) st of
        (Inl e, st1) \<Rightarrow> (Inl e, st1)
      | (Inr m, st1) \<Rightarrow>
          (case mission_path ualnum (ms_id m) of
             Inl e \<Rightarrow> (Inl e, st1)
           | Inr name \<Rightarrow>
               (let dst = (if dhas (st_archive st1) name then name @ ''.'' @ stamp else name) in
                case dget (st_files st1) name of
                  None \<Rightarrow> (Inl MissionMissing, st1)
                | Some t \<Rightarrow> (Inr dst, st1\<lparr>st_files := dpop name (st_files st1), st_archive := dput dst t (st_archive st1)\<rparr>))))"

section \<open>Planning\<close>

fun plan_tasks ::
  "string \<Rightarrow> string list \<Rightarrow> string \<Rightarrow> jdict \<Rightarrow> mission \<Rightarrow> string option list \<Rightarrow> (mission_error, mission_task list) res" where
  "plan_tasks now uuids path registry m [] = Inr []"
| "plan_tasks now uuids path registry m (repo # repos) =
     (let payload = (case repo of None \<Rightarrow> [] | Some r \<Rightarrow> if r = [] then [] else [(''target_repository'', JStr r)]);
          rt = fst (route_of_registry path registry payload)
      in res_bind (create_task now (hd uuids) (ms_id m) (ms_instruction m) repo (Some (rt_primary rt)) (Some (rt_twin rt))
             (ms_priority m) [] [] None) (\<lambda>t.
         res_bind (plan_tasks now (tl uuids) path registry m repos) (\<lambda>ts. Inr (t # ts))))"

definition plan_repositories :: "mission \<Rightarrow> string option list" where
  "plan_repositories m =
     (if ms_repositories m \<noteq> [] then map Some (ms_repositories m)
      else case ms_repository m of None \<Rightarrow> [None] | Some r \<Rightarrow> if r = [] then [None] else [Some r])"

definition plan_mission :: "string \<Rightarrow> string list \<Rightarrow> string \<Rightarrow> jdict \<Rightarrow> mission \<Rightarrow> (mission_error, mission) res" where
  "plan_mission now uuids path registry m =
     res_bind (plan_tasks now uuids path registry m (plan_repositories m)) (\<lambda>ts.
       Inr (m\<lparr>ms_tasks := ts, ms_status := ''planned'', ms_updated := now\<rparr>))"

section \<open>The queue slot\<close>

record queue_result =
  qa_enqueued :: bool
  qa_blocked :: bool
  qa_payload :: jdict
  qa_reason :: "string option"

definition build_payload :: "string \<Rightarrow> mission_task \<Rightarrow> jdict" where
  "build_payload now t =
     [(''task_id'', JStr (mt_id t)), (''mission_id'', JStr (mt_mission t)), (''instruction'', JStr (mt_instruction t)),
      (''priority'', JInt (mt_priority t)), (''target_repository'', opt_json (mt_repository t)),
      (''source'', JStr ''mission-engine''), (''enqueued_utc'', JStr now)]"

text \<open>The file is created exclusively, so an occupied slot is left alone.\<close>

definition enqueue_task :: "string \<Rightarrow> mission_task \<Rightarrow> jdict option \<Rightarrow> queue_result \<times> jdict option" where
  "enqueue_task now t slot =
     (let payload = build_payload now t in
      case slot of
        Some q \<Rightarrow> (\<lparr>qa_enqueued = False, qa_blocked = True, qa_payload = payload,
                    qa_reason = Some ''legacy queue slot already occupied''\<rparr>, slot)
      | None \<Rightarrow> (\<lparr>qa_enqueued = True, qa_blocked = False, qa_payload = payload, qa_reason = None\<rparr>, Some payload))"

section \<open>Readable missions\<close>

definition task_valid :: "mission_task \<Rightarrow> bool" where
  "task_valid t \<longleftrightarrow> validate_task_dict (task_to_dict t) = Inr ()"

definition readable :: "mission \<Rightarrow> bool" where
  "readable m \<longleftrightarrow> mission_wf m \<and> validate_mission_dict (mission_to_dict m) = Inr () \<and> (\<forall>t \<in> set (ms_tasks m). task_valid t)"

lemma wf_opt_json [simp]: "wf_json (opt_json s)" "list_all (wf_json \<circ> JStr) xs"
  by (cases s; simp add: opt_json_def) (simp add: list_all_iff)

lemma mission_wf_iff:
  "mission_wf m \<longleftrightarrow> (\<forall>t \<in> set (ms_tasks m). \<forall>q. mt_queue t = Some q \<longrightarrow> wf_json (JObj q)) \<and>
     (\<forall>d \<in> set (ms_approvals m) \<union> set (ms_consensus m) \<union> set (ms_events m) \<union> set (ms_artifacts m). wf_json (JObj d))"
proof -
  have t: "wf_json (JObj (task_to_dict t)) \<longleftrightarrow> (\<forall>q. mt_queue t = Some q \<longrightarrow> wf_json (JObj q))" for t
    by (simp add: task_to_dict_def list_all_iff split: option.split)
  have l: "list_all wf_json (map JObj ds) \<longleftrightarrow> (\<forall>d \<in> set ds. wf_json (JObj d))" for ds
    by (simp only: list_all_iff set_map ball_simps)
  have tl: "list_all wf_json (map (\<lambda>t. JObj (task_to_dict t)) ts) \<longleftrightarrow> (\<forall>t \<in> set ts. \<forall>q. mt_queue t = Some q \<longrightarrow> wf_json (JObj q))" for ts
    by (simp only: list_all_iff set_map ball_simps t)
  show ?thesis
    unfolding mission_wf_def mission_to_dict_def wf_json.simps(3) list.pred_inject snd_conv wf_json.simps(2) l tl ball_Un
    by (simp add: list_all_iff del: wf_json.simps(3))
qed

lemma strip_norm_fields [simp]:
  "mt_id (norm_task t) = mt_id t" "mt_mission (norm_task t) = mt_mission t" "mt_instruction (norm_task t) = mt_instruction t"
  "mt_status (norm_task t) = mt_status t" "mt_created (norm_task t) = mt_created t" "mt_updated (norm_task t) = mt_updated t"
  "mt_queue (norm_task t) = map_option canon_dict (mt_queue t)"
  by (simp_all add: norm_task_def)

lemma task_valid_norm [simp]: "task_valid (norm_task t) = task_valid t"
  by (simp add: task_valid_def validate_task_dict_def require_str_def require_in_def require_list_def)

lemma norm_mission_fields [simp]:
  "ms_id (norm_mission m) = ms_id m" "ms_title (norm_mission m) = ms_title m" "ms_instruction (norm_mission m) = ms_instruction m"
  "ms_status (norm_mission m) = ms_status m" "ms_created (norm_mission m) = ms_created m" "ms_updated (norm_mission m) = ms_updated m"
  "ms_tasks (norm_mission m) = map norm_task (ms_tasks m)" "ms_approvals (norm_mission m) = map canon_dict (ms_approvals m)"
  "ms_consensus (norm_mission m) = map canon_dict (ms_consensus m)" "ms_events (norm_mission m) = map canon_dict (ms_events m)"
  "ms_artifacts (norm_mission m) = map canon_dict (ms_artifacts m)"
  by (simp_all add: norm_mission_def)

text \<open>What the validator of a mission asks for.\<close>

lemma validate_mission_iff:
  "validate_mission_dict (mission_to_dict m) = Inr () \<longleftrightarrow>
     strip (ms_id m) \<noteq> [] \<and> strip (ms_title m) \<noteq> [] \<and> strip (ms_instruction m) \<noteq> [] \<and> ms_status m \<in> set MISSION_STATUSES \<and>
     strip (ms_created m) \<noteq> [] \<and> strip (ms_updated m) \<noteq> [] \<and>
     (\<forall>d \<in> set (ms_approvals m). validate_approval_record_dict d = Inr ()) \<and>
     (\<forall>d \<in> set (ms_consensus m). validate_consensus_record_dict d = Inr ())"
proof -
  have "\<forall>s \<in> set MISSION_STATUSES. strip s \<noteq> []" by code_simp
  then show ?thesis
    by (auto simp: validate_mission_dict_def require_str_def require_list_def require_in_def)
qed

lemma readable_norm: "readable m \<Longrightarrow> readable (norm_mission m)"
proof -
  assume r: "readable m"
  then have wf: "\<forall>d \<in> set (ms_approvals m) \<union> set (ms_consensus m) \<union> set (ms_events m) \<union> set (ms_artifacts m). wf_json (JObj d)"
    and q: "\<forall>t \<in> set (ms_tasks m). \<forall>q. mt_queue t = Some q \<longrightarrow> wf_json (JObj q)"
    by (simp_all add: readable_def mission_wf_iff del: wf_json.simps)
  have wd: "wf_dict d" if "d \<in> set (ms_approvals m) \<union> set (ms_consensus m)" for d
    using wf that by (auto simp: wf_dict_def)
  have "mission_wf (norm_mission m)"
    unfolding mission_wf_iff using wf q wf_canon_dict by (fastforce simp del: wf_json.simps)
  moreover have "validate_mission_dict (mission_to_dict (norm_mission m)) = Inr ()"
    using r wd unfolding readable_def validate_mission_iff by (simp add: validate_canon)
  ultimately show ?thesis using r by (simp add: readable_def)
qed

lemma mission_read_written:
  assumes "mission_wf m" and "validate_mission_dict (mission_to_dict m) = Inr ()"
    and "dget (st_files st) name = Some (file_json (JObj (mission_to_dict m)))" and "mission_path ualnum mid = Inr name"
  shows "read_mission ualnum py_str mid st = Inr m' \<longleftrightarrow> readable m \<and> m' = norm_mission m"
proof -
  have "loads (file_json (JObj (mission_to_dict m))) = Some (JObj (canon_dict (mission_to_dict m)))"
    using loads_file_json [of "JObj (mission_to_dict m)"] assms(1) by (simp add: mission_wf_def canon_JObj del: canon.simps wf_json.simps)
  then have "read_mission_json name st = Inr (canon_dict (mission_to_dict m))"
    using assms(2,3) by (simp add: read_mission_json_def validate_mission_canon [OF assms(1)])
  then show ?thesis
    using mission_read_back [OF assms(1), of py_str m'] assms(1,2,4)
    by (simp add: read_mission_def readable_def task_valid_def)
qed

section \<open>Operations keep the files readable\<close>

definition store_ok :: "(string \<Rightarrow> bool) \<Rightarrow> mission_store \<Rightarrow> bool" where
  "store_ok ualnum st \<longleftrightarrow>
     (\<forall>name t. dget (st_files st) name = Some t \<longrightarrow>
        (\<exists>m. readable m \<and> mission_path ualnum (ms_id m) = Inr name \<and> t = file_json (JObj (mission_to_dict m))))"

lemma store_ok_read:
  assumes "store_ok ualnum st" and "read_mission ualnum py_str mid st = Inr m"
  shows "readable m \<and> mission_path ualnum (ms_id m) = mission_path ualnum mid"
proof -
  obtain name where n: "mission_path ualnum mid = Inr name" "dget (st_files st) name \<noteq> None"
    using assms(2) by (auto simp: read_mission_def res_bind_Inr_iff read_mission_json_def split: option.splits)
  then obtain m0 where m0: "readable m0" "mission_path ualnum (ms_id m0) = Inr name"
      "dget (st_files st) name = Some (file_json (JObj (mission_to_dict m0)))"
    using assms(1) unfolding store_ok_def by (metis not_Some_eq)
  then have "m = norm_mission m0"
    using mission_read_written [of m0 st name ualnum mid py_str m] n assms(2) by (simp add: readable_def)
  with m0 n readable_norm show ?thesis by simp
qed

lemma store_ok_write:
  assumes "store_ok ualnum st" and "mission_wf m" and "\<forall>t \<in> set (ms_tasks m). task_valid t"
  shows "store_ok ualnum (snd (write_mission ualnum now m st))"
proof -
  let ?m = "m\<lparr>ms_updated := now\<rparr>"
  have wf: "mission_wf ?m" using assms(2) by (simp add: mission_wf_iff del: wf_json.simps)
  show ?thesis
  proof (cases "\<exists>name. mission_path ualnum (ms_id m) = Inr name \<and> validate_mission_dict (mission_to_dict ?m) = Inr ()")
    case True
    with wf assms(3) have "readable ?m" by (simp add: readable_def)
    moreover obtain name where n: "mission_path ualnum (ms_id ?m) = Inr name" using True by auto
    moreover have "snd (write_mission ualnum now m st) = st\<lparr>st_files := dput name (file_json (JObj (mission_to_dict ?m))) (st_files st)\<rparr>"
      using True n by (auto simp: write_mission_def atomic_write_def Let_def)
    ultimately show ?thesis
      using assms(1) unfolding store_ok_def by (auto simp: dget_dput split: if_splits)
  next
    case False
    then have "snd (write_mission ualnum now m st) = st"
      by (auto simp: write_mission_def atomic_write_def Let_def split: sum.split prod.split)
    with assms(1) show ?thesis by simp
  qed
qed

lemma store_ok_update:
  assumes "store_ok ualnum st"
    and "\<And>m m'. readable m \<Longrightarrow> change m = Inr m' \<Longrightarrow> mission_wf m' \<and> (\<forall>t \<in> set (ms_tasks m'). task_valid t)"
  shows "store_ok ualnum (snd (update_mission ualnum py_str now mid change st))"
proof (cases "res_bind (read_mission ualnum py_str mid st) change")
  case (Inl e)
  with assms(1) show ?thesis by (simp add: update_mission_def)
next
  case (Inr m')
  then obtain m where m: "read_mission ualnum py_str mid st = Inr m" "change m = Inr m'" by (auto simp: res_bind_Inr_iff)
  with store_ok_read [OF assms(1) m(1)] assms(2) have "mission_wf m'" "\<forall>t \<in> set (ms_tasks m'). task_valid t" by blast+
  from store_ok_write [OF assms(1) this] Inr show ?thesis by (simp add: update_mission_def)
qed

datatype store_op =
    Op_Create mission
  | Op_Write mission
  | Op_Status string string "string option"
  | Op_Event string jdict
  | Op_Task string mission_task
  | Op_Approval string "approval + jdict"
  | Op_Consensus string "consensus + jdict"
  | Op_Plan string "string list" string jdict
  | Op_Archive string string

fun store_step :: "(string \<Rightarrow> bool) \<Rightarrow> (jval \<Rightarrow> string) \<Rightarrow> mission_store \<Rightarrow> string \<times> store_op \<Rightarrow> mission_store" where
  "store_step ualnum py_str st (now, Op_Create m) = snd (store_create ualnum now m st)"
| "store_step ualnum py_str st (now, Op_Write m) = snd (write_mission ualnum now m st)"
| "store_step ualnum py_str st (now, Op_Status mid status failure) =
     snd (update_mission ualnum py_str now mid (set_status status failure) st)"
| "store_step ualnum py_str st (now, Op_Event mid event) = snd (update_mission ualnum py_str now mid (add_event now event) st)"
| "store_step ualnum py_str st (now, Op_Task mid t) = snd (update_mission ualnum py_str now mid (add_task t) st)"
| "store_step ualnum py_str st (now, Op_Approval mid r) = snd (update_mission ualnum py_str now mid (add_approval r) st)"
| "store_step ualnum py_str st (now, Op_Consensus mid r) = snd (update_mission ualnum py_str now mid (add_consensus r) st)"
| "store_step ualnum py_str st (now, Op_Plan mid uuids path registry) =
     snd (update_mission ualnum py_str now mid (plan_mission now uuids path registry) st)"
| "store_step ualnum py_str st (now, Op_Archive mid stamp) = snd (archive_mission ualnum py_str now stamp mid st)"

text \<open>The data given to an operation are JSON values, and tasks have passed their validator, as those
  of \<open>create_task\<close> have.\<close>

fun op_ok :: "store_op \<Rightarrow> bool" where
  "op_ok (Op_Create m) \<longleftrightarrow> mission_wf m \<and> (\<forall>t \<in> set (ms_tasks m). task_valid t)"
| "op_ok (Op_Write m) \<longleftrightarrow> mission_wf m \<and> (\<forall>t \<in> set (ms_tasks m). task_valid t)"
| "op_ok (Op_Event mid event) \<longleftrightarrow> wf_json (JObj event)"
| "op_ok (Op_Task mid t) \<longleftrightarrow> task_valid t \<and> (\<forall>q. mt_queue t = Some q \<longrightarrow> wf_json (JObj q))"
| "op_ok (Op_Approval mid r) \<longleftrightarrow> (case r of Inl a \<Rightarrow> wf_json (JObj (ap_metadata a)) | Inr d \<Rightarrow> wf_json (JObj d))"
| "op_ok (Op_Consensus mid r) \<longleftrightarrow> (case r of Inl c \<Rightarrow> wf_json (JObj (cr_metadata c)) | Inr d \<Rightarrow> wf_json (JObj d))"
| "op_ok _ \<longleftrightarrow> True"

lemma wf_record [simp]:
  "wf_json (JObj (approval_to_dict a)) \<longleftrightarrow> wf_json (JObj (ap_metadata a))"
  "wf_json (JObj (consensus_to_dict c)) \<longleftrightarrow> wf_json (JObj (cr_metadata c))"
  by (simp_all add: approval_to_dict_def consensus_to_dict_def)

lemma create_task_valid:
  assumes "create_task now uuid mid ins repo pr tw prio tools deps tid = Inr t"
  shows "task_valid t \<and> mt_queue t = None"
proof -
  obtain t0 where "res_bind (validate_task_dict (task_to_dict t0)) (\<lambda>_. Inr t0) = Inr t" and "mt_queue t0 = None"
    using assms unfolding create_task_def Let_def by (metis mission_task.select_convs(13))
  then show ?thesis unfolding res_bind_Inr_iff task_valid_def by (metis (mono_tags) old.unit.exhaust sum.inject(2))
qed

lemma plan_tasks_valid:
  "plan_tasks now uuids path registry m repos = Inr ts \<Longrightarrow> \<forall>t \<in> set ts. task_valid t \<and> mt_queue t = None"
proof (induction repos arbitrary: uuids ts)
  case Nil
  then show ?case by simp
next
  case (Cons repo repos)
  then obtain t ts' pr tw where "ts = t # ts'" and "plan_tasks now (tl uuids) path registry m repos = Inr ts'"
      and "create_task now (hd uuids) (ms_id m) (ms_instruction m) repo pr tw (ms_priority m) [] [] None = Inr t"
    unfolding plan_tasks.simps Let_def res_bind_Inr_iff by blast
  with Cons.IH [of "tl uuids" ts'] create_task_valid [of now] show ?case by auto
qed

text \<open>The changes the store makes to a mission keep what a write needs.\<close>

definition change_ok :: "(mission \<Rightarrow> (mission_error, mission) res) \<Rightarrow> bool" where
  "change_ok change \<longleftrightarrow>
     (\<forall>m m'. readable m \<longrightarrow> change m = Inr m' \<longrightarrow> mission_wf m' \<and> (\<forall>t \<in> set (ms_tasks m'). task_valid t))"

lemma change_ok_update:
  "store_ok ualnum st \<Longrightarrow> change_ok change \<Longrightarrow> store_ok ualnum (snd (update_mission ualnum py_str now mid change st))"
  by (rule store_ok_update) (auto simp: change_ok_def)

lemma readable_wf:
  "readable m \<Longrightarrow> (\<forall>t \<in> set (ms_tasks m). task_valid t \<and> (\<forall>q. mt_queue t = Some q \<longrightarrow> wf_json (JObj q))) \<and>
     (\<forall>d \<in> set (ms_approvals m) \<union> set (ms_consensus m) \<union> set (ms_events m) \<union> set (ms_artifacts m). wf_json (JObj d))"
  unfolding readable_def mission_wf_iff by blast

lemma change_ok_status: "change_ok (set_status status failure)"
  unfolding change_ok_def mission_wf_iff
  by (auto simp: set_status_def dest!: readable_wf simp del: wf_json.simps)

lemma change_ok_event:
  assumes "wf_json (JObj event)"
  shows "change_ok (add_event now event)"
proof -
  have "wf_json (JObj (dsetdefault ''ts_utc'' (JStr now) event))"
    by (rule wf_dsetdefault [OF assms]) simp
  then show ?thesis
    unfolding change_ok_def mission_wf_iff
    by (auto simp: add_event_def dest!: readable_wf simp del: wf_json.simps)
qed

lemma change_ok_task:
  assumes "task_valid t" and "\<forall>q. mt_queue t = Some q \<longrightarrow> wf_json (JObj q)"
  shows "change_ok (add_task t)"
  unfolding change_ok_def mission_wf_iff using assms
  by (auto simp: add_task_def res_bind_Inr_iff dest!: readable_wf simp del: wf_json.simps)

lemma change_ok_approval:
  assumes "case r of Inl a \<Rightarrow> wf_json (JObj (ap_metadata a)) | Inr d \<Rightarrow> wf_json (JObj d)"
  shows "change_ok (add_approval r)"
proof -
  have "wf_json (JObj (case r of Inl a \<Rightarrow> approval_to_dict a | Inr d \<Rightarrow> d))"
    using assms by (cases r) (simp_all del: wf_json.simps)
  then show ?thesis
    unfolding change_ok_def mission_wf_iff
    by (auto simp: add_approval_def Let_def res_bind_Inr_iff dest!: readable_wf simp del: wf_json.simps)
qed

lemma change_ok_consensus:
  assumes "case r of Inl c \<Rightarrow> wf_json (JObj (cr_metadata c)) | Inr d \<Rightarrow> wf_json (JObj d)"
  shows "change_ok (add_consensus r)"
proof -
  have "wf_json (JObj (case r of Inl c \<Rightarrow> consensus_to_dict c | Inr d \<Rightarrow> d))"
    using assms by (cases r) (simp_all del: wf_json.simps)
  then show ?thesis
    unfolding change_ok_def mission_wf_iff
    by (auto simp: add_consensus_def Let_def res_bind_Inr_iff dest!: readable_wf simp del: wf_json.simps)
qed

lemma change_ok_plan: "change_ok (plan_mission now uuids path registry)"
  unfolding change_ok_def mission_wf_iff
  by (auto simp: plan_mission_def res_bind_Inr_iff dest!: readable_wf plan_tasks_valid simp del: wf_json.simps)

lemma store_ok_archived:
  "store_ok ualnum st \<Longrightarrow> store_ok ualnum (st\<lparr>st_files := dpop name (st_files st), st_archive := a\<rparr>)"
  unfolding store_ok_def by (simp add: dget_dpop)

lemma store_step_ok:
  assumes "store_ok ualnum st" and "op_ok e"
  shows "store_ok ualnum (store_step ualnum py_str st (now, e))"
proof (cases e)
  case (Op_Create m)
  with assms store_ok_write [OF assms(1)] show ?thesis by (auto simp: store_create_def split: sum.split)
next
  case (Op_Archive mid stamp)
  obtain r st1 where u: "update_mission ualnum py_str now mid (set_status ''archived'' None) st = (r, st1)" by fastforce
  then have "store_ok ualnum st1"
    using change_ok_update [OF assms(1) change_ok_status] by (metis snd_conv)
  then show ?thesis
    using u store_ok_archived by (auto simp: Op_Archive archive_mission_def Let_def split: sum.split option.split)
qed (use assms store_ok_write [OF assms(1)] change_ok_update [OF assms(1)] change_ok_status change_ok_event change_ok_task
      change_ok_approval change_ok_consensus change_ok_plan in \<open>simp_all del: wf_json.simps\<close>)

lemma store_run_ok:
  assumes "store_ok ualnum st" and "\<forall>(now, e) \<in> set ops. op_ok e"
  shows "store_ok ualnum (foldl (store_step ualnum py_str) st ops)"
  using assms by (induction ops arbitrary: st) (auto intro: store_step_ok)

section \<open>What the store promises\<close>

definition empty_store :: mission_store where
  "empty_store = \<lparr>st_files = [], st_archive = []\<rparr>"

definition sample_mission :: mission where
  "sample_mission =
     \<lparr>ms_id = ''m'', ms_title = ''t'', ms_instruction = ''i'', ms_repository = None, ms_repositories = [], ms_priority = 0,
      ms_status = ''draft'', ms_risk = ''standard'', ms_created = ''now'', ms_updated = ''now'', ms_tasks = [],
      ms_approvals = [], ms_consensus = [], ms_events = [], ms_artifacts = [], ms_failure = None\<rparr>"

lemma sample_path [simp]: "mission_path ualnum ''m'' = Inr ''m''"
proof -
  have "uchars ''m'' = [''m'']" and "ascii_alnum (CHR ''m'')" by code_simp+
  then show ?thesis by (simp add: mission_path_def safe_unit_def)
qed

lemma sample_valid [simp]:
  "mission_wf sample_mission" "validate_mission_dict (mission_to_dict sample_mission) = Inr ()"
  "validate_mission_dict (mission_to_dict (sample_mission\<lparr>ms_updated := ''u''\<rparr>)) = Inr ()"
  by (code_simp)+

lemma store_ok_empty: "store_ok ualnum empty_store"
  by (simp add: store_ok_def empty_store_def)

lemma store_ok_reads:
  assumes "store_ok ualnum st" and "dget (st_files st) name = Some t"
  obtains m where "readable m" and "mission_path ualnum (ms_id m) = Inr name"
    and "read_mission ualnum py_str (ms_id m) st = Inr (norm_mission m)"
proof -
  obtain m where m: "readable m" "mission_path ualnum (ms_id m) = Inr name" "t = file_json (JObj (mission_to_dict m))"
    using assms unfolding store_ok_def by blast
  have "read_mission ualnum py_str (ms_id m) st = Inr (norm_mission m)"
    using m assms(2) mission_read_written [of m st name ualnum "ms_id m" py_str] by (simp add: readable_def)
  with m that show thesis by blast
qed

text \<open>C34: Whatever sequence of creations, writes, status changes, appended events, tasks, approvals and
  consensus records, plans and archivings a mission store goes through, successful or refused, each mission
  file it holds can be read back under the mission's own id, provided the tasks and the records given to it
  are well formed and its tasks have passed the task validator.\<close>

theorem missions_stay_readable:
  assumes "\<forall>(now, e) \<in> set ops. op_ok e"
    and "dget (st_files (foldl (store_step ualnum py_str) empty_store ops)) name = Some t"
  shows "\<exists>m. mission_path ualnum (ms_id m) = Inr name \<and>
    read_mission ualnum py_str (ms_id m) (foldl (store_step ualnum py_str) empty_store ops) = Inr m"
proof -
  have "store_ok ualnum (foldl (store_step ualnum py_str) empty_store ops)"
    by (rule store_run_ok [OF store_ok_empty assms(1)])
  then obtain m where "readable m" "mission_path ualnum (ms_id m) = Inr name"
      "read_mission ualnum py_str (ms_id m) (foldl (store_step ualnum py_str) empty_store ops) = Inr (norm_mission m)"
    using store_ok_reads [OF _ assms(2)] by blast
  then show ?thesis by (metis norm_mission_fields(1))
qed

lemma sample_created:
  "store_step ualnum py_str empty_store (''u'', Op_Create sample_mission) =
     \<lparr>st_files = [(''m'', file_json (JObj (mission_to_dict (sample_mission\<lparr>ms_updated := ''u''\<rparr>))))], st_archive = []\<rparr>"
proof -
  have "ms_id sample_mission = ''m''" by (simp add: sample_mission_def)
  then show ?thesis
    by (simp add: store_create_def write_mission_def atomic_write_def empty_store_def Let_def dput_def dhas_def)
qed

theorem missions_stay_readable_witness:
  "\<exists>m. mission_path (\<lambda>_. False) (ms_id m) = Inr ''m'' \<and>
    read_mission (\<lambda>_. False) (\<lambda>_. []) (ms_id m) (store_step (\<lambda>_. False) (\<lambda>_. []) empty_store (''u'', Op_Create sample_mission)) = Inr m"
proof -
  have "dget (st_files (store_step (\<lambda>_. False) (\<lambda>_. []) empty_store (''u'', Op_Create sample_mission))) ''m'' \<noteq> None"
    unfolding sample_created by simp
  moreover have "op_ok (Op_Create sample_mission)" by (simp add: sample_mission_def) (simp add: sample_valid [unfolded sample_mission_def])
  ultimately show ?thesis
    using missions_stay_readable [of "[(''u'', Op_Create sample_mission)]"] by fastforce
qed



text \<open>Appending a task that its validator would refuse is not refused: the write succeeds, since the
  mission validator does not look into tasks, and from then on the mission cannot be read under any id.\<close>

theorem invalid_task_unreadable:
  assumes "store_ok ualnum st" and "read_mission ualnum py_str mid st = Inr m"
    and "mt_mission t = ms_id m" and "\<not> task_valid t" and "\<forall>q. mt_queue t = Some q \<longrightarrow> wf_json (JObj q)"
    and "strip now \<noteq> []" and "mission_path ualnum mid' = mission_path ualnum mid"
  shows "\<exists>m1. fst (update_mission ualnum py_str now mid (add_task t) st) = Inr m1 \<and>
    (\<forall>m2. read_mission ualnum py_str mid' (snd (update_mission ualnum py_str now mid (add_task t) st)) \<noteq> Inr m2)"
proof -
  have r: "readable m" and p: "mission_path ualnum (ms_id m) = mission_path ualnum mid"
    using store_ok_read [OF assms(1,2)] by simp_all
  obtain name where n: "mission_path ualnum mid = Inr name"
    using assms(2) by (auto simp: read_mission_def res_bind_Inr_iff)
  let ?m1 = "m\<lparr>ms_tasks := ms_tasks m @ [t], ms_status := (if ms_status m = ''draft'' then ''planned'' else ms_status m),
      ms_updated := now\<rparr>"
  have wf: "mission_wf ?m1"
    using readable_wf [OF r] assms(5) unfolding mission_wf_iff by auto
  have "''planned'' \<in> set MISSION_STATUSES" by code_simp
  then have v: "validate_mission_dict (mission_to_dict ?m1) = Inr ()"
    using r assms(6) unfolding readable_def validate_mission_iff by simp
  have "update_mission ualnum py_str now mid (add_task t) st =
      (Inr ?m1, st\<lparr>st_files := dput name (file_json (JObj (mission_to_dict ?m1))) (st_files st)\<rparr>)"
    using assms(2,3) p n v by (simp add: update_mission_def add_task_def write_mission_def atomic_write_def Let_def require_def)
  moreover have "\<not> readable ?m1" using assms(4) by (simp add: readable_def)
  ultimately show ?thesis
    using mission_read_written [OF wf v, of _ name ualnum mid' py_str] n assms(7) by (simp add: dget_dput)
qed

definition blank_task :: mission_task where
  "blank_task =
     \<lparr>mt_id = ''t'', mt_mission = ''m'', mt_instruction = [], mt_repository = None, mt_primary = None, mt_twin = None,
      mt_tools = [], mt_status = ''pending'', mt_priority = 0, mt_depends = [], mt_created = ''now'', mt_updated = ''now'',
      mt_queue = None\<rparr>"

theorem invalid_task_unreadable_witness:
  "let st = store_step (\<lambda>_. False) (\<lambda>_. []) empty_store (''u'', Op_Create sample_mission);
       r = update_mission (\<lambda>_. False) (\<lambda>_. []) ''v'' ''m'' (add_task blank_task) st
   in (\<exists>m1. fst r = Inr m1) \<and> (\<forall>m2. read_mission (\<lambda>_. False) (\<lambda>_. []) ''m'' (snd r) \<noteq> Inr m2)"
proof -
  let ?st = "store_step (\<lambda>_. False) (\<lambda>_. []) empty_store (''u'', Op_Create sample_mission)"
  let ?m = "sample_mission\<lparr>ms_updated := ''u''\<rparr>"
  have i: "ms_id ?m = ''m''" "ms_tasks ?m = []" by (simp_all add: sample_mission_def)
  have wf: "mission_wf ?m" "validate_mission_dict (mission_to_dict ?m) = Inr ()"
    using sample_valid(1) by (simp_all add: mission_wf_iff del: wf_json.simps)
  then have "readable ?m" using i by (simp add: readable_def)
  then have rd: "read_mission (\<lambda>_. False) (\<lambda>_. []) ''m'' ?st = Inr (norm_mission ?m)"
    using mission_read_written [OF wf, of ?st "''m''" "\<lambda>_. False" "''m''" "\<lambda>_. []"] unfolding sample_created by simp
  have ok: "store_ok (\<lambda>_. False) ?st"
    using store_step_ok [OF store_ok_empty, of "Op_Create sample_mission" "\<lambda>_. False" "\<lambda>_. []" "''u''"] i by simp
  have "\<not> task_valid blank_task" "strip ''v'' \<noteq> []" "mt_queue blank_task = None" "mt_mission blank_task = ''m''" by code_simp+
  then show ?thesis
    using invalid_task_unreadable [OF ok rd, of blank_task "''v''" "''m''"] i by (simp add: Let_def del: store_step.simps)
qed

end
