(* ===== verification/Work_Queue.thy ===== *)
theory Work_Queue
  imports Missions
begin

text \<open>
  \<^verbatim>\<open>src/work_queue_manager\<close> (\<^verbatim>\<open>contracts.py\<close>, \<^verbatim>\<open>dependency_graph.py\<close>,
  \<^verbatim>\<open>scoring.py\<close>, \<^verbatim>\<open>planner.py\<close>): refined work packages become a queue. Dependencies
  between packages are inferred from their kinds, ordered by a depth-first search, and the
  packages are scored and sorted.

  The parameters are \<open>low\<close>, which is \<^verbatim>\<open>str.lower\<close>, and \<open>py_str\<close>, the text of a
  container or a float. The lemmas show what the search delivers on every dependency map, and
  where a package stands in the queue in relation to what it depends on.
\<close>

datatype queue_error = QueueValueError string

section \<open>Contracts\<close>

definition EXECUTION_READINESS :: "string list" where
  "EXECUTION_READINESS = [''ready'', ''waiting'', ''blocked'', ''deferred'']"

definition PRIORITIES :: "string list" where
  "PRIORITIES = [''P0'', ''P1'', ''P2'', ''P3'', ''P4'']"

record work_item =
  wi_id :: string
  wi_source :: string
  wi_title :: string
  wi_subsystem :: string
  wi_priority :: string
  wi_readiness :: int
  wi_effort :: int
  wi_risk :: int
  wi_blockers :: int
  wi_deps :: "string list"
  wi_position :: int
  wi_execution :: string
  wi_advisory :: bool
  wi_metadata :: jdict

definition work_item_to_dict :: "work_item \<Rightarrow> jdict" where
  "work_item_to_dict w =
     [(''queue_item_id'', JStr (wi_id w)), (''source_refined_package_id'', JStr (wi_source w)), (''title'', JStr (wi_title w)),
      (''subsystem'', JStr (wi_subsystem w)), (''priority'', JStr (wi_priority w)), (''readiness_score'', JInt (wi_readiness w)),
      (''effort_score'', JInt (wi_effort w)), (''risk_score'', JInt (wi_risk w)), (''blocker_count'', JInt (wi_blockers w)),
      (''dependency_refs'', JArr (map JStr (wi_deps w))), (''recommended_position'', JInt (wi_position w)),
      (''execution_readiness'', JStr (wi_execution w)), (''advisory_only'', JBool (wi_advisory w)), (''metadata'', JObj (wi_metadata w))]"

text \<open>A blocker is the package it blocks and the packages that are missing.\<close>

type_synonym work_blocker = "string \<times> string list"

record work_report =
  wr_id :: string
  wr_generated :: string
  wr_items :: "work_item list"
  wr_dependencies :: "(string, string list) dict"
  wr_blockers :: "work_blocker list"
  wr_order :: "string list"
  wr_advisory :: bool
  wr_metadata :: jdict

definition blocker_json :: "work_blocker \<Rightarrow> jval" where
  "blocker_json b =
     JObj [(''queue_item_ref'', JStr (fst b)), (''type'', JStr ''missing_artifact''),
       (''missing_dependencies'', JArr (map JStr (snd b))), (''count'', JInt (int (length (snd b))))]"

definition work_report_to_dict :: "work_report \<Rightarrow> jdict" where
  "work_report_to_dict r =
     [(''report_id'', JStr (wr_id r)), (''generated_utc'', JStr (wr_generated r)),
      (''queue_items'', JArr (map (\<lambda>w. JObj (work_item_to_dict w)) (wr_items r))),
      (''dependency_graph'', JObj [(''dependencies'', JObj (map (\<lambda>(k, ds). (k, JArr (map JStr ds))) (wr_dependencies r)))]),
      (''blockers'', JArr (map blocker_json (wr_blockers r))),
      (''recommended_execution_order'', JArr (map JStr (wr_order r))), (''advisory_only'', JBool (wr_advisory r)),
      (''metadata'', JObj (wr_metadata r))]"

definition need_str :: "jdict \<Rightarrow> string \<Rightarrow> (queue_error, unit) res" where
  "need_str d k = require (filled (jget d k)) (QueueValueError (k @ '' required''))"

definition need_kind :: "(jval \<Rightarrow> bool) \<Rightarrow> string \<Rightarrow> jdict \<Rightarrow> string \<Rightarrow> (queue_error, unit) res" where
  "need_kind kind what d k = require (kind (jget d k)) (QueueValueError (k @ '' must be '' @ what))"

definition need_in :: "jdict \<Rightarrow> string \<Rightarrow> string list \<Rightarrow> (queue_error, unit) res" where
  "need_in d k allowed =
     require (the_str (jget d k) \<in> set allowed) (QueueValueError (''invalid '' @ k @ '': '' @ the_str (jget d k)))"

definition plain_int :: "jval \<Rightarrow> bool" where
  "plain_int v \<longleftrightarrow> is_int v \<and> \<not> is_bool v"

definition validate_work_queue_item_dict :: "jdict \<Rightarrow> (queue_error, unit) res" where
  "validate_work_queue_item_dict d =
     each (\<lambda>r. r)
       ([need_str d ''queue_item_id'', need_str d ''source_refined_package_id'', need_str d ''title'', need_str d ''subsystem'',
         need_str d ''priority'', need_in d ''priority'' PRIORITIES] @
        map (need_kind plain_int ''integer'' d)
          [''readiness_score'', ''effort_score'', ''risk_score'', ''blocker_count'', ''recommended_position''] @
        [need_kind is_arr ''list'' d ''dependency_refs'', need_str d ''execution_readiness'',
         need_in d ''execution_readiness'' EXECUTION_READINESS, need_kind is_bool ''bool'' d ''advisory_only'',
         need_kind is_obj ''dict'' d ''metadata''])"

definition validate_work_queue_report_dict :: "jdict \<Rightarrow> (queue_error, unit) res" where
  "validate_work_queue_report_dict d =
     each (\<lambda>r. r)
       ([need_str d ''report_id'', need_str d ''generated_utc'', need_kind is_arr ''list'' d ''queue_items''] @
        map validate_work_queue_item_dict (dict_list (jget d ''queue_items'')) @
        [need_kind is_obj ''dict'' d ''dependency_graph'', need_kind is_arr ''list'' d ''blockers'',
         need_kind is_arr ''list'' d ''recommended_execution_order'', need_kind is_bool ''bool'' d ''advisory_only'',
         need_kind is_obj ''dict'' d ''metadata''])"

section \<open>Scores\<close>

definition len_list :: "jval \<Rightarrow> int" where
  "len_list v = (case v of JArr xs \<Rightarrow> int (length xs) | _ \<Rightarrow> 0)"

text \<open>\<^verbatim>\<open>int(n * factor)\<close> in binary floating point.\<close>

definition scaled :: "int \<Rightarrow> flt \<Rightarrow> int" where
  "scaled n factor = (case flt_trunc (flt_mult (float_of_int n) factor) of None \<Rightarrow> 0 | Some i \<Rightarrow> i)"

definition text_of :: "(string \<Rightarrow> string) \<Rightarrow> (jval \<Rightarrow> string) \<Rightarrow> jdict \<Rightarrow> string \<Rightarrow> string \<Rightarrow> string" where
  "text_of low py_str pkg k dflt = low (str_of_or py_str (jget pkg k) dflt)"

definition compute_effort_score :: "(string \<Rightarrow> string) \<Rightarrow> (jval \<Rightarrow> string) \<Rightarrow> jdict \<Rightarrow> int" where
  "compute_effort_score low py_str pkg =
     (let scope = text_of low py_str pkg ''estimated_scope'' [];
          base = (if scope = ''tiny'' then 15 else if scope = ''small'' then 30 else if scope = ''medium'' then 50
                  else if scope = ''large'' then 70 else 40)
      in min 100 (base + len_list (jget pkg ''target_files'') * 5 + len_list (jget pkg ''validation_commands'') * 3))"

definition compute_risk_score :: "(string \<Rightarrow> string) \<Rightarrow> (jval \<Rightarrow> string) \<Rightarrow> jdict \<Rightarrow> int" where
  "compute_risk_score low py_str pkg =
     (let level = text_of low py_str pkg ''risk_level'' ''medium''
      in if level = ''low'' then 20 else if level = ''medium'' then 45 else if level = ''high'' then 70
         else if level = ''critical'' then 90 else 45)"

definition compute_readiness_score :: "int \<Rightarrow> int \<Rightarrow> int \<Rightarrow> int \<Rightarrow> int \<Rightarrow> int" where
  "compute_readiness_score risk dependencies blockers effort concentration =
     (let score = 100 - scaled risk ''0.35'' - dependencies * 8 - blockers * 20 - scaled effort ''0.15'';
          score = (if concentration > 3 then score - 5 else score)
      in if score < 0 then 0 else if score > 100 then 100 else score)"

definition execution_readiness_from_score :: "int \<Rightarrow> string" where
  "execution_readiness_from_score score =
     (if score \<ge> 85 then ''ready'' else if score \<ge> 60 then ''waiting'' else if score \<ge> 35 then ''blocked'' else ''deferred'')"

definition derive_priority :: "int \<Rightarrow> int \<Rightarrow> string" where
  "derive_priority readiness risk =
     (if risk \<ge> 85 then ''P0'' else if readiness \<ge> 90 then ''P1'' else if readiness \<ge> 75 then ''P1''
      else if readiness \<ge> 60 then ''P2'' else if readiness \<ge> 40 then ''P3'' else ''P4'')"

definition priority_order :: "string \<Rightarrow> int" where
  "priority_order p =
     (if p = ''P0'' then 0 else if p = ''P1'' then 1 else if p = ''P2'' then 2 else if p = ''P3'' then 3 else 4)"

section \<open>Dependencies\<close>

definition str_of :: "(jval \<Rightarrow> string) \<Rightarrow> jval \<Rightarrow> string" where
  "str_of py_str v =
     (case v of JStr s \<Rightarrow> s | JInt i \<Rightarrow> show_int i | JBool b \<Rightarrow> if b then ''True'' else ''False'' | JNull \<Rightarrow> ''None'' | _ \<Rightarrow> py_str v)"

definition find_candidates ::
  "(string \<Rightarrow> string) \<Rightarrow> (jval \<Rightarrow> string) \<Rightarrow> (string, jdict) dict \<Rightarrow> string \<Rightarrow> string \<Rightarrow> string list" where
  "find_candidates low py_str by_id subsystem kind =
     map fst (filter (\<lambda>(k, pkg). text_of low py_str pkg ''subsystem'' [] = subsystem \<and> text_of low py_str pkg ''change_type'' [] = kind) by_id)"

text \<open>The loop that drops the package itself and repeated entries.\<close>

fun unique_deps :: "string \<Rightarrow> string list \<Rightarrow> string list \<Rightarrow> string list" where
  "unique_deps self seen [] = []"
| "unique_deps self seen (d # ds) =
     (if d = self \<or> d \<in> set seen then unique_deps self seen ds else d # unique_deps self (d # seen) ds)"

definition deps_for_package ::
  "(string \<Rightarrow> string) \<Rightarrow> (jval \<Rightarrow> string) \<Rightarrow> jdict \<Rightarrow> (string, jdict) dict \<Rightarrow> string list" where
  "deps_for_package low py_str pkg by_id =
     (let subsystem = text_of low py_str pkg ''subsystem'' [];
          kind = text_of low py_str pkg ''change_type'' [];
          title = text_of low py_str pkg ''title'' [];
          find = find_candidates low py_str by_id subsystem
      in unique_deps (str_of_or py_str (jget pkg ''refined_package_id'') []) []
           ((if kind = ''add_cli_test'' then find ''add_test'' else []) @
            (if kind = ''add_contract_test'' then find ''add_update'' else []) @
            (if kind = ''add_docs'' \<and> contains ''release'' subsystem then find ''add_update'' else []) @
            (if contains ''compat'' kind \<or> contains ''compat'' title then find ''add_test'' else [])))"

definition packages_by_id :: "(jval \<Rightarrow> string) \<Rightarrow> jdict list \<Rightarrow> (string, jdict) dict" where
  "packages_by_id py_str pkgs = dict_of (map (\<lambda>pkg. (str_of py_str (jget pkg ''refined_package_id''), pkg)) pkgs)"

definition infer_dependencies ::
  "(string \<Rightarrow> string) \<Rightarrow> (jval \<Rightarrow> string) \<Rightarrow> jdict list \<Rightarrow> (string, string list) dict" where
  "infer_dependencies low py_str pkgs =
     (let by_id = packages_by_id py_str pkgs in map (\<lambda>(k, pkg). (k, deps_for_package low py_str pkg by_id)) by_id)"

definition build_blockers :: "(string, string list) dict \<Rightarrow> string list \<Rightarrow> work_blocker list" where
  "build_blockers deps known =
     filter (\<lambda>(k, missing). missing \<noteq> []) (map (\<lambda>(k, ds). (k, filter (\<lambda>d. d \<notin> set known) ds)) deps)"

text \<open>
  The recursive \<open>visit\<close> applied to a list of nodes. \<^verbatim>\<open>visited\<close> maps a node to \<open>-1\<close> while it
  is being visited and to \<open>1\<close> afterwards.
\<close>

type_synonym visit_state = "(string, int) dict \<times> string list"

function visit :: "(string, string list) dict \<Rightarrow> string list \<Rightarrow> visit_state \<Rightarrow> visit_state" where
  "visit deps [] st = st"
| "visit deps (n # ns) st =
     (if dget (fst st) n = Some 1 \<or> dget (fst st) n = Some (- 1) then visit deps ns st
      else
        let (visited, order) =
          visit deps (case dget deps n of None \<Rightarrow> [] | Some ds \<Rightarrow> filter (dhas deps) ds) (dput n (- 1) (fst st), snd st)
        in visit deps ns (dput n 1 visited, order @ [n]))"
  by pat_completeness auto

definition touched :: "visit_state \<Rightarrow> string set" where
  "touched st = {n. dget (fst st) n = Some 1 \<or> dget (fst st) n = Some (- 1)}"

lemma visit_touched: "visit_dom (deps, ns, st) \<Longrightarrow> touched st \<subseteq> touched (visit deps ns st)"
proof (induction deps ns st rule: visit.pinduct)
  case (1 deps st)
  then show ?case by (simp add: visit.psimps)
next
  case (2 deps n ns st)
  show ?case
  proof (cases "dget (fst st) n = Some 1 \<or> dget (fst st) n = Some (- 1)")
    case True
    then show ?thesis using "2.IH"(1) by (simp add: visit.psimps(2) [OF "2.hyps"])
  next
    case False
    obtain visited order where v: "visit deps (case dget deps n of None \<Rightarrow> [] | Some ds \<Rightarrow> filter (dhas deps) ds)
        (dput n (- 1) (fst st), snd st) = (visited, order)" by fastforce
    have "touched st \<subseteq> touched (dput n (- 1) (fst st), snd st)"
      using False by (auto simp: touched_def dget_dput)
    also have "\<dots> \<subseteq> touched (visited, order)" using "2.IH"(2) [OF False] v by simp
    also have "\<dots> \<subseteq> touched (dput n 1 visited, order @ [n])" by (auto simp: touched_def dget_dput)
    also have "\<dots> \<subseteq> touched (visit deps ns (dput n 1 visited, order @ [n]))"
      using "2.IH"(3) [OF False v [symmetric] refl] by simp
    finally show ?thesis using False v by (simp add: visit.psimps(2) [OF "2.hyps"])
  qed
qed

termination visit
proof (relation "inv_image (finite_psubset <*lex*> less_than) (\<lambda>(deps, ns, st). (set (dkeys deps) - touched st, length ns))",
    goal_cases)
  case 1
  then show ?case by (intro wf_inv_image wf_lex_prod wf_finite_psubset wf_less_than)
next
  case (2 deps n ns st)
  then show ?case by simp
next
  case (3 deps n ns st)
  then have n: "n \<notin> touched st" by (simp add: touched_def)
  show ?case
  proof (cases "n \<in> set (dkeys deps)")
    case True
    with n have "set (dkeys deps) - touched (dput n (- 1) (fst st), snd st) \<subset> set (dkeys deps) - touched st"
      by (auto simp: touched_def dget_dput)
    then show ?thesis by (simp add: finite_psubset_def)
  next
    case False
    then have "dget deps n = None" by (simp add: dget_None_iff dkeys_def)
    moreover from False have "set (dkeys deps) - touched (dput n (- 1) (fst st), snd st) = set (dkeys deps) - touched st"
      by (auto simp: touched_def dget_dput)
    ultimately show ?thesis by simp
  qed
next
  case (4 deps n ns st p visited order)
  have "touched st \<subseteq> touched (dput n (- 1) (fst st), snd st)" using 4(1) by (auto simp: touched_def dget_dput)
  also have "\<dots> \<subseteq> touched (visited, order)" using visit_touched [OF 4(4)] 4(2,3) by simp
  also have "\<dots> \<subseteq> touched (dput n 1 visited, order @ [n])" by (auto simp: touched_def dget_dput)
  finally have "set (dkeys deps) - touched (dput n 1 visited, order @ [n]) \<subseteq> set (dkeys deps) - touched st" by blast
  then show ?case by (auto simp: finite_psubset_def)
qed

definition topological_order :: "(string, string list) dict \<Rightarrow> string list" where
  "topological_order deps = snd (visit deps (dkeys deps) ([], []))"

section \<open>The planner\<close>

definition load_refinement_report :: "string option \<Rightarrow> jdict" where
  "load_refinement_report f =
     (case f of None \<Rightarrow> [] | Some t \<Rightarrow> (case loads t of Some (JObj d) \<Rightarrow> d | _ \<Rightarrow> []))"

definition package_subsystem :: "(jval \<Rightarrow> string) \<Rightarrow> jdict \<Rightarrow> string" where
  "package_subsystem py_str pkg = str_of_or py_str (jget pkg ''subsystem'') ''system''"

definition subsystem_counts :: "(jval \<Rightarrow> string) \<Rightarrow> jdict list \<Rightarrow> (string, int) dict" where
  "subsystem_counts py_str pkgs =
     foldl (\<lambda>counts pkg. let s = package_subsystem py_str pkg in
         dput s ((case dget counts s of None \<Rightarrow> 0 | Some c \<Rightarrow> c) + 1) counts) [] pkgs"

definition package_id :: "(jval \<Rightarrow> string) \<Rightarrow> jdict \<Rightarrow> string" where
  "package_id py_str pkg = str_of_or py_str (jget pkg ''refined_package_id'') []"

definition queue_item ::
  "(string \<Rightarrow> string) \<Rightarrow> (jval \<Rightarrow> string) \<Rightarrow> (string, string list) dict \<Rightarrow> (string, int) dict \<Rightarrow> (string, int) dict
    \<Rightarrow> (string, int) dict \<Rightarrow> string \<Rightarrow> jdict \<Rightarrow> work_item" where
  "queue_item low py_str deps blocked counts positions uuid pkg =
     (let pid = package_id py_str pkg;
          effort = compute_effort_score low py_str pkg;
          risk = compute_risk_score low py_str pkg;
          refs = (case dget deps pid of None \<Rightarrow> [] | Some ds \<Rightarrow> ds);
          blockers = (case dget blocked pid of None \<Rightarrow> 0 | Some c \<Rightarrow> c);
          subsystem = package_subsystem py_str pkg;
          readiness = compute_readiness_score risk (int (length refs)) blockers effort
              (case dget counts subsystem of None \<Rightarrow> 1 | Some c \<Rightarrow> c)
      in \<lparr>wi_id = new_id ''queue_item'' uuid, wi_source = pid, wi_title = str_of_or py_str (jget pkg ''title'') ''Untitled'',
          wi_subsystem = subsystem, wi_priority = derive_priority readiness risk, wi_readiness = readiness, wi_effort = effort,
          wi_risk = risk, wi_blockers = blockers, wi_deps = refs,
          wi_position = (case dget positions pid of None \<Rightarrow> 9999 | Some p \<Rightarrow> p),
          wi_execution = execution_readiness_from_score (if blockers = 0 then readiness else min readiness 40),
          wi_advisory = True,
          wi_metadata = [(''advisory_only'', JBool True),
            (''source_batch_id'', JStr (str_of_or py_str (jget pkg ''source_batch_id'') []))]\<rparr>)"

definition queue_key :: "work_item \<Rightarrow> int \<times> int \<times> int" where
  "queue_key w =
     (if wi_position w = 0 then 9999 else wi_position w,
      priority_order (if wi_priority w = [] then ''P4'' else wi_priority w), - wi_readiness w)"

definition position_index :: "string list \<Rightarrow> (string, int) dict" where
  "position_index order = dict_of (zip order (map int [1..<length order + 1]))"

definition number_items :: "work_item list \<Rightarrow> work_item list" where
  "number_items ws = map (\<lambda>(w, i). w\<lparr>wi_position := int i\<rparr>) (zip ws [1..<length ws + 1])"

text \<open>
  Where the refinement report comes from and what it holds: \<open>read_file\<close> gives the text of the file at
  a path, if it is there, and \<open>default_path\<close> is the path below \<^verbatim>\<open>base_dir\<close> read when neither
  a report nor a path is given.
\<close>

definition refinement_source ::
  "(string \<Rightarrow> string option) \<Rightarrow> jdict option \<Rightarrow> string option \<Rightarrow> string \<Rightarrow> string option \<times> jdict" where
  "refinement_source read_file refinement path default_path =
     (let given = (case path of None \<Rightarrow> None | Some p \<Rightarrow> if p = [] then None else Some p) in
      case refinement of
        Some rep \<Rightarrow> (given, rep)
      | None \<Rightarrow>
          (let source = (case given of Some p \<Rightarrow> p | None \<Rightarrow> default_path)
           in (Some source, load_refinement_report (read_file source))))"

text \<open>\<open>uuids i\<close> is the identifier drawn for the \<open>i\<close>th package, \<open>report_uuid\<close> the one of the report. The
  report is the record whose dictionary the code returns.\<close>

definition generate_work_queue_report ::
  "(string \<Rightarrow> string) \<Rightarrow> (jval \<Rightarrow> string) \<Rightarrow> (string \<Rightarrow> string option) \<Rightarrow> string \<Rightarrow> (nat \<Rightarrow> string) \<Rightarrow> string
    \<Rightarrow> jdict option \<Rightarrow> string option \<Rightarrow> string \<Rightarrow> string \<Rightarrow> int option \<Rightarrow> (queue_error, work_report) res" where
  "generate_work_queue_report low py_str read_file now uuids report_uuid refinement path default_path base limit =
     (let (source, rep) = refinement_source read_file refinement path default_path;
          pkgs = dict_list (jget rep ''refined_packages'');
          deps = infer_dependencies low py_str pkgs;
          blockers = build_blockers deps (map (\<lambda>pkg. str_of py_str (jget pkg ''refined_package_id'')) pkgs);
          blocked = dict_of (map (\<lambda>(k, missing). (k, int (length missing))) blockers);
          positions = position_index (topological_order deps);
          items = map (\<lambda>(i, pkg). queue_item low py_str deps blocked (subsystem_counts py_str pkgs) positions (uuids i) pkg)
              (enumerate 0 pkgs);
          queue = number_items (sort_key queue_key items);
          kept = (case limit of None \<Rightarrow> queue | Some n \<Rightarrow> if n > 0 then take (nat n) queue else queue);
          r = \<lparr>wr_id = new_id ''work_queue_report'' report_uuid, wr_generated = now, wr_items = kept, wr_dependencies = deps,
               wr_blockers = blockers, wr_order = map wi_source kept, wr_advisory = True,
               wr_metadata = [(''advisory_only'', JBool True),
                 (''source_refinement_report_id'', JStr (str_of_or py_str (jget rep ''report_id'') ''refinement_report_missing'')),
                 (''source_report_path'', opt_json source), (''base_dir'', JStr base)]\<rparr>
      in res_bind (validate_work_queue_report_dict (work_report_to_dict r)) (\<lambda>_. Inr r))"

section \<open>What the search delivers\<close>

definition dep_edges :: "(string, string list) dict \<Rightarrow> (string \<times> string) set" where
  "dep_edges deps = {(n, d). \<exists>ds. dget deps n = Some ds \<and> d \<in> set ds \<and> dhas deps d}"

text \<open>A state of the search: marks are \<open>1\<close> and \<open>-1\<close>, and the order lists the finished nodes once.\<close>

definition open_nodes :: "visit_state \<Rightarrow> string set" where
  "open_nodes st = {n. dget (fst st) n = Some (- 1)}"

definition visit_ok :: "visit_state \<Rightarrow> bool" where
  "visit_ok st \<longleftrightarrow> distinct (snd st) \<and> set (snd st) = {n. dget (fst st) n = Some 1}"

definition deps_first :: "(string \<times> string) set \<Rightarrow> string list \<Rightarrow> bool" where
  "deps_first E order \<longleftrightarrow> (\<forall>xs n ys d. order = xs @ n # ys \<longrightarrow> (n, d) \<in> E \<longrightarrow> d \<in> set xs)"

lemma deps_first_snoc: "deps_first E order \<Longrightarrow> (\<forall>d. (n, d) \<in> E \<longrightarrow> d \<in> set order) \<Longrightarrow> deps_first E (order @ [n])"
  unfolding deps_first_def by (auto simp: append_eq_append_conv2 Cons_eq_append_conv append_eq_Cons_conv)

lemma visit_marks:
  "visit_ok st \<Longrightarrow> visit_ok (visit deps ns st) \<and> open_nodes (visit deps ns st) = open_nodes st \<and>
     set ns \<subseteq> touched (visit deps ns st) \<and> touched st \<subseteq> touched (visit deps ns st) \<and>
     (set ns \<subseteq> set (dkeys deps) \<longrightarrow> touched st \<subseteq> set (dkeys deps) \<longrightarrow> touched (visit deps ns st) \<subseteq> set (dkeys deps))"
proof (induction deps ns st rule: visit.induct)
  case (1 deps st)
  then show ?case by simp
next
  case (2 deps n ns st)
  show ?case
  proof (cases "dget (fst st) n = Some 1 \<or> dget (fst st) n = Some (- 1)")
    case True
    then have "n \<in> touched st" by (simp add: touched_def)
    with True "2.IH"(1) [OF True "2.prems"] show ?thesis by auto
  next
    case False
    let ?next = "case dget deps n of None \<Rightarrow> [] | Some ds \<Rightarrow> filter (dhas deps) ds"
    let ?st0 = "(dput n (- 1) (fst st), snd st)"
    obtain visited order where v: "visit deps ?next ?st0 = (visited, order)" by fastforce
    let ?st1 = "(dput n 1 visited, order @ [n])"
    have ok0: "visit_ok ?st0" using "2.prems" False by (auto simp: visit_ok_def dget_dput)
    have t0: "touched ?st0 = insert n (touched st)" by (auto simp: touched_def dget_dput)
    have nk: "set ?next \<subseteq> set (dkeys deps)" by (auto simp: dhas_iff dkeys_def split: option.splits)
    note IH = "2.IH"(2) [OF False ok0, unfolded v]
    have "n \<in> open_nodes (visited, order)" using IH by (simp add: open_nodes_def dget_dput)
    then have fresh: "n \<notin> set order" using IH by (auto simp: visit_ok_def open_nodes_def)
    have ok1: "visit_ok ?st1" using IH fresh by (auto simp: visit_ok_def dget_dput)
    have t1: "touched ?st1 = insert n (touched (visited, order))" by (auto simp: touched_def dget_dput)
    have o1: "open_nodes ?st1 = open_nodes st"
      using IH False by (auto simp: open_nodes_def dget_dput split: if_splits)
    note rest = "2.IH"(3) [OF False v [symmetric] refl ok1]
    have e: "visit deps (n # ns) st = visit deps ns ?st1" using False v by simp
    show ?thesis unfolding e using rest IH nk t0 t1 o1 by auto
  qed
qed

text \<open>On an acyclic map every finished node comes after its dependencies.\<close>

lemma visit_deps_first:
  assumes "acyclic (dep_edges deps)"
  shows "visit_ok st \<Longrightarrow> deps_first (dep_edges deps) (snd st) \<Longrightarrow>
    \<forall>g \<in> open_nodes st. \<forall>n \<in> set ns. (g, n) \<in> (dep_edges deps)\<^sup>+ \<Longrightarrow> deps_first (dep_edges deps) (snd (visit deps ns st))"
  using assms
proof (induction deps ns st rule: visit.induct)
  case (1 deps st)
  then show ?case by simp
next
  case (2 deps n ns st)
  let ?E = "dep_edges deps"
  show ?case
  proof (cases "dget (fst st) n = Some 1 \<or> dget (fst st) n = Some (- 1)")
    case True
    with "2.IH"(1) [OF True "2.prems"(1,2)] "2.prems"(3,4) show ?thesis by simp
  next
    case False
    let ?next = "case dget deps n of None \<Rightarrow> [] | Some ds \<Rightarrow> filter (dhas deps) ds"
    let ?st0 = "(dput n (- 1) (fst st), snd st)"
    obtain visited order where v: "visit deps ?next ?st0 = (visited, order)" by fastforce
    let ?st1 = "(dput n 1 visited, order @ [n])"
    have ok0: "visit_ok ?st0" using "2.prems"(1) False by (auto simp: visit_ok_def dget_dput)
    have o0: "open_nodes ?st0 = insert n (open_nodes st)" by (auto simp: open_nodes_def dget_dput)
    have succ: "set ?next = {d. (n, d) \<in> ?E}" by (cases "dget deps n") (auto simp: dep_edges_def)
    note marks = visit_marks [OF ok0, of deps ?next, unfolded v]
    have reach: "\<forall>g \<in> open_nodes ?st0. \<forall>d \<in> set ?next. (g, d) \<in> ?E\<^sup>+"
      unfolding o0 succ using "2.prems"(3) by (auto intro: trancl_into_trancl)
    then have order: "deps_first ?E order"
      using "2.IH"(2) [OF False ok0] "2.prems"(2,4) v by simp
    have "d \<in> set order" if "(n, d) \<in> ?E" for d
    proof -
      have "d \<in> touched (visited, order)" using that marks succ by blast
      moreover have "d \<notin> open_nodes ?st0"
      proof
        assume "d \<in> open_nodes ?st0"
        then have "(d, d) \<in> ?E\<^sup>+" using reach succ that by blast
        with "2.prems"(4) show False by (simp add: acyclic_def)
      qed
      then have "d \<notin> open_nodes (visited, order)" using marks by simp
      ultimately show ?thesis using marks by (auto simp: touched_def open_nodes_def visit_ok_def)
    qed
    then have first: "deps_first ?E (order @ [n])" using order deps_first_snoc by blast
    have "n \<in> open_nodes (visited, order)" using marks o0 by simp
    then have ok1: "visit_ok ?st1" using marks by (auto simp: visit_ok_def open_nodes_def dget_dput)
    have o1: "open_nodes ?st1 = open_nodes st"
      using marks False o0 by (auto simp: open_nodes_def dget_dput split: if_splits)
    show ?thesis
      using "2.IH"(3) [OF False v [symmetric] refl ok1] first o1 "2.prems"(3,4) False v by simp
  qed
qed

lemma topological_order_spec:
  "distinct (topological_order deps) \<and> set (topological_order deps) = set (dkeys deps) \<and>
     (acyclic (dep_edges deps) \<longrightarrow> deps_first (dep_edges deps) (topological_order deps))"
proof -
  have ok: "visit_ok ([], [])" by (simp add: visit_ok_def)
  have none: "open_nodes ([], []) = {}" "touched ([], []) = {}" by (simp_all add: open_nodes_def touched_def)
  note marks = visit_marks [OF ok, of deps "dkeys deps"]
  have "touched (visit deps (dkeys deps) ([], [])) = set (dkeys deps)" using marks none by auto
  moreover have "touched (visit deps (dkeys deps) ([], [])) = set (topological_order deps)"
    using marks none by (auto simp: touched_def open_nodes_def visit_ok_def topological_order_def)
  moreover have "deps_first (dep_edges deps) (topological_order deps)" if "acyclic (dep_edges deps)"
    unfolding topological_order_def
    by (rule visit_deps_first [OF that ok]) (simp_all add: deps_first_def none)
  ultimately show ?thesis using marks by (simp add: visit_ok_def topological_order_def)
qed

text \<open>C39: The dependency search returns on every dependency map, cyclic ones included, and lists every
  package of the map exactly once; on an acyclic map each package comes after all the packages it depends
  on.\<close>

theorem search_orders_dependencies:
  "distinct (topological_order deps) \<and> set (topological_order deps) = set (dkeys deps) \<and>
     (acyclic (dep_edges deps) \<longrightarrow>
       (\<forall>xs n ys d. topological_order deps = xs @ n # ys \<longrightarrow> (n, d) \<in> dep_edges deps \<longrightarrow> d \<in> set xs))"
  using topological_order_spec [of deps] unfolding deps_first_def by blast

theorem search_orders_dependencies_witness:
  "\<exists>xs ys. topological_order [(''a'', [''b'', ''c'']), (''b'', [''c'']), (''c'', [])] = xs @ ''a'' # ys \<and> ''b'' \<in> set xs \<and> ''c'' \<in> set xs"
proof -
  let ?m = "[(''a'', [''b'', ''c'']), (''b'', [''c'']), (''c'', [])]"
  let ?r = "\<lambda>k. if k = ''a'' then 2 else if k = ''b'' then 1 else 0 :: nat"
  have "(dep_edges ?m)\<inverse> \<subseteq> measure ?r"
    by (auto simp: dep_edges_def dhas_def split: if_splits)
  then have "acyclic (dep_edges ?m)" using wf_acyclic [OF wf_subset [OF wf_measure]] acyclic_converse by blast
  moreover have "(''a'', ''b'') \<in> dep_edges ?m" "(''a'', ''c'') \<in> dep_edges ?m" by (simp_all add: dep_edges_def dhas_def)
  moreover have "''a'' \<in> set (topological_order ?m)" using search_orders_dependencies [of ?m] by (simp add: dkeys_def)
  ultimately show ?thesis using search_orders_dependencies [of ?m] by (metis split_list)
qed

section \<open>What the queue promises\<close>

lemma unique_deps_set: "set (unique_deps self seen ds) = set ds - insert self (set seen)"
  by (induction self seen ds rule: unique_deps.induct) auto

lemma in_candidates:
  "d \<in> set (find_candidates low py_str by_id s kind) \<longleftrightarrow>
     (\<exists>pkg. (d, pkg) \<in> set by_id \<and> text_of low py_str pkg ''subsystem'' [] = s \<and> text_of low py_str pkg ''change_type'' [] = kind)"
  by (force simp: find_candidates_def)

text \<open>A package depends on other packages of the report, whose kind is \<open>add_test\<close> or \<open>add_update\<close>.\<close>

definition change_kind :: "(string \<Rightarrow> string) \<Rightarrow> (jval \<Rightarrow> string) \<Rightarrow> jdict \<Rightarrow> string" where
  "change_kind low py_str pkg = text_of low py_str pkg ''change_type'' []"

definition compat_test :: "(string \<Rightarrow> string) \<Rightarrow> (jval \<Rightarrow> string) \<Rightarrow> jdict \<Rightarrow> bool" where
  "compat_test low py_str pkg \<longleftrightarrow>
     change_kind low py_str pkg = ''add_test'' \<and> contains ''compat'' (text_of low py_str pkg ''title'' [])"

lemma kinds_plain [simp]: "\<not> contains ''compat'' ''add_test''" "\<not> contains ''compat'' ''add_update''"
  by code_simp+

lemma in_deps:
  assumes "d \<in> set (deps_for_package low py_str pkg by_id)"
  obtains q where "(d, q) \<in> set by_id"
    and "change_kind low py_str q = ''add_test'' \<and> (change_kind low py_str pkg \<noteq> ''add_test'' \<or> compat_test low py_str pkg) \<or>
      change_kind low py_str q = ''add_update'' \<and> change_kind low py_str pkg \<notin> {''add_test'', ''add_update''}"
proof -
  have "\<exists>q. (d, q) \<in> set by_id \<and>
      (change_kind low py_str q = ''add_test'' \<and> (change_kind low py_str pkg \<noteq> ''add_test'' \<or> compat_test low py_str pkg) \<or>
       change_kind low py_str q = ''add_update'' \<and> change_kind low py_str pkg \<notin> {''add_test'', ''add_update''})"
    using assms
    by (auto simp: deps_for_package_def Let_def unique_deps_set in_candidates change_kind_def compat_test_def split: if_splits)
  then show thesis using that by blast
qed

lemma packages_by_id_wf: "wf_dict (packages_by_id py_str pkgs)"
  by (simp add: packages_by_id_def)

lemma in_packages_by_id:
  "(k, pkg) \<in> set (packages_by_id py_str pkgs) \<Longrightarrow> pkg \<in> set pkgs \<and> str_of py_str (jget pkg ''refined_package_id'') = k"
proof -
  assume "(k, pkg) \<in> set (packages_by_id py_str pkgs)"
  then have "dget (packages_by_id py_str pkgs) k = Some pkg"
    using wf_dict_dget_iff [OF packages_by_id_wf] by blast
  then have "map_of (rev (map (\<lambda>pkg. (str_of py_str (jget pkg ''refined_package_id''), pkg)) pkgs)) k = Some pkg"
    by (simp add: packages_by_id_def dict_of_def dget_dupdate split: option.splits)
  from map_of_SomeD [OF this] show ?thesis by auto
qed

lemma packages_by_id_has:
  "dhas (packages_by_id py_str pkgs) k \<longleftrightarrow> (\<exists>pkg \<in> set pkgs. str_of py_str (jget pkg ''refined_package_id'') = k)"
proof -
  have "dhas (packages_by_id py_str pkgs) k \<longleftrightarrow>
      map_of (rev (map (\<lambda>pkg. (str_of py_str (jget pkg ''refined_package_id''), pkg)) pkgs)) k \<noteq> None"
    by (simp add: dhas_def packages_by_id_def dict_of_def dget_dupdate split: option.splits)
  also have "\<dots> \<longleftrightarrow> k \<in> fst ` set (rev (map (\<lambda>pkg. (str_of py_str (jget pkg ''refined_package_id''), pkg)) pkgs))"
    by (simp only: map_of_eq_None_iff not_not)
  finally show ?thesis by force
qed

lemma infer_dget:
  "dget (infer_dependencies low py_str pkgs) k =
     map_option (\<lambda>pkg. deps_for_package low py_str pkg (packages_by_id py_str pkgs)) (dget (packages_by_id py_str pkgs) k)"
proof -
  have "dget (map (\<lambda>(k, pkg). (k, f pkg)) d) k = map_option f (dget d k)" for f and d :: "(string, jdict) dict"
    by (induction d) auto
  then show ?thesis by (simp add: infer_dependencies_def Let_def)
qed

lemma infer_edges:
  assumes "dget (infer_dependencies low py_str pkgs) n = Some ds" and "d \<in> set ds"
  shows "(n, d) \<in> dep_edges (infer_dependencies low py_str pkgs)"
proof -
  let ?by = "packages_by_id py_str pkgs"
  obtain pkg where "ds = deps_for_package low py_str pkg ?by" using assms(1) by (auto simp: infer_dget)
  then obtain q where "(d, q) \<in> set ?by" using in_deps assms(2) by metis
  then have "dget ?by d = Some q" using wf_dict_dget_iff [OF packages_by_id_wf] by blast
  then show ?thesis using assms by (auto simp: dep_edges_def dhas_def infer_dget)
qed

lemma infer_acyclic:
  assumes "\<forall>pkg \<in> set pkgs. \<not> compat_test low py_str pkg"
  shows "acyclic (dep_edges (infer_dependencies low py_str pkgs))"
proof -
  let ?by = "packages_by_id py_str pkgs"
  let ?kind = "\<lambda>k. case dget ?by k of None \<Rightarrow> [] | Some pkg \<Rightarrow> change_kind low py_str pkg"
  let ?r = "\<lambda>k. if ?kind k = ''add_test'' then 0 else if ?kind k = ''add_update'' then 1 else 2 :: nat"
  have "?r d < ?r n" if e: "(n, d) \<in> dep_edges (infer_dependencies low py_str pkgs)" for n d
  proof -
    obtain pkg where pkg: "dget ?by n = Some pkg" "d \<in> set (deps_for_package low py_str pkg ?by)"
      using e unfolding dep_edges_def by (cases "dget ?by n") (auto simp: infer_dget)
    then have "\<not> compat_test low py_str pkg" using assms in_packages_by_id dget_in_set by metis
    moreover obtain q where "(d, q) \<in> set ?by"
        and "change_kind low py_str q = ''add_test'' \<and> (change_kind low py_str pkg \<noteq> ''add_test'' \<or> compat_test low py_str pkg) \<or>
          change_kind low py_str q = ''add_update'' \<and> change_kind low py_str pkg \<notin> {''add_test'', ''add_update''}"
      by (rule in_deps [OF pkg(2)])
    moreover from this(1) have "dget ?by d = Some q" using wf_dict_dget_iff [OF packages_by_id_wf] by blast
    ultimately show ?thesis using pkg(1) by auto
  qed
  then have "(dep_edges (infer_dependencies low py_str pkgs))\<inverse> \<subseteq> measure ?r" by auto
  then show ?thesis using wf_acyclic [OF wf_subset [OF wf_measure]] acyclic_converse by blast
qed

lemma infer_no_blockers:
  "build_blockers (infer_dependencies low py_str pkgs) (map (\<lambda>pkg. str_of py_str (jget pkg ''refined_package_id'')) pkgs) = []"
proof -
  let ?by = "packages_by_id py_str pkgs"
  have "filter (\<lambda>d. d \<notin> set (map (\<lambda>pkg. str_of py_str (jget pkg ''refined_package_id'')) pkgs)) (deps_for_package low py_str pkg ?by) = []"
    for pkg
  proof -
    have "d \<in> set (map (\<lambda>pkg. str_of py_str (jget pkg ''refined_package_id'')) pkgs)" if d: "d \<in> set (deps_for_package low py_str pkg ?by)" for d
    proof -
      obtain q where "(d, q) \<in> set ?by" using in_deps [OF d] by metis
      from in_packages_by_id [OF this] show ?thesis by auto
    qed
    then show ?thesis by (simp only: filter_empty_conv) blast
  qed
  then show ?thesis by (auto simp: build_blockers_def infer_dependencies_def Let_def filter_empty_conv)
qed

lemma dget_position_index:
  assumes "distinct order" and "k < length order"
  shows "dget (position_index order) (order ! k) = Some (int k + 1)"
proof -
  let ?ns = "map int [1..<length order + 1]"
  have "position_index order = zip order ?ns"
    unfolding position_index_def by (rule dict_of_distinct) (simp add: assms(1))
  moreover have "map_of (zip order ?ns) (order ! k) = Some (?ns ! k)"
    by (rule map_of_zip_nth) (simp_all add: assms del: upt_Suc)
  ultimately show ?thesis using assms(2) by (simp add: dget_def del: upt_Suc)
qed

lemma number_items_fields:
  assumes "i < length ws"
  shows "number_items ws ! i = (ws ! i)\<lparr>wi_position := int i + 1\<rparr>" and "length (number_items ws) = length ws"
  using assms by (simp_all add: number_items_def del: upt_Suc)

text \<open>The parts of a report that was returned.\<close>

definition queued_items ::
  "(string \<Rightarrow> string) \<Rightarrow> (jval \<Rightarrow> string) \<Rightarrow> (nat \<Rightarrow> string) \<Rightarrow> jdict list \<Rightarrow> work_item list" where
  "queued_items low py_str uuids pkgs =
     (let deps = infer_dependencies low py_str pkgs in
      sort_key queue_key
        (map (\<lambda>(i, pkg). queue_item low py_str deps [] (subsystem_counts py_str pkgs) (position_index (topological_order deps)) (uuids i) pkg)
          (enumerate 0 pkgs)))"

lemma generate_parts:
  assumes "generate_work_queue_report low py_str read_file now uuids u refinement path dflt base limit = Inr r"
    and "pkgs = dict_list (jget (snd (refinement_source read_file refinement path dflt)) ''refined_packages'')"
  shows "wr_dependencies r = infer_dependencies low py_str pkgs" and "wr_blockers r = []"
    and "wr_order r = map wi_source (wr_items r)"
    and "\<exists>k. wr_items r = take k (number_items (queued_items low py_str uuids pkgs))"
proof -
  obtain source rep where s: "refinement_source read_file refinement path dflt = (source, rep)" by fastforce
  let ?q = "number_items (queued_items low py_str uuids pkgs)"
  have none: "dict_of (map (\<lambda>(k, missing). (k, int (length missing))) []) = []" by (simp add: dict_of_def dupdate_def)
  let ?kept = "case limit of None \<Rightarrow> ?q | Some n \<Rightarrow> if n > 0 then take (nat n) ?q else ?q"
  let ?R = "\<lparr>wr_id = new_id ''work_queue_report'' u, wr_generated = now, wr_items = ?kept,
      wr_dependencies = infer_dependencies low py_str pkgs, wr_blockers = [], wr_order = map wi_source ?kept, wr_advisory = True,
      wr_metadata = [(''advisory_only'', JBool True),
        (''source_refinement_report_id'', JStr (str_of_or py_str (jget rep ''report_id'') ''refinement_report_missing'')),
        (''source_report_path'', opt_json source), (''base_dir'', JStr base)]\<rparr>"
  have pkgs: "dict_list (jget rep ''refined_packages'') = pkgs" using assms(2) s by simp
  have q: "number_items (sort_key queue_key (map (\<lambda>(i, pkg). queue_item low py_str (infer_dependencies low py_str pkgs) []
      (subsystem_counts py_str pkgs) (position_index (topological_order (infer_dependencies low py_str pkgs))) (uuids i) pkg)
      (enumerate 0 pkgs))) = ?q"
    by (simp only: queued_items_def Let_def)
  have gen: "generate_work_queue_report low py_str read_file now uuids u refinement path dflt base limit =
      res_bind (validate_work_queue_report_dict (work_report_to_dict ?R)) (\<lambda>_. Inr ?R)"
    unfolding generate_work_queue_report_def s Let_def prod.case pkgs infer_no_blockers none q by (rule refl)
  have same: "y = x" if "res_bind m (\<lambda>_. Inr x) = Inr y" for m :: "(queue_error, unit) res" and x y :: work_report
    using that by (cases m) simp_all
  have r: "r = ?R" by (rule same [OF trans [OF gen [symmetric] assms(1)]])
  have "\<exists>k. ?kept = take k ?q"
  proof (cases limit)
    case None
    have "?q = take (length ?q) ?q" by simp
    with None show ?thesis by (simp only: option.case) blast
  next
    case (Some n)
    have "?q = take (length ?q) ?q" by simp
    with Some show ?thesis by (simp only: option.case split: if_split) blast
  qed
  then show "\<exists>k. wr_items r = take k ?q" unfolding r by simp
  show "wr_dependencies r = infer_dependencies low py_str pkgs" "wr_blockers r = []" "wr_order r = map wi_source (wr_items r)"
    unfolding r by simp_all
qed

text \<open>An item of the queue is made from a package; its dependencies are known and placed before it.\<close>

lemma queued_item:
  assumes "w \<in> set (queued_items low py_str uuids pkgs)"
  obtains pkg where "pkg \<in> set pkgs" and "wi_source w = package_id py_str pkg" and "wi_blockers w = 0"
    and "wi_deps w = (case dget (infer_dependencies low py_str pkgs) (wi_source w) of None \<Rightarrow> [] | Some ds \<Rightarrow> ds)"
    and "wi_position w =
      (case dget (position_index (topological_order (infer_dependencies low py_str pkgs))) (wi_source w) of None \<Rightarrow> 9999 | Some p \<Rightarrow> p)"
proof -
  obtain i pkg where ip: "(i, pkg) \<in> set (enumerate 0 pkgs)"
      and w: "w = queue_item low py_str (infer_dependencies low py_str pkgs) [] (subsystem_counts py_str pkgs)
        (position_index (topological_order (infer_dependencies low py_str pkgs))) (uuids i) pkg"
    using assms by (auto simp: queued_items_def Let_def)
  have "pkg \<in> set pkgs" using ip by (auto simp: in_set_enumerate_eq)
  then show thesis by (rule that) (simp_all add: w queue_item_def Let_def)
qed

lemma queued_package:
  assumes "pkg \<in> set pkgs"
  obtains w where "w \<in> set (queued_items low py_str uuids pkgs)" and "wi_source w = package_id py_str pkg"
proof -
  obtain i where i: "i < length pkgs" "pkgs ! i = pkg" using assms by (auto simp: in_set_conv_nth)
  then have "(i, pkg) \<in> set (enumerate 0 pkgs)" by (simp add: in_set_enumerate_eq)
  then have "queue_item low py_str (infer_dependencies low py_str pkgs) [] (subsystem_counts py_str pkgs)
      (position_index (topological_order (infer_dependencies low py_str pkgs))) (uuids i) pkg \<in> set (queued_items low py_str uuids pkgs)"
    by (force simp: queued_items_def Let_def)
  then show thesis by (rule that) (simp add: queue_item_def Let_def)
qed

lemma truthy_id: "truthy v \<Longrightarrow> str_of_or py_str v [] = str_of py_str v"
  by (cases v) (auto simp: str_of_or_def str_of_def)

lemma queued_deps_before:
  assumes ids: "\<forall>pkg \<in> set pkgs. truthy (jget pkg ''refined_package_id'')"
    and acyc: "acyclic (dep_edges (infer_dependencies low py_str pkgs))"
    and i: "i < length (queued_items low py_str uuids pkgs)" and d: "d \<in> set (wi_deps (queued_items low py_str uuids pkgs ! i))"
  shows "\<exists>j<i. wi_source (queued_items low py_str uuids pkgs ! j) = d"
proof -
  let ?Q = "queued_items low py_str uuids pkgs"
  let ?deps = "infer_dependencies low py_str pkgs"
  let ?ord = "topological_order ?deps"
  note spec = topological_order_spec [of ?deps]
  have pos: "wi_position w = int k + 1" if "w \<in> set ?Q" "k < length ?ord" "?ord ! k = wi_source w" for w k
    using queued_item [OF that(1)] dget_position_index [of ?ord k] spec that(2,3) by (metis option.case(2))
  let ?w = "?Q ! i"
  have w: "?w \<in> set ?Q" using i by simp
  obtain ds where ds: "dget ?deps (wi_source ?w) = Some ds" "d \<in> set ds"
    using queued_item [OF w] d by (metis (no_types, lifting) empty_iff empty_set option.case_eq_if option.collapse)
  have e: "(wi_source ?w, d) \<in> dep_edges ?deps" by (rule infer_edges [OF ds])
  have "wi_source ?w \<in> set ?ord" using spec dget_in_set [OF ds(1)] by (force simp: dkeys_def)
  then obtain xs ys where o: "?ord = xs @ wi_source ?w # ys" by (meson split_list)
  then have "d \<in> set xs" using spec acyc e unfolding deps_first_def by blast
  then obtain k where k: "k < length xs" "xs ! k = d" by (auto simp: in_set_conv_nth)
  have "dhas ?deps d" using e by (auto simp: dep_edges_def)
  then have "dhas (packages_by_id py_str pkgs) d" by (simp add: dhas_def infer_dget)
  then obtain q where q: "q \<in> set pkgs" "str_of py_str (jget q ''refined_package_id'') = d" by (auto simp: packages_by_id_has)
  obtain b where b: "b \<in> set ?Q" "wi_source b = package_id py_str q" using queued_package [OF q(1)] .
  have bd: "wi_source b = d" using b(2) q ids truthy_id [of "jget q ''refined_package_id''" py_str] by (simp add: package_id_def)
  obtain j where j: "j < length ?Q" "?Q ! j = b" using b(1) by (auto simp: in_set_conv_nth)
  have pw: "wi_position ?w = int (length xs) + 1" using pos [OF w, of "length xs"] o by simp
  have pb: "wi_position b = int k + 1" using pos [OF b(1), of k] o k bd by (simp add: nth_append)
  have "j < i"
  proof (rule ccontr)
    assume "\<not> j < i"
    moreover have "sorted (map queue_key ?Q)" by (simp add: queued_items_def Let_def)
    ultimately have "queue_key ?w \<le> queue_key b"
      using j sorted_nth_mono [of "map queue_key ?Q" i j] i by simp
    with pw pb k(1) show False by (simp add: queue_key_def less_eq_prod_def split: if_splits)
  qed
  with j bd show ?thesis by blast
qed

text \<open>A report is returned when the packages have identifiers, titles and subsystems that are not blank.\<close>

lemma derived_in:
  "derive_priority readiness risk \<in> set PRIORITIES" "strip (derive_priority readiness risk) \<noteq> []"
  "execution_readiness_from_score score \<in> set EXECUTION_READINESS" "strip (execution_readiness_from_score score) \<noteq> []"
proof -
  have "\<forall>p \<in> set PRIORITIES. strip p \<noteq> []" "\<forall>e \<in> set EXECUTION_READINESS. strip e \<noteq> []" by code_simp+
  moreover show p: "derive_priority readiness risk \<in> set PRIORITIES" by (simp add: derive_priority_def PRIORITIES_def)
  moreover show e: "execution_readiness_from_score score \<in> set EXECUTION_READINESS"
    by (simp add: execution_readiness_from_score_def EXECUTION_READINESS_def)
  ultimately show "strip (derive_priority readiness risk) \<noteq> []" "strip (execution_readiness_from_score score) \<noteq> []" by blast+
qed

definition package_named :: "(jval \<Rightarrow> string) \<Rightarrow> jdict \<Rightarrow> bool" where
  "package_named py_str pkg \<longleftrightarrow>
     strip (package_id py_str pkg) \<noteq> [] \<and> strip (package_subsystem py_str pkg) \<noteq> [] \<and>
     strip (str_of_or py_str (jget pkg ''title'') ''Untitled'') \<noteq> []"

lemma queue_item_valid:
  assumes "package_named py_str pkg" and "strip (new_id ''queue_item'' uuid) \<noteq> []"
  shows "validate_work_queue_item_dict
    (work_item_to_dict (queue_item low py_str deps blocked counts positions uuid pkg\<lparr>wi_position := p\<rparr>)) = Inr ()"
  using assms unfolding package_named_def
  by (simp add: validate_work_queue_item_dict_def work_item_to_dict_def queue_item_def Let_def need_str_def need_kind_def need_in_def
      plain_int_def filled_def the_str_def derived_in)

lemma queue_items_valid:
  assumes "\<forall>pkg \<in> set pkgs. package_named py_str pkg" and "\<forall>i. strip (new_id ''queue_item'' (uuids i)) \<noteq> []"
    and "w \<in> set (number_items (queued_items low py_str uuids pkgs))"
  shows "validate_work_queue_item_dict (work_item_to_dict w) = Inr ()"
proof -
  obtain v p where v: "v \<in> set (queued_items low py_str uuids pkgs)" and w: "w = v\<lparr>wi_position := p\<rparr>"
    using assms(3) by (auto simp: number_items_def dest!: set_zip_leftD)
  obtain i pkg where "(i, pkg) \<in> set (enumerate 0 pkgs)"
      and "v = queue_item low py_str (infer_dependencies low py_str pkgs) [] (subsystem_counts py_str pkgs)
        (position_index (topological_order (infer_dependencies low py_str pkgs))) (uuids i) pkg"
    using v by (auto simp: queued_items_def Let_def)
  moreover from this(1) have "pkg \<in> set pkgs" by (auto simp: in_set_enumerate_eq)
  ultimately show ?thesis using assms(1,2) w queue_item_valid by simp
qed

lemma report_valid:
  assumes "strip (wr_id r) \<noteq> []" and "strip (wr_generated r) \<noteq> []"
    and "\<forall>w \<in> set (wr_items r). validate_work_queue_item_dict (work_item_to_dict w) = Inr ()"
  shows "validate_work_queue_report_dict (work_report_to_dict r) = Inr ()"
  using assms
  by (simp add: validate_work_queue_report_dict_def work_report_to_dict_def need_str_def need_kind_def filled_def each_Inr_iff)

lemma generate_returns:
  assumes "\<forall>pkg \<in> set (dict_list (jget (snd (refinement_source read_file refinement path dflt)) ''refined_packages'')). package_named py_str pkg"
    and "\<forall>i. strip (new_id ''queue_item'' (uuids i)) \<noteq> []" and "strip (new_id ''work_queue_report'' u) \<noteq> []" and "strip now \<noteq> []"
  shows "\<exists>r. generate_work_queue_report low py_str read_file now uuids u refinement path dflt base limit = Inr r"
proof -
  obtain source rep where s: "refinement_source read_file refinement path dflt = (source, rep)" by fastforce
  let ?pkgs = "dict_list (jget rep ''refined_packages'')"
  let ?q = "number_items (queued_items low py_str uuids ?pkgs)"
  let ?kept = "case limit of None \<Rightarrow> ?q | Some n \<Rightarrow> if n > 0 then take (nat n) ?q else ?q"
  have none: "dict_of (map (\<lambda>(k, missing). (k, int (length missing))) []) = []" by (simp add: dict_of_def dupdate_def)
  have "set ?kept \<subseteq> set ?q" by (auto split: option.splits dest: in_set_takeD)
  moreover have "validate_work_queue_item_dict (work_item_to_dict w) = Inr ()" if "w \<in> set ?q" for w
    by (rule queue_items_valid [OF _ assms(2) that]) (use assms(1) s in simp)
  ultimately have items: "\<forall>w \<in> set ?kept. validate_work_queue_item_dict (work_item_to_dict w) = Inr ()" by blast
  have q: "number_items (sort_key queue_key (map (\<lambda>(i, pkg). queue_item low py_str (infer_dependencies low py_str ?pkgs) []
      (subsystem_counts py_str ?pkgs) (position_index (topological_order (infer_dependencies low py_str ?pkgs))) (uuids i) pkg)
      (enumerate 0 ?pkgs))) = ?q"
    by (simp only: queued_items_def Let_def)
  show ?thesis
    unfolding generate_work_queue_report_def s Let_def prod.case infer_no_blockers none q
    by (subst report_valid) (simp_all add: assms(3,4) items)
qed

text \<open>C40: In a generated work queue every package stands after all the packages it depends on, also when
  the queue is cut at a limit, provided every package has an identifier and no package of kind
  \<open>add_test\<close> has "compat" in its title.\<close>

theorem queue_respects_dependencies:
  assumes "generate_work_queue_report low py_str read_file now uuids u refinement path dflt base limit = Inr r"
    and "\<forall>pkg \<in> set (dict_list (jget (snd (refinement_source read_file refinement path dflt)) ''refined_packages'')).
      truthy (jget pkg ''refined_package_id'') \<and> \<not> compat_test low py_str pkg"
    and "i < length (wr_items r)" and "d \<in> set (wi_deps (wr_items r ! i))"
  shows "\<exists>j<i. wr_order r ! j = d"
proof -
  let ?pkgs = "dict_list (jget (snd (refinement_source read_file refinement path dflt)) ''refined_packages'')"
  let ?Q = "queued_items low py_str uuids ?pkgs"
  note parts = generate_parts [OF assms(1) refl]
  obtain k where k: "wr_items r = take k (number_items ?Q)" using parts(4) by blast
  have nth: "wi_source (wr_items r ! j) = wi_source (?Q ! j) \<and> wi_deps (wr_items r ! j) = wi_deps (?Q ! j)"
    if "j \<le> i" for j
    using that assms(3) by (simp add: k number_items_fields number_items_def del: upt_Suc)
  have i: "i < length ?Q" using assms(3) by (simp add: k number_items_def)
  have d: "d \<in> set (wi_deps (?Q ! i))" using assms(4) nth by simp
  obtain j where j: "j < i" "wi_source (?Q ! j) = d"
    using queued_deps_before [OF _ infer_acyclic i d] assms(2) by blast
  moreover have "wr_order r ! j = wi_source (?Q ! j)" using j nth [of j] assms(3) by (simp add: parts(3))
  ultimately show ?thesis by auto
qed

definition sample_refinement :: jdict where
  "sample_refinement =
     [(''refined_packages'', JArr
        [JObj [(''refined_package_id'', JStr ''a''), (''title'', JStr ''t''), (''subsystem'', JStr ''s''), (''change_type'', JStr ''add_cli_test'')],
         JObj [(''refined_package_id'', JStr ''b''), (''title'', JStr ''t''), (''subsystem'', JStr ''s''), (''change_type'', JStr ''add_test'')]])]"

lemma sample_returns:
  "\<exists>r. generate_work_queue_report (\<lambda>s. s) (\<lambda>_. []) (\<lambda>_. None) ''now'' (\<lambda>_. ''u'') ''u'' (Some sample_refinement) None ''p'' ''.'' None = Inr r"
proof (rule generate_returns)
  have "strip (new_id ''queue_item'' ''u'') \<noteq> []" by code_simp
  then show "\<forall>i::nat. strip (new_id ''queue_item'' ((\<lambda>_. ''u'') i)) \<noteq> []" by simp
  show "strip (new_id ''work_queue_report'' ''u'') \<noteq> []" "strip ''now'' \<noteq> []" by code_simp+
  show "\<forall>pkg \<in> set (dict_list (jget (snd (refinement_source (\<lambda>_. None) (Some sample_refinement) None ''p'')) ''refined_packages'')).
      package_named (\<lambda>_. []) pkg" by code_simp
qed

theorem queue_respects_dependencies_witness:
  "\<exists>r. generate_work_queue_report (\<lambda>s. s) (\<lambda>_. []) (\<lambda>_. None) ''now'' (\<lambda>_. ''u'') ''u'' (Some sample_refinement) None ''p'' ''.'' None = Inr r \<and>
     dget (wr_dependencies r) ''a'' = Some [''b''] \<and> (\<forall>i < length (wr_items r). \<forall>d \<in> set (wi_deps (wr_items r ! i)). \<exists>j<i. wr_order r ! j = d)"
proof -
  obtain r where r: "generate_work_queue_report (\<lambda>s. s) (\<lambda>_. []) (\<lambda>_. None) ''now'' (\<lambda>_. ''u'') ''u'' (Some sample_refinement) None ''p'' ''.'' None = Inr r"
    using sample_returns by blast
  have "\<forall>pkg \<in> set (dict_list (jget (snd (refinement_source (\<lambda>_. None) (Some sample_refinement) None ''p'')) ''refined_packages'')).
      truthy (jget pkg ''refined_package_id'') \<and> \<not> compat_test (\<lambda>s. s) (\<lambda>_. []) pkg" by code_simp
  moreover have "dget (infer_dependencies (\<lambda>s. s) (\<lambda>_. []) (dict_list (jget (snd (refinement_source (\<lambda>_. None) (Some sample_refinement) None ''p''))
      ''refined_packages''))) ''a'' = Some [''b'']" by code_simp
  ultimately show ?thesis
    using r queue_respects_dependencies [OF r] generate_parts(1) [OF r refl] by metis
qed

text \<open>A generated work queue never reports a blocker: the dependencies of a package are looked up
  among the packages of the same report, so none is missing, and the blocker list and every blocker count
  are empty.\<close>

theorem queue_never_blocked:
  assumes "generate_work_queue_report low py_str read_file now uuids u refinement path dflt base limit = Inr r"
  shows "wr_blockers r = [] \<and> (\<forall>w \<in> set (wr_items r). wi_blockers w = 0)"
proof -
  note parts = generate_parts [OF assms refl]
  have "wi_blockers w = 0" if w: "w \<in> set (wr_items r)" for w
  proof -
    obtain k where "wr_items r = take k (number_items (queued_items low py_str uuids
        (dict_list (jget (snd (refinement_source read_file refinement path dflt)) ''refined_packages''))))"
      using parts(4) by blast
    then obtain v i where "v \<in> set (queued_items low py_str uuids
        (dict_list (jget (snd (refinement_source read_file refinement path dflt)) ''refined_packages'')))"
        and "w = v\<lparr>wi_position := i\<rparr>"
      using w by (auto simp: number_items_def dest!: in_set_takeD set_zip_leftD)
    moreover from queued_item [OF this(1)] have "wi_blockers v = 0" by blast
    ultimately show ?thesis by simp
  qed
  with parts(2) show ?thesis by blast
qed

theorem queue_never_blocked_witness:
  "\<exists>r. generate_work_queue_report (\<lambda>s. s) (\<lambda>_. []) (\<lambda>_. None) ''now'' (\<lambda>_. ''u'') ''u'' (Some sample_refinement) None ''p'' ''.'' None = Inr r \<and>
     wr_blockers r = []"
  using sample_returns queue_never_blocked by metis

end
