(* ===== verification/Tool_Router.thy ===== *)
theory Tool_Router
  imports Missions
begin

text \<open>
  \<^verbatim>\<open>src/tool_router\<close> (\<^verbatim>\<open>contracts.py\<close>, \<^verbatim>\<open>router.py\<close>,
  \<^verbatim>\<open>policies.py\<close>, \<^verbatim>\<open>audit.py\<close>): the route of a tool, merged from the
  canonical and the legacy registry, and the policies read from it. The registry files are given
  by their texts. \<open>low\<close> is \<^verbatim>\<open>str.lower\<close> and \<open>py_str\<close> the text of a container or a
  float; entries of the lists of a registry are not checked by the code and stay JSON values.

  The lemmas show which requests a route is disabled for, and when no route can be had at all.
\<close>

datatype tool_error =
    ToolValueError string
  | ToolTypeError
  | ToolJsonError

section \<open>Contracts\<close>

definition TOOL_PROVIDERS :: "string list" where
  "TOOL_PROVIDERS =
     [''local_builtin'', ''mcp'', ''shell'', ''ollama'', ''codex'', ''claude_code'', ''browser'', ''external_api'', ''future_cloud'']"

definition IMPLEMENTATION_STATUSES :: "string list" where
  "IMPLEMENTATION_STATUSES = [''active'', ''planned'', ''disabled'', ''deprecated'']"

definition RISK_TIERS :: "string list" where
  "RISK_TIERS = [''low'', ''medium'', ''high'', ''critical'']"

record tool_route =
  tr_name :: string
  tr_provider :: string
  tr_status :: string
  tr_risk :: string
  tr_approval :: bool
  tr_contexts :: "jval list"
  tr_allowed :: "jval list"
  tr_denied :: "jval list"
  tr_boundary :: bool
  tr_path_safety :: bool
  tr_network :: bool
  tr_write :: bool
  tr_audit :: bool
  tr_metadata :: jdict

definition tool_route_to_dict :: "tool_route \<Rightarrow> jdict" where
  "tool_route_to_dict r =
     [(''tool_name'', JStr (tr_name r)), (''provider'', JStr (tr_provider r)), (''implementation_status'', JStr (tr_status r)),
      (''risk_tier'', JStr (tr_risk r)), (''approval_required'', JBool (tr_approval r)),
      (''allowed_runtime_contexts'', JArr (tr_contexts r)), (''allowed_repository_groups'', JArr (tr_allowed r)),
      (''denied_repository_groups'', JArr (tr_denied r)), (''requires_repo_boundary'', JBool (tr_boundary r)),
      (''requires_path_safety'', JBool (tr_path_safety r)), (''network_access'', JBool (tr_network r)),
      (''write_access'', JBool (tr_write r)), (''audit_required'', JBool (tr_audit r)), (''metadata'', JObj (tr_metadata r))]"

text \<open>\<^verbatim>\<open>d.get(k, default)\<close>.\<close>

definition get_or :: "jdict \<Rightarrow> string \<Rightarrow> jval \<Rightarrow> jval" where
  "get_or d k v = (case dget d k of None \<Rightarrow> v | Some w \<Rightarrow> w)"

definition tool_str :: "jdict \<Rightarrow> string \<Rightarrow> (tool_error, unit) res" where
  "tool_str d k = require (filled (jget d k)) (ToolValueError (k @ '' is required''))"

definition tool_in :: "jdict \<Rightarrow> string \<Rightarrow> string list \<Rightarrow> string \<Rightarrow> (tool_error, unit) res" where
  "tool_in d k allowed what =
     require (the_str (jget d k) \<in> set allowed) (ToolValueError (''Invalid '' @ what @ '': '' @ the_str (jget d k)))"

definition tool_kind :: "(jval \<Rightarrow> bool) \<Rightarrow> jval \<Rightarrow> string \<Rightarrow> jdict \<Rightarrow> string \<Rightarrow> (tool_error, unit) res" where
  "tool_kind kind dflt what d k = require (kind (get_or d k dflt)) (ToolValueError (k @ '' must be '' @ what))"

definition validate_tool_route_dict :: "jdict \<Rightarrow> (tool_error, unit) res" where
  "validate_tool_route_dict d =
     each (\<lambda>r. r)
       ([tool_str d ''tool_name'', tool_str d ''provider'', tool_in d ''provider'' TOOL_PROVIDERS ''tool provider'',
         tool_str d ''implementation_status'', tool_in d ''implementation_status'' IMPLEMENTATION_STATUSES ''implementation status'',
         tool_str d ''risk_tier'', tool_in d ''risk_tier'' RISK_TIERS ''risk tier'', tool_kind is_bool JNull ''bool'' d ''approval_required''] @
        map (tool_kind is_arr (JArr []) ''list'' d)
          [''allowed_runtime_contexts'', ''allowed_repository_groups'', ''denied_repository_groups''] @
        map (tool_kind is_bool (JBool True) ''bool'' d)
          [''requires_repo_boundary'', ''requires_path_safety'', ''network_access'', ''write_access'', ''audit_required''] @
        [tool_kind is_obj (JObj []) ''object'' d ''metadata''])"

definition the_list :: "jval \<Rightarrow> jval list" where
  "the_list v = (case v of JArr xs \<Rightarrow> xs | _ \<Rightarrow> [])"

text \<open>The fields read are checked by the validator first.\<close>

definition tool_route_from_dict :: "jdict \<Rightarrow> (tool_error, tool_route) res" where
  "tool_route_from_dict d =
     res_bind (validate_tool_route_dict d) (\<lambda>_. Inr
       \<lparr>tr_name = the_str (jget d ''tool_name''), tr_provider = the_str (jget d ''provider''),
        tr_status = the_str (jget d ''implementation_status''), tr_risk = the_str (jget d ''risk_tier''),
        tr_approval = truthy (jget d ''approval_required''), tr_contexts = the_list (jget d ''allowed_runtime_contexts''),
        tr_allowed = the_list (jget d ''allowed_repository_groups''), tr_denied = the_list (jget d ''denied_repository_groups''),
        tr_boundary = truthy (get_or d ''requires_repo_boundary'' (JBool True)),
        tr_path_safety = truthy (get_or d ''requires_path_safety'' (JBool True)),
        tr_network = truthy (get_or d ''network_access'' (JBool False)), tr_write = truthy (get_or d ''write_access'' (JBool False)),
        tr_audit = truthy (get_or d ''audit_required'' (JBool True)), tr_metadata = the_obj (jget d ''metadata'')\<rparr>)"

definition create_disabled_fallback_route :: "string \<Rightarrow> tool_route" where
  "create_disabled_fallback_route name =
     \<lparr>tr_name = (if strip name \<noteq> [] then strip name else ''unknown''), tr_provider = ''local_builtin'', tr_status = ''disabled'',
      tr_risk = ''high'', tr_approval = True, tr_contexts = [], tr_allowed = [], tr_denied = [], tr_boundary = True,
      tr_path_safety = True, tr_network = False, tr_write = False, tr_audit = True,
      tr_metadata = [(''fallback_reason'', JStr ''unknown_or_unavailable_tool'')]\<rparr>"

section \<open>Registries\<close>

definition load_json_object :: "string option \<Rightarrow> (tool_error, jdict) res" where
  "load_json_object f =
     (let empty = [(''schema_version'', JInt 1), (''tools'', JArr [])] in
      case f of
        None \<Rightarrow> Inr empty
      | Some t \<Rightarrow> (case loads t of None \<Rightarrow> Inl ToolJsonError | Some (JObj d) \<Rightarrow> Inr d | Some _ \<Rightarrow> Inr empty))"

definition tools_by_name :: "jdict \<Rightarrow> (string, jdict) dict" where
  "tools_by_name registry =
     foldl (\<lambda>tools tool. case or_else (jget tool ''name'') (jget tool ''tool_name'') of
           JStr name \<Rightarrow> if strip name \<noteq> [] then dput name tool tools else tools
         | _ \<Rightarrow> tools) [] (dict_list (jget registry ''tools''))"

definition normalize_status :: "(string \<Rightarrow> string) \<Rightarrow> (jval \<Rightarrow> string) \<Rightarrow> jval \<Rightarrow> string" where
  "normalize_status low py_str v =
     (let raw = low (str_of_or py_str v ''active'') in
      if raw \<in> {''implemented'', ''implemented_but_restricted'', ''active''} then ''active''
      else if raw \<in> {''planned'', ''disabled'', ''deprecated''} then raw else ''planned'')"

definition lowered :: "(string \<Rightarrow> string) \<Rightarrow> string \<Rightarrow> string \<Rightarrow> string" where
  "lowered low name description = low (name @ '' '' @ description)"

definition infer_provider :: "(string \<Rightarrow> string) \<Rightarrow> string \<Rightarrow> string \<Rightarrow> string" where
  "infer_provider low name description =
     (let l = lowered low name description in
      if contains ''ollama'' l then ''ollama'' else if contains ''codex'' l then ''codex''
      else if contains ''claude'' l then ''claude_code'' else if contains ''browser'' l then ''browser''
      else if contains ''http'' l \<or> contains ''network'' l then ''external_api''
      else if contains ''command'' l \<or> contains ''execute'' l \<or> contains ''run '' l then ''shell'' else ''mcp'')"

definition infer_risk_tier :: "(string \<Rightarrow> string) \<Rightarrow> string \<Rightarrow> string \<Rightarrow> string" where
  "infer_risk_tier low name description =
     (let l = lowered low name description in
      if contains ''write'' l \<or> contains ''execute'' l \<or> contains ''network'' l then ''high''
      else if contains ''run '' l \<or> contains ''command'' l then ''medium'' else ''low'')"

definition infer_network_access :: "(string \<Rightarrow> string) \<Rightarrow> string \<Rightarrow> string \<Rightarrow> bool" where
  "infer_network_access low name description =
     (let l = lowered low name description in contains ''network'' l \<or> contains ''http'' l \<or> contains ''url'' l)"

definition infer_write_access :: "(string \<Rightarrow> string) \<Rightarrow> string \<Rightarrow> string \<Rightarrow> bool" where
  "infer_write_access low name description =
     (let l = lowered low name description in contains ''write'' l \<or> contains ''writes'' l \<or> contains ''execute'' l \<or> contains ''run '' l)"

definition infer_requires_repo_boundary :: "(string \<Rightarrow> string) \<Rightarrow> string \<Rightarrow> string \<Rightarrow> bool" where
  "infer_requires_repo_boundary low name description =
     (let l = lowered low name description in
      contains ''repo'' l \<or> contains ''workspace'' l \<or> contains ''path'' l \<or> contains ''asset'' l)"

text \<open>\<^verbatim>\<open>list(v or [])\<close>: the characters of a text, the keys of an object.\<close>

fun list_or_empty :: "jval \<Rightarrow> (tool_error, jval list) res" where
  "list_or_empty (JArr xs) = Inr xs"
| "list_or_empty (JStr s) = Inr (map JStr (uchars s))"
| "list_or_empty (JObj d) = Inr (map (\<lambda>kv. JStr (fst kv)) d)"
| "list_or_empty v = (if truthy v then Inl ToolTypeError else Inr [])"

definition flag_or :: "jdict \<Rightarrow> string \<Rightarrow> bool \<Rightarrow> bool" where
  "flag_or d k dflt = (case dget d k of None \<Rightarrow> dflt | Some v \<Rightarrow> truthy v)"

definition merge_tool_route ::
  "(string \<Rightarrow> string) \<Rightarrow> (jval \<Rightarrow> string) \<Rightarrow> string \<Rightarrow> jdict \<Rightarrow> jdict \<Rightarrow> (tool_error, tool_route) res" where
  "merge_tool_route low py_str name canonical legacy =
     (let description = str_of_or py_str (or_else (jget canonical ''description'') (jget legacy ''description'')) [];
          requirements = or_else (jget canonical ''approval_requirements'') (JArr []);
          contexts = or_else (jget canonical ''allowed_runtime_context'') (or_else (jget canonical ''allowed_runtime_contexts'') (JArr []));
          risk = str_of_or py_str (jget canonical ''risk_tier'') (infer_risk_tier low name description);
          write = flag_or canonical ''write_access'' (infer_write_access low name description);
          boundary = flag_or canonical ''requires_repo_boundary'' (infer_requires_repo_boundary low name description);
          approval = flag_or canonical ''approval_required'' (truthy requirements \<or> write)
      in res_bind (list_or_empty (jget canonical ''allowed_repository_groups'')) (\<lambda>allowed.
         res_bind (list_or_empty (jget canonical ''denied_repository_groups'')) (\<lambda>denied.
           tool_route_from_dict
             [(''tool_name'', JStr name),
              (''provider'', JStr (str_of_or py_str (jget canonical ''provider'') (infer_provider low name description))),
              (''implementation_status'', JStr (normalize_status low py_str (jget canonical ''current_implementation_status''))),
              (''risk_tier'', JStr (if risk \<in> set RISK_TIERS then risk else ''high'')), (''approval_required'', JBool approval),
              (''allowed_runtime_contexts'', JArr (the_list contexts)), (''allowed_repository_groups'', JArr allowed),
              (''denied_repository_groups'', JArr denied), (''requires_repo_boundary'', JBool boundary),
              (''requires_path_safety'',
                JBool (flag_or canonical ''requires_path_safety'' (boundary \<or> contains ''path traversal'' (low description)))),
              (''network_access'', JBool (flag_or canonical ''network_access'' (infer_network_access low name description))),
              (''write_access'', JBool write),
              (''audit_required'', JBool (flag_or canonical ''audit_required'' (risk \<in> {''high'', ''critical''} \<or> approval))),
              (''metadata'', JObj
                [(''description'', JStr description), (''approval_requirements'', JArr (the_list requirements)),
                 (''legacy_schema_present'', JBool (legacy \<noteq> [])), (''legacy_arguments'', JObj (the_obj (jget legacy ''arguments''))),
                 (''canonical_present'', JBool (canonical \<noteq> []))])])))"

fun merge_all ::
  "(string \<Rightarrow> string) \<Rightarrow> (jval \<Rightarrow> string) \<Rightarrow> (string, jdict) dict \<Rightarrow> (string, jdict) dict \<Rightarrow> string list
    \<Rightarrow> (tool_error, (string, tool_route) dict) res" where
  "merge_all low py_str canonical legacy [] = Inr []"
| "merge_all low py_str canonical legacy (name # names) =
     res_bind (merge_tool_route low py_str name (case dget canonical name of None \<Rightarrow> [] | Some d \<Rightarrow> d)
         (case dget legacy name of None \<Rightarrow> [] | Some d \<Rightarrow> d)) (\<lambda>r.
       res_bind (merge_all low py_str canonical legacy names) (\<lambda>rs. Inr ((name, r) # rs)))"

definition build_routes_by_name ::
  "(string \<Rightarrow> string) \<Rightarrow> (jval \<Rightarrow> string) \<Rightarrow> string option \<Rightarrow> string option \<Rightarrow> (tool_error, (string, tool_route) dict) res" where
  "build_routes_by_name low py_str canonical_file legacy_file =
     res_bind (load_json_object canonical_file) (\<lambda>canonical.
     res_bind (load_json_object legacy_file) (\<lambda>legacy.
       merge_all low py_str (tools_by_name canonical) (tools_by_name legacy)
         (sort (remdups (dkeys (tools_by_name canonical) @ dkeys (tools_by_name legacy))))))"

section \<open>Routes\<close>

definition blocked_route :: "tool_route \<Rightarrow> string \<Rightarrow> string \<Rightarrow> string \<Rightarrow> (tool_error, tool_route) res" where
  "blocked_route r reason k v =
     (let d = tool_route_to_dict r in
      tool_route_from_dict
        (dput ''metadata'' (JObj (dupdate (the_obj (get_or d ''metadata'' (JObj []))) [(''disabled_reason'', JStr reason), (k, JStr v)]))
          (dput ''approval_required'' (JBool True) (dput ''implementation_status'' (JStr ''disabled'') d))))"

text \<open>A name that is not given is the empty text here, which Python takes for false as well.\<close>

definition resolve_tool_route ::
  "(string \<Rightarrow> string) \<Rightarrow> (jval \<Rightarrow> string) \<Rightarrow> string option \<Rightarrow> string option \<Rightarrow> string \<Rightarrow> string \<Rightarrow> string
    \<Rightarrow> (tool_error, tool_route) res" where
  "resolve_tool_route low py_str canonical_file legacy_file name grp ctx =
     res_bind (build_routes_by_name low py_str canonical_file legacy_file) (\<lambda>routes.
       case dget routes name of
         None \<Rightarrow> Inr (create_disabled_fallback_route name)
       | Some r \<Rightarrow>
           if grp \<noteq> [] \<and> JStr grp \<in> set (tr_denied r)
             then blocked_route r ''repository_group_denied'' ''repository_group'' grp
           else if ctx \<noteq> [] \<and> tr_contexts r \<noteq> [] \<and> JStr ctx \<notin> set (tr_contexts r)
             then blocked_route r ''runtime_context_not_allowed'' ''runtime_context'' ctx
           else Inr r)"

definition list_tool_routes ::
  "(string \<Rightarrow> string) \<Rightarrow> (jval \<Rightarrow> string) \<Rightarrow> string option \<Rightarrow> string option \<Rightarrow> (tool_error, tool_route list) res" where
  "list_tool_routes low py_str canonical_file legacy_file =
     res_bind (build_routes_by_name low py_str canonical_file legacy_file) (\<lambda>routes. Inr (sort_key tr_name (dvalues routes)))"

definition tool_exists ::
  "(string \<Rightarrow> string) \<Rightarrow> (jval \<Rightarrow> string) \<Rightarrow> string option \<Rightarrow> string option \<Rightarrow> string \<Rightarrow> (tool_error, bool) res" where
  "tool_exists low py_str canonical_file legacy_file name =
     res_bind (resolve_tool_route low py_str canonical_file legacy_file name [] []) (\<lambda>r. Inr (tr_status r \<noteq> ''disabled''))"

section \<open>Policies and audit records\<close>

definition requires_human_approval :: "tool_route \<Rightarrow> bool" where
  "requires_human_approval r \<longleftrightarrow> tr_approval r \<or> tr_risk r = ''critical''"

definition is_network_denied_by_default :: "tool_route \<Rightarrow> bool" where
  "is_network_denied_by_default r \<longleftrightarrow> tr_network r \<and> \<not> truthy (jget (tr_metadata r) ''network_explicitly_allowed'')"

definition requires_write_approval :: "tool_route \<Rightarrow> bool" where
  "requires_write_approval r \<longleftrightarrow> tr_write r \<or> tr_approval r"

definition requires_path_traversal_protection :: "tool_route \<Rightarrow> bool" where
  "requires_path_traversal_protection r \<longleftrightarrow> tr_path_safety r \<or> tr_boundary r"

definition is_allowed_for_repository_group :: "tool_route \<Rightarrow> string \<Rightarrow> bool" where
  "is_allowed_for_repository_group r grp \<longleftrightarrow>
     (if grp = [] then True else if JStr grp \<in> set (tr_denied r) then False
      else \<not> (tr_allowed r \<noteq> [] \<and> JStr grp \<notin> set (tr_allowed r)))"

definition is_allowed_in_runtime_context :: "tool_route \<Rightarrow> string \<Rightarrow> bool" where
  "is_allowed_in_runtime_context r ctx \<longleftrightarrow>
     (if ctx = [] then True else \<not> (tr_contexts r \<noteq> [] \<and> JStr ctx \<notin> set (tr_contexts r)))"

definition explain_tool_policy :: "tool_route \<Rightarrow> string list" where
  "explain_tool_policy r =
     (let notes =
        (if tr_status r = ''disabled'' then [''tool disabled''] else []) @
        (if requires_human_approval r then [''human approval required before future enforcement''] else []) @
        (if is_network_denied_by_default r then [''network access denied by default''] else []) @
        (if tr_write r then [''write-capable tool requires approval''] else []) @
        (if requires_path_traversal_protection r then [''repo boundary and path traversal protection required''] else []) @
        (if tr_audit r then [''audit record recommended''] else [])
      in if notes = [] then [''read-only/no-network diagnostic route preferred''] else notes)"

definition build_tool_route_audit_record ::
  "string \<Rightarrow> string \<Rightarrow> tool_route \<Rightarrow> string \<Rightarrow> string option \<Rightarrow> string option \<Rightarrow> string option \<Rightarrow> jdict" where
  "build_tool_route_audit_record now uuid r requested_by repository mission task =
     [(''audit_id'', JStr (''tool_audit_'' @ uuid)), (''tool_name'', JStr (tr_name r)), (''provider'', JStr (tr_provider r)),
      (''risk_tier'', JStr (tr_risk r)), (''approval_required'', JBool (tr_approval r)), (''repository_name'', opt_json repository),
      (''mission_id'', opt_json mission), (''task_id'', opt_json task), (''requested_by'', JStr requested_by),
      (''created_utc'', JStr now),
      (''metadata'', JObj [(''implementation_status'', JStr (tr_status r)), (''network_access'', JBool (tr_network r)),
        (''write_access'', JBool (tr_write r)), (''audit_required'', JBool (tr_audit r))])]"

section \<open>What a route promises\<close>

text \<open>The fields of a dictionary that passes the validator, and those of a blocked route.\<close>

lemma from_dict_fields:
  assumes "tool_route_from_dict d = Inr r"
  shows "validate_tool_route_dict d = Inr ()" and "tr_status r = the_str (jget d ''implementation_status'')"
    and "tr_approval r = truthy (jget d ''approval_required'')" and "tr_denied r = the_list (jget d ''denied_repository_groups'')"
    and "tr_contexts r = the_list (jget d ''allowed_runtime_contexts'')" and "tr_provider r = the_str (jget d ''provider'')"
    and "tr_provider r \<in> set TOOL_PROVIDERS"
  using assms by (auto simp: tool_route_from_dict_def res_bind_Inr_iff validate_tool_route_dict_def each_Inr_iff tool_in_def)

lemma blocked_route_fields:
  assumes "blocked_route r reason k v = Inr r'"
  shows "tr_status r' = ''disabled'' \<and> tr_approval r' \<and> tr_denied r' = tr_denied r \<and> tr_contexts r' = tr_contexts r"
  using from_dict_fields [OF assms [unfolded blocked_route_def Let_def]]
  by (simp add: jget_dput tool_route_to_dict_def the_list_def the_str_def)

text \<open>A route is disabled, permitted as it stands in the registries, or cannot be had.\<close>

lemma resolve_cases:
  assumes "resolve_tool_route low py_str cf lf name grp ctx = Inr r"
  obtains (unknown) routes where "build_routes_by_name low py_str cf lf = Inr routes" and "dget routes name = None"
      and "r = create_disabled_fallback_route name"
  | (denied) routes r0 where "build_routes_by_name low py_str cf lf = Inr routes" and "dget routes name = Some r0"
      and "grp \<noteq> []" and "JStr grp \<in> set (tr_denied r0)" and "blocked_route r0 ''repository_group_denied'' ''repository_group'' grp = Inr r"
  | (outside) routes r0 where "build_routes_by_name low py_str cf lf = Inr routes" and "dget routes name = Some r0"
      and "\<not> (grp \<noteq> [] \<and> JStr grp \<in> set (tr_denied r0))" and "\<not> is_allowed_in_runtime_context r0 ctx"
      and "blocked_route r0 ''runtime_context_not_allowed'' ''runtime_context'' ctx = Inr r"
  | (permitted) routes where "build_routes_by_name low py_str cf lf = Inr routes" and "dget routes name = Some r"
      and "\<not> (grp \<noteq> [] \<and> JStr grp \<in> set (tr_denied r))" and "is_allowed_in_runtime_context r ctx"
proof -
  obtain routes where b: "build_routes_by_name low py_str cf lf = Inr routes"
    using assms by (auto simp: resolve_tool_route_def res_bind_Inr_iff)
  show thesis
  proof (cases "dget routes name")
    case None
    with assms b have "r = create_disabled_fallback_route name" by (simp add: resolve_tool_route_def)
    with b None show thesis by (rule unknown)
  next
    case (Some r0)
    consider "grp \<noteq> [] \<and> JStr grp \<in> set (tr_denied r0)"
      | "\<not> (grp \<noteq> [] \<and> JStr grp \<in> set (tr_denied r0))" "is_allowed_in_runtime_context r0 ctx"
      | "\<not> (grp \<noteq> [] \<and> JStr grp \<in> set (tr_denied r0))" "\<not> is_allowed_in_runtime_context r0 ctx" by blast
    then show thesis
    proof cases
      case 1
      with assms b Some show thesis using denied [OF b Some] by (simp add: resolve_tool_route_def)
    next
      case 2
      then have "r0 = r" using assms b Some by (auto simp: resolve_tool_route_def is_allowed_in_runtime_context_def split: if_splits)
      with 2 b Some show thesis by (intro permitted [of routes]) simp_all
    next
      case 3
      then have "blocked_route r0 ''runtime_context_not_allowed'' ''runtime_context'' ctx = Inr r"
        using assms b Some by (auto simp: resolve_tool_route_def is_allowed_in_runtime_context_def split: if_splits)
      with 3 b Some show thesis by (intro outside [of routes r0]) simp_all
    qed
  qed
qed

lemma merge_all_routes:
  "merge_all low py_str canonical legacy names = Inr routes \<Longrightarrow>
     (\<forall>name \<in> set names. \<exists>r. merge_tool_route low py_str name (case dget canonical name of None \<Rightarrow> [] | Some d \<Rightarrow> d)
         (case dget legacy name of None \<Rightarrow> [] | Some d \<Rightarrow> d) = Inr r) \<and> map fst routes = names"
proof (induction names arbitrary: routes)
  case Nil
  then show ?case by simp
next
  case (Cons name names)
  then obtain r rs where "merge_tool_route low py_str name (case dget canonical name of None \<Rightarrow> [] | Some d \<Rightarrow> d)
         (case dget legacy name of None \<Rightarrow> [] | Some d \<Rightarrow> d) = Inr r"
      and "merge_all low py_str canonical legacy names = Inr rs" and "routes = (name, r) # rs"
    by (auto simp: res_bind_Inr_iff)
  with Cons.IH [of rs] show ?case by auto
qed

text \<open>A registry with one tool whose allow list names one group, and one with an unknown provider.\<close>

definition sample_tool :: "string \<Rightarrow> jdict" where
  "sample_tool provider =
     [(''allowed_repository_groups'', JArr [JStr ''core'']), (''name'', JStr ''reader''), (''provider'', JStr provider)]"

definition sample_tools :: "string \<Rightarrow> jdict" where
  "sample_tools provider = [(''tools'', JArr [JObj (sample_tool provider)])]"

lemma load_sample: "load_json_object (Some (dumps (JObj (sample_tools provider)))) = Inr (sample_tools provider)"
proof -
  have "wf_json (JObj (sample_tools provider))" by (simp add: sample_tools_def sample_tool_def wf_dict_def)
  moreover have "canon (JObj (sample_tools provider)) = JObj (sample_tools provider)"
    by (simp add: sample_tools_def sample_tool_def sort_key_def)
  ultimately show ?thesis by (simp add: load_json_object_def loads_dumps del: wf_json.simps canon.simps dumps.simps)
qed

lemma sample_routes:
  obtains r where "resolve_tool_route (\<lambda>s. s) (\<lambda>_. []) (Some (dumps (JObj (sample_tools ''mcp'')))) None ''reader'' [] [] = Inr r"
    and "tr_status r = ''active''" and "tr_denied r = []" and "tr_allowed r = [JStr ''core'']"
proof -
  have l: "load_json_object None = Inr [(''schema_version'', JInt 1), (''tools'', JArr [])]" by (simp add: load_json_object_def)
  have "case merge_all (\<lambda>s. s) (\<lambda>_. []) (tools_by_name (sample_tools ''mcp'')) (tools_by_name [(''schema_version'', JInt 1), (''tools'', JArr [])])
      (sort (remdups (dkeys (tools_by_name (sample_tools ''mcp'')) @ dkeys (tools_by_name [(''schema_version'', JInt 1), (''tools'', JArr [])]))))
      of Inl e \<Rightarrow> False
       | Inr rs \<Rightarrow> map (\<lambda>(n, r). (n, tr_contexts r, tr_status r, tr_denied r, tr_allowed r)) rs = [(''reader'', [], ''active'', [], [JStr ''core''])]"
    by code_simp
  then obtain r where "merge_all (\<lambda>s. s) (\<lambda>_. []) (tools_by_name (sample_tools ''mcp'')) (tools_by_name [(''schema_version'', JInt 1), (''tools'', JArr [])])
      (sort (remdups (dkeys (tools_by_name (sample_tools ''mcp'')) @ dkeys (tools_by_name [(''schema_version'', JInt 1), (''tools'', JArr [])]))))
      = Inr [(''reader'', r)]" and "tr_status r = ''active''" "tr_denied r = []" "tr_allowed r = [JStr ''core'']"
    by (auto split: sum.splits)
  then show thesis
    using that by (simp add: resolve_tool_route_def build_routes_by_name_def load_sample l del: dumps.simps)
qed

text \<open>C38: A tool is only routed as usable, that is with a status other than disabled, when one of the
  registries lists it, its deny list does not name the repository group asked for, and its runtime contexts,
  if it has any, include the one asked for.\<close>

theorem usable_route_permitted:
  assumes "resolve_tool_route low py_str cf lf name grp ctx = Inr r" and "tr_status r \<noteq> ''disabled''"
  shows "(grp = [] \<or> JStr grp \<notin> set (tr_denied r)) \<and> is_allowed_in_runtime_context r ctx \<and>
    (\<exists>canonical legacy. load_json_object cf = Inr canonical \<and> load_json_object lf = Inr legacy \<and>
       (dhas (tools_by_name canonical) name \<or> dhas (tools_by_name legacy) name))"
  using assms(1)
proof (cases rule: resolve_cases)
  case (unknown routes)
  with assms(2) show ?thesis by (simp add: create_disabled_fallback_route_def)
next
  case (denied routes r0)
  with assms(2) blocked_route_fields show ?thesis by blast
next
  case (outside routes r0)
  with assms(2) blocked_route_fields show ?thesis by blast
next
  case (permitted routes)
  then obtain canonical legacy where f: "load_json_object cf = Inr canonical" "load_json_object lf = Inr legacy"
      and m: "merge_all low py_str (tools_by_name canonical) (tools_by_name legacy)
        (sort (remdups (dkeys (tools_by_name canonical) @ dkeys (tools_by_name legacy)))) = Inr routes"
    by (auto simp: build_routes_by_name_def res_bind_Inr_iff)
  have "name \<in> set (map fst routes)" using dget_in_set [OF permitted(2)] by force
  then have "dhas (tools_by_name canonical) name \<or> dhas (tools_by_name legacy) name"
    using merge_all_routes [OF m] by (auto simp: dhas_iff dkeys_def)
  with permitted f show ?thesis by blast
qed

theorem usable_route_permitted_witness:
  "\<exists>r. resolve_tool_route (\<lambda>s. s) (\<lambda>_. []) (Some (dumps (JObj (sample_tools ''mcp'')))) None ''reader'' [] [] = Inr r \<and>
     tr_status r = ''active'' \<and> is_allowed_in_runtime_context r []"
proof -
  obtain r where r: "resolve_tool_route (\<lambda>s. s) (\<lambda>_. []) (Some (dumps (JObj (sample_tools ''mcp'')))) None ''reader'' [] [] = Inr r"
      and s: "tr_status r = ''active''"
    using sample_routes by metis
  have "tr_status r \<noteq> ''disabled''" using s by simp
  from usable_route_permitted [OF r this] r s show ?thesis by blast
qed

text \<open>The router does not look at the allowed repository groups: for every group the deny list does not
  name, the route is the one given without any group, even where the policy of the same package says that
  the group is not allowed.\<close>

theorem allow_list_not_enforced:
  assumes "resolve_tool_route low py_str cf lf name [] ctx = Inr r" and "JStr grp \<notin> set (tr_denied r)"
  shows "resolve_tool_route low py_str cf lf name grp ctx = Inr r"
  using assms(1)
proof (cases rule: resolve_cases)
  case (unknown routes)
  then show ?thesis by (simp add: resolve_tool_route_def)
next
  case (denied routes r0)
  then show ?thesis by simp
next
  case (outside routes r0)
  with assms(2) blocked_route_fields [of r0] show ?thesis
    by (auto simp: resolve_tool_route_def is_allowed_in_runtime_context_def split: if_splits)
next
  case (permitted routes)
  with assms(2) show ?thesis
    by (auto simp: resolve_tool_route_def is_allowed_in_runtime_context_def split: if_splits)
qed

theorem allow_list_not_enforced_witness:
  "\<exists>r. resolve_tool_route (\<lambda>s. s) (\<lambda>_. []) (Some (dumps (JObj (sample_tools ''mcp'')))) None ''reader'' ''other'' [] = Inr r \<and>
     tr_status r = ''active'' \<and> \<not> is_allowed_for_repository_group r ''other''"
proof -
  obtain r where r: "resolve_tool_route (\<lambda>s. s) (\<lambda>_. []) (Some (dumps (JObj (sample_tools ''mcp'')))) None ''reader'' [] [] = Inr r"
      and f: "tr_status r = ''active''" "tr_denied r = []" "tr_allowed r = [JStr ''core'']"
    using sample_routes by metis
  have "JStr ''other'' \<notin> set (tr_denied r)" using f by simp
  from allow_list_not_enforced [OF r this] show ?thesis using f by (simp add: is_allowed_for_repository_group_def)
qed

text \<open>One entry of the canonical registry with a provider outside the known ones makes every request
  for a route raise, whatever tool it asks for.\<close>

theorem bad_provider_blocks_all:
  assumes "load_json_object cf = Inr canonical" and "dget (tools_by_name canonical) bad = Some entry"
    and "truthy (jget entry ''provider'')" and "str_of_or py_str (jget entry ''provider'') [] \<notin> set TOOL_PROVIDERS"
  shows "\<exists>e. resolve_tool_route low py_str cf lf name grp ctx = Inl e"
proof (cases "build_routes_by_name low py_str cf lf")
  case (Inl e)
  then show ?thesis by (simp add: resolve_tool_route_def)
next
  case (Inr routes)
  then obtain legacy where m: "merge_all low py_str (tools_by_name canonical) (tools_by_name legacy)
      (sort (remdups (dkeys (tools_by_name canonical) @ dkeys (tools_by_name legacy)))) = Inr routes"
    using assms(1) by (auto simp: build_routes_by_name_def res_bind_Inr_iff)
  have "bad \<in> set (sort (remdups (dkeys (tools_by_name canonical) @ dkeys (tools_by_name legacy))))"
    using dget_in_set [OF assms(2)] by (force simp: dkeys_def)
  then obtain r where "merge_tool_route low py_str bad entry (case dget (tools_by_name legacy) bad of None \<Rightarrow> [] | Some d \<Rightarrow> d) = Inr r"
    using merge_all_routes [OF m] assms(2) by (metis option.case(2))
  then obtain d where d: "tool_route_from_dict d = Inr r"
      and p: "the_str (jget d ''provider'') = str_of_or py_str (jget entry ''provider'') (infer_provider low bad (str_of_or py_str
        (or_else (jget entry ''description'') (jget (case dget (tools_by_name legacy) bad of None \<Rightarrow> [] | Some d \<Rightarrow> d) ''description'')) []))"
    by (auto simp: merge_tool_route_def Let_def res_bind_Inr_iff the_str_def)
  have "the_str (jget d ''provider'') = str_of_or py_str (jget entry ''provider'') []"
    using p assms(3) by (simp add: str_of_or_def)
  with from_dict_fields(6,7) [OF d] assms(4) show ?thesis by simp
qed

theorem bad_provider_blocks_all_witness:
  "\<exists>e. resolve_tool_route (\<lambda>s. s) (\<lambda>_. []) (Some (dumps (JObj (sample_tools ''gpt'')))) None ''other'' [] [] = Inl e"
proof -
  have "dget (tools_by_name (sample_tools ''gpt'')) ''reader'' = Some (sample_tool ''gpt'')" by code_simp
  moreover have "truthy (jget (sample_tool ''gpt'') ''provider'')" "str_of_or (\<lambda>_. []) (jget (sample_tool ''gpt'') ''provider'') [] \<notin> set TOOL_PROVIDERS"
    by code_simp+
  ultimately show ?thesis by (rule bad_provider_blocks_all [OF load_sample])
qed

end
