(* ===== verification/Scheduler.thy ===== *)
theory Scheduler
  imports Tool_Router
begin

text \<open>
  \<^verbatim>\<open>src/scheduler\<close> (\<^verbatim>\<open>contracts.py\<close>, \<^verbatim>\<open>store.py\<close>,
  \<^verbatim>\<open>planner.py\<close>, \<^verbatim>\<open>queue_compat.py\<close>): workers, task leases, the state file and the choice
  of a worker for a task. The state file is the value \<^verbatim>\<open>json.load\<close> reads from it: a value
  written with sorted keys reads back as its \<^const>\<open>canon\<close>. A task is a dictionary; the attributes of a task
  object are read the same way.

  The lemmas show that the operations keep the state file loadable, what expiry does to leases, and
  which worker is chosen.
\<close>

datatype sched_error =
    SchedValueError string
  | SchedKeyError string
  | SchedAttributeError
  | SchedTypeError

section \<open>Contracts\<close>

definition WORKER_TYPES :: "string list" where
  "WORKER_TYPES =
     [''local_ollama'', ''local_codex'', ''local_claude_code'', ''local_mcp'', ''local_shell'', ''browser_runtime'', ''future_cloud'']"

definition WORKER_STATUSES :: "string list" where
  "WORKER_STATUSES = [''registered'', ''idle'', ''busy'', ''degraded'', ''offline'', ''disabled'']"

definition LEASE_STATUSES :: "string list" where
  "LEASE_STATUSES = [''active'', ''renewed'', ''released'', ''expired'', ''failed'', ''cancelled'']"

record worker =
  wk_id :: string
  wk_type :: string
  wk_name :: string
  wk_status :: string
  wk_capabilities :: "jval list"
  wk_providers :: "jval list"
  wk_groups :: "jval list"
  wk_max_tasks :: int
  wk_budget :: jdict
  wk_created :: string
  wk_updated :: string
  wk_metadata :: jdict

definition worker_to_dict :: "worker \<Rightarrow> jdict" where
  "worker_to_dict w =
     [(''worker_id'', JStr (wk_id w)), (''worker_type'', JStr (wk_type w)), (''display_name'', JStr (wk_name w)),
      (''status'', JStr (wk_status w)), (''capabilities'', JArr (wk_capabilities w)),
      (''supported_providers'', JArr (wk_providers w)), (''supported_repository_groups'', JArr (wk_groups w)),
      (''max_concurrent_tasks'', JInt (wk_max_tasks w)), (''hardware_budget'', JObj (wk_budget w)),
      (''created_utc'', JStr (wk_created w)), (''updated_utc'', JStr (wk_updated w)), (''metadata'', JObj (wk_metadata w))]"

record lease =
  ls_id :: string
  ls_task :: string
  ls_worker :: string
  ls_status :: string
  ls_priority :: int
  ls_acquired :: string
  ls_expires :: string
  ls_mission :: "string option"
  ls_renewed :: "string option"
  ls_released :: "string option"
  ls_metadata :: jdict

definition lease_to_dict :: "lease \<Rightarrow> jdict" where
  "lease_to_dict l =
     [(''lease_id'', JStr (ls_id l)), (''task_id'', JStr (ls_task l)), (''mission_id'', opt_json (ls_mission l)),
      (''worker_id'', JStr (ls_worker l)), (''lease_status'', JStr (ls_status l)), (''priority'', JInt (ls_priority l)),
      (''acquired_utc'', JStr (ls_acquired l)), (''expires_utc'', JStr (ls_expires l)), (''renewed_utc'', opt_json (ls_renewed l)),
      (''released_utc'', opt_json (ls_released l)), (''metadata'', JObj (ls_metadata l))]"

definition sched_str :: "jdict \<Rightarrow> string \<Rightarrow> (sched_error, unit) res" where
  "sched_str d k = require (filled (jget d k)) (SchedValueError (k @ '' is required''))"

definition sched_in :: "jdict \<Rightarrow> string \<Rightarrow> string list \<Rightarrow> string \<Rightarrow> (sched_error, unit) res" where
  "sched_in d k allowed what =
     require (the_str (jget d k) \<in> set allowed) (SchedValueError (''Invalid '' @ what @ '': '' @ the_str (jget d k)))"

definition sched_kind :: "(jval \<Rightarrow> bool) \<Rightarrow> string \<Rightarrow> jdict \<Rightarrow> string \<Rightarrow> (sched_error, unit) res" where
  "sched_kind kind what d k = require (kind (jget d k)) (SchedValueError (k @ '' must be '' @ what))"

definition positive_int :: "jval \<Rightarrow> bool" where
  "positive_int v \<longleftrightarrow> (case v of JInt i \<Rightarrow> i > 0 | _ \<Rightarrow> False)"

definition proper_int :: "jval \<Rightarrow> bool" where
  "proper_int v \<longleftrightarrow> is_int v \<and> \<not> is_bool v"

definition validate_worker_descriptor_dict :: "jdict \<Rightarrow> (sched_error, unit) res" where
  "validate_worker_descriptor_dict d =
     each (\<lambda>r. r)
       ([sched_str d ''worker_id'', sched_str d ''worker_type'', sched_in d ''worker_type'' WORKER_TYPES ''worker type'',
         sched_str d ''display_name'', sched_str d ''status'', sched_in d ''status'' WORKER_STATUSES ''worker status''] @
        map (sched_kind is_arr ''a list'' d) [''capabilities'', ''supported_providers'', ''supported_repository_groups''] @
        [sched_kind positive_int ''a positive integer'' d ''max_concurrent_tasks'', sched_kind is_obj ''an object'' d ''hardware_budget'',
         sched_str d ''created_utc'', sched_str d ''updated_utc'', sched_kind is_obj ''an object'' d ''metadata''])"

definition validate_task_lease_dict :: "jdict \<Rightarrow> (sched_error, unit) res" where
  "validate_task_lease_dict d =
     each (\<lambda>r. r)
       [sched_str d ''lease_id'', sched_str d ''task_id'', sched_str d ''worker_id'', sched_str d ''lease_status'',
        sched_in d ''lease_status'' LEASE_STATUSES ''lease status'', sched_str d ''acquired_utc'', sched_str d ''expires_utc'',
        sched_kind proper_int ''an integer'' d ''priority'', sched_kind is_obj ''an object'' d ''metadata'']"

text \<open>The lists of a worker are not looked into by the validator, so they keep their JSON values.\<close>

definition worker_from_dict :: "jdict \<Rightarrow> (sched_error, worker) res" where
  "worker_from_dict d =
     res_bind (validate_worker_descriptor_dict d) (\<lambda>_. Inr
       \<lparr>wk_id = the_str (jget d ''worker_id''), wk_type = the_str (jget d ''worker_type''), wk_name = the_str (jget d ''display_name''),
        wk_status = the_str (jget d ''status''), wk_capabilities = the_list (jget d ''capabilities''),
        wk_providers = the_list (jget d ''supported_providers''), wk_groups = the_list (jget d ''supported_repository_groups''),
        wk_max_tasks = int_value (jget d ''max_concurrent_tasks'') 1, wk_budget = the_obj (jget d ''hardware_budget''),
        wk_created = the_str (jget d ''created_utc''), wk_updated = the_str (jget d ''updated_utc''),
        wk_metadata = the_obj (jget d ''metadata'')\<rparr>)"

definition lease_from_dict :: "jdict \<Rightarrow> (sched_error, lease) res" where
  "lease_from_dict d =
     res_bind (validate_task_lease_dict d) (\<lambda>_. Inr
       \<lparr>ls_id = the_str (jget d ''lease_id''), ls_task = the_str (jget d ''task_id''), ls_worker = the_str (jget d ''worker_id''),
        ls_status = the_str (jget d ''lease_status''), ls_priority = int_value (jget d ''priority'') 0,
        ls_acquired = the_str (jget d ''acquired_utc''), ls_expires = the_str (jget d ''expires_utc''),
        ls_mission = optional_str (jget d ''mission_id''), ls_renewed = optional_str (jget d ''renewed_utc''),
        ls_released = optional_str (jget d ''released_utc''), ls_metadata = the_obj (jget d ''metadata'')\<rparr>)"

definition create_worker_descriptor ::
  "string \<Rightarrow> string \<Rightarrow> string option \<Rightarrow> string \<Rightarrow> string \<Rightarrow> string \<Rightarrow> jval list \<Rightarrow> jval list \<Rightarrow> jval list
    \<Rightarrow> int \<Rightarrow> jdict \<Rightarrow> jdict \<Rightarrow> (sched_error, worker) res" where
  "create_worker_descriptor now uuid worker_id kind name status capabilities providers groups max_tasks budget metadata =
     (let w = \<lparr>wk_id = str_or worker_id (new_id ''worker'' uuid), wk_type = kind, wk_name = name, wk_status = status,
          wk_capabilities = capabilities, wk_providers = providers, wk_groups = groups, wk_max_tasks = max_tasks,
          wk_budget = budget, wk_created = now, wk_updated = now, wk_metadata = metadata\<rparr>
      in res_bind (validate_worker_descriptor_dict (worker_to_dict w)) (\<lambda>_. Inr w))"

definition create_task_lease ::
  "string \<Rightarrow> string \<Rightarrow> string \<Rightarrow> string \<Rightarrow> string \<Rightarrow> string option \<Rightarrow> int \<Rightarrow> string option \<Rightarrow> jdict
    \<Rightarrow> (sched_error, lease) res" where
  "create_task_lease now uuid task worker expires mission priority lease_id metadata =
     (let l = \<lparr>ls_id = str_or lease_id (new_id ''lease'' uuid), ls_task = task, ls_worker = worker, ls_status = ''active'',
          ls_priority = priority, ls_acquired = now, ls_expires = expires, ls_mission = mission, ls_renewed = None,
          ls_released = None, ls_metadata = metadata\<rparr>
      in res_bind (validate_task_lease_dict (lease_to_dict l)) (\<lambda>_. Inr l))"

section \<open>The state store\<close>

record sched_state =
  ss_version :: jval
  ss_workers :: jdict
  ss_leases :: jdict
  ss_events :: "jval list"

definition empty_state :: sched_state where
  "empty_state = \<lparr>ss_version = JInt 1, ss_workers = [], ss_leases = [], ss_events = []\<rparr>"

text \<open>Every entry that is an object is validated.\<close>

definition validate_entries :: "(jdict \<Rightarrow> (sched_error, unit) res) \<Rightarrow> jdict \<Rightarrow> (sched_error, unit) res" where
  "validate_entries check d = each (\<lambda>kv. case snd kv of JObj e \<Rightarrow> check e | _ \<Rightarrow> Inr ()) d"

fun values_of :: "jval \<Rightarrow> (sched_error, jdict) res" where
  "values_of (JObj d) = Inr d"
| "values_of v = Inl SchedAttributeError"

definition load_state :: "jval option \<Rightarrow> (sched_error, sched_state) res" where
  "load_state f =
     (case f of
        Some (JObj s) \<Rightarrow>
          res_bind (values_of (get_or s ''workers'' (JObj []))) (\<lambda>ws.
          res_bind (validate_entries validate_worker_descriptor_dict ws) (\<lambda>_.
          res_bind (values_of (get_or s ''leases'' (JObj []))) (\<lambda>ls.
          res_bind (validate_entries validate_task_lease_dict ls) (\<lambda>_.
            Inr \<lparr>ss_version = get_or s ''schema_version'' (JInt 1), ss_workers = ws, ss_leases = ls,
                 ss_events = the_list (get_or s ''scheduler_events'' (JArr []))\<rparr>))))
      | _ \<Rightarrow> Inr empty_state)"

definition state_value :: "int \<Rightarrow> sched_state \<Rightarrow> jval" where
  "state_value version s =
     JObj [(''schema_version'', JInt version), (''workers'', JObj (ss_workers s)), (''leases'', JObj (ss_leases s)),
       (''scheduler_events'', JArr (ss_events s))]"

definition save_state :: "sched_state \<Rightarrow> jval option \<Rightarrow> (sched_error, unit) res \<times> jval option" where
  "save_state s f =
     (case to_int (ss_version s) of
        None \<Rightarrow> (Inl SchedTypeError, f)
      | Some version \<Rightarrow>
          (case res_bind (validate_entries validate_worker_descriptor_dict (ss_workers s))
              (\<lambda>_. validate_entries validate_task_lease_dict (ss_leases s)) of
             Inl e \<Rightarrow> (Inl e, f)
           | Inr _ \<Rightarrow> (Inr (), Some (canon (state_value version s)))))"

text \<open>Load, change, save: what an operation returns is given with the changed state.\<close>

definition change_state ::
  "(sched_state \<Rightarrow> (sched_error, 'a \<times> sched_state) res) \<Rightarrow> jval option \<Rightarrow> (sched_error, 'a) res \<times> jval option" where
  "change_state change f =
     (case res_bind (load_state f) change of
        Inl e \<Rightarrow> (Inl e, f)
      | Inr (x, s) \<Rightarrow>
          (case save_state s f of
             (Inl e, f1) \<Rightarrow> (Inl e, f1)
           | (Inr _, f1) \<Rightarrow> (Inr x, f1)))"

text \<open>Merging the metadata of an entry that is replaced.\<close>

definition merge_metadata :: "jdict \<Rightarrow> string \<Rightarrow> jdict \<Rightarrow> jdict" where
  "merge_metadata entries k payload =
     (case get_or entries k (JObj []) of
        JObj existing \<Rightarrow>
          dput ''metadata'' (JObj (dupdate (the_obj (get_or existing ''metadata'' (JObj []))) (the_obj (get_or payload ''metadata'' (JObj []))))) payload
      | _ \<Rightarrow> payload)"

definition register_worker :: "jdict \<Rightarrow> jval option \<Rightarrow> (sched_error, jdict) res \<times> jval option" where
  "register_worker payload f =
     (case validate_worker_descriptor_dict payload of
        Inl e \<Rightarrow> (Inl e, f)
      | Inr _ \<Rightarrow>
          change_state (\<lambda>s. let k = the_str (jget payload ''worker_id''); p = merge_metadata (ss_workers s) k payload
            in Inr (p, s\<lparr>ss_workers := dput k (JObj p) (ss_workers s)\<rparr>)) f)"

definition update_worker_status :: "string \<Rightarrow> string \<Rightarrow> string \<Rightarrow> jval option \<Rightarrow> (sched_error, jdict) res \<times> jval option" where
  "update_worker_status now worker_id status f =
     (if status \<notin> set WORKER_STATUSES then (Inl (SchedValueError (''Invalid worker status: '' @ status)), f)
      else change_state (\<lambda>s.
        case dget (ss_workers s) worker_id of
          Some (JObj w) \<Rightarrow>
            (let w1 = dput ''updated_utc'' (JStr now) (dput ''status'' (JStr status) w) in
             res_bind (validate_worker_descriptor_dict w1) (\<lambda>_. Inr (w1, s\<lparr>ss_workers := dput worker_id (JObj w1) (ss_workers s)\<rparr>)))
        | _ \<Rightarrow> Inl (SchedKeyError (''worker not found: '' @ worker_id))) f)"

definition create_lease :: "jdict \<Rightarrow> jval option \<Rightarrow> (sched_error, jdict) res \<times> jval option" where
  "create_lease payload f =
     (case validate_task_lease_dict payload of
        Inl e \<Rightarrow> (Inl e, f)
      | Inr _ \<Rightarrow>
          change_state (\<lambda>s. let k = the_str (jget payload ''lease_id''); p = merge_metadata (ss_leases s) k payload
            in Inr (p, s\<lparr>ss_leases := dput k (JObj p) (ss_leases s)\<rparr>)) f)"

text \<open>Renewing and releasing put new values into a stored lease.\<close>

definition change_lease :: "string \<Rightarrow> (string \<times> jval) list \<Rightarrow> sched_state \<Rightarrow> (sched_error, jdict \<times> sched_state) res" where
  "change_lease lease_id updates s =
     (case dget (ss_leases s) lease_id of
        Some (JObj l) \<Rightarrow>
          (let l1 = dupdate l updates in
           res_bind (validate_task_lease_dict l1) (\<lambda>_. Inr (l1, s\<lparr>ss_leases := dput lease_id (JObj l1) (ss_leases s)\<rparr>)))
      | _ \<Rightarrow> Inl (SchedKeyError (''lease not found: '' @ lease_id)))"

definition renew_lease :: "string \<Rightarrow> string \<Rightarrow> string \<Rightarrow> jval option \<Rightarrow> (sched_error, jdict) res \<times> jval option" where
  "renew_lease now lease_id expires f =
     change_state (change_lease lease_id
       [(''lease_status'', JStr ''renewed''), (''expires_utc'', JStr expires), (''renewed_utc'', JStr now)]) f"

definition release_lease :: "string \<Rightarrow> string \<Rightarrow> jval option \<Rightarrow> (sched_error, jdict) res \<times> jval option" where
  "release_lease now lease_id f =
     change_state (change_lease lease_id [(''lease_status'', JStr ''released''), (''released_utc'', JStr now)]) f"

definition lease_open :: "jdict \<Rightarrow> bool" where
  "lease_open l \<longleftrightarrow> jget l ''lease_status'' = JStr ''active'' \<or> jget l ''lease_status'' = JStr ''renewed''"

definition lease_stale :: "(jval \<Rightarrow> string) \<Rightarrow> string \<Rightarrow> jdict \<Rightarrow> bool" where
  "lease_stale py_str now l \<longleftrightarrow>
     (let expires = str_of_or py_str (jget l ''expires_utc'') [] in expires \<noteq> [] \<and> expires \<le> now)"

text \<open>The loop over the leases: it returns the expired ones and the changed entries.\<close>

fun expire_loop :: "(jval \<Rightarrow> string) \<Rightarrow> string \<Rightarrow> jdict \<Rightarrow> (sched_error, jdict list \<times> jdict) res" where
  "expire_loop py_str now [] = Inr ([], [])"
| "expire_loop py_str now ((k, v) # d) =
     (case v of
        JObj l \<Rightarrow>
          if lease_open l \<and> lease_stale py_str now l then
            (let l1 = dput ''released_utc'' (JStr now) (dput ''lease_status'' (JStr ''expired'') l) in
             res_bind (validate_task_lease_dict l1) (\<lambda>_.
             res_bind (expire_loop py_str now d) (\<lambda>(es, d1). Inr (l1 # es, (k, JObj l1) # d1))))
          else res_bind (expire_loop py_str now d) (\<lambda>(es, d1). Inr (es, (k, v) # d1))
      | _ \<Rightarrow> res_bind (expire_loop py_str now d) (\<lambda>(es, d1). Inr (es, (k, v) # d1)))"

definition expire_stale_leases ::
  "(jval \<Rightarrow> string) \<Rightarrow> string \<Rightarrow> jval option \<Rightarrow> (sched_error, jdict list) res \<times> jval option" where
  "expire_stale_leases py_str now f =
     (case res_bind (load_state f) (\<lambda>s. res_bind (expire_loop py_str now (ss_leases s)) (\<lambda>(es, d). Inr (es, s\<lparr>ss_leases := d\<rparr>))) of
        Inl e \<Rightarrow> (Inl e, f)
      | Inr (es, s) \<Rightarrow>
          if es = [] then (Inr [], f)
          else (case save_state s f of
              (Inl e, f1) \<Rightarrow> (Inl e, f1)
            | (Inr _, f1) \<Rightarrow> (Inr es, f1)))"

definition list_workers :: "jval option \<Rightarrow> (sched_error, jdict list) res" where
  "list_workers f = res_bind (load_state f) (\<lambda>s. Inr (dict_list (JArr (dvalues (ss_workers s)))))"

definition list_active_leases :: "jval option \<Rightarrow> (sched_error, jdict list) res" where
  "list_active_leases f = res_bind (load_state f) (\<lambda>s. Inr (filter lease_open (dict_list (JArr (dvalues (ss_leases s))))))"

definition append_scheduler_event :: "string \<Rightarrow> jdict \<Rightarrow> jval option \<Rightarrow> (sched_error, jdict) res \<times> jval option" where
  "append_scheduler_event now event f =
     (let p = dsetdefault ''created_utc'' (JStr now) event in
      change_state (\<lambda>s. Inr (p, s\<lparr>ss_events := ss_events s @ [JObj p]\<rparr>)) f)"

section \<open>The choice of a worker\<close>

definition task_metadata :: "jdict \<Rightarrow> jdict" where
  "task_metadata task = the_obj (jget task ''metadata'')"

definition task_repository_group :: "jdict \<Rightarrow> string option" where
  "task_repository_group task =
     (case or_else (jget (task_metadata task) ''repository_group'') (jget (task_metadata task) ''target_repository_group'') of
        JStr g \<Rightarrow> if strip g \<noteq> [] then Some g else None
      | _ \<Rightarrow> None)"

definition task_str :: "jdict \<Rightarrow> string \<Rightarrow> string" where
  "task_str task k = the_str (jget task k)"

definition task_list :: "jdict \<Rightarrow> string \<Rightarrow> string list" where
  "task_list task k = str_list (jget task k)"

definition BLOCKING_STATUSES :: "string list" where
  "BLOCKING_STATUSES = [''offline'', ''disabled'']"

text \<open>\<open>route\<close> is \<^const>\<open>resolve_tool_route\<close> on the registry files without a group or context.\<close>

type_synonym router = "string \<Rightarrow> (tool_error, tool_route) res"

fun routes_of :: "router \<Rightarrow> string list \<Rightarrow> (tool_error, tool_route list) res" where
  "routes_of route [] = Inr []"
| "routes_of route (t # ts) = res_bind (route t) (\<lambda>r. res_bind (routes_of route ts) (\<lambda>rs. Inr (r # rs)))"

definition score_worker :: "router \<Rightarrow> jdict \<Rightarrow> jdict \<Rightarrow> (tool_error, int) res" where
  "score_worker route task w =
     (let capabilities = str_list (jget w ''capabilities'');
          providers = str_list (jget w ''supported_providers'');
          groups = str_list (jget w ''supported_repository_groups'');
          tools = task_list task ''required_tools'';
          grp = task_repository_group task
      in res_bind (routes_of route tools) (\<lambda>routes.
         let needed = remdups (map tr_provider routes) in
         if grp \<noteq> None \<and> groups \<noteq> [] \<and> the grp \<notin> set groups then Inr (- 1)
         else if providers \<noteq> [] \<and> \<not> set needed \<subseteq> set providers then Inr (- 1)
         else if tools \<noteq> [] \<and> capabilities = [] \<and> providers = [] then Inr (- 1)
         else Inr ((if grp \<noteq> None \<and> the grp \<in> set groups then 2 else 0) +
           3 * int (length (filter (\<lambda>t. t \<in> set capabilities) tools)) +
           2 * int (length (filter (\<lambda>p. p \<in> set providers) needed)) +
           (if jget w ''status'' = JStr ''idle'' then 2 else if jget w ''status'' = JStr ''registered'' then 1
            else if jget w ''status'' = JStr ''busy'' then - 1 else 0))))"

definition worker_blocked :: "jdict \<Rightarrow> bool" where
  "worker_blocked w \<longleftrightarrow> (\<exists>s \<in> set BLOCKING_STATUSES. jget w ''status'' = JStr s)"

text \<open>The candidates in order, each with its score.\<close>

fun worker_candidates :: "router \<Rightarrow> jdict \<Rightarrow> jdict list \<Rightarrow> (tool_error, (int \<times> jdict) list) res" where
  "worker_candidates route task [] = Inr []"
| "worker_candidates route task (w # ws) =
     (if worker_blocked w then worker_candidates route task ws
      else res_bind (score_worker route task w) (\<lambda>score.
           res_bind (worker_candidates route task ws) (\<lambda>cs. Inr (if score < 0 then cs else (score, w) # cs))))"

definition candidate_key :: "(jval \<Rightarrow> string) \<Rightarrow> int \<times> jdict \<Rightarrow> int \<times> bool \<times> string" where
  "candidate_key text_of c =
     (- fst c, jget (snd c) ''status'' \<noteq> JStr ''idle'', text_of (get_or (snd c) ''worker_id'' (JStr [])))"

text \<open>\<open>text_of\<close> is \<^verbatim>\<open>str\<close>, which is the identity on texts.\<close>

definition choose_worker_for_task ::
  "router \<Rightarrow> (jval \<Rightarrow> string) \<Rightarrow> jdict \<Rightarrow> jdict list \<Rightarrow> (tool_error, jdict option) res" where
  "choose_worker_for_task route text_of task ws =
     res_bind (worker_candidates route task ws) (\<lambda>cs.
       Inr (if cs = [] then None else Some (snd (hd (sort_key (candidate_key text_of) cs)))))"

definition estimate_task_risk :: "router \<Rightarrow> (string \<Rightarrow> string) \<Rightarrow> jdict \<Rightarrow> (tool_error, string) res" where
  "estimate_task_risk route low task =
     (let tools = task_list task ''required_tools''; instruction = low (task_str task ''instruction'') in
      let rest = (if contains ''write'' instruction \<or> contains ''execute'' instruction \<or> contains ''network'' instruction then ''high''
                  else if tools \<noteq> [] then ''medium'' else ''low'')
      in foldr (\<lambda>t later. res_bind (route t) (\<lambda>r. if tr_risk r \<in> {''critical'', ''high''} then Inr ''high'' else later)) tools (Inr rest))"

definition plan_task_schedule ::
  "router \<Rightarrow> (string \<Rightarrow> string) \<Rightarrow> (jval \<Rightarrow> string) \<Rightarrow> jdict \<Rightarrow> jdict list \<Rightarrow> (tool_error, jdict) res" where
  "plan_task_schedule route low text_of task ws =
     res_bind (choose_worker_for_task route text_of task ws) (\<lambda>choice.
     res_bind (estimate_task_risk route low task) (\<lambda>risk.
       Inr [(''status'', JStr (if choice = None then ''blocked'' else ''planned'')),
            (''worker'', (case choice of None \<Rightarrow> JNull | Some w \<Rightarrow> JObj w)),
            (''reason'', JStr (if choice = None then ''no_matching_available_worker'' else ''matching_worker_selected'')),
            (''risk_tier'', JStr risk), (''task_id'', JStr (task_str task ''task_id'')), (''queue_mutation'', JBool False)]))"

definition explain_schedule_decision :: "jdict \<Rightarrow> jdict option \<Rightarrow> string \<Rightarrow> jdict" where
  "explain_schedule_decision task w reason =
     [(''task_id'', JStr (task_str task ''task_id'')),
      (''target_repository'', (let r = task_str task ''target_repository'' in if r = [] then JNull else JStr r)),
      (''repository_group'', opt_json (task_repository_group task)),
      (''required_tools'', JArr (map JStr (task_list task ''required_tools''))),
      (''worker_id'', (case w of None \<Rightarrow> JNull | Some d \<Rightarrow> jget d ''worker_id'')),
      (''worker_status'', (case w of None \<Rightarrow> JNull | Some d \<Rightarrow> jget d ''status'')), (''reason'', JStr reason),
      (''queue_mutation'', JBool False)]"

section \<open>The legacy queue\<close>

definition explain_queue_backpressure :: "string \<Rightarrow> string \<Rightarrow> bool \<Rightarrow> bool \<Rightarrow> jdict" where
  "explain_queue_backpressure queue_path lock_path occupied locked =
     [(''queue_path'', JStr queue_path), (''lock_path'', JStr lock_path), (''queue_occupied'', JBool occupied),
      (''lock_present'', JBool locked), (''can_enqueue'', JBool (\<not> occupied)),
      (''state'', JStr (if occupied \<and> locked then ''queue_occupied_and_worker_processing''
         else if occupied then ''queue_slot_occupied'' else if locked then ''processing_lock_present'' else ''queue_available'')),
      (''queue_mutation'', JBool False)]"

section \<open>The state file stays loadable\<close>

text \<open>The validators see the same fields in a dictionary and in its canonical form.\<close>

lemma canon_kinds [simp]:
  "positive_int (canon v) = positive_int v" "proper_int (canon v) = proper_int v" "is_obj (canon v) = is_obj v"
  by (cases v; simp add: positive_int_def proper_int_def)+

lemma sched_checks_canon:
  assumes "wf_dict d"
  shows "sched_str (canon_dict d) k = sched_str d k" "sched_in (canon_dict d) k ks w = sched_in d k ks w"
    "sched_kind is_arr what (canon_dict d) k = sched_kind is_arr what d k"
    "sched_kind is_obj what (canon_dict d) k = sched_kind is_obj what d k"
    "sched_kind positive_int what (canon_dict d) k = sched_kind positive_int what d k"
    "sched_kind proper_int what (canon_dict d) k = sched_kind proper_int what d k"
  by (simp_all add: sched_str_def sched_in_def sched_kind_def jget_canon [OF assms])

lemma validate_sched_canon:
  assumes "wf_dict d"
  shows "validate_worker_descriptor_dict (canon_dict d) = validate_worker_descriptor_dict d"
    "validate_task_lease_dict (canon_dict d) = validate_task_lease_dict d"
  by (simp_all add: validate_worker_descriptor_dict_def validate_task_lease_dict_def sched_checks_canon [OF assms])

lemma validate_worker_iff:
  "validate_worker_descriptor_dict d = Inr () \<longleftrightarrow>
     filled (jget d ''worker_id'') \<and> filled (jget d ''worker_type'') \<and> the_str (jget d ''worker_type'') \<in> set WORKER_TYPES \<and>
     filled (jget d ''display_name'') \<and> filled (jget d ''status'') \<and> the_str (jget d ''status'') \<in> set WORKER_STATUSES \<and>
     is_arr (jget d ''capabilities'') \<and> is_arr (jget d ''supported_providers'') \<and> is_arr (jget d ''supported_repository_groups'') \<and>
     positive_int (jget d ''max_concurrent_tasks'') \<and> is_obj (jget d ''hardware_budget'') \<and> filled (jget d ''created_utc'') \<and>
     filled (jget d ''updated_utc'') \<and> is_obj (jget d ''metadata'')"
  by (auto simp: validate_worker_descriptor_dict_def each_Inr_iff sched_str_def sched_in_def sched_kind_def simp del: each.simps)

lemma validate_lease_iff:
  "validate_task_lease_dict d = Inr () \<longleftrightarrow>
     filled (jget d ''lease_id'') \<and> filled (jget d ''task_id'') \<and> filled (jget d ''worker_id'') \<and>
     filled (jget d ''lease_status'') \<and> the_str (jget d ''lease_status'') \<in> set LEASE_STATUSES \<and>
     filled (jget d ''acquired_utc'') \<and> filled (jget d ''expires_utc'') \<and> proper_int (jget d ''priority'') \<and>
     is_obj (jget d ''metadata'')"
  by (auto simp: validate_task_lease_dict_def each_Inr_iff sched_str_def sched_in_def sched_kind_def simp del: each.simps)

lemma validate_entries_iff:
  "wf_dict d \<Longrightarrow> validate_entries check d = Inr () \<longleftrightarrow> (\<forall>k e. dget d k = Some (JObj e) \<longrightarrow> check e = Inr ())"
  by (auto simp: validate_entries_def each_Inr_iff wf_dict_dget_iff split: jval.splits)

lemma canon_obj_iff: "canon v = JObj e \<longleftrightarrow> (\<exists>d. v = JObj d \<and> e = canon_dict d)"
  by (cases v) (auto simp: canon_dict_def)

text \<open>What holds of an entry of the state: it passes its validator and is stored under its own id.\<close>

definition entry_ok :: "(jdict \<Rightarrow> (sched_error, unit) res) \<Rightarrow> string \<Rightarrow> string \<Rightarrow> jdict \<Rightarrow> bool" where
  "entry_ok check id_key k e \<longleftrightarrow> check e = Inr () \<and> jget e id_key = JStr k"

definition entries_ok :: "(jdict \<Rightarrow> (sched_error, unit) res) \<Rightarrow> string \<Rightarrow> jdict \<Rightarrow> bool" where
  "entries_ok check id_key d \<longleftrightarrow> wf_json (JObj d) \<and> (\<forall>k e. dget d k = Some (JObj e) \<longrightarrow> entry_ok check id_key k e)"

abbreviation workers_ok :: "jdict \<Rightarrow> bool" where
  "workers_ok \<equiv> entries_ok validate_worker_descriptor_dict ''worker_id''"

abbreviation leases_ok :: "jdict \<Rightarrow> bool" where
  "leases_ok \<equiv> entries_ok validate_task_lease_dict ''lease_id''"

definition sched_good :: "sched_state \<Rightarrow> bool" where
  "sched_good s \<longleftrightarrow> workers_ok (ss_workers s) \<and> leases_ok (ss_leases s) \<and> list_all wf_json (ss_events s) \<and>
     to_int (ss_version s) \<noteq> None"

lemma entries_ok_empty [simp]: "entries_ok check id_key []"
  by (simp add: entries_ok_def wf_dict_def)

lemma entries_ok_dput:
  "entries_ok check id_key d \<Longrightarrow> wf_json (JObj e) \<Longrightarrow> entry_ok check id_key k e \<Longrightarrow> entries_ok check id_key (dput k (JObj e) d)"
  unfolding entries_ok_def by (auto simp: dget_dput wf_JObj_dput simp del: wf_json.simps)

lemma entries_ok_canon:
  assumes "entries_ok check id_key d" and "\<And>e. wf_dict e \<Longrightarrow> check (canon_dict e) = check e"
  shows "entries_ok check id_key (canon_dict d)"
proof -
  have wf: "wf_dict d" using assms(1) wf_JObj unfolding entries_ok_def by blast
  have "entry_ok check id_key k e" if g: "dget (canon_dict d) k = Some (JObj e)" for k e
  proof -
    obtain v where v: "dget d k = Some v" "canon v = JObj e" using g by (cases "dget d k") (simp_all add: dget_canon_dict [OF wf])
    then obtain e0 where e0: "dget d k = Some (JObj e0)" "e = canon_dict e0" by (auto simp: canon_obj_iff)
    have "wf_dict e0" using assms(1) e0(1) wf_JObj_dget wf_JObj unfolding entries_ok_def by blast
    then show ?thesis using assms e0 by (simp add: entries_ok_def entry_ok_def jget_canon)
  qed
  then show ?thesis using assms(1) wf_canon_dict unfolding entries_ok_def by blast
qed

lemma entries_ok_validate: "entries_ok check id_key d \<Longrightarrow> validate_entries check d = Inr ()"
  using validate_entries_iff wf_JObj unfolding entries_ok_def entry_ok_def by blast

lemma entries_ok_entry:
  "entries_ok check id_key d \<Longrightarrow> dget d k = Some (JObj e) \<Longrightarrow> wf_json (JObj e) \<and> entry_ok check id_key k e"
  unfolding entries_ok_def using wf_JObj_dget by blast

definition canon_state :: "int \<Rightarrow> sched_state \<Rightarrow> sched_state" where
  "canon_state version s =
     \<lparr>ss_version = JInt version, ss_workers = canon_dict (ss_workers s), ss_leases = canon_dict (ss_leases s),
      ss_events = map canon (ss_events s)\<rparr>"

lemma canon_state_good: "sched_good s \<Longrightarrow> sched_good (canon_state version s)"
  unfolding sched_good_def canon_state_def
  by (auto intro!: entries_ok_canon validate_sched_canon simp: list_all_iff wf_canon simp del: wf_json.simps canon.simps)

lemma load_saved_state:
  assumes "sched_good s"
  shows "load_state (Some (canon (state_value version s))) = Inr (canon_state version s)"
proof -
  let ?d = "[(''schema_version'', JInt version), (''workers'', JObj (ss_workers s)), (''leases'', JObj (ss_leases s)),
      (''scheduler_events'', JArr (ss_events s))]"
  have wf: "wf_dict ?d" by (simp add: wf_dict_def)
  have g: "get_or (canon_dict ?d) k v = (case dget ?d k of None \<Rightarrow> v | Some w \<Rightarrow> canon w)" for k v
    by (simp add: get_or_def dget_canon_dict [OF wf] split: option.split)
  note good = canon_state_good [OF assms, of version]
  have "validate_entries validate_worker_descriptor_dict (canon_dict (ss_workers s)) = Inr ()"
    "validate_entries validate_task_lease_dict (canon_dict (ss_leases s)) = Inr ()"
    using good by (auto simp: sched_good_def canon_state_def intro!: entries_ok_validate)
  then show ?thesis
    by (simp add: load_state_def state_value_def canon_JObj g canon_state_def the_list_def del: canon.simps(2))
qed

definition sched_file_ok :: "jval option \<Rightarrow> bool" where
  "sched_file_ok f \<longleftrightarrow> f = None \<or> (\<exists>s version. sched_good s \<and> f = Some (canon (state_value version s)))"

lemma empty_good: "sched_good empty_state"
  by (simp add: sched_good_def empty_state_def)

lemma load_ok: "sched_file_ok f \<Longrightarrow> \<exists>s. load_state f = Inr s \<and> sched_good s"
  using load_saved_state canon_state_good empty_good unfolding sched_file_ok_def
  by (auto simp: load_state_def [of None])

lemma save_good:
  assumes "sched_good s"
  obtains version where "save_state s f = (Inr (), Some (canon (state_value version s)))"
proof -
  obtain version where "to_int (ss_version s) = Some version" using assms by (auto simp: sched_good_def)
  moreover have "validate_entries validate_worker_descriptor_dict (ss_workers s) = Inr ()"
    "validate_entries validate_task_lease_dict (ss_leases s) = Inr ()"
    using assms entries_ok_validate by (auto simp: sched_good_def)
  ultimately show thesis using that by (simp add: save_state_def)
qed

definition keeps_good :: "(sched_state \<Rightarrow> (sched_error, 'a \<times> sched_state) res) \<Rightarrow> bool" where
  "keeps_good change \<longleftrightarrow> (\<forall>s x s'. sched_good s \<longrightarrow> change s = Inr (x, s') \<longrightarrow> sched_good s')"

lemma change_state_cases:
  assumes "sched_file_ok f" and "keeps_good change"
  obtains (failed) e where "change_state change f = (Inl e, f)"
  | (changed) s x s' version where "load_state f = Inr s" and "sched_good s" and "change s = Inr (x, s')" and "sched_good s'"
      and "change_state change f = (Inr x, Some (canon (state_value version s')))"
proof -
  obtain s where s: "load_state f = Inr s" "sched_good s" using load_ok [OF assms(1)] by blast
  show thesis
  proof (cases "change s")
    case (Inl e)
    with s failed show thesis by (simp add: change_state_def)
  next
    case (Inr p)
    obtain x s' where c: "change s = Inr (x, s')" using Inr by (cases p) auto
    then have good: "sched_good s'" using assms(2) s unfolding keeps_good_def by blast
    obtain version where "save_state s' f = (Inr (), Some (canon (state_value version s')))" using save_good [OF good] by blast
    with s c good changed show thesis by (simp add: change_state_def)
  qed
qed

lemma change_state_ok:
  assumes "sched_file_ok f" and "keeps_good change"
  shows "sched_file_ok (snd (change_state change f))"
  using assms
proof (cases rule: change_state_cases)
  case (failed e)
  with assms show ?thesis by simp
next
  case (changed s x s' version)
  then show ?thesis by (auto simp: sched_file_ok_def)
qed

text \<open>What each operation does to a good state.\<close>

lemma wf_get: "wf_json (JObj d) \<Longrightarrow> dget d k = Some v \<Longrightarrow> wf_json v"
  using wf_JObj_dget by blast

lemma wf_the_obj_get_or: "wf_json (JObj d) \<Longrightarrow> wf_json (JObj (the_obj (get_or d k (JObj []))))"
proof -
  assume d: "wf_json (JObj d)"
  have "wf_json (JObj [])" by (simp add: wf_dict_def)
  moreover have "wf_json v \<Longrightarrow> wf_json (JObj (the_obj v))" for v
    by (cases v) (simp_all add: the_obj_def wf_dict_def)
  ultimately show ?thesis using wf_get [OF d] by (auto simp: get_or_def split: option.split simp del: wf_json.simps)
qed

lemma validate_dput_metadata:
  "validate_worker_descriptor_dict d = Inr () \<Longrightarrow> validate_worker_descriptor_dict (dput ''metadata'' (JObj m) d) = Inr ()"
  "validate_task_lease_dict d = Inr () \<Longrightarrow> validate_task_lease_dict (dput ''metadata'' (JObj m) d) = Inr ()"
  by (simp_all add: validate_worker_iff validate_lease_iff jget_dput)

lemma merge_metadata_ok:
  assumes "entries_ok check id_key entries" and "wf_json (JObj payload)" and "entry_ok check id_key k payload"
    and "id_key \<noteq> ''metadata''" and "\<And>d m. check d = Inr () \<Longrightarrow> check (dput ''metadata'' (JObj m) d) = Inr ()"
  shows "wf_json (JObj (merge_metadata entries k payload)) \<and> entry_ok check id_key k (merge_metadata entries k payload)"
proof (cases "get_or entries k (JObj [])")
  case (JObj existing)
  have wf: "wf_json (JObj existing)"
    using wf_the_obj_get_or [of entries k] assms(1) JObj by (simp add: entries_ok_def the_obj_def del: wf_json.simps)
  let ?new = "the_obj (get_or payload ''metadata'' (JObj []))"
  have "\<forall>(k, v) \<in> set ?new. wf_json v" using wf_the_obj_get_or [OF assms(2)] wf_JObj by blast
  from wf_JObj_dupdate [OF wf_the_obj_get_or [OF wf] this]
  have "wf_json (JObj (dupdate (the_obj (get_or existing ''metadata'' (JObj []))) ?new))" .
  then show ?thesis
    using assms(2-5) by (simp add: merge_metadata_def JObj wf_JObj_dput entry_ok_def jget_dput del: wf_json.simps)
qed (use assms(2,3) in \<open>simp_all add: merge_metadata_def del: wf_json.simps\<close>)

lemma filled_the_str: "filled v \<Longrightarrow> v = JStr (the_str v)"
  by (cases v) (simp_all add: filled_def the_str_def)

lemma keeps_register:
  assumes "validate_worker_descriptor_dict payload = Inr ()" and "wf_json (JObj payload)"
  shows "keeps_good (\<lambda>s. let k = the_str (jget payload ''worker_id''); p = merge_metadata (ss_workers s) k payload
    in Inr (p, s\<lparr>ss_workers := dput k (JObj p) (ss_workers s)\<rparr>))"
proof -
  let ?k = "the_str (jget payload ''worker_id'')"
  have "filled (jget payload ''worker_id'')"
    using assms(1) by (simp add: validate_worker_iff)
  then have e: "entry_ok validate_worker_descriptor_dict ''worker_id'' ?k payload"
    using assms(1) filled_the_str by (simp add: entry_ok_def)
  have "workers_ok (dput ?k (JObj (merge_metadata ws ?k payload)) ws)" if "workers_ok ws" for ws
    using merge_metadata_ok [OF that assms(2) e] entries_ok_dput [OF that] validate_dput_metadata(1) by simp
  then show ?thesis by (auto simp: keeps_good_def sched_good_def Let_def)
qed

lemma keeps_create_lease:
  assumes "validate_task_lease_dict payload = Inr ()" and "wf_json (JObj payload)"
  shows "keeps_good (\<lambda>s. let k = the_str (jget payload ''lease_id''); p = merge_metadata (ss_leases s) k payload
    in Inr (p, s\<lparr>ss_leases := dput k (JObj p) (ss_leases s)\<rparr>))"
proof -
  let ?k = "the_str (jget payload ''lease_id'')"
  have "filled (jget payload ''lease_id'')"
    using assms(1) by (simp add: validate_lease_iff)
  then have e: "entry_ok validate_task_lease_dict ''lease_id'' ?k payload"
    using assms(1) filled_the_str by (simp add: entry_ok_def)
  have "leases_ok (dput ?k (JObj (merge_metadata ws ?k payload)) ws)" if "leases_ok ws" for ws
    using merge_metadata_ok [OF that assms(2) e] entries_ok_dput [OF that] validate_dput_metadata(2) by simp
  then show ?thesis by (auto simp: keeps_good_def sched_good_def Let_def)
qed

definition set_worker_status :: "string \<Rightarrow> string \<Rightarrow> string \<Rightarrow> sched_state \<Rightarrow> (sched_error, jdict \<times> sched_state) res" where
  "set_worker_status now worker_id status s =
     (case dget (ss_workers s) worker_id of
        Some (JObj w) \<Rightarrow>
          (let w1 = dput ''updated_utc'' (JStr now) (dput ''status'' (JStr status) w) in
           res_bind (validate_worker_descriptor_dict w1) (\<lambda>_. Inr (w1, s\<lparr>ss_workers := dput worker_id (JObj w1) (ss_workers s)\<rparr>)))
      | _ \<Rightarrow> Inl (SchedKeyError (''worker not found: '' @ worker_id)))"

lemma keeps_status: "keeps_good (set_worker_status now worker_id status)"
proof -
  have "sched_good s'" if good: "sched_good s" and c: "set_worker_status now worker_id status s = Inr (x, s')" for s x s'
  proof -
    obtain w where w: "dget (ss_workers s) worker_id = Some (JObj w)"
        and v: "validate_worker_descriptor_dict (dput ''updated_utc'' (JStr now) (dput ''status'' (JStr status) w)) = Inr ()"
        and s': "s' = s\<lparr>ss_workers := dput worker_id (JObj (dput ''updated_utc'' (JStr now) (dput ''status'' (JStr status) w))) (ss_workers s)\<rparr>"
      using c by (auto simp: set_worker_status_def Let_def res_bind_Inr_iff split: option.splits jval.splits)
    have ok: "workers_ok (ss_workers s)" using good by (simp add: sched_good_def)
    note e = entries_ok_entry [OF ok w]
    have "wf_json (JObj (dput ''updated_utc'' (JStr now) (dput ''status'' (JStr status) w)))"
      using e by (simp add: wf_JObj_dput del: wf_json.simps(3))
    then have "workers_ok (ss_workers s')"
      unfolding s' using e v entries_ok_dput [OF ok] by (simp add: entry_ok_def jget_dput del: wf_json.simps)
    with good show ?thesis by (simp add: s' sched_good_def)
  qed
  then show ?thesis unfolding keeps_good_def by blast
qed

lemma jget_dupdate_other: "k \<notin> fst ` set ps \<Longrightarrow> jget (dupdate d ps) k = jget d k"
proof -
  assume "k \<notin> fst ` set ps"
  then have "map_of (rev ps) k = None" by (simp add: map_of_eq_None_iff)
  then show ?thesis by (simp add: jget_def dget_dupdate)
qed

lemma keeps_change_lease:
  assumes "\<forall>(k, v) \<in> set updates. k \<noteq> ''lease_id'' \<and> wf_json v"
  shows "keeps_good (change_lease lease_id updates)"
proof -
  have "sched_good s'" if good: "sched_good s" and c: "change_lease lease_id updates s = Inr (x, s')" for s x s'
  proof -
    obtain l where l: "dget (ss_leases s) lease_id = Some (JObj l)" and v: "validate_task_lease_dict (dupdate l updates) = Inr ()"
        and s': "s' = s\<lparr>ss_leases := dput lease_id (JObj (dupdate l updates)) (ss_leases s)\<rparr>"
      using c by (auto simp: change_lease_def Let_def res_bind_Inr_iff split: option.splits jval.splits)
    have ok: "leases_ok (ss_leases s)" using good by (simp add: sched_good_def)
    note e = entries_ok_entry [OF ok l]
    have "wf_json (JObj (dupdate l updates))" using e assms by (intro wf_JObj_dupdate) auto
    moreover have "jget (dupdate l updates) ''lease_id'' = jget l ''lease_id''" by (rule jget_dupdate_other) (use assms in auto)
    ultimately have "leases_ok (ss_leases s')"
      unfolding s' using e v entries_ok_dput [OF ok] by (simp add: entry_ok_def)
    with good show ?thesis by (simp add: s' sched_good_def)
  qed
  then show ?thesis unfolding keeps_good_def by blast
qed

lemma keeps_event: "wf_json (JObj p) \<Longrightarrow> keeps_good (\<lambda>s. Inr (p, s\<lparr>ss_events := ss_events s @ [JObj p]\<rparr>))"
  by (auto simp: keeps_good_def sched_good_def simp del: wf_json.simps)

section \<open>Expiry\<close>

definition expired_lease :: "string \<Rightarrow> jdict \<Rightarrow> jdict" where
  "expired_lease now l = dput ''released_utc'' (JStr now) (dput ''lease_status'' (JStr ''expired'') l)"

definition lease_due :: "(jval \<Rightarrow> string) \<Rightarrow> string \<Rightarrow> jdict \<Rightarrow> bool" where
  "lease_due py_str now l \<longleftrightarrow> lease_open l \<and> lease_stale py_str now l"

definition expire_entry :: "(jval \<Rightarrow> string) \<Rightarrow> string \<Rightarrow> jval \<Rightarrow> jval" where
  "expire_entry py_str now v = (case v of JObj l \<Rightarrow> if lease_due py_str now l then JObj (expired_lease now l) else v | _ \<Rightarrow> v)"

lemma expired_valid: "validate_task_lease_dict l = Inr () \<Longrightarrow> validate_task_lease_dict (expired_lease now l) = Inr ()"
proof -
  have "strip ''expired'' \<noteq> []" "''expired'' \<in> set LEASE_STATUSES" by code_simp+
  then show "validate_task_lease_dict l = Inr () \<Longrightarrow> ?thesis"
    by (simp add: expired_lease_def validate_lease_iff jget_dput filled_def the_str_def)
qed

lemma expire_loop_result:
  "\<forall>(k, v) \<in> set d. \<forall>l. v = JObj l \<longrightarrow> validate_task_lease_dict l = Inr () \<Longrightarrow>
     expire_loop py_str now d =
       Inr (map (expired_lease now) (filter (lease_due py_str now) (dict_list (JArr (dvalues d)))),
            map (\<lambda>(k, v). (k, expire_entry py_str now v)) d)"
proof (induction d)
  case Nil
  then show ?case by (simp add: dict_list_def dvalues_def)
next
  case (Cons p d)
  obtain k v where p: "p = (k, v)" by fastforce
  have IH: "expire_loop py_str now d =
       Inr (map (expired_lease now) (filter (lease_due py_str now) (dict_list (JArr (dvalues d)))),
            map (\<lambda>(k, v). (k, expire_entry py_str now v)) d)"
    using Cons by simp
  show ?case
  proof (cases v)
    case (JObj l)
    with Cons.prems p have "validate_task_lease_dict l = Inr ()" by simp
    then have "validate_task_lease_dict (expired_lease now l) = Inr ()" by (rule expired_valid)
    moreover have "expire_loop py_str now ((k, JObj l) # d) =
        (if lease_due py_str now l then
           res_bind (validate_task_lease_dict (expired_lease now l)) (\<lambda>_.
           res_bind (expire_loop py_str now d) (\<lambda>(es, d1). Inr (expired_lease now l # es, (k, JObj (expired_lease now l)) # d1)))
         else res_bind (expire_loop py_str now d) (\<lambda>(es, d1). Inr (es, (k, JObj l) # d1)))"
      by (simp add: Let_def lease_due_def expired_lease_def)
    ultimately show ?thesis
      using IH by (simp add: p JObj expire_entry_def dict_list_def dvalues_def the_obj_def)
  qed (use IH in \<open>simp_all add: p expire_entry_def dict_list_def dvalues_def\<close>)
qed

lemma dget_map_snd: "dget (map (\<lambda>(k, v). (k, g v)) d) k = map_option g (dget d k)"
  by (induction d) auto

lemma leases_ok_expire:
  assumes "leases_ok d"
  shows "leases_ok (map (\<lambda>(k, v). (k, expire_entry py_str now v)) d)"
proof -
  have wf: "wf_dict d" using assms wf_JObj unfolding entries_ok_def by blast
  have e: "wf_json (expire_entry py_str now v) \<and>
      (\<forall>e. expire_entry py_str now v = JObj e \<longrightarrow> entry_ok validate_task_lease_dict ''lease_id'' k e)" if v: "dget d k = Some v" for k v
  proof (cases v)
    case (JObj l)
    with entries_ok_entry [OF assms] v have l: "wf_json (JObj l)" "entry_ok validate_task_lease_dict ''lease_id'' k l" by simp_all
    then have "wf_json (JObj (expired_lease now l))" by (simp add: expired_lease_def wf_JObj_dput del: wf_json.simps(3))
    moreover have "entry_ok validate_task_lease_dict ''lease_id'' k (expired_lease now l)"
      using l(2) by (simp add: entry_ok_def expired_valid) (simp add: expired_lease_def jget_dput)
    ultimately show ?thesis using l by (simp add: JObj expire_entry_def del: wf_json.simps)
  qed (use assms v wf_JObj_dget [of d] in \<open>auto simp: expire_entry_def entries_ok_def simp del: wf_json.simps\<close>)
  have "wf_dict (map (\<lambda>(k, v). (k, expire_entry py_str now v)) d)"
    using wf by (simp add: wf_dict_def comp_def case_prod_unfold)
  then have "wf_json (JObj (map (\<lambda>(k, v). (k, expire_entry py_str now v)) d))"
    unfolding wf_JObj_dget using e by (auto simp: dget_map_snd)
  then show ?thesis using e unfolding entries_ok_def by (auto simp: dget_map_snd)
qed

lemma expire_cases:
  assumes "sched_file_ok f" and "load_state f = Inr s"
  obtains (none) "filter (lease_due py_str now) (dict_list (JArr (dvalues (ss_leases s)))) = []"
      and "expire_stale_leases py_str now f = (Inr [], f)"
  | (some) version where
      "expire_stale_leases py_str now f =
        (Inr (map (expired_lease now) (filter (lease_due py_str now) (dict_list (JArr (dvalues (ss_leases s)))))),
         Some (canon (state_value version (s\<lparr>ss_leases := map (\<lambda>(k, v). (k, expire_entry py_str now v)) (ss_leases s)\<rparr>))))"
      and "sched_good (s\<lparr>ss_leases := map (\<lambda>(k, v). (k, expire_entry py_str now v)) (ss_leases s)\<rparr>)"
proof -
  have good: "sched_good s" using load_ok [OF assms(1)] assms(2) by auto
  then have ok: "leases_ok (ss_leases s)" by (simp add: sched_good_def)
  have wf: "wf_dict (ss_leases s)" using ok wf_JObj unfolding entries_ok_def by blast
  have "\<forall>(k, v) \<in> set (ss_leases s). \<forall>l. v = JObj l \<longrightarrow> validate_task_lease_dict l = Inr ()"
    using ok wf_dict_dget_iff [OF wf] unfolding entries_ok_def entry_ok_def by blast
  note loop = expire_loop_result [OF this, of py_str now]
  let ?due = "filter (lease_due py_str now) (dict_list (JArr (dvalues (ss_leases s))))"
  let ?s = "s\<lparr>ss_leases := map (\<lambda>(k, v). (k, expire_entry py_str now v)) (ss_leases s)\<rparr>"
  have good': "sched_good ?s" using good leases_ok_expire [OF ok] by (simp add: sched_good_def)
  show thesis
  proof (cases "?due = []")
    case True
    with loop assms(2) show thesis by (intro none) (simp_all add: expire_stale_leases_def)
  next
    case False
    obtain version where "save_state ?s f = (Inr (), Some (canon (state_value version ?s)))" using save_good [OF good'] by blast
    with loop assms(2) False good' show thesis by (intro some) (simp_all add: expire_stale_leases_def)
  qed
qed

lemma canon_idem: "canon (canon v) = canon v"
  using canon_dict_canon [of "[([], v)]"] by (simp add: canon_dict_def)

lemma loaded_canonical:
  assumes "sched_file_ok f" and "load_state f = Inr s"
  shows "canon_dict (ss_leases s) = ss_leases s"
proof (cases f)
  case None
  with assms(2) have "s = empty_state" by (simp add: load_state_def)
  then show ?thesis by (simp add: empty_state_def canon_dict_def)
next
  case (Some v)
  with assms(1) obtain s0 version where "sched_good s0" "f = Some (canon (state_value version s0))"
    unfolding sched_file_ok_def by blast
  with assms(2) show ?thesis by (auto simp: load_saved_state canon_state_def)
qed

lemma canonical_entries:
  assumes "canon_dict d = d"
  shows "sorted (map fst d) \<and> (\<forall>(k, v) \<in> set d. canon v = v)"
proof -
  have d: "d = sort_key fst (map (\<lambda>kv. (fst kv, canon (snd kv))) d)" using assms by (simp add: canon_dict_def)
  have "sorted (map fst (sort_key fst (map (\<lambda>kv. (fst kv, canon (snd kv))) d)))" by (rule sorted_sort_key)
  then have "sorted (map fst d)" using d by metis
  moreover have "canon v = v" if "(k, v) \<in> set d" for k v
  proof -
    have "(k, v) \<in> set (sort_key fst (map (\<lambda>kv. (fst kv, canon (snd kv))) d))" using that d by simp
    then obtain w where "v = canon w" by auto
    then show ?thesis by (simp only: canon_idem)
  qed
  ultimately show ?thesis by blast
qed

lemma active_after_expiry:
  assumes "canon_dict d = d" and "leases_ok d"
  shows "filter lease_open (dict_list (JArr (dvalues (canon_dict (map (\<lambda>(k, v). (k, expire_entry py_str now v)) d))))) =
    filter (\<lambda>l. \<not> lease_stale py_str now l) (filter lease_open (dict_list (JArr (dvalues d))))"
proof -
  note can = canonical_entries [OF assms(1)]
  have keys: "map fst (map (\<lambda>kv. (fst kv, canon (snd kv))) (map (\<lambda>(k, v). (k, expire_entry py_str now v)) d)) = map fst d"
    by (simp add: comp_def case_prod_unfold)
  have "canon_dict (map (\<lambda>(k, v). (k, expire_entry py_str now v)) d) =
      map (\<lambda>kv. (fst kv, canon (snd kv))) (map (\<lambda>(k, v). (k, expire_entry py_str now v)) d)"
    unfolding canon_dict_def by (rule sort_key_sorted) (unfold keys, use can in blast)
  then have vals: "dvalues (canon_dict (map (\<lambda>(k, v). (k, expire_entry py_str now v)) d)) = map (\<lambda>(k, v). canon (expire_entry py_str now v)) d"
    by (simp add: dvalues_def comp_def case_prod_unfold)
  have one: "canon (expire_entry py_str now (JObj l)) = (if lease_due py_str now l then JObj (canon_dict (expired_lease now l)) else JObj l) \<and>
      \<not> lease_open (canon_dict (expired_lease now l))" if l: "(k, JObj l) \<in> set d" for k l
  proof -
    have "wf_dict d" using assms(2) wf_JObj unfolding entries_ok_def by blast
    then have "wf_json (JObj l)" using entries_ok_entry [OF assms(2)] l wf_dict_dget_iff by metis
    then have "wf_dict l" using wf_JObj by blast
    then have "wf_dict (expired_lease now l)" by (simp add: expired_lease_def)
    then have "\<not> lease_open (canon_dict (expired_lease now l))"
      by (simp add: lease_open_def jget_canon) (simp add: expired_lease_def jget_dput)
    moreover have "canon (JObj l) = JObj l" using can l by blast
    ultimately show ?thesis by (simp add: expire_entry_def canon_JObj del: canon.simps)
  qed
  have "filter lease_open (dict_list (JArr (map (\<lambda>(k, v). canon (expire_entry py_str now v)) ds))) =
      filter (\<lambda>l. \<not> lease_stale py_str now l) (filter lease_open (dict_list (JArr (dvalues ds))))" if "set ds \<subseteq> set d" for ds
    using that
  proof (induction ds)
    case Nil
    then show ?case by (simp add: dict_list_def dvalues_def)
  next
    case (Cons p ds)
    obtain k v where p: "p = (k, v)" by fastforce
    show ?case
    proof (cases v)
      case (JObj l)
      with Cons.prems p have "(k, JObj l) \<in> set d" by auto
      note one [OF this]
      with Cons p JObj show ?thesis
        by (auto simp: dict_list_def dvalues_def the_obj_def lease_due_def)
    qed (use Cons p in \<open>auto simp: dict_list_def dvalues_def expire_entry_def\<close>)
  qed
  from this [of d] vals show ?thesis by simp
qed

section \<open>What the store promises\<close>

datatype sched_op =
    Do_Register jdict
  | Do_Worker_Status string string
  | Do_Lease jdict
  | Do_Renew string string
  | Do_Release string
  | Do_Expire
  | Do_Event jdict

fun sched_step :: "(jval \<Rightarrow> string) \<Rightarrow> jval option \<Rightarrow> string \<times> sched_op \<Rightarrow> jval option" where
  "sched_step py_str f (now, Do_Register w) = snd (register_worker w f)"
| "sched_step py_str f (now, Do_Worker_Status k status) = snd (update_worker_status now k status f)"
| "sched_step py_str f (now, Do_Lease l) = snd (create_lease l f)"
| "sched_step py_str f (now, Do_Renew k expires) = snd (renew_lease now k expires f)"
| "sched_step py_str f (now, Do_Release k) = snd (release_lease now k f)"
| "sched_step py_str f (now, Do_Expire) = snd (expire_stale_leases py_str now f)"
| "sched_step py_str f (now, Do_Event e) = snd (append_scheduler_event now e f)"

fun sched_op_ok :: "sched_op \<Rightarrow> bool" where
  "sched_op_ok (Do_Register w) \<longleftrightarrow> wf_json (JObj w)"
| "sched_op_ok (Do_Lease l) \<longleftrightarrow> wf_json (JObj l)"
| "sched_op_ok (Do_Event e) \<longleftrightarrow> wf_json (JObj e)"
| "sched_op_ok _ \<longleftrightarrow> True"

lemma sched_step_ok:
  assumes "sched_file_ok f" and "sched_op_ok e"
  shows "sched_file_ok (sched_step py_str f (now, e))"
proof (cases e)
  case (Do_Register w)
  then show ?thesis
    using assms change_state_ok [OF assms(1) keeps_register]
    by (cases "validate_worker_descriptor_dict w") (simp_all add: register_worker_def del: wf_json.simps)
next
  case (Do_Worker_Status k status)
  have "update_worker_status now k status f =
      (if status \<notin> set WORKER_STATUSES then (Inl (SchedValueError (''Invalid worker status: '' @ status)), f)
       else change_state (set_worker_status now k status) f)"
    by (simp add: update_worker_status_def set_worker_status_def [abs_def])
  then show ?thesis using Do_Worker_Status assms(1) change_state_ok [OF assms(1) keeps_status] by simp
next
  case (Do_Lease l)
  then show ?thesis
    using assms change_state_ok [OF assms(1) keeps_create_lease]
    by (cases "validate_task_lease_dict l") (simp_all add: create_lease_def del: wf_json.simps)
next
  case (Do_Renew k expires)
  then show ?thesis using change_state_ok [OF assms(1) keeps_change_lease] by (simp add: renew_lease_def)
next
  case (Do_Release k)
  then show ?thesis using change_state_ok [OF assms(1) keeps_change_lease] by (simp add: release_lease_def)
next
  case Do_Expire
  obtain s where s: "load_state f = Inr s" using load_ok [OF assms(1)] by blast
  from assms(1) s show ?thesis
    by (cases rule: expire_cases [where py_str = py_str and now = now]) (use assms(1) Do_Expire in \<open>auto simp: sched_file_ok_def\<close>)
next
  case (Do_Event e')
  have "wf_json (JObj (dsetdefault ''created_utc'' (JStr now) e'))"
    using assms(2) Do_Event by (simp add: wf_dsetdefault del: wf_json.simps(3))
  then show ?thesis using Do_Event change_state_ok [OF assms(1) keeps_event] by (simp add: append_scheduler_event_def Let_def)
qed

lemma sched_run_ok: "sched_file_ok f \<Longrightarrow> \<forall>(now, e) \<in> set ops. sched_op_ok e \<Longrightarrow> sched_file_ok (foldl (sched_step py_str) f ops)"
  by (induction ops arbitrary: f) (auto intro: sched_step_ok)

text \<open>A state with one released lease.\<close>

definition sample_lease :: jdict where
  "sample_lease =
     lease_to_dict \<lparr>ls_id = ''l'', ls_task = ''t'', ls_worker = ''w'', ls_status = ''active'', ls_priority = 0, ls_acquired = ''1'',
       ls_expires = ''5'', ls_mission = None, ls_renewed = None, ls_released = None, ls_metadata = []\<rparr>"

definition sample_run :: "(string \<times> sched_op) list" where
  "sample_run = [(''1'', Do_Lease sample_lease), (''2'', Do_Release ''l'')]"

lemma sample_run_ok: "\<forall>(now, e) \<in> set sample_run. sched_op_ok e"
  by (simp add: sample_run_def sample_lease_def lease_to_dict_def opt_json_def wf_dict_def)

text \<open>C36: Whatever sequence of registrations, status changes, leases, renewals, releases, expiries and events a
  scheduler state goes through, accepted or refused, the state file can be loaded, and every worker and
  lease in it passes its validator and is stored under its own id.\<close>

theorem scheduler_state_loads:
  assumes "\<forall>(now, e) \<in> set ops. sched_op_ok e"
  shows "\<exists>s. load_state (foldl (sched_step py_str) None ops) = Inr s \<and>
    (\<forall>k w. dget (ss_workers s) k = Some (JObj w) \<longrightarrow> validate_worker_descriptor_dict w = Inr () \<and> jget w ''worker_id'' = JStr k) \<and>
    (\<forall>k l. dget (ss_leases s) k = Some (JObj l) \<longrightarrow> validate_task_lease_dict l = Inr () \<and> jget l ''lease_id'' = JStr k)"
proof -
  have "sched_file_ok (foldl (sched_step py_str) None ops)"
    by (rule sched_run_ok [OF _ assms]) (simp add: sched_file_ok_def)
  then obtain s where "load_state (foldl (sched_step py_str) None ops) = Inr s" "sched_good s" using load_ok by blast
  then show ?thesis unfolding sched_good_def entries_ok_def entry_ok_def by blast
qed

theorem scheduler_state_loads_witness:
  "\<exists>s. load_state (foldl (sched_step (\<lambda>_. [])) None sample_run) = Inr s \<and>
    (\<forall>k l. dget (ss_leases s) k = Some (JObj l) \<longrightarrow> validate_task_lease_dict l = Inr () \<and> jget l ''lease_id'' = JStr k)"
  using scheduler_state_loads [OF sample_run_ok] by blast

text \<open>C37: Expiring stale leases always returns; it returns exactly the active leases whose expiry is not
  after the given time, with the new status, and leaves exactly the other ones active.\<close>

theorem expiry_exact:
  assumes "\<forall>(now, e) \<in> set ops. sched_op_ok e" and "f = foldl (sched_step py_str) None ops"
    and "list_active_leases f = Inr active"
  shows "fst (expire_stale_leases py_str now f) = Inr (map (expired_lease now) (filter (lease_stale py_str now) active)) \<and>
    list_active_leases (snd (expire_stale_leases py_str now f)) = Inr (filter (\<lambda>l. \<not> lease_stale py_str now l) active)"
proof -
  have ok: "sched_file_ok f" unfolding assms(2) by (rule sched_run_ok [OF _ assms(1)]) (simp add: sched_file_ok_def)
  obtain s where s: "load_state f = Inr s" "sched_good s" using load_ok [OF ok] by blast
  have active: "active = filter lease_open (dict_list (JArr (dvalues (ss_leases s))))"
    using assms(3) s(1) by (simp add: list_active_leases_def)
  have due: "filter (lease_due py_str now) L = filter (lease_stale py_str now) (filter lease_open L)" for L
    by (simp add: lease_due_def [abs_def] conj_commute)
  from ok s(1) show ?thesis
  proof (cases rule: expire_cases [where py_str = py_str and now = now])
    case none
    then have "filter (lease_stale py_str now) active = []" by (simp only: due active)
    moreover from this have "filter (\<lambda>l. \<not> lease_stale py_str now l) active = active" by (simp add: filter_empty_conv filter_id_conv)
    ultimately show ?thesis using none assms(3) by simp
  next
    case (some version)
    have "leases_ok (ss_leases s)" using s(2) by (simp add: sched_good_def)
    then show ?thesis
      using some active_after_expiry [OF loaded_canonical [OF ok s(1)]] load_saved_state [OF some(2)]
      by (simp add: list_active_leases_def canon_state_def due active)
  qed
qed

theorem expiry_exact_witness:
  "let f = foldl (sched_step (\<lambda>_. [])) None [(''1'', Do_Lease sample_lease)] in
     (\<exists>l. list_active_leases f = Inr [l] \<and> fst (expire_stale_leases (\<lambda>_. []) ''6'' f) = Inr [expired_lease ''6'' l] \<and>
        list_active_leases (snd (expire_stale_leases (\<lambda>_. []) ''6'' f)) = Inr [])"
proof -
  let ?f = "foldl (sched_step (\<lambda>_. [])) None [(''1'', Do_Lease sample_lease)]"
  have ops: "\<forall>(now, e) \<in> set [(''1'', Do_Lease sample_lease)]. sched_op_ok e" using sample_run_ok by (simp add: sample_run_def)
  have a: "list_active_leases ?f = Inr [canon_dict sample_lease]" by code_simp
  have "lease_stale (\<lambda>_. []) ''6'' (canon_dict sample_lease)" by code_simp
  then show ?thesis using expiry_exact [OF ops refl a, of "''6''"] a by (simp add: Let_def)
qed

text \<open>Renewing does not look at the status of a lease: a lease that was released, expired or cancelled
  becomes active again.\<close>

theorem renew_revives_lease:
  assumes "\<forall>(now, e) \<in> set ops. sched_op_ok e" and "load_state (foldl (sched_step py_str) None ops) = Inr s"
    and "dget (ss_leases s) k = Some (JObj l)" and "strip expires \<noteq> []"
  shows "\<exists>l1 f1 active. renew_lease now k expires (foldl (sched_step py_str) None ops) = (Inr l1, f1) \<and>
    list_active_leases f1 = Inr active \<and> canon_dict l1 \<in> set active \<and> jget l1 ''lease_id'' = JStr k"
proof -
  let ?f = "foldl (sched_step py_str) None ops"
  let ?u = "[(''lease_status'', JStr ''renewed''), (''expires_utc'', JStr expires), (''renewed_utc'', JStr now)]"
  let ?l1 = "dupdate l ?u"
  have ok: "sched_file_ok ?f" by (rule sched_run_ok [OF _ assms(1)]) (simp add: sched_file_ok_def)
  have good: "sched_good s" using load_ok [OF ok] assms(2) by auto
  then have lok: "leases_ok (ss_leases s)" by (simp add: sched_good_def)
  note e = entries_ok_entry [OF lok assms(3)]
  have j: "jget ?l1 key = (if key = ''renewed_utc'' then JStr now else if key = ''expires_utc'' then JStr expires
      else if key = ''lease_status'' then JStr ''renewed'' else jget l key)" for key
    by (simp add: dupdate_def jget_dput)
  have "''renewed'' \<in> set LEASE_STATUSES" "strip ''renewed'' \<noteq> []" by code_simp+
  then have v: "validate_task_lease_dict ?l1 = Inr ()"
    using e assms(4) by (auto simp: entry_ok_def validate_lease_iff j simp del: wf_json.simps)
  let ?s1 = "s\<lparr>ss_leases := dput k (JObj ?l1) (ss_leases s)\<rparr>"
  have c: "change_lease k ?u s = Inr (?l1, ?s1)" using assms(3) v by (simp add: change_lease_def Let_def)
  have "keeps_good (change_lease k ?u)" by (rule keeps_change_lease) simp
  then have good1: "sched_good ?s1" using good c unfolding keeps_good_def by blast
  obtain version where sv: "save_state ?s1 ?f = (Inr (), Some (canon (state_value version ?s1)))" using save_good [OF good1] by blast
  have r: "renew_lease now k expires ?f = (Inr ?l1, Some (canon (state_value version ?s1)))"
    using assms(2) c sv by (simp add: renew_lease_def change_state_def)
  let ?d = "canon_dict (dput k (JObj ?l1) (ss_leases s))"
  have wf: "wf_dict (dput k (JObj ?l1) (ss_leases s))" using lok wf_JObj unfolding entries_ok_def by (metis wf_dict_dput)
  have wl: "wf_dict ?l1" using e wf_JObj by (metis wf_dict_dupdate)
  have "dget ?d k = Some (JObj (canon_dict ?l1))" by (simp add: dget_canon_dict [OF wf] canon_JObj del: canon.simps)
  then have "JObj (canon_dict ?l1) \<in> set (dvalues ?d)" using dget_in_set by (force simp: dvalues_def)
  then have "canon_dict ?l1 \<in> set (dict_list (JArr (dvalues ?d)))" by (force simp: dict_list_def the_obj_def)
  moreover have "lease_open (canon_dict ?l1)" by (simp add: lease_open_def jget_canon [OF wl] j)
  moreover have "list_active_leases (Some (canon (state_value version ?s1))) = Inr (filter lease_open (dict_list (JArr (dvalues ?d))))"
    by (simp add: list_active_leases_def load_saved_state [OF good1] canon_state_def)
  moreover have "jget ?l1 ''lease_id'' = JStr k" using e by (simp add: j entry_ok_def)
  ultimately show ?thesis using r by auto
qed

theorem renew_revives_lease_witness:
  "\<exists>l. list_active_leases (foldl (sched_step (\<lambda>_. [])) None sample_run) = Inr [] \<and>
     list_active_leases (snd (renew_lease ''3'' ''l'' ''9'' (foldl (sched_step (\<lambda>_. [])) None sample_run))) = Inr l \<and> l \<noteq> []"
proof -
  let ?f = "foldl (sched_step (\<lambda>_. [])) None sample_run"
  obtain s where s: "load_state ?f = Inr s" using scheduler_state_loads [OF sample_run_ok] by blast
  have "case load_state ?f of Inl e \<Rightarrow> False | Inr s \<Rightarrow> dget (ss_leases s) ''l'' = Some (JObj
      (canon_dict (dupdate sample_lease [(''lease_status'', JStr ''released''), (''released_utc'', JStr ''2'')])))" by code_simp
  then have l: "dget (ss_leases s) ''l'' = Some (JObj
      (canon_dict (dupdate sample_lease [(''lease_status'', JStr ''released''), (''released_utc'', JStr ''2'')])))" using s by simp
  have "strip ''9'' \<noteq> []" "list_active_leases ?f = Inr []" by code_simp+
  with renew_revives_lease [OF sample_run_ok s l, of "''9''" "''3''"] show ?thesis by auto
qed

section \<open>The chosen worker\<close>

text \<open>What a score that is not negative promises.\<close>

lemma score_fits:
  assumes "score_worker route task w = Inr n" and "0 \<le> n"
  shows "(str_list (jget w ''supported_providers'') = [] \<or>
      (\<forall>t \<in> set (task_list task ''required_tools''). \<forall>r. route t = Inr r \<longrightarrow> tr_provider r \<in> set (str_list (jget w ''supported_providers'')))) \<and>
    (\<forall>g. task_repository_group task = Some g \<longrightarrow>
       str_list (jget w ''supported_repository_groups'') = [] \<or> g \<in> set (str_list (jget w ''supported_repository_groups'')))"
proof -
  have routes: "routes_of route ts = Inr rs \<Longrightarrow> t \<in> set ts \<Longrightarrow> route t = Inr r \<Longrightarrow> r \<in> set rs" for ts rs t r
    by (induction ts arbitrary: rs) (auto simp: res_bind_Inr_iff)
  obtain rs where rs: "routes_of route (task_list task ''required_tools'') = Inr rs"
    using assms(1) by (auto simp: score_worker_def Let_def res_bind_Inr_iff)
  show ?thesis
    using assms routes [OF rs] by (fastforce simp: score_worker_def Let_def rs split: if_splits)
qed

lemma worker_candidates_spec:
  "worker_candidates route task ws = Inr cs \<Longrightarrow>
     (\<forall>w \<in> set ws. \<not> worker_blocked w \<longrightarrow> (\<exists>n. score_worker route task w = Inr n)) \<and>
     set cs = {(n, w). w \<in> set ws \<and> \<not> worker_blocked w \<and> score_worker route task w = Inr n \<and> 0 \<le> n}"
proof (induction ws arbitrary: cs)
  case Nil
  then show ?case by simp
next
  case (Cons w ws)
  show ?case
  proof (cases "worker_blocked w")
    case True
    with Cons.prems Cons.IH [of cs] show ?thesis by auto
  next
    case False
    then obtain n cs' where "score_worker route task w = Inr n" and c: "worker_candidates route task ws = Inr cs'"
        and "cs = (if n < 0 then cs' else (n, w) # cs')"
      using Cons.prems by (auto simp: res_bind_Inr_iff)
    with Cons.IH [OF c] False show ?thesis by (cases "n < 0") auto
  qed
qed

lemma hd_sort_key_least: "xs \<noteq> [] \<Longrightarrow> hd (sort_key f xs) \<in> set xs \<and> (\<forall>x \<in> set xs. f (hd (sort_key f xs)) \<le> f x)"
proof -
  assume ne: "xs \<noteq> []"
  obtain y ys where s: "sort_key f xs = y # ys" using ne by (metis length_0_conv length_sort neq_Nil_conv)
  have "sorted (map f (y # ys))" using s by (metis sorted_sort_key)
  then have "\<forall>x \<in> set (y # ys). f y \<le> f x" by auto
  moreover have "set (y # ys) = set xs" using s by (metis set_sort)
  ultimately show ?thesis using s by auto
qed

text \<open>The worker chosen for a task is one of the given ones, not offline or disabled, supports the
  providers of the required tools and the repository group as far as it declares any, and no available
  worker scores higher; no worker is chosen exactly when every available one has a negative score.\<close>

theorem chosen_worker_best:
  assumes "choose_worker_for_task route text_of task ws = Inr choice"
  shows "case choice of
      None \<Rightarrow> \<forall>w \<in> set ws. \<not> worker_blocked w \<longrightarrow> (\<exists>n < 0. score_worker route task w = Inr n)
    | Some w \<Rightarrow> w \<in> set ws \<and> \<not> worker_blocked w \<and>
        (\<exists>n \<ge> 0. score_worker route task w = Inr n \<and>
          (\<forall>v \<in> set ws. \<not> worker_blocked v \<longrightarrow> (\<exists>m \<le> n. score_worker route task v = Inr m))) \<and>
        (str_list (jget w ''supported_providers'') = [] \<or>
          (\<forall>t \<in> set (task_list task ''required_tools''). \<forall>r. route t = Inr r \<longrightarrow> tr_provider r \<in> set (str_list (jget w ''supported_providers'')))) \<and>
        (\<forall>g. task_repository_group task = Some g \<longrightarrow>
           str_list (jget w ''supported_repository_groups'') = [] \<or> g \<in> set (str_list (jget w ''supported_repository_groups'')))"
proof -
  obtain cs where cs: "worker_candidates route task ws = Inr cs"
      and choice: "choice = (if cs = [] then None else Some (snd (hd (sort_key (candidate_key text_of) cs))))"
    using assms by (auto simp: choose_worker_for_task_def res_bind_Inr_iff)
  note spec = worker_candidates_spec [OF cs]
  show ?thesis
  proof (cases "cs = []")
    case True
    have "\<exists>n < 0. score_worker route task w = Inr n" if av: "w \<in> set ws" "\<not> worker_blocked w" for w
    proof -
      obtain n where n: "score_worker route task w = Inr n" using spec [THEN conjunct1] av by blast
      have "\<not> 0 \<le> n"
      proof
        assume "0 \<le> n"
        then have "(n, w) \<in> {(n, w). w \<in> set ws \<and> \<not> worker_blocked w \<and> score_worker route task w = Inr n \<and> 0 \<le> n}"
          using av n by simp
        then have "(n, w) \<in> set cs" by (simp only: spec)
        with True show False by simp
      qed
      then have "n < 0" by simp
      with n show ?thesis by blast
    qed
    then show ?thesis by (simp add: choice True)
  next
    case False
    obtain n w where c: "hd (sort_key (candidate_key text_of) cs) = (n, w)" by fastforce
    note least = hd_sort_key_least [OF False, of "candidate_key text_of", unfolded c]
    have w: "w \<in> set ws" "\<not> worker_blocked w" "score_worker route task w = Inr n" "0 \<le> n" using least spec by auto
    have best: "\<exists>m \<le> n. score_worker route task v = Inr m" if v: "v \<in> set ws" "\<not> worker_blocked v" for v
    proof -
      obtain m where m: "score_worker route task v = Inr m" using spec [THEN conjunct1] v by blast
      have "m \<le> n"
      proof (cases "0 \<le> m")
        case True
        then have "(m, v) \<in> set cs" using spec v m by simp
        then have "candidate_key text_of (n, w) \<le> candidate_key text_of (m, v)" using least by blast
        then show ?thesis by (auto simp: candidate_key_def less_eq_prod_def)
      qed (use w(4) in simp)
      with m show ?thesis by blast
    qed
    have ch: "choice = Some w" by (simp add: choice False c)
    have all: "\<forall>v \<in> set ws. \<not> worker_blocked v \<longrightarrow> (\<exists>m \<le> n. score_worker route task v = Inr m)" using best by blast
    note fits = score_fits [OF w(3,4)]
    show ?thesis
      unfolding ch option.case
      by (intro conjI exI [of _ n]) (rule w all fits [THEN conjunct1] fits [THEN conjunct2])+
  qed
qed

definition sample_worker :: "string \<Rightarrow> string \<Rightarrow> jdict" where
  "sample_worker k status = [(''worker_id'', JStr k), (''status'', JStr status), (''capabilities'', JArr [JStr ''reader''])]"

theorem chosen_worker_best_witness:
  "choose_worker_for_task (\<lambda>t. Inr (create_disabled_fallback_route t)) (\<lambda>_. []) [(''required_tools'', JArr [JStr ''reader''])]
      [sample_worker ''a'' ''busy'', sample_worker ''b'' ''idle'', sample_worker ''c'' ''offline''] = Inr (Some (sample_worker ''b'' ''idle'')) \<and>
   (\<exists>n \<ge> 0. score_worker (\<lambda>t. Inr (create_disabled_fallback_route t)) [(''required_tools'', JArr [JStr ''reader''])] (sample_worker ''b'' ''idle'') = Inr n)"
proof -
  have c: "choose_worker_for_task (\<lambda>t. Inr (create_disabled_fallback_route t)) (\<lambda>_. []) [(''required_tools'', JArr [JStr ''reader''])]
      [sample_worker ''a'' ''busy'', sample_worker ''b'' ''idle'', sample_worker ''c'' ''offline''] = Inr (Some (sample_worker ''b'' ''idle''))"
    by code_simp
  from chosen_worker_best [OF c] c show ?thesis unfolding option.case by blast
qed

end
