(* ===== verification/Validator.thy ===== *)
theory Validator
  imports Schema Py_Convert
begin

text \<open>
  \<^verbatim>\<open>core/validator.py\<close>: the checker of the schema files under \<^verbatim>\<open>schema/\<close>, which guards
  the packets of the twin pipeline. Its dialect is wider than that of \<^verbatim>\<open>core/schema.py\<close>
  (constants, enumerations, lengths, bounds) and knows no integers. The checker is shown to
  decide the judgement \<open>admits\<close>, which speaks neither of paths nor of the order of the checks.
\<close>

section \<open>Python's comparisons on JSON values\<close>

text \<open>The number a value stands for: a rational, or the text of a special float.\<close>

fun num_of :: "jval \<Rightarrow> (rat + string) option" where
  "num_of (JInt i) = Some (Inl (of_int i))"
| "num_of (JBool b) = Some (Inl (if b then 1 else 0))"
| "num_of (JFloat f) = Some (case flt_val f of Some x \<Rightarrow> Inl x | None \<Rightarrow> Inr f)"
| "num_of _ = None"

text \<open>\<^verbatim>\<open>a == b\<close>: numbers by value, so \<^verbatim>\<open>True == 1 == 1.0\<close>; dictionaries in any order.\<close>

definition num_eq :: "rat + string \<Rightarrow> rat + string \<Rightarrow> bool" where
  "num_eq a b \<longleftrightarrow> a = b \<and> a \<noteq> Inr ''NaN''"

function py_eq :: "jval \<Rightarrow> jval \<Rightarrow> bool" where
  "py_eq v w =
     (case (v, w) of
        (JNull, JNull) \<Rightarrow> True
      | (JStr s, JStr t) \<Rightarrow> s = t
      | (JArr xs, JArr ys) \<Rightarrow> length xs = length ys \<and> (\<forall>(x, y) \<in> set (zip xs ys). py_eq x y)
      | (JObj d, JObj e) \<Rightarrow>
          length d = length e \<and>
          (\<forall>(k, x) \<in> set d. case dget e k of None \<Rightarrow> False | Some y \<Rightarrow> py_eq x y)
      | _ \<Rightarrow> (case (num_of v, num_of w) of (Some a, Some b) \<Rightarrow> num_eq a b | _ \<Rightarrow> False))"
  by pat_completeness auto
termination
  by (relation "measure (\<lambda>(v, w). size v)")
    (auto dest!: set_zip_leftD dest: size_arr_elem size_member)

declare py_eq.simps [simp del]

lemma py_eq_str [simp]: "py_eq (JStr s) w \<longleftrightarrow> w = JStr s"
  by (cases w) (auto simp: py_eq.simps)

text \<open>\<^verbatim>\<open>v in allowed\<close>; \<open>None\<close> is the \<^verbatim>\<open>TypeError\<close> of an unhashable or non-iterable operand.\<close>

fun py_in :: "jval \<Rightarrow> jval \<Rightarrow> bool option" where
  "py_in v (JArr xs) = Some (\<exists>x \<in> set xs. py_eq x v)"
| "py_in v (JObj d) =
     (case v of JStr s \<Rightarrow> Some (dhas d s) | JArr _ \<Rightarrow> None | JObj _ \<Rightarrow> None | _ \<Rightarrow> Some False)"
| "py_in v (JStr t) = (case v of JStr s \<Rightarrow> Some (contains s t) | _ \<Rightarrow> None)"
| "py_in v _ = None"

text \<open>\<^verbatim>\<open>a < b\<close> on numbers; a comparison with anything else raises.\<close>

definition num_less :: "rat + string \<Rightarrow> rat + string \<Rightarrow> bool" where
  "num_less a b =
     (case (a, b) of
        (Inl x, Inl y) \<Rightarrow> x < y
      | (Inl x, Inr t) \<Rightarrow> t = ''Infinity''
      | (Inr s, Inl y) \<Rightarrow> s = ''-Infinity''
      | (Inr s, Inr t) \<Rightarrow> s = ''-Infinity'' \<and> t = ''Infinity'')"

definition py_less :: "jval \<Rightarrow> jval \<Rightarrow> bool option" where
  "py_less v w = (case (num_of v, num_of w) of (Some a, Some b) \<Rightarrow> Some (num_less a b) | _ \<Rightarrow> None)"

section \<open>The checker\<close>

datatype mismatch =
    NotConst | NotInEnum
  | NotOfType string | UnknownType jval
  | RequiredNotArray | RequiredMissing jval
  | PropertiesNotDict | KeyNotAllowed string | PropertyNotDict
  | MinItemsNotInt | TooFewItems | ItemsNotDict
  | MinLengthNotInt | TooShort
  | UnderMinimum | OverMaximum
  | SchemaNotFound | SchemaRootNotObject

text \<open>
  \<open>SchemaMismatchedException\<close> with the path at which it was raised, and the two other exceptions
  a broken schema file can cause.
\<close>

datatype validation_error =
    SchemaMismatched string mismatch
  | TypeError
  | JSONDecodeError

definition checked :: "bool option \<Rightarrow> string \<Rightarrow> mismatch \<Rightarrow> (validation_error, unit) res" where
  "checked r path why = (case r of None \<Rightarrow> Inl TypeError | Some b \<Rightarrow> require b (SchemaMismatched path why))"

definition check_const :: "jdict \<Rightarrow> jval \<Rightarrow> string \<Rightarrow> (validation_error, unit) res" where
  "check_const sd v path =
     (case dget sd ''const'' of
        None \<Rightarrow> Inr ()
      | Some c \<Rightarrow> require (py_eq v c) (SchemaMismatched path NotConst))"

definition check_enum :: "jdict \<Rightarrow> jval \<Rightarrow> string \<Rightarrow> (validation_error, unit) res" where
  "check_enum sd v path =
     (case dget sd ''enum'' of None \<Rightarrow> Inr () | Some allowed \<Rightarrow> checked (py_in v allowed) path NotInEnum)"

definition is_number :: "jval \<Rightarrow> bool" where
  "is_number v \<longleftrightarrow> (is_int v \<or> is_flt v) \<and> \<not> is_bool v"

definition check_type :: "jval \<Rightarrow> jval \<Rightarrow> string \<Rightarrow> (validation_error, unit) res" where
  "check_type t v path =
     (if eq_str t ''object'' then require (is_obj v) (SchemaMismatched path (NotOfType ''object''))
      else if eq_str t ''array'' then require (is_arr v) (SchemaMismatched path (NotOfType ''array''))
      else if eq_str t ''string'' then require (is_str v) (SchemaMismatched path (NotOfType ''string''))
      else if eq_str t ''boolean'' then require (is_bool v) (SchemaMismatched path (NotOfType ''boolean''))
      else if eq_str t ''number'' then require (is_number v) (SchemaMismatched path (NotOfType ''number''))
      else Inl (SchemaMismatched path (UnknownType t)))"

text \<open>An integer keyword: absent or null, an integer (booleans count), or a broken schema.\<close>

fun bound_value :: "jval \<Rightarrow> int" where
  "bound_value (JInt i) = i"
| "bound_value (JBool b) = (if b then 1 else 0)"
| "bound_value _ = 0"

definition check_least :: "jval \<Rightarrow> nat \<Rightarrow> string \<Rightarrow> mismatch \<Rightarrow> mismatch \<Rightarrow> (validation_error, unit) res" where
  "check_least bound n path broken why =
     (if bound = JNull then Inr ()
      else if \<not> is_int bound then Inl (SchemaMismatched path broken)
      else require (bound_value bound \<le> int n) (SchemaMismatched path why))"

definition check_string :: "jdict \<Rightarrow> string \<Rightarrow> string \<Rightarrow> (validation_error, unit) res" where
  "check_string sd s path = check_least (jget sd ''minLength'') (py_len s) path MinLengthNotInt TooShort"

definition check_number :: "jdict \<Rightarrow> jval \<Rightarrow> string \<Rightarrow> (validation_error, unit) res" where
  "check_number sd v path =
     (let minimum = jget sd ''minimum''; maximum = jget sd ''maximum''
      in res_bind
           (if minimum = JNull then Inr ()
            else checked (map_option Not (py_less v minimum)) path UnderMinimum)
           (\<lambda>_. if maximum = JNull then Inr ()
                 else checked (map_option Not (py_less maximum v)) path OverMaximum))"

text \<open>\<^verbatim>\<open>key in instance\<close> for a key of the schema, whatever it is.\<close>

definition check_required :: "jdict \<Rightarrow> jdict \<Rightarrow> string \<Rightarrow> (validation_error, unit) res" where
  "check_required sd d path =
     (let required = (case dget sd ''required'' of None \<Rightarrow> JArr [] | Some r \<Rightarrow> r)
      in if \<not> truthy required then Inr ()
         else
           (case required of
              JArr ks \<Rightarrow> each (\<lambda>k. checked (py_in k (JObj d)) path (RequiredMissing k)) ks
            | _ \<Rightarrow> Inl (SchemaMismatched path RequiredNotArray)))"

text \<open>\<^verbatim>\<open>schema.get("properties", {}) or {}\<close>.\<close>

definition schema_properties :: "jdict \<Rightarrow> jval" where
  "schema_properties sd = or_else (jget sd ''properties'') (JObj [])"

definition closed_schema :: "jdict \<Rightarrow> bool" where
  "closed_schema sd \<longleftrightarrow> dget sd ''additionalProperties'' = Some (JBool False)"

function check_node :: "jval \<Rightarrow> jdict \<Rightarrow> string \<Rightarrow> (validation_error, unit) res"
  and check_object :: "jdict \<Rightarrow> jdict \<Rightarrow> string \<Rightarrow> (validation_error, unit) res"
  and check_array :: "jval list \<Rightarrow> jdict \<Rightarrow> string \<Rightarrow> (validation_error, unit) res"
where
  "check_node v sd path =
     res_bind (check_const sd v path)
       (\<lambda>_. res_bind (check_enum sd v path)
         (\<lambda>_. let t = jget sd ''type''
               in res_bind (if t = JNull then Inr () else check_type t v path)
                    (\<lambda>_. (case v of
                            JObj d \<Rightarrow> if eq_str t ''object'' then check_object d sd path else Inr ()
                          | JArr xs \<Rightarrow> if eq_str t ''array'' then check_array xs sd path else Inr ()
                          | JStr s \<Rightarrow> if eq_str t ''string'' then check_string sd s path else Inr ()
                          | _ \<Rightarrow> if eq_str t ''number'' then check_number sd v path else Inr ()))))"
| "check_object d sd path =
     res_bind (check_required sd d path)
       (\<lambda>_. (case schema_properties sd of
               JObj ps \<Rightarrow>
                 res_bind
                   (if closed_schema sd \<and> ps \<noteq> [] then
                      each (\<lambda>k. require (dhas ps k) (SchemaMismatched path (KeyNotAllowed k))) (dkeys d)
                    else Inr ())
                   (\<lambda>_. each (\<lambda>(k, p).
                      (case dget d k of
                         None \<Rightarrow> Inr ()
                       | Some w \<Rightarrow>
                           (case p of
                              JObj psd \<Rightarrow> check_node w psd (key_path path k)
                            | _ \<Rightarrow> Inl (SchemaMismatched (key_path path k) PropertyNotDict)))) ps)
             | _ \<Rightarrow> Inl (SchemaMismatched path PropertiesNotDict)))"
| "check_array xs sd path =
     res_bind (check_least (jget sd ''minItems'') (length xs) path MinItemsNotInt TooFewItems)
       (\<lambda>_. (case jget sd ''items'' of
               JNull \<Rightarrow> Inr ()
             | JObj items \<Rightarrow> each (\<lambda>(i, x). check_node x items (idx_path path i)) (zip [0..<length xs] xs)
             | _ \<Rightarrow> Inl (SchemaMismatched path ItemsNotDict)))"
  by pat_completeness auto
termination
  by (relation "measure (\<lambda>x. case x of Inl (v, _, _) \<Rightarrow> 2 * size v
        | Inr (Inl (d, _, _)) \<Rightarrow> 2 * size (JObj d) - 1
        | Inr (Inr (xs, _, _)) \<Rightarrow> 2 * size (JArr xs) - 1)")
    (auto dest: size_enum_elem size_dget)

declare check_node.simps [simp del] check_object.simps [simp del] check_array.simps [simp del]

section \<open>The judgement it decides\<close>

definition value_ok :: "jdict \<Rightarrow> jval \<Rightarrow> bool" where
  "value_ok sd v \<longleftrightarrow>
     (\<forall>c. dget sd ''const'' = Some c \<longrightarrow> py_eq v c) \<and>
     (\<forall>a. dget sd ''enum'' = Some a \<longrightarrow> py_in v a = Some True)"

definition at_least :: "jval \<Rightarrow> nat \<Rightarrow> bool" where
  "at_least bound n \<longleftrightarrow> bound = JNull \<or> is_int bound \<and> bound_value bound \<le> int n"

definition in_range :: "jdict \<Rightarrow> jval \<Rightarrow> bool" where
  "in_range sd v \<longleftrightarrow>
     (jget sd ''minimum'' = JNull \<or> py_less v (jget sd ''minimum'') = Some False) \<and>
     (jget sd ''maximum'' = JNull \<or> py_less (jget sd ''maximum'') v = Some False)"

definition scalar_admits :: "jdict \<Rightarrow> jval \<Rightarrow> bool" where
  "scalar_admits sd v \<longleftrightarrow>
     jget sd ''type'' = JNull \<or>
     jget sd ''type'' = JStr ''boolean'' \<and> is_bool v \<or>
     jget sd ''type'' = JStr ''number'' \<and> is_number v \<and> in_range sd v \<or>
     jget sd ''type'' = JStr ''string'' \<and> (\<exists>s. v = JStr s \<and> at_least (jget sd ''minLength'') (py_len s))"

definition required_in :: "jdict \<Rightarrow> jdict \<Rightarrow> bool" where
  "required_in sd d \<longleftrightarrow>
     \<not> truthy (jget sd ''required'') \<or>
     (\<exists>ks. jget sd ''required'' = JArr (map JStr ks) \<and> (\<forall>k \<in> set ks. dhas d k))"

inductive admits :: "jdict \<Rightarrow> jval \<Rightarrow> bool" where
  scalar: "value_ok sd v \<Longrightarrow> scalar_admits sd v \<Longrightarrow> admits sd v"
| array: "value_ok sd (JArr xs) \<Longrightarrow> jget sd ''type'' = JStr ''array'' \<Longrightarrow>
     at_least (jget sd ''minItems'') (length xs) \<Longrightarrow>
     jget sd ''items'' = JNull \<or> is_obj (jget sd ''items'') \<Longrightarrow>
     (\<And>items x. jget sd ''items'' = JObj items \<Longrightarrow> x \<in> set xs \<Longrightarrow> admits items x) \<Longrightarrow>
     admits sd (JArr xs)"
| object: "value_ok sd (JObj d) \<Longrightarrow> jget sd ''type'' = JStr ''object'' \<Longrightarrow>
     required_in sd d \<Longrightarrow> schema_properties sd = JObj ps \<Longrightarrow>
     (closed_schema sd \<Longrightarrow> ps \<noteq> [] \<Longrightarrow> (\<And>k. dhas d k \<Longrightarrow> dhas ps k)) \<Longrightarrow>
     (\<And>k p w. (k, p) \<in> set ps \<Longrightarrow> dget d k = Some w \<Longrightarrow> \<exists>psd. p = JObj psd \<and> admits psd w) \<Longrightarrow>
     admits sd (JObj d)"

inductive_cases admits_objE: "admits sd (JObj d)"
inductive_cases admits_arrE: "admits sd (JArr xs)"
inductive_cases admitsE: "admits sd v"

text \<open>Each check of the code is one clause of the judgement.\<close>

lemma checked_Inr_iff [simp]: "checked r path why = Inr u \<longleftrightarrow> r = Some True"
  by (cases r) (auto simp: checked_def)

lemma value_ok_iff: "value_ok sd v \<longleftrightarrow> check_const sd v path = Inr () \<and> check_enum sd v path = Inr ()"
  by (auto simp: value_ok_def check_const_def check_enum_def split: option.splits)

lemma at_least_iff: "check_least bound n path b w = Inr () \<longleftrightarrow> at_least bound n"
  by (simp add: check_least_def at_least_def)

lemma in_range_iff: "check_number sd v path = Inr () \<longleftrightarrow> in_range sd v"
  by (auto simp: check_number_def in_range_def Let_def res_bind_Inr_iff)

lemma py_in_dict: "py_in k (JObj d) = Some True \<longleftrightarrow> (\<exists>s. k = JStr s \<and> dhas d s)"
  by (cases k) auto

lemma strings_only: "(\<forall>k \<in> set ks. \<exists>s. k = JStr s \<and> P s) \<longleftrightarrow> (\<exists>ss. ks = map JStr ss \<and> (\<forall>s \<in> set ss. P s))"
proof (induction ks)
  case (Cons k ks)
  then show ?case by (force simp: Cons_eq_map_conv)
qed simp

lemma required_in_iff: "check_required sd d path = Inr () \<longleftrightarrow> required_in sd d"
proof -
  let ?r = "case dget sd ''required'' of None \<Rightarrow> JArr [] | Some r \<Rightarrow> r"
  have eq: "truthy ?r = truthy (jget sd ''required'') \<and> (truthy ?r \<longrightarrow> ?r = jget sd ''required'')"
    by (simp add: jget_def split: option.split)
  show ?thesis
  proof (cases "truthy ?r")
    case True
    with eq have "?r = jget sd ''required''" by blast
    with True show ?thesis
      by (cases "jget sd ''required''")
        (auto simp: check_required_def required_in_def each_Inr_iff py_in_dict strings_only simp del: py_in.simps)
  next
    case False
    with eq show ?thesis by (simp add: check_required_def required_in_def)
  qed
qed

lemmas check_iffs = value_ok_iff at_least_iff in_range_iff required_in_iff

lemma check_node_scalar:
  assumes "jget sd ''type'' \<noteq> JStr ''object''" and "jget sd ''type'' \<noteq> JStr ''array''"
  shows "check_node v sd p = Inr () \<longleftrightarrow> value_ok sd v \<and> scalar_admits sd v"
  using assms
  by (cases v)
    (auto simp: check_node.simps value_ok_iff [of _ _ p] res_bind_Inr_iff check_type_def eq_str_def scalar_admits_def
      is_number_def check_string_def at_least_iff in_range_iff Let_def)

lemma check_node_arr:
  assumes "jget sd ''type'' = JStr ''array''"
  shows "check_node v sd p = Inr () \<longleftrightarrow> value_ok sd v \<and> (\<exists>xs. v = JArr xs \<and> check_array xs sd p = Inr ())"
  using assms
  by (cases v) (auto simp: check_node.simps value_ok_iff [of _ _ p] res_bind_Inr_iff check_type_def eq_str_def Let_def)

lemma check_node_obj:
  assumes "jget sd ''type'' = JStr ''object''"
  shows "check_node v sd p = Inr () \<longleftrightarrow> value_ok sd v \<and> (\<exists>d. v = JObj d \<and> check_object d sd p = Inr ())"
  using assms
  by (cases v) (auto simp: check_node.simps value_ok_iff [of _ _ p] res_bind_Inr_iff check_type_def eq_str_def Let_def)

lemma check_array_iff:
  "check_array xs sd p = Inr () \<longleftrightarrow>
     at_least (jget sd ''minItems'') (length xs) \<and>
     (jget sd ''items'' = JNull \<or> is_obj (jget sd ''items'')) \<and>
     (\<forall>items. jget sd ''items'' = JObj items \<longrightarrow>
        (\<forall>i < length xs. check_node (xs ! i) items (idx_path p i) = Inr ()))"
  by (cases "jget sd ''items''")
    (auto simp: check_array.simps res_bind_Inr_iff at_least_iff each_enum_Inr_iff)

lemma check_object_iff:
  "check_object d sd p = Inr () \<longleftrightarrow>
     required_in sd d \<and>
     (\<exists>ps. schema_properties sd = JObj ps \<and>
        (closed_schema sd \<longrightarrow> ps \<noteq> [] \<longrightarrow> (\<forall>k. dhas d k \<longrightarrow> dhas ps k)) \<and>
        (\<forall>(k, q) \<in> set ps. \<forall>w. dget d k = Some w \<longrightarrow>
           (\<exists>psd. q = JObj psd \<and> check_node w psd (key_path p k) = Inr ())))"
proof -
  have body: "(case dget d k of None \<Rightarrow> Inr ()
      | Some w \<Rightarrow> (case q of JObj psd \<Rightarrow> check_node w psd r
          | _ \<Rightarrow> Inl (SchemaMismatched r PropertyNotDict))) = Inr () \<longleftrightarrow>
      (\<forall>w. dget d k = Some w \<longrightarrow> (\<exists>psd. q = JObj psd \<and> check_node w psd r = Inr ()))" for k q r
    by (auto split: option.splits jval.splits)
  show ?thesis
    by (cases "schema_properties sd")
      (auto simp: check_object.simps res_bind_Inr_iff required_in_iff each_Inr_iff body split_beta
        dhas_dkeys [of d] simp del: each.simps)
qed

lemma admits_imp_checked: "admits sd v \<Longrightarrow> check_node v sd p = Inr ()"
proof (induction arbitrary: p rule: admits.induct)
  case (scalar sd v)
  then have "jget sd ''type'' \<noteq> JStr ''object''" "jget sd ''type'' \<noteq> JStr ''array''"
    by (auto simp: scalar_admits_def)
  with scalar show ?case by (simp add: check_node_scalar)
next
  case (array sd xs)
  then show ?case by (simp add: check_node_arr check_array_iff)
next
  case (object sd d ps)
  then show ?case by (simp add: check_node_obj check_object_iff) blast
qed

lemma checked_imp_admits: "check_node v sd p = Inr () \<Longrightarrow> admits sd v"
proof (induction v arbitrary: sd p rule: measure_induct_rule [of size])
  case (less v)
  consider (obj) "jget sd ''type'' = JStr ''object''" | (arr) "jget sd ''type'' = JStr ''array''"
    | (sc) "jget sd ''type'' \<noteq> JStr ''object''" "jget sd ''type'' \<noteq> JStr ''array''" by blast
  then show ?case
  proof cases
    case obj
    with less.prems obtain d where v: "v = JObj d" and ok: "check_object d sd p = Inr ()" and val: "value_ok sd v"
      by (auto simp: check_node_obj)
    from ok obtain ps where ps: "schema_properties sd = JObj ps"
      and closed: "closed_schema sd \<longrightarrow> ps \<noteq> [] \<longrightarrow> (\<forall>k. dhas d k \<longrightarrow> dhas ps k)"
      and props: "\<forall>(k, q) \<in> set ps. \<forall>w. dget d k = Some w \<longrightarrow>
           (\<exists>psd. q = JObj psd \<and> check_node w psd (key_path p k) = Inr ())" and req: "required_in sd d"
      by (auto simp: check_object_iff)
    have "\<exists>psd. q = JObj psd \<and> admits psd w" if "(k, q) \<in> set ps" "dget d k = Some w" for k q w
      using props that less.IH [of w] size_dget [OF that(2)] v by fastforce
    then show ?thesis
      unfolding v using val obj req closed unfolding v by (intro admits.object [OF _ _ _ ps]) auto
  next
    case arr
    with less.prems obtain xs where v: "v = JArr xs" and ok: "check_array xs sd p = Inr ()" and val: "value_ok sd v"
      by (auto simp: check_node_arr)
    have "admits items x" if "jget sd ''items'' = JObj items" "x \<in> set xs" for items x
      using ok that less.IH [of x items] size_arr_elem [OF that(2)] v
      by (auto simp: check_array_iff in_set_conv_nth)
    with ok arr val show ?thesis
      unfolding v by (intro admits.array) (auto simp: check_array_iff)
  next
    case sc
    with less.prems show ?thesis by (simp add: check_node_scalar admits.scalar)
  qed
qed

lemma check_node_iff: "check_node v sd p = Inr () \<longleftrightarrow> admits sd v"
  using admits_imp_checked checked_imp_admits by blast

section \<open>Schema files and their cache\<close>

text \<open>\<open>SchemaValidator\<close>: the texts of the schema directory, and the schemas read so far.\<close>

record schema_validator =
  va_dir :: "(string, string) dict"
  va_cache :: "(string, jdict) dict"

definition new_validator :: "(string, string) dict \<Rightarrow> schema_validator" where
  "new_validator dir = \<lparr>va_dir = dir, va_cache = []\<rparr>"

definition load_schema :: "string \<Rightarrow> schema_validator \<Rightarrow> (validation_error, jdict) res \<times> schema_validator" where
  "load_schema f va =
     (case dget (va_cache va) f of
        Some sd \<Rightarrow> (Inr sd, va)
      | None \<Rightarrow>
          (case dget (va_dir va) f of
             None \<Rightarrow> (Inl (SchemaMismatched f SchemaNotFound), va)
           | Some t \<Rightarrow>
               (case loads t of
                  None \<Rightarrow> (Inl JSONDecodeError, va)
                | Some (JObj sd) \<Rightarrow> (Inr sd, va\<lparr>va_cache := dput f sd (va_cache va)\<rparr>)
                | Some _ \<Rightarrow> (Inl (SchemaMismatched f SchemaRootNotObject), va))))"

definition validate_file :: "string \<Rightarrow> jval \<Rightarrow> schema_validator \<Rightarrow> (validation_error, unit) res \<times> schema_validator" where
  "validate_file f v va =
     (let (r, va') = load_schema f va in (res_bind r (\<lambda>sd. check_node v sd ''$''), va'))"

text \<open>What is cached is what the file holds.\<close>

definition cache_faithful :: "schema_validator \<Rightarrow> bool" where
  "cache_faithful va \<longleftrightarrow>
     (\<forall>f sd. dget (va_cache va) f = Some sd \<longrightarrow>
        (\<exists>t. dget (va_dir va) f = Some t \<and> loads t = Some (JObj sd)))"

definition schema_text :: "(string, string) dict \<Rightarrow> string \<Rightarrow> jdict \<Rightarrow> bool" where
  "schema_text dir f sd \<longleftrightarrow> (\<exists>t. dget dir f = Some t \<and> loads t = Some (JObj sd))"

lemma new_validator_faithful [simp]: "cache_faithful (new_validator dir)"
  by (simp add: cache_faithful_def new_validator_def)

lemma load_schema_faithful:
  assumes "cache_faithful va"
  shows "fst (load_schema f va) = Inr sd \<longleftrightarrow> schema_text (va_dir va) f sd"
    and "cache_faithful (snd (load_schema f va))"
    and "va_dir (snd (load_schema f va)) = va_dir va"
proof -
  have hit: "\<exists>t. dget (va_dir va) f = Some t \<and> loads t = Some (JObj sd)" if "dget (va_cache va) f = Some sd" for f sd
    using assms that by (simp add: cache_faithful_def)
  show "fst (load_schema f va) = Inr sd \<longleftrightarrow> schema_text (va_dir va) f sd"
    using hit [of f]
    by (cases "dget (va_cache va) f") (auto simp: load_schema_def schema_text_def split: option.splits jval.splits)
  show "cache_faithful (snd (load_schema f va))"
    using assms by (auto simp: load_schema_def cache_faithful_def dget_dput split: option.splits jval.splits)
  show "va_dir (snd (load_schema f va)) = va_dir va"
    by (simp add: load_schema_def split: option.splits jval.splits)
qed

lemma validate_file_faithful:
  assumes "cache_faithful va"
  shows "fst (validate_file f v va) = Inr () \<longleftrightarrow> (\<exists>sd. schema_text (va_dir va) f sd \<and> admits sd v)"
    and "cache_faithful (snd (validate_file f v va))"
    and "va_dir (snd (validate_file f v va)) = va_dir va"
  using load_schema_faithful [OF assms, of f]
  by (auto simp: validate_file_def split_beta res_bind_Inr_iff check_node_iff)

end
