(* ===== verification/Matrix_Verifier.thy ===== *)
theory Matrix_Verifier
  imports Json_Pretty Fault
begin

text \<open>
  \<^verbatim>\<open>core/matrix_verifier.py\<close>: the verifier of transitions. It follows the path of agents
  a governance policy allows, and, per correlation identifier, the order of the pipeline stages;
  a step out of order raises. The lemmas show that what it lets through is exactly the policy's
  path and, for every correlation, the stages in their order, whatever calls are refused in between.
\<close>

section \<open>The governance policy\<close>

record policy =
  po_path :: "string list"
  po_source :: string

definition agent_order :: "string list" where
  "agent_order = [''ISA'', ''SAS'', ''CRS'', ''BOA'']"

text \<open>\<^verbatim>\<open>xs.index(x)\<close>.\<close>

fun index_of :: "'a list \<Rightarrow> 'a \<Rightarrow> nat option" where
  "index_of [] x = None"
| "index_of (y # ys) x = (if y = x then Some 0 else map_option Suc (index_of ys x))"

definition expected_next :: "policy \<Rightarrow> string \<Rightarrow> string option" where
  "expected_next p a =
     (case index_of (po_path p) a of
        None \<Rightarrow> None
      | Some i \<Rightarrow> if i + 1 \<ge> length (po_path p) then None else Some (po_path p ! (i + 1)))"

text \<open>
  \<open>load_governance_policy\<close>; \<open>guide\<close> is the text of \<^verbatim>\<open>AGENT_GUIDE_LIST.md\<close>, when there
  is one, and \<open>source\<close> its path. Whether the repository is named in it makes no difference.
\<close>

definition load_governance_policy :: "string \<Rightarrow> string option \<Rightarrow> string option \<Rightarrow> policy" where
  "load_governance_policy source guide repository =
     (let default = \<lparr>po_path = agent_order, po_source = source\<rparr> in
      case guide of
        None \<Rightarrow> default
      | Some text1 \<Rightarrow>
          (case repository of
             None \<Rightarrow> default
           | Some name1 \<Rightarrow>
               (let marker = quote ''repository_name'' @ '':'' @ [CHR 0x22] @ name1 @ [CHR 0x22]
                in if name1 \<noteq> [] \<and> list_ex (contains marker) (splitlines text1)
                   then \<lparr>po_path = po_path default, po_source = source\<rparr> else default)))"

section \<open>The verifier\<close>

text \<open>The reasons of \<^verbatim>\<open>PipelineHaltException\<close>.\<close>

datatype halt =
    EmptyAgent
  | MissingArguments
  | WrongFirstAgent string
  | AfterTerminal string
  | WrongFromAgent string string
  | NoFurtherAgent string
  | WrongToAgent string string
  | UnknownStage string
  | OutOfOrder string string "string option"
  | InvalidTwinHash string
  | TraceIncomplete nat nat
  | ArtifactMissing
  | ArtifactNotJson
  | ArtifactNotBuilt

text \<open>\<open>mv_dump\<close> is the text of \<^verbatim>\<open>CRITICAL_MISALIGNMENT.json\<close>, written when a log directory is set.\<close>

record matrix_verifier =
  mv_policy :: policy
  mv_last_agent :: "string option"
  mv_audited :: "(string \<times> string) list"
  mv_has_logs :: bool
  mv_dump :: "string option"
  mv_last_index :: "(string, nat) dict"

definition new_verifier :: "policy option \<Rightarrow> bool \<Rightarrow> matrix_verifier" where
  "new_verifier p logs =
     \<lparr>mv_policy = (case p of None \<Rightarrow> \<lparr>po_path = agent_order, po_source = ''default''\<rparr> | Some q \<Rightarrow> q),
      mv_last_agent = None, mv_audited = [], mv_has_logs = logs, mv_dump = None, mv_last_index = []\<rparr>"

definition inflight :: "matrix_verifier \<Rightarrow> nat" where
  "inflight mv = length (mv_last_index mv)"

definition check_from :: "string \<Rightarrow> matrix_verifier \<Rightarrow> (halt, unit) res" where
  "check_from from_agent mv =
     (case mv_last_agent mv of
        None \<Rightarrow>
          (case po_path (mv_policy mv) of
             [] \<Rightarrow> Inr ()
           | first # _ \<Rightarrow> require (from_agent = first) (WrongFirstAgent from_agent))
      | Some prev \<Rightarrow>
          (case expected_next (mv_policy mv) prev of
             None \<Rightarrow> Inl (AfterTerminal prev)
           | Some e \<Rightarrow> require (from_agent = e) (WrongFromAgent e from_agent)))"

definition check_to :: "string \<Rightarrow> string \<Rightarrow> matrix_verifier \<Rightarrow> (halt, unit) res" where
  "check_to from_agent to_agent mv =
     (case expected_next (mv_policy mv) from_agent of
        None \<Rightarrow> Inl (NoFurtherAgent from_agent)
      | Some e \<Rightarrow> require (to_agent = e) (WrongToAgent e to_agent))"

definition verify_governance_transition ::
  "string \<Rightarrow> string \<Rightarrow> matrix_verifier \<Rightarrow> (halt, unit) res \<times> matrix_verifier" where
  "verify_governance_transition from_agent to_agent mv =
     (case res_bind (check_from from_agent mv) (\<lambda>_. check_to from_agent to_agent mv) of
        Inl e \<Rightarrow> (Inl e, mv)
      | Inr _ \<Rightarrow>
          (Inr (), mv\<lparr>mv_last_agent := Some from_agent, mv_audited := mv_audited mv @ [(from_agent, to_agent)]\<rparr>))"

definition opt_str :: "string option \<Rightarrow> jval" where
  "opt_str s = (case s of None \<Rightarrow> JNull | Some t \<Rightarrow> JStr t)"

definition verify_stage_transition ::
  "(halt \<Rightarrow> string) \<Rightarrow> string \<Rightarrow> string \<Rightarrow> jdict option \<Rightarrow> matrix_verifier
    \<Rightarrow> (halt, unit) res \<times> matrix_verifier" where
  "verify_stage_transition repr cid stage payload mv =
     (case index_of agent_order stage of
        None \<Rightarrow> (Inl (UnknownStage stage), mv)
      | Some observed_idx \<Rightarrow>
          (let prior = dget (mv_last_index mv) cid;
               expected_idx = (case prior of None \<Rightarrow> 0 | Some i \<Rightarrow> i + 1)
           in if observed_idx \<noteq> expected_idx then
                (let expected = (if expected_idx < length agent_order then Some (agent_order ! expected_idx) else None);
                     exc = OutOfOrder cid stage expected;
                     state = [(''pipeline_state'', JStr ''DEAD_HALT''), (''correlation_id'', JStr cid),
                       (''observed_stage'', JStr stage), (''expected_stage'', opt_str expected),
                       (''last_index'', JInt (case prior of None \<Rightarrow> -1 | Some i \<Rightarrow> int i)),
                       (''observed_index'', JInt (int observed_idx)),
                       (''payload'', case payload of Some (x # xs) \<Rightarrow> JObj (x # xs) | _ \<Rightarrow> JNull)]
                 in (Inl exc,
                     if mv_has_logs mv then mv\<lparr>mv_dump := Some (file_json (critical_misalignment state (repr exc)))\<rparr> else mv))
              else if stage = ''BOA'' then (Inr (), mv\<lparr>mv_last_index := dpop cid (dput cid observed_idx (mv_last_index mv))\<rparr>)
              else (Inr (), mv\<lparr>mv_last_index := dput cid observed_idx (mv_last_index mv)\<rparr>)))"

text \<open>\<open>verify_transition\<close> with its optional arguments; an empty agent name counts as missing.\<close>

definition given :: "string option \<Rightarrow> bool" where
  "given a \<longleftrightarrow> a \<noteq> None \<and> a \<noteq> Some []"

definition verify_transition ::
  "(halt \<Rightarrow> string) \<Rightarrow> string option \<Rightarrow> string option \<Rightarrow> string option \<Rightarrow> string option \<Rightarrow> jdict option
    \<Rightarrow> matrix_verifier \<Rightarrow> (halt, unit) res \<times> matrix_verifier" where
  "verify_transition repr from_agent to_agent cid stage payload mv =
     (if from_agent \<noteq> None \<or> to_agent \<noteq> None then
        (if \<not> given from_agent \<or> \<not> given to_agent then (Inl EmptyAgent, mv)
         else verify_governance_transition (the from_agent) (the to_agent) mv)
      else
        (case (cid, stage) of
           (Some c, Some s) \<Rightarrow> verify_stage_transition repr c s payload mv
         | _ \<Rightarrow> (Inl MissingArguments, mv)))"

text \<open>
  The pattern \<^verbatim>\<open>^[0-9a-f]{8}$\<close> without regard to case; its end also matches before one
  final line feed.
\<close>

definition is_hex_char :: "char \<Rightarrow> bool" where
  "is_hex_char c \<longleftrightarrow> (let n = of_char c :: nat in 48 \<le> n \<and> n \<le> 57 \<or> 97 \<le> n \<and> n \<le> 102 \<or> 65 \<le> n \<and> n \<le> 70)"

definition is_hex32 :: "string \<Rightarrow> bool" where
  "is_hex32 s \<longleftrightarrow>
     (let t = (if length s = 9 \<and> last s = CHR 0x0A then butlast s else s)
      in length t = 8 \<and> list_all is_hex_char t)"

definition verify_twin_hash :: "string \<Rightarrow> (halt, unit) res" where
  "verify_twin_hash token = require (is_hex32 token) (InvalidTwinHash token)"

definition validate_trace_complete :: "matrix_verifier \<Rightarrow> (halt, unit) res" where
  "validate_trace_complete mv =
     (let path = po_path (mv_policy mv) in
      if length path < 2 then Inr ()
      else require (length (mv_audited mv) = length path - 1) (TraceIncomplete (length path - 1) (length (mv_audited mv))))"

text \<open>
  \<open>write_telemetry_trace\<close>: the text of \<^verbatim>\<open>TELEMETRY_TRACE.json\<close>; \<open>artifact\<close> is the text of the
  artifact file, when it exists.
\<close>

definition hop_json :: "string \<times> string \<Rightarrow> jval" where
  "hop_json h = JObj [(''from'', JStr (fst h)), (''to'', JStr (snd h))]"

definition write_telemetry_trace ::
  "string \<Rightarrow> string option \<Rightarrow> jval list \<Rightarrow> jval list \<Rightarrow> string option \<Rightarrow> matrix_verifier \<Rightarrow> (halt, string) res" where
  "write_telemetry_trace artifact_path artifact micro_log handshake_telemetry repository mv =
     (case artifact of
        None \<Rightarrow> Inl ArtifactMissing
      | Some t \<Rightarrow>
          (case loads t of
             None \<Rightarrow> Inl ArtifactNotJson
           | Some (JObj d) \<Rightarrow>
               if \<not> eq_str (jget d ''status'') ''built'' then Inl ArtifactNotBuilt
               else res_bind (validate_trace_complete mv)
                 (\<lambda>_. Inr (file_json (JObj
                    [(''artifact_path'', JStr artifact_path), (''repository_name'', opt_str repository),
                     (''governance_source'', JStr (po_source (mv_policy mv))),
                     (''allowed_path'', JArr (map JStr (po_path (mv_policy mv)))),
                     (''audited_path'', JArr (map hop_json (mv_audited mv))),
                     (''handshake_telemetry'', JArr handshake_telemetry), (''micro_log'', JArr micro_log)])))
           | Some _ \<Rightarrow> Inl ArtifactNotBuilt))"

section \<open>The audited path\<close>

definition hops :: "'a list \<Rightarrow> ('a \<times> 'a) list" where
  "hops path = zip path (tl path)"

lemma hops_nth: "n < length path - 1 \<Longrightarrow> n < length (hops path) \<and> hops path ! n = (path ! n, path ! Suc n)"
  by (simp add: hops_def nth_tl)

lemma index_of_nth: "distinct xs \<Longrightarrow> i < length xs \<Longrightarrow> index_of xs (xs ! i) = Some i"
  by (induction xs arbitrary: i) (auto simp: nth_Cons split: nat.splits)

lemma index_of_Some: "index_of xs x = Some i \<Longrightarrow> i < length xs \<and> xs ! i = x"
  by (induction xs arbitrary: i) (auto split: if_splits)

lemma expected_next_nth:
  "distinct (po_path p) \<Longrightarrow> i < length (po_path p) \<Longrightarrow>
    expected_next p (po_path p ! i) = (if Suc i < length (po_path p) then Some (po_path p ! Suc i) else None)"
  by (auto simp: expected_next_def index_of_nth)

text \<open>The audited hops are the first hops of the path, and the last agent is the source of the latest.\<close>

definition on_path :: "matrix_verifier \<Rightarrow> bool" where
  "on_path mv \<longleftrightarrow>
     (let path = po_path (mv_policy mv); n = length (mv_audited mv)
      in n \<le> length path - 1 \<and> mv_audited mv = take n (hops path) \<and>
         mv_last_agent mv = (if n = 0 then None else Some (path ! (n - 1))))"

lemma new_verifier_on_path [simp]: "on_path (new_verifier p logs)"
  by (simp add: on_path_def new_verifier_def)

lemma governance_transition_next:
  assumes "on_path mv" and "distinct (po_path (mv_policy mv))"
    and "verify_governance_transition a b mv = (Inr (), mv')"
  shows "length (mv_audited mv) < length (po_path (mv_policy mv)) - 1 \<and>
    (a, b) = hops (po_path (mv_policy mv)) ! length (mv_audited mv) \<and>
    mv' = mv\<lparr>mv_last_agent := Some a, mv_audited := mv_audited mv @ [(a, b)]\<rparr>"
proof -
  let ?path = "po_path (mv_policy mv)" and ?n = "length (mv_audited mv)"
  from assms(3) have from1: "check_from a mv = Inr ()" and to1: "check_to a b mv = Inr ()"
    and mv': "mv' = mv\<lparr>mv_last_agent := Some a, mv_audited := mv_audited mv @ [(a, b)]\<rparr>"
    by (auto simp: verify_governance_transition_def res_bind_Inr_iff split: sum.splits)
  from to1 have next1: "expected_next (mv_policy mv) a = Some b"
    by (auto simp: check_to_def split: option.splits)
  have a: "?n < length ?path \<and> a = ?path ! ?n"
  proof (cases "?n = 0")
    case True
    with assms(1) have "mv_last_agent mv = None" by (simp add: on_path_def Let_def)
    with from1 True next1 show ?thesis
      by (cases ?path) (auto simp: check_from_def expected_next_def)
  next
    case False
    with assms(1) have last1: "mv_last_agent mv = Some (?path ! (?n - 1))" and n: "?n \<le> length ?path - 1"
      by (auto simp: on_path_def Let_def)
    from False n have "?n - 1 < length ?path" by arith
    from expected_next_nth [OF assms(2) this] False from1 last1 show ?thesis
      by (auto simp: check_from_def split: if_splits)
  qed
  with expected_next_nth [OF assms(2), of ?n] next1 have b: "Suc ?n < length ?path" "b = ?path ! Suc ?n"
    by (auto split: if_splits)
  with hops_nth [of ?n ?path] a mv' show ?thesis by simp
qed

lemma governance_transition_on_path:
  assumes "on_path mv" and "distinct (po_path (mv_policy mv))"
  shows "on_path (snd (verify_governance_transition a b mv))"
proof (cases "fst (verify_governance_transition a b mv)")
  case (Inl e)
  then have "snd (verify_governance_transition a b mv) = mv"
    by (auto simp: verify_governance_transition_def split: sum.splits)
  with assms(1) show ?thesis by simp
next
  case (Inr u)
  let ?mv = "snd (verify_governance_transition a b mv)"
  from Inr have ok: "verify_governance_transition a b mv = (Inr (), ?mv)" by (simp add: prod_eq_iff)
  from governance_transition_next [OF assms ok] assms(1)
    hops_nth [of "length (mv_audited mv)" "po_path (mv_policy mv)"]
  show ?thesis by (auto simp: on_path_def Let_def take_Suc_conv_app_nth)
qed

lemma governance_transition_policy [simp]:
  "mv_policy (snd (verify_governance_transition a b mv)) = mv_policy mv"
  by (simp add: verify_governance_transition_def split: sum.splits)

lemma stage_transition_frame [simp]:
  "mv_policy (snd (verify_stage_transition repr c s payload mv)) = mv_policy mv"
  "mv_audited (snd (verify_stage_transition repr c s payload mv)) = mv_audited mv"
  "mv_last_agent (snd (verify_stage_transition repr c s payload mv)) = mv_last_agent mv"
  by (simp_all add: verify_stage_transition_def Let_def split: option.splits)

lemma complete_iff:
  assumes "on_path mv"
  shows "validate_trace_complete mv = Inr () \<longleftrightarrow> mv_audited mv = hops (po_path (mv_policy mv))"
proof -
  let ?path = "po_path (mv_policy mv)" and ?n = "length (mv_audited mv)"
  have len: "length (hops ?path) = length ?path - 1" by (simp add: hops_def)
  from assms have n: "?n \<le> length ?path - 1" "mv_audited mv = take ?n (hops ?path)"
    by (simp_all add: on_path_def Let_def)
  show ?thesis
  proof (cases "length ?path < 2")
    case True
    with n len show ?thesis by (simp add: validate_trace_complete_def)
  next
    case False
    have "mv_audited mv = hops ?path \<longleftrightarrow> ?n = length (hops ?path)" using n(2) by (metis order_refl take_all)
    with False len show ?thesis by (simp add: validate_trace_complete_def Let_def)
  qed
qed

text \<open>A verifier that is only asked about governance transitions or stages.\<close>

type_synonym transition_call = "string option \<times> string option \<times> string option \<times> string option \<times> jdict option"

definition transition_call :: "(halt \<Rightarrow> string) \<Rightarrow> matrix_verifier \<Rightarrow> transition_call \<Rightarrow> matrix_verifier" where
  "transition_call repr mv c = (case c of (a, b, cid, stage, payload) \<Rightarrow> snd (verify_transition repr a b cid stage payload mv))"

lemma transition_call_on_path:
  assumes "on_path mv" and "distinct (po_path (mv_policy mv))"
  shows "on_path (transition_call repr mv c) \<and> mv_policy (transition_call repr mv c) = mv_policy mv"
proof -
  obtain a b cid stage payload where c: "c = (a, b, cid, stage, payload)" by (cases c) auto
  have "on_path (snd (verify_stage_transition repr i s payload mv))" for i s
    using assms(1) by (simp add: on_path_def)
  with assms governance_transition_on_path show ?thesis
    by (auto simp: c transition_call_def verify_transition_def split: option.splits)
qed

section \<open>The order of stages\<close>

text \<open>
  The stages accepted so far for each correlation, over a run of stage calls. The index is the
  number of accepted stages of the current round, less one.
\<close>

fun accepted :: "(halt \<Rightarrow> string) \<Rightarrow> matrix_verifier \<Rightarrow> (string \<times> string \<times> jdict option) list \<Rightarrow> (string \<times> string) list" where
  "accepted repr mv [] = []"
| "accepted repr mv ((cid, stage, payload) # cs) =
     (case verify_stage_transition repr cid stage payload mv of
        (Inl e, mv') \<Rightarrow> accepted repr mv' cs
      | (Inr _, mv') \<Rightarrow> (cid, stage) # accepted repr mv' cs)"

definition stages_of :: "string \<Rightarrow> (string \<times> string) list \<Rightarrow> string list" where
  "stages_of cid acc = map snd (filter (\<lambda>a. fst a = cid) acc)"

definition round_position :: "matrix_verifier \<Rightarrow> string \<Rightarrow> nat" where
  "round_position mv cid = (case dget (mv_last_index mv) cid of None \<Rightarrow> 0 | Some i \<Rightarrow> Suc i)"

text \<open>The stage at position \<open>n\<close> of the endless repetition of the order.\<close>

definition nth_stage :: "nat \<Rightarrow> string" where
  "nth_stage n = agent_order ! (n mod 4)"

definition index_wf :: "matrix_verifier \<Rightarrow> bool" where
  "index_wf mv \<longleftrightarrow> wf_dict (mv_last_index mv) \<and> (\<forall>cid. round_position mv cid < 4)"

lemma index_of_order: "index_of agent_order s = Some i \<longleftrightarrow> i < 4 \<and> s = agent_order ! i"
proof -
  have "distinct agent_order" "length agent_order = 4" by (simp_all add: agent_order_def)
  with index_of_Some [of agent_order s i] index_of_nth [of agent_order i] show ?thesis by auto
qed

lemma order_BOA: "i < 4 \<Longrightarrow> agent_order ! i = ''BOA'' \<longleftrightarrow> i = 3"
  by (auto simp: agent_order_def less_Suc_eq numeral_nat nth_Cons split: nat.splits)

lemma stage_transition_cases:
  assumes "index_wf mv"
  shows "(fst (verify_stage_transition repr cid stage payload mv) \<noteq> Inr () \<and>
      mv_last_index (snd (verify_stage_transition repr cid stage payload mv)) = mv_last_index mv) \<or>
    (fst (verify_stage_transition repr cid stage payload mv) = Inr () \<and>
      stage = nth_stage (round_position mv cid) \<and>
      (\<forall>c. round_position (snd (verify_stage_transition repr cid stage payload mv)) c =
         (if c = cid then Suc (round_position mv cid) mod 4 else round_position mv c)))"
proof (cases "index_of agent_order stage")
  case None
  then show ?thesis by (simp add: verify_stage_transition_def)
next
  case (Some i)
  let ?p = "round_position mv cid"
  have p: "(case dget (mv_last_index mv) cid of None \<Rightarrow> 0 | Some i \<Rightarrow> i + 1) = ?p"
    by (simp add: round_position_def split: option.split)
  from assms have "?p < 4" "wf_dict (mv_last_index mv)" by (simp_all add: index_wf_def)
  from Some have i: "i < 4" "stage = agent_order ! i" by (simp_all add: index_of_order)
  show ?thesis
  proof (cases "i = ?p")
    case False
    with Some p show ?thesis by (simp add: verify_stage_transition_def Let_def)
  next
    case True
    with i order_BOA [of i] Some p \<open>wf_dict _\<close> show ?thesis
      by (cases "i = 3")
        (auto simp: verify_stage_transition_def Let_def nth_stage_def round_position_def dget_dput dict.lookup_remove)
  qed
qed

lemma stage_transition_wf:
  assumes "index_wf mv"
  shows "index_wf (snd (verify_stage_transition repr cid stage payload mv))"
proof -
  let ?mv = "snd (verify_stage_transition repr cid stage payload mv)"
  have "wf_dict (mv_last_index ?mv)"
    using assms by (auto simp: index_wf_def verify_stage_transition_def Let_def split: option.splits)
  moreover have "round_position ?mv c < 4" for c
    using stage_transition_cases [OF assms, of repr cid stage payload] assms
    by (auto simp: index_wf_def round_position_def)
  ultimately show ?thesis by (simp add: index_wf_def)
qed

lemma accepted_in_order:
  assumes "index_wf mv"
  shows "stages_of c (accepted repr mv cs) =
    map (\<lambda>i. nth_stage (round_position mv c + i)) [0..<length (stages_of c (accepted repr mv cs))]"
  using assms
proof (induction cs arbitrary: mv)
  case Nil
  then show ?case by (simp add: stages_of_def)
next
  case (Cons x cs)
  obtain cid stage payload where x: "x = (cid, stage, payload)" by (cases x) auto
  let ?mv = "snd (verify_stage_transition repr cid stage payload mv)"
  note IH = Cons.IH [OF stage_transition_wf [OF Cons.prems, of repr cid stage payload]]
  from stage_transition_cases [OF Cons.prems, of repr cid stage payload]
  show ?case
  proof
    assume rej: "fst (verify_stage_transition repr cid stage payload mv) \<noteq> Inr () \<and> mv_last_index ?mv = mv_last_index mv"
    then obtain e mv' where vt: "verify_stage_transition repr cid stage payload mv = (Inl e, mv')"
      by (cases "verify_stage_transition repr cid stage payload mv"; cases "fst (verify_stage_transition repr cid stage payload mv)") auto
    then have acc: "accepted repr mv (x # cs) = accepted repr ?mv cs" by (simp add: x)
    have "round_position ?mv c = round_position mv c" using rej by (simp add: round_position_def)
    then show ?case using IH unfolding acc by simp
  next
    assume ok: "fst (verify_stage_transition repr cid stage payload mv) = Inr () \<and> stage = nth_stage (round_position mv cid) \<and>
      (\<forall>c. round_position ?mv c = (if c = cid then Suc (round_position mv cid) mod 4 else round_position mv c))"
    then obtain mv' where vt: "verify_stage_transition repr cid stage payload mv = (Inr (), mv')"
      by (cases "verify_stage_transition repr cid stage payload mv") simp
    then have acc: "accepted repr mv (x # cs) = (cid, stage) # accepted repr mv' cs" by (simp add: x)
    let ?ss = "stages_of c (accepted repr mv' cs)"
    from IH vt have ss: "?ss = map (\<lambda>i. nth_stage (round_position mv' c + i)) [0..<length ?ss]" by simp
    from ok vt have stage: "stage = nth_stage (round_position mv cid)"
      and pos: "round_position mv' c = (if c = cid then Suc (round_position mv cid) mod 4 else round_position mv c)" by auto
    show ?case
    proof (cases "c = cid")
      case False
      with acc have "stages_of c (accepted repr mv (x # cs)) = ?ss" by (simp add: stages_of_def)
      with ss pos False show ?thesis by simp
    next
      case True
      with acc have all: "stages_of c (accepted repr mv (x # cs)) = stage # ?ss" by (simp add: stages_of_def)
      have "nth_stage (Suc (round_position mv cid) mod 4 + i) = nth_stage (round_position mv cid + Suc i)" for i
        by (simp add: nth_stage_def mod_add_left_eq)
      with pos True have "(\<lambda>i. nth_stage (round_position mv' c + i)) = (\<lambda>i. nth_stage (round_position mv c + i)) \<circ> Suc"
        by (simp add: fun_eq_iff)
      with ss have "?ss = map (\<lambda>i. nth_stage (round_position mv c + i)) [Suc 0..<Suc (length ?ss)]"
        by (metis map_map map_Suc_upt)
      with all stage True show ?thesis by (simp add: upt_conv_Cons del: upt_Suc)
    qed
  qed
qed

section \<open>Properties\<close>

text \<open>under any sequence of calls, accepted or refused, the audited path of a verifier is the
  beginning of the path its policy allows, and the trace is complete exactly when all of it was audited.\<close>

theorem audited_path_is_policy_path:
  assumes "distinct (po_path p)"
  shows "mv_audited (foldl (transition_call repr) (new_verifier (Some p) logs) cs) =
      take (length (mv_audited (foldl (transition_call repr) (new_verifier (Some p) logs) cs))) (hops (po_path p)) \<and>
    (validate_trace_complete (foldl (transition_call repr) (new_verifier (Some p) logs) cs) = Inr () \<longleftrightarrow>
      mv_audited (foldl (transition_call repr) (new_verifier (Some p) logs) cs) = hops (po_path p))"
proof -
  let ?ok = "\<lambda>mv. on_path mv \<and> mv_policy mv = p"
  have "?ok (foldl (transition_call repr) (new_verifier (Some p) logs) cs)"
  proof (rule foldl_invariant)
    show "?ok (new_verifier (Some p) logs)" by simp (simp add: new_verifier_def)
    show "?ok (transition_call repr mv c)" if "?ok mv" for mv c
      using transition_call_on_path [of mv repr c] that assms by simp
  qed
  then show ?thesis using complete_iff by (auto simp: on_path_def Let_def)
qed

theorem audited_path_is_policy_path_witness:
  "mv_audited (foldl (transition_call (\<lambda>_. [])) (new_verifier (Some \<lparr>po_path = [''A'', ''B''], po_source = []\<rparr>) False)
     [(Some ''B'', Some ''A'', None, None, None), (Some ''A'', Some ''B'', None, None, None)]) = [(''A'', ''B'')]"
  using audited_path_is_policy_path [of "\<lparr>po_path = [''A'', ''B''], po_source = []\<rparr>" "\<lambda>_. []" False
      "[(Some ''B'', Some ''A'', None, None, None), (Some ''A'', Some ''B'', None, None, None)]"]
  by (simp add: transition_call_def verify_transition_def verify_governance_transition_def check_from_def
      check_to_def new_verifier_def expected_next_def given_def)

text \<open>for every correlation identifier the stages a verifier accepts are, in this order and again
  from the start after the last, ISA, SAS, CRS and BOA, however the calls of different correlations interleave.\<close>

theorem stages_accepted_in_order:
  "stages_of c (accepted repr (new_verifier p logs) cs) =
    map nth_stage [0..<length (stages_of c (accepted repr (new_verifier p logs) cs))]"
proof -
  have "index_wf (new_verifier p logs)" "round_position (new_verifier p logs) c = 0"
    by (simp_all add: index_wf_def round_position_def new_verifier_def)
  with accepted_in_order [of "new_verifier p logs" c repr cs] show ?thesis by simp
qed

end
