(* ===== verification/Twin_Pipeline.thy ===== *)
theory Twin_Pipeline
  imports Cache Validator Matrix_Verifier
begin

text \<open>
  \<^verbatim>\<open>HandshakePipeline\<close> and \<^verbatim>\<open>TwinAuditor\<close> of \<^verbatim>\<open>core/handshake.py\<close>: seven concurrent tasks
  joined by six queues. Agents (ISA, SAS, CRS, BOA) run through the stage cache; between two agents an
  auditor validates the packet against its schema file, checks its hash and signs it off. Each
  task is cut where it waits, at the reading of its queue and at its stage call, and its steps
  interleave with those of the others.

  The tasks are numbered as the code lists them, agents even and auditors odd; queue \<open>k\<close> is written
  by task \<open>k\<close> and read by task \<open>k + 1\<close>, and \<open>None\<close> is its stop mark.
\<close>

section \<open>The auditors\<close>

datatype twin_error =
    Schema_Error validation_error
  | Hash_Mismatch string string
  | Twin_Halt halt
  | No_Clearance
  | Stage_Error "string cache_error"
  | Not_A_Dict

definition twin_hash :: "string \<Rightarrow> string \<Rightarrow> string \<Rightarrow> jval \<Rightarrow> string" where
  "twin_hash from_agent to_agent schema_file v =
     fnv1a_32 (from_agent @ ''->'' @ to_agent @ '':'' @ schema_file @ '':'' @ dumps v)"

definition sign_off ::
  "string \<Rightarrow> jval \<Rightarrow> string \<Rightarrow> string \<Rightarrow> schema_validator \<Rightarrow> (twin_error, string) res \<times> schema_validator" where
  "sign_off schema_file packet from_agent to_agent va =
     (case validate_file schema_file packet va of
        (Inl e, va') \<Rightarrow> (Inl (Schema_Error e), va')
      | (Inr _, va') \<Rightarrow>
          (case packet of
             JObj d \<Rightarrow>
               (let provided = jget d ''handshake_hash'';
                    h = twin_hash from_agent to_agent schema_file (JObj (dpop ''handshake_hash'' d))
                in if provided \<noteq> JNull \<and> \<not> eq_str provided h
                   then (Inl (Hash_Mismatch from_agent to_agent), va') else (Inr h, va'))
           | _ \<Rightarrow> (Inl Not_A_Dict, va')))"

section \<open>What the tasks do\<close>

text \<open>
  The office the pipeline runs in: its inputs, and what agents, clocks and files answer.
  \<open>of_agent k args kwargs\<close> is the outcome of the sandboxed call of the agent of task \<open>k\<close>,
  \<open>of_meta k\<close> its metadata, \<open>of_now k\<close> the time its cache entry is stamped with, \<open>of_item k\<close> the
  identity of the packet it returns; \<open>of_tracked\<close> tells whether a telemetry tracker is attached,
  and \<open>of_artifact\<close> reads an artifact file once the run is over.
\<close>

record office =
  of_source :: string
  of_repository :: "string option"
  of_files :: "(string, string) dict"
  of_logs :: string
  of_tracked :: bool
  of_meta :: "nat \<Rightarrow> jdict"
  of_agent :: "nat \<Rightarrow> jval list \<Rightarrow> jdict \<Rightarrow> (string, jval \<times> metrics option) res"
  of_now :: "nat \<Rightarrow> flt"
  of_item :: "nat \<Rightarrow> int"
  of_artifact :: "string \<Rightarrow> string option"
  of_repr :: "jval \<Rightarrow> string"
  of_error :: "twin_error + halt \<Rightarrow> string"

text \<open>What the tasks share: the cache, the tracer, the fingerprints, \<^verbatim>\<open>state\<close> and the validators.\<close>

record shared =
  sh_cache :: cache
  sh_tracer :: "tracer option"
  sh_fps :: "(string, string) dict"
  sh_state :: jdict
  sh_validator :: schema_validator
  sh_verifier :: "matrix_verifier option"

definition task_name :: "nat \<Rightarrow> string" where
  "task_name k = [''ISA'', ''ITA'', ''SAS'', ''ATA'', ''CRS'', ''RTA'', ''BOA''] ! k"

definition schema_file :: "nat \<Rightarrow> string" where
  "schema_file k = [''intake_handshake.json'', ''architecture_blueprint.json'', ''risk_clearance.json''] ! (k div 2)"

definition packet_key :: "nat \<Rightarrow> string" where
  "packet_key k = [''isa_packet'', ''sas_packet'', ''crs_packet'', ''artifact''] ! (k div 2)"

definition queue_label :: "nat \<Rightarrow> string" where
  "queue_label k = [''q_isa_out'', ''q_sas_in'', ''q_sas_out'', ''q_crs_in'', ''q_crs_out'', ''q_boa_in''] ! k"

definition correlation_id :: "office \<Rightarrow> string" where
  "correlation_id off = fnv1a_32 (if strip (of_source off) = [] then ''empty'' else strip (of_source off))"

definition call_args :: "nat \<Rightarrow> jval \<Rightarrow> jval list" where
  "call_args k v = (if k = 0 then [] else [v])"

definition call_kwargs :: "office \<Rightarrow> nat \<Rightarrow> shared \<Rightarrow> jdict" where
  "call_kwargs off k sh =
     (if k = 0 then [(''source_text'', JStr (of_source off)), (''repository_name'', opt_str (of_repository off))]
      else if k = 6 then
        [(''telemetry'', case dget (sh_state sh) ''telemetry'' of None \<Rightarrow> JArr [] | Some t \<Rightarrow> t)]
      else [])"

definition upstream :: "nat \<Rightarrow> shared \<Rightarrow> string list" where
  "upstream k sh =
     map (\<lambda>s. case dget (sh_fps sh) s of None \<Rightarrow> [] | Some fp \<Rightarrow> fp) (take (k div 2) stage_order)"

text \<open>The stage call of an agent, and what it leaves in the shared state.\<close>

definition agent_op :: "office \<Rightarrow> nat \<Rightarrow> jval \<Rightarrow> shared \<Rightarrow> (twin_error, jval) res \<times> shared" where
  "agent_op off k v sh =
     (let args = call_args k v; kwargs = call_kwargs off k sh;
          manifest = cache_manifest (of_meta off k) args kwargs (compute_workspace_file_hashes (of_files off)) (upstream k sh);
          (r, tr, c, ran) = run_stage (of_repr off) (of_now off k) (of_agent off k args kwargs) (task_name k) manifest
            (Some (correlation_id off)) (Some (correlation_id off)) (sh_tracer sh) (sh_cache sh);
          sh1 = sh\<lparr>sh_tracer := tr, sh_cache := c\<rparr>
      in (case r of
            Inl e \<Rightarrow> (Inl (Stage_Error e), sh1)
          | Inr (w, decision) \<Rightarrow>
              (let sh2 = sh1\<lparr>sh_fps := dput (task_name k) (cd_fingerprint decision) (sh_fps sh1),
                     sh_state := dput (packet_key k) w
                       (if k = 6 then dput ''pipeline_state'' (JStr ''COMPLETED'') (sh_state sh1) else sh_state sh1)\<rparr>
               in if k = 6 \<and> of_tracked off \<and> \<not> is_obj w then (Inl Not_A_Dict, sh2) else (Inr w, sh2))))"

definition hop_record :: "nat \<Rightarrow> string \<Rightarrow> jval" where
  "hop_record k h =
     JObj [(''from'', JStr (task_name (k - 1))), (''to'', JStr (task_name (k + 1))),
           (''schema'', JStr (schema_file k)), (''handshake_hash'', JStr h)]"

text \<open>\<^verbatim>\<open>state["telemetry"].append(...)\<close>.\<close>

definition add_hop :: "nat \<Rightarrow> string \<Rightarrow> jdict \<Rightarrow> jdict" where
  "add_hop k h st =
     dput ''telemetry'' (case jget st ''telemetry'' of JArr ts \<Rightarrow> JArr (ts @ [hop_record k h]) | v \<Rightarrow> v) st"

definition enter_hop :: "nat \<Rightarrow> shared \<Rightarrow> (twin_error, unit) res \<times> shared" where
  "enter_hop k sh =
     (case sh_verifier sh of
        None \<Rightarrow> (Inr (), sh)
      | Some mv \<Rightarrow>
          (case verify_transition (\<lambda>_. []) (Some (task_name (k - 1))) (Some (task_name (k + 1))) None None None mv of
             (Inl e, mv') \<Rightarrow> (Inl (Twin_Halt e), sh\<lparr>sh_verifier := Some mv'\<rparr>)
           | (Inr _, mv') \<Rightarrow> (Inr (), sh\<lparr>sh_verifier := Some mv'\<rparr>)))"

definition auditor_op :: "nat \<Rightarrow> jval \<Rightarrow> shared \<Rightarrow> (twin_error, jval) res \<times> shared" where
  "auditor_op k pkt sh =
     (case enter_hop k sh of
        (Inl e, sh1) \<Rightarrow> (Inl e, sh1)
      | (Inr _, sh1) \<Rightarrow>
          (case sign_off (schema_file k) pkt (task_name (k - 1)) (task_name (k + 1)) (sh_validator sh1) of
             (Inl e, va) \<Rightarrow> (Inl e, sh1\<lparr>sh_validator := va\<rparr>)
           | (Inr h, va) \<Rightarrow>
               (case (if sh_verifier sh1 = None then Inr () else verify_twin_hash h) of
                  Inl e \<Rightarrow> (Inl (Twin_Halt e), sh1\<lparr>sh_validator := va\<rparr>)
                | Inr _ \<Rightarrow> (Inr pkt, sh1\<lparr>sh_validator := va, sh_state := add_hop k h (sh_state sh1)\<rparr>))))"

definition twin_op :: "office \<Rightarrow> nat \<Rightarrow> jval \<Rightarrow> shared \<Rightarrow> (twin_error, jval) res \<times> shared" where
  "twin_op off k v sh = (if even k then agent_op off k v sh else auditor_op k v sh)"

section \<open>The tasks\<close>

text \<open>
  The reading of the clocks in a step: \<^verbatim>\<open>time.monotonic()\<close>, which measures waits and work, and the
  time stamp of the events it reports.
\<close>

record tick =
  ti_mono :: flt
  ti_utc :: string

datatype twin_phase =
    Waiting
  | Working jval flt
  | Ended
  | Returned jval
  | Raised twin_error
  | Cancelled

text \<open>
  \<open>tw_failed\<close> is the first exception of the six gathered tasks, \<open>tw_result\<close> what \<open>run\<close> returned or
  raised, \<open>tw_trace\<close> the trace file and \<open>tw_dump\<close> the fault dump.
\<close>

record twin =
  tw_shared :: shared
  tw_queue :: "nat \<Rightarrow> jval option list"
  tw_task :: "nat \<Rightarrow> twin_phase"
  tw_failed :: "twin_error option"
  tw_tracker :: "tracker option"
  tw_result :: "(twin_error, jval) res option"
  tw_trace :: "string option"
  tw_dump :: "string option"

definition set_task_phase :: "nat \<Rightarrow> twin_phase \<Rightarrow> twin \<Rightarrow> twin" where
  "set_task_phase k ph st = st\<lparr>tw_task := (tw_task st)(k := ph)\<rparr>"

definition push :: "nat \<Rightarrow> jval option \<Rightarrow> twin \<Rightarrow> twin" where
  "push k x st = st\<lparr>tw_queue := (tw_queue st)(k := tw_queue st k @ [x])\<rparr>"

definition raise_in :: "nat \<Rightarrow> twin_error \<Rightarrow> twin \<Rightarrow> twin" where
  "raise_in k e st =
     set_task_phase k (Raised e) (if k < 6 \<and> tw_failed st = None then st\<lparr>tw_failed := Some e\<rparr> else st)"

definition observe :: "tick \<Rightarrow> string \<Rightarrow> string \<Rightarrow> string \<Rightarrow> flt \<Rightarrow> string option \<Rightarrow> string option \<Rightarrow> int option \<Rightarrow> jdict
    \<Rightarrow> twin \<Rightarrow> twin" where
  "observe ti component event_type token latency src dst bytes extra st =
     st\<lparr>tw_tracker := map_option (\<lambda>t. snd (tracker_record
        (micro_event (ti_utc ti) component event_type token latency None src dst bytes extra) t)) (tw_tracker st)\<rparr>"

text \<open>The packet in queue \<open>k\<close> was made by agent \<open>k\<close>, or by the one whose auditor is \<open>k\<close>.\<close>

definition item_of :: "office \<Rightarrow> nat \<Rightarrow> int" where
  "item_of off k = of_item off (2 * (k div 2))"

definition mark :: "office \<Rightarrow> tick \<Rightarrow> nat \<Rightarrow> string \<Rightarrow> string \<Rightarrow> twin \<Rightarrow> twin" where
  "mark off ti k src dst st =
     st\<lparr>tw_tracker := map_option (mark_enqueue (ti_mono ti) (queue_label k) (item_of off k) (Some src) (Some dst)) (tw_tracker st)\<rparr>"

definition unmark :: "office \<Rightarrow> tick \<Rightarrow> nat \<Rightarrow> jval \<Rightarrow> twin \<Rightarrow> twin" where
  "unmark off ti k pkt st =
     (case tw_tracker st of
        None \<Rightarrow> st
      | Some t \<Rightarrow>
          (case pop_enqueue_latency_ms (ti_mono ti) (queue_label k) (item_of off k) t of
             (None, t1) \<Rightarrow> st\<lparr>tw_tracker := Some t1\<rparr>
           | (Some (wait_ms, mk), t1) \<Rightarrow>
               observe ti ''HandshakePipeline'' ''queue_wait'' ''-'' wait_ms (qm_src mk) (qm_dst mk)
                 (Some (int (estimate_payload_bytes pkt))) [(''queue_name'', JStr (queue_label k))]
                 (st\<lparr>tw_tracker := Some t1\<rparr>)))"

text \<open>A task reads its queue; the first one starts.\<close>

definition take_packet :: "office \<Rightarrow> tick \<Rightarrow> nat \<Rightarrow> twin \<Rightarrow> twin" where
  "take_packet off ti k st =
     (if k = 0 then set_task_phase 0 (Working JNull (ti_mono ti)) st
      else
        (case tw_queue st (k - 1) of
           [] \<Rightarrow> st
         | x # xs \<Rightarrow>
             (let st1 = st\<lparr>tw_queue := (tw_queue st)(k - 1 := xs)\<rparr> in
              case x of
                None \<Rightarrow> if k = 6 then raise_in 6 No_Clearance st1 else set_task_phase k Ended (push k None st1)
              | Some pkt \<Rightarrow> set_task_phase k (Working pkt (ti_mono ti)) (unmark off ti (k - 1) pkt st1))))"

definition elapsed_ms :: "flt \<Rightarrow> flt \<Rightarrow> flt" where
  "elapsed_ms start stop = flt_mult (flt_add stop (flt_neg start)) ''1000.0''"

definition last_hash :: "shared \<Rightarrow> string" where
  "last_hash sh =
     (case jget (sh_state sh) ''telemetry'' of
        JArr ts \<Rightarrow> (case last ts of JObj d \<Rightarrow> (case jget d ''handshake_hash'' of JStr h \<Rightarrow> h | _ \<Rightarrow> []) | _ \<Rightarrow> [])
      | _ \<Rightarrow> [])"

text \<open>The event a task reports when its work is done.\<close>

definition report :: "tick \<Rightarrow> nat \<Rightarrow> flt \<Rightarrow> jval \<Rightarrow> twin \<Rightarrow> twin" where
  "report ti k start v st =
     (let bytes = Some (int (estimate_payload_bytes v)); ms = elapsed_ms start (ti_mono ti) in
      if k = 0 then observe ti ''ISA'' ''agent_emit'' ''-'' ''0.0'' (Some ''ISA'') (Some ''SAS'') bytes [] st
      else if odd k then
        observe ti (task_name k) ''state_transition'' (last_hash (tw_shared st)) ms
          (Some (task_name (k - 1))) (Some (task_name (k + 1))) bytes [(''schema'', JStr (schema_file k))] st
      else if k = 6 then
        observe ti ''BOA'' ''build_artifact'' ''-'' ms (Some ''CRS'') (Some ''BOA'') bytes
          [(''artifact_path'', case v of JObj d \<Rightarrow> jget d ''artifact_path'' | _ \<Rightarrow> JNull)] st
      else observe ti (task_name k) ''agent_process'' ''-'' ms (Some (task_name k)) (Some (task_name (k + 2))) bytes [] st)"

definition hand_on :: "office \<Rightarrow> tick \<Rightarrow> nat \<Rightarrow> jval \<Rightarrow> twin \<Rightarrow> twin" where
  "hand_on off ti k v st =
     (let (src, dst) = (if odd k then (task_name (k - 1), task_name (k + 1)) else (task_name k, task_name (k + 2)));
          st1 = push k (Some v) (mark off ti k src dst st)
      in if k = 0 then set_task_phase 0 Ended (push 0 None st1) else set_task_phase k Waiting st1)"

text \<open>A task finishes its work on a packet.\<close>

definition finish_work :: "office \<Rightarrow> tick \<Rightarrow> nat \<Rightarrow> twin \<Rightarrow> twin" where
  "finish_work off ti k st =
     (case tw_task st k of
        Working v start \<Rightarrow>
          (case twin_op off k v (tw_shared st) of
             (Inl e, sh) \<Rightarrow> raise_in k e (st\<lparr>tw_shared := sh\<rparr>)
           | (Inr w, sh) \<Rightarrow>
               (let st1 = report ti k start w (st\<lparr>tw_shared := sh\<rparr>)
                in if k = 6 then set_task_phase 6 (Returned w) st1 else hand_on off ti k w st1))
      | _ \<Rightarrow> st)"

section \<open>The run\<close>

definition flush_tracer :: "twin \<Rightarrow> twin" where
  "flush_tracer st = st\<lparr>tw_shared := (tw_shared st)\<lparr>sh_tracer := map_option flush_trace (sh_tracer (tw_shared st))\<rparr>\<rparr>"

text \<open>The telemetry trace is attempted last; when it cannot be written this is only reported.\<close>

definition try_trace :: "office \<Rightarrow> jval \<Rightarrow> matrix_verifier \<Rightarrow> twin \<Rightarrow> (twin_error + halt, string) res" where
  "try_trace off artifact mv st =
     (case artifact of
        JObj d \<Rightarrow>
          (let path = (case jget d ''artifact_path'' of JStr p \<Rightarrow> p | _ \<Rightarrow> of_logs off @ ''/BUILD_ARTIFACT.json'');
               micro = (case tw_tracker st of None \<Rightarrow> [] | Some t \<Rightarrow> map JObj (tracker_snapshot t));
               telemetry = (case jget (sh_state (tw_shared st)) ''telemetry'' of JArr ts \<Rightarrow> ts | _ \<Rightarrow> [])
           in (case write_telemetry_trace path (of_artifact off path) micro telemetry (of_repository off) mv of
                 Inl e \<Rightarrow> Inl (Inr e)
               | Inr t \<Rightarrow> Inr t))
      | _ \<Rightarrow> Inl (Inl Not_A_Dict))"

definition write_trace :: "office \<Rightarrow> tick \<Rightarrow> jval \<Rightarrow> twin \<Rightarrow> twin" where
  "write_trace off ti artifact st =
     (case sh_verifier (tw_shared st) of
        None \<Rightarrow> st
      | Some mv \<Rightarrow>
          (case try_trace off artifact mv st of
             Inr t \<Rightarrow> st\<lparr>tw_trace := Some t\<rparr>
           | Inl e \<Rightarrow> observe ti ''HandshakePipeline'' ''telemetry_write_failed'' ''-'' ''0.0'' None None None
               [(''error'', JStr (of_error off e))] st))"

definition cancel :: "twin_phase \<Rightarrow> twin_phase" where
  "cancel ph = (case ph of Waiting \<Rightarrow> Cancelled | Working v t \<Rightarrow> Cancelled | _ \<Rightarrow> ph)"

definition complete_run :: "office \<Rightarrow> tick \<Rightarrow> jval \<Rightarrow> twin \<Rightarrow> twin" where
  "complete_run off ti artifact st =
     flush_tracer ((write_trace off ti artifact
       (observe ti ''HandshakePipeline'' ''pipeline_completed'' ''-'' ''0.0'' None None None [] st))
         \<lparr>tw_result := Some (Inr artifact)\<rparr>)"

definition halt_run :: "office \<Rightarrow> tick \<Rightarrow> twin_error \<Rightarrow> twin \<Rightarrow> twin" where
  "halt_run off ti e st =
     (let error = of_error off (Inl e);
          st1 = observe ti ''HandshakePipeline'' ''pipeline_error'' ''-'' ''0.0'' None None None [(''error'', JStr error)]
                  (st\<lparr>tw_task := cancel \<circ> tw_task st\<rparr>);
          s1 = dput ''pipeline_state'' (JStr ''DEAD_HALT'') (sh_state (tw_shared st1));
          s2 = (case tw_tracker st1 of None \<Rightarrow> s1 | Some t \<Rightarrow> dput ''micro_log'' (JArr (map JObj (tracker_snapshot t))) s1)
      in flush_tracer (st1\<lparr>tw_shared := (tw_shared st1)\<lparr>sh_state := s2\<rparr>,
           tw_dump := Some (file_json (critical_misalignment s2 error)), tw_result := Some (Inl e)\<rparr>))"

text \<open>\<^verbatim>\<open>gather(*tasks)\<close> raises the first exception at once; the build is awaited after it.\<close>

definition join_run :: "office \<Rightarrow> tick \<Rightarrow> twin \<Rightarrow> twin" where
  "join_run off ti st =
     (case tw_failed st of
        Some e \<Rightarrow> halt_run off ti e st
      | None \<Rightarrow>
          (case tw_task st 6 of
             Returned v \<Rightarrow> complete_run off ti v st
           | Raised e \<Rightarrow> halt_run off ti e st
           | _ \<Rightarrow> st))"

datatype twin_event = Take nat tick | Finish nat tick | Join tick

fun twin_step :: "office \<Rightarrow> twin_event \<Rightarrow> twin \<Rightarrow> twin" where
  "twin_step off (Take k ti) st = take_packet off ti k st"
| "twin_step off (Finish k ti) st = finish_work off ti k st"
| "twin_step off (Join ti) st = join_run off ti st"

fun is_working :: "twin_phase \<Rightarrow> bool" where
  "is_working (Working v t) = True" | "is_working _ = False"

fun is_over :: "twin_phase \<Rightarrow> bool" where
  "is_over (Returned v) = True" | "is_over (Raised e) = True" | "is_over _ = False"

text \<open>A step can be taken until the run is over.\<close>

fun enabled :: "twin \<Rightarrow> twin_event \<Rightarrow> bool" where
  "enabled st (Take k ti) \<longleftrightarrow>
     tw_result st = None \<and> k < 7 \<and> tw_task st k = Waiting \<and> (k = 0 \<or> tw_queue st (k - 1) \<noteq> [])"
| "enabled st (Finish k ti) \<longleftrightarrow> tw_result st = None \<and> k < 7 \<and> is_working (tw_task st k)"
| "enabled st (Join ti) \<longleftrightarrow>
     tw_result st = None \<and>
     (tw_failed st \<noteq> None \<or> (\<forall>k < 6. tw_task st k = Ended) \<and> is_over (tw_task st 6))"

definition new_twin :: "office \<Rightarrow> cache \<Rightarrow> schema_validator \<Rightarrow> matrix_verifier option \<Rightarrow> tracker \<Rightarrow> twin" where
  "new_twin off c va mv tk =
     \<lparr>tw_shared = \<lparr>sh_cache = c, sh_tracer = (case new_tracer 4096 of Inr t \<Rightarrow> Some t | Inl _ \<Rightarrow> None),
        sh_fps = [], sh_state = [(''pipeline_state'', JStr ''RUNNING''), (''telemetry'', JArr [])],
        sh_validator = va, sh_verifier = mv\<rparr>,
      tw_queue = (\<lambda>_. []), tw_task = (\<lambda>_. Waiting), tw_failed = None,
      tw_tracker = (if of_tracked off then Some tk else None), tw_result = None, tw_trace = None, tw_dump = None\<rparr>"

text \<open>The states reached from a state in a number of steps, in any order of the tasks.\<close>

inductive twin_reach :: "office \<Rightarrow> twin \<Rightarrow> nat \<Rightarrow> twin \<Rightarrow> bool" for off st0 where
  start: "twin_reach off st0 0 st0"
| step: "twin_reach off st0 n st \<Longrightarrow> enabled st ev \<Longrightarrow> twin_reach off st0 (Suc n) (twin_step off ev st)"

text \<open>The reference: the seven operations one after the other.\<close>

fun sequential :: "office \<Rightarrow> nat \<Rightarrow> shared \<Rightarrow> (twin_error, jval) res \<times> shared" where
  "sequential off 0 sh = (Inr JNull, sh)"
| "sequential off (Suc k) sh =
     (case sequential off k sh of
        (Inl e, sh1) \<Rightarrow> (Inl e, sh1)
      | (Inr v, sh1) \<Rightarrow> twin_op off k v sh1)"

section \<open>Telemetry does not interfere\<close>

text \<open>Everything but the tracker is the same before and after an event is recorded.\<close>

definition same_run :: "twin \<Rightarrow> twin \<Rightarrow> bool" where
  "same_run st st' \<longleftrightarrow>
     tw_shared st' = tw_shared st \<and> tw_queue st' = tw_queue st \<and> tw_task st' = tw_task st \<and>
     tw_failed st' = tw_failed st \<and> tw_result st' = tw_result st"

lemma same_run_observe [simp]: "same_run st (observe ti c e h l src dst b x st)"
  by (simp add: same_run_def observe_def)

lemma same_run_mark [simp]: "same_run st (mark off ti k src dst st)"
  by (simp add: same_run_def mark_def)

lemma same_run_unmark [simp]: "same_run st (unmark off ti k pkt st)"
  by (auto simp: same_run_def unmark_def observe_def split: option.splits prod.splits)

lemma same_run_report [simp]: "same_run st (report ti k t v st)"
  by (simp add: report_def Let_def)

lemma same_run_write_trace [simp]: "same_run st (write_trace off ti v st)"
  by (auto simp: same_run_def write_trace_def observe_def split: option.split sum.split)

lemma same_runD:
  assumes "same_run st st'"
  shows "tw_shared st' = tw_shared st" "tw_queue st' = tw_queue st" "tw_task st' = tw_task st"
    "tw_failed st' = tw_failed st" "tw_result st' = tw_result st"
  using assms by (simp_all add: same_run_def)

lemmas same_run_simps [simp] =
  same_runD [OF same_run_observe] same_runD [OF same_run_mark] same_runD [OF same_run_unmark]
  same_runD [OF same_run_report] same_runD [OF same_run_write_trace]

section \<open>Where a run stands\<close>

text \<open>
  The packet has passed tasks \<open>0 .. m - 1\<close> and the stop mark tasks \<open>0 .. s - 1\<close>; \<open>w\<close> is the packet in
  queue \<open>m - 1\<close>, when task \<open>m\<close> has not taken it yet.
\<close>

definition queued :: "nat \<Rightarrow> nat \<Rightarrow> jval option \<Rightarrow> nat \<Rightarrow> jval option list" where
  "queued m s w j =
     (if Suc j = m then (case w of None \<Rightarrow> [] | Some v \<Rightarrow> [Some v]) else []) @ (if Suc j = s then [None] else [])"

definition shape :: "nat \<Rightarrow> nat \<Rightarrow> jval option \<Rightarrow> twin \<Rightarrow> bool" where
  "shape m s w st \<longleftrightarrow>
     m \<le> 7 \<and> s \<le> m \<and> s \<le> 6 \<and> (0 < m \<longrightarrow> 0 < s) \<and>
     (\<forall>k < s. tw_task st k = Ended) \<and> (\<forall>k < 6. s \<le> k \<longrightarrow> k < m \<longrightarrow> tw_task st k = Waiting) \<and>
     (\<forall>k < 7. m < k \<longrightarrow> tw_task st k = Waiting) \<and> (\<forall>j < 6. tw_queue st j = queued m s w j)"

lemma shape_bounds: "shape m s w st \<Longrightarrow> m \<le> 7 \<and> s \<le> m \<and> s \<le> 6 \<and> (0 < m \<longrightarrow> 0 < s)"
  by (simp add: shape_def)

lemma shape_other: "shape m s w st \<Longrightarrow> k < 6 \<or> k < 7 \<and> m < 7 \<Longrightarrow> k \<noteq> m \<Longrightarrow> tw_task st k = Ended \<or> tw_task st k = Waiting"
  by (cases "k < s"; cases "k < m") (auto simp: shape_def)

lemma shape_queue: "shape m s w st \<Longrightarrow> j < 6 \<Longrightarrow> tw_queue st j = queued m s w j"
  by (simp add: shape_def)

text \<open>The stop mark moves on behind the packet.\<close>

lemma shape_stop:
  assumes "shape m s w st" and "0 < s" and "s < m" and "s < 6"
  shows "shape m (Suc s) w (take_packet off ti s st) \<and> tw_task (take_packet off ti s st) m = tw_task st m \<and>
    tw_shared (take_packet off ti s st) = tw_shared st \<and> tw_failed (take_packet off ti s st) = tw_failed st \<and>
    tw_result (take_packet off ti s st) = tw_result st \<and> tw_task (take_packet off ti s st) 6 = tw_task st 6"
proof -
  have "tw_queue st (s - 1) = [None]"
    using shape_queue [OF assms(1), of "s - 1"] assms(2-4) by (simp add: queued_def)
  then have eq: "take_packet off ti s st =
      set_task_phase s Ended (push s None (st\<lparr>tw_queue := (tw_queue st)(s - 1 := [])\<rparr>))"
    using assms(2,4) by (simp add: take_packet_def)
  show ?thesis
    unfolding eq using assms
    by (auto simp: shape_def set_task_phase_def push_def queued_def less_Suc_eq)
qed

text \<open>Which tasks can read their queue.\<close>

lemma take_cases:
  assumes "shape m s w st" and "enabled st (Take k ti)" and "m < 7 \<or> tw_task st 6 \<noteq> Waiting"
  shows "k = m \<and> m < 7 \<or> k = s \<and> 0 < s \<and> s < m \<and> s < 6"
proof (cases "k = m")
  case True
  with assms(2) show ?thesis by simp
next
  case False
  note b = shape_bounds [OF assms(1)]
  from assms(2) have k: "k < 7" "tw_task st k = Waiting" "k = 0 \<or> tw_queue st (k - 1) \<noteq> []" by simp_all
  have "k \<noteq> 0"
  proof
    assume "k = 0"
    with False b have "0 < s" by simp
    with assms(1) have "tw_task st 0 = Ended" by (simp add: shape_def)
    with k \<open>k = 0\<close> show False by simp
  qed
  with k have "tw_queue st (k - 1) \<noteq> []" by simp
  with shape_queue [OF assms(1), of "k - 1"] k(1) \<open>k \<noteq> 0\<close> False have "k = s" by (simp add: queued_def split: if_splits)
  moreover have "s \<noteq> 6" using assms(3) k(2) calculation False b by auto
  ultimately show ?thesis using False b \<open>k \<noteq> 0\<close> by auto
qed

section \<open>Every run is the sequential one\<close>

definition settled :: "office \<Rightarrow> shared \<Rightarrow> twin \<Rightarrow> bool" where
  "settled off sh0 st \<longleftrightarrow>
     (case sequential off 7 sh0 of (r, sh) \<Rightarrow>
        tw_result st = Some r \<and> sh_cache (tw_shared st) = sh_cache sh \<and> sh_fps (tw_shared st) = sh_fps sh \<and>
        sh_validator (tw_shared st) = sh_validator sh \<and> sh_verifier (tw_shared st) = sh_verifier sh \<and>
        (case r of
           Inl e \<Rightarrow> jget (sh_state (tw_shared st)) ''pipeline_state'' = JStr ''DEAD_HALT''
         | Inr v \<Rightarrow> sh_state (tw_shared st) = sh_state sh))"

inductive twin_at :: "office \<Rightarrow> shared \<Rightarrow> nat \<Rightarrow> twin \<Rightarrow> bool" for off sh0 where
  waiting: "m < 7 \<Longrightarrow> sequential off m sh0 = (Inr v, tw_shared st) \<Longrightarrow> shape m s (Some v) st \<Longrightarrow>
     tw_task st m = Waiting \<Longrightarrow> tw_failed st = None \<Longrightarrow> tw_result st = None \<Longrightarrow> n = 2 * m + (s - 1) \<Longrightarrow> twin_at off sh0 n st"
| working: "m < 7 \<Longrightarrow> sequential off m sh0 = (Inr v, tw_shared st) \<Longrightarrow> shape m s None st \<Longrightarrow>
     tw_task st m = Working v t \<Longrightarrow> tw_failed st = None \<Longrightarrow> tw_result st = None \<Longrightarrow> n = 2 * m + 1 + (s - 1) \<Longrightarrow> twin_at off sh0 n st"
| raised: "m < 7 \<Longrightarrow> sequential off 7 sh0 = (Inl e, tw_shared st) \<Longrightarrow> shape m s None st \<Longrightarrow>
     tw_task st m = Raised e \<Longrightarrow> tw_failed st = (if m < 6 then Some e else None) \<Longrightarrow> tw_result st = None \<Longrightarrow>
     n = 2 * m + 2 + (s - 1) \<Longrightarrow> twin_at off sh0 n st"
| returned: "sequential off 7 sh0 = (Inr v, tw_shared st) \<Longrightarrow> shape 7 s None st \<Longrightarrow>
     tw_task st 6 = Returned v \<Longrightarrow> tw_failed st = None \<Longrightarrow> tw_result st = None \<Longrightarrow> n = 14 + (s - 1) \<Longrightarrow> twin_at off sh0 n st"
| over: "settled off sh0 st \<Longrightarrow> n \<le> 20 \<Longrightarrow> twin_at off sh0 n st"

lemma sequential_stops:
  assumes "sequential off m sh0 = (Inr v, sh)" and "twin_op off m v sh = (Inl e, sh1)" and "m < j"
  shows "sequential off j sh0 = (Inl e, sh1)"
  using assms(3)
proof (induction j)
  case (Suc j)
  with assms(1,2) show ?case by (cases "m = j") auto
qed simp

lemma settled_complete:
  assumes "sequential off 7 sh0 = (Inr v, tw_shared st)"
  shows "settled off sh0 (complete_run off ti v st)"
  using assms by (simp add: settled_def complete_run_def flush_tracer_def)

lemma settled_halt:
  assumes "sequential off 7 sh0 = (Inl e, tw_shared st)"
  shows "settled off sh0 (halt_run off ti e st)"
  using assms by (simp add: settled_def halt_run_def flush_tracer_def Let_def jget_dput split: option.split)

lemma start_at: "twin_at off (tw_shared (new_twin off c va mv tk)) 0 (new_twin off c va mv tk)"
  by (rule twin_at.waiting [where m = 0 and s = 0 and v = JNull])
    (auto simp: new_twin_def shape_def queued_def)

text \<open>The task that has the packet takes it and finishes its work.\<close>

lemma take_at:
  assumes "shape m s (Some v) st" and "m < 7" and "tw_task st m = Waiting" and "m = 0 \<Longrightarrow> v = JNull"
  shows "shape m s None (take_packet off ti m st) \<and> tw_task (take_packet off ti m st) m = Working v (ti_mono ti) \<and>
    tw_shared (take_packet off ti m st) = tw_shared st \<and> tw_failed (take_packet off ti m st) = tw_failed st \<and>
    tw_result (take_packet off ti m st) = tw_result st"
proof (cases "m = 0")
  case True
  with assms show ?thesis
    by (auto simp: take_packet_def set_task_phase_def shape_def queued_def)
next
  case False
  let ?rest = "if m = s then [None] else []"
  have "tw_queue st (m - 1) = Some v # ?rest"
    using shape_queue [OF assms(1), of "m - 1"] assms(2) False by (simp add: queued_def)
  then have eq: "take_packet off ti m st = set_task_phase m (Working v (ti_mono ti))
      (unmark off ti (m - 1) v (st\<lparr>tw_queue := (tw_queue st)(m - 1 := ?rest)\<rparr>))"
    using False by (simp add: take_packet_def)
  show ?thesis
    unfolding eq using assms False by (auto simp: shape_def set_task_phase_def queued_def)
qed

lemma finish_shape:
  assumes "shape m s None st" and "m < 6"
  shows "shape (Suc m) (if m = 0 then 1 else s) (Some w) (hand_on off ti m w st) \<and>
    tw_task (hand_on off ti m w st) (Suc m) = Waiting"
  using assms
  by (auto simp: hand_on_def shape_def set_task_phase_def push_def queued_def split: prod.split if_splits)

lemma hand_on_frame [simp]:
  "tw_shared (hand_on off ti k v st) = tw_shared st" "tw_failed (hand_on off ti k v st) = tw_failed st"
  "tw_result (hand_on off ti k v st) = tw_result st"
  by (simp_all add: hand_on_def set_task_phase_def push_def Let_def split: prod.split)

lemma shape_same: "same_run st st' \<Longrightarrow> shape m s w st' = shape m s w st"
  by (simp add: shape_def same_run_def)

lemma shape_shared [simp]: "shape m s w (st\<lparr>tw_shared := sh\<rparr>) = shape m s w st"
  by (simp add: shape_def)

lemma raise_in_frame [simp]:
  "tw_shared (raise_in k e st) = tw_shared st" "tw_result (raise_in k e st) = tw_result st"
  "tw_task (raise_in k e st) k = Raised e"
  "tw_failed (raise_in k e st) = (if k < 6 \<and> tw_failed st = None then Some e else tw_failed st)"
  by (simp_all add: raise_in_def set_task_phase_def)

lemma raise_shape: "shape m s None st \<Longrightarrow> m < 7 \<Longrightarrow> shape m s None (raise_in m e st)"
  by (auto simp: shape_def raise_in_def set_task_phase_def)

text \<open>A task other than the holder of the packet neither works nor raises.\<close>

lemma finish_only:
  assumes "shape m s w st" and "enabled st (Finish k ti)" and "m < 7 \<or> tw_task st 6 = Returned v"
  shows "k = m \<and> m < 7"
proof -
  from assms(2) have k: "k < 7" "is_working (tw_task st k)" by simp_all
  show ?thesis
  proof (cases "m < 7")
    case True
    with shape_other [OF assms(1), of k] k show ?thesis by (cases "k = m") auto
  next
    case False
    with shape_bounds [OF assms(1)] have "m = 7" by simp
    with shape_other [OF assms(1), of k] k assms(3) show ?thesis by (cases "k = 6") auto
  qed
qed

lemma finish_at:
  assumes "m < 7" and "sequential off m sh0 = (Inr v, tw_shared st)" and "shape m s None st"
    and "tw_task st m = Working v t" and "tw_failed st = None" and "tw_result st = None" and "n = 2 * m + 1 + (s - 1)"
  shows "twin_at off sh0 (Suc n) (finish_work off ti m st)"
proof (cases "fst (twin_op off m v (tw_shared st))")
  case (Inl e)
  then obtain sh where op: "twin_op off m v (tw_shared st) = (Inl e, sh)" by (metis prod.collapse)
  then have eq: "finish_work off ti m st = raise_in m e (st\<lparr>tw_shared := sh\<rparr>)"
    using assms(4) by (simp add: finish_work_def)
  show ?thesis
    unfolding eq using assms sequential_stops [OF assms(2) op assms(1)]
    by (intro twin_at.raised [where m = m and s = s and e = e]) (simp_all add: raise_shape)
next
  case (Inr w)
  then obtain sh where op: "twin_op off m v (tw_shared st) = (Inr w, sh)" by (metis prod.collapse)
  with assms(2) have seq: "sequential off (Suc m) sh0 = (Inr w, sh)" by simp
  let ?st1 = "report ti m t w (st\<lparr>tw_shared := sh\<rparr>)"
  have shape1: "shape m s None ?st1" using assms(3) by (simp add: shape_same [OF same_run_report])
  show ?thesis
  proof (cases "m = 6")
    case True
    then have eq: "finish_work off ti m st = set_task_phase 6 (Returned w) ?st1"
      using assms(4) op by (simp add: finish_work_def)
    show ?thesis
      unfolding eq using assms seq shape1 True
      by (intro twin_at.returned [where s = s and v = w])
        (auto simp: shape_def set_task_phase_def queued_def eval_nat_numeral)
  next
    case False
    with assms(1) have m: "m < 6" by simp
    have eq: "finish_work off ti m st = hand_on off ti m w ?st1"
      using assms(4) op False by (simp add: finish_work_def)
    note b = shape_bounds [OF assms(3)]
    show ?thesis
      unfolding eq
      using assms seq m finish_shape [OF shape1 m, where off = off and ti = ti and w = w] b
      by (intro twin_at.waiting [where m = "Suc m" and s = "if m = 0 then 1 else s" and v = w]) auto
  qed
qed

lemma join_at:
  assumes "twin_at off sh0 n st" and "enabled st (Join ti)"
  shows "twin_at off sh0 (Suc n) (join_run off ti st)"
  using assms(1)
proof cases
  case (waiting m v s)
  from assms(2) waiting have "\<forall>k < 6. tw_task st k = Ended" "is_over (tw_task st 6)" by auto
  with waiting(1,4) show ?thesis by (cases "m = 6") auto
next
  case (working m v s t)
  from assms(2) working have "\<forall>k < 6. tw_task st k = Ended" "is_over (tw_task st 6)" by auto
  with working(1,4) show ?thesis by (cases "m = 6") auto
next
  case (raised m e s)
  then have "join_run off ti st = halt_run off ti e st"
    using assms(2) by (cases "m = 6") (auto simp: join_run_def)
  with raised(1,7) shape_bounds [OF raised(3)] settled_halt [OF raised(2)] show ?thesis
    by (auto intro: twin_at.over)
next
  case (returned v s)
  then have "join_run off ti st = complete_run off ti v st" by (simp add: join_run_def)
  with returned(6) shape_bounds [OF returned(2)] settled_complete [OF returned(1)] show ?thesis
    by (auto intro: twin_at.over)
next
  case over
  with assms(2) show ?thesis by (auto simp: settled_def split: prod.splits)
qed

lemma take_step_at:
  assumes "twin_at off sh0 n st" and "enabled st (Take k ti)"
  shows "twin_at off sh0 (Suc n) (take_packet off ti k st)"
  using assms(1)
proof cases
  case (waiting m v s)
  from take_cases [OF waiting(3) assms(2)] waiting(1) consider "k = m" | "k = s" "0 < s" "s < m" "s < 6" by blast
  then show ?thesis
  proof cases
    case 1
    have "v = JNull" if "m = 0" using waiting(2) that by simp
    from take_at [OF waiting(3,1,4) this, of off ti] waiting 1 show ?thesis
      by (intro twin_at.working [where m = m and s = s and v = v and t = "ti_mono ti"]) auto
  next
    case 2
    from shape_stop [OF waiting(3) 2(2-4), of off ti] waiting 2 show ?thesis
      by (intro twin_at.waiting [where m = m and s = "Suc s" and v = v]) auto
  qed
next
  case (working m v s t)
  from take_cases [OF working(3) assms(2)] working(1,4) assms(2) have k: "k = s" "0 < s" "s < m" "s < 6" by auto
  from shape_stop [OF working(3) k(2-4), of off ti] working k show ?thesis
    by (intro twin_at.working [where m = m and s = "Suc s" and v = v and t = t]) auto
next
  case (raised m e s)
  from take_cases [OF raised(3) assms(2)] raised(1,4) assms(2) have k: "k = s" "0 < s" "s < m" "s < 6" by auto
  from shape_stop [OF raised(3) k(2-4), of off ti] raised k show ?thesis
    by (intro twin_at.raised [where m = m and s = "Suc s" and e = e]) auto
next
  case (returned v s)
  from take_cases [OF returned(2) assms(2)] returned(3) have k: "k = s" "0 < s" "s < 7" "s < 6" by auto
  from shape_stop [OF returned(2) k(2-4), of off ti] returned k show ?thesis
    by (intro twin_at.returned [where s = "Suc s" and v = v]) auto
next
  case over
  with assms(2) show ?thesis by (auto simp: settled_def split: prod.splits)
qed

lemma finish_step_at:
  assumes "twin_at off sh0 n st" and "enabled st (Finish k ti)"
  shows "twin_at off sh0 (Suc n) (finish_work off ti k st)"
  using assms(1)
proof cases
  case (waiting m v s)
  with finish_only [OF waiting(3) assms(2)] assms(2) show ?thesis by auto
next
  case (working m v s t)
  with finish_only [OF working(3) assms(2)] have "k = m" by blast
  with finish_at [OF working] show ?thesis by simp
next
  case (raised m e s)
  with finish_only [OF raised(3) assms(2)] assms(2) show ?thesis by auto
next
  case (returned v s)
  with finish_only [OF returned(2) assms(2), of v] show ?thesis by simp
next
  case over
  with assms(2) show ?thesis by (auto simp: settled_def split: prod.splits)
qed

lemma reach_at:
  "twin_reach off (new_twin off c va mv tk) n st \<Longrightarrow> twin_at off (tw_shared (new_twin off c va mv tk)) n st"
proof (induction rule: twin_reach.induct)
  case start
  then show ?case by (rule start_at)
next
  case (step n st ev)
  then show ?case
    by (cases ev) (simp_all del: enabled.simps add: take_step_at finish_step_at join_at)
qed

text \<open>A run that is not over can go on.\<close>

lemma at_enabled:
  assumes "twin_at off sh0 n st" and "tw_result st = None"
  shows "\<exists>ev. enabled st ev"
  using assms(1)
proof cases
  case (waiting m v s)
  have "m = 0 \<or> tw_queue st (m - 1) \<noteq> []"
    using shape_queue [OF waiting(3), of "m - 1"] waiting(1) by (cases "m = 0") (auto simp: queued_def)
  with waiting assms(2) have "enabled st (Take m ti)" for ti by simp
  then show ?thesis by blast
next
  case (working m v s t)
  with assms(2) have "enabled st (Finish m ti)" for ti by simp
  then show ?thesis by blast
next
  case (raised m e s)
  show ?thesis
  proof (cases "m < 6 \<or> s = 6")
    case True
    moreover have "m < 6 \<or> m = 6" using raised(1) by arith
    ultimately have "enabled st (Join ti)" for ti using raised assms(2) by (auto simp: shape_def)
    then show ?thesis by blast
  next
    case False
    with raised(1,3) have s: "m = 6" "0 < s" "s < 6" by (auto simp: shape_def)
    with shape_queue [OF raised(3), of "s - 1"] raised(3) assms(2) have "enabled st (Take s ti)" for ti
      by (auto simp: queued_def shape_def)
    then show ?thesis by blast
  qed
next
  case (returned v s)
  show ?thesis
  proof (cases "s = 6")
    case True
    with returned assms(2) have "enabled st (Join ti)" for ti by (auto simp: shape_def)
    then show ?thesis by blast
  next
    case False
    with returned(2) have s: "0 < s" "s < 6" by (auto simp: shape_def)
    with shape_queue [OF returned(2), of "s - 1"] returned(2) assms(2) have "enabled st (Take s ti)" for ti
      by (auto simp: queued_def shape_def)
    then show ?thesis by blast
  qed
next
  case over
  with assms(2) show ?thesis by (auto simp: settled_def split: prod.splits)
qed

lemma at_bound: "twin_at off sh0 n st \<Longrightarrow> n \<le> 20"
  by (cases rule: twin_at.cases) (auto dest!: shape_bounds)

lemma at_settled: "twin_at off sh0 n st \<Longrightarrow> tw_result st \<noteq> None \<Longrightarrow> settled off sh0 st"
  by (cases rule: twin_at.cases) auto

section \<open>What a finished build went through\<close>

text \<open>Packet \<open>p\<close> was signed off with hash \<open>h\<close> by auditor \<open>k\<close>, over the schema files \<open>dir\<close>.\<close>

definition audited :: "(string, string) dict \<Rightarrow> nat \<Rightarrow> jval \<Rightarrow> string \<Rightarrow> bool" where
  "audited dir k p h \<longleftrightarrow>
     (\<exists>sd d. schema_text dir (schema_file k) sd \<and> admits sd p \<and> p = JObj d \<and>
        h = twin_hash (task_name (k - 1)) (task_name (k + 1)) (schema_file k) (JObj (dpop ''handshake_hash'' d)) \<and>
        jget d ''handshake_hash'' \<in> {JNull, JStr h})"

definition hop_of :: "nat \<Rightarrow> string \<times> string" where
  "hop_of k = (task_name (k - 1), task_name (k + 1))"

lemma sign_off_ok:
  assumes "sign_off (schema_file k) p (task_name (k - 1)) (task_name (k + 1)) va = (Inr h, va')" and "cache_faithful va"
  shows "audited (va_dir va) k p h \<and> cache_faithful va' \<and> va_dir va' = va_dir va"
proof -
  obtain r va1 where v: "validate_file (schema_file k) p va = (r, va1)" by fastforce
  with assms(1) have r: "r = Inr ()" by (cases r) (simp_all add: sign_off_def)
  with assms(1) v obtain d where d: "p = JObj d" by (cases p) (simp_all add: sign_off_def)
  let ?h = "twin_hash (task_name (k - 1)) (task_name (k + 1)) (schema_file k) (JObj (dpop ''handshake_hash'' d))"
  from assms(1) v r d have "va1 = va'" "h = ?h" "jget d ''handshake_hash'' \<in> {JNull, JStr ?h}"
    by (auto simp: sign_off_def Let_def eq_str_def split: if_splits)
  with validate_file_faithful [OF assms(2), of "schema_file k" p] v r d show ?thesis
    by (auto simp: audited_def)
qed

lemma enter_hop_ok:
  assumes "enter_hop k sh = (Inr u, sh1)" and "task_name (k - 1) \<noteq> []" and "task_name (k + 1) \<noteq> []"
  shows "sh_state sh1 = sh_state sh \<and> sh_validator sh1 = sh_validator sh \<and>
    map_option mv_audited (sh_verifier sh1) = map_option (\<lambda>mv. mv_audited mv @ [hop_of k]) (sh_verifier sh)"
proof (cases "sh_verifier sh")
  case None
  with assms(1) show ?thesis by (simp add: enter_hop_def)
next
  case (Some mv)
  let ?a = "task_name (k - 1)" and ?b = "task_name (k + 1)"
  obtain r mv1 where g: "verify_governance_transition ?a ?b mv = (r, mv1)" by fastforce
  have vt: "verify_transition (\<lambda>_. []) (Some ?a) (Some ?b) None None None mv = (r, mv1)"
    using assms(2,3) g by (simp add: verify_transition_def given_def)
  with assms(1) Some have r: "r = Inr ()" and sh1: "sh1 = sh\<lparr>sh_verifier := Some mv1\<rparr>"
    by (cases r; simp add: enter_hop_def)+
  from g r have "mv_audited mv1 = mv_audited mv @ [(?a, ?b)]"
    unfolding verify_governance_transition_def by (auto split: sum.splits)
  with Some sh1 show ?thesis by (simp add: hop_of_def)
qed

lemma auditor_op_ok:
  assumes "auditor_op k p sh = (Inr w, sh')" and "cache_faithful (sh_validator sh)"
    and "task_name (k - 1) \<noteq> []" and "task_name (k + 1) \<noteq> []"
  shows "w = p \<and> (\<exists>h. audited (va_dir (sh_validator sh)) k p h \<and> sh_state sh' = add_hop k h (sh_state sh)) \<and>
    cache_faithful (sh_validator sh') \<and> va_dir (sh_validator sh') = va_dir (sh_validator sh) \<and>
    map_option mv_audited (sh_verifier sh') = map_option (\<lambda>mv. mv_audited mv @ [hop_of k]) (sh_verifier sh)"
proof -
  from assms(1) obtain u sh1 where enter: "enter_hop k sh = (Inr u, sh1)"
    by (auto simp: auditor_op_def split: prod.splits sum.splits)
  from enter_hop_ok [OF this assms(3,4)] have same: "sh_state sh1 = sh_state sh" "sh_validator sh1 = sh_validator sh"
    and hop: "map_option mv_audited (sh_verifier sh1) = map_option (\<lambda>mv. mv_audited mv @ [hop_of k]) (sh_verifier sh)"
    by auto
  from assms(1) enter obtain h va where
    sign: "sign_off (schema_file k) p (task_name (k - 1)) (task_name (k + 1)) (sh_validator sh1) = (Inr h, va)"
    and rest: "w = p" "sh' = sh1\<lparr>sh_validator := va, sh_state := add_hop k h (sh_state sh1)\<rparr>"
    by (auto simp: auditor_op_def split: prod.splits sum.splits)
  from sign_off_ok [OF sign] assms(2) same rest hop show ?thesis by auto
qed

lemma agent_op_ok:
  assumes "agent_op off k v sh = (Inr w, sh')"
  shows "sh_validator sh' = sh_validator sh \<and> sh_verifier sh' = sh_verifier sh \<and>
    sh_state sh' = dput (packet_key k) w
      (if k = 6 then dput ''pipeline_state'' (JStr ''COMPLETED'') (sh_state sh) else sh_state sh)"
  using assms by (auto simp: agent_op_def Let_def split: prod.splits sum.splits if_splits)

lemma sequential_SucD:
  assumes "sequential off (Suc k) sh0 = (Inr w, sh')"
  obtains v sh where "sequential off k sh0 = (Inr v, sh)" and "twin_op off k v sh = (Inr w, sh')"
  using assms by (auto split: prod.splits sum.splits)

lemma sequential_agent:
  assumes "sequential off (Suc k) sh0 = (Inr w, sh')" and "even k"
  obtains v sh where "sequential off k sh0 = (Inr v, sh)" and "sh_validator sh' = sh_validator sh"
    and "sh_verifier sh' = sh_verifier sh"
    and "sh_state sh' = dput (packet_key k) w
      (if k = 6 then dput ''pipeline_state'' (JStr ''COMPLETED'') (sh_state sh) else sh_state sh)"
  using sequential_SucD [OF assms(1)] assms(2) agent_op_ok unfolding twin_op_def by metis

lemma sequential_auditor:
  assumes "sequential off (Suc k) sh0 = (Inr w, sh')" and "odd k" and "k < 6"
    and "\<And>v sh. sequential off k sh0 = (Inr v, sh) \<Longrightarrow> cache_faithful (sh_validator sh)"
  obtains sh h where "sequential off k sh0 = (Inr w, sh)" and "audited (va_dir (sh_validator sh)) k w h"
    and "sh_state sh' = add_hop k h (sh_state sh)" and "cache_faithful (sh_validator sh')"
    and "va_dir (sh_validator sh') = va_dir (sh_validator sh)"
    and "map_option mv_audited (sh_verifier sh') = map_option (\<lambda>mv. mv_audited mv @ [hop_of k]) (sh_verifier sh)"
proof -
  obtain v sh where seq: "sequential off k sh0 = (Inr v, sh)" and op: "auditor_op k v sh = (Inr w, sh')"
    using sequential_SucD [OF assms(1)] assms(2) unfolding twin_op_def by metis
  have "k = 1 \<or> k = 3 \<or> k = 5" using assms(2,3) by presburger
  then have "task_name (k - 1) \<noteq> []" "task_name (k + 1) \<noteq> []" by (auto simp: task_name_def)
  from auditor_op_ok [OF op assms(4) [OF seq] this] seq that show thesis by auto
qed

text \<open>Validation never forgets what the schema files hold.\<close>

lemma sequential_faithful:
  assumes "cache_faithful (sh_validator sh0)"
  shows "sequential off k sh0 = (r, sh) \<Longrightarrow> k \<le> 7 \<Longrightarrow> (\<exists>v. r = Inr v) \<Longrightarrow>
    cache_faithful (sh_validator sh) \<and> va_dir (sh_validator sh) = va_dir (sh_validator sh0)"
proof (induction k arbitrary: r sh)
  case 0
  with assms show ?case by auto
next
  case (Suc k)
  then obtain w where r: "r = Inr w" by blast
  with Suc.prems(1) have seq: "sequential off (Suc k) sh0 = (Inr w, sh)" by simp
  note IH = Suc.IH [OF _ Suc_leD [OF Suc.prems(2)]]
  show ?case
  proof (cases "even k")
    case True
    from sequential_agent [OF seq True] IH show ?thesis by metis
  next
    case False
    with Suc.prems(2) have "k < 6" by presburger
    from sequential_auditor [OF seq False this] IH show ?thesis by metis
  qed
qed

section \<open>A run to its end\<close>

lemma reach_over:
  assumes "twin_reach off st0 n st" and "st0 = new_twin off c va mv tk"
  shows "\<exists>n' st'. twin_reach off st0 n' st' \<and> tw_result st' \<noteq> None"
  using assms
proof (induction "20 - n" arbitrary: n st rule: less_induct)
  case less
  show ?case
  proof (cases "tw_result st = None")
    case True
    from less.prems reach_at have at: "twin_at off (tw_shared st0) n st" by blast
    from at_enabled [OF at True] obtain ev where "enabled st ev" by blast
    from twin_reach.step [OF less.prems(1) this] have next1: "twin_reach off st0 (Suc n) (twin_step off ev st)" .
    with less.prems(2) reach_at have "twin_at off (tw_shared st0) (Suc n) (twin_step off ev st)" by blast
    then have "20 - Suc n < 20 - n" using at_bound by fastforce
    from less.hyps [OF this next1 less.prems(2)] show ?thesis .
  qed (use less.prems in blast)
qed

text \<open>An office whose agents all return the same packet, over schema files that admit everything.\<close>

definition demo_packet :: jval where
  "demo_packet = JObj [(''status'', JStr ''built'')]"

definition demo_office :: office where
  "demo_office = \<lparr>of_source = ''go'', of_repository = None, of_files = [], of_logs = ''logs'', of_tracked = False,
     of_meta = (\<lambda>_. []), of_agent = (\<lambda>_ _ _. Inr (demo_packet, None)), of_now = (\<lambda>_. ''0.0''), of_item = (\<lambda>_. 0),
     of_artifact = (\<lambda>_. None), of_repr = (\<lambda>_. []), of_error = (\<lambda>_. [])\<rparr>"

definition demo_dir :: "(string, string) dict" where
  "demo_dir = [(schema_file 1, ''{}''), (schema_file 3, ''{}''), (schema_file 5, ''{}'')]"

definition demo_twin :: twin where
  "demo_twin = new_twin demo_office \<lparr>ch_objects = [], ch_index = None\<rparr> (new_validator demo_dir) None
     \<lparr>tk_max_events = 1, tk_buffer = [], tk_hooks = [], tk_calls = [], tk_marks = [], tk_max_marks = 1\<rparr>"

definition serves :: "jval \<Rightarrow> cache \<Rightarrow> bool" where
  "serves p c \<longleftrightarrow>
     (\<forall>fp. stored_output fp c = None \<or> (\<exists>d. stored_output fp c = Some (d, dumps p) \<and> (\<forall>repr. cached_trace repr d \<noteq> None)))"

lemma stored_output_cong: "dget (ch_objects c) fp = dget (ch_objects c') fp \<Longrightarrow> stored_output fp c = stored_output fp c'"
  by (simp add: stored_output_def try_load_def)

lemma run_stage_serves:
  assumes "serves p c" and "wf_json p" and "canon p = p" and "wf_flt now" and "wf_json (JObj manifest)"
  shows "\<exists>dec tr' c' ran. run_stage repr now (Inr (p, None)) stage manifest corr tid tr c = (Inr (p, dec), tr', c', ran) \<and> serves p c'"
proof (cases "stored_output (fingerprint_manifest manifest) c")
  case None
  let ?fp = "fingerprint_manifest manifest"
  let ?c = "store_and_index now tid stage ?fp (dumps p) None manifest c"
  have wf: "wf_json (JObj (object_payload now ?fp (dumps p) None manifest))"
    using assms(4,5) by (simp add: wf_object_payload metrics_wf_def metric_flt_def wf_flt_zero del: wf_json.simps)
  have "stored_output fp ?c = (if fp = ?fp then Some (canon_dict (object_payload now ?fp (dumps p) None manifest), dumps p)
      else stored_output fp c)" for fp
    using stored_output_put [OF wf, of ?c] stored_output_cong [of ?c fp c] by (simp add: objects_store dget_dput)
  with assms(1) cached_trace_stored [OF wf] have "serves p ?c" by (simp add: serves_def)
  with None show ?thesis
    by (simp add: run_stage_def Let_def) (rule exI [of _ True], rule TrueI)
next
  case (Some x)
  with spec [OF assms(1) [unfolded serves_def], of "fingerprint_manifest manifest"]
  obtain d where d: "stored_output (fingerprint_manifest manifest) c = Some (d, dumps p)"
    and trace: "cached_trace repr d \<noteq> None" by auto
  from loads_dumps [OF assms(2)] assms(3) have "output_value (dumps p) = p" by (simp add: output_value_def)
  with d trace assms(1) show ?thesis by (auto simp: run_stage_def Let_def)
qed

definition demo_shared :: "shared \<Rightarrow> bool" where
  "demo_shared sh \<longleftrightarrow> serves demo_packet (sh_cache sh) \<and> sh_verifier sh = None \<and> cache_faithful (sh_validator sh) \<and>
     va_dir (sh_validator sh) = demo_dir \<and> wf_json (JObj (sh_state sh))"

lemma wf_case_telemetry:
  "wf_json (JObj st) \<Longrightarrow> wf_json (case dget st k of None \<Rightarrow> JArr [] | Some t \<Rightarrow> t)"
  by (auto simp: wf_JObj_dget simp del: wf_json.simps(3) split: option.split)

lemma demo_stage_manifest:
  assumes "demo_shared sh" and "k = 0 \<or> v = demo_packet"
  shows "wf_json (JObj (cache_manifest (of_meta demo_office k) (call_args k v) (call_kwargs demo_office k sh)
    (compute_workspace_file_hashes (of_files demo_office)) (upstream k sh)))"
proof -
  have "wf_json (case dget (sh_state sh) ''telemetry'' of None \<Rightarrow> JArr [] | Some t \<Rightarrow> t)"
    using assms(1) by (intro wf_case_telemetry) (simp add: demo_shared_def)
  moreover have "list_all wf_json (map JStr xs)" for xs by (induction xs) auto
  moreover have "compute_workspace_file_hashes [] = []"
    by (simp add: compute_workspace_file_hashes_def hashed_files_def List.map_filter_simps)
  ultimately show ?thesis
    using assms(2)
    by (auto simp: cache_manifest_def call_args_def call_kwargs_def demo_office_def opt_str_def demo_packet_def)
qed

lemma demo_agent:
  assumes "demo_shared sh" and "k = 0 \<or> v = demo_packet"
  shows "\<exists>sh'. agent_op demo_office k v sh = (Inr demo_packet, sh') \<and> demo_shared sh'"
proof -
  let ?m = "cache_manifest (of_meta demo_office k) (call_args k v) (call_kwargs demo_office k sh)
    (compute_workspace_file_hashes (of_files demo_office)) (upstream k sh)"
  have p: "wf_json demo_packet" "canon demo_packet = demo_packet" by (simp_all add: demo_packet_def)
  obtain dec tr' c' ran where run: "run_stage (of_repr demo_office) ''0.0''
      (Inr (demo_packet, None) :: (string, jval \<times> metrics option) res) (task_name k) ?m
      (Some (correlation_id demo_office)) (Some (correlation_id demo_office)) (sh_tracer sh) (sh_cache sh) =
      (Inr (demo_packet, dec), tr', c', ran)" and c': "serves demo_packet c'"
    using run_stage_serves [OF _ p wf_flt_zero demo_stage_manifest [OF assms]] assms(1) unfolding demo_shared_def by metis
  have office: "of_now demo_office k = ''0.0''" "of_agent demo_office k a b = Inr (demo_packet, None)" "\<not> of_tracked demo_office"
    for a b by (simp_all add: demo_office_def)
  show ?thesis
    using c' assms(1) p
    by (simp add: agent_op_def Let_def run office demo_shared_def wf_JObj_dput del: wf_json.simps(3))
qed

lemma demo_auditor:
  assumes "demo_shared sh" and "k = 1 \<or> k = 3 \<or> k = 5"
  shows "\<exists>sh'. auditor_op k demo_packet sh = (Inr demo_packet, sh') \<and> demo_shared sh'"
proof -
  from assms(1) have sh: "cache_faithful (sh_validator sh)" "va_dir (sh_validator sh) = demo_dir" "sh_verifier sh = None"
    by (simp_all add: demo_shared_def)
  have "schema_text demo_dir (schema_file k) []"
  proof -
    have "loads ''{}'' = Some (JObj [])" by code_simp
    with assms(2) show ?thesis by (auto simp: schema_text_def demo_dir_def schema_file_def)
  qed
  moreover have "admits [] demo_packet"
    by (rule admits.scalar) (simp_all add: value_ok_def scalar_admits_def)
  ultimately have "fst (validate_file (schema_file k) demo_packet (sh_validator sh)) = Inr ()"
    using validate_file_faithful(1) [OF sh(1)] sh(2) by auto
  then obtain va where va: "validate_file (schema_file k) demo_packet (sh_validator sh) = (Inr (), va)"
    by (metis prod.collapse)
  with validate_file_faithful(2,3) [OF sh(1), of "schema_file k" demo_packet] sh(2)
  have va': "cache_faithful va" "va_dir va = demo_dir" by simp_all
  obtain h where sign: "sign_off (schema_file k) demo_packet (task_name (k - 1)) (task_name (k + 1)) (sh_validator sh) = (Inr h, va)"
    using va by (simp add: sign_off_def demo_packet_def Let_def)
  have "wf_json (hop_record k h)" by (simp add: hop_record_def)
  then have "wf_json (case jget (sh_state sh) ''telemetry'' of JArr ts \<Rightarrow> JArr (ts @ [hop_record k h]) | v \<Rightarrow> v)"
    using wf_json_jget [of "sh_state sh" "''telemetry''"] assms(1)
    by (cases "jget (sh_state sh) ''telemetry''") (auto simp: demo_shared_def simp del: wf_json.simps(3))
  with assms(1) have "wf_json (JObj (add_hop k h (sh_state sh)))"
    unfolding add_hop_def demo_shared_def by (intro wf_JObj_dput) auto
  with assms(1) sign va' sh show ?thesis
    by (simp add: auditor_op_def enter_hop_def demo_shared_def del: wf_json.simps)
qed

lemma demo_sequential:
  "k \<le> 7 \<Longrightarrow> \<exists>sh. sequential demo_office k (tw_shared demo_twin) = (Inr (if k = 0 then JNull else demo_packet), sh) \<and> demo_shared sh"
proof (induction k)
  case 0
  have "cache_faithful (new_validator demo_dir)" "va_dir (new_validator demo_dir) = demo_dir"
    by (simp_all add: new_validator_def cache_faithful_def)
  then show ?case
    by (simp add: demo_twin_def new_twin_def demo_shared_def serves_def stored_output_def try_load_def)
next
  case (Suc k)
  then obtain sh where seq: "sequential demo_office k (tw_shared demo_twin) = (Inr (if k = 0 then JNull else demo_packet), sh)"
    and sh: "demo_shared sh" by auto
  show ?case
  proof (cases "even k")
    case True
    with seq demo_agent [OF sh, of k "if k = 0 then JNull else demo_packet"] show ?thesis by (auto simp: twin_op_def)
  next
    case False
    with Suc.prems have "k = 1 \<or> k = 3 \<or> k = 5" by presburger
    with seq demo_auditor [OF sh, of k] False show ?thesis by (auto simp: twin_op_def)
  qed
qed

lemma demo_over: "\<exists>n st. twin_reach demo_office demo_twin n st \<and> tw_result st = Some (Inr demo_packet)"
proof -
  obtain n st where reach: "twin_reach demo_office demo_twin n st" and over1: "tw_result st \<noteq> None"
    using reach_over [OF twin_reach.start] unfolding demo_twin_def by blast
  from reach have "settled demo_office (tw_shared demo_twin) st"
    using at_settled [OF reach_at over1] unfolding demo_twin_def by blast
  with demo_sequential [of 7] have "tw_result st = Some (Inr demo_packet)" by (auto simp: settled_def)
  with reach show ?thesis by blast
qed

lemma sequential_agent_ex:
  assumes "sequential off j sh0 = (Inr w, sh')" and "j = Suc k" and "even k"
  shows "\<exists>v sh. sequential off k sh0 = (Inr v, sh) \<and> sh_verifier sh' = sh_verifier sh \<and>
    sh_state sh' = dput (packet_key k) w
      (if k = 6 then dput ''pipeline_state'' (JStr ''COMPLETED'') (sh_state sh) else sh_state sh)"
  using sequential_agent [OF assms(1) [unfolded assms(2)] assms(3)] by metis

lemma sequential_auditor_ex:
  assumes "sequential off j sh0 = (Inr w, sh')" and "j = Suc k" and "odd k" and "k < 6" and "cache_faithful (sh_validator sh0)"
  shows "\<exists>sh h. sequential off k sh0 = (Inr w, sh) \<and> audited (va_dir (sh_validator sh0)) k w h \<and>
    sh_state sh' = add_hop k h (sh_state sh) \<and>
    map_option mv_audited (sh_verifier sh') = map_option (\<lambda>mv. mv_audited mv @ [hop_of k]) (sh_verifier sh)"
proof -
  have ok: "cache_faithful (sh_validator sh) \<and> va_dir (sh_validator sh) = va_dir (sh_validator sh0)"
    if "sequential off k sh0 = (Inr v, sh)" for v sh
    using sequential_faithful [OF assms(5) that] assms(4) by auto
  from sequential_auditor [OF assms(1) [unfolded assms(2)] assms(3,4)] ok show ?thesis by metis
qed

section \<open>Properties\<close>





text \<open>C8: a run that returns an artifact had each of its three packets admitted by the schema file of its
  hand-over and signed with the hash of its text; the telemetry it built from lists exactly these three hand-overs,
  and a verifier, if attached, let exactly these three through.\<close>

theorem artifact_was_audited:
  assumes "twin_reach off (new_twin off c va mv tk) n st" and "tw_result st = Some (Inr artifact)" and "cache_faithful va"
  shows "\<exists>h1 h3 h5.
    audited (va_dir va) 1 (jget (sh_state (tw_shared st)) ''isa_packet'') h1 \<and>
    audited (va_dir va) 3 (jget (sh_state (tw_shared st)) ''sas_packet'') h3 \<and>
    audited (va_dir va) 5 (jget (sh_state (tw_shared st)) ''crs_packet'') h5 \<and>
    jget (sh_state (tw_shared st)) ''artifact'' = artifact \<and>
    jget (sh_state (tw_shared st)) ''telemetry'' = JArr [hop_record 1 h1, hop_record 3 h3, hop_record 5 h5] \<and>
    map_option mv_audited (sh_verifier (tw_shared st)) =
      map_option (\<lambda>v. mv_audited v @ [hop_of 1, hop_of 3, hop_of 5]) mv"
proof -
  let ?sh0 = "tw_shared (new_twin off c va mv tk)"
  have sh0: "sh_validator ?sh0 = va" "sh_verifier ?sh0 = mv" "jget (sh_state ?sh0) ''telemetry'' = JArr []"
    by (simp_all add: new_twin_def)
  have faithful: "cache_faithful (sh_validator ?sh0)" using assms(3) sh0(1) by simp
  note hop = sequential_auditor_ex [OF _ _ _ _ faithful, unfolded sh0(1)]
  have "settled off ?sh0 st" using at_settled [OF reach_at [OF assms(1)]] assms(2) by simp
  with assms(2) obtain s7 where s7: "sequential off 7 ?sh0 = (Inr artifact, s7)"
    and st: "sh_state (tw_shared st) = sh_state s7" "sh_verifier (tw_shared st) = sh_verifier s7"
    by (auto simp: settled_def split: prod.splits)
  obtain p5 s6 where s6: "sequential off 6 ?sh0 = (Inr p5, s6)" and e7: "sh_verifier s7 = sh_verifier s6"
    "sh_state s7 = dput (packet_key 6) artifact (dput ''pipeline_state'' (JStr ''COMPLETED'') (sh_state s6))"
    using sequential_agent_ex [OF s7, of 6] by auto
  obtain s5 h5 where s5: "sequential off 5 ?sh0 = (Inr p5, s5)"
    and a5: "audited (va_dir va) 5 p5 h5" "sh_state s6 = add_hop 5 h5 (sh_state s5)"
      "map_option mv_audited (sh_verifier s6) = map_option (\<lambda>mv. mv_audited mv @ [hop_of 5]) (sh_verifier s5)"
    using hop [OF s6, of 5] by auto
  obtain p3 s4 where s4: "sequential off 4 ?sh0 = (Inr p3, s4)" and e5: "sh_verifier s5 = sh_verifier s4"
    "sh_state s5 = dput (packet_key 4) p5 (sh_state s4)"
    using sequential_agent_ex [OF s5, of 4] by auto
  obtain s3 h3 where s3: "sequential off 3 ?sh0 = (Inr p3, s3)"
    and a3: "audited (va_dir va) 3 p3 h3" "sh_state s4 = add_hop 3 h3 (sh_state s3)"
      "map_option mv_audited (sh_verifier s4) = map_option (\<lambda>mv. mv_audited mv @ [hop_of 3]) (sh_verifier s3)"
    using hop [OF s4, of 3] by auto
  obtain p1 s2 where s2: "sequential off 2 ?sh0 = (Inr p1, s2)" and e3: "sh_verifier s3 = sh_verifier s2"
    "sh_state s3 = dput (packet_key 2) p3 (sh_state s2)"
    using sequential_agent_ex [OF s3, of 2] by auto
  obtain s1 h1 where s1: "sequential off 1 ?sh0 = (Inr p1, s1)"
    and a1: "audited (va_dir va) 1 p1 h1" "sh_state s2 = add_hop 1 h1 (sh_state s1)"
      "map_option mv_audited (sh_verifier s2) = map_option (\<lambda>mv. mv_audited mv @ [hop_of 1]) (sh_verifier s1)"
    using hop [OF s2, of 1] by auto
  obtain v s0 where s0: "sequential off 0 ?sh0 = (Inr v, s0)" and e1: "sh_verifier s1 = sh_verifier s0"
    "sh_state s1 = dput (packet_key 0) p1 (sh_state s0)"
    using sequential_agent_ex [OF s1, of 0] by (auto simp del: sequential.simps)
  from s0 have "s0 = ?sh0" by simp
  have t1: "jget (sh_state s1) ''telemetry'' = JArr []" "jget (sh_state s1) ''isa_packet'' = p1"
    by (simp_all add: e1(2) \<open>s0 = ?sh0\<close> sh0(3) jget_dput packet_key_def)
  then have t3: "jget (sh_state s3) ''telemetry'' = JArr [hop_record 1 h1]" "jget (sh_state s3) ''isa_packet'' = p1"
    "jget (sh_state s3) ''sas_packet'' = p3"
    by (simp_all add: e3(2) a1(2) add_hop_def jget_dput packet_key_def)
  then have t5: "jget (sh_state s5) ''telemetry'' = JArr [hop_record 1 h1, hop_record 3 h3]"
    "jget (sh_state s5) ''isa_packet'' = p1" "jget (sh_state s5) ''sas_packet'' = p3" "jget (sh_state s5) ''crs_packet'' = p5"
    by (simp_all add: e5(2) a3(2) add_hop_def jget_dput packet_key_def)
  then have t7: "jget (sh_state s7) ''telemetry'' = JArr [hop_record 1 h1, hop_record 3 h3, hop_record 5 h5]"
    "jget (sh_state s7) ''isa_packet'' = p1" "jget (sh_state s7) ''sas_packet'' = p3" "jget (sh_state s7) ''crs_packet'' = p5"
    "jget (sh_state s7) ''artifact'' = artifact"
    by (simp_all add: e7(2) a5(2) add_hop_def jget_dput packet_key_def)
  have "map_option mv_audited (sh_verifier s7) = map_option (\<lambda>v. mv_audited v @ [hop_of 1, hop_of 3, hop_of 5]) mv"
    using a1(3) a3(3) a5(3) \<open>s0 = ?sh0\<close> sh0(2)
    by (cases mv; cases "sh_verifier s2"; cases "sh_verifier s4"; simp add: e1(1) e3(1) e5(1) e7(1))
  with t7 a1(1) a3(1) a5(1) st show ?thesis by metis
qed

theorem artifact_was_audited_witness:
  "\<exists>n st. twin_reach demo_office demo_twin n st \<and>
    (\<exists>h. audited demo_dir 1 (jget (sh_state (tw_shared st)) ''isa_packet'') h)"
proof -
  obtain n st where st: "twin_reach demo_office demo_twin n st" "tw_result st = Some (Inr demo_packet)"
    using demo_over by blast
  have "va_dir (new_validator demo_dir) = demo_dir" by (simp add: new_validator_def)
  with artifact_was_audited [OF st(1) [unfolded demo_twin_def] st(2) new_validator_faithful] st show ?thesis by metis
qed

end
