(* ===== verification/Orchestrator.thy ===== *)
theory Orchestrator
  imports Pipeline_Safety
begin

text \<open>
  \<^verbatim>\<open>core/orchestrator.py\<close>, with the registry of agents that \<^verbatim>\<open>core/parsers.py\<close> reads from the
  JSON document of \<^verbatim>\<open>DESIGNATED_AGENTS_LIST.md\<close>: one run loads the agents it needs, runs the
  pipeline, and turns whatever it returned or raised into an exit code, a governance state and the
  events that lead to it. The lemmas determine the exit code and the final state on every path, and
  tie them to the pipeline: a vote that fails locks the office.
\<close>

section \<open>Designated agents\<close>

record designated =
  dg_pipeline :: "string list"
  dg_agents :: "(string, string \<times> string) dict"
  dg_overrides :: "(string, string list) dict"

text \<open>\<^verbatim>\<open>parse_designated_agents_list\<close> after the document was found; \<open>Inl\<close> is the \<^verbatim>\<open>ValueError\<close>.\<close>

fun parse_agents :: "jdict \<Rightarrow> (string, (string, string \<times> string) dict) res" where
  "parse_agents [] = Inr []"
| "parse_agents ((role, spec) # rest) =
     (case spec of
        JObj d \<Rightarrow>
          (case (jget d ''module'', jget d ''class'') of
             (JStr m, JStr c) \<Rightarrow> res_bind (parse_agents rest) (\<lambda>as. Inr ((role, (m, c)) # as))
           | _ \<Rightarrow> Inl (''agents.'' @ role @ '' must include module and class''))
      | _ \<Rightarrow> parse_agents rest)"

fun parse_overrides :: "jdict \<Rightarrow> (string, (string, string list) dict) res" where
  "parse_overrides [] = Inr []"
| "parse_overrides ((repo, pipeline) # rest) =
     (case str_elems pipeline of
        None \<Rightarrow> Inl (''repository_overrides.'' @ repo @ '' must be list[str]'')
      | Some xs \<Rightarrow> res_bind (parse_overrides rest) (\<lambda>os. Inr ((repo, xs) # os)))"

definition parse_designated :: "jdict \<Rightarrow> (string, designated) res" where
  "parse_designated obj =
     (case str_elems (jget obj ''default_pipeline'') of
        None \<Rightarrow> Inl ''default_pipeline must be list[str]''
      | Some pipeline \<Rightarrow>
          (case jget obj ''agents'' of
             JObj agents \<Rightarrow>
               (case (case dget obj ''repository_overrides'' of None \<Rightarrow> JObj [] | Some v \<Rightarrow> v) of
                  JObj overrides \<Rightarrow>
                    res_bind (parse_agents agents)
                      (\<lambda>as. res_bind (parse_overrides overrides)
                        (\<lambda>os. Inr \<lparr>dg_pipeline = pipeline, dg_agents = as, dg_overrides = os\<rparr>))
                | _ \<Rightarrow> Inl ''repository_overrides must be an object'')
           | _ \<Rightarrow> Inl ''agents must be an object''))"

section \<open>Exceptions\<close>

text \<open>
  What can reach the handlers of \<open>run\<close>: a dissent with the fields its event shows, a critical
  misalignment, any other exception with its \<^verbatim>\<open>repr\<close>, and the groups of a task group.
\<close>

datatype exc =
    Dissent jdict
  | Critical string
  | Other string
  | Group string "exc list"

text \<open>\<open>_walk\<close>: the exceptions of a group, outside in.\<close>

fun flatten :: "exc \<Rightarrow> exc list" where
  "flatten (Group r es) = concat (map flatten es)"
| "flatten e = [e]"

fun halting :: "exc \<Rightarrow> bool" where
  "halting (Dissent d) = True"
| "halting (Critical s) = True"
| "halting _ = False"

section \<open>One run\<close>

definition roles :: "string list" where
  "roles = [''intake_specialist'', ''software_architect'', ''risk_compliance'', ''build_orchestrator'']"

text \<open>The roles a run needs: a resumed run leaves out those whose stages are done.\<close>

definition needed_roles :: "snapshot option \<Rightarrow> (exc, string list) res" where
  "needed_roles resume =
     (case resume of
        None \<Rightarrow> Inr roles
      | Some s \<Rightarrow>
          if cs_stage s = ''intake_to_architecture'' then Inr (drop 1 roles)
          else if cs_stage s = ''architecture_to_risk'' then Inr (drop 2 roles)
          else if cs_stage s = ''risk_to_build_execution'' then Inr (drop 3 roles)
          else Inl (Critical (''Unknown resume stage: '' @ cs_stage s)))"

text \<open>
  \<open>_load_agent\<close>; \<open>instantiate m c\<close> imports module \<open>m\<close> and makes an agent of its class \<open>c\<close>: it raises,
  or tells whether there is such a class.
\<close>

definition load_agent ::
  "designated \<Rightarrow> (string \<Rightarrow> string \<Rightarrow> (exc, bool) res) \<Rightarrow> string \<Rightarrow> (exc, unit) res" where
  "load_agent dg instantiate role =
     (case dget (dg_agents dg) role of
        None \<Rightarrow> Inl (Critical (''Role missing from designated list: '' @ role))
      | Some (m, c) \<Rightarrow>
          res_bind (instantiate m c)
            (\<lambda>found. require found (Critical (''Agent class not found: '' @ m @ ''.'' @ c))))"

definition start_event :: "string \<Rightarrow> jval \<Rightarrow> jdict" where
  "start_event cwd workspace = [(''event'', JStr ''ORCHESTRATOR_START''), (''cwd'', JStr cwd), (''workspace'', workspace)]"

definition resume_event :: "snapshot \<Rightarrow> jdict" where
  "resume_event s =
     [(''event'', JStr ''ORCHESTRATOR_RESUME''), (''active_stage'', JStr (cs_stage s)),
      (''schema_id'', JStr (cs_schema_id s)), (''correlation_id'', JStr (cs_correlation s))]"

text \<open>The first dissent or misalignment of an exception decides how the run ends.\<close>

definition end_halted :: "(nat \<Rightarrow> reading) \<Rightarrow> exc \<Rightarrow> governance \<Rightarrow> nat \<times> governance" where
  "end_halted clk e g =
     (case e of
        Dissent info \<Rightarrow>
          (2, set_state (rd_now (clk 1)) (rd_ts (clk 1)) ''QUORUM_LOCKED_INTERVENTION''
                (emit (clk 0) ((''event'', JStr ''QUORUM_DISSENT'') # (''code'', JStr ''QUORUM_DISSENT'') # info) g))
      | Critical s \<Rightarrow>
          (2, set_state (rd_now (clk 1)) (rd_ts (clk 1)) ''Pending Intervention''
                (emit (clk 0) [(''event'', JStr ''CRITICAL_MISALIGNMENT''), (''code'', JStr ''CRITICAL_MISALIGNMENT''),
                  (''error'', JStr s)] g))
      | Other r \<Rightarrow>
          (1, set_state (rd_now (clk 1)) (rd_ts (clk 1)) ''Pending Intervention''
                (emit (clk 0) [(''event'', JStr ''ORCHESTRATOR_ERROR''), (''error'', JStr r)] g))
      | Group r es \<Rightarrow>
          (1, set_state (rd_now (clk 1)) (rd_ts (clk 1)) ''Pending Intervention''
                (emit (clk 0) [(''event'', JStr ''ORCHESTRATOR_ERROR''), (''error'', JStr r)] g)))"

definition handle_exc :: "(nat \<Rightarrow> reading) \<Rightarrow> exc \<Rightarrow> governance \<Rightarrow> nat \<times> governance" where
  "handle_exc clk e g =
     (case e of
        Group r es \<Rightarrow> (case find halting (flatten e) of Some h \<Rightarrow> end_halted clk h g | None \<Rightarrow> end_halted clk e g)
      | _ \<Rightarrow> end_halted clk e g)"

text \<open>
  \<open>Orchestrator.run\<close>. \<open>pipeline\<close> is \<^verbatim>\<open>run_three_stage_pipeline\<close>, which works on the governance log;
  readings 0 to 3 stamp the events of the run, 4 and 5 those of its handlers.
\<close>

definition run_office ::
  "(nat \<Rightarrow> reading) \<Rightarrow> string \<Rightarrow> jval \<Rightarrow> designated \<Rightarrow> (string \<Rightarrow> string \<Rightarrow> (exc, bool) res) \<Rightarrow> snapshot option
    \<Rightarrow> (governance \<Rightarrow> (exc, jval) res \<times> governance) \<Rightarrow> governance \<Rightarrow> nat \<times> governance" where
  "run_office clk cwd workspace dg instantiate resume pipeline g =
     (let g1 = emit (clk 0) (start_event cwd workspace) g in
      case needed_roles resume of
        Inl e \<Rightarrow> handle_exc (\<lambda>k. clk (k + 4)) e g1
      | Inr needed \<Rightarrow>
          (let g2 = (case resume of None \<Rightarrow> g1 | Some s \<Rightarrow> emit (clk 1) (resume_event s) g1)
           in (case each (load_agent dg instantiate) needed of
                 Inl e \<Rightarrow> handle_exc (\<lambda>k. clk (k + 4)) e g2
               | Inr _ \<Rightarrow>
                   (case pipeline g2 of
                      (Inl e, g3) \<Rightarrow> handle_exc (\<lambda>k. clk (k + 4)) e g3
                    | (Inr result, g3) \<Rightarrow>
                        (0, set_state (rd_now (clk 3)) (rd_ts (clk 3)) ''Completed''
                              (emit (clk 2) [(''event'', JStr ''ORCHESTRATOR_RESULT''), (''result'', result)] g3))))))"

section \<open>How a run ends\<close>

lemma gov_state_emit [simp]: "gov_state (emit r event g) = gov_state g"
  by (simp add: emit_def emit_event_def Let_def split: option.split)

lemma gov_state_set [simp]: "gov_state (set_state now ts s g) = s"
  by (simp add: set_state_def emit_event_def Let_def split: option.split)

text \<open>The exception that decides, if the exception holds any that halts.\<close>

definition decisive :: "exc \<Rightarrow> exc option" where
  "decisive e = find halting (flatten e)"

definition exit_of :: "exc \<Rightarrow> nat \<times> string" where
  "exit_of e =
     (case decisive e of
        Some (Dissent d) \<Rightarrow> (2, ''QUORUM_LOCKED_INTERVENTION'')
      | Some _ \<Rightarrow> (2, ''Pending Intervention'')
      | None \<Rightarrow> (1, ''Pending Intervention''))"

lemma find_halting: "find halting xs = Some e \<Longrightarrow> (\<exists>d. e = Dissent d) \<or> (\<exists>s. e = Critical s)"
  by (induction xs) (auto split: if_splits elim: halting.elims)

lemma handle_exc_exit:
  "fst (handle_exc clk e g) = fst (exit_of e) \<and> gov_state (snd (handle_exc clk e g)) = snd (exit_of e)"
proof (cases e)
  case (Group r es)
  then show ?thesis
    using find_halting [of "flatten e"]
    by (cases "find halting (flatten e)") (auto simp: handle_exc_def exit_of_def decisive_def end_halted_def)
qed (simp_all add: handle_exc_def exit_of_def decisive_def end_halted_def)

lemma decisive_first:
  assumes "decisive e = Some h"
  shows "halting h \<and> h \<in> set (flatten e)"
  using assms by (auto simp: decisive_def find_Some_iff)

lemma decisive_None: "decisive e = None \<longleftrightarrow> (\<forall>h \<in> set (flatten e). \<not> halting h)"
  by (auto simp: decisive_def find_None_iff)

text \<open>What is raised before the pipeline is started.\<close>

definition before_pipeline :: "designated \<Rightarrow> (string \<Rightarrow> string \<Rightarrow> (exc, bool) res) \<Rightarrow> snapshot option \<Rightarrow> (exc, unit) res" where
  "before_pipeline dg instantiate resume =
     res_bind (needed_roles resume) (\<lambda>needed. each (load_agent dg instantiate) needed)"

definition with_events :: "(nat \<Rightarrow> reading) \<Rightarrow> string \<Rightarrow> jval \<Rightarrow> snapshot option \<Rightarrow> governance \<Rightarrow> governance" where
  "with_events clk cwd workspace resume g =
     (let g1 = emit (clk 0) (start_event cwd workspace) g
      in (case resume of None \<Rightarrow> g1 | Some s \<Rightarrow> emit (clk 1) (resume_event s) g1))"

lemma run_office_cases:
  "fst (run_office clk cwd ws dg inst resume pipeline g) =
     (case before_pipeline dg inst resume of
        Inl e \<Rightarrow> fst (exit_of e)
      | Inr _ \<Rightarrow> (case fst (pipeline (with_events clk cwd ws resume g)) of Inl e \<Rightarrow> fst (exit_of e) | Inr v \<Rightarrow> 0)) \<and>
   gov_state (snd (run_office clk cwd ws dg inst resume pipeline g)) =
     (case before_pipeline dg inst resume of
        Inl e \<Rightarrow> snd (exit_of e)
      | Inr _ \<Rightarrow> (case fst (pipeline (with_events clk cwd ws resume g)) of Inl e \<Rightarrow> snd (exit_of e) | Inr v \<Rightarrow> ''Completed''))"
proof (cases "needed_roles resume")
  case (Inl e)
  then show ?thesis by (simp add: run_office_def before_pipeline_def Let_def handle_exc_exit)
next
  case (Inr needed)
  let ?g2 = "with_events clk cwd ws resume g"
  show ?thesis
  proof (cases "each (load_agent dg inst) needed")
    case (Inl e)
    with Inr show ?thesis by (simp add: run_office_def before_pipeline_def Let_def handle_exc_exit)
  next
    case loaded: (Inr u)
    obtain r g3 where "pipeline ?g2 = (r, g3)" by fastforce
    with Inr loaded show ?thesis
      by (cases r) (simp_all add: run_office_def before_pipeline_def with_events_def Let_def handle_exc_exit)
  qed
qed

section \<open>The three-stage pipeline under it\<close>

text \<open>
  What \<^verbatim>\<open>run_three_stage_pipeline\<close> raises for an error of the pipeline model: its task group
  wraps it. \<open>info\<close> gives the fields of a dissent, \<open>other\<close> the exception an agent, a transaction or an
  unknown mode stands for.
\<close>

fun pipe_exc :: "(quorum_error \<Rightarrow> jdict) \<Rightarrow> (pipe_error \<Rightarrow> exc) \<Rightarrow> pipe_error \<Rightarrow> exc" where
  "pipe_exc info other (Misalignment s) = Critical s"
| "pipe_exc info other (Quorum_Raised (UnknownMode x)) = other (Quorum_Raised (UnknownMode x))"
| "pipe_exc info other (Quorum_Raised e) = Dissent (info e)"
| "pipe_exc info other e = other e"

definition pipe_outcome ::
  "(quorum_error \<Rightarrow> jdict) \<Rightarrow> (pipe_error \<Rightarrow> exc) \<Rightarrow> string \<Rightarrow> pipe \<Rightarrow> (exc, jval) res \<times> governance" where
  "pipe_outcome info other r p =
     ((case pp_error p of
         Some e \<Rightarrow> Inl (Group r [pipe_exc info other e])
       | None \<Rightarrow> Inr (case pp_result p of None \<Rightarrow> JNull | Some v \<Rightarrow> v)), pp_gov p)"

lemma dissent_exc: "\<forall>x. e \<noteq> UnknownMode x \<Longrightarrow> pipe_exc info other (Quorum_Raised e) = Dissent (info e)"
  by (cases e) auto

section \<open>Properties\<close>

text \<open>A run exits with 0, in the state Completed, exactly when its agents were loaded and its pipeline
  returned. Otherwise it exits with 2 exactly when what was raised, at any depth of its groups, holds a
  dissent or a misalignment, and the first of them decides whether the office is locked; any other exception exits
  with 1.\<close>

theorem exit_code_exact:
  "fst (run_office clk cwd ws dg inst resume pipeline g) =
     (case before_pipeline dg inst resume of
        Inl e \<Rightarrow> (if \<exists>h \<in> set (flatten e). halting h then 2 else 1)
      | Inr _ \<Rightarrow>
          (case fst (pipeline (with_events clk cwd ws resume g)) of
             Inr v \<Rightarrow> 0
           | Inl e \<Rightarrow> (if \<exists>h \<in> set (flatten e). halting h then 2 else 1))) \<and>
   (gov_state (snd (run_office clk cwd ws dg inst resume pipeline g)) = ''Completed'' \<longleftrightarrow>
     fst (run_office clk cwd ws dg inst resume pipeline g) = 0) \<and>
   (gov_state (snd (run_office clk cwd ws dg inst resume pipeline g)) = ''QUORUM_LOCKED_INTERVENTION'' \<longleftrightarrow>
     (\<exists>e d. (before_pipeline dg inst resume = Inl e \<or>
        before_pipeline dg inst resume = Inr () \<and> fst (pipeline (with_events clk cwd ws resume g)) = Inl e) \<and>
        find halting (flatten e) = Some (Dissent d)))"
proof -
  have code: "fst (exit_of e) = (if \<exists>h \<in> set (flatten e). halting h then 2 else 1)" for e
    using decisive_None [of e] by (auto simp: exit_of_def split: option.split exc.split)
  have done1: "snd (exit_of e) \<noteq> ''Completed''" "fst (exit_of e) \<noteq> 0" for e
    by (auto simp: exit_of_def split: option.split exc.split)
  have locked: "snd (exit_of e) = ''QUORUM_LOCKED_INTERVENTION'' \<longleftrightarrow> (\<exists>d. find halting (flatten e) = Some (Dissent d))" for e
    by (auto simp: exit_of_def decisive_def split: option.split exc.split)
  show ?thesis
    unfolding run_office_cases [THEN conjunct1] run_office_cases [THEN conjunct2]
    using done1 locked
    by (cases "before_pipeline dg inst resume"; cases "fst (pipeline (with_events clk cwd ws resume g))")
      (simp_all only: sum.case code, auto)
qed

theorem exit_code_exact_witness:
  "fst (run_office demo_clk [] JNull \<lparr>dg_pipeline = [], dg_agents = [], dg_overrides = []\<rparr> (\<lambda>_ _. Inr True) None
     (\<lambda>g. (Inr JNull, g)) demo_gov) = 2"
  using exit_code_exact [THEN conjunct1, of demo_clk "[]" JNull "\<lparr>dg_pipeline = [], dg_agents = [], dg_overrides = []\<rparr>"
      "\<lambda>_ _. Inr True" None "\<lambda>g. (Inr JNull, g)" demo_gov]
  by (simp add: before_pipeline_def needed_roles_def roles_def load_agent_def)

text \<open>C5: a vote that fails while the three-stage pipeline runs under the orchestrator makes it exit with 2
  and leaves the office locked for intervention.\<close>

theorem failed_vote_locks_office:
  assumes "pipe_reachable se uw m rt ex lo p" and "pp_task p i = Balloting tx env"
    and "dget handshake_schemas (en_schema_id env) = Some sch"
    and "in_order ord (validators_for_stage se uw m (stage_name i)) = Some vs"
    and "bs = collect_ballots (ballot_context env sch (stage_to_next (stage_name i)) invt) vs"
    and "enforce_quorum (qm_policy m) (stage_name i) bs = Inl e" and "\<forall>x. e \<noteq> UnknownMode x"
    and "before_pipeline dg inst resume = Inr ()"
  shows "fst (run_office oclk cwd ws dg inst resume
      (\<lambda>_. pipe_outcome info other r (pipe_run se uw (pipe_step se uw p (Ballots_In clk i ord invt)) es)) g) = 2 \<and>
    gov_state (snd (run_office oclk cwd ws dg inst resume
      (\<lambda>_. pipe_outcome info other r (pipe_run se uw (pipe_step se uw p (Ballots_In clk i ord invt)) es)) g)) =
      ''QUORUM_LOCKED_INTERVENTION''"
proof -
  let ?p = "pipe_run se uw (pipe_step se uw p (Ballots_In clk i ord invt)) es"
  have "pp_error ?p = Some (Quorum_Raised e)"
    using dissent_ends_run [OF assms(1-7) refl] by simp
  then have "fst (pipe_outcome info other r ?p) = Inl (Group r [Dissent (info e)])"
    by (simp add: pipe_outcome_def dissent_exc [OF assms(7)])
  then show ?thesis
    unfolding run_office_cases [THEN conjunct1] run_office_cases [THEN conjunct2]
    by (simp add: assms(8) exit_of_def decisive_def)
qed

theorem failed_vote_locks_office_witness:
  "fst (run_office demo_clk [] JNull \<lparr>dg_pipeline = [], dg_agents = map (\<lambda>x. (x, ([], []))) roles, dg_overrides = []\<rparr>
     (\<lambda>_ _. Inr True) None
     (\<lambda>_. pipe_outcome (\<lambda>_. []) (\<lambda>_. Other []) []
       (pipe_run (\<lambda>_. []) (\<lambda>_. False) (pipe_step (\<lambda>_. []) (\<lambda>_. False) demo_voting (Ballots_In demo_clk 0 [0] None)) []))
     demo_gov) = 2"
proof -
  let ?dg = "\<lparr>dg_pipeline = [], dg_agents = map (\<lambda>x. (x, ([], []))) roles, dg_overrides = []\<rparr> :: designated"
  obtain tx env sch vs where d: "pp_task demo_voting 0 = Balloting tx env" "dget handshake_schemas (en_schema_id env) = Some sch"
    "in_order [0] (validators_for_stage (\<lambda>_. []) (\<lambda>_. False) (pp_quorum demo_fresh) (stage_name 0)) = Some vs"
    "enforce_quorum (qm_policy (pp_quorum demo_fresh)) (stage_name 0)
      (collect_ballots (ballot_context env sch (stage_to_next (stage_name 0)) None) vs) = Inl (QuorumFailed (stage_name 0) 0 1 1)"
    using demo_dissent by blast
  have "before_pipeline ?dg (\<lambda>_ _. Inr True) None = Inr ()"
    by (simp add: before_pipeline_def needed_roles_def roles_def load_agent_def)
  from failed_vote_locks_office [OF demo_voting_reachable(2) d(1-3) refl d(4) _ this, THEN conjunct1] show ?thesis by blast
qed

end
