(* ===== verification/Replay.thy ===== *)
theory Replay
  imports Workspace_Tx Telemetry
begin

text \<open>
  \<^verbatim>\<open>core/replay.py\<close>: the replay of a captured proof ledger. The blocks are verified, each payload
  is a frame, and the files a transaction had staged, kept in its block as base64 text, are written to
  a sandbox directory. A file system is a map from absolute paths to contents.

  The lemmas show that replaying the block of a transaction writes back the contents it had staged,
  below the sandbox, and that a block with a forged key nevertheless writes outside it.
\<close>

section \<open>Base64\<close>

definition b64_val :: "char \<Rightarrow> nat option" where
  "b64_val c =
     (let n = of_char c :: nat in
      if 65 \<le> n \<and> n \<le> 90 then Some (n - 65)
      else if 97 \<le> n \<and> n \<le> 122 then Some (n - 71)
      else if 48 \<le> n \<and> n \<le> 57 then Some (n + 4)
      else if c = CHR ''+'' then Some 62
      else if c = CHR ''/'' then Some 63
      else None)"

text \<open>
  \<^verbatim>\<open>base64.b64decode(s, validate=True)\<close>: quadruples of digits, the last one padded; \<open>None\<close> is the
  exception. The bits a padded quadruple leaves over are ignored.
\<close>

fun b64decode :: "string \<Rightarrow> string option" where
  "b64decode [] = Some []"
| "b64decode [x, y, z, w] =
     (case (b64_val x, b64_val y) of
        (Some a, Some b) \<Rightarrow>
          if z = CHR ''='' \<and> w = CHR ''='' then Some [char_of ((a * 64 + b) div 16)]
          else
            (case b64_val z of
               None \<Rightarrow> None
             | Some c \<Rightarrow>
                 if w = CHR ''='' then
                   Some [char_of ((a * 64 + b) div 16), char_of ((a * 4096 + b * 64 + c) div 4 mod 256)]
                 else
                   (case b64_val w of
                      None \<Rightarrow> None
                    | Some d \<Rightarrow>
                        (let n = a * 262144 + b * 4096 + c * 64 + d
                         in Some [char_of (n div 65536), char_of (n div 256 mod 256), char_of (n mod 256)])))
      | _ \<Rightarrow> None)"
| "b64decode (x # y # z # w # v # rest) =
     (case (b64_val x, b64_val y, b64_val z, b64_val w) of
        (Some a, Some b, Some c, Some d) \<Rightarrow>
          (let n = a * 262144 + b * 4096 + c * 64 + d
           in map_option ((@) [char_of (n div 65536), char_of (n div 256 mod 256), char_of (n mod 256)])
                (b64decode (v # rest)))
      | _ \<Rightarrow> None)"
| "b64decode _ = None"

lemma b64_val_char:
  assumes "n < 64"
  shows "b64_val (b64_char n) = Some n"
proof -
  let ?a = "''ABCDEFGHIJKLMNOPQRSTUVWXYZabcdefghijklmnopqrstuvwxyz0123456789+/''"
  have all: "map b64_val ?a = map Some [0..<64]" by (simp add: b64_val_def upt_rec)
  have "b64_val (?a ! n) = map b64_val ?a ! n" by (rule nth_map [symmetric]) (use assms in simp)
  also have "\<dots> = map Some [0..<64] ! n" by (simp only: all)
  also have "\<dots> = Some n" using assms by simp
  finally show ?thesis by (simp only: b64_char_def)
qed

lemma b64_char_pad: "n < 64 \<Longrightarrow> b64_char n \<noteq> CHR ''=''"
proof
  assume "n < 64" and "b64_char n = CHR ''=''"
  moreover have "b64_val (CHR ''='') = None" by code_simp
  ultimately show False using b64_val_char [of n] by simp
qed

lemma of_char_less [simp]: "(of_char c :: nat) < 256"
  by simp

text \<open>The three bytes of a quadruple.\<close>

lemma b64_bytes:
  fixes a b c :: nat
  assumes "a < 256" and "b < 256" and "c < 256"
  defines "n \<equiv> a * 65536 + b * 256 + c"
  shows "n div 262144 * 262144 + n div 4096 mod 64 * 4096 + n div 64 mod 64 * 64 + n mod 64 = n"
    and "n div 262144 < 64" and "n div 65536 = a" and "n div 256 mod 256 = b" and "n mod 256 = c"
proof -
  have n: "n = (a * 256 + b) * 256 + c" by (simp add: n_def)
  have d: "n div 256 = a * 256 + b" using assms(3) unfolding n by (subst div_mult_self3) simp_all
  have m: "n mod 256 = c" using assms(3) unfolding n by (subst mod_mult_self3) simp
  have "n div 65536 = n div 256 div 256" by (simp add: div_mult2_eq [symmetric])
  with d assms(2) show a: "n div 65536 = a" by simp
  from d assms(2) show "n div 256 mod 256 = b" by simp
  from m show "n mod 256 = c" .
  have "n < 64 * 262144" using assms(1-3) by (simp add: n_def)
  then show "n div 262144 < 64" by (simp add: less_mult_imp_div_less)
  have q: "n div 4096 = n div 64 div 64" "n div 262144 = n div 64 div 64 div 64" by (simp_all add: div_mult2_eq [symmetric])
  show "n div 262144 * 262144 + n div 4096 mod 64 * 4096 + n div 64 mod 64 * 64 + n mod 64 = n"
    using div_mult_mod_eq [of n 64] div_mult_mod_eq [of "n div 64" 64] div_mult_mod_eq [of "n div 64 div 64" 64]
    unfolding q by linarith
qed

lemma b64_roundtrip: "b64decode (b64encode s) = Some s"
proof (induction s rule: b64encode.induct)
  case 1
  then show ?case by simp
next
  case (2 a)
  have n: "(of_char a * 16 :: nat) div 64 < 64" "(of_char a * 16 :: nat) mod 64 < 64"
    using nat_of_char_less_256 [of a] by linarith+
  have "(of_char a * 16) div 64 * 64 + (of_char a * 16) mod 64 = (of_char a * 16 :: nat)" by (rule div_mult_mod_eq)
  then show ?case
    by (simp only: b64encode.simps Let_def b64decode.simps b64_val_char [OF n(1)] b64_val_char [OF n(2)] option.case prod.case) simp
next
  case (3 a b)
  let ?n = "(of_char a * 256 + of_char b) * 4 :: nat"
  have "(x * 256 + y) * 4 < 64 * 4096" if "x < 256" "y < 256" for x y :: nat using that by simp
  from this [OF nat_of_char_less_256 nat_of_char_less_256] have lt: "?n < 64 * 4096" .
  then have n: "?n div 4096 < 64" "?n div 64 mod 64 < 64" "?n mod 64 < 64" by (simp_all add: less_mult_imp_div_less)
  have q: "?n div 4096 = ?n div 64 div 64" by (simp add: div_mult2_eq [symmetric])
  have whole: "?n div 4096 * 4096 + ?n div 64 mod 64 * 64 + ?n mod 64 = ?n"
    using div_mult_mod_eq [of ?n 64] div_mult_mod_eq [of "?n div 64" 64] unfolding q by linarith
  have hi: "?n div 4096 * 64 + ?n div 64 mod 64 = ?n div 64" using div_mult_mod_eq [of "?n div 64" 64] unfolding q by linarith
  have "?n div 64 div 16 = (of_char a * 256 + of_char b) div 256" by (simp add: div_mult2_eq [symmetric])
  also have "\<dots> = of_char a" using nat_of_char_less_256 [of b] by (subst div_mult_self3) simp_all
  finally have a: "(?n div 4096 * 64 + ?n div 64 mod 64) div 16 = of_char a" by (simp only: hi)
  have "(?n div 4096 * 4096 + ?n div 64 mod 64 * 64 + ?n mod 64) div 4 mod 256 = (of_char a * 256 + of_char b) mod 256"
    by (simp only: whole) simp
  also have "\<dots> = of_char b" using nat_of_char_less_256 [of b] by (subst mod_mult_self3) simp
  finally have b: "(?n div 4096 * 4096 + ?n div 64 mod 64 * 64 + ?n mod 64) div 4 mod 256 = of_char b" .
  have "b64encode [a, b] = [b64_char (?n div 4096), b64_char (?n div 64 mod 64), b64_char (?n mod 64), CHR ''='']"
    by (simp only: b64encode.simps Let_def)
  then show ?case
    using b64_char_pad [OF n(3)]
    by (simp only: b64decode.simps b64_val_char [OF n(1)] b64_val_char [OF n(2)] b64_val_char [OF n(3)]
        option.case prod.case a b char_of_char simp_thms if_True if_False)
next
  case (4 a b c cs)
  note f = b64_bytes [of "of_char a" "of_char b" "of_char c", OF nat_of_char_less_256 nat_of_char_less_256 nat_of_char_less_256]
  let ?n = "of_char a * 65536 + of_char b * 256 + of_char c :: nat"
  let ?q = "[b64_char (?n div 262144), b64_char (?n div 4096 mod 64), b64_char (?n div 64 mod 64), b64_char (?n mod 64)]"
  have enc: "b64encode (a # b # c # cs) = ?q @ b64encode cs" by (simp add: Let_def)
  have vals: "b64_val (b64_char (?n div 262144)) = Some (?n div 262144)" "b64_val (b64_char (?n div 4096 mod 64)) = Some (?n div 4096 mod 64)"
    "b64_val (b64_char (?n div 64 mod 64)) = Some (?n div 64 mod 64)" "b64_val (b64_char (?n mod 64)) = Some (?n mod 64)"
    by (rule b64_val_char; use f(2) in simp)+
  have bytes: "char_of (?n div 65536) = a" "char_of (?n div 256 mod 256) = b" "char_of (?n mod 256) = c"
    by (simp_all only: f(3-5) char_of_char)
  show ?case
  proof (cases "b64encode cs")
    case Nil
    with 4 have "cs = []" by simp
    moreover have "b64decode ?q = Some [a, b, c]"
      using b64_char_pad [of "?n div 64 mod 64"] b64_char_pad [of "?n mod 64"]
      by (simp only: b64decode.simps vals option.case prod.case Let_def f(1) bytes) simp
    ultimately show ?thesis unfolding enc Nil append_Nil2 by (simp only:)
  next
    case (Cons v rest)
    with 4 have "b64decode (v # rest) = Some cs" by simp
    then show ?thesis
      unfolding enc Cons append.simps by (simp only: b64decode.simps vals option.case prod.case Let_def f(1) bytes option.map append.simps)
  qed
qed

section \<open>Paths\<close>

text \<open>
  \<^verbatim>\<open>p / s\<close>: an absolute text discards \<open>p\<close>, and single dots vanish. \<open>real_path\<close> is where a path leads:
  a double dot goes up. Directories are no links.
\<close>

definition join_path :: "path \<Rightarrow> string \<Rightarrow> path" where
  "join_path p s = (if s \<noteq> [] \<and> hd s = CHR ''/'' then [] else p) @ filter (\<lambda>c. c \<noteq> ''.'') (path_of s)"

definition real_path :: "path \<Rightarrow> path" where
  "real_path p = foldl (\<lambda>q c. if c = ''..'' then butlast q else q @ [c]) [] p"

section \<open>Reading the source\<close>

datatype replay_error =
    StartOutOfRange int
  | SourceMissing string
  | BadLedger ledger_error
  | SnapshotNotJson
  | SnapshotNotObject

definition ends_with :: "string \<Rightarrow> string \<Rightarrow> bool" where
  "ends_with t s \<longleftrightarrow> length t \<le> length s \<and> drop (length s - length t) s = t"

definition verified :: "string option \<Rightarrow> (replay_error, jdict list) res" where
  "verified text1 = (case verify_ledger_blocks (iter_ledger_blocks text1) of Inl e \<Rightarrow> Inl (BadLedger e) | Inr bs \<Rightarrow> Inr bs)"

definition snapshot_block :: "(jval \<Rightarrow> string) \<Rightarrow> jdict \<Rightarrow> jdict" where
  "snapshot_block repr raw =
     [(''index'', JInt 0), (''ts_utc'', JStr ''snapshot''),
      (''execution_token'', JStr (py_str repr (or_else (jget raw ''execution_token'') (JStr ''snapshot'')))),
      (''prev_hash'', JStr (replicate 64 (CHR ''0''))), (''payload'', JObj raw),
      (''hash'', JStr (replicate 64 (CHR ''0''))), (''signature'', JStr ''00000000'')]"

text \<open>
  \<open>_load_verified_blocks\<close>: a number names the block of the log's ledger to start from, any other text a
  file. \<open>read\<close> gives the text of a file, named from the log directory. The text of digits is ASCII.
\<close>

definition load_verified_blocks ::
  "(jval \<Rightarrow> string) \<Rightarrow> (string \<Rightarrow> string option) \<Rightarrow> string \<Rightarrow> (replay_error, jdict list) res" where
  "load_verified_blocks repr read source =
     (let s = strip source in
      if s \<noteq> [] \<and> list_all is_digit s then
        res_bind (verified (read ''PROOFS_LEDGER.jsonl''))
          (\<lambda>bs. if length bs < read_nat s then Inl (StartOutOfRange (int (read_nat s))) else Inr (drop (read_nat s) bs))
      else
        (case read s of
           None \<Rightarrow> Inl (SourceMissing s)
         | Some t \<Rightarrow>
             if path_of s \<noteq> [] \<and> ends_with ''.jsonl'' (last (path_of s)) then verified (Some t)
             else
               (case loads t of
                  None \<Rightarrow> Inl SnapshotNotJson
                | Some (JObj raw) \<Rightarrow> Inr [snapshot_block repr raw]
                | Some _ \<Rightarrow> Inl SnapshotNotObject)))"

section \<open>Frames\<close>

definition replay_kind :: "jdict \<Rightarrow> string" where
  "replay_kind payload =
     (let fallback = (case jget payload ''event'' of JStr ev \<Rightarrow> if ev = [] then ''UNKNOWN'' else ev | _ \<Rightarrow> ''UNKNOWN'')
      in case jget payload ''kind'' of
           JStr kind \<Rightarrow>
             if kind = [] then fallback
             else if kind = ''GOV_EVENT'' then
               (case jget payload ''event'' of
                  JObj ev \<Rightarrow> (case jget ev ''event'' of JStr t \<Rightarrow> t | _ \<Rightarrow> kind)
                | _ \<Rightarrow> kind)
             else kind
         | _ \<Rightarrow> fallback)"

text \<open>The file a member of \<^verbatim>\<open>staged_files\<close> asks for: its path and its content, unless it is malformed.\<close>

definition staged_write :: "path \<Rightarrow> string \<Rightarrow> jval \<Rightarrow> (path \<times> string) option" where
  "staged_write base key meta =
     (case meta of
        JObj d \<Rightarrow>
          if CHR '':'' \<notin> set key then None
          else
            (case int_of_str (takeWhile (\<lambda>c. c \<noteq> CHR '':'') key) of
               None \<Rightarrow> None
             | Some i \<Rightarrow>
                 (case jget d ''content_b64'' of
                    JStr b \<Rightarrow>
                      map_option (\<lambda>data. (real_path (join_path (base @ [show_int i]) (tl (dropWhile (\<lambda>c. c \<noteq> CHR '':'') key))), data))
                        (b64decode b)
                  | _ \<Rightarrow> None))
      | _ \<Rightarrow> None)"

definition write_staged :: "path \<Rightarrow> jdict \<Rightarrow> (path, string) dict \<Rightarrow> (path, string) dict" where
  "write_staged base files fs =
     foldl (\<lambda>fs (key, meta). case staged_write base key meta of None \<Rightarrow> fs | Some (p, data) \<Rightarrow> dput p data fs) fs files"

definition staging_root :: "path \<Rightarrow> string \<Rightarrow> string \<Rightarrow> string \<Rightarrow> path" where
  "staging_root sandbox token stage txn =
     join_path (join_path (join_path (sandbox @ [''.workspace_staging'']) token) stage) txn"

record replay_frame =
  rf_index :: int
  rf_kind :: string
  rf_payload :: jdict
  rf_staging :: "path option"

definition text_field :: "(jval \<Rightarrow> string) \<Rightarrow> jdict \<Rightarrow> string \<Rightarrow> string" where
  "text_field repr payload k = py_str repr (or_else (jget payload k) (JStr []))"

text \<open>One payload: its frame, and the files after it.\<close>

definition replay_payload ::
  "(jval \<Rightarrow> string) \<Rightarrow> path \<Rightarrow> int \<Rightarrow> jdict \<Rightarrow> (path, string) dict \<Rightarrow> replay_frame \<times> (path, string) dict" where
  "replay_payload repr sandbox idx payload fs =
     (let kind = replay_kind payload;
          token = text_field repr payload ''token''; stage = text_field repr payload ''stage'';
          txn = text_field repr payload ''txn_id'';
          base = staging_root sandbox token stage txn
      in case jget payload ''staged_files'' of
           JObj files \<Rightarrow>
             if kind \<in> {''TX_COMMIT'', ''TX_ROLLBACK''} \<and> token \<noteq> [] \<and> stage \<noteq> [] \<and> txn \<noteq> []
             then (\<lparr>rf_index = idx, rf_kind = kind, rf_payload = payload, rf_staging = Some base\<rparr>, write_staged base files fs)
             else (\<lparr>rf_index = idx, rf_kind = kind, rf_payload = payload, rf_staging = None\<rparr>, fs)
         | _ \<Rightarrow> (\<lparr>rf_index = idx, rf_kind = kind, rf_payload = payload, rf_staging = None\<rparr>, fs))"

text \<open>\<open>replay_step_loop\<close> over the loaded blocks; a payload that is no object is passed over.\<close>

fun replay_blocks ::
  "(jval \<Rightarrow> string) \<Rightarrow> path \<Rightarrow> jdict list \<Rightarrow> (path, string) dict \<Rightarrow> replay_frame list \<times> (path, string) dict" where
  "replay_blocks repr sandbox [] fs = ([], fs)"
| "replay_blocks repr sandbox (b # bs) fs =
     (case jget b ''payload'' of
        JObj payload \<Rightarrow>
          (let idx = (case to_int (case dget b ''index'' of None \<Rightarrow> JInt 0 | Some v \<Rightarrow> v) of Some i \<Rightarrow> i | None \<Rightarrow> 0);
               (frame, fs1) = replay_payload repr sandbox idx payload fs;
               (frames, fs2) = replay_blocks repr sandbox bs fs1
           in (frame # frames, fs2))
      | _ \<Rightarrow> replay_blocks repr sandbox bs fs)"

definition replay_step_loop ::
  "(jval \<Rightarrow> string) \<Rightarrow> (string \<Rightarrow> string option) \<Rightarrow> path \<Rightarrow> string \<Rightarrow> (path, string) dict
    \<Rightarrow> (replay_error, replay_frame list \<times> nat) res \<times> (path, string) dict" where
  "replay_step_loop repr read sandbox source fs =
     (case load_verified_blocks repr read source of
        Inl e \<Rightarrow> (Inl e, fs)
      | Inr bs \<Rightarrow> (let (frames, fs1) = replay_blocks repr sandbox bs fs in (Inr (frames, length bs), fs1)))"

section \<open>What a transaction's block holds\<close>

lemma digit_plain:
  assumes "is_digit c"
  shows "\<not> is_cont c" and "\<not> is_space [c]" and "c \<noteq> CHR '':''" and "c \<noteq> CHR ''-''" and "c \<noteq> CHR ''+''" and "c \<noteq> CHR ''_''"
proof -
  show "\<not> is_cont c" using assms by (simp add: is_digit_def is_cont_def)
  show "\<not> is_space [c]" using assms by (auto simp: is_digit_def is_space_def is_line_break_def)
  show "c \<noteq> CHR '':''" "c \<noteq> CHR ''-''" "c \<noteq> CHR ''+''" "c \<noteq> CHR ''_''" using assms by (auto simp: is_digit_def)
qed

lemma digits_int:
  assumes "\<forall>c \<in> set s. is_digit c" and "s \<noteq> []"
  shows "int_of_str s = Some (int (read_nat s))"
proof -
  have u: "uchars s = map (\<lambda>c. [c]) s" using assms(1) digit_plain(1) by (intro uchars_ascii) blast
  have "dropWhile is_space (map (\<lambda>c. [c]) t) = map (\<lambda>c. [c]) t" if "\<forall>c \<in> set t. is_digit c" for t
    using that digit_plain(2) by (cases t) auto
  from this [of s] this [of "rev s"] assms(1) have "strip s = s"
    by (simp add: strip_def u rev_map concat_map_singleton)
  moreover have "drop_underscores b t = Some t" if "\<forall>c \<in> set t. is_digit c" for b t
    using that digit_plain(6) by (induction t arbitrary: b) auto
  moreover have "split_sign s = (False, s)"
    using assms digit_plain(4,5) by (cases s) (auto simp: split_sign_def)
  ultimately show ?thesis using assms by (simp add: int_of_str_def list_all_iff)
qed

lemma int_of_show_nat: "int_of_str (show_nat n) = Some (int n)"
  using digits_int [OF show_nat_digits] by simp

definition file_key :: "nat \<Rightarrow> string \<Rightarrow> string" where
  "file_key r rel = show_nat r @ '':'' @ rel"

lemma key_before: "takeWhile (\<lambda>c. c \<noteq> CHR '':'') (file_key r rel) = show_nat r"
  and key_after: "dropWhile (\<lambda>c. c \<noteq> CHR '':'') (file_key r rel) = '':'' @ rel"
  using show_nat_digits [of r] digit_plain(3)
  by (auto simp: file_key_def takeWhile_append2 dropWhile_append2)

lemma file_key_inj [simp]: "file_key r rel = file_key r' rel' \<longleftrightarrow> r = r' \<and> rel = rel'"
  by (metis key_before key_after append_same_eq list.inject append_Cons append_Nil read_show_nat)

lemma staged_files_eq:
  "staged_files tx = foldl (\<lambda>d e. if te_op e = Write then
     (case dget (staged tx) (te_root e, te_rel e) of None \<Rightarrow> d | Some c \<Rightarrow> dput (file_key (te_root e) (te_rel e)) (staged_item c) d)
     else d) [] (sort_key snapshot_key (touched tx))"
  unfolding staged_files_def file_key_def by (rule refl)

text \<open>Its members are the staged contents of the written entries.\<close>

lemma dget_staged_files:
  "dget (staged_files tx) k = Some v \<longleftrightarrow>
     (\<exists>e \<in> set (touched tx). te_op e = Write \<and> k = file_key (te_root e) (te_rel e) \<and>
        (\<exists>c. dget (staged tx) (te_root e, te_rel e) = Some c \<and> v = staged_item c))"
proof -
  let ?f = "\<lambda>d e. if te_op e = Write then
     (case dget (staged tx) (te_root e, te_rel e) of None \<Rightarrow> d | Some c \<Rightarrow> dput (file_key (te_root e) (te_rel e)) (staged_item c) d)
     else d"
  have "dget (foldl ?f [] es) k = Some v \<longleftrightarrow>
     (\<exists>e \<in> set es. te_op e = Write \<and> k = file_key (te_root e) (te_rel e) \<and>
        (\<exists>c. dget (staged tx) (te_root e, te_rel e) = Some c \<and> v = staged_item c))" for es
  proof (induction es rule: rev_induct)
    case (snoc e es)
    show ?case
    proof (cases "te_op e = Write")
      case False
      then show ?thesis using snoc.IH by simp
    next
      case True
      show ?thesis
      proof (cases "dget (staged tx) (te_root e, te_rel e)")
        case None
        then show ?thesis using snoc.IH by simp
      next
        case (Some c)
        show ?thesis
        proof (cases "k = file_key (te_root e) (te_rel e)")
          case True
          then show ?thesis using Some \<open>te_op e = Write\<close> by (simp add: dget_dput) (metis option.inject)
        next
          case False
          then show ?thesis using Some \<open>te_op e = Write\<close> snoc.IH by (simp add: dget_dput)
        qed
      qed
    qed
  qed simp
  from this [of "sort_key snapshot_key (touched tx)"] show ?thesis by (simp add: staged_files_eq)
qed

lemma wf_staged_files: "wf_dict (staged_files tx)"
  unfolding staged_files_eq by (rule foldl_invariant) (auto split: option.split)

text \<open>A staged member asks for its content to be written, when it was small enough to be kept.\<close>

lemma b64_field: "jget (case canon (staged_item data) of JObj d \<Rightarrow> d | _ \<Rightarrow> []) ''content_b64'' =
    (if length data \<le> 65536 then JStr (b64encode data) else JNull)"
proof -
  let ?d = "[(''sha256'', JStr (sha256_hex data)), (''bytes'', JInt (int (length data)))] @
           (if length data \<le> 65536 then [(''content_b64'', JStr (b64encode data))] else [])"
  have "wf_dict ?d" by (simp add: wf_dict_def)
  moreover have "canon (JStr t) = JStr t" for t by simp
  moreover have "canon JNull = JNull" by simp
  ultimately show ?thesis using jget_canon [of ?d "''content_b64''"]
    by (cases "length data \<le> 65536") (simp_all add: staged_item_def canon_JObj jget_def dget_def del: canon.simps)
qed

text \<open>The paths a relative text of plain components names.\<close>

definition plain_path :: "path \<Rightarrow> bool" where
  "plain_path p \<longleftrightarrow> p \<noteq> [] \<and> path_ok p \<and> ''.'' \<notin> set p \<and> ''..'' \<notin> set p"

lemma posix_plain:
  assumes "plain_path p"
  shows "path_of (posix p) = p" and "posix p \<noteq> []" and "hd (posix p) \<noteq> CHR ''/''"
proof -
  show o: "path_of (posix p) = p" using assms path_of_join by (simp add: plain_path_def posix_def)
  show ne: "posix p \<noteq> []" using o assms by (auto simp: plain_path_def path_of_def)
  obtain c cs where p: "p = c # cs" and c: "c \<noteq> []" "CHR ''/'' \<notin> set c"
    using assms by (cases p) (auto simp: plain_path_def path_ok_def)
  have "hd (posix p) = hd c" using c(1) by (cases cs) (auto simp: p posix_def)
  then show "hd (posix p) \<noteq> CHR ''/''" using c by (metis hd_in_set)
qed

lemma join_plain: "plain_path p \<Longrightarrow> join_path q (posix p) = q @ p"
  using posix_plain [of p] by (auto simp: join_path_def plain_path_def filter_id_conv)

lemma real_plain: "''..'' \<notin> set p \<Longrightarrow> real_path (q @ p) = real_path q @ p"
  by (induction p rule: rev_induct) (auto simp: real_path_def)

lemma show_nat_plain: "show_nat n \<noteq> ''..''"
  using show_nat_digits [of n] by (auto simp: is_digit_def)

lemma staged_write_item:
  assumes "plain_path p" and "length data \<le> 65536"
  shows "staged_write base (file_key r (posix p)) (canon (staged_item data)) = Some (real_path base @ show_nat r # p, data)"
proof -
  obtain d where d: "canon (staged_item data) = JObj d" by (simp add: staged_item_def canon_JObj del: canon.simps)
  have "CHR '':'' \<in> set (file_key r (posix p))" by (simp add: file_key_def)
  moreover have "jget d ''content_b64'' = JStr (b64encode data)" using b64_field [of data] assms(2) by (simp add: d)
  moreover have "real_path ((base @ [show_nat r]) @ p) = real_path base @ [show_nat r] @ p"
    using assms(1) real_plain [of "[show_nat r] @ p" base] show_nat_plain [of r] by (simp add: plain_path_def)
  ultimately show ?thesis
    using join_plain [OF assms(1), of "base @ [show_nat r]"]
    by (simp add: staged_write_def d key_before key_after int_of_show_nat b64_roundtrip show_int_def)
qed

text \<open>Of the members that ask for one path the last is the one written; here they agree.\<close>

lemma write_staged_member:
  assumes "(k, v) \<in> set d" and "staged_write base k v = Some (q, data)"
    and "\<And>k' v' data'. (k', v') \<in> set d \<Longrightarrow> staged_write base k' v' = Some (q, data') \<Longrightarrow> data' = data"
  shows "dget (write_staged base d fs) q = Some data"
proof -
  let ?f = "\<lambda>fs (key, meta). case staged_write base key meta of None \<Rightarrow> fs | Some (p, data) \<Rightarrow> dput p data fs"
  have "dget (foldl ?f fs xs) q = Some data"
    if "\<exists>(k, v) \<in> set xs. \<exists>data. staged_write base k v = Some (q, data)" and "set xs \<subseteq> set d" for xs
    using that
  proof (induction xs rule: rev_induct)
    case (snoc x xs)
    obtain key meta where x: "x = (key, meta)" by (cases x)
    show ?case
    proof (cases "staged_write base key meta")
      case None
      then show ?thesis using snoc by (auto simp: x)
    next
      case (Some w)
      obtain q' data' where w: "w = (q', data')" by (cases w)
      show ?thesis
      proof (cases "q' = q")
        case True
        then show ?thesis using assms(3) [of key meta data'] Some snoc.prems(2) by (simp add: x w)
      next
        case False
        then show ?thesis using Some snoc by (auto simp: x w)
      qed
    qed
  qed simp
  from this [of d] assms(1,2) show ?thesis unfolding write_staged_def by blast
qed

definition kept_entry :: "wtx \<Rightarrow> touched_entry \<Rightarrow> bool" where
  "kept_entry tx e \<longleftrightarrow> e \<in> set (touched tx) \<and> te_op e = Write \<and> dget (staged tx) (te_root e, te_rel e) \<noteq> None"

lemma write_staged_restores:
  assumes plain: "\<And>e. kept_entry tx e \<Longrightarrow> \<exists>p. plain_path p \<and> te_rel e = posix p"
    and e: "kept_entry tx e" "te_rel e = posix p" "plain_path p"
    and data: "dget (staged tx) (te_root e, te_rel e) = Some data" "length data \<le> 65536"
  shows "dget (write_staged base (canon_dict (staged_files tx)) fs) (real_path base @ show_nat (te_root e) # p) = Some data"
proof -
  have members: "dget (canon_dict (staged_files tx)) k = map_option canon (dget (staged_files tx) k)" for k
    by (rule dget_canon_dict [OF wf_staged_files])
  have "dget (staged_files tx) (file_key (te_root e) (posix p)) = Some (staged_item data)"
    using e data(1) unfolding dget_staged_files kept_entry_def by metis
  then have "dget (canon_dict (staged_files tx)) (file_key (te_root e) (posix p)) = Some (canon (staged_item data))"
    by (simp add: members)
  then have mem: "(file_key (te_root e) (posix p), canon (staged_item data)) \<in> set (canon_dict (staged_files tx))"
    unfolding dget_def by (rule map_of_SomeD)
  show ?thesis
  proof (rule write_staged_member [OF mem staged_write_item [OF e(3) data(2)]])
    fix k' v' data'
    assume m': "(k', v') \<in> set (canon_dict (staged_files tx))"
      and w': "staged_write base k' v' = Some (real_path base @ show_nat (te_root e) # p, data')"
    have "wf_dict (canon_dict (staged_files tx))"
      by (rule wf_canon_dict_dict [OF wf_staged_files])
    with m' have "dget (canon_dict (staged_files tx)) k' = Some v'" by (simp add: dget_def wf_dict_def)
    then obtain u where u: "dget (staged_files tx) k' = Some u" "v' = canon u" by (auto simp: members)
    then obtain e' c where e': "kept_entry tx e'" "k' = file_key (te_root e') (te_rel e')"
      "dget (staged tx) (te_root e', te_rel e') = Some c" "u = staged_item c"
      unfolding dget_staged_files kept_entry_def by auto
    from plain [OF e'(1)] obtain p' where p': "plain_path p'" "te_rel e' = posix p'" by blast
    have small: "length c \<le> 65536"
    proof (rule ccontr)
      assume "\<not> length c \<le> 65536"
      then show False using w' b64_field [of c] by (simp add: u(2) e'(4) staged_write_def split: jval.splits option.splits if_splits)
    qed
    from staged_write_item [OF p'(1) small, of base "te_root e'"] w' u(2) e'(2,4) p'(2)
    have "show_nat (te_root e') # p' = show_nat (te_root e) # p" "data' = c" by simp_all
    then have "te_root e' = te_root e" "te_rel e' = te_rel e"
      using read_show_nat p'(2) e(2) by (metis list.inject)+
    then show "data' = data" using \<open>data' = c\<close> e'(3) data(1) by simp
  qed
qed

lemma text_field_str: "text_field repr d k = t" if "jget d k = JStr t"
  using that by (cases t) (simp_all add: text_field_def or_else_def py_str_def)

section \<open>Properties\<close>

text \<open>C23: replaying the block a transaction appends at its commit or its rollback, as it is read back from
  the ledger, restores every staged file of at most 65536 bytes: below the staging directory of the
  sandbox it holds exactly the content that was staged, whatever was there before.
\<close>

theorem replay_restores_staged:
  assumes "kind \<in> {''TX_COMMIT'', ''TX_ROLLBACK''}"
    and "tx_token tx \<noteq> []" and "tx_stage tx \<noteq> []" and "txn_id tx \<noteq> []"
    and "\<And>e. kept_entry tx e \<Longrightarrow> \<exists>p. plain_path p \<and> te_rel e = posix p"
    and "kept_entry tx e" and "te_rel e = posix p" and "plain_path p"
    and "dget (staged tx) (te_root e, te_rel e) = Some data" and "length data \<le> 65536"
    and "replay_payload repr sandbox idx (canon_dict (tx_block kind tx js (staged_files tx))) fs = (frame, fs')"
  shows "rf_kind frame = kind \<and>
    rf_staging frame = Some (staging_root sandbox (tx_token tx) (tx_stage tx) (txn_id tx)) \<and>
    dget fs' (real_path (staging_root sandbox (tx_token tx) (tx_stage tx) (txn_id tx)) @ show_nat (te_root e) # p) = Some data"
proof -
  let ?b = "canon_dict (tx_block kind tx js (staged_files tx))"
  have wf: "wf_dict (tx_block kind tx js (staged_files tx))" by (simp add: tx_block_def wf_dict_def)
  have js: "canon (JStr t) = JStr t" for t by simp
  have get: "jget ?b k = canon (jget (tx_block kind tx js (staged_files tx)) k)" for k by (rule jget_canon [OF wf])
  have kind: "jget ?b ''kind'' = JStr kind" and token: "jget ?b ''token'' = JStr (tx_token tx)"
    and stage: "jget ?b ''stage'' = JStr (tx_stage tx)" and txn: "jget ?b ''txn_id'' = JStr (txn_id tx)"
    unfolding get by (simp_all add: tx_block_def js del: canon.simps)
  have files: "jget ?b ''staged_files'' = JObj (canon_dict (staged_files tx))"
    unfolding get by (simp add: tx_block_def canon_JObj del: canon.simps)
  have fk: "replay_kind ?b = kind" using assms(1) by (auto simp: replay_kind_def kind)
  let ?base = "staging_root sandbox (tx_token tx) (tx_stage tx) (txn_id tx)"
  have "replay_payload repr sandbox idx ?b fs =
      (\<lparr>rf_index = idx, rf_kind = kind, rf_payload = ?b, rf_staging = Some ?base\<rparr>,
       write_staged ?base (canon_dict (staged_files tx)) fs)"
    using assms(1-4)
    by (simp add: replay_payload_def Let_def fk files text_field_str [OF token] text_field_str [OF stage] text_field_str [OF txn])
  then have frame: "frame = \<lparr>rf_index = idx, rf_kind = kind, rf_payload = ?b, rf_staging = Some ?base\<rparr>"
    and fs': "fs' = write_staged ?base (canon_dict (staged_files tx)) fs"
    using assms(11) by simp_all
  have "dget fs' (real_path ?base @ show_nat (te_root e) # p) = Some data"
    unfolding fs' by (rule write_staged_restores [OF assms(5-10)])
  then show ?thesis by (simp add: frame)
qed

definition replayed_entry :: touched_entry where
  "replayed_entry = \<lparr>te_op = Write, te_root = 0, te_rel = ''d/f''\<rparr>"

definition replayed_tx :: wtx where
  "replayed_tx = demo_tx\<lparr>touched := [replayed_entry], staged := [((0, ''d/f''), ''new'')]\<rparr>"

theorem replay_restores_staged_witness:
  "dget (snd (replay_payload (\<lambda>_. []) [''tmp''] 0 (canon_dict (tx_block ''TX_COMMIT'' replayed_tx JNull (staged_files replayed_tx))) []))
     [''tmp'', ''.workspace_staging'', ''t'', ''s'', ''u'', ''0'', ''d'', ''f''] = Some ''new''"
proof -
  have tx: "tx_token replayed_tx = ''t''" "tx_stage replayed_tx = ''s''" "txn_id replayed_tx = ''u''"
    by (simp_all add: replayed_tx_def demo_tx_def)
  have only: "kept_entry replayed_tx e \<longleftrightarrow> e = replayed_entry" for e
    by (auto simp: kept_entry_def replayed_tx_def replayed_entry_def dget_def)
  have p: "plain_path [''d'', ''f'']" "te_rel replayed_entry = posix [''d'', ''f'']"
    by (simp_all add: plain_path_def path_ok_def replayed_entry_def posix_def)
  have d: "dget (staged replayed_tx) (te_root replayed_entry, te_rel replayed_entry) = Some ''new''"
    by (simp add: replayed_tx_def replayed_entry_def dget_def)
  obtain frame fs' where r: "replay_payload (\<lambda>_. []) [''tmp''] 0
      (canon_dict (tx_block ''TX_COMMIT'' replayed_tx JNull (staged_files replayed_tx))) [] = (frame, fs')"
    by fastforce
  have "dget fs' (real_path (staging_root [''tmp''] (tx_token replayed_tx) (tx_stage replayed_tx) (txn_id replayed_tx))
      @ show_nat (te_root replayed_entry) # [''d'', ''f'']) = Some ''new''"
    by (rule replay_restores_staged [THEN conjunct2, THEN conjunct2, OF _ _ _ _ _ _ p(2,1) d _ r]) (use p in \<open>auto simp: tx only\<close>)
  moreover have "real_path (staging_root [''tmp''] ''t'' ''s'' ''u'') = [''tmp'', ''.workspace_staging'', ''t'', ''s'', ''u'']"
    by code_simp
  moreover have "show_nat 0 = ''0''" by code_simp
  ultimately show ?thesis by (simp add: r tx replayed_entry_def)
qed

text \<open>
  A member whose key names an absolute path is written there, outside the sandbox: a snapshot, which
  nothing verifies, can name any file.
\<close>

theorem forged_key_escapes:
  assumes "read ''s.json'' = Some text1" and "loads text1 = Some (JObj payload)"
    and "jget payload ''kind'' = JStr ''TX_COMMIT''" and "jget payload ''token'' = JStr ''t''"
    and "jget payload ''stage'' = JStr ''s''" and "jget payload ''txn_id'' = JStr ''u''"
    and "jget payload ''staged_files'' = JObj [(''0:/etc/x'', JObj [(''content_b64'', JStr (b64encode data))])]"
  shows "dget (snd (replay_step_loop repr read sandbox ''s.json'' fs)) [''etc'', ''x''] = Some data"
proof -
  have src: "strip ''s.json'' = ''s.json''" "\<not> list_all is_digit ''s.json''" "path_of ''s.json'' = [''s.json'']"
    "\<not> ends_with ''.jsonl'' ''s.json''"
    by code_simp+
  have load: "load_verified_blocks repr read ''s.json'' = Inr [snapshot_block repr payload]"
    using src assms(1,2) by (simp only: load_verified_blocks_def Let_def simp_thms if_False option.case jval.case last.simps if_True list.distinct)
  have b: "jget (snapshot_block repr payload) ''payload'' = JObj payload" by (simp add: snapshot_block_def)
  have key: "int_of_str ''0'' = Some 0" "real_path (join_path q ''/etc/x'') = [''etc'', ''x'']" for q
    by code_simp (simp add: join_path_def, code_simp)
  have w: "staged_write base ''0:/etc/x'' (JObj [(''content_b64'', JStr (b64encode data))]) = Some ([''etc'', ''x''], data)" for base
    by (simp add: staged_write_def key b64_roundtrip)
  have fk: "replay_kind payload = ''TX_COMMIT''" using assms(3) by (simp add: replay_kind_def)
  have "dget (snd (replay_payload repr sandbox idx payload fs)) [''etc'', ''x''] = Some data" for idx
    by (simp add: replay_payload_def Let_def fk assms(7) text_field_str [OF assms(4)] text_field_str [OF assms(5)]
        text_field_str [OF assms(6)] write_staged_def w)
  then show ?thesis
    by (simp add: replay_step_loop_def load b split: prod.splits) (metis snd_conv)
qed

end
