(* ===== verification/Spec2Isabelle.thy ===== *)
theory Spec2Isabelle
  imports Schema Proof_Ledger Fork_Resolver Fault Governance Quorum Workspace_Tx Rollup Consensus Recovery Telemetry
    Cache Dag_Progress Blueprint Handshake Pipeline_Safety Pipeline_Progress Pipeline_Resume Mission_Store Repo_Router
    Work_Queue Tool_Router Scheduler Validator Matrix_Verifier Twin_Pipeline Orchestrator Replay
begin

text \<open>
  A verification library for REMOTE-AGENTS, a runtime in which agents hand work on to one
  another, every hand-over is validated, voted on and recorded in a hash-chained ledger, and the
  writes of an agent reach the repository only when its work was accepted. The theories follow the
  modules of \<^verbatim>\<open>core/\<close> (the runtime) and of \<^verbatim>\<open>src/\<close> (missions, scheduling and routing around
  it); paths are given relative to the root of the repository, so \<^verbatim>\<open>src/mission_engine\<close> is the
  package of that name in the directory \<^verbatim>\<open>src\<close> of the repository.

  \<^bold>\<open>The parts and how they interact.\<close>

  \<^item> The pipeline (\<^verbatim>\<open>core/handshake.py\<close>, theories \<open>Handshake\<close>, \<open>Pipeline_Safety\<close>,
    \<open>Pipeline_Progress\<close>, \<open>Pipeline_Resume\<close>) lets three agents and a builder work in turn. It uses the
    schema guard (\<^verbatim>\<open>core/schema.py\<close>, \<open>Schema\<close>), the validation quorum (\<^verbatim>\<open>core/quorum.py\<close>, \<open>Quorum\<close>,
    \<open>Quorum_Systems\<close>), workspace transactions (\<^verbatim>\<open>core/transaction_manager.py\<close>, \<open>Workspace_Tx\<close>), the
    checkpoint (\<^verbatim>\<open>core/recovery.py\<close>, \<open>Recovery\<close>) and the governance log (\<^verbatim>\<open>core/governance.py\<close>,
    \<open>Governance\<close>). The orchestrator (\<^verbatim>\<open>core/orchestrator.py\<close>, \<open>Orchestrator\<close>) loads the agents, starts the
    pipeline and turns its outcome into an exit code.
  \<^item> The twin pipeline (the classes \<^verbatim>\<open>HandshakePipeline\<close> and \<^verbatim>\<open>TwinAuditor\<close> of \<^verbatim>\<open>core/handshake.py\<close>,
    \<open>Twin_Pipeline\<close>) runs four agents through the stage cache with an auditor between each two. It uses the
    validator of the schema files (\<^verbatim>\<open>core/validator.py\<close>, \<open>Validator\<close>) and the verifier of transitions
    (\<^verbatim>\<open>core/matrix_verifier.py\<close>, \<open>Matrix_Verifier\<close>).
  \<^item> The proof ledger (\<^verbatim>\<open>core/proof_ledger.py\<close>, \<open>Hash_Chain\<close>, \<open>Proof_Ledger\<close>) is an append-only file
    of hash-linked, signed blocks. The fork resolver (\<^verbatim>\<open>core/fork_resolver.py\<close>, \<open>Fork_Resolver\<close>) finds
    and heals forks in it, the rollup engine (\<^verbatim>\<open>core/rollup.py\<close>, \<open>Rollup\<close>) compresses telemetry into
    its payloads, and the consensus node (\<^verbatim>\<open>core/consensus_node.py\<close>, \<open>Consensus\<close>) replicates it; replay
    (\<^verbatim>\<open>core/replay.py\<close>, \<open>Replay\<close>) rebuilds staged files from it.
  \<^item> The workspace engine (\<^verbatim>\<open>core/dag_engine.py\<close>, \<open>Dag_Engine\<close>, \<open>Dag_Progress\<close>, \<open>Blueprint\<close>) runs a
    graph of agent calls over the stage cache (\<^verbatim>\<open>core/cache.py\<close>, \<open>Cache\<close>). Telemetry
    (\<^verbatim>\<open>core/telemetry.py\<close>, \<open>Bounded_Log\<close>, \<open>Telemetry\<close>) and fault snapshots (\<^verbatim>\<open>core/fault.py\<close>,
    \<open>Fault\<close>) record what happens.
  \<^item> Missions (\<^verbatim>\<open>src/mission_engine\<close>, \<open>Missions\<close>, \<open>Mission_Store\<close>) are planned into tasks by the
    repository router (\<^verbatim>\<open>src/routers/repo_governance_router.py\<close>, \<open>Repo_Router\<close>). Tasks are given to
    workers by the scheduler (\<^verbatim>\<open>src/scheduler\<close>, \<open>Scheduler\<close>), which asks the tool router
    (\<^verbatim>\<open>src/tool_router\<close>, \<open>Tool_Router\<close>); work packages are ordered by the work queue manager
    (\<^verbatim>\<open>src/work_queue_manager\<close>, \<open>Work_Queue\<close>).

  \<^bold>\<open>How the code is modelled.\<close> Python text is its UTF-8 bytes, a dictionary an association list in
  insertion order, a JSON value the datatype \<^typ>\<open>jval\<close>, a float the text \<^verbatim>\<open>repr\<close> prints for it, with
  exact rounding (\<open>Prelude\<close>, \<open>Json\<close>, \<open>Py_Float\<close>, \<open>Py_Convert\<close>). \<^verbatim>\<open>json.dumps\<close> and
  \<^verbatim>\<open>json.loads\<close> are functions on these (\<open>Json\<close>, \<open>Json_Reader\<close>, \<open>Json_Pretty\<close>, \<open>Json_Lines\<close>), and so
  are SHA-256 and FNV-1a (\<open>Hashing\<close>); hashing is never assumed to be injective, results about content
  say "or two different inputs with the same hash exist". An operation that may raise returns
  \<open>Inl\<close> with a constructor per exception; state is a record that is passed on; a file is its text or,
  where stated, the value read from it. A coroutine is cut at its awaits: a handler is a function on
  the state, and what may run in between is another step, so the theorems on pipelines, the graph
  engine and the consensus node hold for every interleaving. Clocks, random identifiers, and what
  agents, validators and other processes answer are arguments of the steps.

  \<^bold>\<open>What the lemmas show.\<close> Reading back what was written gives the same value, for JSON text, ledger lines,
  checkpoints, missions and cached results. A ledger grown by any sequence of appends verifies; equal last hashes
  mean equal ledgers; the longest valid chain is found, and healing returns a ledger that verifies. The validator
  accepts exactly the values its schema describes; the quorum passes exactly when enough validators do, and
  two quorums share a correct voter. A transaction never touches the live files before its commit, and
  a crashed commit is completed to the same files. Every pipeline run keeps the order of votes, records and
  writes, never deadlocks on its queues, and halts on a dissent, which locks the office under the orchestrator. Every
  run of the twin pipeline, whatever its interleaving, ends as its seven operations in sequence do, and an artifact it
  returns was made from packets that their schema files admit. Replaying the block of a transaction restores what
  was staged. The graph engine starts a node after its
  dependencies, or, on a cycle, never finishes. A consensus node votes once per height and commits only with a
  quorum. Mission and scheduler files stay readable under all operations; routes, workers and queue
  positions are the ones the registries and dependencies ask for.

  \<^bold>\<open>Interfaces.\<close> \<open>py_dict\<close> is the contract of dictionaries, \<open>jsonl_store\<close> of append-only logs,
  \<open>hash_chain\<close> of linked blocks (the proof ledger and the fork resolver provide it), \<open>threshold_quorum\<close>
  of quorums (the validation quorum and the consensus node), \<open>bounded_log\<close> of the ring buffers
  and \<open>lock_table\<close> of the transaction locks. Each is interpreted in the theory that provides it.

  \<^bold>\<open>Bounds and fuel.\<close> The JSON reader recurses with fuel \<open>2 * length + 2\<close>, which every value it can
  read stays below (\<open>loads_dumps\<close>). All other recursions are structural or have a termination proof
  (the bit length, the draining of the ready queue, the chains of the resolver, the search for the order of
  work packages). Words are 32 bits where the code masks them. Loops that may poll forever are step relations,
  for which progress, or the lack of it, is a theorem. Python's bound on the depth of recursion is not modelled.

  \<^bold>\<open>Not modelled.\<close> Process isolation (\<^verbatim>\<open>core/sandbox.py\<close>), sockets and the tool protocol
  (\<^verbatim>\<open>core/mcp_bridge.py\<close>), the parser of the agent guide (\<^verbatim>\<open>core/parsers.py\<close>), the write guard of the replay, logging set-up, the agents themselves and the model they call, the
  command lines, the dashboards, and the report generators of \<^verbatim>\<open>src/\<close> that collect JSON reports into
  further JSON reports (portfolio, governance, release, remediation, executive briefing). Their manifest
  entries give the reason for each. File systems are maps: directories, permissions and I/O errors do not appear.
\<close>

end
